(* ===== verification/Prelude.thy ===== *)
theory Prelude
  imports Main "HOL-Library.Word" "HOL-Library.Multiset"
begin

text \<open>
  The vocabulary that the component theories share: the machine integers of the Rust
  source, the text encodings behind its string type, partial maps updated in bulk, and
  a few list facts. The named collections below gather the rules that the component
  proofs use, so that a proof says which layer it works on instead of listing lemmas.
\<close>

named_theorems str_simps \<open>rewriting rules of the string layer\<close>
named_theorems map_simps \<open>rewriting rules for maps restricted or filtered in bulk\<close>

section \<open>Machine integers\<close>

text \<open>
  Rust's \<open>u32\<close> and \<open>u64\<close> are words. \<open>usize\<close> is modelled by \<open>nat\<close> where it
  counts bytes or elements of something in memory, because such a count is below
  \<open>2 ^ 63\<close>; where the code itself guards against overflow the bound is written out.
\<close>

type_synonym u32 = "32 word"
type_synonym u64 = "64 word"

definition usize_max :: nat where
  "usize_max = 2 ^ 64 - 1"

definition sat_add32 :: "u32 \<Rightarrow> u32 \<Rightarrow> u32" where
  "sat_add32 a b = (if unat a + unat b < 2 ^ 32 then a + b else - 1)"

definition sat_sub32 :: "u32 \<Rightarrow> u32 \<Rightarrow> u32" where
  "sat_sub32 a b = (if b \<le> a then a - b else 0)"

lemma unat_sat_add32: "unat (sat_add32 a b) = min (unat a + unat b) (2 ^ 32 - 1)"
  by (auto simp: sat_add32_def unat_word_ariths unsigned_minus_1_eq_mask mask_eq_exp_minus_1)

lemma unat_sat_sub32: "unat (sat_sub32 a b) = unat a - unat b"
  by (auto simp: sat_sub32_def unat_sub word_le_nat_alt)

lemma sat_sub32_add32:
  assumes "unat a + unat b < 2 ^ 32"
  shows "sat_sub32 (sat_add32 a b) b = a"
  using assms by (intro word_unat_eq_iff [THEN iffD2]) (simp add: unat_sat_sub32 unat_sat_add32)

lemma sat_add32_sub32: "b \<le> a \<Longrightarrow> sat_add32 (sat_sub32 a b) b = a"
  using unsigned_less [where w = a, where 'a = nat]
  by (intro word_unat_eq_iff [THEN iffD2])
    (simp add: unat_sat_sub32 unat_sat_add32 word_le_nat_alt)

section \<open>Lists\<close>

text \<open>
  \<open>slice::partition_point\<close> on a list that satisfies the predicate on a prefix only:
  the length of that prefix.
\<close>

definition partition_point :: "('a \<Rightarrow> bool) \<Rightarrow> 'a list \<Rightarrow> nat" where
  "partition_point P xs = length (takeWhile P xs)"

lemma partition_point_sorted:
  "sorted xs \<Longrightarrow> partition_point (\<lambda>x. x < n) xs = length (filter (\<lambda>x. x < n) xs)"
  unfolding partition_point_def
  by (induction xs) (auto simp: filter_empty_conv)

lemma sum_list_mono_prefix: "sum_list (xs :: nat list) \<le> sum_list (xs @ ys)"
  by simp

lemma sorted_remdups_adj_strict:
  "sorted (xs :: 'a :: linorder list) \<Longrightarrow> sorted_wrt (<) (remdups_adj xs)"
  by (induction xs rule: remdups_adj.induct) auto

lemma length_filter_insort_key:
  "length (filter P (insort_key f x xs)) = length (filter P (x # xs))"
  by (induction xs) auto

section \<open>Maps\<close>

text \<open>\<open>HashMap::retain\<close>: keep the entries that satisfy a predicate.\<close>

definition map_retain :: "('k \<Rightarrow> 'v \<Rightarrow> bool) \<Rightarrow> ('k \<rightharpoonup> 'v) \<Rightarrow> ('k \<rightharpoonup> 'v)" where
  "map_retain P m = (\<lambda>k. case m k of None \<Rightarrow> None | Some v \<Rightarrow> if P k v then Some v else None)"

lemma map_retain_Some [map_simps]: "map_retain P m k = Some v \<longleftrightarrow> m k = Some v \<and> P k v"
  by (auto simp: map_retain_def split: option.splits)

lemma map_retain_None [map_simps]:
  "map_retain P m k = None \<longleftrightarrow> (\<forall>v. m k = Some v \<longrightarrow> \<not> P k v)"
  by (auto simp: map_retain_def split: option.splits)

lemma dom_map_retain: "dom (map_retain P m) = {k. \<exists>v. m k = Some v \<and> P k v}"
  by (auto simp: dom_def map_simps)

lemma map_retain_True [simp]: "map_retain (\<lambda>_ _. True) m = m"
  by (rule ext) (simp add: map_retain_def split: option.splits)

lemma ran_map_retain: "ran (map_retain P m) \<subseteq> ran m"
  by (auto simp: ran_def map_simps)

end
