(* ===== verification/Rust_Str.thy ===== *)
theory Rust_Str
  imports Prelude
begin

text \<open>
  Rust's \<open>str\<close>, as far as the program uses it. A string is the list of its Unicode
  scalar values; its bytes are their UTF-8 encodings in order, and byte offsets index
  that byte sequence. Slicing at an offset that is not a character boundary panics in
  Rust, so slicing is an \<open>option\<close> here.
\<close>

type_synonym rstr = "nat list"

section \<open>Encodings\<close>

definition utf8_enc :: "nat \<Rightarrow> nat list" where
  "utf8_enc c =
     (if c < 0x80 then [c]
      else if c < 0x800 then [0xC0 + c div 64, 0x80 + c mod 64]
      else if c < 0x10000 then [0xE0 + c div 4096, 0x80 + (c div 64) mod 64, 0x80 + c mod 64]
      else [0xF0 + c div 262144, 0x80 + (c div 4096) mod 64, 0x80 + (c div 64) mod 64,
            0x80 + c mod 64])"

definition len_utf8 :: "nat \<Rightarrow> nat" where
  "len_utf8 c = (if c < 0x80 then 1 else if c < 0x800 then 2 else if c < 0x10000 then 3 else 4)"

definition len_utf16 :: "nat \<Rightarrow> nat" where
  "len_utf16 c = (if c < 0x10000 then 1 else 2)"

definition as_bytes :: "rstr \<Rightarrow> nat list" where
  "as_bytes s = concat (map utf8_enc s)"

text \<open>\<open>str::len\<close>, and the number of UTF-16 code units of \<open>encode_utf16\<close>.\<close>

definition blen :: "rstr \<Rightarrow> nat" where
  "blen s = sum_list (map len_utf8 s)"

definition ulen :: "rstr \<Rightarrow> nat" where
  "ulen s = sum_list (map len_utf16 s)"

lemma len_utf8_pos [simp]: "0 < len_utf8 c"
  by (simp add: len_utf8_def)

lemma len_utf8_neq0 [simp]: "len_utf8 c \<noteq> 0"
  by (simp add: len_utf8_def)

lemma len_utf16_pos [simp]: "0 < len_utf16 c"
  by (simp add: len_utf16_def)

lemma len_utf16_neq0 [simp]: "len_utf16 c \<noteq> 0"
  by (simp add: len_utf16_def)

lemma len_utf16_le_len_utf8: "len_utf16 c \<le> len_utf8 c"
  by (simp add: len_utf8_def len_utf16_def)

lemma length_utf8_enc [simp]: "length (utf8_enc c) = len_utf8 c"
  by (simp add: utf8_enc_def len_utf8_def)

lemma blen_simps [simp, str_simps]:
  "blen [] = 0" "blen (c # s) = len_utf8 c + blen s" "blen (s @ t) = blen s + blen t"
  by (simp_all add: blen_def)

lemma ulen_simps [simp, str_simps]:
  "ulen [] = 0" "ulen (c # s) = len_utf16 c + ulen s" "ulen (s @ t) = ulen s + ulen t"
  by (simp_all add: ulen_def)

lemma as_bytes_simps [simp, str_simps]:
  "as_bytes [] = []" "as_bytes (c # s) = utf8_enc c @ as_bytes s"
  "as_bytes (s @ t) = as_bytes s @ as_bytes t"
  by (simp_all add: as_bytes_def)

lemma length_as_bytes [simp]: "length (as_bytes s) = blen s"
  by (induction s) simp_all

lemma blen_eq_0 [simp]: "blen s = 0 \<longleftrightarrow> s = []"
  by (cases s) simp_all

lemma blen_rev [simp]: "blen (rev s) = blen s"
  by (induction s) simp_all

lemma ulen_le_blen: "ulen s \<le> blen s"
  by (induction s) (simp_all add: add_mono len_utf16_le_len_utf8)

section \<open>Character boundaries\<close>

fun is_char_boundary :: "rstr \<Rightarrow> nat \<Rightarrow> bool" where
  "is_char_boundary [] n \<longleftrightarrow> n = 0"
| "is_char_boundary (c # s) n \<longleftrightarrow>
     n = 0 \<or> (len_utf8 c \<le> n \<and> is_char_boundary s (n - len_utf8 c))"

fun floor_char_boundary :: "rstr \<Rightarrow> nat \<Rightarrow> nat" where
  "floor_char_boundary [] n = 0"
| "floor_char_boundary (c # s) n =
     (if n < len_utf8 c then 0 else len_utf8 c + floor_char_boundary s (n - len_utf8 c))"

fun ceil_char_boundary :: "rstr \<Rightarrow> nat \<Rightarrow> nat" where
  "ceil_char_boundary [] n = 0"
| "ceil_char_boundary (c # s) n =
     (if n = 0 then 0 else len_utf8 c + ceil_char_boundary s (n - len_utf8 c))"

text \<open>The characters within the first \<open>n\<close> bytes, and the rest.\<close>

fun btake :: "rstr \<Rightarrow> nat \<Rightarrow> rstr" where
  "btake [] n = []"
| "btake (c # s) n = (if len_utf8 c \<le> n then c # btake s (n - len_utf8 c) else [])"

fun bdrop :: "rstr \<Rightarrow> nat \<Rightarrow> rstr" where
  "bdrop [] n = []"
| "bdrop (c # s) n = (if len_utf8 c \<le> n then bdrop s (n - len_utf8 c) else c # s)"

text \<open>\<open>str::get(a..b)\<close>; indexing with \<open>[a..b]\<close> panics exactly where this is \<open>None\<close>.\<close>

definition str_get :: "rstr \<Rightarrow> nat \<Rightarrow> nat \<Rightarrow> rstr option" where
  "str_get s a b =
     (if a \<le> b \<and> is_char_boundary s a \<and> is_char_boundary s b
      then Some (btake (bdrop s a) (b - a)) else None)"

lemma is_char_boundary_0 [simp]: "is_char_boundary s 0"
  by (cases s) simp_all

lemma btake_0 [simp]: "btake s 0 = []"
  by (cases s) simp_all

lemma bdrop_0 [simp]: "bdrop s 0 = s"
  by (cases s) simp_all

lemma btake_bdrop [simp]: "btake s n @ bdrop s n = s"
  by (induction s n rule: btake.induct) simp_all

lemma blen_btake_bdrop: "blen (btake s n) + blen (bdrop s n) = blen s"
  by (metis btake_bdrop blen_simps(3))

lemma btake_append: "btake (s @ t) (blen s + n) = s @ btake t n"
  by (induction s) simp_all

lemma bdrop_append: "bdrop (s @ t) (blen s + n) = bdrop t n"
  by (induction s) simp_all

lemma btake_append_exact [simp]: "btake (s @ t) (blen s) = s"
  using btake_append [of s t 0] by simp

lemma bdrop_append_exact [simp]: "bdrop (s @ t) (blen s) = t"
  using bdrop_append [of s t 0] by simp

lemma boundary_append [simp]: "is_char_boundary (s @ t) (blen s)"
  by (induction s) simp_all

lemma boundary_blen [simp]: "is_char_boundary s (blen s)"
  using boundary_append [of s "[]"] by simp

lemma boundary_iff_prefix: "is_char_boundary s n \<longleftrightarrow> (\<exists>p q. s = p @ q \<and> blen p = n)"
proof
  assume "is_char_boundary s n"
  then show "\<exists>p q. s = p @ q \<and> blen p = n"
  proof (induction s n rule: is_char_boundary.induct)
    case (2 c s n)
    show ?case
    proof (cases "n = 0")
      case False
      with 2 obtain p q where "s = p @ q" "blen p = n - len_utf8 c" and "len_utf8 c \<le> n"
        by auto
      then have "c # s = (c # p) @ q \<and> blen (c # p) = n" by simp
      then show ?thesis by blast
    qed auto
  qed simp
qed auto

lemma boundaryE:
  assumes "is_char_boundary s n"
  obtains p q where "s = p @ q" and "blen p = n"
  using assms boundary_iff_prefix by blast

lemma blen_btake: "is_char_boundary s n \<Longrightarrow> blen (btake s n) = n"
  by (auto elim!: boundaryE)

lemma boundary_le_blen: "is_char_boundary s n \<Longrightarrow> n \<le> blen s"
  by (auto elim!: boundaryE)

lemma append_blen_le:
  assumes "p' @ x = p @ y" and "blen p' \<le> blen p"
  shows "\<exists>l. p = p' @ l \<and> x = l @ y"
proof -
  from assms(1) obtain us where "p' = p @ us \<and> us @ x = y \<or> p' @ us = p \<and> x = us @ y"
    by (auto simp: append_eq_append_conv2)
  then show ?thesis using assms(2) by auto
qed

section \<open>Rounding to a boundary\<close>

lemma floor_is_boundary [simp]: "is_char_boundary s (floor_char_boundary s n)"
  by (induction s n rule: floor_char_boundary.induct) auto

lemma ceil_is_boundary [simp]: "is_char_boundary s (ceil_char_boundary s n)"
  by (induction s n rule: ceil_char_boundary.induct) auto

lemma floor_le [simp]: "floor_char_boundary s n \<le> n"
  by (induction s n rule: floor_char_boundary.induct) (auto simp: not_less)

lemma floor_le_blen [simp]: "floor_char_boundary s n \<le> blen s"
  by (rule boundary_le_blen) simp

lemma ceil_le_blen [simp]: "ceil_char_boundary s n \<le> blen s"
  by (rule boundary_le_blen) simp

lemma floor_of_boundary: "is_char_boundary s n \<Longrightarrow> floor_char_boundary s n = n"
  by (induction s n rule: floor_char_boundary.induct) auto

lemma ceil_of_boundary: "is_char_boundary s n \<Longrightarrow> ceil_char_boundary s n = n"
  by (induction s n rule: ceil_char_boundary.induct) auto

lemma floor_greatest: "is_char_boundary s m \<Longrightarrow> m \<le> n \<Longrightarrow> m \<le> floor_char_boundary s n"
proof (induction s n arbitrary: m rule: floor_char_boundary.induct)
  case (2 c s n)
  show ?case
  proof (cases "m = 0")
    case False
    with "2.prems" have "len_utf8 c \<le> m" "is_char_boundary s (m - len_utf8 c)" by auto
    with "2.IH" [of "m - len_utf8 c"] "2.prems"
    have "m - len_utf8 c \<le> floor_char_boundary s (n - len_utf8 c)"
      by (simp add: diff_le_mono)
    with \<open>len_utf8 c \<le> m\<close> "2.prems" show ?thesis by simp
  qed simp
qed simp

lemma ceil_ge: "n \<le> blen s \<Longrightarrow> n \<le> ceil_char_boundary s n"
  by (induction s n rule: ceil_char_boundary.induct) (simp_all add: le_diff_conv add.commute)

lemma ceil_least: "is_char_boundary s m \<Longrightarrow> n \<le> m \<Longrightarrow> ceil_char_boundary s n \<le> m"
proof (induction s n arbitrary: m rule: ceil_char_boundary.induct)
  case (2 c s n)
  show ?case
  proof (cases "n = 0")
    case False
    with "2.prems" have m: "len_utf8 c \<le> m" "is_char_boundary s (m - len_utf8 c)" by auto
    with "2.IH" [of "m - len_utf8 c"] "2.prems" False
    have "ceil_char_boundary s (n - len_utf8 c) \<le> m - len_utf8 c" by (simp add: diff_le_mono)
    with m False show ?thesis by simp
  qed simp
qed simp

lemma floor_past_end: "blen s \<le> n \<Longrightarrow> floor_char_boundary s n = blen s"
  by (metis boundary_blen floor_greatest floor_le_blen le_antisym)

lemma ceil_past_end: "blen s \<le> n \<Longrightarrow> ceil_char_boundary s n = blen s"
proof (induction s n rule: ceil_char_boundary.induct)
  case (2 c s n)
  then have "0 < n" using len_utf8_pos [of c] unfolding blen_simps by linarith
  with 2 show ?case by simp
qed simp

lemma floor_min_blen [simp]: "floor_char_boundary s (min n (blen s)) = floor_char_boundary s n"
  by (cases "n \<le> blen s") (simp_all add: min_def floor_past_end)

lemma floor_mono: "m \<le> n \<Longrightarrow> floor_char_boundary s m \<le> floor_char_boundary s n"
  by (rule floor_greatest) (auto intro: le_trans [OF floor_le])

lemma btake_floor: "btake s (floor_char_boundary s n) = btake s n"
  by (induction s n rule: floor_char_boundary.induct) auto

section \<open>Slices\<close>

lemma str_get_Some:
  "str_get s a b = Some t \<longleftrightarrow> (\<exists>p q. s = p @ t @ q \<and> blen p = a \<and> blen p + blen t = b)"
proof
  assume "str_get s a b = Some t"
  then have ab: "a \<le> b" and ba: "is_char_boundary s a" and bb: "is_char_boundary s b"
    and t: "t = btake (bdrop s a) (b - a)"
    by (auto simp: str_get_def split: if_splits)
  from ba obtain p q where s: "s = p @ q" and p: "blen p = a" by (rule boundaryE)
  from bb obtain p' q' where s': "s = p' @ q'" and p': "blen p' = b" by (rule boundaryE)
  have tq: "t = btake q (b - a)" using t s p by auto
  have "is_char_boundary q (b - a)"
  proof -
    from s s' obtain us where "p = p' @ us \<and> us @ q = q' \<or> p @ us = p' \<and> q = us @ q'"
      by (auto simp: append_eq_append_conv2)
    then show ?thesis using p p' ab by auto
  qed
  then have "blen t = b - a" using tq blen_btake by blast
  moreover have "s = p @ t @ bdrop q (b - a)" using s tq by simp
  ultimately show "\<exists>p q. s = p @ t @ q \<and> blen p = a \<and> blen p + blen t = b"
    using p ab by (metis le_add_diff_inverse)
next
  assume "\<exists>p q. s = p @ t @ q \<and> blen p = a \<and> blen p + blen t = b"
  then obtain p q where s: "s = p @ t @ q" "blen p = a" "blen p + blen t = b" by blast
  then have "is_char_boundary s a" "is_char_boundary s b"
    using boundary_append [of p "t @ q"] boundary_append [of "p @ t" q] by auto
  then show "str_get s a b = Some t" using s by (auto simp: str_get_def)
qed

lemma str_get_prefix: "is_char_boundary s n \<Longrightarrow> str_get s 0 n = Some (btake s n)"
  by (simp add: str_get_def)

lemma str_get_suffix: "is_char_boundary s n \<Longrightarrow> str_get s n (blen s) = Some (bdrop s n)"
  by (auto simp: str_get_Some elim!: boundaryE) (metis append_Nil2 blen_simps(3))

end
