(* ===== verification/Text_Columns.thy ===== *)
theory Text_Columns
  imports Rust_Str
begin

text \<open>
  \<open>src/src/text/char_boundary.rs\<close> (panic-free slicing) and the column part of
  \<open>src/src/text/position.rs\<close>: the byte column to UTF-16 column conversions, one
  decoding the line on every call and one answering from a table built once per line.
  The interface \<open>column_map\<close> states what a caller relies on; both conversions are
  interpretations of it, which is why they agree.
\<close>

section \<open>Clamped slices\<close>

definition clamped_slice :: "rstr \<Rightarrow> nat \<Rightarrow> nat \<Rightarrow> rstr" where
  "clamped_slice text a b =
     (let start = ceil_char_boundary text a;
          stop = floor_char_boundary text b
      in if start \<ge> stop then []
         else (case str_get text start stop of None \<Rightarrow> [] | Some t \<Rightarrow> t))"

lemma clamped_slice_decomp:
  assumes "ceil_char_boundary text a < floor_char_boundary text b"
  obtains p q where "text = p @ clamped_slice text a b @ q"
    and "blen p = ceil_char_boundary text a"
    and "blen p + blen (clamped_slice text a b) = floor_char_boundary text b"
proof -
  from assms obtain t where t: "str_get text (ceil_char_boundary text a) (floor_char_boundary text b) = Some t"
    by (simp add: str_get_def)
  with assms have "clamped_slice text a b = t" by (simp add: clamped_slice_def Let_def)
  with t that show thesis by (auto simp: str_get_Some)
qed

lemma clamped_slice_empty:
  "floor_char_boundary text b \<le> ceil_char_boundary text a \<Longrightarrow> clamped_slice text a b = []"
  by (simp add: clamped_slice_def)

text \<open>
  The slice covers, in order, exactly the characters that lie wholly inside the
  requested bytes: its ends are the smallest boundary from \<open>a\<close> on and the largest up
  to \<open>b\<close>.
\<close>

lemma clamped_slice_is_get:
  assumes "str_get text a b = Some t"
  shows "clamped_slice text a b = t"
proof -
  from assms have ab: "a \<le> b" "is_char_boundary text a" "is_char_boundary text b"
    and t: "t = btake (bdrop text a) (b - a)"
    by (auto simp: str_get_def split: if_splits)
  have "clamped_slice text a b = (if a \<ge> b then [] else t)"
    by (simp only: clamped_slice_def Let_def ceil_of_boundary [OF ab(2)] floor_of_boundary [OF ab(3)]
        assms option.case)
  then show ?thesis using ab t by (cases "a = b") auto
qed

lemma clamped_slice_maximal:
  assumes "text = p @ t @ q" and "a \<le> blen p" and "blen p + blen t \<le> b" and "t \<noteq> []"
  shows "\<exists>l r. clamped_slice text a b = l @ t @ r"
proof -
  let ?s = "ceil_char_boundary text a" and ?e = "floor_char_boundary text b"
  have s: "?s \<le> blen p" using assms by (intro ceil_least) simp_all
  have e: "blen p + blen t \<le> ?e"
    using assms boundary_append [of "p @ t" q] by (intro floor_greatest) simp_all
  have "0 < blen t" using assms(4) by (metis blen_eq_0 neq0_conv)
  with s e have "?s < ?e" by simp
  then obtain p' q' where d: "text = p' @ clamped_slice text a b @ q'"
    and p': "blen p' = ?s" and q': "blen p' + blen (clamped_slice text a b) = ?e"
    by (rule clamped_slice_decomp)
  define c where "c = clamped_slice text a b"
  have "p' @ (c @ q') = p @ (t @ q)" using d assms(1) by (simp add: c_def)
  then obtain l where l: "p = p' @ l" and cq: "c @ q' = l @ t @ q"
    using append_blen_le [of p' "c @ q'" p "t @ q"] p' s by auto
  from e q' l have "blen (l @ t) \<le> blen c" by (simp add: c_def)
  moreover from cq have "(l @ t) @ q = c @ q'" by simp
  ultimately obtain r where "c = (l @ t) @ r" using append_blen_le by blast
  then show ?thesis by (auto simp: c_def)
qed

section \<open>Byte columns to UTF-16 columns\<close>

fun convert_loop :: "rstr \<Rightarrow> nat \<Rightarrow> nat \<Rightarrow> nat \<Rightarrow> nat option" where
  "convert_loop [] byte_pos utf16_offset byte_count =
     (if byte_count = byte_pos then Some utf16_offset else None)"
| "convert_loop (ch # rest) byte_pos utf16_offset byte_count =
     (if byte_count = byte_pos then Some utf16_offset
      else if byte_count + len_utf8 ch > byte_pos then None
      else convert_loop rest byte_pos (utf16_offset + len_utf16 ch) (byte_count + len_utf8 ch))"

definition bytes_ascii :: "nat list \<Rightarrow> bool" where
  "bytes_ascii bs \<longleftrightarrow> list_all (\<lambda>b. b < 0x80) bs"

definition convert_byte_to_utf16_in_line :: "rstr \<Rightarrow> nat \<Rightarrow> nat option" where
  "convert_byte_to_utf16_in_line line_text byte_pos =
     (if byte_pos \<le> blen line_text \<and> bytes_ascii (take byte_pos (as_bytes line_text))
      then Some byte_pos
      else convert_loop line_text byte_pos 0 0)"

fun walk_back :: "rstr \<Rightarrow> nat \<Rightarrow> nat" where
  "walk_back line 0 = 0"
| "walk_back line (Suc valid_col) =
     (case convert_byte_to_utf16_in_line line valid_col of
        Some utf16 \<Rightarrow> utf16
      | None \<Rightarrow> walk_back line valid_col)"

definition byte_to_utf16_col :: "rstr \<Rightarrow> nat \<Rightarrow> nat" where
  "byte_to_utf16_col line byte_col =
     (case convert_byte_to_utf16_in_line line byte_col of
        Some utf16 \<Rightarrow> utf16
      | None \<Rightarrow> walk_back line byte_col)"

subsection \<open>The table\<close>

record utf16_line_index =
  line_len :: nat
  boundaries :: "(nat \<times> nat) list option"

fun boundary_table :: "rstr \<Rightarrow> nat \<Rightarrow> nat \<Rightarrow> (nat \<times> nat) list" where
  "boundary_table [] byte utf16_offset = [(byte, utf16_offset)]"
| "boundary_table (ch # rest) byte utf16_offset =
     (byte, utf16_offset) # boundary_table rest (byte + len_utf8 ch) (utf16_offset + len_utf16 ch)"

definition utf16_line_index_new :: "rstr \<Rightarrow> utf16_line_index" where
  "utf16_line_index_new line =
     (if bytes_ascii (as_bytes line)
      then \<lparr>line_len = blen line, boundaries = None\<rparr>
      else \<lparr>line_len = blen line, boundaries = Some (boundary_table line 0 0)\<rparr>)"

definition byte_to_utf16 :: "utf16_line_index \<Rightarrow> nat \<Rightarrow> nat" where
  "byte_to_utf16 ix byte_col =
     (case boundaries ix of
        None \<Rightarrow> min byte_col (line_len ix)
      | Some bs \<Rightarrow>
          (let idx = partition_point (\<lambda>(b, _). b \<le> byte_col) bs
           in snd (bs ! (idx - 1))))"

section \<open>The interface: columns count the characters before a boundary\<close>

text \<open>
  A column map gives at a character boundary the UTF-16 width of the text before it,
  and between boundaries the column of the boundary below. The laws determine it.
\<close>

locale column_map =
  fixes col :: "rstr \<Rightarrow> nat \<Rightarrow> nat"
  assumes col_boundary: "is_char_boundary s b \<Longrightarrow> col s b = ulen (btake s b)"
    and col_floor: "col s (floor_char_boundary s b) = col s b"
begin

lemma col_eq: "col s b = ulen (btake s b)"
  using col_boundary [of s "floor_char_boundary s b"] col_floor [of s b] by (simp add: btake_floor)

lemma col_append: "col (s @ t) (blen s + b) = ulen s + col t b"
  by (simp add: col_eq btake_append)

lemma col_le_width: "col s b \<le> ulen s"
  using ulen_simps(3) [of "btake s b" "bdrop s b"] by (simp add: col_eq)

lemma col_end: "blen s \<le> b \<Longrightarrow> col s b = ulen s"
  by (metis btake_floor col_eq floor_past_end btake_append_exact append_Nil2)

lemma col_mono: "a \<le> b \<Longrightarrow> col s a \<le> col s b"
proof (induction s arbitrary: a b)
  case (Cons c s)
  then show ?case using Cons.IH [of "a - len_utf8 c" "b - len_utf8 c"]
    by (simp add: col_eq diff_le_mono)
qed (simp add: col_eq)

end

lemma column_maps_agree: "column_map f \<Longrightarrow> column_map g \<Longrightarrow> f s b = g s b"
  by (simp add: column_map.col_eq)

subsection \<open>Decoding from column 0\<close>

lemma utf8_enc_ascii: "list_all (\<lambda>b. b < 0x80) (utf8_enc c) \<longleftrightarrow> c < 0x80"
  by (simp add: utf8_enc_def)

lemma utf8_enc_hd: "utf8_enc c = b # bs \<Longrightarrow> b < 0x80 \<longleftrightarrow> c < 0x80"
  by (auto simp: utf8_enc_def split: if_splits)

lemma ascii_widths: "c < 0x80 \<Longrightarrow> len_utf8 c = 1 \<and> len_utf16 c = 1"
  by (simp add: len_utf8_def len_utf16_def)

lemma ascii_prefix_columns:
  "n \<le> blen s \<Longrightarrow> bytes_ascii (take n (as_bytes s)) \<Longrightarrow> is_char_boundary s n \<and> ulen (btake s n) = n"
proof (induction s arbitrary: n)
  case (Cons c s)
  show ?case
  proof (cases n)
    case (Suc m)
    obtain b bs where e: "utf8_enc c = b # bs"
      by (cases "utf8_enc c") (use length_utf8_enc [of c] in auto)
    with Cons.prems(2) Suc have "b < 0x80" by (simp add: bytes_ascii_def)
    with e have "c < 0x80" by (simp add: utf8_enc_hd)
    then have w: "len_utf8 c = 1" "len_utf16 c = 1" by (simp_all add: ascii_widths)
    from Cons.prems Suc w have "m \<le> blen s" "bytes_ascii (take m (as_bytes s))"
      by (simp_all add: bytes_ascii_def)
    from Cons.IH [OF this] show ?thesis using Suc w by simp
  qed simp
qed simp

lemma convert_loop_shift:
  "k \<le> n \<Longrightarrow> convert_loop s n u k =
     (if is_char_boundary s (n - k) then Some (u + ulen (btake s (n - k))) else None)"
proof (induction s arbitrary: u k)
  case (Cons c s)
  show ?case
  proof (cases "k + len_utf8 c \<le> n")
    case True
    then obtain m where n: "n = k + len_utf8 c + m" by (auto simp: le_iff_add)
    with Cons.IH [OF True, of "u + len_utf16 c"] show ?thesis by (simp add: add.assoc)
  next
    case False
    then show ?thesis using Cons.prems by auto
  qed
qed auto

lemma convert_eq:
  "convert_byte_to_utf16_in_line s n =
     (if is_char_boundary s n then Some (ulen (btake s n)) else None)"
  using ascii_prefix_columns [of n s] convert_loop_shift [of 0 n s 0]
  by (auto simp: convert_byte_to_utf16_in_line_def)

lemma floor_not_boundary:
  assumes "\<not> is_char_boundary s (Suc n)"
  shows "floor_char_boundary s (Suc n) = floor_char_boundary s n"
proof (rule le_antisym)
  have "floor_char_boundary s (Suc n) \<noteq> Suc n" using assms by (metis floor_is_boundary)
  then have "floor_char_boundary s (Suc n) \<le> n" using floor_le [of s "Suc n"] by (simp only: le_Suc_eq) simp
  then show "floor_char_boundary s (Suc n) \<le> floor_char_boundary s n"
    by (intro floor_greatest) simp_all
qed (simp add: floor_mono)

lemma walk_back_eq: "\<not> is_char_boundary s n \<Longrightarrow> walk_back s n = ulen (btake s n)"
proof (induction n)
  case (Suc n)
  have "btake s (Suc n) = btake s n"
    using floor_not_boundary [OF Suc.prems] by (metis btake_floor)
  with Suc show ?case by (simp add: convert_eq)
qed simp

interpretation decoded: column_map byte_to_utf16_col
proof
  have eq: "byte_to_utf16_col s b = ulen (btake s b)" for s b
    by (simp add: byte_to_utf16_col_def convert_eq walk_back_eq)
  show "byte_to_utf16_col s b = ulen (btake s b)" for s b by (rule eq)
  show "byte_to_utf16_col s (floor_char_boundary s b) = byte_to_utf16_col s b" for s b
    by (simp add: eq btake_floor)
qed

subsection \<open>Answering from the table\<close>

lemma partition_point_Cons:
  "partition_point P (x # xs) = (if P x then Suc (partition_point P xs) else 0)"
  by (simp add: partition_point_def)

lemma boundary_table_lookup:
  "k \<le> n \<Longrightarrow> 0 < partition_point (\<lambda>(b, _). b \<le> n) (boundary_table s k u) \<and>
    snd (boundary_table s k u ! (partition_point (\<lambda>(b, _). b \<le> n) (boundary_table s k u) - 1))
      = u + ulen (btake s (n - k))"
proof (induction s arbitrary: k u)
  case (Cons c s)
  show ?case
  proof (cases "k + len_utf8 c \<le> n")
    case True
    with Cons.IH [OF True, of "u + len_utf16 c"] Cons.prems show ?thesis
      by (auto simp: partition_point_Cons nth_Cons')
  next
    case False
    then have "partition_point (\<lambda>(b, _). b \<le> n) (boundary_table s (k + len_utf8 c) v) = 0" for v
      by (cases s) (auto simp: partition_point_Cons partition_point_def)
    moreover have "btake (c # s) (n - k) = []" using False by (simp add: not_le less_diff_conv2 Cons.prems add.commute)
    ultimately show ?thesis using Cons.prems by (simp add: partition_point_Cons)
  qed
qed (simp add: partition_point_Cons partition_point_def)

lemma ascii_line_columns:
  assumes "bytes_ascii (as_bytes s)"
  shows "ulen (btake s n) = min n (blen s)"
proof (cases "n \<le> blen s")
  case True
  with assms have "bytes_ascii (take n (as_bytes s))"
    by (metis bytes_ascii_def append_take_drop_id list_all_append)
  with True show ?thesis by (simp add: ascii_prefix_columns)
next
  case False
  with assms have "ulen (btake s (blen s)) = blen s" by (intro ascii_prefix_columns [THEN conjunct2]) auto
  with False show ?thesis
    by (metis append_Nil2 btake_append_exact btake_floor floor_past_end min.absorb2 nat_le_linear)
qed

interpretation tabled: column_map "\<lambda>s. byte_to_utf16 (utf16_line_index_new s)"
proof
  have eq: "byte_to_utf16 (utf16_line_index_new s) b = ulen (btake s b)" for s b
    using boundary_table_lookup [of 0 b s 0]
    by (simp add: byte_to_utf16_def utf16_line_index_new_def ascii_line_columns Let_def)
  show "byte_to_utf16 (utf16_line_index_new s) b = ulen (btake s b)" for s b by (rule eq)
  show "byte_to_utf16 (utf16_line_index_new s) (floor_char_boundary s b) =
      byte_to_utf16 (utf16_line_index_new s) b" for s b
    by (simp add: eq btake_floor)
qed

end
