(* ===== verification/Lone_Cr.thy ===== *)
theory Lone_Cr
  imports Text_Columns
begin

text \<open>
  \<open>src/src/text/lone_cr.rs\<close>. Tree-sitter rows end at LF only; LSP lines also end at
  a carriage return that no LF follows. \<open>LoneCarriageReturns\<close> records the byte offsets
  of the latter once and turns a tree-sitter position into an LSP one. The
  specification is \<open>lsp_pos\<close>, which reads the text from its start and counts every LSP
  line end; \<open>tree_pos\<close> is the same count over LF alone.
\<close>

abbreviation LF :: nat where "LF \<equiv> 10"
abbreviation CR :: nat where "CR \<equiv> 13"

section \<open>The recorded offsets\<close>

fun char_indices :: "rstr \<Rightarrow> nat \<Rightarrow> (nat \<times> nat) list" where
  "char_indices [] at = []"
| "char_indices (ch # rest) at = (at, ch) # char_indices rest (at + len_utf8 ch)"

definition byte_get :: "nat list \<Rightarrow> nat \<Rightarrow> nat option" where
  "byte_get bs i = (if i < length bs then Some (bs ! i) else None)"

definition lone_cr_new :: "rstr \<Rightarrow> nat list" where
  "lone_cr_new text =
     filter (\<lambda>index. byte_get (as_bytes text) (index + 1) \<noteq> Some LF)
       (map fst (filter (\<lambda>(_, ch). ch = CR) (char_indices text 0)))"

definition count_before :: "nat list \<Rightarrow> nat \<Rightarrow> nat" where
  "count_before crs byte = partition_point (\<lambda>cr. cr < byte) crs"

section \<open>The position of a byte\<close>

text \<open>\<open>rfind\<close> of an LF or CR: the byte offset of the last one.\<close>

fun rfind_eol_from :: "rstr \<Rightarrow> nat \<Rightarrow> nat option" where
  "rfind_eol_from [] at = None"
| "rfind_eol_from (ch # rest) at =
     (case rfind_eol_from rest (at + len_utf8 ch) of
        Some i \<Rightarrow> Some i
      | None \<Rightarrow> if ch = LF \<or> ch = CR then Some at else None)"

lemma rfind_eol_from_lt: "rfind_eol_from s k = Some i \<Longrightarrow> i < k + blen s"
  by (induction s arbitrary: k i) (fastforce split: option.splits if_splits)+

lemma blen_btake_le: "blen (btake s n) \<le> n"
  by (induction s n rule: btake.induct) (auto simp: le_diff_conv2)

function line_start_scan :: "rstr \<Rightarrow> nat \<Rightarrow> nat" where
  "line_start_scan text search_end =
     (case rfind_eol_from (btake text search_end) 0 of
        None \<Rightarrow> 0
      | Some index \<Rightarrow>
          if byte_get (as_bytes text) index = Some CR \<and> byte_get (as_bytes text) (index + 1) = Some LF
          then line_start_scan text index
          else index + 1)"
  by pat_completeness auto
termination
  by (relation "measure snd") (auto dest!: rfind_eol_from_lt intro: less_le_trans [OF _ blen_btake_le])

declare line_start_scan.simps [simp del]

definition u32_try_from :: "nat \<Rightarrow> u32" where
  "u32_try_from n = (if n < 2 ^ 32 then of_nat n else - 1)"

definition lsp_position :: "nat list \<Rightarrow> rstr \<Rightarrow> nat \<Rightarrow> u32 \<Rightarrow> u32 \<Rightarrow> (u32 \<times> u32) option" where
  "lsp_position crs text byte tree_row tree_column =
     (let before = count_before crs byte
      in if before = 0 then Some (tree_row, tree_column)
         else
           let byte = floor_char_boundary text (min byte (blen text));
               line_start = line_start_scan text byte
           in case str_get text line_start byte of
                None \<Rightarrow> None
              | Some line \<Rightarrow> Some (sat_add32 tree_row (u32_try_from before), of_nat (ulen line)))"

definition lsp_line :: "nat list \<Rightarrow> nat \<Rightarrow> u32 \<Rightarrow> u32" where
  "lsp_line crs byte tree_row = sat_add32 tree_row (u32_try_from (count_before crs byte))"

definition starts_lsp_line :: "nat list \<Rightarrow> rstr \<Rightarrow> nat \<Rightarrow> bool" where
  "starts_lsp_line crs text byte =
     (if byte = 0 then True
      else byte_get (as_bytes text) (byte - 1) = Some LF \<or> byte - 1 \<in> set crs)"

section \<open>Specification: counting line ends from the start of the text\<close>

definition starts_lf :: "rstr \<Rightarrow> bool" where
  "starts_lf s = (case s of [] \<Rightarrow> False | c # _ \<Rightarrow> c = LF)"

text \<open>Whether a character ends an LSP line, given the text after it.\<close>

definition ends_lsp_line :: "nat \<Rightarrow> rstr \<Rightarrow> bool" where
  "ends_lsp_line ch rest \<longleftrightarrow> ch = LF \<or> ch = CR \<and> \<not> starts_lf rest"

fun lsp_pos :: "rstr \<Rightarrow> nat \<Rightarrow> nat \<times> nat \<Rightarrow> nat \<times> nat" where
  "lsp_pos [] n lc = lc"
| "lsp_pos (ch # rest) n (line, column) =
     (if n < len_utf8 ch then (line, column)
      else lsp_pos rest (n - len_utf8 ch)
             (if ends_lsp_line ch rest then (line + 1, 0) else (line, column + len_utf16 ch)))"

fun tree_pos :: "rstr \<Rightarrow> nat \<Rightarrow> nat \<times> nat \<Rightarrow> nat \<times> nat" where
  "tree_pos [] n rc = rc"
| "tree_pos (ch # rest) n (row, column) =
     (if n < len_utf8 ch then (row, column)
      else tree_pos rest (n - len_utf8 ch)
             (if ch = LF then (row + 1, 0) else (row, column + len_utf16 ch)))"

text \<open>The characters of the LSP line between its start and the end of the prefix whose reverse is given.\<close>

fun line_chars :: "rstr \<Rightarrow> rstr \<Rightarrow> rstr" where
  "line_chars [] rest = []"
| "line_chars (ch # before) rest =
     (if ends_lsp_line ch rest then [] else line_chars before (ch # rest) @ [ch])"

fun lone_before :: "rstr \<Rightarrow> rstr \<Rightarrow> nat" where
  "lone_before [] rest = 0"
| "lone_before (ch # before) rest =
     (if ch = CR \<and> \<not> starts_lf rest then 1 else 0) + lone_before before (ch # rest)"

subsection \<open>The specification on a prefix\<close>

lemma lsp_pos_snoc:
  "lsp_pos (p @ ch # q) (blen p + len_utf8 ch) lc =
     (case lsp_pos (p @ ch # q) (blen p) lc of
        (line, column) \<Rightarrow> if ends_lsp_line ch q then (line + 1, 0) else (line, column + len_utf16 ch))"
proof (induction p arbitrary: lc)
  case Nil
  show ?case by (cases lc; cases q) auto
next
  case (Cons c p)
  show ?case by (cases lc) (simp add: Cons.IH add.assoc)
qed

lemma tree_pos_snoc:
  "tree_pos (p @ ch # q) (blen p + len_utf8 ch) rc =
     (case tree_pos (p @ ch # q) (blen p) rc of
        (row, column) \<Rightarrow> if ch = LF then (row + 1, 0) else (row, column + len_utf16 ch))"
proof (induction p arbitrary: rc)
  case Nil
  show ?case by (cases rc; cases q) auto
next
  case (Cons c p)
  show ?case by (cases rc) (simp add: Cons.IH add.assoc)
qed

lemma pos_0 [simp]: "lsp_pos s 0 lc = lc" "tree_pos s 0 rc = rc"
  by (cases lc; cases s; simp) (cases rc; cases s; simp)

lemma lsp_pos_prefix:
  "lsp_pos (p @ q) (blen p) (0, 0) =
     (fst (tree_pos (p @ q) (blen p) (0, 0)) + lone_before (rev p) q, ulen (line_chars (rev p) q))"
proof (induction p arbitrary: q rule: rev_induct)
  case (snoc c p)
  have lf: "ends_lsp_line LF r" for r by (simp add: ends_lsp_line_def)
  show ?case
    using snoc.IH [of "c # q"] lsp_pos_snoc [of p c q "(0, 0)"] tree_pos_snoc [of p c q "(0, 0)"]
    by (auto simp: ends_lsp_line_def lf split: prod.splits)
qed simp

lemma lone_before_0_column:
  "lone_before (rev p) q = 0 \<Longrightarrow> snd (tree_pos (p @ q) (blen p) (0, 0)) = ulen (line_chars (rev p) q)"
proof (induction p arbitrary: q rule: rev_induct)
  case (snoc c p)
  show ?case using snoc.IH [of "c # q"] snoc.prems tree_pos_snoc [of p c q "(0, 0)"]
    by (auto simp: ends_lsp_line_def split: prod.splits if_splits)
qed simp

lemma lsp_pos_btake: "lsp_pos s (floor_char_boundary s n) lc = lsp_pos s n lc"
  by (induction s n lc rule: lsp_pos.induct) auto

lemma tree_pos_btake: "tree_pos s (floor_char_boundary s n) lc = tree_pos s n lc"
  by (induction s n lc rule: tree_pos.induct) auto

section \<open>The offsets are those of the lone carriage returns\<close>

lemma byte_get_at:
  "byte_get (as_bytes (p @ c # q)) (blen p) = Some (hd (utf8_enc c))"
  by (auto simp: byte_get_def nth_append hd_conv_nth utf8_enc_def)

lemma hd_utf8_enc_iff: "b < 0x80 \<Longrightarrow> hd (utf8_enc c) = b \<longleftrightarrow> c = b"
  by (auto simp: utf8_enc_def)

lemma byte_get_lf: "byte_get (as_bytes (p @ q)) (blen p) = Some LF \<longleftrightarrow> starts_lf q"
proof (cases q)
  case (Cons c r)
  then show ?thesis
    using byte_get_at [of p c r] hd_utf8_enc_iff [of LF c] by (auto simp: starts_lf_def)
qed (simp add: byte_get_def starts_lf_def)

lemma byte_get_lf_after:
  "len_utf8 c = 1 \<Longrightarrow> byte_get (as_bytes (p @ c # q)) (Suc (blen p)) = Some LF \<longleftrightarrow> starts_lf q"
  using byte_get_lf [of "p @ [c]" q] by simp

lemma len_eol [simp]: "len_utf8 LF = 1" "len_utf8 CR = 1" "len_utf8 10 = Suc 0" "len_utf8 13 = Suc 0"
  by (simp_all add: len_utf8_def)

lemma char_indices_append:
  "char_indices (p @ q) k = char_indices p k @ char_indices q (k + blen p)"
  by (induction p arbitrary: k) (simp_all add: add.assoc)

lemma char_indices_bounds:
  "(i, c) \<in> set (char_indices s k) \<Longrightarrow> k \<le> i \<and> i < k + blen s"
  by (induction s arbitrary: k) (fastforce simp: add.assoc)+

lemma sorted_char_indices: "sorted_wrt (<) (map fst (char_indices s k))"
proof (induction s arbitrary: k)
  case (Cons c s)
  have "k < i" if "(i, d) \<in> set (char_indices s (k + len_utf8 c))" for i d
    using char_indices_bounds [OF that] len_utf8_pos [of c] by linarith
  with Cons.IH show ?case by auto
qed simp

lemma sorted_lone_cr_new: "sorted_wrt (<) (lone_cr_new s)"
proof -
  have "sorted_wrt (<) (map fst (filter P (char_indices s 0)))" for P
    using sorted_char_indices [of s 0] by (simp add: sorted_wrt_map sorted_wrt_filter)
  then show ?thesis unfolding lone_cr_new_def by (rule sorted_wrt_filter)
qed

lemma char_indices_mem:
  "(i, c) \<in> set (char_indices s k) \<longleftrightarrow> (\<exists>p q. s = p @ c # q \<and> i = k + blen p)"
proof (induction s arbitrary: k)
  case (Cons d s)
  have "(\<exists>p q. d # s = p @ c # q \<and> i = k + blen p) \<longleftrightarrow>
      (d = c \<and> i = k) \<or> (\<exists>p q. s = p @ c # q \<and> i = k + len_utf8 d + blen p)"
    by (auto simp: Cons_eq_append_conv) (metis add.assoc blen_simps(2) append_Cons)+
  with Cons.IH [of "k + len_utf8 d"] show ?case by auto
qed simp

text \<open>The offsets are exactly those of the carriage returns that no LF follows.\<close>

definition lone_at :: "rstr \<Rightarrow> nat \<Rightarrow> bool" where
  "lone_at text i \<longleftrightarrow> (\<exists>p q. text = p @ CR # q \<and> blen p = i \<and> \<not> starts_lf q)"

lemma set_lone_cr_new: "i \<in> set (lone_cr_new text) \<longleftrightarrow> lone_at text i"
proof -
  have "i \<in> set (lone_cr_new text) \<longleftrightarrow>
      (\<exists>p q. text = p @ CR # q \<and> i = blen p \<and> byte_get (as_bytes text) (Suc i) \<noteq> Some LF)"
    by (auto simp: lone_cr_new_def char_indices_mem image_iff)
  also have "\<dots> \<longleftrightarrow> lone_at text i"
    unfolding lone_at_def using byte_get_lf_after [of CR] by (metis len_eol(2))
  finally show ?thesis .
qed

text \<open>How many of them precede a boundary.\<close>

lemma count_before_card:
  "count_before (lone_cr_new text) n = card {i. lone_at text i \<and> i < n}"
proof -
  have d: "distinct (lone_cr_new text)" and s: "sorted (lone_cr_new text)"
    using sorted_lone_cr_new strict_sorted_iff by blast+
  have "count_before (lone_cr_new text) n = length (filter (\<lambda>i. i < n) (lone_cr_new text))"
    unfolding count_before_def by (rule partition_point_sorted [OF s])
  also have "\<dots> = card (set (filter (\<lambda>i. i < n) (lone_cr_new text)))"
    using d by (intro distinct_card [symmetric] distinct_filter)
  finally show ?thesis by (simp add: set_lone_cr_new)
qed

lemma lone_at_last:
  assumes "lone_at (p @ c # q) i" and "i < blen p + len_utf8 c" and "\<not> i < blen p"
  shows "i = blen p \<and> c = CR \<and> \<not> starts_lf q"
proof -
  from assms(1) obtain p' q' where e: "p @ (c # q) = p' @ (CR # q')" "blen p' = i" "\<not> starts_lf q'"
    by (auto simp: lone_at_def)
  with assms(3) obtain l where l: "p' = p @ l" "c # q = l @ CR # q'"
    using append_blen_le [of p "c # q" p' "CR # q'"] by auto
  with e assms(2) have "l = []" by (cases l) auto
  with l e show ?thesis by auto
qed

lemma lone_before_card: "card {i. lone_at (p @ q) i \<and> i < blen p} = lone_before (rev p) q"
proof (induction p arbitrary: q rule: rev_induct)
  case (snoc c p)
  let ?below = "{i. lone_at (p @ c # q) i \<and> i < blen p}"
  let ?here = "if c = CR \<and> \<not> starts_lf q then {blen p} else {}"
  have "lone_at (p @ c # q) (blen p)" if "c = CR" "\<not> starts_lf q"
    using that by (auto simp: lone_at_def)
  then have "{i. lone_at ((p @ [c]) @ q) i \<and> i < blen (p @ [c])} = ?here \<union> ?below"
    using len_utf8_pos [of c] lone_at_last [of p c q] by (auto simp del: len_utf8_pos)
  moreover have "card (?here \<union> ?below) = card ?here + card ?below"
    by (rule card_Un_disjoint) auto
  ultimately show ?case using snoc.IH [of "c # q"] by simp
qed simp

lemma count_before_prefix: "count_before (lone_cr_new (p @ q)) (blen p) = lone_before (rev p) q"
  by (simp add: count_before_card lone_before_card)

lemma count_before_floor:
  "count_before (lone_cr_new s) (floor_char_boundary s n) = count_before (lone_cr_new s) n"
proof -
  have "i < floor_char_boundary s n" if "lone_at s i" "i < n" for i
  proof -
    from that(1) obtain p q where "s = p @ CR # q" "blen p = i" by (auto simp: lone_at_def)
    then have "is_char_boundary s (Suc i)" using boundary_append [of "p @ [CR]" q] by simp
    with that(2) have "Suc i \<le> floor_char_boundary s n" by (intro floor_greatest) simp_all
    then show ?thesis by simp
  qed
  then have "{i. lone_at s i \<and> i < floor_char_boundary s n} = {i. lone_at s i \<and> i < n}"
    using floor_le [of s n] by (auto intro: less_le_trans)
  then show ?thesis by (simp add: count_before_card)
qed

section \<open>The backward scan finds the start of the LSP line\<close>

lemma rfind_eol_from_snoc:
  "rfind_eol_from (p @ [c]) k = (if c = LF \<or> c = CR then Some (k + blen p) else rfind_eol_from p k)"
  by (induction p arbitrary: k) (auto simp: add.assoc split: option.splits)

lemma line_start_scan_prefix:
  "line_start_scan (p @ q) (blen p) + blen (line_chars (rev p) q) = blen p"
proof (induction p arbitrary: q rule: rev_induct)
  case Nil
  show ?case by (simp add: line_start_scan.simps [of q 0])
next
  case (snoc c p)
  let ?s = "p @ c # q"
  have pre: "btake ?s (blen p + len_utf8 c) = p @ [c]"
    using btake_append_exact [of "p @ [c]" q] by simp
  have at: "byte_get (as_bytes ?s) (blen p) = Some CR \<longleftrightarrow> c = CR"
    using byte_get_at [of p c q] hd_utf8_enc_iff [of CR c] by auto
  have after: "byte_get (as_bytes ?s) (Suc (blen p)) = Some LF \<longleftrightarrow> starts_lf q" if "c = CR"
    using byte_get_lf_after [of CR p q] that by simp
  note scan = line_start_scan.simps [of ?s "blen p + len_utf8 c", unfolded pre rfind_eol_from_snoc]
  consider (lf) "c = LF" | (lone) "c = CR" "\<not> starts_lf q" | (crlf) "c = CR" "starts_lf q"
    | (other) "c \<noteq> LF" "c \<noteq> CR" by blast
  then show ?case
  proof cases
    case lf
    with scan at show ?thesis by (simp add: ends_lsp_line_def)
  next
    case lone
    with scan at after show ?thesis by (simp add: ends_lsp_line_def)
  next
    case crlf
    with scan at after snoc.IH [of "c # q"] show ?thesis by (simp add: ends_lsp_line_def)
  next
    case other
    with scan have "line_start_scan ?s (blen p + len_utf8 c) = line_start_scan ?s (blen p)"
      by (simp add: line_start_scan.simps [of ?s "blen p"])
    with other snoc.IH [of "c # q"] show ?thesis by (simp add: ends_lsp_line_def)
  qed
qed

lemma line_chars_suffix: "\<exists>l. p = l @ line_chars (rev p) q"
proof (induction p arbitrary: q rule: rev_induct)
  case (snoc c p)
  then show ?case using snoc.IH [of "c # q"] by auto
qed simp

lemma line_start_slice:
  "str_get (p @ q) (line_start_scan (p @ q) (blen p)) (blen p) = Some (line_chars (rev p) q)"
proof -
  obtain l where l: "p = l @ line_chars (rev p) q" using line_chars_suffix by blast
  then have "blen l + blen (line_chars (rev p) q) = blen p" by (metis blen_simps(3))
  moreover from this have "line_start_scan (p @ q) (blen p) = blen l"
    using line_start_scan_prefix [of p q] by simp
  ultimately show ?thesis unfolding str_get_Some using l by (metis append.assoc)
qed

section \<open>Correctness\<close>

lemma lsp_row_bound: "fst (lsp_pos s n (r, c)) \<le> r + length s"
proof (induction s arbitrary: n r c)
  case (Cons ch s)
  show ?case
    using Cons.IH [of "n - len_utf8 ch" "r + 1" 0] Cons.IH [of "n - len_utf8 ch" r "c + len_utf16 ch"]
    by auto
qed simp

lemma length_le_blen: "length s \<le> blen s"
proof (induction s)
  case (Cons c s)
  then show ?case using len_utf8_pos [of c] unfolding blen_simps list.size by linarith
qed simp

lemma sat_add32_of_nat:
  "a + b < 2 ^ 32 \<Longrightarrow> sat_add32 (of_nat a) (u32_try_from b) = of_nat (a + b)"
  by (simp add: sat_add32_def u32_try_from_def unat_of_nat)

lemma lsp_position_prefix:
  assumes "blen (p @ q) < 2 ^ 32"
  shows "lsp_position (lone_cr_new (p @ q)) (p @ q) (blen p)
      (of_nat (fst (tree_pos (p @ q) (blen p) (0, 0)))) (of_nat (snd (tree_pos (p @ q) (blen p) (0, 0)))) =
    Some (map_prod of_nat of_nat (lsp_pos (p @ q) (blen p) (0, 0)))"
proof (cases "lone_before (rev p) q = 0")
  case True
  then show ?thesis
    by (simp add: lsp_position_def count_before_prefix lsp_pos_prefix lone_before_0_column)
next
  case False
  have "fst (lsp_pos (p @ q) (blen p) (0, 0)) < 2 ^ 32"
    using lsp_row_bound [of "p @ q" "blen p" 0 0] length_le_blen [of "p @ q"] assms by simp
  then have "sat_add32 (of_nat (fst (tree_pos (p @ q) (blen p) (0, 0)))) (u32_try_from (lone_before (rev p) q))
      = of_nat (fst (lsp_pos (p @ q) (blen p) (0, 0)))"
    by (simp add: lsp_pos_prefix sat_add32_of_nat)
  with False show ?thesis
    by (simp add: lsp_position_def count_before_prefix lsp_pos_prefix floor_of_boundary
        line_start_slice Let_def)
qed


text \<open>
  C36: for a document under 4 GiB and any byte offset, boundary or not, \<open>lsp_position\<close>
  turns the tree-sitter row and UTF-16 column of the byte into its LSP line and column,
  without a panicking slice.
\<close>

theorem lsp_position_correct:
  assumes "blen s < 2 ^ 32"
    and "tree_pos s byte (0, 0) = (row, column)"
    and "lsp_pos s byte (0, 0) = (line, character)"
  shows "lsp_position (lone_cr_new s) s byte (of_nat row) (of_nat column) =
    Some (of_nat line, of_nat character)"
proof -
  let ?b = "floor_char_boundary s byte"
  obtain p q where s: "s = p @ q" and p: "blen p = ?b" using boundaryE [OF floor_is_boundary] by metis
  have "lsp_position (lone_cr_new s) s byte r c = lsp_position (lone_cr_new s) s ?b r c" for r c
    by (simp add: lsp_position_def count_before_floor floor_of_boundary Let_def)
  then show ?thesis
    using lsp_position_prefix [of p q] assms
    by (simp add: p s [symmetric] lsp_pos_btake tree_pos_btake)
qed

lemma lsp_position_correct_witness:
  "lsp_position (lone_cr_new [97, 13, 98, 13, 10, 99, 0x3042, 100]) [97, 13, 98, 13, 10, 99, 0x3042, 100] 9
     (of_nat 1) (of_nat 2) = Some (of_nat 2, of_nat 2)"
  by (rule lsp_position_correct)
    (simp_all add: len_utf8_def len_utf16_def ends_lsp_line_def starts_lf_def)

end
