(* ===== verification/Text_Edits.thy ===== *)
theory Text_Edits
  imports Text_Columns "HOL-Library.Product_Lexorder"
begin

text \<open>
  \<open>src/src/text/edit.rs\<close>: applying the \<open>TextEdit[]\<close> of a formatting response.
  The position mapper is the third-party line index behind \<open>PositionMapper\<close>; it is the
  parameter \<open>to_byte\<close>, a function from LSP positions to byte offsets about which nothing
  is assumed. The module promises that no response makes it panic and that edits are
  applied against the original text.
\<close>

record lsp_pos_t =
  pos_line :: u32
  pos_character :: u32

record text_edit =
  range_start :: lsp_pos_t
  range_end :: lsp_pos_t
  new_text :: rstr

section \<open>The forward copy\<close>

type_synonym byte_edit = "nat \<times> nat \<times> rstr"

definition byte_edit_of :: "(lsp_pos_t \<Rightarrow> nat) \<Rightarrow> rstr \<Rightarrow> text_edit \<Rightarrow> byte_edit" where
  "byte_edit_of to_byte text e =
     (let a = floor_char_boundary text (to_byte (range_start e));
          b = floor_char_boundary text (to_byte (range_end e));
          (start, stop) = (if a \<le> b then (a, b) else (b, a))
      in (start, stop, new_text e))"

fun forward_copy :: "rstr \<Rightarrow> nat \<Rightarrow> byte_edit list \<Rightarrow> rstr option" where
  "forward_copy text cursor [] = str_get text cursor (blen text)"
| "forward_copy text cursor ((start, stop, new) # rest) =
     (if start < cursor then forward_copy text cursor rest
      else case str_get text cursor start of
             None \<Rightarrow> None
           | Some gap \<Rightarrow> map_option (\<lambda>tail. gap @ new @ tail) (forward_copy text stop rest))"

definition apply_text_edits :: "(lsp_pos_t \<Rightarrow> nat) \<Rightarrow> rstr \<Rightarrow> text_edit list \<Rightarrow> rstr option" where
  "apply_text_edits to_byte text edits =
     (if edits = [] then Some text
      else forward_copy text 0
             (sort_key (\<lambda>(start, stop, _). (start, stop)) (map (byte_edit_of to_byte text) edits)))"

section \<open>Every edit list is applied without a panic\<close>

definition valid_byte_edit :: "rstr \<Rightarrow> byte_edit \<Rightarrow> bool" where
  "valid_byte_edit s e \<longleftrightarrow>
     (case e of (start, stop, _) \<Rightarrow>
        start \<le> stop \<and> is_char_boundary s start \<and> is_char_boundary s stop)"

lemma valid_byte_edit_of: "valid_byte_edit s (byte_edit_of to_byte s e)"
  by (auto simp: valid_byte_edit_def byte_edit_of_def Let_def)

lemma str_get_total:
  "a \<le> b \<Longrightarrow> is_char_boundary s a \<Longrightarrow> is_char_boundary s b \<Longrightarrow> \<exists>t. str_get s a b = Some t"
  by (simp add: str_get_def)

lemma forward_copy_total:
  "is_char_boundary s cursor \<Longrightarrow> \<forall>e\<in>set es. valid_byte_edit s e \<Longrightarrow> \<exists>t. forward_copy s cursor es = Some t"
proof (induction s cursor es rule: forward_copy.induct)
  case (1 s cursor)
  then show ?case by (simp add: str_get_def boundary_le_blen)
next
  case (2 s cursor start stop new rest)
  show ?case
  proof (cases "start < cursor")
    case False
    with 2 obtain gap where "str_get s cursor start = Some gap"
      using str_get_total [of cursor start s] by (auto simp: valid_byte_edit_def)
    with 2 False show ?thesis by (auto simp: valid_byte_edit_def)
  qed (use 2 in auto)
qed

lemma sorted_byte_edits_valid:
  "e \<in> set (sort_key f (map (byte_edit_of to_byte s) edits)) \<Longrightarrow> valid_byte_edit s e"
  by (auto simp: valid_byte_edit_of)

section \<open>What the copy computes\<close>

text \<open>
  \<open>edited at es s t\<close>: read from byte \<open>at\<close> on, \<open>s\<close> is a sequence of gaps and edited
  ranges that lie where the edits say, and \<open>t\<close> is the same gaps with each edited range
  replaced by the edit's text.
\<close>

inductive edited :: "nat \<Rightarrow> byte_edit list \<Rightarrow> rstr \<Rightarrow> rstr \<Rightarrow> bool" where
  rest: "edited at [] s s"
| edit: "edited (at + blen gap + blen old) es s t \<Longrightarrow>
    edited at ((at + blen gap, at + blen gap + blen old, new) # es) (gap @ old @ s) (gap @ new @ t)"

inductive_cases edited_NilE: "edited at [] s t"
inductive_cases edited_ConsE: "edited at (e # es) s t"

text \<open>
  The edits that the copy keeps: going through the list, an edit that starts before the
  end of the last kept one overlaps it and is dropped.
\<close>

fun kept_edits :: "nat \<Rightarrow> byte_edit list \<Rightarrow> byte_edit list" where
  "kept_edits cursor [] = []"
| "kept_edits cursor ((start, stop, new) # rest) =
     (if start < cursor then kept_edits cursor rest
      else (start, stop, new) # kept_edits stop rest)"

fun disjoint_from :: "nat \<Rightarrow> byte_edit list \<Rightarrow> bool" where
  "disjoint_from cursor [] \<longleftrightarrow> True"
| "disjoint_from cursor ((start, stop, _) # rest) \<longleftrightarrow> cursor \<le> start \<and> disjoint_from stop rest"

lemma kept_disjoint: "disjoint_from cursor (kept_edits cursor es)"
  by (induction cursor es rule: kept_edits.induct) auto

lemma kept_all: "disjoint_from cursor es \<Longrightarrow> kept_edits cursor es = es"
  by (induction cursor es rule: kept_edits.induct) auto

lemma set_kept: "set (kept_edits cursor es) \<subseteq> set es"
  by (induction cursor es rule: kept_edits.induct) auto

lemma forward_copy_edited:
  "forward_copy s cursor es = Some t \<Longrightarrow> is_char_boundary s cursor \<Longrightarrow>
    \<forall>e\<in>set es. valid_byte_edit s e \<Longrightarrow> edited cursor (kept_edits cursor es) (bdrop s cursor) t"
proof (induction s cursor es arbitrary: t rule: forward_copy.induct)
  case (1 s cursor)
  then show ?case by (simp add: str_get_suffix edited.rest)
next
  case (2 s cursor start stop new es)
  show ?case
  proof (cases "start < cursor")
    case False
    with "2.prems" obtain gap tail where gap: "str_get s cursor start = Some gap"
      and tail: "forward_copy s stop es = Some tail" and t: "t = gap @ new @ tail"
      by (auto split: option.splits)
    from "2.prems" have v: "start \<le> stop" "is_char_boundary s start" "is_char_boundary s stop"
      by (auto simp: valid_byte_edit_def)
    then obtain old where old: "str_get s start stop = Some old" using str_get_total by blast
    from gap obtain p q where s: "s = p @ gap @ q" "blen p = cursor" "start = cursor + blen gap"
      by (auto simp: str_get_Some)
    from old obtain p' q' where s': "s = p' @ old @ q'" "blen p' = start" "stop = start + blen old"
      by (auto simp: str_get_Some)
    have "bdrop s start = q" using s bdrop_append_exact [of "p @ gap" q] by simp
    moreover have "bdrop s start = old @ q'" using s' by (metis bdrop_append_exact)
    moreover have "bdrop s stop = q'" using s' bdrop_append_exact [of "p' @ old" q'] by simp
    moreover have "bdrop s cursor = gap @ q" using s by (metis bdrop_append_exact)
    ultimately have "bdrop s cursor = gap @ old @ bdrop s stop" by simp
    moreover from "2.IH"(2) [OF False gap tail v(3)] "2.prems"
    have "edited stop (kept_edits stop es) (bdrop s stop) tail" by simp
    ultimately show ?thesis using edited.edit [of cursor gap old] s(3) s'(3) t False by simp
  qed (use 2 in auto)
qed

text \<open>
  The edits in position order: each replaces the bytes between its two ends, whichever comes first, and
  an end inside a character counts as the start of that character. Edits of the same range stay in the
  order they were sent in.
\<close>

definition sorted_byte_edits :: "(lsp_pos_t \<Rightarrow> nat) \<Rightarrow> rstr \<Rightarrow> text_edit list \<Rightarrow> byte_edit list" where
  "sorted_byte_edits to_byte s edits =
     sort_key (\<lambda>(start, stop, _). (start, stop))
       (map (\<lambda>e. let a = floor_char_boundary s (to_byte (range_start e));
                    b = floor_char_boundary s (to_byte (range_end e))
                in (min a b, max a b, new_text e)) edits)"

lemma sorted_by_code: "sorted_byte_edits to_byte s edits =
    sort_key (\<lambda>(start, stop, _). (start, stop)) (map (byte_edit_of to_byte s) edits)"
proof -
  have "byte_edit_of to_byte s =
      (\<lambda>e. let a = floor_char_boundary s (to_byte (range_start e)); b = floor_char_boundary s (to_byte (range_end e))
            in (min a b, max a b, new_text e))"
    by (rule ext) (auto simp: byte_edit_of_def Let_def)
  then show ?thesis by (simp only: sorted_byte_edits_def)
qed

text \<open>
  One edit on its own, as \<open>String::replace_range\<close> does it, and a list of edits applied one after the
  other to the text that the previous one left, the last edit of the list first.
\<close>

definition replace_range :: "byte_edit \<Rightarrow> rstr \<Rightarrow> rstr option" where
  "replace_range e text =
     (case e of (start, stop, new) \<Rightarrow>
        (case (str_get text 0 start, str_get text stop (blen text)) of
           (Some before, Some behind) \<Rightarrow> Some (before @ new @ behind)
         | _ \<Rightarrow> None))"

fun apply_back_to_front :: "byte_edit list \<Rightarrow> rstr \<Rightarrow> rstr option" where
  "apply_back_to_front [] text = Some text"
| "apply_back_to_front (e # es) text = Option.bind (apply_back_to_front es text) (replace_range e)"

lemma replace_range_at:
  "replace_range (blen p, blen p + blen old, new) (p @ old @ q) = Some (p @ new @ q)"
proof -
  have "str_get (p @ old @ q) 0 (blen p) = Some p"
    using str_get_Some [of "p @ old @ q" 0 "blen p" p] by auto
  moreover have "str_get (p @ old @ q) (blen p + blen old) (blen (p @ old @ q)) = Some q"
    using str_get_Some [of "p @ old @ q" "blen p + blen old" "blen (p @ old @ q)" q]
    by (auto intro: exI [of _ "p @ old"])
  ultimately show ?thesis by (simp add: replace_range_def)
qed

lemma edited_back_to_front:
  "edited at es s t \<Longrightarrow> blen p = at \<Longrightarrow> apply_back_to_front es (p @ s) = Some (p @ t)"
proof (induction arbitrary: p rule: edited.induct)
  case (edit at gap old es s t new)
  have "apply_back_to_front es ((p @ gap @ old) @ s) = Some ((p @ gap @ old) @ t)"
    using edit.prems by (intro edit.IH) simp
  then show ?case using replace_range_at [of "p @ gap" old new t] edit.prems by simp
qed simp

text \<open>
  C34: whatever positions a server sends and wherever the line index puts them, the edits are applied
  without a panic, and the result is that of applying the kept edits one by one, the last in position
  order first, each as a replacement in the text the one before left. Every one of them so replaces the
  very range of the original text that it names, and every other character stays as it is. Of edits
  that overlap, the first in position order is kept.
\<close>

theorem apply_text_edits_correct:
  "let kept = kept_edits 0 (sorted_byte_edits to_byte s edits)
   in \<exists>t. apply_text_edits to_byte s edits = Some t \<and> apply_back_to_front kept s = Some t \<and> edited 0 kept s t"
proof -
  let ?es = "sorted_byte_edits to_byte s edits"
  have v: "\<forall>e\<in>set ?es. valid_byte_edit s e" by (auto simp: sorted_by_code valid_byte_edit_of)
  obtain t where t: "forward_copy s 0 ?es = Some t" using forward_copy_total [OF _ v, of 0] by auto
  then have e: "edited 0 (kept_edits 0 ?es) s t" using forward_copy_edited [OF t _ v] by simp
  moreover have "apply_text_edits to_byte s edits = Some t"
    using t str_get_suffix [of s 0] bdrop_append_exact [of "[]" s]
    by (cases "edits = []") (simp_all add: apply_text_edits_def sorted_by_code)
  ultimately show ?thesis using edited_back_to_front [OF e, of "[]"] by (auto simp: Let_def)
qed

end
