(* ===== verification/Position_Batch.thy ===== *)
theory Position_Batch
  imports Lone_Cr Text_Edits
begin

text \<open>
  \<open>positions_to_bytes_clamped\<close> of \<open>src/src/text/position.rs\<close>: the byte offsets of many
  LSP positions in one pass over the text. The positions are visited in sorted order and
  the scan resumes where the previous position left it. The specification answers each
  position on its own: \<open>nth_line\<close> finds the line, \<open>utake\<close> the part of it before the
  column.
\<close>

section \<open>The single pass\<close>

text \<open>The state of the scan: the characters left, the byte they start at, and the position reached with its byte.\<close>

record scan =
  chars :: rstr
  at_byte :: nat
  reached_line :: nat
  reached_column :: nat
  reached_byte :: nat

fun skip_eol :: "nat \<Rightarrow> rstr \<Rightarrow> nat \<times> rstr" where
  "skip_eol ch rest =
     (if ch = CR \<and> starts_lf rest then (2, tl rest) else (1, rest))"

function advance :: "nat \<Rightarrow> nat \<Rightarrow> rstr \<Rightarrow> nat \<Rightarrow> nat \<Rightarrow> nat \<Rightarrow> nat \<Rightarrow> scan" where
  "advance tln tc [] at ln cl b =
     \<lparr>chars = [], at_byte = at, reached_line = ln, reached_column = cl, reached_byte = b\<rparr>"
| "advance tln tc (ch # rest) at ln cl b =
     (let stop = \<lparr>chars = ch # rest, at_byte = at, reached_line = ln, reached_column = cl,
                  reached_byte = b\<rparr>
      in if \<not> (ln < tln \<or> cl < tc) then stop
         else if ch = LF \<or> ch = CR then
           (if ln = tln then stop
            else let (width, rest') = skip_eol ch rest
                 in advance tln tc rest' (at + width) (ln + 1) 0 (at + width))
         else if ln = tln \<and> cl + len_utf16 ch > tc then stop
         else advance tln tc rest (at + len_utf8 ch) ln (cl + len_utf16 ch) (at + len_utf8 ch))"
  by pat_completeness auto
termination
  by (relation "measure (\<lambda>(_, _, s, _). length s)") (auto simp: starts_lf_def split: if_splits)

definition resume :: "nat \<times> nat \<Rightarrow> scan \<Rightarrow> scan" where
  "resume target s = advance (fst target) (snd target) (chars s) (at_byte s) (reached_line s)
     (reached_column s) (reached_byte s)"

definition scan_start :: "rstr \<Rightarrow> scan" where
  "scan_start s = \<lparr>chars = s, at_byte = 0, reached_line = 0, reached_column = 0, reached_byte = 0\<rparr>"

definition answer :: "rstr \<Rightarrow> nat \<times> nat \<Rightarrow> scan \<Rightarrow> nat" where
  "answer s target r = (if reached_line r < fst target then blen s else reached_byte r)"

definition target_of :: "lsp_pos_t \<Rightarrow> nat \<times> nat" where
  "target_of p = (unat (pos_line p), unat (pos_character p))"

fun visit :: "rstr \<Rightarrow> lsp_pos_t list \<Rightarrow> nat list \<Rightarrow> scan \<Rightarrow> nat list \<Rightarrow> nat list" where
  "visit s positions [] st bytes = bytes"
| "visit s positions (index # order) st bytes =
     (let target = target_of (positions ! index);
          st' = resume target st
      in visit s positions order st' (bytes[index := answer s target st']))"

definition positions_to_bytes_clamped :: "rstr \<Rightarrow> lsp_pos_t list \<Rightarrow> nat list" where
  "positions_to_bytes_clamped s positions =
     visit s positions
       (sort_key (\<lambda>index. (pos_line (positions ! index), pos_character (positions ! index)))
         [0..<length positions])
       (scan_start s) (replicate (length positions) 0)"

section \<open>Specification: one position at a time\<close>

fun drop_line :: "rstr \<Rightarrow> nat \<Rightarrow> (nat \<times> rstr) option" where
  "drop_line [] at = None"
| "drop_line (ch # rest) at =
     (if ch = LF \<or> ch = CR then (case skip_eol ch rest of (width, rest') \<Rightarrow> Some (at + width, rest'))
      else drop_line rest (at + len_utf8 ch))"

fun nth_line :: "nat \<Rightarrow> rstr \<Rightarrow> nat \<Rightarrow> (nat \<times> rstr) option" where
  "nth_line 0 s at = Some (at, takeWhile (\<lambda>c. c \<noteq> LF \<and> c \<noteq> CR) s)"
| "nth_line (Suc l) s at =
     (case drop_line s at of None \<Rightarrow> None | Some (at', s') \<Rightarrow> nth_line l s' at')"

text \<open>The longest prefix of at most \<open>n\<close> UTF-16 units.\<close>

fun utake :: "rstr \<Rightarrow> nat \<Rightarrow> rstr" where
  "utake [] n = []"
| "utake (c # s) n = (if len_utf16 c \<le> n then c # utake s (n - len_utf16 c) else [])"

definition clamped_byte :: "rstr \<Rightarrow> nat \<times> nat \<Rightarrow> nat" where
  "clamped_byte s target =
     (case nth_line (fst target) s 0 of
        None \<Rightarrow> blen s
      | Some (start, content) \<Rightarrow> start + blen (utake content (snd target)))"

section \<open>Resuming from an earlier target loses nothing\<close>

lemma advance_line_le:
  "ln \<le> tln \<Longrightarrow> reached_line (advance tln tc s at ln cl b) \<le> tln"
  by (induction tln tc s at ln cl b rule: advance.induct) (auto simp: Let_def split: prod.splits)

lemma resume_resume:
  assumes "t1 \<le> t2" and "reached_line st \<le> fst t1"
  shows "resume t2 (resume t1 st) = resume t2 st"
proof -
  have "resume (l2, c2) (advance l1 c1 s at ln cl b) = advance l2 c2 s at ln cl b"
    if "ln \<le> l1" "(l1, c1) \<le> (l2, c2)" for l1 c1 l2 c2 s at ln cl b
    using that
  proof (induction l1 c1 s at ln cl b rule: advance.induct)
    case (2 tln tc ch rest at ln cl b)
    have lex: "tln < l2 \<or> tln = l2 \<and> tc \<le> c2" using "2.prems"(2) by auto
    consider (eol) "ch = LF \<or> ch = CR" "ln < tln"
      | (other) "ch \<noteq> LF" "ch \<noteq> CR" "ln < tln \<or> cl < tc" "\<not> (ln = tln \<and> cl + len_utf16 ch > tc)"
      | (halt) "advance tln tc (ch # rest) at ln cl b =
          \<lparr>chars = ch # rest, at_byte = at, reached_line = ln, reached_column = cl, reached_byte = b\<rparr>"
      using "2.prems"(1)
      by (cases "ch = LF \<or> ch = CR"; cases "ln < tln"; cases "cl < tc"; cases "cl + len_utf16 ch > tc")
        (simp_all add: Let_def)
    then show ?case
    proof cases
      case eol
      obtain width rest' where sk: "skip_eol ch rest = (width, rest')" by fastforce
      from eol lex have "ln < l2" by auto
      with eol sk "2.IH"(1) [OF refl _ eol(1) _ sk [symmetric]] "2.prems" show ?thesis
        by (simp add: Let_def del: skip_eol.simps)
    next
      case other
      with lex "2.prems"(1) have c2: "ln < l2 \<or> cl < c2" "\<not> (ln = l2 \<and> cl + len_utf16 ch > c2)" by auto
      let ?at = "at + len_utf8 ch" and ?cl = "cl + len_utf16 ch"
      have e1: "advance tln tc (ch # rest) at ln cl b = advance tln tc rest ?at ln ?cl ?at"
        using other by (auto simp: Let_def)
      have e2: "advance l2 c2 (ch # rest) at ln cl b = advance l2 c2 rest ?at ln ?cl ?at"
        using other c2 by (auto simp: Let_def)
      have "resume (l2, c2) (advance tln tc rest ?at ln ?cl ?at) = advance l2 c2 rest ?at ln ?cl ?at"
        using "2.IH"(2) [OF refl _ _ other(4)] other "2.prems" by simp
      then show ?thesis by (simp only: e1 e2)
    next
      case halt
      then show ?thesis by (simp add: resume_def)
    qed
  qed (simp add: resume_def)
  from this [of "reached_line st" "fst t1" "snd t1" "fst t2" "snd t2"] assms show ?thesis
    by (simp add: resume_def)
qed

lemma resume_line_le: "reached_line st \<le> fst t \<Longrightarrow> reached_line (resume t st) \<le> fst t"
  by (simp add: resume_def advance_line_le)

section \<open>The visit answers every index\<close>

lemma visit_length: "length (visit s ps order st bytes) = length bytes"
  by (induction order arbitrary: st bytes) (simp_all add: Let_def)

lemma visit_other: "i \<notin> set order \<Longrightarrow> visit s ps order st bytes ! i = bytes ! i"
  by (induction order arbitrary: st bytes) (simp_all add: Let_def)

lemma visit_nth:
  assumes "sorted (map (\<lambda>i. target_of (ps ! i)) order)" and "distinct order"
    and "\<forall>i\<in>set order. i < length bytes"
    and "\<forall>i\<in>set order. resume (target_of (ps ! i)) st = resume (target_of (ps ! i)) (scan_start s)"
    and "\<forall>i\<in>set order. reached_line st \<le> fst (target_of (ps ! i))"
    and "i \<in> set order"
  shows "visit s ps order st bytes ! i = answer s (target_of (ps ! i)) (resume (target_of (ps ! i)) (scan_start s))"
  using assms
proof (induction order arbitrary: st bytes)
  case (Cons j order)
  let ?st = "resume (target_of (ps ! j)) st"
  have here: "?st = resume (target_of (ps ! j)) (scan_start s)" using Cons.prems(4) by simp
  show ?case
  proof (cases "i = j")
    case True
    with Cons.prems here show ?thesis by (simp add: Let_def visit_other)
  next
    case False
    have line: "reached_line ?st \<le> fst (target_of (ps ! j))"
      using Cons.prems(5) by (simp add: resume_line_le)
    have later: "target_of (ps ! j) \<le> target_of (ps ! k)" if "k \<in> set order" for k
      using Cons.prems(1) that by simp
    have "reached_line ?st \<le> fst (target_of (ps ! k))" if "k \<in> set order" for k
      using later [OF that] line by (auto simp: less_eq_prod_def)
    moreover have "resume (target_of (ps ! k)) ?st = resume (target_of (ps ! k)) (scan_start s)"
      if "k \<in> set order" for k
      using resume_resume [OF later [OF that], of st] Cons.prems(4,5) that by simp
    ultimately show ?thesis
      using Cons.IH [of "bytes[j := answer s (target_of (ps ! j)) ?st]" ?st] Cons.prems False
      by (simp add: Let_def)
  qed
qed simp

lemma target_of_mono:
  "(pos_line p, pos_character p) \<le> (pos_line q, pos_character q) \<longleftrightarrow> target_of p \<le> target_of q"
  by (auto simp: target_of_def less_eq_prod_def word_le_nat_alt word_less_nat_alt)

lemma batch_nth:
  assumes "i < length ps"
  shows "positions_to_bytes_clamped s ps ! i =
    answer s (target_of (ps ! i)) (resume (target_of (ps ! i)) (scan_start s))"
proof -
  let ?key = "\<lambda>i. (pos_line (ps ! i), pos_character (ps ! i))"
  have "sorted (map ?key (sort_key ?key [0..<length ps]))" by simp
  then have "sorted (map (\<lambda>i. target_of (ps ! i)) (sort_key ?key [0..<length ps]))"
    by (simp only: sorted_map target_of_mono)
  then show ?thesis
    unfolding positions_to_bytes_clamped_def
    by (rule visit_nth) (use assms in \<open>auto simp: scan_start_def\<close>)
qed

section \<open>A single scan finds the line and the column\<close>

lemma advance_in_line:
  "tln = ln \<Longrightarrow> cl \<le> tc \<Longrightarrow> b = at \<Longrightarrow>
    reached_line (advance tln tc s at ln cl b) = ln \<and>
    reached_byte (advance tln tc s at ln cl b) =
      b + blen (utake (takeWhile (\<lambda>c. c \<noteq> LF \<and> c \<noteq> CR) s) (tc - cl))"
proof (induction tln tc s at ln cl b rule: advance.induct)
  case (2 tln tc ch rest at ln cl b)
  consider (full) "cl = tc" | (eol) "cl < tc" "ch = LF \<or> ch = CR"
    | (wide) "cl < tc" "ch \<noteq> LF" "ch \<noteq> CR" "cl + len_utf16 ch > tc"
    | (step) "cl < tc" "ch \<noteq> LF" "ch \<noteq> CR" "cl + len_utf16 ch \<le> tc"
    using "2.prems" by linarith
  then show ?case
  proof cases
    case full
    then show ?thesis using "2.prems" by (simp add: Let_def)
  next
    case step
    then have "tc - cl - len_utf16 ch = tc - (cl + len_utf16 ch)" by simp
    with step 2 show ?thesis by (simp add: Let_def le_diff_conv2 add.commute)
  qed (use "2.prems" in \<open>auto simp: Let_def\<close>)
qed simp

lemma advance_to_line:
  "ln < tln \<Longrightarrow>
    (case drop_line s at of
       None \<Rightarrow> reached_line (advance tln tc s at ln cl b) = ln
     | Some (at', s') \<Rightarrow> advance tln tc s at ln cl b = advance tln tc s' at' (ln + 1) 0 at')"
  by (induction tln tc s at ln cl b rule: advance.induct)
    (auto simp: Let_def split: option.splits prod.splits)

definition scan_answer :: "nat \<Rightarrow> nat \<Rightarrow> scan \<Rightarrow> nat" where
  "scan_answer eof tln r = (if reached_line r < tln then eof else reached_byte r)"

lemma scan_from_line:
  "ln + l = tln \<Longrightarrow> scan_answer eof tln (advance tln tc s at ln 0 at) =
    (case nth_line l s at of
       None \<Rightarrow> eof | Some (start, content) \<Rightarrow> start + blen (utake content tc))"
proof (induction l arbitrary: s at ln)
  case 0
  then show ?case using advance_in_line [of tln ln 0 tc at at s] by (simp add: scan_answer_def)
next
  case (Suc l)
  note step = advance_to_line [where ln = ln and tln = tln and s = s and at = at and tc = tc and cl = 0 and b = at]
  show ?case
  proof (cases "drop_line s at")
    case None
    with Suc.prems step show ?thesis by (simp add: scan_answer_def)
  next
    case (Some r)
    obtain at' s' where r: "r = (at', s')" by (cases r)
    with Some Suc.prems step have "advance tln tc s at ln 0 at = advance tln tc s' at' (Suc ln) 0 at'"
      by simp
    with Some r Suc.IH [of "Suc ln" s' at'] Suc.prems show ?thesis by simp
  qed
qed

text \<open>
  the batch conversion answers every position, in the order given, with the byte
  that the position has on its own: the end of the text for a line past the last one,
  else the longest part of that line's content that fits before the column.
\<close>

lemma positions_to_bytes_clamped_correct:
  "positions_to_bytes_clamped s ps = map (\<lambda>p. clamped_byte s (target_of p)) ps"
proof (rule nth_equalityI)
  show "length (positions_to_bytes_clamped s ps) = length (map (\<lambda>p. clamped_byte s (target_of p)) ps)"
    by (simp add: positions_to_bytes_clamped_def visit_length)
  fix i assume "i < length (positions_to_bytes_clamped s ps)"
  then have i: "i < length ps" by (simp add: positions_to_bytes_clamped_def visit_length)
  obtain tln tc where t: "target_of (ps ! i) = (tln, tc)" by fastforce
  have "answer s (tln, tc) (resume (tln, tc) (scan_start s)) = clamped_byte s (tln, tc)"
    using scan_from_line [of 0 tln tln "blen s" tc s 0]
    by (simp add: answer_def scan_answer_def resume_def scan_start_def clamped_byte_def
        split: option.split prod.split)
  with batch_nth [OF i, of s] i t show
    "positions_to_bytes_clamped s ps ! i = map (\<lambda>p. clamped_byte s (target_of p)) ps ! i"
    by simp
qed

end
