(* ===== verification/Tokens.thy ===== *)
theory Tokens
  imports Rust_Str "HOL-Library.Product_Lexorder"
begin

text \<open>
  The tokens of \<open>src/src/analysis/semantic/token_collector.rs\<close> that the finalizer
  (\<open>finalize.rs\<close> beside it) works on, their priority, and what a list of tokens paints on
  a column of a line, which is the vocabulary of the finalizer's specifications.
\<close>

datatype token_kind =
    Mapped u32 u32
  | MappedUnknown string
  | Transparent
  | NoneCapture

fun is_emitted :: "token_kind \<Rightarrow> bool" where
  "is_emitted (Mapped _ _) \<longleftrightarrow> True"
| "is_emitted (MappedUnknown _) \<longleftrightarrow> True"
| "is_emitted Transparent \<longleftrightarrow> False"
| "is_emitted NoneCapture \<longleftrightarrow> False"

record raw_token =
  tk_line :: nat
  tk_column :: nat
  tk_length :: nat
  tk_kind :: token_kind
  tk_depth :: nat
  tk_pattern_index :: nat
  tk_priority :: u32
  tk_node_byte_len :: nat

definition with_span :: "raw_token \<Rightarrow> nat \<Rightarrow> nat \<Rightarrow> nat \<Rightarrow> raw_token" where
  "with_span t ln cl len = t\<lparr>tk_line := ln, tk_column := cl, tk_length := len\<rparr>"

record injection_bounds =
  start_line :: nat
  start_col :: nat
  end_line :: nat
  end_col :: nat

type_synonym priority_key = "u32 \<times> nat \<times> nat \<times> nat"

definition token_priority :: "raw_token \<Rightarrow> priority_key" where
  "token_priority t =
     (tk_priority t, tk_depth t, usize_max - tk_node_byte_len t, tk_pattern_index t)"

lemma with_span_simps [simp]:
  "tk_line (with_span t ln cl len) = ln" "tk_column (with_span t ln cl len) = cl"
  "tk_length (with_span t ln cl len) = len" "tk_kind (with_span t ln cl len) = tk_kind t"
  "tk_depth (with_span t ln cl len) = tk_depth t"
  "tk_pattern_index (with_span t ln cl len) = tk_pattern_index t"
  "tk_priority (with_span t ln cl len) = tk_priority t"
  "tk_node_byte_len (with_span t ln cl len) = tk_node_byte_len t"
  by (simp_all add: with_span_def)

section \<open>Covering and painting\<close>

text \<open>A token covers the columns of its line from its column up to its end.\<close>

abbreviation tk_end :: "raw_token \<Rightarrow> nat" where
  "tk_end t \<equiv> tk_column t + tk_length t"

definition covers :: "raw_token \<Rightarrow> nat \<Rightarrow> nat \<Rightarrow> bool" where
  "covers t ln c \<longleftrightarrow> tk_line t = ln \<and> tk_column t \<le> c \<and> c < tk_end t"

text \<open>What of a token survives fragmentation: everything but its place and the size of its node.\<close>

definition ident :: "raw_token \<Rightarrow> token_kind \<times> nat \<times> nat \<times> u32" where
  "ident t = (tk_kind t, tk_depth t, tk_pattern_index t, tk_priority t)"

lemma ident_with_span [simp]: "ident (with_span t ln cl len) = ident t"
  by (simp add: ident_def)

definition painted :: "raw_token list \<Rightarrow> nat \<Rightarrow> nat \<Rightarrow> (token_kind \<times> nat \<times> nat \<times> u32) option" where
  "painted ts ln c = map_option ident (find (\<lambda>t. covers t ln c) ts)"

text \<open>Non-empty tokens in document order, none reaching into the next.\<close>

definition before_token :: "raw_token \<Rightarrow> raw_token \<Rightarrow> bool" where
  "before_token t u \<longleftrightarrow> tk_line t < tk_line u \<or> tk_line t = tk_line u \<and> tk_end t \<le> tk_column u"

definition laid_out :: "raw_token list \<Rightarrow> bool" where
  "laid_out ts \<longleftrightarrow> sorted_wrt before_token ts \<and> (\<forall>t\<in>set ts. 0 < tk_length t)"

lemma painted_Nil [simp]: "painted [] ln c = None"
  by (simp add: painted_def)

lemma painted_Cons:
  "painted (t # ts) ln c = (if covers t ln c then Some (ident t) else painted ts ln c)"
  by (simp add: painted_def)

lemma painted_append:
  "painted (ts @ us) ln c = (case painted ts ln c of None \<Rightarrow> painted us ln c | Some i \<Rightarrow> Some i)"
  by (induction ts) (simp_all add: painted_Cons)

lemma painted_None: "painted ts ln c = None \<longleftrightarrow> (\<forall>t\<in>set ts. \<not> covers t ln c)"
  by (induction ts) (simp_all add: painted_Cons)

lemma laid_out_append:
  "laid_out (ts @ us) \<longleftrightarrow> laid_out ts \<and> laid_out us \<and> (\<forall>t\<in>set ts. \<forall>u\<in>set us. before_token t u)"
  by (auto simp: laid_out_def sorted_wrt_append)

lemma laid_out_Cons:
  "laid_out (t # ts) \<longleftrightarrow> 0 < tk_length t \<and> (\<forall>u\<in>set ts. before_token t u) \<and> laid_out ts"
  by (auto simp: laid_out_def)

lemma laid_out_Nil [simp]: "laid_out []"
  by (simp add: laid_out_def)

end
