(* ===== verification/Token_Sweep.thy ===== *)
theory Token_Sweep
  imports Tokens
begin

text \<open>
  \<open>split_overlapping_tokens_cancellable\<close> and \<open>merge_adjacent_fragments\<close> of
  \<open>src/src/analysis/semantic/finalize.rs\<close>: overlapping tokens of a line become
  fragments, each won by the token of highest priority. The code sweeps the line once
  with a max-heap of active tokens and lazy expiry; the specification \<open>winner\<close> rescans
  every token at every column. The cancellation token is absent here (\<open>None\<close>, as in
  range requests): a cancelled run only stops early with no result.
\<close>

section \<open>The heap\<close>

text \<open>\<open>BinaryHeap<HeapEntry>\<close>: its entries in no particular order, \<open>peek\<close> the largest by priority and line index.\<close>

record heap_entry =
  he_priority :: priority_key
  he_end :: nat
  he_index :: nat

definition he_key :: "heap_entry \<Rightarrow> priority_key \<times> nat" where
  "he_key e = (he_priority e, he_index e)"

fun heap_peek :: "heap_entry list \<Rightarrow> heap_entry option" where
  "heap_peek [] = None"
| "heap_peek (e # es) =
     (case heap_peek es of
        None \<Rightarrow> Some e
      | Some m \<Rightarrow> if he_key m \<le> he_key e then Some e else Some m)"

definition heap_pop :: "heap_entry list \<Rightarrow> heap_entry list" where
  "heap_pop h = (case heap_peek h of None \<Rightarrow> h | Some peak \<Rightarrow> remove1 peak h)"

lemma heap_peek_None [simp]: "heap_peek h = None \<longleftrightarrow> h = []"
  by (cases h) (auto split: option.splits)

lemma heap_peek_Some:
  "heap_peek h = Some m \<Longrightarrow> m \<in> set h \<and> (\<forall>e\<in>set h. he_key e \<le> he_key m)"
proof (induction h arbitrary: m)
  case (Cons e h)
  show ?case
  proof (cases "heap_peek h")
    case None
    then show ?thesis using Cons.prems by simp
  next
    case (Some k)
    note k = Cons.IH [OF Some]
    show ?thesis
    proof (cases "he_key k \<le> he_key e")
      case True
      then have "m = e" "\<forall>x\<in>set h. he_key x \<le> he_key e"
        using Cons.prems Some k order_trans by auto
      then show ?thesis by simp
    next
      case False
      then show ?thesis using Cons.prems Some k by auto
    qed
  qed
qed simp

lemma heap_pop_shorter: "heap_peek h = Some peak \<Longrightarrow> length (heap_pop h) < length h"
  by (auto simp: heap_pop_def length_remove1 dest: heap_peek_Some length_pos_if_in_set)

section \<open>One line\<close>

fun push_starting :: "raw_token list \<Rightarrow> nat \<Rightarrow> nat \<Rightarrow> heap_entry list \<Rightarrow> nat \<times> raw_token list \<times> heap_entry list" where
  "push_starting [] interval_start next_token heap = (next_token, [], heap)"
| "push_starting (t # ts) interval_start next_token heap =
     (if tk_column t \<le> interval_start then
        push_starting ts interval_start (next_token + 1)
          (if is_emitted (tk_kind t)
           then \<lparr>he_priority = token_priority t, he_end = tk_end t, he_index = next_token\<rparr> # heap
           else heap)
      else (next_token, t # ts, heap))"

function drop_expired :: "nat \<Rightarrow> heap_entry list \<Rightarrow> heap_entry list" where
  "drop_expired interval_start heap =
     (case heap_peek heap of
        None \<Rightarrow> heap
      | Some peak \<Rightarrow> if he_end peak \<le> interval_start then drop_expired interval_start (heap_pop heap) else heap)"
  by pat_completeness auto
termination
  by (relation "measure (\<lambda>(_, h). length h)") (auto simp: heap_pop_shorter)

declare drop_expired.simps [simp del]

text \<open>The sweep over the intervals between successive breakpoints; \<open>rest\<close> are the line's tokens from \<open>next_token\<close> on.\<close>

fun sweep :: "raw_token list \<Rightarrow> nat \<Rightarrow> nat list \<Rightarrow> nat \<Rightarrow> raw_token list \<Rightarrow> heap_entry list \<Rightarrow> raw_token list" where
  "sweep line_tokens current_line (interval_start # interval_end # bps) next_token rest heap =
     (if interval_start = interval_end
      then sweep line_tokens current_line (interval_end # bps) next_token rest heap
      else
        let (next_token, rest, heap) = push_starting rest interval_start next_token heap;
            heap = drop_expired interval_start heap;
            fragment = (case heap_peek heap of
                          None \<Rightarrow> []
                        | Some peak \<Rightarrow> [with_span (line_tokens ! he_index peak) current_line interval_start
                                        (interval_end - interval_start)])
        in fragment @ sweep line_tokens current_line (interval_end # bps) next_token rest heap)"
| "sweep line_tokens current_line _ next_token rest heap = []"

definition breakpoints :: "raw_token list \<Rightarrow> nat list" where
  "breakpoints line_tokens =
     remdups_adj (sort (concat (map (\<lambda>t. [tk_column t, tk_end t]) line_tokens)))"

definition sweep_line :: "raw_token list \<Rightarrow> nat \<Rightarrow> raw_token list" where
  "sweep_line line_tokens current_line =
     sweep line_tokens current_line (breakpoints line_tokens) 0 line_tokens []"

section \<open>The document\<close>

function sweep_lines :: "raw_token list \<Rightarrow> raw_token list" where
  "sweep_lines [] = []"
| "sweep_lines (t # ts) =
     (let current_line = tk_line t;
          line_tokens = t # takeWhile (\<lambda>u. tk_line u = current_line) ts;
          others = dropWhile (\<lambda>u. tk_line u = current_line) ts
      in sweep_line line_tokens current_line @ sweep_lines others)"
  by pat_completeness auto
termination
  by (relation "measure length") (auto simp: le_imp_less_Suc length_dropWhile_le)

definition can_merge :: "raw_token \<Rightarrow> raw_token \<Rightarrow> bool" where
  "can_merge w r \<longleftrightarrow>
     tk_line w = tk_line r \<and> tk_end w = tk_column r \<and> tk_kind w = tk_kind r \<and>
     tk_depth w = tk_depth r \<and> tk_pattern_index w = tk_pattern_index r \<and>
     tk_priority w = tk_priority r"

fun merge_adjacent_fragments :: "raw_token list \<Rightarrow> raw_token list" where
  "merge_adjacent_fragments (w # r # ts) =
     (if can_merge w r
      then merge_adjacent_fragments (w\<lparr>tk_length := tk_length w + tk_length r\<rparr> # ts)
      else w # merge_adjacent_fragments (r # ts))"
| "merge_adjacent_fragments ts = ts"

definition sort_tokens :: "raw_token list \<Rightarrow> raw_token list" where
  "sort_tokens = sort_key (\<lambda>t. (tk_line t, tk_column t))"

definition split_overlapping_tokens :: "raw_token list \<Rightarrow> raw_token list" where
  "split_overlapping_tokens tokens =
     (if tokens = [] then tokens
      else merge_adjacent_fragments (sweep_lines (sort_tokens tokens)))"

section \<open>Specification: rescanning every token\<close>

fun last_max_by :: "('a \<Rightarrow> 'b::linorder) \<Rightarrow> 'a list \<Rightarrow> 'a option" where
  "last_max_by key [] = None"
| "last_max_by key (x # xs) =
     (case last_max_by key xs of
        None \<Rightarrow> Some x
      | Some m \<Rightarrow> if key x \<le> key m then Some m else Some x)"

definition active :: "nat \<Rightarrow> raw_token \<Rightarrow> bool" where
  "active c t \<longleftrightarrow> is_emitted (tk_kind t) \<and> tk_column t \<le> c \<and> c < tk_end t"

definition winner :: "raw_token list \<Rightarrow> nat \<Rightarrow> raw_token option" where
  "winner line_tokens c = last_max_by token_priority (filter (active c) line_tokens)"

definition line_of :: "nat \<Rightarrow> raw_token list \<Rightarrow> raw_token list" where
  "line_of ln ts = filter (\<lambda>t. tk_line t = ln) ts"

lemma last_max_by_None [simp]: "last_max_by key xs = None \<longleftrightarrow> xs = []"
  by (cases xs) (auto split: option.splits)

lemma last_max_by_in: "last_max_by key xs = Some m \<Longrightarrow> m \<in> set xs"
  by (induction xs arbitrary: m) (auto split: option.splits if_splits)

lemma last_max_by_filter_nth:
  "\<lbrakk>i < length xs; P (xs ! i);
    \<And>j. j < length xs \<Longrightarrow> P (xs ! j) \<Longrightarrow> (key (xs ! j), j) \<le> (key (xs ! i), i)\<rbrakk>
    \<Longrightarrow> last_max_by key (filter P xs) = Some (xs ! i)"
proof (induction xs arbitrary: i)
  case (Cons x xs)
  show ?case
  proof (cases i)
    case 0
    have "key y < key x" if "y \<in> set xs" "P y" for y
    proof -
      from that obtain j where "j < length xs" "y = xs ! j" by (metis in_set_conv_nth)
      with Cons.prems(3) [of "Suc j"] 0 that show ?thesis by (auto simp: less_eq_prod_def)
    qed
    then have "key m < key x" if "last_max_by key (filter P xs) = Some m" for m
      using last_max_by_in [OF that] by simp
    then show ?thesis using 0 Cons.prems(2) by (auto split: option.splits)
  next
    case (Suc k)
    have "last_max_by key (filter P xs) = Some (xs ! k)"
    proof (rule Cons.IH)
      show "k < length xs" "P (xs ! k)" using Cons.prems(1,2) Suc by simp_all
      show "(key (xs ! j), j) \<le> (key (xs ! k), k)" if "j < length xs" "P (xs ! j)" for j
        using Cons.prems(3) [of "Suc j"] that Suc by (auto simp: less_eq_prod_def)
    qed
    moreover have "key x \<le> key (xs ! k)" if "P x"
      using Cons.prems(3) [of 0] Suc that by (auto simp: less_eq_prod_def)
    ultimately show ?thesis using Suc by simp
  qed
qed simp

section \<open>The heap holds the active tokens\<close>

definition entry :: "raw_token list \<Rightarrow> nat \<Rightarrow> heap_entry" where
  "entry line_tokens i =
     \<lparr>he_priority = token_priority (line_tokens ! i), he_end = tk_end (line_tokens ! i), he_index = i\<rparr>"

definition heap_tracks :: "raw_token list \<Rightarrow> nat \<Rightarrow> nat \<Rightarrow> heap_entry list \<Rightarrow> bool" where
  "heap_tracks line_tokens a n heap \<longleftrightarrow> n \<le> length line_tokens \<and>
     set heap \<subseteq> entry line_tokens ` {i. i < n \<and> is_emitted (tk_kind (line_tokens ! i))} \<and>
     (\<forall>i<n. tk_column (line_tokens ! i) \<le> a \<and>
        (is_emitted (tk_kind (line_tokens ! i)) \<and> a < tk_end (line_tokens ! i)
           \<longrightarrow> entry line_tokens i \<in> set heap))"

lemma entry_simps [simp]:
  "he_end (entry ts i) = tk_end (ts ! i)" "he_index (entry ts i) = i"
  "he_priority (entry ts i) = token_priority (ts ! i)"
  by (simp_all add: entry_def)

lemma heap_tracks_mono: "heap_tracks ts a n heap \<Longrightarrow> a \<le> b \<Longrightarrow> heap_tracks ts b n heap"
  unfolding heap_tracks_def by (meson order_trans le_less_trans)

lemma push_starting_tracks:
  "\<lbrakk>rest = drop n ts; heap_tracks ts a n heap; push_starting rest a n heap = (n', rest', heap')\<rbrakk>
    \<Longrightarrow> heap_tracks ts a n' heap' \<and> rest' = drop n' ts \<and>
      (n' = length ts \<or> n' < length ts \<and> a < tk_column (ts ! n'))"
proof (induction rest arbitrary: n heap)
  case Nil
  then show ?case by (auto simp: heap_tracks_def)
next
  case (Cons t us)
  from Cons.prems(1) have nt: "n < length ts" "t = ts ! n" "us = drop (n + 1) ts"
    by (metis drop_eq_Nil leI list.distinct(1))
      (metis Cons.prems(1) nth_via_drop, metis Cons.prems(1) Suc_eq_plus1 drop_Suc list.sel(3) tl_drop)
  show ?case
  proof (cases "tk_column t \<le> a")
    case False
    then have "n' = n" "rest' = t # us" "heap' = heap" "a < tk_column (ts ! n)"
      using Cons.prems(3) nt(2) by auto
    then show ?thesis using Cons.prems(1,2) nt(1) by simp
  next
    case True
    let ?heap = "if is_emitted (tk_kind t) then entry ts n # heap else heap"
    have "heap_tracks ts a (n + 1) ?heap"
      using Cons.prems(2) nt True by (auto simp: heap_tracks_def less_Suc_eq)
    moreover have "push_starting us a (n + 1) ?heap = (n', rest', heap')"
      using Cons.prems(3) True nt(2) by (simp add: entry_def split: if_splits)
    ultimately show ?thesis
      using Cons.IH [OF nt(3)] by blast
  qed
qed

lemma drop_expired_tracks:
  "heap_tracks ts a n heap \<Longrightarrow> heap_tracks ts a n (drop_expired a heap) \<and>
    (\<forall>m. heap_peek (drop_expired a heap) = Some m \<longrightarrow> a < he_end m)"
proof (induction a heap rule: drop_expired.induct)
  case (1 a heap)
  show ?case
  proof (cases "heap_peek heap")
    case None
    then show ?thesis using 1(2) by (simp add: drop_expired.simps [of a "[]"])
  next
    case (Some m)
    show ?thesis
    proof (cases "he_end m \<le> a")
      case False
      then show ?thesis using 1 Some by (simp add: drop_expired.simps [of a heap])
    next
      case True
      have "set (heap_pop heap) \<subseteq> set heap"
        by (simp add: heap_pop_def Some set_remove1_subset)
      moreover have "e \<in> set (heap_pop heap)" if "e \<in> set heap" "a < he_end e" for e
      proof -
        have "e \<noteq> m" using that(2) True by auto
        then show ?thesis using that(1) by (simp add: heap_pop_def Some)
      qed
      ultimately have "heap_tracks ts a n (heap_pop heap)"
        using 1(2) unfolding heap_tracks_def by (auto simp: subset_iff)
      then show ?thesis using 1(1) [OF Some True] Some True
        by (simp add: drop_expired.simps [of a heap])
    qed
  qed
qed

lemma peek_is_winner:
  assumes tracks: "heap_tracks ts a n heap" and cols: "sorted (map tk_column ts)"
    and unread: "n = length ts \<or> n < length ts \<and> a < tk_column (ts ! n)"
    and live: "\<And>m. heap_peek heap = Some m \<Longrightarrow> a < he_end m"
  shows "map_option (\<lambda>m. ts ! he_index m) (heap_peek heap) = winner ts a"
proof -
  have act: "i < n \<and> entry ts i \<in> set heap" if "i < length ts" "active a (ts ! i)" for i
  proof -
    have "i < n"
    proof (rule ccontr)
      assume "\<not> i < n"
      then have "n < length ts" "tk_column (ts ! n) \<le> tk_column (ts ! i)"
        using that(1) cols by (auto simp: sorted_iff_nth_mono)
      then show False using unread that(2) by (auto simp: active_def)
    qed
    then show ?thesis using tracks that by (auto simp: heap_tracks_def active_def)
  qed
  show ?thesis
  proof (cases "heap_peek heap")
    case None
    then have "filter (active a) ts = []"
      using act by (auto simp: filter_empty_conv in_set_conv_nth)
    then show ?thesis by (simp add: None winner_def)
  next
    case (Some m)
    have m: "m \<in> set heap" "\<forall>e\<in>set heap. he_key e \<le> he_key m"
      using heap_peek_Some [OF Some] by auto
    then obtain i where i: "m = entry ts i" "i < n" "is_emitted (tk_kind (ts ! i))"
      using tracks by (auto simp: heap_tracks_def)
    then have "i < length ts" "active a (ts ! i)"
      using tracks live [OF Some] by (auto simp: heap_tracks_def active_def)
    moreover have "(token_priority (ts ! j), j) \<le> (token_priority (ts ! i), i)"
      if "j < length ts" "active a (ts ! j)" for j
      using m(2) act [OF that] i(1) by (force simp: he_key_def)
    ultimately have "winner ts a = Some (ts ! i)"
      unfolding winner_def by (rule last_max_by_filter_nth)
    then show ?thesis by (simp add: Some i(1))
  qed
qed

section \<open>The sweep paints every column with its winner\<close>

text \<open>Every end point of a token right of \<open>a\<close> is still to come as a breakpoint.\<close>

definition breaks_after :: "raw_token list \<Rightarrow> nat \<Rightarrow> nat list \<Rightarrow> bool" where
  "breaks_after ts a bps \<longleftrightarrow> (\<forall>t\<in>set ts. \<forall>x\<in>{tk_column t, tk_end t}. a < x \<longrightarrow> x \<in> set bps)"

lemma winner_between_breaks:
  assumes "breaks_after ts a (b # bps)" "sorted (b # bps)" "a \<le> c" "c < b"
  shows "winner ts c = winner ts a"
proof -
  have "active c t = active a t" if "t \<in> set ts" for t
  proof -
    have "x \<le> a \<or> b \<le> x" if "x \<in> {tk_column t, tk_end t}" for x
      using assms(1,2) \<open>t \<in> set ts\<close> that by (fastforce simp: breaks_after_def)
    from this [of "tk_column t"] this [of "tk_end t"] show ?thesis
      using assms(3,4) by (auto simp: active_def)
  qed
  then have "filter (active c) ts = filter (active a) ts"
    by (simp cong: filter_cong)
  then show ?thesis by (simp add: winner_def)
qed

lemma winner_after_breaks: "breaks_after ts a [] \<Longrightarrow> a \<le> c \<Longrightarrow> winner ts c = None"
  by (force simp: winner_def breaks_after_def active_def filter_empty_conv)

lemma sweep_step:
  fixes a b :: nat
  assumes "a < b" "heap_tracks ts a n heap" "sorted (map tk_column ts)"
  obtains n' heap' where
    "heap_tracks ts b n' heap'"
    "sweep ts ln (a # b # bps) n (drop n ts) heap =
       (case winner ts a of None \<Rightarrow> [] | Some t \<Rightarrow> [with_span t ln a (b - a)]) @
       sweep ts ln (b # bps) n' (drop n' ts) heap'"
proof -
  obtain n' rest' heap' where push: "push_starting (drop n ts) a n heap = (n', rest', heap')"
    using prod_cases3 by blast
  note pushed = push_starting_tracks [OF refl assms(2) push]
  then have dropped: "heap_tracks ts a n' (drop_expired a heap')"
    "\<And>m. heap_peek (drop_expired a heap') = Some m \<Longrightarrow> a < he_end m"
    using drop_expired_tracks [of ts a n' heap'] by auto
  have win: "winner ts a = map_option (\<lambda>m. ts ! he_index m) (heap_peek (drop_expired a heap'))"
    using peek_is_winner [OF dropped(1) assms(3) _ dropped(2)] pushed by simp
  show ?thesis
  proof (rule that)
    show "heap_tracks ts b n' (drop_expired a heap')"
      using heap_tracks_mono [OF dropped(1)] assms(1) by simp
    show "sweep ts ln (a # b # bps) n (drop n ts) heap =
       (case winner ts a of None \<Rightarrow> [] | Some t \<Rightarrow> [with_span t ln a (b - a)]) @
       sweep ts ln (b # bps) n' (drop n' ts) (drop_expired a heap')"
      using assms(1) pushed
      by (simp add: push Let_def win split: option.split)
  qed
qed

definition line_fragments :: "nat \<Rightarrow> nat \<Rightarrow> raw_token list \<Rightarrow> bool" where
  "line_fragments ln a out \<longleftrightarrow> laid_out out \<and> (\<forall>t\<in>set out. tk_line t = ln \<and> a \<le> tk_column t)"

lemma sweep_correct:
  assumes "sorted_wrt (<) (a # bps)" "breaks_after ts a bps" "heap_tracks ts a n heap"
    "sorted (map tk_column ts)" "out = sweep ts ln (a # bps) n (drop n ts) heap"
  shows "line_fragments ln a out \<and> (\<forall>c\<ge>a. painted out ln c = map_option ident (winner ts c))"
  using assms
proof (induction bps arbitrary: a n heap out)
  case Nil
  then show ?case by (simp add: line_fragments_def winner_after_breaks)
next
  case (Cons b bps)
  then have ab: "a < b" by simp
  obtain n' heap' where step: "heap_tracks ts b n' heap'"
    "out = (case winner ts a of None \<Rightarrow> [] | Some t \<Rightarrow> [with_span t ln a (b - a)]) @
       sweep ts ln (b # bps) n' (drop n' ts) heap'"
    using sweep_step [OF ab Cons.prems(3,4), of ln bps] Cons.prems(5) by metis
  let ?out = "sweep ts ln (b # bps) n' (drop n' ts) heap'"
  have "breaks_after ts b bps" using Cons.prems(2) ab by (force simp: breaks_after_def)
  then have IH: "line_fragments ln b ?out"
      "\<And>c. b \<le> c \<Longrightarrow> painted ?out ln c = map_option ident (winner ts c)"
    using Cons.IH [OF _ _ step(1) Cons.prems(4) refl] Cons.prems(1) by auto
  have "line_fragments ln a out"
    using IH(1) ab step(2)
    by (auto simp: line_fragments_def laid_out_Cons before_token_def split: option.splits)
  moreover have "painted out ln c = map_option ident (winner ts c)" if "a \<le> c" for c
  proof (cases "c < b")
    case True
    have "winner ts c = winner ts a"
      using winner_between_breaks [OF Cons.prems(2) _ that True] Cons.prems(1)
      by (simp add: strict_sorted_imp_sorted order.strict_implies_order)
    moreover have "painted ?out ln c = None"
      using IH(1) True by (auto simp: painted_None line_fragments_def covers_def)
    ultimately show ?thesis
      using step(2) ab that True by (auto simp: painted_Cons covers_def split: option.split)
  next
    case False
    then show ?thesis
      using step(2) IH(2) [of c] by (auto simp: painted_Cons covers_def split: option.split)
  qed
  ultimately show ?case by blast
qed

lemma breakpoints_strict: "sorted_wrt (<) (breakpoints ts)"
  by (simp add: breakpoints_def sorted_remdups_adj_strict)

lemma set_breakpoints: "set (breakpoints ts) = tk_column ` set ts \<union> tk_end ` set ts"
  by (auto simp: breakpoints_def)

lemma winner_outside: "\<forall>t\<in>set ts. c < tk_column t \<Longrightarrow> winner ts c = None"
  by (force simp: winner_def active_def filter_empty_conv)

lemma sweep_line_correct:
  assumes "sorted (map tk_column ts)"
  shows "laid_out (sweep_line ts ln) \<and> (\<forall>t\<in>set (sweep_line ts ln). tk_line t = ln) \<and>
    painted (sweep_line ts ln) ln c = map_option ident (winner ts c)"
proof (cases "breakpoints ts")
  case Nil
  then have "ts = []" using set_breakpoints [of ts] by auto
  then show ?thesis by (simp add: sweep_line_def breakpoints_def winner_def)
next
  case (Cons a bps)
  have lo: "a \<le> tk_column t" if "t \<in> set ts" for t
  proof -
    have "tk_column t \<in> set (breakpoints ts)" using that by (simp add: set_breakpoints)
    then show ?thesis using breakpoints_strict [of ts] by (auto simp: Cons)
  qed
  have after: "breaks_after ts a bps"
    unfolding breaks_after_def
  proof (intro ballI impI)
    fix t x assume "t \<in> set ts" "x \<in> {tk_column t, tk_end t}" "a < x"
    then have "x \<in> set (breakpoints ts)" by (auto simp: set_breakpoints)
    then show "x \<in> set bps" using \<open>a < x\<close> by (simp add: Cons)
  qed
  have tracks: "heap_tracks ts a 0 []" by (simp add: heap_tracks_def)
  have sweep: "sweep_line ts ln = sweep ts ln (a # bps) 0 (drop 0 ts) []"
    by (simp add: sweep_line_def Cons)
  have swept: "line_fragments ln a (sweep_line ts ln)"
    "\<And>c. a \<le> c \<Longrightarrow> painted (sweep_line ts ln) ln c = map_option ident (winner ts c)"
    using sweep_correct [OF breakpoints_strict [of ts, unfolded Cons] after tracks assms sweep] by auto
  show ?thesis
  proof (cases "a \<le> c")
    case True
    then show ?thesis using swept by (simp add: line_fragments_def)
  next
    case False
    then have "painted (sweep_line ts ln) ln c = None"
      using swept(1) by (auto simp: painted_None line_fragments_def covers_def)
    moreover have "winner ts c = None"
      using lo False by (intro winner_outside) force
    ultimately show ?thesis using swept(1) by (simp add: line_fragments_def)
  qed
qed

section \<open>Every line of the document\<close>

abbreviation token_pos :: "raw_token \<Rightarrow> nat \<times> nat" where
  "token_pos t \<equiv> (tk_line t, tk_column t)"

lemma line_run:
  assumes "sorted (map token_pos (t # ts))"
  shows "line_of (tk_line t) (t # ts) = t # takeWhile (\<lambda>u. tk_line u = tk_line t) ts"
    and "\<And>ln. ln \<noteq> tk_line t \<Longrightarrow>
      line_of ln (t # ts) = line_of ln (dropWhile (\<lambda>u. tk_line u = tk_line t) ts)"
    and "\<forall>u\<in>set (dropWhile (\<lambda>u. tk_line u = tk_line t) ts). tk_line t < tk_line u"
    and "sorted (map tk_column (t # takeWhile (\<lambda>u. tk_line u = tk_line t) ts))"
    and "sorted (map token_pos (dropWhile (\<lambda>u. tk_line u = tk_line t) ts))"
proof -
  define run where "run = takeWhile (\<lambda>u. tk_line u = tk_line t) ts"
  define others where "others = dropWhile (\<lambda>u. tk_line u = tk_line t) ts"
  have ts: "ts = run @ others" by (simp add: run_def others_def)
  have run: "\<forall>u\<in>set run. tk_line u = tk_line t"
    by (auto simp: run_def dest: set_takeWhileD)
  have srt: "sorted (map token_pos others)"
    using assms by (simp add: ts sorted_append)
  have pos: "token_pos t \<le> token_pos u" if "u \<in> set others" for u
    using assms that by (simp add: ts del: less_eq_prod_simp)
  have srt2: "\<forall>u\<in>set others. tk_line t \<le> tk_line u"
    by (auto dest!: pos)
  have "\<forall>u\<in>set others. tk_line t < tk_line u"
  proof (cases others)
    case (Cons o1 os)
    have "tk_line o1 \<noteq> tk_line t"
      using Cons unfolding others_def dropWhile_eq_Cons_conv by blast
    then have "tk_line t < tk_line o1" using srt2 by (simp add: Cons)
    then show ?thesis using srt by (auto simp: Cons less_eq_prod_def)
  qed simp
  then show others: "\<forall>u\<in>set (dropWhile (\<lambda>u. tk_line u = tk_line t) ts). tk_line t < tk_line u"
    by (simp add: others_def)
  then have "filter (\<lambda>u. tk_line u = tk_line t) others = []"
    by (auto simp: others_def filter_empty_conv)
  then have "line_of (tk_line t) (t # ts) = t # run"
    using run by (simp add: line_of_def ts)
  then show "line_of (tk_line t) (t # ts) = t # takeWhile (\<lambda>u. tk_line u = tk_line t) ts"
    by (simp only: run_def)
  have "line_of ln (t # ts) = line_of ln others" if "ln \<noteq> tk_line t" for ln
    using run that by (auto simp: line_of_def ts filter_empty_conv)
  then show "line_of ln (t # ts) = line_of ln (dropWhile (\<lambda>u. tk_line u = tk_line t) ts)"
    if "ln \<noteq> tk_line t" for ln
    using that by (simp only: others_def)
  have "sorted (map tk_column (t # run))"
  proof -
    have "sorted (map token_pos (t # run))" using assms by (simp add: ts sorted_append)
    then show ?thesis unfolding sorted_wrt_map
      by (rule sorted_wrt_mono_rel [rotated]) (use run in auto)
  qed
  then show "sorted (map tk_column (t # takeWhile (\<lambda>u. tk_line u = tk_line t) ts))"
    by (simp only: run_def)
  show "sorted (map token_pos (dropWhile (\<lambda>u. tk_line u = tk_line t) ts))"
    using srt by (simp add: others_def)
qed

lemma sweep_lines_correct:
  "sorted (map token_pos ts) \<Longrightarrow>
    laid_out (sweep_lines ts) \<and> tk_line ` set (sweep_lines ts) \<subseteq> tk_line ` set ts \<and>
    painted (sweep_lines ts) ln c = map_option ident (winner (line_of ln ts) c)"
proof (induction ts rule: sweep_lines.induct)
  case 1
  then show ?case by (simp add: line_of_def winner_def)
next
  case (2 t ts)
  define run where "run = t # takeWhile (\<lambda>u. tk_line u = tk_line t) ts"
  define others where "others = dropWhile (\<lambda>u. tk_line u = tk_line t) ts"
  note parts = line_run [OF 2(2), folded run_def others_def]
  have IH: "laid_out (sweep_lines others)" "tk_line ` set (sweep_lines others) \<subseteq> tk_line ` set others"
      "painted (sweep_lines others) ln c = map_option ident (winner (line_of ln others) c)"
    using 2(1) [OF refl run_def others_def parts(5)] by auto
  note line = sweep_line_correct [OF parts(4)]
  have eq: "sweep_lines (t # ts) = sweep_line run (tk_line t) @ sweep_lines others"
    by (simp add: run_def others_def Let_def)
  note sweep_lines.simps [simp del]
  have below: "tk_line t < tk_line u" if "u \<in> set (sweep_lines others)" for u
    using IH(2) parts(3) that by force
  have sub: "tk_line ` set others \<subseteq> tk_line ` set (t # ts)"
    by (auto simp: others_def dest: set_dropWhileD)
  have "painted (sweep_lines (t # ts)) ln c = map_option ident (winner (line_of ln (t # ts)) c)"
  proof (cases "ln = tk_line t")
    case True
    have "painted (sweep_lines others) ln c = None"
      using below True by (force simp: painted_None covers_def)
    then show ?thesis
      using line [of "tk_line t" c] True parts(1) by (simp add: eq painted_append split: option.split)
  next
    case False
    have "painted (sweep_line run (tk_line t)) ln c = None"
      using line [of "tk_line t" c] False by (force simp: painted_None covers_def)
    then show ?thesis using IH(3) parts(2) [OF False] by (simp add: eq painted_append)
  qed
  moreover have "laid_out (sweep_lines (t # ts))"
    using line [of "tk_line t" c] IH(1) below by (auto simp: eq laid_out_append before_token_def)
  moreover have "tk_line ` set (sweep_lines (t # ts)) \<subseteq> tk_line ` set (t # ts)"
    using line [of "tk_line t" c] IH(2) sub unfolding eq by auto
  ultimately show ?case by blast
qed

section \<open>Merging\<close>

lemma can_merge_ident:
  "can_merge w r \<longleftrightarrow> tk_line w = tk_line r \<and> tk_end w = tk_column r \<and> ident w = ident r"
  by (auto simp: can_merge_def ident_def)

lemma ident_update [simp]: "ident (t\<lparr>tk_length := n\<rparr>) = ident t"
  by (simp add: ident_def)

lemma covers_merged:
  "can_merge w r \<Longrightarrow>
    covers (w\<lparr>tk_length := tk_length w + tk_length r\<rparr>) ln c \<longleftrightarrow> covers w ln c \<or> covers r ln c"
  by (auto simp: covers_def can_merge_def)

lemma painted_merge [simp]: "painted (merge_adjacent_fragments ts) ln c = painted ts ln c"
proof (induction ts rule: merge_adjacent_fragments.induct)
  case (1 w r ts)
  then show ?case
    by (cases "can_merge w r") (auto simp: painted_Cons covers_merged can_merge_ident)
qed simp_all

lemma before_token_merge_all:
  "\<forall>t\<in>set ts. before_token u t \<Longrightarrow> \<forall>t\<in>set (merge_adjacent_fragments ts). before_token u t"
  by (induction ts rule: merge_adjacent_fragments.induct) (auto simp: before_token_def)

lemma laid_out_merge: "laid_out ts \<Longrightarrow> laid_out (merge_adjacent_fragments ts)"
proof (induction ts rule: merge_adjacent_fragments.induct)
  case (1 w r ts)
  show ?case
  proof (cases "can_merge w r")
    case True
    then have "laid_out (w\<lparr>tk_length := tk_length w + tk_length r\<rparr> # ts)"
      using 1(3) by (auto simp: laid_out_Cons before_token_def can_merge_def)
    then show ?thesis using 1(1) True by simp
  next
    case False
    have "\<forall>u\<in>set (merge_adjacent_fragments (r # ts)). before_token w u"
      using 1(3) by (intro before_token_merge_all) (simp add: laid_out_Cons)
    moreover have "laid_out (merge_adjacent_fragments (r # ts))" "0 < tk_length w"
      using 1(2) [OF False] 1(3) by (auto simp: laid_out_Cons)
    moreover have "merge_adjacent_fragments (w # r # ts) = w # merge_adjacent_fragments (r # ts)"
      using False by simp
    ultimately show ?thesis by (simp only: laid_out_Cons simp_thms)
  qed
qed auto

lemma merge_head:
  "\<exists>w' us. merge_adjacent_fragments (w # ts) = w' # us \<and> ident w' = ident w \<and>
    tk_line w' = tk_line w \<and> tk_column w' = tk_column w"
proof (induction ts arbitrary: w)
  case (Cons r ts)
  then show ?case using Cons [of "w\<lparr>tk_length := tk_length w + tk_length r\<rparr>"] by auto
qed simp

lemma merge_complete:
  "successively (\<lambda>w r. \<not> can_merge w r) (merge_adjacent_fragments ts)"
proof (induction ts rule: merge_adjacent_fragments.induct)
  case (1 w r ts)
  obtain r' us where m: "merge_adjacent_fragments (r # ts) = r' # us"
    "ident r' = ident r" "tk_line r' = tk_line r" "tk_column r' = tk_column r"
    using merge_head by blast
  then have "can_merge w r' \<longleftrightarrow> can_merge w r" by (simp add: can_merge_ident)
  then show ?case using 1 m(1) by simp
qed auto

section \<open>The whole pass\<close>

lemma split_overlapping_spec:
  "laid_out (split_overlapping_tokens ts) \<and>
   painted (split_overlapping_tokens ts) ln c =
     map_option ident (winner (line_of ln (sort_tokens ts)) c) \<and>
   successively (\<lambda>w r. \<not> can_merge w r) (split_overlapping_tokens ts)"
proof (cases "ts = []")
  case True
  then show ?thesis
    by (simp add: split_overlapping_tokens_def sort_tokens_def line_of_def winner_def)
next
  case False
  have "sorted (map token_pos (sort_tokens ts))" by (simp add: sort_tokens_def)
  from sweep_lines_correct [OF this, of ln c] False show ?thesis
    by (simp add: split_overlapping_tokens_def laid_out_merge merge_complete)
qed

text \<open>C4: splitting overlapping tokens by the heap sweep agrees with the rescan it replaced:
  the output's tokens are non-empty, ordered and disjoint, each column of each line carries the
  kind, depth, pattern and priority of the token of highest priority there (the later one in
  column order on a tie) and nothing where no emitted token is active, and no two neighbours
  could still be merged.\<close>

theorem split_overlapping_tokens_correct:
  "laid_out (split_overlapping_tokens ts) \<and>
   painted (split_overlapping_tokens ts) ln c =
     map_option ident (winner (line_of ln (sort_tokens ts)) c) \<and>
   successively (\<lambda>w r. \<not> can_merge w r) (split_overlapping_tokens ts)"
  by (rule split_overlapping_spec)

end
