(* ===== verification/Token_Regions.thy ===== *)
theory Token_Regions
  imports Tokens "HOL-Library.Monad_Syntax"
begin

text \<open>
  The filtering stages of \<open>src/src/analysis/semantic/finalize.rs\<close> that run before the
  sweep: multiline tokens are cut into one token per line, host tokens are kept, dropped
  or cut around active injection regions, and \<open>@none\<close> captures punch holes in the tokens
  of their ancestors. Per-line indexes (\<open>HashMap<usize, Vec<_>>\<close>) are maps from line
  numbers to lists.
\<close>

type_synonym source_lines = "rstr list"
type_synonym span_key = "nat \<times> nat \<times> nat"

definition slice_get :: "'a list \<Rightarrow> nat \<Rightarrow> 'a option" where
  "slice_get xs i = (if i < length xs then Some (xs ! i) else None)"

definition checked_add :: "nat \<Rightarrow> nat \<Rightarrow> nat option" where
  "checked_add a b = (if a + b \<le> usize_max then Some (a + b) else None)"

definition checked_sub :: "nat \<Rightarrow> nat \<Rightarrow> nat option" where
  "checked_sub a b = (if b \<le> a then Some (a - b) else None)"

definition or_empty :: "'a list option \<Rightarrow> 'a list" where
  "or_empty v = (case v of None \<Rightarrow> [] | Some xs \<Rightarrow> xs)"

text \<open>\<open>map.entry(k).or_default().push(v)\<close>\<close>

definition entry_push :: "'k \<Rightarrow> 'v \<Rightarrow> ('k \<rightharpoonup> 'v list) \<Rightarrow> ('k \<rightharpoonup> 'v list)" where
  "entry_push k v m = m(k \<mapsto> or_empty (m k) @ [v])"

section \<open>Keys of multiline regions\<close>

fun inner_length :: "source_lines \<Rightarrow> nat list \<Rightarrow> nat \<Rightarrow> nat option" where
  "inner_length lines [] len = Some len"
| "inner_length lines (i # idxs) len = do {
     text_line \<leftarrow> slice_get lines i;
     n \<leftarrow> checked_add len 1;
     next_length \<leftarrow> checked_add n (ulen text_line);
     inner_length lines idxs next_length
   }"

definition multiline_region_key :: "injection_bounds \<Rightarrow> source_lines \<Rightarrow> span_key option" where
  "multiline_region_key r lines =
     (if start_line r = end_line r then None
      else do {
        first \<leftarrow> slice_get lines (start_line r);
        end_width \<leftarrow> (case slice_get lines (end_line r) of
                       Some last_line \<Rightarrow> Some (ulen last_line)
                     | None \<Rightarrow> if end_line r = length lines \<and> end_col r = 0 then Some 0 else None);
        let start_width = ulen first;
        if start_col r > start_width \<or> end_col r > end_width then None
        else do {
          len \<leftarrow> checked_sub start_width (start_col r);
          first_inner_line \<leftarrow> checked_add (start_line r) 1;
          len \<leftarrow> inner_length lines [first_inner_line..<end_line r] len;
          n \<leftarrow> checked_add len 1;
          len \<leftarrow> checked_add n (end_col r);
          Some (start_line r, start_col r, len)
        }
      })"

record region_metadata =
  exact_match_keys :: "span_key set"
  keys_by_region :: "span_key option list"

definition multiline_region_metadata :: "injection_bounds list \<Rightarrow> source_lines \<Rightarrow> region_metadata" where
  "multiline_region_metadata regions lines =
     (let keys = map (\<lambda>r. multiline_region_key r lines) regions
      in \<lparr>exact_match_keys = {k. Some k \<in> set keys}, keys_by_region = keys\<rparr>)"

definition span_of :: "raw_token \<Rightarrow> span_key" where
  "span_of t = (tk_line t, tk_column t, tk_length t)"

definition partition_multiline_exact_matches ::
    "raw_token list \<Rightarrow> span_key set \<Rightarrow> raw_token list \<times> raw_token list" where
  "partition_multiline_exact_matches tokens keys =
     (let is_exact_match = (\<lambda>t. tk_depth t = 0 \<and> span_of t \<in> keys)
      in if \<not> list_ex is_exact_match tokens then ([], tokens) else partition is_exact_match tokens)"

section \<open>Multiline tokens\<close>

function split_lines :: "raw_token \<Rightarrow> source_lines \<Rightarrow> nat \<Rightarrow> nat \<Rightarrow> nat \<Rightarrow> raw_token list" where
  "split_lines t lines remaining current_line from_col =
     (if 0 < remaining \<and> current_line < length lines then
        let width = ulen (lines ! current_line);
            per_line_len = min remaining (width - from_col);
            fragment = (if 0 < per_line_len then [with_span t current_line from_col per_line_len] else [])
        in fragment @ split_lines t lines (remaining - (per_line_len + 1)) (current_line + 1) 0
      else [])"
  by pat_completeness auto
termination
  by (relation "measure (\<lambda>(_, lines, _, ln, _). length lines - ln)") auto

declare split_lines.simps [simp del]

definition split_multiline_token :: "source_lines \<Rightarrow> raw_token \<Rightarrow> raw_token list" where
  "split_multiline_token lines t =
     (case slice_get lines (tk_line t) of
        None \<Rightarrow> [t]
      | Some text_line \<Rightarrow>
          if tk_end t \<le> ulen text_line then [t]
          else split_lines t lines (tk_length t) (tk_line t) (tk_column t))"

definition split_multiline_tokens :: "raw_token list \<Rightarrow> source_lines \<Rightarrow> raw_token list" where
  "split_multiline_tokens tokens lines = concat (map (split_multiline_token lines) tokens)"

section \<open>Regions on a line\<close>

definition token_fully_in_region :: "raw_token \<Rightarrow> injection_bounds \<Rightarrow> bool" where
  "token_fully_in_region t r \<longleftrightarrow>
     (start_line r, start_col r) \<le> (tk_line t, tk_column t) \<and> (tk_line t, tk_end t) \<le> (end_line r, end_col r)"

definition token_exact_matches_region :: "raw_token \<Rightarrow> injection_bounds \<Rightarrow> bool" where
  "token_exact_matches_region t r \<longleftrightarrow>
     tk_line t = start_line r \<and> tk_line t = end_line r \<and> tk_column t = start_col r \<and> tk_end t = end_col r"

definition interval_on_line :: "injection_bounds \<Rightarrow> nat \<Rightarrow> nat \<Rightarrow> nat \<times> nat" where
  "interval_on_line r ln width =
     (if ln = start_line r then start_col r else 0, if ln = end_line r then end_col r else width)"

fun push_region_lines ::
    "injection_bounds \<Rightarrow> source_lines \<Rightarrow> nat list \<Rightarrow> (nat \<rightharpoonup> (nat \<times> nat) list) \<Rightarrow> (nat \<rightharpoonup> (nat \<times> nat) list)" where
  "push_region_lines r lines [] m = m"
| "push_region_lines r lines (ln # lns) m =
     (if length lines \<le> ln then m
      else
        let iv = interval_on_line r ln (ulen (lines ! ln))
        in push_region_lines r lines lns (if fst iv < snd iv then entry_push ln iv m else m))"

definition build_region_intervals_map ::
    "injection_bounds list \<Rightarrow> source_lines \<Rightarrow> (nat \<rightharpoonup> (nat \<times> nat) list)" where
  "build_region_intervals_map regions lines =
     (let m = fold (\<lambda>r. push_region_lines r lines [start_line r..<Suc (end_line r)]) regions Map.empty
      in (\<lambda>ln. map_option sort (m ln)))"

definition build_regions_by_line :: "injection_bounds list \<Rightarrow> (nat \<rightharpoonup> nat list)" where
  "build_regions_by_line regions =
     fold (\<lambda>(i, r). fold (\<lambda>ln. entry_push ln i) [start_line r..<Suc (end_line r)])
       (enumerate 0 regions) Map.empty"

record region_index =
  regions_by_line :: "nat \<rightharpoonup> nat list"
  region_intervals :: "nat \<rightharpoonup> (nat \<times> nat) list"
  multiline_keys :: "span_key option list"

definition build_injection_region_index ::
    "injection_bounds list \<Rightarrow> source_lines \<Rightarrow> span_key option list \<Rightarrow> region_index" where
  "build_injection_region_index regions lines keys =
     \<lparr>regions_by_line = build_regions_by_line regions,
      region_intervals = build_region_intervals_map regions lines,
      multiline_keys = keys\<rparr>"

section \<open>Cutting a token around intervals\<close>

fun cut_fragments :: "raw_token \<Rightarrow> (nat \<times> nat) list \<Rightarrow> nat \<Rightarrow> raw_token list" where
  "cut_fragments t [] cursor =
     (if cursor < tk_end t then [with_span t (tk_line t) cursor (tk_end t - cursor)] else [])"
| "cut_fragments t ((region_start, region_end) # ivs) cursor =
     (if tk_end t \<le> cursor then []
      else
        (let frag_end = min region_start (tk_end t)
         in if cursor < region_start \<and> cursor < frag_end
            then [with_span t (tk_line t) cursor (frag_end - cursor)] else []) @
        cut_fragments t ivs (max region_end cursor))"

definition split_host_token_around_regions :: "raw_token \<Rightarrow> (nat \<times> nat) list \<Rightarrow> raw_token list" where
  "split_host_token_around_regions t ivs = (if ivs = [] then [t] else cut_fragments t ivs (tk_column t))"

section \<open>Host tokens against regions\<close>

definition is_exempt :: "region_index \<Rightarrow> span_key option \<Rightarrow> nat \<Rightarrow> bool" where
  "is_exempt ix exempt i =
     (case exempt of
        None \<Rightarrow> False
      | Some key \<Rightarrow> (case slice_get (multiline_keys ix) i of None \<Rightarrow> False | Some k \<Rightarrow> k = Some key))"

definition overlaps_single_line_region :: "raw_token \<Rightarrow> injection_bounds \<Rightarrow> bool" where
  "overlaps_single_line_region t r \<longleftrightarrow>
     start_line r = end_line r \<and> start_line r = tk_line t \<and>
     start_col r < tk_end t \<and> end_col r > tk_column t"

definition unexempted_intervals ::
    "injection_bounds list \<Rightarrow> source_lines \<Rightarrow> region_index \<Rightarrow> span_key option \<Rightarrow> nat list \<Rightarrow> raw_token
      \<Rightarrow> (nat \<times> nat) list" where
  "unexempted_intervals regions lines ix exempt line_regions t =
     (case slice_get lines (tk_line t) of
        None \<Rightarrow> []
      | Some text_line \<Rightarrow>
          sort (filter (\<lambda>iv. fst iv < snd iv)
            (map (\<lambda>i. interval_on_line (regions ! i) (tk_line t) (ulen text_line))
              (filter (\<lambda>i. \<not> is_exempt ix exempt i) line_regions))))"

definition filter_token ::
    "injection_bounds list \<Rightarrow> source_lines \<Rightarrow> region_index \<Rightarrow> span_key option \<Rightarrow> raw_token \<Rightarrow> raw_token list" where
  "filter_token regions lines ix exempt t =
     (if 0 < tk_depth t then [t]
      else
        let line_regions = or_empty (regions_by_line ix (tk_line t));
            hit = (\<lambda>P. list_ex (\<lambda>i. \<not> is_exempt ix exempt i \<and> P t (regions ! i)) line_regions)
        in if hit token_exact_matches_region then [t]
           else if hit token_fully_in_region then []
           else if hit overlaps_single_line_region then [t]
           else split_host_token_around_regions t
                  (case exempt of
                     Some key \<Rightarrow> unexempted_intervals regions lines ix exempt line_regions t
                   | None \<Rightarrow> or_empty (region_intervals ix (tk_line t))))"

definition filter_by_injection_regions_indexed ::
    "raw_token list \<Rightarrow> injection_bounds list \<Rightarrow> source_lines \<Rightarrow> region_index \<Rightarrow> span_key option
      \<Rightarrow> raw_token list" where
  "filter_by_injection_regions_indexed tokens regions lines ix exempt =
     concat (map (filter_token regions lines ix exempt) tokens)"

definition filter_multiline_exact_match_tokens ::
    "raw_token list \<Rightarrow> injection_bounds list \<Rightarrow> source_lines \<Rightarrow> region_index \<Rightarrow> raw_token list" where
  "filter_multiline_exact_match_tokens tokens regions lines ix =
     concat (map (\<lambda>t. filter_by_injection_regions_indexed (split_multiline_tokens [t] lines)
                        regions lines ix (Some (span_of t))) tokens)"

section \<open>\<open>@none\<close> captures\<close>

definition none_intervals :: "raw_token list \<Rightarrow> (nat \<rightharpoonup> (nat \<times> nat \<times> nat) list)" where
  "none_intervals none_tokens =
     (let m = fold (\<lambda>t. entry_push (tk_line t) (tk_column t, tk_end t, tk_node_byte_len t)) none_tokens Map.empty
      in (\<lambda>ln. map_option sort (m ln)))"

definition dominated :: "(nat \<times> nat \<times> nat) list \<Rightarrow> raw_token \<Rightarrow> (nat \<times> nat) list" where
  "dominated line_intervals t =
     map (\<lambda>(s, e, _). (s, e))
       (filter (\<lambda>(s, e, none_len). none_len < tk_node_byte_len t \<and> tk_column t \<le> s \<and> e \<le> tk_end t)
         line_intervals)"

definition apply_none_token :: "(nat \<rightharpoonup> (nat \<times> nat \<times> nat) list) \<Rightarrow> raw_token \<Rightarrow> raw_token list" where
  "apply_none_token ivs t =
     (case ivs (tk_line t) of
        None \<Rightarrow> [t]
      | Some line_intervals \<Rightarrow>
          let dom = dominated line_intervals t
          in if dom \<noteq> [] then split_host_token_around_regions t dom else [t])"

definition apply_none_preprocessing :: "raw_token list \<Rightarrow> raw_token list" where
  "apply_none_preprocessing all_tokens =
     (let (none_tokens, tokens) = partition (\<lambda>t. tk_kind t = NoneCapture) all_tokens
      in if none_tokens = [] then tokens
         else concat (map (apply_none_token (none_intervals none_tokens)) tokens))"

section \<open>Cutting: what the fragments cover\<close>

definition covered :: "raw_token list \<Rightarrow> nat \<Rightarrow> nat \<Rightarrow> bool" where
  "covered ts ln c \<longleftrightarrow> (\<exists>t\<in>set ts. covers t ln c)"

definition in_some :: "(nat \<times> nat) list \<Rightarrow> nat \<Rightarrow> bool" where
  "in_some ivs c \<longleftrightarrow> (\<exists>(s, e)\<in>set ivs. s \<le> c \<and> c < e)"

text \<open>The fragments of a token: same token, other places.\<close>

definition fragments_of :: "raw_token \<Rightarrow> raw_token list \<Rightarrow> bool" where
  "fragments_of t fs \<longleftrightarrow> (\<forall>f\<in>set fs. with_span t (tk_line f) (tk_column f) (tk_length f) = f)"

lemma covered_simps [simp]:
  "\<not> covered [] ln c"
  "covered (t # ts) ln c \<longleftrightarrow> covers t ln c \<or> covered ts ln c"
  "covered (ts @ us) ln c \<longleftrightarrow> covered ts ln c \<or> covered us ln c"
  by (auto simp: covered_def)

lemma in_some_simps [simp]:
  "\<not> in_some [] c" "in_some ((s, e) # ivs) c \<longleftrightarrow> s \<le> c \<and> c < e \<or> in_some ivs c"
  by (auto simp: in_some_def)

lemma with_span_self [simp]: "with_span t (tk_line t) (tk_column t) (tk_length t) = t"
  by (simp add: with_span_def)

lemma with_span_with_span [simp]:
  "with_span (with_span t ln cl len) ln' cl' len' = with_span t ln' cl' len'"
  by (simp add: with_span_def)

lemma fragments_of_simps [simp]:
  "fragments_of t []" "fragments_of t [t]"
  "fragments_of t (f # fs) \<longleftrightarrow> with_span t (tk_line f) (tk_column f) (tk_length f) = f \<and> fragments_of t fs"
  "fragments_of t (fs @ gs) \<longleftrightarrow> fragments_of t fs \<and> fragments_of t gs"
  by (auto simp: fragments_of_def)

lemma in_some_before: "sorted (map fst ((s, e) # ivs)) \<Longrightarrow> c < s \<Longrightarrow> \<not> in_some ((s, e) # ivs) c"
  by (auto simp: in_some_def)

lemma cut_fragments_covered:
  "sorted (map fst ivs) \<Longrightarrow>
    covered (cut_fragments t ivs cursor) ln c \<longleftrightarrow>
      ln = tk_line t \<and> cursor \<le> c \<and> c < tk_end t \<and> \<not> in_some ivs c"
proof (induction ivs arbitrary: cursor)
  case Nil
  then show ?case by (auto simp: covers_def)
next
  case (Cons iv ivs)
  obtain s e where iv: "iv = (s, e)" by (cases iv)
  have before: "c < s \<Longrightarrow> \<not> in_some ivs c"
    using in_some_before [of s e ivs c] Cons.prems by (simp add: iv)
  have IH: "covered (cut_fragments t ivs (max e cursor)) ln c \<longleftrightarrow>
      ln = tk_line t \<and> max e cursor \<le> c \<and> c < tk_end t \<and> \<not> in_some ivs c"
    using Cons by simp
  show ?case
  proof (cases "tk_end t \<le> cursor")
    case False
    have eq: "covered (cut_fragments t (iv # ivs) cursor) ln c \<longleftrightarrow>
        ln = tk_line t \<and> cursor < s \<and> cursor \<le> c \<and> c < min s (tk_end t) \<or>
        covered (cut_fragments t ivs (max e cursor)) ln c"
      using False by (auto simp: iv covers_def Let_def)
    show ?thesis using before False unfolding eq unfolding IH unfolding iv in_some_simps by auto
  qed (simp add: iv)
qed

lemma cut_fragments_of: "fragments_of t (cut_fragments t ivs cursor)"
  by (induction ivs arbitrary: cursor) (auto simp: Let_def)

lemma sorted_fst: "sorted ivs \<Longrightarrow> sorted (map fst (ivs :: (nat \<times> nat) list))"
  by (induction ivs) (auto simp: less_eq_prod_def)

text \<open>A token cut around intervals covers its own columns outside all of them.\<close>

lemma split_host_covered:
  assumes "sorted (map fst ivs)"
  shows "(\<forall>ln c. covered (split_host_token_around_regions t ivs) ln c \<longleftrightarrow>
      covers t ln c \<and> \<not> in_some ivs c) \<and>
    fragments_of t (split_host_token_around_regions t ivs)"
  using cut_fragments_covered [OF assms]
  by (auto simp: split_host_token_around_regions_def covers_def cut_fragments_of)

section \<open>The indexes\<close>

lemma or_empty_push [map_simps]:
  "or_empty (entry_push k v m k') = or_empty (m k') @ (if k = k' then [v] else [])"
  by (simp add: entry_push_def or_empty_def)

lemma or_empty_map_sort: "or_empty (map_option sort v) = sort (or_empty v)"
  by (cases v) (simp_all add: or_empty_def)

lemma set_push_lines:
  "set (or_empty (fold (\<lambda>ln. entry_push ln i) lns m k)) =
     set (or_empty (m k)) \<union> (if k \<in> set lns then {i} else {})"
  by (induction lns arbitrary: m) (auto simp: map_simps)

lemma set_regions_by_line_aux:
  "set (or_empty (fold (\<lambda>(i, r). fold (\<lambda>ln. entry_push ln i) [start_line r..<Suc (end_line r)]) irs m k)) =
     set (or_empty (m k)) \<union> {i. \<exists>r. (i, r) \<in> set irs \<and> start_line r \<le> k \<and> k \<le> end_line r}"
proof (induction irs arbitrary: m)
  case (Cons ir irs)
  obtain i r where "ir = (i, r)" by (cases ir)
  then show ?case using Cons by (auto simp: set_push_lines simp del: upt_Suc)
qed simp

lemma set_regions_by_line:
  "set (or_empty (build_regions_by_line regions ln)) =
     {i. i < length regions \<and> start_line (regions ! i) \<le> ln \<and> ln \<le> end_line (regions ! i)}"
  unfolding build_regions_by_line_def set_regions_by_line_aux
  by (auto simp: or_empty_def in_set_enumerate_eq)

definition region_spans :: "source_lines \<Rightarrow> nat \<Rightarrow> injection_bounds \<Rightarrow> bool" where
  "region_spans lines ln r \<longleftrightarrow> ln < length lines \<and> start_line r \<le> ln \<and> ln \<le> end_line r \<and>
     fst (interval_on_line r ln (ulen (lines ! ln))) < snd (interval_on_line r ln (ulen (lines ! ln)))"

lemma set_push_region_lines:
  "sorted lns \<Longrightarrow> set (or_empty (push_region_lines r lines lns m k)) =
     set (or_empty (m k)) \<union>
     (if k \<in> set lns \<and> k < length lines \<and>
         fst (interval_on_line r k (ulen (lines ! k))) < snd (interval_on_line r k (ulen (lines ! k)))
      then {interval_on_line r k (ulen (lines ! k))} else {})"
proof (induction lns arbitrary: m)
  case (Cons ln lns)
  then show ?case by (cases "length lines \<le> ln") (auto simp: map_simps Let_def)
qed simp

lemma set_intervals_aux:
  "set (or_empty (fold (\<lambda>r. push_region_lines r lines [start_line r..<Suc (end_line r)]) regions m k)) =
     set (or_empty (m k)) \<union>
     (\<lambda>r. interval_on_line r k (ulen (lines ! k))) ` {r \<in> set regions. region_spans lines k r}"
proof (induction regions arbitrary: m)
  case (Cons r regions)
  then show ?case
    by (auto simp: set_push_region_lines region_spans_def simp del: upt_Suc)
qed simp

lemma set_region_intervals:
  "set (or_empty (build_region_intervals_map regions lines ln)) =
     (\<lambda>r. interval_on_line r ln (ulen (lines ! ln))) ` {r \<in> set regions. region_spans lines ln r}"
  unfolding build_region_intervals_map_def Let_def or_empty_map_sort set_sort set_intervals_aux
  by (simp add: or_empty_def)

lemma sorted_region_intervals: "sorted (or_empty (build_region_intervals_map regions lines ln))"
  by (simp add: build_region_intervals_map_def Let_def or_empty_map_sort)

section \<open>Host tokens against regions, specified\<close>

definition considered :: "source_lines \<Rightarrow> span_key option \<Rightarrow> injection_bounds list \<Rightarrow> injection_bounds set" where
  "considered lines exempt regions =
     {r \<in> set regions. \<not> (exempt \<noteq> None \<and> multiline_region_key r lines = exempt)}"

text \<open>
  What is left of a host token at a column: everything when it sits exactly on a region,
  nothing when it is inside one, everything again when it only overlaps a region of its
  line, and otherwise the columns that no region spans.
\<close>

definition keeps_column ::
    "source_lines \<Rightarrow> injection_bounds set \<Rightarrow> raw_token \<Rightarrow> nat \<Rightarrow> bool" where
  "keeps_column lines R t c =
     (if 0 < tk_depth t \<or> (\<exists>r\<in>R. token_exact_matches_region t r) then True
      else if \<exists>r\<in>R. token_fully_in_region t r then False
      else if \<exists>r\<in>R. overlaps_single_line_region t r then True
      else \<not> (\<exists>r\<in>R. region_spans lines (tk_line t) r \<and>
             in_some [interval_on_line r (tk_line t) (ulen (lines ! tk_line t))] c))"

definition request_index :: "injection_bounds list \<Rightarrow> source_lines \<Rightarrow> region_index" where
  "request_index regions lines =
     build_injection_region_index regions lines (keys_by_region (multiline_region_metadata regions lines))"

lemma index_simps:
  "regions_by_line (request_index regions lines) = build_regions_by_line regions"
  "region_intervals (request_index regions lines) = build_region_intervals_map regions lines"
  "multiline_keys (request_index regions lines) = map (\<lambda>r. multiline_region_key r lines) regions"
  by (simp_all add: request_index_def build_injection_region_index_def multiline_region_metadata_def Let_def)

lemma exempt_iff:
  "i < length regions \<Longrightarrow> \<not> is_exempt (request_index regions lines) exempt i \<longleftrightarrow> regions ! i \<in> considered lines exempt regions"
  by (auto simp: is_exempt_def index_simps slice_get_def considered_def split: option.split)

lemma hit_iff:
  assumes "\<And>r. P t r \<Longrightarrow> start_line r \<le> tk_line t \<and> tk_line t \<le> end_line r"
  shows "list_ex (\<lambda>i. \<not> is_exempt (request_index regions lines) exempt i \<and> P t (regions ! i)) (or_empty (regions_by_line (request_index regions lines) (tk_line t)))
    \<longleftrightarrow> (\<exists>r\<in>considered lines exempt regions. P t r)" (is "?hit \<longleftrightarrow> ?spec")
proof
  assume ?hit
  then show ?spec by (auto simp: list_ex_iff index_simps(1) set_regions_by_line exempt_iff)
next
  assume ?spec
  then obtain r where r: "r \<in> considered lines exempt regions" "P t r" by blast
  then obtain i where "i < length regions" "r = regions ! i"
    by (auto simp: considered_def in_set_conv_nth)
  with r assms [of r] show ?hit
    by (auto simp: list_ex_iff index_simps(1) set_regions_by_line exempt_iff intro!: exI [of _ i])
qed

lemma filter_intervals:
  fixes regions lines t exempt
  defines "ivs \<equiv> (case exempt of
      Some key \<Rightarrow> unexempted_intervals regions lines (request_index regions lines) exempt (or_empty (regions_by_line (request_index regions lines) (tk_line t))) t
    | None \<Rightarrow> or_empty (region_intervals (request_index regions lines) (tk_line t)))"
  shows "sorted ivs"
    and "set ivs = (\<lambda>r. interval_on_line r (tk_line t) (ulen (lines ! tk_line t))) `
           {r \<in> considered lines exempt regions. region_spans lines (tk_line t) r}"
proof -
  show "sorted ivs"
    by (auto simp: ivs_def unexempted_intervals_def index_simps sorted_region_intervals split: option.split)
  show "set ivs = (\<lambda>r. interval_on_line r (tk_line t) (ulen (lines ! tk_line t))) `
           {r \<in> considered lines exempt regions. region_spans lines (tk_line t) r}"
  proof (cases exempt)
    case None
    then show ?thesis by (simp add: ivs_def index_simps set_region_intervals considered_def)
  next
    case (Some key)
    show ?thesis
    proof (cases "tk_line t < length lines")
      case False
      then show ?thesis
        by (simp add: ivs_def Some unexempted_intervals_def slice_get_def region_spans_def)
    next
      case True
      have "set ivs = (\<lambda>i. interval_on_line (regions ! i) (tk_line t) (ulen (lines ! tk_line t))) `
          {i. i < length regions \<and> regions ! i \<in> considered lines exempt regions \<and>
              region_spans lines (tk_line t) (regions ! i)}"
        using True exempt_iff
        by (auto simp: ivs_def Some unexempted_intervals_def slice_get_def index_simps
            set_regions_by_line region_spans_def)
      also have "\<dots> = (\<lambda>r. interval_on_line r (tk_line t) (ulen (lines ! tk_line t))) `
           {r \<in> considered lines exempt regions. region_spans lines (tk_line t) r}"
        by (auto simp: considered_def in_set_conv_nth image_iff) 
      finally show ?thesis .
    qed
  qed
qed

lemma filter_token_covered:
  "(\<forall>ln c. covered (filter_token regions lines (request_index regions lines) exempt t) ln c \<longleftrightarrow>
      covers t ln c \<and> keeps_column lines (considered lines exempt regions) t c) \<and>
   fragments_of t (filter_token regions lines (request_index regions lines) exempt t)"
proof -
  define R where "R = considered lines exempt regions"
  note hits = hit_iff [where regions = regions and lines = lines and exempt = exempt, folded R_def]
  have exact: "list_ex (\<lambda>i. \<not> is_exempt (request_index regions lines) exempt i \<and>
      token_exact_matches_region t (regions ! i)) (or_empty (regions_by_line (request_index regions lines) (tk_line t)))
    \<longleftrightarrow> (\<exists>r\<in>R. token_exact_matches_region t r)"
    by (rule hits) (simp add: token_exact_matches_region_def)
  have inside: "list_ex (\<lambda>i. \<not> is_exempt (request_index regions lines) exempt i \<and>
      token_fully_in_region t (regions ! i)) (or_empty (regions_by_line (request_index regions lines) (tk_line t)))
    \<longleftrightarrow> (\<exists>r\<in>R. token_fully_in_region t r)"
    by (rule hits) (auto simp: token_fully_in_region_def less_eq_prod_def)
  have overlap: "list_ex (\<lambda>i. \<not> is_exempt (request_index regions lines) exempt i \<and>
      overlaps_single_line_region t (regions ! i)) (or_empty (regions_by_line (request_index regions lines) (tk_line t)))
    \<longleftrightarrow> (\<exists>r\<in>R. overlaps_single_line_region t r)"
    by (rule hits) (simp add: overlaps_single_line_region_def)
  note ivs = filter_intervals [where regions = regions and lines = lines and exempt = exempt and t = t, folded R_def]
  note cut = split_host_covered [OF sorted_fst [OF ivs(1)], of t]
  show ?thesis
    unfolding filter_token_def Let_def exact inside overlap keeps_column_def R_def [symmetric]
    using cut ivs(2) by (auto simp: in_some_def)
qed

section \<open>Stages that replace each token by its fragments\<close>

text \<open>\<open>cut_to P t fs\<close>: the fragments \<open>fs\<close> of \<open>t\<close> cover its columns that satisfy \<open>P\<close>.\<close>

definition cut_to :: "(raw_token \<Rightarrow> nat \<Rightarrow> bool) \<Rightarrow> raw_token \<Rightarrow> raw_token list \<Rightarrow> bool" where
  "cut_to P t fs \<longleftrightarrow> fragments_of t fs \<and> (\<forall>ln c. covered fs ln c \<longleftrightarrow> covers t ln c \<and> P t c)"

definition cuts_all :: "(raw_token \<Rightarrow> nat \<Rightarrow> bool) \<Rightarrow> raw_token list \<Rightarrow> raw_token list \<Rightarrow> bool" where
  "cuts_all P ts out \<longleftrightarrow> (\<exists>fss. out = concat fss \<and> list_all2 (cut_to P) ts fss)"

lemma cuts_all_map: "(\<And>t. t \<in> set ts \<Longrightarrow> cut_to P t (f t)) \<Longrightarrow> cuts_all P ts (concat (map f ts))"
  unfolding cuts_all_def by (rule exI [of _ "map f ts"]) (auto simp: list_all2_conv_all_nth)

lemma cut_to_self: "(\<And>c. covers t (tk_line t) c \<Longrightarrow> P t c) \<Longrightarrow> cut_to P t [t]"
  by (auto simp: cut_to_def covers_def)

text \<open>filtering against the per-line indexes built for a request leaves of every token
  exactly the columns that the regions themselves allow: injected tokens untouched, a host
  token whole when it sits exactly on a region or fills the gaps of a region of its line,
  gone when a region contains it, and otherwise cut to its columns outside every region.\<close>

lemma filter_by_injection_regions_correct:
  "cuts_all (keeps_column lines (considered lines exempt regions)) ts
     (filter_by_injection_regions_indexed ts regions lines (request_index regions lines) exempt)"
  unfolding filter_by_injection_regions_indexed_def
  by (rule cuts_all_map) (simp add: cut_to_def filter_token_covered)

section \<open>\<open>@none\<close>, specified\<close>

definition punched :: "raw_token list \<Rightarrow> raw_token \<Rightarrow> nat \<Rightarrow> bool" where
  "punched ts t c \<longleftrightarrow>
     (\<exists>n\<in>set ts. tk_kind n = NoneCapture \<and> tk_node_byte_len n < tk_node_byte_len t \<and>
        tk_column t \<le> tk_column n \<and> tk_end n \<le> tk_end t \<and> covers n (tk_line t) c)"

lemma set_none_intervals:
  "set (or_empty (none_intervals ns ln)) =
     (\<lambda>n. (tk_column n, tk_end n, tk_node_byte_len n)) ` {n \<in> set ns. tk_line n = ln}"
proof -
  have "set (or_empty (fold (\<lambda>t. entry_push (tk_line t) (tk_column t, tk_end t, tk_node_byte_len t)) ns m ln)) =
     set (or_empty (m ln)) \<union> (\<lambda>n. (tk_column n, tk_end n, tk_node_byte_len n)) ` {n \<in> set ns. tk_line n = ln}" for m
    by (induction ns arbitrary: m) (auto simp: map_simps)
  from this [of Map.empty] show ?thesis
    by (simp add: none_intervals_def Let_def or_empty_map_sort) (simp add: or_empty_def)
qed

lemma sorted_dominated: "sorted ivs \<Longrightarrow> sorted (map fst (dominated ivs t))"
  by (induction ivs) (auto simp: dominated_def less_eq_prod_def)

lemma apply_none_token_correct:
  assumes ns: "set ns = {n \<in> set ts. tk_kind n = NoneCapture}"
  shows "cut_to (\<lambda>t c. \<not> punched ts t c) t (apply_none_token (none_intervals ns) t)"
proof -
  have punched: "punched ts t c \<longleftrightarrow> in_some (dominated (or_empty (none_intervals ns (tk_line t))) t) c" for c
    by (auto simp: punched_def in_some_def dominated_def set_none_intervals ns covers_def)
  have eq: "apply_none_token m t = split_host_token_around_regions t (dominated (or_empty (m (tk_line t))) t)" for m
    by (auto simp: apply_none_token_def Let_def split_host_token_around_regions_def or_empty_def
        dominated_def split: option.split)
  have "sorted (or_empty (none_intervals ns (tk_line t)))"
    by (simp add: none_intervals_def Let_def or_empty_map_sort)
  from split_host_covered [OF sorted_dominated [OF this], of t t] show ?thesis
    by (simp add: cut_to_def eq punched)
qed

text \<open>an \<open>@none\<close> capture removes its own columns, on its line, from the tokens of larger
  nodes that contain it, and from no other token; the captures themselves disappear.\<close>

lemma apply_none_preprocessing_correct:
  "cuts_all (\<lambda>t c. \<not> punched ts t c) (filter (\<lambda>t. tk_kind t \<noteq> NoneCapture) ts)
     (apply_none_preprocessing ts)"
proof -
  define ns where "ns = filter (\<lambda>t. tk_kind t = NoneCapture) ts"
  define us where "us = filter (\<lambda>t. tk_kind t \<noteq> NoneCapture) ts"
  have eq: "apply_none_preprocessing ts =
      (if ns = [] then us else concat (map (apply_none_token (none_intervals ns)) us))"
    by (simp add: apply_none_preprocessing_def ns_def us_def o_def)
  have cut: "cut_to (\<lambda>t c. \<not> punched ts t c) t (apply_none_token (none_intervals ns) t)" for t
    by (rule apply_none_token_correct) (auto simp: ns_def)
  have "none_intervals [] = Map.empty" by (auto simp: none_intervals_def)
  then have "us = concat (map (apply_none_token (none_intervals ns)) us)" if "ns = []"
    by (induction us) (simp_all add: that apply_none_token_def)
  then have "apply_none_preprocessing ts = concat (map (apply_none_token (none_intervals ns)) us)"
    by (simp add: eq)
  then show ?thesis
    using cuts_all_map [of us, OF cut] by (simp add: us_def)
qed

section \<open>Multiline spans\<close>

text \<open>Document offsets in UTF-16 units, one unit per line break.\<close>

definition doc_offset :: "source_lines \<Rightarrow> nat \<Rightarrow> nat \<Rightarrow> nat" where
  "doc_offset lines ln c = (\<Sum>l\<leftarrow>take ln lines. ulen l + 1) + c"

lemma doc_offset_Suc:
  "ln < length lines \<Longrightarrow> doc_offset lines (Suc ln) 0 = doc_offset lines ln (ulen (lines ! ln)) + 1"
  by (simp add: doc_offset_def take_Suc_conv_app_nth)

lemma doc_offset_mono: "a \<le> b \<Longrightarrow> doc_offset lines a 0 \<le> doc_offset lines b c"
  by (auto simp: doc_offset_def le_iff_add take_add)

lemma doc_offset_col: "doc_offset lines ln c = doc_offset lines ln 0 + c"
  by (simp add: doc_offset_def)

lemma doc_offset_less:
  assumes "ln < cur" "ln < length lines" "c \<le> ulen (lines ! ln)"
  shows "doc_offset lines ln c < doc_offset lines cur d"
proof -
  have "doc_offset lines ln c < doc_offset lines (Suc ln) 0"
    using assms(2,3) doc_offset_col [of lines ln c] doc_offset_col [of lines ln "ulen (lines ! ln)"]
    by (simp add: doc_offset_Suc)
  also have "\<dots> \<le> doc_offset lines cur d" using assms(1) by (simp add: doc_offset_mono)
  finally show ?thesis .
qed

definition spans_offsets :: "source_lines \<Rightarrow> nat \<Rightarrow> nat \<Rightarrow> nat \<Rightarrow> nat \<Rightarrow> bool" where
  "spans_offsets lines from len ln c \<longleftrightarrow> ln < length lines \<and> c < ulen (lines ! ln) \<and>
     from \<le> doc_offset lines ln c \<and> doc_offset lines ln c < from + len"

definition fits_lines :: "source_lines \<Rightarrow> raw_token \<Rightarrow> bool" where
  "fits_lines lines t \<longleftrightarrow> tk_line t < length lines \<and> tk_end t \<le> ulen (lines ! tk_line t)"

lemma split_lines_correct:
  "(cur < length lines \<longrightarrow> from \<le> ulen (lines ! cur)) \<Longrightarrow>
    fragments_of t (split_lines t lines rem cur from) \<and>
    (\<forall>f\<in>set (split_lines t lines rem cur from). fits_lines lines f \<and> 0 < tk_length f) \<and>
    (\<forall>ln c. covered (split_lines t lines rem cur from) ln c \<longleftrightarrow>
       spans_offsets lines (doc_offset lines cur from) rem ln c)"
proof (induction t lines rem cur "from" rule: split_lines.induct)
  case (1 t lines rem cur "from")
  define width where "width = ulen (lines ! cur)"
  define per where "per = min rem (width - from)"
  show ?case
  proof (cases "0 < rem \<and> cur < length lines")
    case False
    have "\<not> spans_offsets lines (doc_offset lines cur from) rem ln c" for ln c
      using False doc_offset_less [of ln cur lines c "from"] by (auto simp: spans_offsets_def)
    moreover have "split_lines t lines rem cur from = []"
      using False by (simp only: split_lines.simps [of t lines rem cur "from"] if_False)
    ultimately show ?thesis by simp
  next
    case True
    then have width: "from \<le> width" using 1(2) by (simp add: width_def)
    have eq: "split_lines t lines rem cur from =
        (if 0 < per then [with_span t cur from per] else []) @
        split_lines t lines (rem - (per + 1)) (cur + 1) 0"
      using True by (simp add: split_lines.simps [of t lines rem cur "from"] Let_def per_def width_def)
    have IH: "fragments_of t (split_lines t lines (rem - (per + 1)) (cur + 1) 0)"
      "\<forall>f\<in>set (split_lines t lines (rem - (per + 1)) (cur + 1) 0). fits_lines lines f \<and> 0 < tk_length f"
      "\<And>ln c. covered (split_lines t lines (rem - (per + 1)) (cur + 1) 0) ln c \<longleftrightarrow>
         spans_offsets lines (doc_offset lines (cur + 1) 0) (rem - (per + 1)) ln c"
      using 1(1) [OF True width_def per_def] by auto
    have eqc: "covered (split_lines t lines rem cur from) ln c \<longleftrightarrow>
        0 < per \<and> covers (with_span t cur from per) ln c \<or>
        spans_offsets lines (doc_offset lines (cur + 1) 0) (rem - (per + 1)) ln c" for ln c
      unfolding eq covered_simps IH(3) by simp
    have "covered (split_lines t lines rem cur from) ln c \<longleftrightarrow>
        spans_offsets lines (doc_offset lines cur from) rem ln c" for ln c
    proof (cases "ln < length lines \<and> c < ulen (lines ! ln)")
      case inside: True
      have next_start: "doc_offset lines (cur + 1) 0 = doc_offset lines cur 0 + width + 1"
        using True doc_offset_Suc [of cur lines] doc_offset_col [of lines cur width] by (simp add: width_def)
      consider "ln < cur" | "ln = cur" | "cur + 1 \<le> ln" by linarith
      then show ?thesis
      proof cases
        case 1
        then show ?thesis
          using inside doc_offset_less [of ln cur lines c "from"] doc_offset_less [of ln "cur + 1" lines c 0]
          by (simp add: eqc spans_offsets_def covers_def)
      next
        case 2
        then show ?thesis
          using inside next_start doc_offset_col [of lines cur c] doc_offset_col [of lines cur "from"] width
          by (auto simp: eqc spans_offsets_def covers_def per_def width_def)
      next
        case 3
        then show ?thesis
          using inside next_start doc_offset_mono [OF 3, of lines c] doc_offset_col [of lines cur "from"] width
          by (auto simp: eqc spans_offsets_def covers_def per_def width_def)
      qed
    next
      case False
      then show ?thesis
        using True width by (auto simp: eqc spans_offsets_def covers_def per_def width_def)
    qed
    then show ?thesis
      using IH(1,2) True width by (auto simp: eq fits_lines_def per_def width_def)
  qed
qed

text \<open>a token whose length counts one unit per line break is cut into fragments that each
  stay on one existing line and together cover exactly the characters between its start and
  its end in the document.\<close>

lemma split_multiline_token_correct:
  assumes "tk_line t < length lines" "tk_column t \<le> ulen (lines ! tk_line t)"
  shows "fragments_of t (split_multiline_token lines t) \<and>
    (\<forall>f\<in>set (split_multiline_token lines t). fits_lines lines f) \<and>
    (\<forall>ln c. covered (split_multiline_token lines t) ln c \<longleftrightarrow>
       spans_offsets lines (doc_offset lines (tk_line t) (tk_column t)) (tk_length t) ln c)"
proof (cases "tk_end t \<le> ulen (lines ! tk_line t)")
  case False
  then show ?thesis
    using assms split_lines_correct [of "tk_line t" lines "tk_column t" t "tk_length t"]
    by (simp add: split_multiline_token_def slice_get_def)
next
  case True
  have "covers t ln c \<longleftrightarrow>
      spans_offsets lines (doc_offset lines (tk_line t) (tk_column t)) (tk_length t) ln c" for ln c
  proof -
    consider "ln < tk_line t" | "ln = tk_line t" | "tk_line t < ln" by linarith
    then show ?thesis
    proof cases
      case 1
      then show ?thesis
        using doc_offset_less [of ln "tk_line t" lines c "tk_column t"]
        by (auto simp: covers_def spans_offsets_def)
    next
      case 2
      then show ?thesis
        using True assms doc_offset_col [of lines ln c] doc_offset_col [of lines ln "tk_column t"]
        by (auto simp: covers_def spans_offsets_def)
    next
      case 3
      then show ?thesis
        using True assms doc_offset_less [of "tk_line t" ln lines "tk_end t" c]
          doc_offset_col [of lines "tk_line t" "tk_end t"] doc_offset_col [of lines "tk_line t" "tk_column t"]
        by (auto simp: covers_def spans_offsets_def)
    qed
  qed
  then show ?thesis
    using True assms by (simp add: split_multiline_token_def slice_get_def fits_lines_def)
qed

section \<open>The key of a multiline region\<close>

lemma inner_length_eq:
  "inner_length lines idxs len =
     (if (\<forall>i\<in>set idxs. i < length lines) \<and>
         (idxs = [] \<or> len + (\<Sum>i\<leftarrow>idxs. ulen (lines ! i) + 1) \<le> usize_max)
      then Some (len + (\<Sum>i\<leftarrow>idxs. ulen (lines ! i) + 1)) else None)"
  by (induction idxs arbitrary: len) (auto simp: slice_get_def checked_add_def)

lemma doc_offset_range:
  "a \<le> b \<Longrightarrow> b \<le> length lines \<Longrightarrow>
    doc_offset lines b 0 = doc_offset lines a 0 + (\<Sum>i\<leftarrow>[a..<b]. ulen (lines ! i) + 1)"
proof (induction b)
  case (Suc b)
  then show ?case
    using doc_offset_col [of lines b "ulen (lines ! b)"]
    by (cases "a \<le> b") (auto simp: doc_offset_Suc le_Suc_eq)
qed simp

definition region_in_lines :: "source_lines \<Rightarrow> injection_bounds \<Rightarrow> bool" where
  "region_in_lines lines r \<longleftrightarrow> start_line r < length lines \<and> start_col r \<le> ulen (lines ! start_line r) \<and>
     (end_line r < length lines \<and> end_col r \<le> ulen (lines ! end_line r) \<or>
      end_line r = length lines \<and> end_col r = 0)"

text \<open>a region over several lines has a key exactly when it lies inside the document and its
  length fits a machine word; the key is its start and its length in UTF-16 units, so that a
  host token has the same key just when it starts and ends where the region does.\<close>

lemma multiline_region_key_correct:
  assumes "start_line r < end_line r" "length lines < usize_max"
  shows "multiline_region_key r lines =
    (let from = doc_offset lines (start_line r) (start_col r);
         upto = doc_offset lines (end_line r) (end_col r)
     in if region_in_lines lines r \<and> upto - from \<le> usize_max
        then Some (start_line r, start_col r, upto - from) else None)"
proof -
  define a where "a = start_line r"
  define b where "b = end_line r"
  define S where "S = (\<Sum>i\<leftarrow>[Suc a..<b]. ulen (lines ! i) + 1)"
  have ab: "a < b" using assms(1) by (simp add: a_def b_def)
  have len: "doc_offset lines b (end_col r) - doc_offset lines a (start_col r) =
      (ulen (lines ! a) - start_col r) + S + 1 + end_col r"
    if "a < length lines" "b \<le> length lines" "start_col r \<le> ulen (lines ! a)"
    using doc_offset_range [of "Suc a" b lines] doc_offset_Suc [of a lines] that ab
      doc_offset_col [of lines b "end_col r"] doc_offset_col [of lines a "start_col r"]
      doc_offset_col [of lines a "ulen (lines ! a)"]
    by (simp add: S_def)
  have inner: "inner_length lines [Suc a..<b] l = 
      (if Suc a < b \<and> l + S > usize_max then None else Some (l + S))" if "b \<le> length lines" for l
    using that by (auto simp: inner_length_eq S_def)
  have idx: "Suc a \<le> usize_max" if "a < length lines" using that assms(2) by simp
  show ?thesis
    unfolding multiline_region_key_def region_in_lines_def Let_def a_def [symmetric] b_def [symmetric]
    using ab len inner idx
    by (auto simp: slice_get_def checked_sub_def checked_add_def split: option.splits)
qed

end
