(* ===== verification/Token_Finalize.thy ===== *)
theory Token_Finalize
  imports Token_Sweep Token_Regions
begin

text \<open>
  \<open>finalize_tokens_cancellable\<close> of \<open>src/src/analysis/semantic/finalize.rs\<close>: the stages of
  \<open>Token_Regions\<close> and \<open>Token_Sweep\<close> in the order the code runs them, and the relative
  encoding of the result. The specification is a decoder that follows the protocol.
\<close>

record semantic_token =
  delta_line :: u32
  delta_start :: u32
  st_length :: u32
  token_type :: u32
  token_modifiers_bitset :: u32

fun delta_encode :: "raw_token list \<Rightarrow> nat \<Rightarrow> nat \<Rightarrow> semantic_token list" where
  "delta_encode [] last_line last_start = []"
| "delta_encode (t # ts) last_line last_start =
     (case tk_kind t of
        Mapped ty mods \<Rightarrow>
          let d_line = tk_line t - last_line;
              d_start = (if d_line = 0 then tk_column t - last_start else tk_column t)
          in \<lparr>delta_line = word_of_nat d_line, delta_start = word_of_nat d_start,
              st_length = word_of_nat (tk_length t), token_type = ty, token_modifiers_bitset = mods\<rparr>
             # delta_encode ts (tk_line t) (tk_column t)
      | MappedUnknown _ \<Rightarrow> delta_encode ts last_line last_start
      | Transparent \<Rightarrow> delta_encode ts last_line last_start
      | NoneCapture \<Rightarrow> delta_encode ts last_line last_start)"

text \<open>Everything before the sweep.\<close>

definition prepare_tokens ::
    "raw_token list \<Rightarrow> injection_bounds list \<Rightarrow> source_lines \<Rightarrow> raw_token list" where
  "prepare_tokens all_tokens regions lines =
     (let meta = multiline_region_metadata regions lines;
          (exact_match_tokens, filterable_tokens) =
            (if exact_match_keys meta = {} then ([], all_tokens)
             else partition_multiline_exact_matches all_tokens (exact_match_keys meta));
          ix = build_injection_region_index regions lines (keys_by_region meta);
          tokens = filter (\<lambda>t. 0 < tk_length t) (split_multiline_tokens filterable_tokens lines);
          tokens = filter_by_injection_regions_indexed tokens regions lines ix None @
                   filter_multiline_exact_match_tokens exact_match_tokens regions lines ix
      in apply_none_preprocessing tokens)"

definition finalize_tokens ::
    "raw_token list \<Rightarrow> injection_bounds list \<Rightarrow> source_lines \<Rightarrow> semantic_token list option" where
  "finalize_tokens all_tokens regions lines =
     (let tokens = split_overlapping_tokens (prepare_tokens all_tokens regions lines)
      in if tokens = [] then None else Some (delta_encode tokens 0 0))"

section \<open>Decoding\<close>

record absolute_token =
  at_line :: nat
  at_start :: nat
  at_length :: nat
  at_type :: u32
  at_modifiers :: u32

fun decode_tokens :: "semantic_token list \<Rightarrow> nat \<Rightarrow> nat \<Rightarrow> absolute_token list" where
  "decode_tokens [] ln start = []"
| "decode_tokens (d # ds) ln start =
     (let ln' = ln + unat (delta_line d);
          start' = (if delta_line d = 0 then start + unat (delta_start d) else unat (delta_start d))
      in \<lparr>at_line = ln', at_start = start', at_length = unat (st_length d), at_type = token_type d,
          at_modifiers = token_modifiers_bitset d\<rparr> # decode_tokens ds ln' start')"

fun absolute :: "raw_token list \<Rightarrow> absolute_token list" where
  "absolute [] = []"
| "absolute (t # ts) =
     (case tk_kind t of
        Mapped ty mods \<Rightarrow>
          \<lparr>at_line = tk_line t, at_start = tk_column t, at_length = tk_length t, at_type = ty,
           at_modifiers = mods\<rparr> # absolute ts
      | _ \<Rightarrow> absolute ts)"

definition small_token :: "raw_token \<Rightarrow> bool" where
  "small_token t \<longleftrightarrow> tk_line t < 2 ^ 32 \<and> tk_end t < 2 ^ 32"

lemma unat_of_nat32: "n < 2 ^ 32 \<Longrightarrow> unat (word_of_nat n :: u32) = n"
  by (simp add: unsigned_of_nat take_bit_nat_eq_self)

definition after_pos :: "nat \<Rightarrow> nat \<Rightarrow> raw_token \<Rightarrow> bool" where
  "after_pos ln start t \<longleftrightarrow> ln < tk_line t \<or> ln = tk_line t \<and> start \<le> tk_column t"

lemma decode_delta_encode:
  "\<lbrakk>sorted_wrt before_token ts; \<forall>t\<in>set ts. small_token t \<and> after_pos ln start t\<rbrakk> \<Longrightarrow>
    decode_tokens (delta_encode ts ln start) ln start = absolute ts"
proof (induction ts arbitrary: ln start)
  case (Cons t ts)
  show ?case
  proof (cases "tk_kind t")
    case (Mapped ty mods)
    have after: "\<forall>u\<in>set ts. small_token u \<and> after_pos (tk_line t) (tk_column t) u"
      using Cons.prems by (force simp: before_token_def after_pos_def)
    have small: "tk_line t < 2 ^ 32" "tk_column t < 2 ^ 32" "tk_length t < 2 ^ 32"
      using Cons.prems(2) by (auto simp: small_token_def)
    have eqs: "unat (word_of_nat (tk_line t - ln) :: u32) = tk_line t - ln"
      "unat (word_of_nat (tk_column t - start) :: u32) = tk_column t - start"
      "unat (word_of_nat (tk_column t) :: u32) = tk_column t"
      "unat (word_of_nat (tk_length t) :: u32) = tk_length t"
      using small by (simp_all add: unat_of_nat32)
    have zero: "(word_of_nat (tk_line t - ln) :: u32) = 0 \<longleftrightarrow> tk_line t - ln = 0"
      using eqs(1) by (metis unat_eq_zero)
    have "after_pos ln start t" using Cons.prems(2) by simp
    then show ?thesis
      using Cons.IH [OF _ after] Cons.prems(1) Mapped
      by (auto simp: Let_def eqs zero after_pos_def)
  qed (use Cons in auto)
qed simp

text \<open>decoding the relative encoding of tokens in document order gives back the line, start,
  length, type and modifiers of every token of the legend, and nothing else.\<close>

lemma delta_encode_roundtrip:
  assumes "laid_out ts" "\<forall>t\<in>set ts. small_token t"
  shows "decode_tokens (delta_encode ts 0 0) 0 0 = absolute ts"
  by (rule decode_delta_encode) (use assms in \<open>auto simp: laid_out_def after_pos_def\<close>)

section \<open>The whole finalizer\<close>

text \<open>What the client paints at a column.\<close>

definition shown_at :: "semantic_token list \<Rightarrow> nat \<Rightarrow> nat \<Rightarrow> (u32 \<times> u32) option" where
  "shown_at data ln c =
     map_option (\<lambda>a. (at_type a, at_modifiers a))
       (find (\<lambda>a. at_line a = ln \<and> at_start a \<le> c \<and> c < at_start a + at_length a) (decode_tokens data 0 0))"

definition legend_of :: "token_kind \<Rightarrow> (u32 \<times> u32) option" where
  "legend_of k = (case k of Mapped ty mods \<Rightarrow> Some (ty, mods) | _ \<Rightarrow> None)"

lemma find_absolute:
  "laid_out ts \<Longrightarrow>
    map_option (\<lambda>a. (at_type a, at_modifiers a))
      (find (\<lambda>a. at_line a = ln \<and> at_start a \<le> c \<and> c < at_start a + at_length a) (absolute ts)) =
    Option.bind (painted ts ln c) (\<lambda>i. legend_of (fst i))"
proof (induction ts)
  case (Cons t ts)
  have none: "painted ts ln c = None" if "covers t ln c"
    unfolding painted_None
  proof
    fix u assume "u \<in> set ts"
    then have "before_token t u" using Cons.prems by (simp add: laid_out_Cons)
    then show "\<not> covers u ln c" using that unfolding covers_def before_token_def by linarith
  qed
  have "laid_out ts" using Cons.prems by (simp add: laid_out_Cons)
  note IH = Cons.IH [OF this]
  show ?case
  proof (cases "covers t ln c")
    case True
    then show ?thesis
      using IH none [OF True]
      by (cases "tk_kind t") (simp_all add: painted_Cons legend_of_def ident_def covers_def)
  next
    case False
    then show ?thesis
      using IH by (cases "tk_kind t") (auto simp: painted_Cons covers_def)
  qed
qed simp

lemma last_col_painted:
  assumes "laid_out ts" "t \<in> set ts"
  shows "painted ts (tk_line t) (tk_end t - 1) \<noteq> None"
proof -
  have "covers t (tk_line t) (tk_end t - 1)"
    using assms by (auto simp: laid_out_def covers_def)
  then show ?thesis using assms(2) by (auto simp only: painted_None)
qed

lemma winner_active: "winner ts c = Some t \<Longrightarrow> t \<in> set ts \<and> active c t"
  using last_max_by_in [of token_priority "filter (active c) ts" t] by (auto simp: winner_def)

lemma split_overlapping_small:
  assumes "\<forall>t\<in>set ts. small_token t"
  shows "\<forall>t\<in>set (split_overlapping_tokens ts). small_token t"
proof
  fix t assume t: "t \<in> set (split_overlapping_tokens ts)"
  note spec = split_overlapping_spec [of ts "tk_line t" "tk_end t - 1"]
  have "winner (line_of (tk_line t) (sort_tokens ts)) (tk_end t - 1) \<noteq> None"
    using last_col_painted [OF conjunct1 [OF spec] t] conjunct1 [OF conjunct2 [OF spec]] by (metis option.map_disc_iff)
  then obtain u where "u \<in> set (line_of (tk_line t) (sort_tokens ts))" "active (tk_end t - 1) u"
    using winner_active by blast
  then have "u \<in> set ts" "tk_line u = tk_line t" "tk_end t - 1 < tk_end u"
    by (auto simp: line_of_def sort_tokens_def active_def)
  then show "small_token t" using assms by (force simp: small_token_def)
qed

lemma finalize_shows:
  assumes "\<forall>t\<in>set (prepare_tokens ts regions lines). small_token t"
    and "finalize_tokens ts regions lines = Some data"
  shows "shown_at data ln c =
    Option.bind (winner (line_of ln (sort_tokens (prepare_tokens ts regions lines))) c)
      (\<lambda>t. legend_of (tk_kind t))"
proof -
  define out where "out = split_overlapping_tokens (prepare_tokens ts regions lines)"
  have data: "data = delta_encode out 0 0"
    using assms(2) by (auto simp: finalize_tokens_def Let_def out_def split: if_splits)
  note spec = split_overlapping_spec [of "prepare_tokens ts regions lines" ln c, folded out_def]
  have "decode_tokens data 0 0 = absolute out"
    unfolding data
    by (rule decode_delta_encode)
      (use spec split_overlapping_small [OF assms(1)] in \<open>auto simp: laid_out_def after_pos_def out_def\<close>)
  then have "shown_at data ln c = Option.bind (painted out ln c) (\<lambda>i. legend_of (fst i))"
    using find_absolute [OF conjunct1 [OF spec]] by (simp add: shown_at_def)
  also have "painted out ln c =
      map_option ident (winner (line_of ln (sort_tokens (prepare_tokens ts regions lines))) c)"
    using spec by blast
  finally show ?thesis by (simp add: bind_map_option ident_def o_def)
qed

lemma finalize_None:
  "finalize_tokens ts regions lines = None \<longleftrightarrow>
    (\<forall>ln c. winner (line_of ln (sort_tokens (prepare_tokens ts regions lines))) c = None)"
proof -
  define out where "out = split_overlapping_tokens (prepare_tokens ts regions lines)"
  note spec = split_overlapping_spec [of "prepare_tokens ts regions lines", folded out_def]
  have "out = [] \<longleftrightarrow> (\<forall>ln c. painted out ln c = None)"
  proof
    assume none: "\<forall>ln c. painted out ln c = None"
    show "out = []"
    proof (cases out)
      case (Cons t us)
      then show ?thesis using last_col_painted [OF conjunct1 [OF spec], of t] none by simp
    qed
  qed simp
  then show ?thesis using spec by (simp add: finalize_tokens_def Let_def flip: out_def)
qed

text \<open>C35: the encoded response paints each column of each line with the legend entry of the
  winning prepared token there and leaves every other column bare; there is no response
  exactly when no token wins anywhere.\<close>

theorem finalize_tokens_correct:
  assumes "\<forall>t\<in>set (prepare_tokens ts regions lines). small_token t"
  shows "case finalize_tokens ts regions lines of
      None \<Rightarrow> \<forall>ln c. winner (line_of ln (sort_tokens (prepare_tokens ts regions lines))) c = None
    | Some data \<Rightarrow> \<forall>ln c. shown_at data ln c =
        Option.bind (winner (line_of ln (sort_tokens (prepare_tokens ts regions lines))) c)
          (\<lambda>t. legend_of (tk_kind t))"
  using finalize_shows [OF assms] finalize_None [of ts regions lines]
  by (simp split: option.split)

definition sample_token :: raw_token where
  "sample_token = \<lparr>tk_line = 0, tk_column = 0, tk_length = 3, tk_kind = Mapped 1 0, tk_depth = 0,
     tk_pattern_index = 0, tk_priority = 100, tk_node_byte_len = 3\<rparr>"

lemma sample_prepared: "prepare_tokens [sample_token] [] [[97, 98, 99, 100]] = [sample_token]"
  by (simp add: prepare_tokens_def multiline_region_metadata_def build_injection_region_index_def
      build_regions_by_line_def build_region_intervals_map_def split_multiline_tokens_def
      split_multiline_token_def slice_get_def len_utf16_def filter_by_injection_regions_indexed_def
      filter_token_def or_empty_def split_host_token_around_regions_def filter_multiline_exact_match_tokens_def
      apply_none_preprocessing_def sample_token_def Let_def)

theorem finalize_tokens_correct_witness:
  "case finalize_tokens [sample_token] [] [[97, 98, 99, 100]] of
     None \<Rightarrow> False
   | Some data \<Rightarrow> shown_at data 0 2 = Some (1, 0) \<and> shown_at data 0 3 = None"
proof -
  have "\<forall>t\<in>set (prepare_tokens [sample_token] [] [[97, 98, 99, 100]]). small_token t"
    unfolding sample_prepared by (simp add: small_token_def sample_token_def)
  note F = finalize_tokens_correct [OF this, unfolded sample_prepared]
  have w: "winner (line_of 0 (sort_tokens [sample_token])) 2 = Some sample_token"
    "winner (line_of 0 (sort_tokens [sample_token])) 3 = None"
    by (simp_all add: winner_def line_of_def sort_tokens_def active_def sample_token_def)
  moreover have "\<exists>data. finalize_tokens [sample_token] [] [[97, 98, 99, 100]] = Some data"
    using F w(1) by (cases "finalize_tokens [sample_token] [] [[97, 98, 99, 100]]") auto
  ultimately show ?thesis using F by (auto simp: sample_token_def legend_of_def)
qed

end
