(* ===== verification/Token_Delta.thy ===== *)
theory Token_Delta
  imports Token_Finalize
begin

text \<open>
  What the server sends after the first response: \<open>analysis/semantic/delta.rs\<close> (one edit
  from the previous tokens to the current ones) and \<open>analysis/semantic/range.rs\<close> (the
  tokens that meet a viewport, encoded again). The specifications replay the client.
\<close>

record semantic_tokens =
  result_id :: "string option"
  tokens_data :: "semantic_token list"

record tokens_edit =
  edit_start :: u32
  edit_delete_count :: u32
  edit_data :: "semantic_token list option"

record tokens_delta =
  delta_result_id :: "string option"
  delta_edits :: "tokens_edit list"

datatype full_delta_result = Full_Tokens semantic_tokens | Tokens_Delta tokens_delta

definition common_len :: "'a list \<Rightarrow> 'a list \<Rightarrow> nat" where
  "common_len xs ys = length (takeWhile (\<lambda>(a, b). a = b) (zip xs ys))"

definition calculate_semantic_tokens_delta ::
    "semantic_tokens \<Rightarrow> semantic_tokens \<Rightarrow> tokens_delta option" where
  "calculate_semantic_tokens_delta previous current =
     (let prev = tokens_data previous;
          curr = tokens_data current;
          common_prefix_len = common_len prev curr
      in if common_prefix_len = length prev \<and> common_prefix_len = length curr
         then Some \<lparr>delta_result_id = result_id current, delta_edits = []\<rparr>
         else
           let prev_suffix = drop common_prefix_len prev;
               curr_suffix = drop common_prefix_len curr;
               common_suffix_len = common_len (rev prev_suffix) (rev curr_suffix);
               start_token = common_prefix_len;
               delete_token_count = length prev_suffix - common_suffix_len;
               insert_token_count = length curr_suffix - common_suffix_len
           in Some \<lparr>delta_result_id = result_id current,
                    delta_edits =
                      [\<lparr>edit_start = word_of_nat (start_token * 5),
                        edit_delete_count = word_of_nat (delete_token_count * 5),
                        edit_data = Some (take insert_token_count (drop start_token curr))\<rparr>]\<rparr>)"

definition calculate_delta_or_full ::
    "semantic_tokens \<Rightarrow> semantic_tokens \<Rightarrow> string \<Rightarrow> full_delta_result" where
  "calculate_delta_or_full previous current expected_result_id =
     (case calculate_semantic_tokens_delta previous current of
        Some delta \<Rightarrow> if result_id previous = Some expected_result_id then Tokens_Delta delta
                      else Full_Tokens current
      | None \<Rightarrow> Full_Tokens current)"

section \<open>The client's side of a delta\<close>

text \<open>Tokens travel as five integers each; edits address the flat array.\<close>

definition flat :: "semantic_token list \<Rightarrow> u32 list" where
  "flat ds = concat (map (\<lambda>d. [delta_line d, delta_start d, st_length d, token_type d,
                               token_modifiers_bitset d]) ds)"

fun apply_edits :: "tokens_edit list \<Rightarrow> u32 list \<Rightarrow> u32 list" where
  "apply_edits [] ws = ws"
| "apply_edits (e # es) ws =
     (let s = unat (edit_start e); n = unat (edit_delete_count e);
          ins = (case edit_data e of None \<Rightarrow> [] | Some ds \<Rightarrow> flat ds)
      in apply_edits es (take s ws @ ins @ drop (s + n) ws))"

definition client_sees :: "u32 list \<Rightarrow> full_delta_result \<Rightarrow> u32 list" where
  "client_sees ws r =
     (case r of Full_Tokens ts \<Rightarrow> flat (tokens_data ts) | Tokens_Delta d \<Rightarrow> apply_edits (delta_edits d) ws)"

lemma flat_simps [simp]:
  "flat [] = []" "flat (d # ds) = [delta_line d, delta_start d, st_length d, token_type d,
     token_modifiers_bitset d] @ flat ds" "flat (ds @ es) = flat ds @ flat es"
  by (simp_all add: flat_def)

lemma length_flat [simp]: "length (flat ds) = 5 * length ds"
  by (induction ds) simp_all

lemma take_flat: "take (n * 5) (flat ds) = flat (take n ds)"
proof (induction ds arbitrary: n)
  case (Cons d ds)
  then show ?case by (cases n) (simp_all add: numeral_eq_Suc)
qed simp

lemma drop_flat: "drop (n * 5) (flat ds) = flat (drop n ds)"
proof (induction ds arbitrary: n)
  case (Cons d ds)
  then show ?case by (cases n) (simp_all add: numeral_eq_Suc)
qed simp

lemma common_len_simps [simp]:
  "common_len [] ys = 0" "common_len xs [] = 0"
  "common_len (x # xs) (y # ys) = (if x = y then Suc (common_len xs ys) else 0)"
  by (simp_all add: common_len_def)

lemma common_len_le: "common_len xs ys \<le> length xs" "common_len xs ys \<le> length ys"
  using length_takeWhile_le [of "\<lambda>(a, b). a = b" "zip xs ys"] by (auto simp: common_len_def)

lemma common_len_take: "take (common_len xs ys) xs = take (common_len xs ys) ys"
proof (induction xs arbitrary: ys)
  case (Cons x xs)
  then show ?case by (cases ys) auto
qed simp

lemma common_len_stops:
  "common_len xs ys < length xs \<Longrightarrow> common_len xs ys < length ys \<Longrightarrow>
    xs ! common_len xs ys \<noteq> ys ! common_len xs ys"
proof (induction xs arbitrary: ys)
  case (Cons x xs)
  then show ?case by (cases ys) auto
qed simp

lemma common_suffix:
  fixes xs ys :: "'a list"
  defines "n \<equiv> common_len (rev xs) (rev ys)"
  shows "drop (length xs - n) xs = drop (length ys - n) ys"
proof -
  have "rev (take n (rev xs)) = rev (take n (rev ys))"
    by (simp add: n_def common_len_take [of "rev xs" "rev ys"])
  then show ?thesis by (simp add: take_rev)
qed

text \<open>The new list around what both share.\<close>

lemma delta_splice:
  fixes prev curr :: "'a list"
  defines "p \<equiv> common_len prev curr"
  defines "n \<equiv> common_len (rev (drop p prev)) (rev (drop p curr))"
  shows "take p prev @ take (length (drop p curr) - n) (drop p curr) @
    drop (p + (length (drop p prev) - n)) prev = curr"
proof -
  have "drop (p + (length (drop p prev) - n)) prev = drop (length (drop p prev) - n) (drop p prev)"
    by (simp add: add.commute)
  also have "\<dots> = drop (length (drop p curr) - n) (drop p curr)"
    unfolding n_def by (rule common_suffix)
  finally show ?thesis
    using common_len_take [of prev curr] by (simp only: append_take_drop_id flip: p_def)
qed

lemma delta_applies:
  assumes "5 * length (tokens_data previous) < 2 ^ 32"
    and "calculate_semantic_tokens_delta previous current = Some d"
  shows "apply_edits (delta_edits d) (flat (tokens_data previous)) = flat (tokens_data current)"
proof -
  let ?prev = "tokens_data previous" and ?curr = "tokens_data current"
  define p where "p = common_len ?prev ?curr"
  define n where "n = common_len (rev (drop p ?prev)) (rev (drop p ?curr))"
  define dels where "dels = length (drop p ?prev) - n"
  have ple: "p \<le> length ?prev" by (simp add: p_def common_len_le)
  show ?thesis
  proof (cases "p = length ?prev \<and> p = length ?curr")
    case True
    then have "?prev = ?curr" using common_len_take [of ?prev ?curr] by (simp flip: p_def)
    then show ?thesis using assms(2) True
      unfolding calculate_semantic_tokens_delta_def Let_def p_def [symmetric] by auto
  next
    case False
    have d: "delta_edits d =
        [\<lparr>edit_start = word_of_nat (p * 5), edit_delete_count = word_of_nat (dels * 5),
          edit_data = Some (take (length (drop p ?curr) - n) (drop p ?curr))\<rparr>]"
      using assms(2) False
      unfolding calculate_semantic_tokens_delta_def Let_def p_def [symmetric] n_def [symmetric] dels_def
      by auto
    have unat: "unat (word_of_nat (p * 5) :: u32) = p * 5" "unat (word_of_nat (dels * 5) :: u32) = dels * 5"
      by (rule unat_of_nat32, use assms(1) ple in \<open>simp add: dels_def\<close>)+
    have "apply_edits (delta_edits d) (flat ?prev) =
        flat (take p ?prev @ take (length (drop p ?curr) - n) (drop p ?curr) @ drop (p + dels) ?prev)"
      by (simp only: d apply_edits.simps tokens_edit.select_convs Let_def option.case unat take_flat
          add_mult_distrib [symmetric] drop_flat flat_simps(3))
    then show ?thesis
      using delta_splice [of ?prev ?curr] by (simp only: p_def n_def dels_def)
  qed
qed

text \<open>C10: whatever the server answers to a delta request, delta or full tokens, a client holding the
  previous response ends with the five-integer array of the current tokens.\<close>

theorem calculate_delta_or_full_correct:
  assumes "5 * length (tokens_data previous) < 2 ^ 32"
  shows "client_sees (flat (tokens_data previous)) (calculate_delta_or_full previous current i) =
    flat (tokens_data current)"
  using delta_applies [OF assms]
  by (auto simp: calculate_delta_or_full_def client_sees_def split: option.split)

theorem calculate_delta_or_full_correct_witness:
  fixes a b c d :: semantic_token
  defines "a \<equiv> \<lparr>delta_line = 0, delta_start = 1, st_length = 2, token_type = 3, token_modifiers_bitset = 4\<rparr>"
  shows "client_sees (flat [a, a, a]) (calculate_delta_or_full \<lparr>result_id = Some ''1'', tokens_data = [a, a, a]\<rparr>
      \<lparr>result_id = Some ''2'', tokens_data = [a, a]\<rparr> ''1'') = flat [a, a]"
  using calculate_delta_or_full_correct
    [of "\<lparr>result_id = Some ''1'', tokens_data = [a, a, a]\<rparr>" "\<lparr>result_id = Some ''2'', tokens_data = [a, a]\<rparr>" "''1''"]
  by simp

section \<open>Ranges\<close>

record lsp_range =
  r_start :: "u32 \<times> u32"
  r_end :: "u32 \<times> u32"

type_synonym abs_entry = "nat \<times> nat \<times> u32 \<times> u32 \<times> u32"

primrec scan_range :: "lsp_range \<Rightarrow> semantic_token list \<Rightarrow> nat \<Rightarrow> nat \<Rightarrow> abs_entry list" where
  "scan_range rng [] abs_line abs_col = []"
| "scan_range rng (t # ts) abs_line abs_col =
     (let abs_line = abs_line + unat (delta_line t);
          abs_col = (if 0 < delta_line t then unat (delta_start t) else abs_col + unat (delta_start t));
          from_line = unat (fst (r_start rng));
          to_line = unat (fst (r_end rng))
      in if to_line < abs_line then []
         else if from_line \<le> abs_line then
           (if abs_line = to_line \<and> unat (snd (r_end rng)) \<le> abs_col then []
            else if abs_line = from_line \<and> abs_col + unat (st_length t) \<le> unat (snd (r_start rng))
            then scan_range rng ts abs_line abs_col
            else (abs_line, abs_col, st_length t, token_type t, token_modifiers_bitset t)
                 # scan_range rng ts abs_line abs_col)
         else scan_range rng ts abs_line abs_col)"

fun encode_as_deltas :: "abs_entry list \<Rightarrow> nat \<Rightarrow> nat \<Rightarrow> semantic_token list" where
  "encode_as_deltas [] last_line last_start = []"
| "encode_as_deltas ((ln, col, len, ty, mods) # es) last_line last_start =
     (let d_line = ln - last_line;
          d_start = (if d_line = 0 then col - last_start else col)
      in \<lparr>delta_line = word_of_nat d_line, delta_start = word_of_nat d_start, st_length = len,
          token_type = ty, token_modifiers_bitset = mods\<rparr> # encode_as_deltas es ln col)"

definition filter_tokens_by_range :: "semantic_token list \<Rightarrow> lsp_range \<Rightarrow> semantic_token list" where
  "filter_tokens_by_range tokens rng =
     (if r_end rng \<le> r_start rng then [] else encode_as_deltas (scan_range rng tokens 0 0) 0 0)"

definition filter_semantic_tokens_by_range :: "semantic_tokens \<Rightarrow> lsp_range \<Rightarrow> semantic_tokens" where
  "filter_semantic_tokens_by_range full_tokens rng =
     \<lparr>result_id = None, tokens_data = filter_tokens_by_range (tokens_data full_tokens) rng\<rparr>"

section \<open>Ranges, specified on absolute tokens\<close>

definition abs_of :: "abs_entry \<Rightarrow> absolute_token" where
  "abs_of = (\<lambda>(ln, col, len, ty, mods).
     \<lparr>at_line = ln, at_start = col, at_length = unat len, at_type = ty, at_modifiers = mods\<rparr>)"

abbreviation nat_pos :: "u32 \<times> u32 \<Rightarrow> nat \<times> nat" where
  "nat_pos p \<equiv> (unat (fst p), unat (snd p))"

definition meets :: "lsp_range \<Rightarrow> absolute_token \<Rightarrow> bool" where
  "meets rng a \<longleftrightarrow>
     nat_pos (r_start rng) < nat_pos (r_end rng) \<and>
     (at_line a, at_start a) < nat_pos (r_end rng) \<and>
     nat_pos (r_start rng) < (at_line a, at_start a + at_length a)"

lemma nat_pos_less: "nat_pos p < nat_pos q \<longleftrightarrow> p < q"
  by (cases p; cases q) (simp add: word_less_nat_alt word_le_nat_alt less_prod_def)

lemma decode_mono:
  "a \<in> set (decode_tokens ts l c) \<Longrightarrow> (l, c) \<le> (at_line a, at_start a)"
proof (induction ts arbitrary: l c)
  case (Cons t ts)
  let ?l = "l + unat (delta_line t)"
  let ?c = "if delta_line t = 0 then c + unat (delta_start t) else unat (delta_start t)"
  have le: "(l, c) \<le> (?l, ?c)"
    by (auto simp: unat_gt_0 less_eq_prod_def)
  from Cons.prems consider "at_line a = ?l \<and> at_start a = ?c" | "a \<in> set (decode_tokens ts ?l ?c)"
    by (auto simp: Let_def split: if_splits)
  then show ?case
  proof cases
    case 2
    then show ?thesis using Cons.IH [OF 2] le order_trans by blast
  qed (use le in auto)
qed simp

lemma scan_range_filter:
  "r_start rng < r_end rng \<Longrightarrow>
    map abs_of (scan_range rng ts l c) = filter (meets rng) (decode_tokens ts l c)"
proof (induction ts arbitrary: l c)
  case (Cons t ts)
  define l' where "l' = l + unat (delta_line t)"
  define c' where "c' = (if delta_line t = 0 then c + unat (delta_start t) else unat (delta_start t))"
  have c'_alt: "(if 0 < delta_line t then unat (delta_start t) else c + unat (delta_start t)) = c'"
    by (auto simp: c'_def word_neq_0_conv)
  define a where "a = \<lparr>at_line = l', at_start = c', at_length = unat (st_length t), at_type = token_type t,
      at_modifiers = token_modifiers_bitset t\<rparr>"
  have decode: "decode_tokens (t # ts) l c = a # decode_tokens ts l' c'"
    by (simp add: Let_def l'_def c'_def a_def)
  have rng: "nat_pos (r_start rng) < nat_pos (r_end rng)" using Cons.prems by (simp only: nat_pos_less)
  have beyond: "filter (meets rng) (a # decode_tokens ts l' c') = []"
    if "nat_pos (r_end rng) \<le> (l', c')"
  proof -
    have "nat_pos (r_end rng) \<le> (at_line b, at_start b)" if "b \<in> set (decode_tokens ts l' c')" for b
      using decode_mono [OF that] \<open>nat_pos (r_end rng) \<le> (l', c')\<close> by (rule order_trans [rotated])
    then have "\<not> meets rng b" if "b \<in> set (a # decode_tokens ts l' c')" for b
      using that \<open>nat_pos (r_end rng) \<le> (l', c')\<close> unfolding meets_def
      by (metis a_def absolute_token.select_convs(1,2) leD set_ConsD)
    then show ?thesis by (simp only: filter_empty_conv) blast
  qed
  note IH = Cons.IH [OF Cons.prems, of l' c']
  have step: "scan_range rng (t # ts) l c =
      (if unat (fst (r_end rng)) < l' then []
       else if unat (fst (r_start rng)) \<le> l' then
         (if l' = unat (fst (r_end rng)) \<and> unat (snd (r_end rng)) \<le> c' then []
          else if l' = unat (fst (r_start rng)) \<and> c' + unat (st_length t) \<le> unat (snd (r_start rng))
          then scan_range rng ts l' c'
          else (l', c', st_length t, token_type t, token_modifiers_bitset t) # scan_range rng ts l' c')
       else scan_range rng ts l' c')"
    unfolding scan_range.simps Let_def l'_def [symmetric] c'_alt ..
  show ?case
  proof (cases "nat_pos (r_end rng) \<le> (l', c')")
    case True
    then have "unat (fst (r_end rng)) < l' \<or> l' = unat (fst (r_end rng)) \<and> unat (snd (r_end rng)) \<le> c'"
      by auto
    moreover have "unat (fst (r_start rng)) \<le> unat (fst (r_end rng))" using rng by auto
    ultimately have "scan_range rng (t # ts) l c = []" unfolding step by auto
    then show ?thesis using beyond [OF True] by (simp only: decode) simp
  next
    case False
    then have inside: "\<not> unat (fst (r_end rng)) < l'"
      "\<not> (l' = unat (fst (r_end rng)) \<and> unat (snd (r_end rng)) \<le> c')" by auto
    have "meets rng a \<longleftrightarrow> unat (fst (r_start rng)) \<le> l' \<and>
        \<not> (l' = unat (fst (r_start rng)) \<and> c' + unat (st_length t) \<le> unat (snd (r_start rng)))"
      using rng inside unfolding meets_def a_def by auto
    moreover have "abs_of (l', c', st_length t, token_type t, token_modifiers_bitset t) = a"
      by (simp add: abs_of_def a_def)
    ultimately show ?thesis
      unfolding decode step if_not_P [OF inside(1)] if_not_P [OF inside(2)] using IH by auto
  qed
qed simp

lemma decode_encode_entries:
  "\<lbrakk>sorted (map (\<lambda>e. (fst e, fst (snd e))) es);
    \<forall>e\<in>set es. (l, c) \<le> (fst e, fst (snd e)) \<and> fst e < 2 ^ 32 \<and> fst (snd e) < 2 ^ 32\<rbrakk> \<Longrightarrow>
    decode_tokens (encode_as_deltas es l c) l c = map abs_of es"
proof (induction es arbitrary: l c)
  case (Cons e es)
  obtain ln col len ty mods where e: "e = (ln, col, len, ty, mods)" by (cases e)
  have small: "ln < 2 ^ 32" "col < 2 ^ 32" "(l, c) \<le> (ln, col)" using Cons.prems(2) by (auto simp: e)
  have eqs: "unat (word_of_nat (ln - l) :: u32) = ln - l" "unat (word_of_nat (col - c) :: u32) = col - c"
    "unat (word_of_nat col :: u32) = col"
    using small(1,2) by (simp_all add: unat_of_nat32)
  have zero: "(word_of_nat (ln - l) :: u32) = 0 \<longleftrightarrow> ln - l = 0"
    using eqs(1) by (metis unat_eq_zero)
  have "decode_tokens (encode_as_deltas es ln col) ln col = map abs_of es"
    using Cons.prems by (intro Cons.IH) (auto simp: e)
  then show ?case
    using small(3) by (auto simp: e Let_def eqs zero abs_of_def less_eq_prod_def)
qed simp

lemma decode_sorted: "sorted (map (\<lambda>a. (at_line a, at_start a)) (decode_tokens ts l c))"
proof (induction ts arbitrary: l c)
  case (Cons t ts)
  then show ?case by (auto simp: Let_def dest: decode_mono)
qed simp

text \<open>a range response decodes to exactly the tokens of the full response that meet the
  requested half-open range, in the same order, and stopping at the first token past the
  range loses none of them.\<close>

lemma filter_tokens_by_range_correct:
  assumes "\<forall>a\<in>set (decode_tokens ts 0 0). at_line a < 2 ^ 32 \<and> at_start a < 2 ^ 32"
  shows "decode_tokens (filter_tokens_by_range ts rng) 0 0 = filter (meets rng) (decode_tokens ts 0 0)"
proof (cases "r_end rng \<le> r_start rng")
  case True
  then have "\<not> meets rng a" for a
    using nat_pos_less [of "r_start rng" "r_end rng"] by (auto simp: meets_def simp del: less_prod_simp)
  then show ?thesis using True by (simp add: filter_tokens_by_range_def)
next
  case False
  define es where "es = scan_range rng ts 0 0"
  have scan: "map abs_of es = filter (meets rng) (decode_tokens ts 0 0)"
    using scan_range_filter [of rng ts 0 0] False by (simp add: es_def)
  have pos: "map (\<lambda>e. (fst e, fst (snd e))) es = map (\<lambda>a. (at_line a, at_start a)) (map abs_of es)"
    by (auto simp: abs_of_def)
  have "sorted (map (\<lambda>e. (fst e, fst (snd e))) es)"
    unfolding pos scan using decode_sorted [of ts 0 0] by (rule sorted_filter)
  moreover have "fst e < 2 ^ 32 \<and> fst (snd e) < 2 ^ 32" if "e \<in> set es" for e
  proof -
    have "abs_of e \<in> set (decode_tokens ts 0 0)"
      using that scan by (metis (no_types, lifting) filter_is_subset image_eqI list.set_map subsetD)
    then have "at_line (abs_of e) < 2 ^ 32 \<and> at_start (abs_of e) < 2 ^ 32" using assms by blast
    then show ?thesis by (cases e) (simp add: abs_of_def)
  qed
  ultimately have "decode_tokens (encode_as_deltas es 0 0) 0 0 = map abs_of es"
    by (intro decode_encode_entries) auto
  then show ?thesis using scan False by (simp add: filter_tokens_by_range_def es_def)
qed

end
