(* ===== verification/Response_Router.thy ===== *)
theory Response_Router
  imports Prelude "HOL-Library.AList"
begin

text \<open>
  \<open>src/src/lsp/bridge/actor/response_router.rs\<close>: the table of requests sent to one
  downstream language server, with the delivery state of each, the cancel maps in both
  directions and the admission gate. Every operation holds one mutex for its whole effect on
  the table, so it is a function on the state; what it sends to waiters after the lock is
  returned beside it. A oneshot channel is a fresh number; \<open>alive\<close> tells whether its
  receiver still exists. The hash map of pending requests is an association list with
  distinct keys, its drain order the order of the list.
\<close>

section \<open>State\<close>

type_synonym request_id = int

datatype upstream_id = Upstream_Number int | Upstream_String string

datatype request_delivery =
  Queued | Writing | Sent | CancelledQueued | CancelledWriting | CancelledSent

datatype bridge_failure = ConnectionLost | RequestTimeout

datatype register_error = Closed | DuplicateId

datatype route_result = Delivered | ReceiverDropped | NotFound

datatype liveness_expiry = Stale u64 | Idle | Failed nat

datatype peer_cancel_expiry = Settled | WriteInProgress nat | Wedged

datatype 'v reply = Routed 'v | Bridge_Error request_id int string

record pending_request =
  response_tx :: nat
  settled_tx :: "nat option"
  delivery :: request_delivery
  write_claimed_at :: "nat option"
  track_failure :: bool

record router_state =
  accepting :: bool
  liveness_epoch :: u64
  pending :: "(request_id \<times> pending_request) list"
  failures :: "request_id \<rightharpoonup> bridge_failure"
  upstream_to_downstream :: "upstream_id \<rightharpoonup> request_id list"
  downstream_to_upstream :: "request_id \<rightharpoonup> upstream_id"
  next_chan :: nat

type_synonym 'v sends = "(nat \<times> 'v reply) list"

definition router_new :: router_state where
  "router_new = \<lparr>accepting = True, liveness_epoch = 0, pending = [], failures = Map.empty,
     upstream_to_downstream = Map.empty, downstream_to_upstream = Map.empty, next_chan = 0\<rparr>"

definition get_pending :: "router_state \<Rightarrow> request_id \<Rightarrow> pending_request option" where
  "get_pending s i = map_of (pending s) i"

definition set_delivery :: "request_id \<Rightarrow> request_delivery \<Rightarrow> router_state \<Rightarrow> router_state" where
  "set_delivery i d s = s\<lparr>pending := AList.map_entry i (\<lambda>p. p\<lparr>delivery := d\<rparr>) (pending s)\<rparr>"

section \<open>Registration\<close>

definition oneshot_channel :: "router_state \<Rightarrow> nat \<times> router_state" where
  "oneshot_channel s = (next_chan s, s\<lparr>next_chan := next_chan s + 1\<rparr>)"

definition register_with_upstream_liveness_mode ::
    "request_id \<Rightarrow> upstream_id option \<Rightarrow> bool \<Rightarrow> nat option \<Rightarrow> router_state
      \<Rightarrow> (register_error + nat \<times> u64 option) \<times> router_state" where
  "register_with_upstream_liveness_mode downstream_id upstream track settled s =
     (let (tx, s) = oneshot_channel s
      in if \<not> accepting s then (Inl Closed, s)
         else if get_pending s downstream_id \<noteq> None then (Inl DuplicateId, s)
         else
           let starts_liveness = list_all (\<lambda>(_, p). delivery p = CancelledQueued) (pending s);
               s = (if starts_liveness then s\<lparr>liveness_epoch := liveness_epoch s + 1\<rparr> else s);
               epoch = (if starts_liveness then Some (liveness_epoch s) else None);
               s = s\<lparr>pending := (downstream_id,
                       \<lparr>response_tx = tx, settled_tx = settled, delivery = Queued,
                        write_claimed_at = None, track_failure = track\<rparr>) # pending s\<rparr>;
               s = (case upstream of
                      None \<Rightarrow> s
                    | Some u \<Rightarrow>
                        s\<lparr>upstream_to_downstream := (upstream_to_downstream s)
                            (u \<mapsto> (case upstream_to_downstream s u of None \<Rightarrow> [] | Some ids \<Rightarrow> ids) @ [downstream_id]),
                          downstream_to_upstream := (downstream_to_upstream s)(downstream_id \<mapsto> u)\<rparr>)
           in (Inr (tx, epoch), s))"

definition register_with_upstream_liveness ::
    "request_id \<Rightarrow> upstream_id option \<Rightarrow> router_state
      \<Rightarrow> (register_error + nat \<times> u64 option) \<times> router_state" where
  "register_with_upstream_liveness downstream_id upstream s =
     register_with_upstream_liveness_mode downstream_id upstream False None s"

definition register_with_upstream ::
    "request_id \<Rightarrow> upstream_id option \<Rightarrow> router_state \<Rightarrow> nat option \<times> router_state" where
  "register_with_upstream downstream_id upstream s =
     (let (r, s) = register_with_upstream_liveness downstream_id upstream s
      in (case r of Inl _ \<Rightarrow> None | Inr (rx, _) \<Rightarrow> Some rx, s))"

definition register_request :: "request_id \<Rightarrow> router_state \<Rightarrow> nat option \<times> router_state" where
  "register_request i s = register_with_upstream i None s"

definition register_peer ::
    "request_id \<Rightarrow> router_state \<Rightarrow> (register_error + nat \<times> u64 option \<times> nat) \<times> router_state" where
  "register_peer downstream_id s =
     (let (settled, s) = oneshot_channel s;
          (r, s) = register_with_upstream_liveness_mode downstream_id None True (Some settled) s
      in (case r of Inl e \<Rightarrow> Inl e | Inr (rx, epoch) \<Rightarrow> Inr (rx, epoch, settled), s))"

section \<open>Cancelling, writing, routing\<close>

definition remove_cancel_mapping_inner :: "request_id \<Rightarrow> router_state \<Rightarrow> router_state" where
  "remove_cancel_mapping_inner i s =
     (case downstream_to_upstream s i of
        None \<Rightarrow> s
      | Some u \<Rightarrow>
          let s = s\<lparr>downstream_to_upstream := (downstream_to_upstream s)(i := None)\<rparr>
          in (case upstream_to_downstream s u of
                None \<Rightarrow> s
              | Some ids \<Rightarrow>
                  let ids = filter (\<lambda>j. j \<noteq> i) ids
                  in s\<lparr>upstream_to_downstream :=
                        (upstream_to_downstream s)(u := if ids = [] then None else Some ids)\<rparr>))"

definition drop_pending :: "request_id \<Rightarrow> router_state \<Rightarrow> router_state" where
  "drop_pending i s = s\<lparr>pending := AList.delete i (pending s)\<rparr>"

definition drop_failure :: "request_id \<Rightarrow> router_state \<Rightarrow> router_state" where
  "drop_failure i s = s\<lparr>failures := (failures s)(i := None)\<rparr>"

fun prepare_cancel_loop :: "request_id list \<Rightarrow> router_state \<Rightarrow> request_id list \<times> router_state" where
  "prepare_cancel_loop [] s = ([], s)"
| "prepare_cancel_loop (i # ids) s =
     (case get_pending s i of
        None \<Rightarrow> prepare_cancel_loop ids s
      | Some p \<Rightarrow>
          (case delivery p of
             Queued \<Rightarrow> prepare_cancel_loop ids (set_delivery i CancelledQueued s)
           | Writing \<Rightarrow> (let (sent, s') = prepare_cancel_loop ids s in (i # sent, s'))
           | Sent \<Rightarrow> (let (sent, s') = prepare_cancel_loop ids s in (i # sent, s'))
           | _ \<Rightarrow> prepare_cancel_loop ids s))"

definition prepare_cancel_by_upstream ::
    "upstream_id \<Rightarrow> router_state \<Rightarrow> (bool \<times> request_id list) \<times> router_state" where
  "prepare_cancel_by_upstream u s =
     (case upstream_to_downstream s u of
        None \<Rightarrow> ((False, []), s)
      | Some ids \<Rightarrow> (let (sent, s') = prepare_cancel_loop ids s in ((True, sent), s')))"

definition claim_for_write ::
    "nat \<Rightarrow> request_id \<Rightarrow> router_state \<Rightarrow> bool \<times> router_state \<times> 'v sends" where
  "claim_for_write now i s =
     (case get_pending s i of
        None \<Rightarrow> (False, s, [])
      | Some p \<Rightarrow>
          (case delivery p of
             Queued \<Rightarrow>
               (True, s\<lparr>pending := AList.map_entry i
                          (\<lambda>p. p\<lparr>delivery := Writing, write_claimed_at := Some now\<rparr>) (pending s)\<rparr>, [])
           | CancelledQueued \<Rightarrow>
               (False, remove_cancel_mapping_inner i (drop_pending i s),
                [(response_tx p, Bridge_Error i (- 32800) ''bridge: request cancelled before downstream write'')])
           | _ \<Rightarrow> (False, s, [])))"

definition mark_sent :: "request_id \<Rightarrow> router_state \<Rightarrow> router_state" where
  "mark_sent i s =
     (case get_pending s i of
        None \<Rightarrow> s
      | Some p \<Rightarrow>
          (case delivery p of
             Writing \<Rightarrow> set_delivery i Sent s
           | CancelledWriting \<Rightarrow>
               if settled_tx p \<noteq> None then set_delivery i CancelledSent s
               else remove_cancel_mapping_inner i (drop_failure i (drop_pending i s))
           | _ \<Rightarrow> s))"

definition route ::
    "('v \<Rightarrow> request_id option) \<Rightarrow> (nat \<Rightarrow> bool) \<Rightarrow> 'v \<Rightarrow> router_state
      \<Rightarrow> route_result \<times> router_state \<times> 'v sends" where
  "route from_json alive response s =
     (case from_json response of
        None \<Rightarrow> (NotFound, s, [])
      | Some i \<Rightarrow>
          let s' = remove_cancel_mapping_inner i (drop_pending i s)
          in (case get_pending s i of
                None \<Rightarrow> (NotFound, s', [])
              | Some p \<Rightarrow>
                  (if alive (response_tx p) then Delivered else ReceiverDropped, s',
                   [(response_tx p, Routed response)])))"

definition awaiting_downstream_count :: "router_state \<Rightarrow> nat" where
  "awaiting_downstream_count s = length (filter (\<lambda>(_, p). delivery p \<noteq> CancelledQueued) (pending s))"

definition remove_request :: "request_id \<Rightarrow> router_state \<Rightarrow> bool \<times> router_state" where
  "remove_request i s =
     (let removed = get_pending s i \<noteq> None;
          s = drop_failure i (drop_pending i s)
      in (removed, if removed then remove_cancel_mapping_inner i s else s))"

definition retire_on_timeout :: "request_id \<Rightarrow> router_state \<Rightarrow> bool \<times> router_state" where
  "retire_on_timeout i s =
     (case get_pending s i of
        None \<Rightarrow> (False, s)
      | Some p \<Rightarrow>
          if delivery p = Writing then (False, set_delivery i CancelledWriting s)
          else (True, remove_cancel_mapping_inner i (drop_failure i (drop_pending i s))))"

definition cancel_peer :: "request_id \<Rightarrow> router_state \<Rightarrow> bool option \<times> router_state" where
  "cancel_peer i s =
     (case get_pending s i of
        None \<Rightarrow> (None, s)
      | Some p \<Rightarrow>
          (case delivery p of
             Queued \<Rightarrow> (Some False, remove_cancel_mapping_inner i (drop_failure i (drop_pending i s)))
           | Writing \<Rightarrow> (Some True, set_delivery i CancelledWriting s)
           | Sent \<Rightarrow> (Some True, set_delivery i CancelledSent s)
           | _ \<Rightarrow> (Some False, s)))"

section \<open>Failing\<close>

text \<open>Closing admission and draining, under one lock; then one error per drained waiter.\<close>

definition close_and_drain ::
    "(request_id \<Rightarrow> bridge_failure) \<Rightarrow> router_state \<Rightarrow> router_state" where
  "close_and_drain failure_of s =
     s\<lparr>accepting := False, pending := [],
       failures := fold (\<lambda>(i, p) m. if track_failure p then m(i \<mapsto> failure_of i) else m) (pending s) (failures s),
       upstream_to_downstream := Map.empty, downstream_to_upstream := Map.empty\<rparr>"

fun fail_entries ::
    "(nat \<Rightarrow> bool) \<Rightarrow> (request_id \<Rightarrow> int \<times> string) \<Rightarrow> (request_id \<times> pending_request) list
      \<Rightarrow> router_state \<Rightarrow> router_state \<times> 'v sends" where
  "fail_entries alive error_of [] s = (s, [])"
| "fail_entries alive error_of ((i, p) # es) s =
     (let (code, message) =
            (if delivery p = CancelledQueued
             then (- 32800, ''bridge: request cancelled before downstream write'') else error_of i);
          s = (if alive (response_tx p) then s else drop_failure i s);
          (s, out) = fail_entries alive error_of es s
      in (s, (response_tx p, Bridge_Error i code message) # out))"

definition expire_peer_cancel ::
    "(nat \<Rightarrow> bool) \<Rightarrow> nat \<Rightarrow> request_id \<Rightarrow> nat \<Rightarrow> router_state
      \<Rightarrow> peer_cancel_expiry \<times> router_state \<times> 'v sends" where
  "expire_peer_cancel alive now i write_budget s =
     (let wedged =
            (let s' = close_and_drain (\<lambda>j. if j = i then RequestTimeout else ConnectionLost) s;
                 (s', out) = fail_entries alive
                   (\<lambda>j. (- 32603, if j = i then ''bridge: cancelled peer write timed out''
                                  else ''bridge: connection failed after peer write timeout''))
                   (pending s) s'
             in (Wedged, s', out))
      in case map_option (\<lambda>p. (delivery p, write_claimed_at p)) (get_pending s i) of
           Some (CancelledWriting, Some claimed_at) \<Rightarrow>
             (let until = claimed_at + write_budget
              in if now < until then (WriteInProgress until, s, []) else wedged)
         | Some (CancelledSent, _) \<Rightarrow>
             (Settled, remove_cancel_mapping_inner i (drop_failure i (drop_pending i s)), [])
         | _ \<Rightarrow> (Settled, s, []))"

definition take_failure :: "request_id \<Rightarrow> router_state \<Rightarrow> bridge_failure option \<times> router_state" where
  "take_failure i s = (failures s i, drop_failure i s)"

definition fail_request ::
    "(nat \<Rightarrow> bool) \<Rightarrow> request_id \<Rightarrow> string \<Rightarrow> router_state \<Rightarrow> bool \<times> router_state \<times> 'v sends" where
  "fail_request alive i reason s =
     (let found = get_pending s i;
          s = drop_pending i s;
          s = (case found of
                 Some p \<Rightarrow> if track_failure p then s\<lparr>failures := (failures s)(i \<mapsto> ConnectionLost)\<rparr> else s
               | None \<Rightarrow> s);
          s = remove_cancel_mapping_inner i s
      in case found of
           None \<Rightarrow> (False, s, [])
         | Some p \<Rightarrow>
             (True, if alive (response_tx p) then s else drop_failure i s,
              [(response_tx p, Bridge_Error i (- 32803) (''bridge: '' @ reason))]))"

definition fail_all :: "(nat \<Rightarrow> bool) \<Rightarrow> string \<Rightarrow> router_state \<Rightarrow> router_state \<times> 'v sends" where
  "fail_all alive error_message s =
     fail_entries alive (\<lambda>_. (- 32603, error_message)) (pending s) (close_and_drain (\<lambda>_. ConnectionLost) s)"

definition fail_all_if_awaiting_downstream ::
    "(nat \<Rightarrow> bool) \<Rightarrow> u64 \<Rightarrow> string \<Rightarrow> router_state \<Rightarrow> liveness_expiry \<times> router_state \<times> 'v sends" where
  "fail_all_if_awaiting_downstream alive expected_epoch error_message s =
     (if liveness_epoch s \<noteq> expected_epoch then (Stale (liveness_epoch s), s, [])
      else
        let awaiting = length (filter (\<lambda>(_, p). delivery p \<noteq> CancelledQueued) (pending s))
        in if awaiting = 0 then (Idle, s, [])
           else
             let (s', out) = fail_entries alive (\<lambda>_. (- 32603, error_message)) (pending s)
                               (close_and_drain (\<lambda>_. ConnectionLost) s)
             in (Failed awaiting, s', out))"

section \<open>The cleanup guard\<close>

text \<open>\<open>RouterCleanupGuard\<close>: the id it still owns, if any.\<close>

type_synonym cleanup_guard = "request_id option"

definition guard_new :: "request_id \<Rightarrow> cleanup_guard" where
  "guard_new i = Some i"

definition guard_disarm :: "cleanup_guard \<Rightarrow> cleanup_guard" where
  "guard_disarm g = None"

definition guard_drop :: "cleanup_guard \<Rightarrow> router_state \<Rightarrow> router_state" where
  "guard_drop g s = (case g of None \<Rightarrow> s | Some i \<Rightarrow> snd (remove_request i s))"

end
