(* ===== verification/Router_Invariants.thy ===== *)
theory Router_Invariants
  imports Response_Router
begin

text \<open>
  What every operation of the response router keeps: the table of waiters is a table, the two
  cancel maps are inverse to each other and speak only of pending requests, and a closed
  router holds nothing. Then the histories: what was sent to whom, and which writes began.
\<close>

section \<open>Lookups\<close>

definition waiters :: "router_state \<Rightarrow> nat list" where
  "waiters s = map (\<lambda>(_, p). response_tx p) (pending s)"

abbreviation pending_ids :: "router_state \<Rightarrow> request_id set" where
  "pending_ids s \<equiv> fst ` set (pending s)"

named_theorems router_simps \<open>how the operations read and write the fields\<close>

lemma get_pending_drop [router_simps]:
  "get_pending (drop_pending i s) j = (if i = j then None else get_pending s j)"
  by (simp add: get_pending_def drop_pending_def AList.delete_conv')

lemma get_pending_set [router_simps]:
  "get_pending (set_delivery i d s) j =
     (if i = j then map_option (\<lambda>p. p\<lparr>delivery := d\<rparr>) (get_pending s j) else get_pending s j)"
  by (auto simp: get_pending_def set_delivery_def AList.map_of_map_entry split: option.split)

lemma drop_fields [router_simps]:
  "accepting (drop_pending i s) = accepting s" "liveness_epoch (drop_pending i s) = liveness_epoch s"
  "failures (drop_pending i s) = failures s" "next_chan (drop_pending i s) = next_chan s"
  "upstream_to_downstream (drop_pending i s) = upstream_to_downstream s"
  "downstream_to_upstream (drop_pending i s) = downstream_to_upstream s"
  "pending (drop_pending i s) = AList.delete i (pending s)"
  by (simp_all add: drop_pending_def)

lemma set_fields [router_simps]:
  "accepting (set_delivery i d s) = accepting s" "liveness_epoch (set_delivery i d s) = liveness_epoch s"
  "failures (set_delivery i d s) = failures s" "next_chan (set_delivery i d s) = next_chan s"
  "upstream_to_downstream (set_delivery i d s) = upstream_to_downstream s"
  "downstream_to_upstream (set_delivery i d s) = downstream_to_upstream s"
  "pending (set_delivery i d s) = AList.map_entry i (\<lambda>p. p\<lparr>delivery := d\<rparr>) (pending s)"
  by (simp_all add: set_delivery_def)

lemma failure_fields [router_simps]:
  "accepting (drop_failure i s) = accepting s" "liveness_epoch (drop_failure i s) = liveness_epoch s"
  "pending (drop_failure i s) = pending s" "next_chan (drop_failure i s) = next_chan s"
  "upstream_to_downstream (drop_failure i s) = upstream_to_downstream s"
  "downstream_to_upstream (drop_failure i s) = downstream_to_upstream s"
  by (simp_all add: drop_failure_def)

lemma mapping_fields [router_simps]:
  "accepting (remove_cancel_mapping_inner i s) = accepting s"
  "liveness_epoch (remove_cancel_mapping_inner i s) = liveness_epoch s"
  "pending (remove_cancel_mapping_inner i s) = pending s"
  "failures (remove_cancel_mapping_inner i s) = failures s"
  "next_chan (remove_cancel_mapping_inner i s) = next_chan s"
  by (simp_all add: remove_cancel_mapping_inner_def Let_def split: option.split)

lemma close_fields [router_simps]:
  "accepting (close_and_drain f s) = False" "pending (close_and_drain f s) = []"
  "next_chan (close_and_drain f s) = next_chan s"
  "upstream_to_downstream (close_and_drain f s) = Map.empty"
  "downstream_to_upstream (close_and_drain f s) = Map.empty"
  by (simp_all add: close_and_drain_def)

lemma fail_entries_fields:
  "fail_entries alive err es s = (s', out) \<Longrightarrow>
    accepting s' = accepting s \<and> pending s' = pending s \<and> next_chan s' = next_chan s \<and>
    liveness_epoch s' = liveness_epoch s \<and>
    upstream_to_downstream s' = upstream_to_downstream s \<and>
    downstream_to_upstream s' = downstream_to_upstream s \<and>
    map fst out = map (\<lambda>(_, p). response_tx p) es"
  by (induction es arbitrary: s s' out)
    (auto simp: Let_def router_simps split: prod.splits if_splits)

section \<open>The table of waiters\<close>

definition table_ok :: "router_state \<Rightarrow> bool" where
  "table_ok s \<longleftrightarrow> distinct (map fst (pending s)) \<and> distinct (waiters s) \<and>
     (\<forall>c\<in>set (waiters s). c < next_chan s) \<and>
     (\<not> accepting s \<longrightarrow> pending s = []) \<and>
     (\<forall>(i, p)\<in>set (pending s).
        delivery p \<in> {Writing, CancelledWriting} \<longrightarrow> write_claimed_at p \<noteq> None)"

text \<open>How an operation moves waiters: new ones have fresh channels, those that leave are sent
  at most one reply, and nothing returns to \<open>Queued\<close>.\<close>

definition moves :: "router_state \<Rightarrow> router_state \<Rightarrow> nat list \<Rightarrow> bool" where
  "moves s s' out \<longleftrightarrow> next_chan s \<le> next_chan s' \<and>
     (\<forall>i p'. (i, p') \<in> set (pending s') \<longrightarrow>
        next_chan s \<le> response_tx p' \<or>
        (\<exists>p. (i, p) \<in> set (pending s) \<and> response_tx p = response_tx p' \<and>
             (delivery p' = Queued \<longrightarrow> delivery p = Queued))) \<and>
     distinct out \<and> set out \<subseteq> set (waiters s) - set (waiters s')"

lemma get_pending_in: "get_pending s i = Some p \<Longrightarrow> (i, p) \<in> set (pending s)"
  by (simp add: get_pending_def map_of_SomeD)

lemma set_delete: "set (AList.delete i al) = {x \<in> set al. fst x \<noteq> i}"
  by (auto simp: AList.delete_eq)

lemma set_map_entry:
  "distinct (map fst al) \<Longrightarrow>
    set (AList.map_entry i f al) = {x \<in> set al. fst x \<noteq> i} \<union> {(i, f v) | v. (i, v) \<in> set al}"
proof (induction al)
  case (Cons x al)
  obtain k v where x: "x = (k, v)" by (cases x)
  show ?case
  proof (cases "k = i")
    case True
    then have "\<forall>y\<in>set al. fst y \<noteq> i" using Cons.prems by (force simp: x)
    then show ?thesis using True by (auto simp: x)
  next
    case False
    have "set (AList.map_entry i f (x # al)) = insert x (set (AList.map_entry i f al))"
      using False by (simp add: x)
    also have "\<dots> = insert x ({x \<in> set al. fst x \<noteq> i} \<union> {(i, f v) | v. (i, v) \<in> set al})"
      using Cons by simp
    finally show ?thesis using False by (auto simp: x)
  qed
qed simp

lemma waiters_delete: "distinct (waiters s) \<Longrightarrow> distinct (waiters (drop_pending i s))"
  by (auto simp: waiters_def drop_pending_def AList.delete_eq distinct_map intro: inj_on_subset)

lemma map_entry_same:
  "(\<And>v. g (f v) = g v) \<Longrightarrow> map (\<lambda>(_, v). g v) (AList.map_entry i f al) = map (\<lambda>(_, v). g v) al"
  by (induction al) auto

lemma map_fst_map_entry: "map fst (AList.map_entry i f al) = map fst al"
  by (induction al) auto

lemma table_ok_drop: "table_ok s \<Longrightarrow> table_ok (drop_pending i s)"
  unfolding table_ok_def
  using waiters_delete [of s i] AList.distinct_delete [of "pending s" i]
  by (auto simp: drop_pending_def waiters_def set_delete)

lemma table_ok_entry:
  assumes "table_ok s" "\<And>p. response_tx (f p) = response_tx p"
    and "\<And>p. get_pending s i = Some p \<Longrightarrow>
      delivery (f p) \<in> {Writing, CancelledWriting} \<Longrightarrow> write_claimed_at (f p) \<noteq> None"
  shows "table_ok (s\<lparr>pending := AList.map_entry i f (pending s)\<rparr>)"
proof -
  have d: "distinct (map fst (pending s))" using assms(1) by (simp add: table_ok_def)
  have w: "waiters (s\<lparr>pending := AList.map_entry i f (pending s)\<rparr>) = waiters s"
    by (simp add: waiters_def map_entry_same assms(2))
  have "delivery p \<in> {Writing, CancelledWriting} \<Longrightarrow> write_claimed_at p \<noteq> None"
    if "(j, p) \<in> set (AList.map_entry i f (pending s))" for j p
    using that assms(1,3) d unfolding set_map_entry [OF d] get_pending_def table_ok_def by auto
  then show ?thesis
    using assms(1) unfolding table_ok_def w by (auto simp: map_fst_map_entry)
qed

lemma waiters_cong: "pending s' = pending s \<Longrightarrow> waiters s' = waiters s"
  by (simp add: waiters_def)

lemma table_ok_cong:
  "table_ok s \<Longrightarrow> pending s' = pending s \<Longrightarrow> accepting s' = accepting s \<Longrightarrow> next_chan s \<le> next_chan s' \<Longrightarrow>
    table_ok s'"
  unfolding table_ok_def waiters_def by auto

lemma moves_cong:
  "moves s t out \<Longrightarrow> pending t' = pending t \<Longrightarrow> next_chan t' = next_chan t \<Longrightarrow> moves s t' out"
  unfolding moves_def waiters_def by simp

lemma moves_refl: "pending s' = pending s \<Longrightarrow> next_chan s \<le> next_chan s' \<Longrightarrow> moves s s' []"
  unfolding moves_def by auto

lemma waiter_gone:
  assumes "table_ok s" "(i, p) \<in> set (pending s)"
  shows "response_tx p \<notin> set (waiters (drop_pending i s))"
proof
  assume "response_tx p \<in> set (waiters (drop_pending i s))"
  then obtain j q where q: "(j, q) \<in> set (pending s)" "j \<noteq> i" "response_tx q = response_tx p"
    by (auto simp: waiters_def drop_pending_def set_delete)
  have "inj_on (\<lambda>(_, p). response_tx p) (set (pending s))"
    using assms(1) by (simp add: table_ok_def waiters_def distinct_map)
  from inj_onD [OF this, of "(j, q)" "(i, p)"] q assms(2) show False by simp
qed

lemma moves_drop: "moves s (drop_pending i s) []"
  unfolding moves_def by (auto simp: drop_pending_def set_delete)

lemma moves_drop_reply:
  "table_ok s \<Longrightarrow> get_pending s i = Some p \<Longrightarrow> moves s (drop_pending i s) [response_tx p]"
  using waiter_gone [of s i p]
  by (force simp: moves_def waiters_def drop_pending_def set_delete dest: get_pending_in)

lemma moves_entry:
  assumes "table_ok s" "\<And>p. response_tx (f p) = response_tx p" "\<And>p. delivery (f p) \<noteq> Queued"
  shows "moves s (s\<lparr>pending := AList.map_entry i f (pending s)\<rparr>) []"
proof -
  have d: "distinct (map fst (pending s))" using assms(1) by (simp add: table_ok_def)
  show ?thesis unfolding moves_def using assms(2,3) by (auto simp: set_map_entry [OF d])
qed

section \<open>The cancel maps\<close>

definition cancel_ids :: "router_state \<Rightarrow> upstream_id \<Rightarrow> request_id list" where
  "cancel_ids s u = (case upstream_to_downstream s u of None \<Rightarrow> [] | Some ids \<Rightarrow> ids)"

definition maps_ok :: "router_state \<Rightarrow> bool" where
  "maps_ok s \<longleftrightarrow>
     (\<forall>i u. downstream_to_upstream s i = Some u \<longleftrightarrow> i \<in> set (cancel_ids s u)) \<and>
     (\<forall>u ids. upstream_to_downstream s u = Some ids \<longrightarrow> ids \<noteq> [] \<and> distinct ids) \<and>
     dom (downstream_to_upstream s) \<subseteq> pending_ids s"

lemma cancel_ids_remove:
  assumes "maps_ok s"
  shows "upstream_to_downstream (remove_cancel_mapping_inner i s) u =
      (let ids = filter (\<lambda>j. j \<noteq> i) (cancel_ids s u) in if ids = [] then None else Some ids)"
    and "downstream_to_upstream (remove_cancel_mapping_inner i s) = (downstream_to_upstream s)(i := None)"
proof -
  have iff: "downstream_to_upstream s j = Some v \<longleftrightarrow> j \<in> set (cancel_ids s v)" for j v
    using assms by (simp add: maps_ok_def)
  have other: "filter (\<lambda>j. j \<noteq> i) (cancel_ids s v) = cancel_ids s v"
    if "downstream_to_upstream s i \<noteq> Some v" for v
    using that iff [of i v] by (auto simp: filter_id_conv)
  have keep: "upstream_to_downstream s v = (if cancel_ids s v = [] then None else Some (cancel_ids s v))" for v
    using assms by (auto simp: maps_ok_def cancel_ids_def split: option.splits)
  show "downstream_to_upstream (remove_cancel_mapping_inner i s) = (downstream_to_upstream s)(i := None)"
    by (auto simp: remove_cancel_mapping_inner_def Let_def split: option.split)
  show "upstream_to_downstream (remove_cancel_mapping_inner i s) u =
      (let ids = filter (\<lambda>j. j \<noteq> i) (cancel_ids s u) in if ids = [] then None else Some ids)"
  proof (cases "downstream_to_upstream s i = Some u")
    case True
    then have "upstream_to_downstream s u = Some (cancel_ids s u)"
      using iff [of i u] keep [of u] by auto
    then show ?thesis using True by (simp add: remove_cancel_mapping_inner_def Let_def)
  next
    case False
    have "upstream_to_downstream (remove_cancel_mapping_inner i s) u = upstream_to_downstream s u"
      using False by (auto simp: remove_cancel_mapping_inner_def Let_def split: option.split)
    then show ?thesis using other [OF False] keep [of u] by (simp add: Let_def)
  qed
qed

lemma cancel_ids_filter:
  "maps_ok s \<Longrightarrow>
    cancel_ids (remove_cancel_mapping_inner i s) u = filter (\<lambda>j. j \<noteq> i) (cancel_ids s u)"
  unfolding cancel_ids_def [of "remove_cancel_mapping_inner i s"] cancel_ids_remove(1)
  by (simp add: Let_def)

text \<open>Dropping a request and its mapping together keeps the maps.\<close>

lemma maps_ok_remove:
  assumes "maps_ok s" "upstream_to_downstream t = upstream_to_downstream s"
    "downstream_to_upstream t = downstream_to_upstream s"
    "pending_ids s - {i} \<subseteq> pending_ids t"
  shows "maps_ok (remove_cancel_mapping_inner i t)"
proof -
  define t' where "t' = t\<lparr>pending := pending s\<rparr>"
  have ok: "maps_ok t'" using assms(1-3) by (simp add: maps_ok_def cancel_ids_def t'_def)
  have same: "upstream_to_downstream (remove_cancel_mapping_inner i t) =
      upstream_to_downstream (remove_cancel_mapping_inner i t')"
    "downstream_to_upstream (remove_cancel_mapping_inner i t) =
      downstream_to_upstream (remove_cancel_mapping_inner i t')"
    by (simp_all add: remove_cancel_mapping_inner_def t'_def Let_def split: option.split)
  have ids: "cancel_ids (remove_cancel_mapping_inner i t) u = filter (\<lambda>j. j \<noteq> i) (cancel_ids t' u)" for u
    using cancel_ids_filter [OF ok, of i u] by (simp add: cancel_ids_def same)
  have dom: "dom (downstream_to_upstream t') \<subseteq> pending_ids s"
    using ok by (simp add: maps_ok_def t'_def)
  have "dom ((downstream_to_upstream t')(i := None)) \<subseteq> pending_ids (remove_cancel_mapping_inner i t)"
    using dom assms(4) by (auto simp: router_simps)
  moreover have "(downstream_to_upstream t')(i := None) = (\<lambda>j. if j = i then None else downstream_to_upstream t' j)"
    by auto
  moreover have "distinct (cancel_ids t' u)" for u
    using ok by (auto simp: maps_ok_def cancel_ids_def split: option.splits)
  moreover have "downstream_to_upstream t' j = Some u \<longleftrightarrow> j \<in> set (cancel_ids t' u)" for j u
    using ok by (simp add: maps_ok_def)
  ultimately show ?thesis
    unfolding maps_ok_def ids same cancel_ids_remove [OF ok]
    by (auto simp: Let_def split: if_splits)
qed

lemma maps_ok_cong:
  "maps_ok s \<Longrightarrow> upstream_to_downstream t = upstream_to_downstream s \<Longrightarrow>
    downstream_to_upstream t = downstream_to_upstream s \<Longrightarrow> pending_ids s \<subseteq> pending_ids t \<Longrightarrow> maps_ok t"
  unfolding maps_ok_def cancel_ids_def by fastforce

lemma maps_ok_empty:
  "upstream_to_downstream t = Map.empty \<Longrightarrow> downstream_to_upstream t = Map.empty \<Longrightarrow> maps_ok t"
  by (simp add: maps_ok_def cancel_ids_def)

lemma maps_ok_register:
  assumes "maps_ok s" "i \<notin> pending_ids s" "pending_ids t = insert i (pending_ids s)"
    "upstream_to_downstream t = (upstream_to_downstream s)(u \<mapsto> cancel_ids s u @ [i])"
    "downstream_to_upstream t = (downstream_to_upstream s)(i \<mapsto> u)"
  shows "maps_ok t"
proof -
  have new: "downstream_to_upstream s i = None" using assms(1,2) by (auto simp: maps_ok_def)
  have ids: "cancel_ids t v = (if v = u then cancel_ids s u @ [i] else cancel_ids s v)" for v
    by (simp add: cancel_ids_def assms(4))
  have notin: "i \<notin> set (cancel_ids s v)" for v
  proof -
    have "downstream_to_upstream s i = Some v \<longleftrightarrow> i \<in> set (cancel_ids s v)"
      using assms(1) by (simp add: maps_ok_def)
    then show ?thesis using new by simp
  qed
  have dist: "distinct (cancel_ids s v)" for v
    using assms(1) by (auto simp: maps_ok_def cancel_ids_def split: option.splits)
  show ?thesis
    unfolding maps_ok_def ids assms(3,5)
    using assms(1) notin dist by (auto simp: maps_ok_def assms(4) split: if_splits)
qed

section \<open>One operation\<close>

definition router_ok :: "router_state \<Rightarrow> bool" where
  "router_ok s \<longleftrightarrow> table_ok s \<and> maps_ok s"

definition keeps :: "router_state \<Rightarrow> router_state \<Rightarrow> nat list \<Rightarrow> bool" where
  "keeps s s' out \<longleftrightarrow> router_ok s' \<and> moves s s' out"

text \<open>\<open>t\<close> is \<open>s\<close> with the request gone, its mapping still to be removed.\<close>

definition without :: "request_id \<Rightarrow> router_state \<Rightarrow> router_state \<Rightarrow> bool" where
  "without i s t \<longleftrightarrow> pending t = AList.delete i (pending s) \<and> accepting t = accepting s \<and>
     next_chan t = next_chan s \<and> upstream_to_downstream t = upstream_to_downstream s \<and>
     downstream_to_upstream t = downstream_to_upstream s"

lemma without_intros [intro]:
  "without i s (drop_pending i s)" "without i s t \<Longrightarrow> without i s (drop_failure j t)"
  "without i s t \<Longrightarrow> without i s (t\<lparr>failures := f\<rparr>)"
  by (simp_all add: without_def router_simps)

lemma retire_ok:
  assumes "router_ok s" "without i s t"
  shows "router_ok (remove_cancel_mapping_inner i t)"
proof -
  have "table_ok (remove_cancel_mapping_inner i t)"
    by (rule table_ok_cong [OF table_ok_drop [of s i]])
      (use assms in \<open>simp_all add: router_ok_def without_def router_simps\<close>)
  moreover have "maps_ok (remove_cancel_mapping_inner i t)"
    by (rule maps_ok_remove [of s]) (use assms in \<open>auto simp: router_ok_def without_def set_delete\<close>)
  ultimately show ?thesis by (simp add: router_ok_def)
qed

lemma retire_keeps:
  assumes "router_ok s" "without i s t"
  shows "keeps s (remove_cancel_mapping_inner i t) []"
  using retire_ok [OF assms] moves_cong [OF moves_drop [of s i]] assms(2)
  by (simp add: keeps_def without_def router_simps)

lemma retire_reply_keeps:
  assumes "router_ok s" "without i s t" "get_pending s i = Some p"
  shows "keeps s (remove_cancel_mapping_inner i t) [response_tx p]"
  using retire_ok [OF assms(1,2)] moves_cong [OF moves_drop_reply [OF _ assms(3)]] assms(1,2)
  by (simp add: keeps_def without_def router_simps router_ok_def)

lemma entry_keeps:
  assumes "router_ok s" "\<And>p. response_tx (f p) = response_tx p" "\<And>p. delivery (f p) \<noteq> Queued"
    and "\<And>p. get_pending s i = Some p \<Longrightarrow>
      delivery (f p) \<in> {Writing, CancelledWriting} \<Longrightarrow> write_claimed_at (f p) \<noteq> None"
  shows "keeps s (s\<lparr>pending := AList.map_entry i f (pending s)\<rparr>) []"
proof -
  have "maps_ok (s\<lparr>pending := AList.map_entry i f (pending s)\<rparr>)"
    by (rule maps_ok_cong [of s]) (use assms(1) in \<open>simp_all add: router_ok_def AList.dom_map_entry\<close>)
  then show ?thesis
    using assms table_ok_entry [of s f i] moves_entry [of s f i] by (simp add: keeps_def router_ok_def)
qed

lemma set_delivery_keeps:
  assumes "router_ok s" "d \<noteq> Queued"
    and "d \<in> {Writing, CancelledWriting} \<Longrightarrow> get_pending s i \<noteq> None \<Longrightarrow>
      delivery (the (get_pending s i)) \<in> {Writing, CancelledWriting}"
  shows "keeps s (set_delivery i d s) []"
  unfolding set_delivery_def
proof (rule entry_keeps [OF assms(1)])
  fix p assume p: "get_pending s i = Some p" and d: "delivery (p\<lparr>delivery := d\<rparr>) \<in> {Writing, CancelledWriting}"
  then have "delivery p \<in> {Writing, CancelledWriting}" using assms(3) by simp
  then show "write_claimed_at (p\<lparr>delivery := d\<rparr>) \<noteq> None"
    using assms(1) get_pending_in [OF p] by (auto simp: router_ok_def table_ok_def)
qed (use assms(2) in simp_all)

lemma keeps_refl: "router_ok s \<Longrightarrow> keeps s s []"
  by (simp add: keeps_def moves_refl)

lemma keeps_trans:
  assumes "keeps s t []" "keeps t u []"
  shows "keeps s u []"
proof -
  have "next_chan s \<le> response_tx p'' \<or> (\<exists>p. (i, p) \<in> set (pending s) \<and> response_tx p = response_tx p'' \<and>
      (delivery p'' = Queued \<longrightarrow> delivery p = Queued))" if "(i, p'') \<in> set (pending u)" for i p''
  proof -
    have le: "next_chan s \<le> next_chan t" using assms(1) by (simp add: keeps_def moves_def)
    from assms(2) that consider "next_chan t \<le> response_tx p''"
      | p' where "(i, p') \<in> set (pending t)" "response_tx p' = response_tx p''"
        "delivery p'' = Queued \<longrightarrow> delivery p' = Queued"
      unfolding keeps_def moves_def by blast
    then show ?thesis
    proof cases
      case 1
      then show ?thesis using le by simp
    next
      case 2
      then show ?thesis using assms(1) unfolding keeps_def moves_def by metis
    qed
  qed
  moreover have "next_chan s \<le> next_chan u"
    using assms unfolding keeps_def moves_def by (meson le_trans)
  ultimately show ?thesis using assms(2) by (simp add: keeps_def moves_def)
qed

lemma fresh_chan_keeps: "router_ok s \<Longrightarrow> keeps s (snd (oneshot_channel s)) []"
  using table_ok_cong [of s "snd (oneshot_channel s)"] maps_ok_cong [of s "snd (oneshot_channel s)"]
  by (auto simp: keeps_def router_ok_def oneshot_channel_def intro!: moves_refl)

lemma failure_keeps: "router_ok s \<Longrightarrow> keeps s (s\<lparr>failures := f\<rparr>) []"
  using table_ok_cong [of s "s\<lparr>failures := f\<rparr>"] maps_ok_cong [of s "s\<lparr>failures := f\<rparr>"]
  by (auto simp: keeps_def router_ok_def intro!: moves_refl)

lemma drain_keeps:
  assumes "router_ok s" "fail_entries alive err (pending s) (close_and_drain f s) = (s', out)"
  shows "keeps s s' (map fst out)"
proof -
  note f = fail_entries_fields [OF assms(2)]
  have empty: "pending s' = []" "\<not> accepting s'" using f by (simp_all add: router_simps)
  have out: "map fst out = waiters s" using f by (simp add: waiters_def)
  have "table_ok s'" using empty by (simp add: table_ok_def waiters_def)
  moreover have "maps_ok s'" using f by (intro maps_ok_empty) (simp_all add: router_simps)
  moreover have "moves s s' (map fst out)"
    using assms(1) f empty unfolding moves_def out
    by (simp add: router_ok_def table_ok_def router_simps waiters_def [of s'])
  ultimately show ?thesis by (simp add: keeps_def router_ok_def)
qed

section \<open>Every operation\<close>

lemma get_pending_None: "get_pending s i = None \<longleftrightarrow> i \<notin> pending_ids s"
  by (simp add: get_pending_def map_of_eq_None_iff)

lemma enrol_keeps:
  assumes "router_ok s" "accepting s" "get_pending s i = None"
    and t: "pending t = (i, p) # pending s" "response_tx p = next_chan s" "delivery p = Queued"
      "next_chan t = next_chan s + 1" "accepting t = accepting s"
    and maps: "case up of
        None \<Rightarrow> upstream_to_downstream t = upstream_to_downstream s \<and>
                downstream_to_upstream t = downstream_to_upstream s
      | Some u \<Rightarrow> upstream_to_downstream t = (upstream_to_downstream s)(u \<mapsto> cancel_ids s u @ [i]) \<and>
                  downstream_to_upstream t = (downstream_to_upstream s)(i \<mapsto> u)"
  shows "keeps s t []"
proof -
  have tab: "table_ok s" using assms(1) by (simp add: router_ok_def)
  have w: "waiters t = next_chan s # waiters s" by (simp add: waiters_def t)
  have "distinct (waiters t)" "\<forall>c\<in>set (waiters t). c < next_chan t"
    using tab by (auto simp: w t table_ok_def less_Suc_eq)
  moreover have "distinct (map fst (pending t))"
    using tab assms(3) by (simp add: t table_ok_def get_pending_None)
  moreover have "\<forall>(j, q)\<in>set (pending t). delivery q \<in> {Writing, CancelledWriting} \<longrightarrow> write_claimed_at q \<noteq> None"
    using tab by (simp add: t table_ok_def)
  ultimately have "table_ok t" using assms(2) by (simp add: table_ok_def t)
  moreover have "maps_ok t"
  proof (cases up)
    case None
    show ?thesis
      by (rule maps_ok_cong [of s]) (use None maps assms(1) in \<open>auto simp: router_ok_def t\<close>)
  next
    case (Some u)
    then show ?thesis
      using maps assms(1,3)
      by (intro maps_ok_register [of s i t u]) (simp_all add: router_ok_def t get_pending_None)
  qed
  moreover have "moves s t []" by (auto simp: moves_def t)
  ultimately show ?thesis by (simp add: keeps_def router_ok_def)
qed

lemma register_mode_keeps:
  assumes "router_ok s"
  shows "keeps s (snd (register_with_upstream_liveness_mode i u track settled s)) []"
proof (cases "accepting s \<and> get_pending s i = None")
  case False
  then have "snd (register_with_upstream_liveness_mode i u track settled s) = snd (oneshot_channel s)"
    by (auto simp: register_with_upstream_liveness_mode_def oneshot_channel_def get_pending_def)
  then show ?thesis using fresh_chan_keeps [OF assms] by simp
next
  case True
  then show ?thesis
    by (intro enrol_keeps [OF assms, where i = i and up = u])
      (auto simp: register_with_upstream_liveness_mode_def oneshot_channel_def get_pending_def Let_def
        cancel_ids_def split: option.split)
qed

lemma register_peer_keeps:
  assumes "router_ok s"
  shows "keeps s (snd (register_peer i s)) []"
proof -
  have "router_ok (snd (oneshot_channel s))" using fresh_chan_keeps [OF assms] by (simp add: keeps_def)
  from keeps_trans [OF fresh_chan_keeps [OF assms] register_mode_keeps [OF this]] show ?thesis
    by (simp add: register_peer_def oneshot_channel_def split: prod.split) (metis snd_conv)
qed

lemma prepare_loop_keeps: "router_ok s \<Longrightarrow> keeps s (snd (prepare_cancel_loop ids s)) []"
proof (induction ids arbitrary: s)
  case Nil
  then show ?case by (simp add: keeps_refl)
next
  case (Cons i ids)
  show ?case
  proof (cases "\<exists>p. get_pending s i = Some p \<and> delivery p = Queued")
    case True
    have set: "keeps s (set_delivery i CancelledQueued s) []"
      by (rule set_delivery_keeps [OF Cons.prems]) simp_all
    then have "router_ok (set_delivery i CancelledQueued s)" by (simp add: keeps_def)
    from keeps_trans [OF set Cons.IH [OF this]] True show ?thesis by auto
  next
    case False
    then have "snd (prepare_cancel_loop (i # ids) s) = snd (prepare_cancel_loop ids s)"
      by (auto split: option.split request_delivery.split prod.split)
    then show ?thesis using Cons.IH [OF Cons.prems] by simp
  qed
qed

lemma prepare_cancel_keeps: "router_ok s \<Longrightarrow> keeps s (snd (prepare_cancel_by_upstream u s)) []"
  using prepare_loop_keeps [of s]
  by (auto simp: prepare_cancel_by_upstream_def keeps_refl split: option.split prod.split)
    (metis snd_conv)

lemma claim_keeps:
  assumes "router_ok s" "claim_for_write now i s = (b, s', out)"
  shows "keeps s s' (map fst out)"
proof (cases "get_pending s i")
  case (Some p)
  show ?thesis
  proof (cases "delivery p")
    case Queued
    have "keeps s (s\<lparr>pending := AList.map_entry i
        (\<lambda>p. p\<lparr>delivery := Writing, write_claimed_at := Some now\<rparr>) (pending s)\<rparr>) []"
      by (rule entry_keeps [OF assms(1)]) simp_all
    then show ?thesis using assms(2) Some Queued by (auto simp: claim_for_write_def)
  next
    case CancelledQueued
    then show ?thesis
      using assms(2) Some retire_reply_keeps [OF assms(1) without_intros(1) Some]
      by (auto simp: claim_for_write_def)
  qed (use assms Some in \<open>auto simp: claim_for_write_def keeps_refl\<close>)
qed (use assms in \<open>auto simp: claim_for_write_def keeps_refl\<close>)

lemma mark_sent_keeps:
  assumes "router_ok s"
  shows "keeps s (mark_sent i s) []"
proof (cases "get_pending s i")
  case (Some p)
  have retire: "keeps s (remove_cancel_mapping_inner i (drop_failure i (drop_pending i s))) []"
    by (rule retire_keeps [OF assms]) auto
  show ?thesis
    using assms Some retire set_delivery_keeps [OF assms, of Sent i]
      set_delivery_keeps [OF assms, of CancelledSent i]
    by (auto simp: mark_sent_def keeps_refl split: request_delivery.split)
qed (simp add: assms mark_sent_def keeps_refl)

lemma route_keeps:
  assumes "router_ok s" "route parse alive v s = (r, s', out)"
  shows "keeps s s' (map fst out)"
proof (cases "parse v")
  case (Some i)
  have "keeps s (remove_cancel_mapping_inner i (drop_pending i s)) []"
    by (rule retire_keeps [OF assms(1)]) auto
  moreover have "keeps s (remove_cancel_mapping_inner i (drop_pending i s)) [response_tx p]"
    if "get_pending s i = Some p" for p
    by (rule retire_reply_keeps [OF assms(1) _ that]) auto
  ultimately show ?thesis
    using assms(2) Some by (auto simp: route_def Let_def split: option.splits)
qed (use assms in \<open>auto simp: route_def keeps_refl\<close>)

lemma remove_keeps:
  assumes "router_ok s"
  shows "keeps s (snd (remove_request i s)) []"
proof (cases "get_pending s i")
  case None
  then have "drop_failure i (drop_pending i s) = s\<lparr>failures := (failures s)(i := None)\<rparr>"
    by (simp add: drop_failure_def drop_pending_def get_pending_None AList.delete_id)
  then show ?thesis
    using None failure_keeps [OF assms] by (simp add: remove_request_def)
next
  case (Some p)
  have "keeps s (remove_cancel_mapping_inner i (drop_failure i (drop_pending i s))) []"
    by (rule retire_keeps [OF assms]) auto
  then show ?thesis by (simp add: remove_request_def Some)
qed

lemma retire_on_timeout_keeps:
  assumes "router_ok s"
  shows "keeps s (snd (retire_on_timeout i s)) []"
proof -
  have "keeps s (remove_cancel_mapping_inner i (drop_failure i (drop_pending i s))) []"
    by (rule retire_keeps [OF assms]) auto
  then show ?thesis
    using assms set_delivery_keeps [OF assms, of CancelledWriting i]
    by (auto simp: retire_on_timeout_def keeps_refl split: option.split)
qed

lemma cancel_peer_keeps:
  assumes "router_ok s"
  shows "keeps s (snd (cancel_peer i s)) []"
proof (cases "get_pending s i")
  case (Some p)
  have retire: "keeps s (remove_cancel_mapping_inner i (drop_failure i (drop_pending i s))) []"
    by (rule retire_keeps [OF assms]) auto
  show ?thesis
    using assms Some retire set_delivery_keeps [OF assms, of CancelledWriting i]
      set_delivery_keeps [OF assms, of CancelledSent i]
    by (auto simp: cancel_peer_def keeps_refl split: request_delivery.split)
qed (simp add: assms cancel_peer_def keeps_refl)

lemma expire_keeps:
  assumes "router_ok s" "expire_peer_cancel alive now i budget s = (r, s', out)"
  shows "keeps s s' (map fst out)"
proof -
  have retire: "keeps s (remove_cancel_mapping_inner i (drop_failure i (drop_pending i s))) []"
    by (rule retire_keeps [OF assms(1)]) auto
  show ?thesis
    using assms(2) retire keeps_refl [OF assms(1)]
    by (auto simp: expire_peer_cancel_def Let_def drain_keeps [OF assms(1)]
        split: option.splits request_delivery.splits prod.splits if_splits)
qed

lemma fail_request_keeps:
  assumes "router_ok s" "fail_request alive i reason s = (r, s', out)"
  shows "keeps s s' (map fst out)"
proof (cases "get_pending s i")
  case None
  have "keeps s (remove_cancel_mapping_inner i (drop_pending i s)) []"
    by (rule retire_keeps [OF assms(1)]) auto
  then show ?thesis using assms(2) None by (auto simp: fail_request_def)
next
  case (Some p)
  define t where "t = (if track_failure p
    then (drop_pending i s)\<lparr>failures := (failures (drop_pending i s))(i \<mapsto> ConnectionLost)\<rparr> else drop_pending i s)"
  have "without i s t" unfolding t_def by auto
  then have k: "keeps s (remove_cancel_mapping_inner i t) [response_tx p]"
    by (rule retire_reply_keeps [OF assms(1) _ Some])
  then have "keeps s (drop_failure i (remove_cancel_mapping_inner i t)) [response_tx p]"
    using failure_keeps [of "remove_cancel_mapping_inner i t"]
    unfolding keeps_def drop_failure_def by (auto elim!: moves_cong)
  then show ?thesis
    using assms(2) k Some by (auto simp: fail_request_def Let_def t_def split: if_splits)
qed

lemma fail_all_keeps:
  assumes "router_ok s" "fail_all alive msg s = (s', out)"
  shows "keeps s s' (map fst out)"
  using drain_keeps [OF assms(1)] assms(2) unfolding fail_all_def by blast

lemma fail_all_if_keeps:
  assumes "router_ok s" "fail_all_if_awaiting_downstream alive epoch msg s = (r, s', out)"
  shows "keeps s s' (map fst out)"
  using assms(2) keeps_refl [OF assms(1)]
  by (auto simp: fail_all_if_awaiting_downstream_def Let_def drain_keeps [OF assms(1)]
      split: if_splits prod.splits)

end
