(* ===== verification/Router_History.thy ===== *)
theory Router_History
  imports Router_Invariants
begin

text \<open>
  Histories of the response router: any sequence of its operations, in any order and from any
  task, with the replies sent and the writes begun along the way. The environment of a
  step gives the clock, which receivers are still alive, and the id in a message.
\<close>

section \<open>Steps\<close>

record 'v env =
  now_at :: nat
  alive_rx :: "nat \<Rightarrow> bool"
  parse_id :: "'v \<Rightarrow> request_id option"

datatype 'v router_op =
    Register request_id "upstream_id option"
  | RegisterPeer request_id
  | PrepareCancel upstream_id
  | Claim request_id
  | MarkSent request_id
  | Route 'v
  | Remove request_id
  | RetireOnTimeout request_id
  | CancelPeer request_id
  | ExpirePeerCancel request_id nat
  | TakeFailure request_id
  | FailRequest request_id string
  | FailAll string
  | FailAllIfAwaiting u64 string

text \<open>The channel of a request whose write a claim begins.\<close>

definition claimed_chan :: "bool \<Rightarrow> request_id \<Rightarrow> router_state \<Rightarrow> nat list" where
  "claimed_chan granted i s =
     (if granted then (case get_pending s i of None \<Rightarrow> [] | Some p \<Rightarrow> [response_tx p]) else [])"

fun step :: "'v env \<Rightarrow> 'v router_op \<Rightarrow> router_state \<Rightarrow> router_state \<times> 'v sends \<times> nat list" where
  "step e (Register i u) s = (snd (register_with_upstream_liveness i u s), [], [])"
| "step e (RegisterPeer i) s = (snd (register_peer i s), [], [])"
| "step e (PrepareCancel u) s = (snd (prepare_cancel_by_upstream u s), [], [])"
| "step e (Claim i) s = (let (b, s', out) = claim_for_write (now_at e) i s in (s', out, claimed_chan b i s))"
| "step e (MarkSent i) s = (mark_sent i s, [], [])"
| "step e (Route v) s = (let (_, s', out) = route (parse_id e) (alive_rx e) v s in (s', out, []))"
| "step e (Remove i) s = (snd (remove_request i s), [], [])"
| "step e (RetireOnTimeout i) s = (snd (retire_on_timeout i s), [], [])"
| "step e (CancelPeer i) s = (snd (cancel_peer i s), [], [])"
| "step e (ExpirePeerCancel i budget) s =
     (let (_, s', out) = expire_peer_cancel (alive_rx e) (now_at e) i budget s in (s', out, []))"
| "step e (TakeFailure i) s = (snd (take_failure i s), [], [])"
| "step e (FailRequest i reason) s = (let (_, s', out) = fail_request (alive_rx e) i reason s in (s', out, []))"
| "step e (FailAll msg) s = (let (s', out) = fail_all (alive_rx e) msg s in (s', out, []))"
| "step e (FailAllIfAwaiting epoch msg) s =
     (let (_, s', out) = fail_all_if_awaiting_downstream (alive_rx e) epoch msg s in (s', out, []))"

lemma step_keeps:
  assumes "router_ok s" "step e op s = (s', out, cl)"
  shows "keeps s s' (map fst out)"
proof (cases op)
  case (Register i u)
  then show ?thesis
    using assms register_mode_keeps [OF assms(1)] by (auto simp: register_with_upstream_liveness_def)
next
  case (TakeFailure i)
  then show ?thesis
    using assms failure_keeps [OF assms(1)] by (auto simp: take_failure_def drop_failure_def)
qed (use assms in \<open>auto split: prod.splits
      intro: register_peer_keeps prepare_cancel_keeps claim_keeps mark_sent_keeps route_keeps remove_keeps
        retire_on_timeout_keeps cancel_peer_keeps expire_keeps fail_request_keeps fail_all_keeps
        fail_all_if_keeps\<close>)

section \<open>Histories\<close>

inductive runs :: "router_state \<Rightarrow> 'v sends \<Rightarrow> nat list \<Rightarrow> router_state \<Rightarrow> bool" where
  runs_start: "runs s [] [] s"
| runs_step: "runs s out cl t \<Longrightarrow> step e op t = (u, out', cl') \<Longrightarrow> runs s (out @ out') (cl @ cl') u"

inductive_cases runs_from_nothing: "runs s [] [] t"

lemma runs_ok: "runs s out cl t \<Longrightarrow> router_ok s \<Longrightarrow> router_ok t"
  by (induction rule: runs.induct) (auto simp: keeps_def dest: step_keeps)

text \<open>A channel that can no longer be written: it exists and is not queued.\<close>

definition unwritable :: "nat \<Rightarrow> router_state \<Rightarrow> bool" where
  "unwritable c s \<longleftrightarrow> c < next_chan s \<and>
     (\<forall>i p. (i, p) \<in> set (pending s) \<longrightarrow> response_tx p = c \<longrightarrow> delivery p \<noteq> Queued)"

lemma unwritable_moves: "unwritable c s \<Longrightarrow> keeps s s' out \<Longrightarrow> unwritable c s'"
  unfolding unwritable_def keeps_def moves_def by (metis leD order_less_le_trans)

lemma same_waiter:
  assumes "router_ok s" "(i, p) \<in> set (pending s)" "(j, q) \<in> set (pending s)" "response_tx p = response_tx q"
  shows "i = j \<and> p = q"
proof -
  have "inj_on (\<lambda>(_, p). response_tx p) (set (pending s))"
    using assms(1) by (simp add: router_ok_def table_ok_def waiters_def distinct_map)
  from inj_onD [OF this, of "(i, p)" "(j, q)"] assms(2-4) show ?thesis by simp
qed

lemma step_claims:
  assumes "router_ok s" "step e op s = (s', out, cl)" "c \<in> set cl"
  shows "cl = [c] \<and> unwritable c s' \<and> \<not> unwritable c s"
proof -
  obtain i where op: "op = Claim i" using assms(2,3) by (cases op) (auto split: prod.splits)
  obtain p where p: "get_pending s i = Some p" "delivery p = Queued" "c = response_tx p" "cl = [c]"
    "s' = s\<lparr>pending := AList.map_entry i
        (\<lambda>p. p\<lparr>delivery := Writing, write_claimed_at := Some (now_at e)\<rparr>) (pending s)\<rparr>"
    using assms(2,3)
    by (auto simp: op claim_for_write_def claimed_chan_def split: option.splits request_delivery.splits if_splits)
  have inp: "(i, p) \<in> set (pending s)" using get_pending_in [OF p(1)] .
  have d: "distinct (map fst (pending s))" using assms(1) by (simp add: router_ok_def table_ok_def)
  have "c < next_chan s"
    using assms(1) inp by (auto simp: router_ok_def table_ok_def waiters_def p(3))
  moreover have "delivery q \<noteq> Queued" if "(j, q) \<in> set (pending s')" "response_tx q = c" for j q
  proof -
    from that(1) consider "j \<noteq> i" "(j, q) \<in> set (pending s)" | "delivery q = Writing"
      unfolding p(5) by (auto simp: set_map_entry [OF d])
    then show ?thesis
    proof cases
      case 1
      then show ?thesis using same_waiter [OF assms(1) inp 1(2)] that(2) p(3) by simp
    qed simp
  qed
  ultimately have "unwritable c s'" by (auto simp: unwritable_def p(5))
  moreover have "\<not> unwritable c s" using inp p(2,3) by (auto simp: unwritable_def)
  ultimately show ?thesis using p(4) by simp
qed

lemma runs_unwritable:
  "runs s out cl t \<Longrightarrow> router_ok s \<Longrightarrow> unwritable c s \<Longrightarrow> unwritable c t \<and> c \<notin> set cl"
proof (induction rule: runs.induct)
  case (runs_step s out cl t e op u out' cl')
  then have ok: "router_ok t" "unwritable c t" using runs_ok by auto
  then show ?case
    using runs_step step_claims [OF ok(1) runs_step(2)] step_keeps [OF ok(1) runs_step(2)]
      unwritable_moves by auto
qed simp

lemma runs_claims:
  "runs s out cl t \<Longrightarrow> router_ok s \<Longrightarrow> distinct cl \<and> (\<forall>c\<in>set cl. unwritable c t)"
proof (induction rule: runs.induct)
  case (runs_step s out cl t e op u out' cl')
  then have ok: "router_ok t" "distinct cl" "\<forall>c\<in>set cl. unwritable c t" using runs_ok by auto
  note k = step_keeps [OF ok(1) runs_step(2)]
  have new: "c \<in> set cl' \<Longrightarrow> cl' = [c] \<and> unwritable c u \<and> \<not> unwritable c t" for c
    by (rule step_claims [OF ok(1) runs_step(2)])
  have "distinct cl'"
  proof (cases cl')
    case (Cons c cs)
    then have "cl' = [c]" using new [of c] by simp
    then show ?thesis by simp
  qed simp
  then show ?case using ok new unwritable_moves [OF _ k] by auto
qed simp

lemma runs_replies:
  "runs s out cl t \<Longrightarrow> router_ok s \<Longrightarrow>
    next_chan s \<le> next_chan t \<and> distinct (map fst out) \<and>
    (\<forall>c\<in>set (map fst out). c < next_chan t \<and> c \<notin> set (waiters t))"
proof (induction rule: runs.induct)
  case (runs_step s out cl t e op u out' cl')
  then have ok: "router_ok t" using runs_ok by auto
  note k = step_keeps [OF ok runs_step(2)]
  have IH: "next_chan s \<le> next_chan t" "distinct (map fst out)"
      "\<And>c. c \<in> set (map fst out) \<Longrightarrow> c < next_chan t \<and> c \<notin> set (waiters t)"
    using runs_step by auto
  have le: "next_chan t \<le> next_chan u" using k by (simp add: keeps_def moves_def)
  have out': "distinct (map fst out')" "set (map fst out') \<subseteq> set (waiters t) - set (waiters u)"
    using k by (auto simp: keeps_def moves_def)
  have earlier: "c \<in> set (waiters t) \<or> next_chan t \<le> c" if "c \<in> set (waiters u)" for c
  proof -
    from that obtain i p' where "(i, p') \<in> set (pending u)" "c = response_tx p'"
      by (auto simp: waiters_def)
    then consider "next_chan t \<le> c" | p where "(i, p) \<in> set (pending t)" "response_tx p = c"
      using k unfolding keeps_def moves_def by metis
    then show ?thesis by cases (force simp: waiters_def)+
  qed
  have "\<forall>c\<in>set (waiters t). c < next_chan t" using ok by (simp add: router_ok_def table_ok_def)
  then have "c < next_chan u \<and> c \<notin> set (waiters u)" if "c \<in> set (map fst (out @ out'))" for c
  proof (cases "c \<in> set (map fst out)")
    case True
    then show ?thesis using IH(3) [OF True] le earlier [of c] by auto
  next
    case False
    then have "c \<in> set (map fst out')" using that by auto
    then have "c \<in> set (waiters t)" "c \<notin> set (waiters u)" using out'(2) by blast+
    then show ?thesis using \<open>\<forall>c\<in>set (waiters t). c < next_chan t\<close> le by auto
  qed
  moreover have "distinct (map fst (out @ out'))"
    using IH(2,3) out' by (auto simp: disjoint_iff)
  ultimately show ?case using IH(1) le by auto
qed simp

section \<open>The properties of all histories\<close>

lemma router_new_ok: "router_ok router_new"
  by (simp add: router_ok_def table_ok_def maps_ok_def router_new_def waiters_def cancel_ids_def)

text \<open>after any history the router is consistent: request ids and channels of pending requests
  are distinct, the two cancel maps are inverse to each other, have no empty entry and speak
  only of pending requests, a write in progress has the instant it was claimed, and once
  admission is closed nothing is pending.\<close>

lemma router_always_ok: "runs router_new out cl s \<Longrightarrow> router_ok s"
  using runs_ok router_new_ok by blast

text \<open>C2: no waiter is ever sent two replies, and a waiter that was sent one is not pending.\<close>

theorem at_most_one_reply:
  "runs router_new out cl s \<Longrightarrow> distinct (map fst out) \<and> set (map fst out) \<inter> set (waiters s) = {}"
  using runs_replies router_new_ok by blast

text \<open>the write of a request begins at most once, and when it has begun the request never
  counts as queued again.\<close>

lemma write_begins_once:
  "runs router_new out cl s \<Longrightarrow>
    distinct cl \<and> (\<forall>(i, p)\<in>set (pending s). response_tx p \<in> set cl \<longrightarrow> delivery p \<noteq> Queued)"
  using runs_claims [of router_new out cl s] router_new_ok by (fastforce simp: unwritable_def)

lemma prepare_loop_fields:
  "prepare_cancel_loop ids s = (sent, s') \<Longrightarrow>
    upstream_to_downstream s' = upstream_to_downstream s \<and>
    downstream_to_upstream s' = downstream_to_upstream s \<and> accepting s' = accepting s \<and>
    map fst (pending s') = map fst (pending s)"
  by (induction ids s arbitrary: sent s' rule: prepare_cancel_loop.induct)
    (auto simp: router_simps map_fst_map_entry split: option.splits request_delivery.splits prod.splits)

lemma prepare_loop_get:
  "prepare_cancel_loop ids s = (sent, s') \<Longrightarrow>
    get_pending s' i = (if i \<in> set ids
      then map_option (\<lambda>p. if delivery p = Queued then p\<lparr>delivery := CancelledQueued\<rparr> else p) (get_pending s i)
      else get_pending s i)"
proof (induction ids s arbitrary: sent s' rule: prepare_cancel_loop.induct)
  case (2 j ids s)
  show ?case
  proof (cases "get_pending s j")
    case (Some p)
    then show ?thesis
      using 2 by (cases "delivery p") (auto simp: router_simps option.map_comp o_def split: prod.splits
          intro!: option.map_cong split: if_splits)
  qed (use 2 in \<open>auto split: option.splits\<close>)
qed simp

lemma prepare_loop_sent:
  "distinct ids \<Longrightarrow> prepare_cancel_loop ids s = (sent, s') \<Longrightarrow>
    sent = filter (\<lambda>i. \<exists>p. get_pending s i = Some p \<and> delivery p \<in> {Writing, Sent}) ids"
proof (induction ids s arbitrary: sent s' rule: prepare_cancel_loop.induct)
  case (2 j ids s)
  have other: "get_pending (set_delivery j CancelledQueued s) i = get_pending s i" if "i \<in> set ids" for i
    using "2.prems"(1) that by (auto simp: router_simps)
  show ?case
  proof (cases "get_pending s j")
    case (Some p)
    then show ?thesis
      using 2 other by (cases "delivery p") (auto split: prod.splits cong: filter_cong)
  qed (use 2 in \<open>auto split: option.splits\<close>)
qed simp

text \<open>cancelling an upstream request returns, in registration order, exactly those of its
  downstream requests whose write has begun and that nobody cancelled; the queued ones are
  marked, the maps and every other request stay as they were.\<close>

lemma prepare_cancel_correct:
  assumes "maps_ok s" "prepare_cancel_by_upstream u s = ((known, sent), s')"
  shows "known = (cancel_ids s u \<noteq> []) \<and>
    sent = filter (\<lambda>i. \<exists>p. get_pending s i = Some p \<and> delivery p \<in> {Writing, Sent}) (cancel_ids s u) \<and>
    (\<forall>i. get_pending s' i = (if i \<in> set (cancel_ids s u)
      then map_option (\<lambda>p. if delivery p = Queued then p\<lparr>delivery := CancelledQueued\<rparr> else p) (get_pending s i)
      else get_pending s i)) \<and>
    upstream_to_downstream s' = upstream_to_downstream s"
proof (cases "upstream_to_downstream s u")
  case None
  then show ?thesis using assms(2) by (simp add: prepare_cancel_by_upstream_def cancel_ids_def)
next
  case (Some ids)
  then have ids: "ids = cancel_ids s u" "ids \<noteq> []" "distinct ids"
    using assms(1) by (auto simp: maps_ok_def cancel_ids_def)
  have loop: "prepare_cancel_loop ids s = (sent, s')" "known"
    using assms(2) Some by (auto simp: prepare_cancel_by_upstream_def split: prod.splits)
  show ?thesis
    using loop ids prepare_loop_sent [OF ids(3) loop(1)] prepare_loop_get [OF loop(1)]
      prepare_loop_fields [OF loop(1)] by auto
qed

text \<open>C9: a request cancelled while queued is never written: whatever happens after its upstream
  request was cancelled, no claim of it is granted.\<close>

theorem cancelled_before_write_is_never_written:
  assumes "runs router_new out cl s" "prepare_cancel_by_upstream u s = (r, s')"
    and "i \<in> set (cancel_ids s u)" "get_pending s i = Some p" "delivery p = Queued"
    and "runs s' out' cl' t"
  shows "response_tx p \<notin> set cl'"
proof -
  have ok: "router_ok s" using assms(1) runs_ok router_new_ok by blast
  have k: "keeps s s' []" using prepare_cancel_keeps [OF ok, of u] assms(2) by simp
  then have ok': "router_ok s'" by (simp add: keeps_def)
  have inp: "(i, p) \<in> set (pending s)" using get_pending_in [OF assms(4)] .
  obtain ids where ids: "upstream_to_downstream s u = Some ids" "i \<in> set ids"
    using assms(3) by (cases "upstream_to_downstream s u") (auto simp: cancel_ids_def)
  have "snd (prepare_cancel_loop ids s) = s'"
    using assms(2) ids(1) by (auto simp: prepare_cancel_by_upstream_def split: prod.splits)
  then have now: "get_pending s' i = Some (p\<lparr>delivery := CancelledQueued\<rparr>)"
    using prepare_loop_get [of ids s "fst (prepare_cancel_loop ids s)" s' i] assms(4,5) ids(2)
    by (simp add: prod_eq_iff)
  have "unwritable (response_tx p) s'"
    unfolding unwritable_def
  proof (intro conjI allI impI)
    show "response_tx p < next_chan s'"
      using ok' get_pending_in [OF now] by (force simp: router_ok_def table_ok_def waiters_def)
    fix j q assume q: "(j, q) \<in> set (pending s')" "response_tx q = response_tx p"
    then have "q = p\<lparr>delivery := CancelledQueued\<rparr>"
      using same_waiter [OF ok' get_pending_in [OF now] q(1)] by simp
    then show "delivery q \<noteq> Queued" by simp
  qed
  then show ?thesis using runs_unwritable [OF assms(6) ok'] by blast
qed

section \<open>Routing and failing\<close>

text \<open>a response settles exactly the request whose id it carries: its waiter gets it, its entry
  and its cancel mapping disappear, and every other request, also a sibling under the same
  upstream request, keeps its entry and its place in the cancel maps.\<close>

lemma route_correct:
  assumes "router_ok s" "parse v = Some i" "route parse alive v s = (r, s', out)"
  shows "(case get_pending s i of
        None \<Rightarrow> r = NotFound \<and> out = []
      | Some p \<Rightarrow> r = (if alive (response_tx p) then Delivered else ReceiverDropped) \<and>
                  out = [(response_tx p, Routed v)]) \<and>
    (\<forall>j. get_pending s' j = (if j = i then None else get_pending s j)) \<and>
    (\<forall>u. cancel_ids s' u = filter (\<lambda>j. j \<noteq> i) (cancel_ids s u))"
proof -
  have s': "s' = remove_cancel_mapping_inner i (drop_pending i s)"
    using assms(2,3) by (auto simp: route_def Let_def split: option.splits)
  have "get_pending s' j = (if j = i then None else get_pending s j)" for j
    using get_pending_drop [of i s j] by (auto simp: s' get_pending_def router_simps)
  moreover have "cancel_ids s' u = filter (\<lambda>j. j \<noteq> i) (cancel_ids s u)" for u
  proof -
    have "cancel_ids s' u = cancel_ids (remove_cancel_mapping_inner i s) u"
      by (simp add: s' cancel_ids_def remove_cancel_mapping_inner_def drop_pending_def Let_def split: option.split)
    then show ?thesis using assms(1) by (simp add: cancel_ids_filter router_ok_def)
  qed
  ultimately show ?thesis
    using assms(2,3) by (auto simp: route_def Let_def split: option.splits)
qed

text \<open>What a drained request leaves among the recorded failures.\<close>

definition failure_left ::
    "(nat \<Rightarrow> bool) \<Rightarrow> (request_id \<Rightarrow> bridge_failure) \<Rightarrow> router_state \<Rightarrow> request_id \<Rightarrow> bridge_failure option" where
  "failure_left alive f s i =
     (case get_pending s i of
        None \<Rightarrow> failures s i
      | Some p \<Rightarrow> if \<not> alive (response_tx p) then None
                  else if track_failure p then Some (f i) else failures s i)"

definition drain_reply :: "(request_id \<Rightarrow> int \<times> string) \<Rightarrow> request_id \<times> pending_request \<Rightarrow> nat \<times> 'v reply" where
  "drain_reply err = (\<lambda>(i, p). (response_tx p,
     if delivery p = CancelledQueued
     then Bridge_Error i (- 32800) ''bridge: request cancelled before downstream write''
     else Bridge_Error i (fst (err i)) (snd (err i))))"

lemma fail_entries_Cons:
  "fail_entries alive err (x # es) s =
     (let r = fail_entries alive err es (if alive (response_tx (snd x)) then s else drop_failure (fst x) s)
      in (fst r, drain_reply err x # snd r))"
  by (cases x; cases "delivery (snd x) = CancelledQueued"; cases "err (fst x)")
    (simp_all add: drain_reply_def Let_def split: prod.split)

lemma fail_entries_out: "snd (fail_entries alive err es s) = map (drain_reply err) es"
  by (induction es arbitrary: s) (simp_all add: fail_entries_Cons Let_def del: fail_entries.simps(2))

lemma fail_entries_failures:
  "failures (fst (fail_entries alive err es s)) i =
     (if \<exists>p. (i, p) \<in> set es \<and> \<not> alive (response_tx p) then None else failures s i)"
proof (induction es arbitrary: s)
  case (Cons x es)
  then show ?case
    by (cases x) (auto simp: fail_entries_Cons Let_def drop_failure_def simp del: fail_entries.simps(2))
qed simp

lemma fold_failures:
  "distinct (map fst es) \<Longrightarrow>
    fold (\<lambda>(i, p) m. if track_failure p then m(i \<mapsto> f i) else m) es m i =
      (case map_of es i of Some p \<Rightarrow> if track_failure p then Some (f i) else m i | None \<Rightarrow> m i)"
proof (induction es arbitrary: m)
  case (Cons x es)
  obtain j p where x: "x = (j, p)" by (cases x)
  have "map_of es j = None" using Cons.prems by (simp add: x map_of_eq_None_iff)
  then show ?case using Cons by (auto simp: x split: option.split)
qed simp

lemma drain_result:
  fixes out :: "'v sends"
  assumes "table_ok s" "fail_entries alive err (pending s) (close_and_drain f s) = (s', out)"
  shows "out = map (drain_reply err) (pending s) \<and> \<not> accepting s' \<and> pending s' = [] \<and>
    upstream_to_downstream s' = Map.empty \<and> downstream_to_upstream s' = Map.empty \<and>
    (\<forall>i. failures s' i = failure_left alive f s i)"
proof -
  have d: "distinct (map fst (pending s))" using assms(1) by (simp add: table_ok_def)
  have iff: "(\<exists>p. (i, p) \<in> set (pending s) \<and> \<not> alive (response_tx p)) \<longleftrightarrow>
      (\<exists>p. get_pending s i = Some p \<and> \<not> alive (response_tx p))" for i
    unfolding get_pending_def using d by (metis map_of_SomeD map_of_is_SomeI)
  have "failures s' i = failure_left alive f s i" for i
  proof -
    have "failures (fst (fail_entries alive err (pending s) (close_and_drain f s) :: router_state \<times> 'v sends)) i =
        (if \<exists>p. get_pending s i = Some p \<and> \<not> alive (response_tx p) then None
         else failures (close_and_drain f s) i)"
      unfolding fail_entries_failures iff ..
    then have "failures s' i = (if \<exists>p. get_pending s i = Some p \<and> \<not> alive (response_tx p) then None
        else failures (close_and_drain f s) i)"
      by (simp only: assms(2) fst_conv)
    moreover have "failures (close_and_drain f s) i = (case get_pending s i of
        Some p \<Rightarrow> if track_failure p then Some (f i) else failures s i | None \<Rightarrow> failures s i)"
      by (simp add: close_and_drain_def fold_failures [OF d] get_pending_def)
    ultimately show ?thesis by (auto simp: failure_left_def split: option.splits)
  qed
  moreover have "snd (fail_entries alive err (pending s) (close_and_drain f s) :: router_state \<times> 'v sends) =
      map (drain_reply err) (pending s)"
    by (rule fail_entries_out)
  ultimately show ?thesis
    using fail_entries_fields [OF assms(2)] by (simp add: assms(2) router_simps)
qed

text \<open>failing a connection answers every pending request exactly once, with a cancellation error
  if it was cancelled before its write and with the connection's error otherwise, empties the
  router, closes admission, and records a failure for the tracked requests that still have
  a waiter and for no other.\<close>

lemma fail_all_correct:
  assumes "table_ok s" "fail_all alive msg s = (s', out)"
  shows "out = map (drain_reply (\<lambda>_. (- 32603, msg))) (pending s) \<and>
    \<not> accepting s' \<and> pending s' = [] \<and>
    upstream_to_downstream s' = Map.empty \<and> downstream_to_upstream s' = Map.empty \<and>
    (\<forall>i. failures s' i = failure_left alive (\<lambda>_. ConnectionLost) s i)"
  by (rule drain_result [OF assms(1)]) (use assms(2) in \<open>simp add: fail_all_def\<close>)

text \<open>expiring a cancelled peer request faults the connection only when its write has been in
  progress for the full budget since it was claimed; then every pending request is answered,
  the expired one with the time-out, and admission closes. A write younger than that is
  left alone, and a completed one only retires its own entry.\<close>

lemma expire_peer_cancel_correct:
  assumes "router_ok s" "get_pending s i = Some p"
    and "expire_peer_cancel alive now i budget s = (r, s', out)"
  shows "case delivery p of
      CancelledWriting \<Rightarrow>
        (if now < the (write_claimed_at p) + budget
         then r = WriteInProgress (the (write_claimed_at p) + budget) \<and> s' = s \<and> out = []
         else r = Wedged \<and> \<not> accepting s' \<and> pending s' = [] \<and>
              map fst out = waiters s \<and>
              (\<forall>j. failures s' j =
                failure_left alive (\<lambda>j. if j = i then RequestTimeout else ConnectionLost) s j))
    | CancelledSent \<Rightarrow>
        r = Settled \<and> accepting s' = accepting s \<and> out = [] \<and>
        (\<forall>j. get_pending s' j = (if j = i then None else get_pending s j))
    | _ \<Rightarrow> r = Settled \<and> s' = s \<and> out = []"
proof (cases "delivery p")
  case CancelledWriting
  have "(i, p) \<in> set (pending s)" by (rule get_pending_in [OF assms(2)])
  then obtain at where at: "write_claimed_at p = Some at"
    using assms(1) CancelledWriting by (fastforce simp: router_ok_def table_ok_def)
  have tab: "table_ok s" using assms(1) by (simp add: router_ok_def)
  show ?thesis
  proof (cases "now < at + budget")
    case False
    then have drained: "r = Wedged" "fail_entries alive
        (\<lambda>j. (- 32603, if j = i then ''bridge: cancelled peer write timed out''
                       else ''bridge: connection failed after peer write timeout''))
        (pending s) (close_and_drain (\<lambda>j. if j = i then RequestTimeout else ConnectionLost) s) = (s', out)"
      using assms(2,3) at CancelledWriting by (auto simp: expire_peer_cancel_def Let_def split: prod.splits)
    then show ?thesis
      using drain_result [OF tab drained(2)] fail_entries_fields [OF drained(2)] drained(1) False at CancelledWriting
      by (simp add: waiters_def)
  qed (use assms(2,3) at CancelledWriting in \<open>auto simp: expire_peer_cancel_def Let_def\<close>)
next
  case CancelledSent
  have "get_pending (remove_cancel_mapping_inner i (drop_failure i (drop_pending i s))) j =
      (if j = i then None else get_pending s j)" for j
    using get_pending_drop [of i s j] by (auto simp: get_pending_def router_simps)
  then show ?thesis
    using assms(2,3) CancelledSent by (auto simp: expire_peer_cancel_def Let_def router_simps)
qed (use assms(2,3) in \<open>auto simp: expire_peer_cancel_def Let_def\<close>)

section \<open>Admission and liveness\<close>

lemma register_mode_gate:
  "accepting (snd (register_with_upstream_liveness_mode i u track settled s)) = accepting s"
  by (auto simp: register_with_upstream_liveness_mode_def oneshot_channel_def Let_def split: option.split)

lemma prepare_gate: "accepting (snd (prepare_cancel_loop ids s)) = accepting s"
  using prepare_loop_fields [of ids s] by (cases "prepare_cancel_loop ids s") simp

lemma step_gate:
  assumes "step e op s = (s', out, cl)" "\<not> accepting s"
  shows "\<not> accepting s'"
proof (cases op)
  case (PrepareCancel u)
  then show ?thesis
    using assms prepare_gate [of _ s]
    by (auto simp: prepare_cancel_by_upstream_def split: option.splits prod.splits) (metis snd_conv)
next
  case (Claim i)
  then show ?thesis
    using assms by (auto simp: claim_for_write_def router_simps split: option.splits request_delivery.splits)
next
  case (ExpirePeerCancel i budget)
  then show ?thesis
    using assms
    by (auto simp: expire_peer_cancel_def Let_def router_simps dest!: fail_entries_fields
        split: option.splits request_delivery.splits prod.splits if_splits)
next
  case (FailRequest i reason)
  then show ?thesis
    using assms by (auto simp: fail_request_def Let_def router_simps split: option.splits if_splits)
next
  case (RegisterPeer i)
  then show ?thesis
    using assms register_mode_gate [of i None True _ "snd (oneshot_channel s)"]
    by (auto simp: register_peer_def oneshot_channel_def split: prod.splits) (metis snd_conv)
qed (use assms in \<open>auto simp: register_with_upstream_liveness_def register_mode_gate mark_sent_def route_def
      remove_request_def retire_on_timeout_def cancel_peer_def take_failure_def fail_all_def
      fail_all_if_awaiting_downstream_def Let_def router_simps dest!: fail_entries_fields
      split: option.splits request_delivery.splits prod.splits if_splits\<close>)

lemma runs_gate: "runs s out cl t \<Longrightarrow> \<not> accepting s \<Longrightarrow> \<not> accepting t"
  by (induction rule: runs.induct) (auto dest: step_gate)

text \<open>a closed router stays closed: whatever happens later, nothing is pending and every
  registration is refused.\<close>

lemma closed_for_good:
  assumes "runs router_new out cl s" "\<not> accepting s" "runs s out' cl' t"
  shows "pending t = [] \<and> fst (register_with_upstream_liveness i u t) = Inl Closed"
proof -
  have "router_ok t" by (rule runs_ok [OF assms(3) runs_ok [OF assms(1) router_new_ok]])
  moreover have "\<not> accepting t" by (rule runs_gate [OF assms(3,2)])
  ultimately show ?thesis
    by (simp add: router_ok_def table_ok_def register_with_upstream_liveness_def
        register_with_upstream_liveness_mode_def oneshot_channel_def)
qed

text \<open>a registration that is accepted adds one request to those that can make progress, and it
  starts a new liveness epoch exactly when there was none before; the epoch it reports is the
  one a timer must present to fail the connection.\<close>

lemma registration_starts_epoch:
  assumes "register_with_upstream_liveness i u s = (Inr (rx, epoch), s')"
  shows "awaiting_downstream_count s' = awaiting_downstream_count s + 1 \<and>
    epoch = (if awaiting_downstream_count s = 0 then Some (liveness_epoch s + 1) else None) \<and>
    liveness_epoch s' = (if awaiting_downstream_count s = 0 then liveness_epoch s + 1 else liveness_epoch s) \<and>
    fst (fail_all_if_awaiting_downstream alive (liveness_epoch s') msg s') =
      Failed (awaiting_downstream_count s')"
proof -
  have idle: "list_all (\<lambda>(_, p). delivery p = CancelledQueued) xs \<longleftrightarrow>
      length (filter (\<lambda>(_, p). delivery p \<noteq> CancelledQueued) xs) = 0"
    for xs :: "(request_id \<times> pending_request) list"
    by (induction xs) auto
  show ?thesis
    using assms unfolding register_with_upstream_liveness_def register_with_upstream_liveness_mode_def
    by (auto simp: oneshot_channel_def Let_def awaiting_downstream_count_def idle
        fail_all_if_awaiting_downstream_def split: option.splits if_splits prod.splits)
qed

section \<open>Concrete histories\<close>

fun run_ops :: "'v env \<Rightarrow> 'v router_op list \<Rightarrow> router_state \<Rightarrow> router_state \<times> 'v sends \<times> nat list" where
  "run_ops e [] s = (s, [], [])"
| "run_ops e (op # ops) s =
     (let (t, out, cl) = step e op s; (u, out', cl') = run_ops e ops t in (u, out @ out', cl @ cl'))"

lemma runs_prepend:
  "runs t out' cl' u \<Longrightarrow> step e op s = (t, out, cl) \<Longrightarrow> runs s (out @ out') (cl @ cl') u"
proof (induction rule: runs.induct)
  case (runs_start t)
  then show ?case using runs_step [OF runs.runs_start runs_start] by simp
next
  case (runs_step t out1 cl1 u' e' op' u out2 cl2)
  from runs.runs_step [OF runs_step(3) [OF runs_step(4)] runs_step(2)] show ?case by simp
qed

lemma runs_run_ops: "run_ops e ops s = (t, out, cl) \<Longrightarrow> runs s out cl t"
proof (induction ops arbitrary: s out cl)
  case Nil
  then show ?case by (simp add: runs_start)
next
  case (Cons op ops)
  then show ?case by (auto simp: Let_def split: prod.splits intro: runs_prepend)
qed

definition sample_env :: "nat env" where
  "sample_env = \<lparr>now_at = 5, alive_rx = (\<lambda>_. True), parse_id = (\<lambda>n. Some (int n))\<rparr>"

definition after_ops :: "nat router_op list \<Rightarrow> router_state" where
  "after_ops ops = fst (run_ops sample_env ops router_new)"

definition replies_of :: "nat router_op list \<Rightarrow> nat sends" where
  "replies_of ops = fst (snd (run_ops sample_env ops router_new))"

definition claims_of :: "nat router_op list \<Rightarrow> nat list" where
  "claims_of ops = snd (snd (run_ops sample_env ops router_new))"

lemma runs_after_ops: "runs router_new (replies_of ops) (claims_of ops) (after_ops ops)"
  by (rule runs_run_ops) (simp add: after_ops_def replies_of_def claims_of_def)

theorem at_most_one_reply_witness:
  "replies_of [Register 7 None, Register 8 None, Route 8, FailAll ''lost''] =
     [(1, Routed 8), (0, Bridge_Error 7 (- 32603) ''lost'')] \<and>
   distinct (map fst (replies_of [Register 7 None, Register 8 None, Route 8, FailAll ''lost'']))"
  using at_most_one_reply [OF runs_after_ops [of "[Register 7 None, Register 8 None, Route 8, FailAll ''lost'']"]]
  by (simp add: replies_of_def router_new_def sample_env_def) code_simp

lemma after_ops_ok: "router_ok (after_ops ops)"
  by (rule runs_ok [OF runs_after_ops router_new_ok])

definition two_siblings :: "nat router_op list" where
  "two_siblings = [Register 7 (Some (Upstream_Number 1)), Register 9 (Some (Upstream_Number 1)), Claim 9]"

lemma two_siblings_pending:
  "pending (after_ops two_siblings) =
     [(9, \<lparr>response_tx = 1, settled_tx = None, delivery = Writing, write_claimed_at = Some 5, track_failure = False\<rparr>),
      (7, \<lparr>response_tx = 0, settled_tx = None, delivery = Queued, write_claimed_at = None, track_failure = False\<rparr>)]"
  by (simp add: after_ops_def two_siblings_def router_new_def sample_env_def
      register_with_upstream_liveness_def register_with_upstream_liveness_mode_def oneshot_channel_def
      get_pending_def claim_for_write_def Let_def)

lemma two_siblings_ids:
  "cancel_ids (after_ops two_siblings) (Upstream_Number 1) = [7, 9]"
  "get_pending (after_ops two_siblings) 7 = Some
     \<lparr>response_tx = 0, settled_tx = None, delivery = Queued, write_claimed_at = None, track_failure = False\<rparr>"
  "get_pending (after_ops two_siblings) 9 = Some
     \<lparr>response_tx = 1, settled_tx = None, delivery = Writing, write_claimed_at = Some 5, track_failure = False\<rparr>"
  by (simp_all add: after_ops_def two_siblings_def router_new_def sample_env_def cancel_ids_def
      register_with_upstream_liveness_def register_with_upstream_liveness_mode_def oneshot_channel_def
      get_pending_def claim_for_write_def Let_def)

theorem cancelled_before_write_is_never_written_witness:
  "0 \<notin> set (snd (snd (run_ops sample_env [Claim 7, Register 7 None, Claim 7]
      (snd (prepare_cancel_by_upstream (Upstream_Number 1) (after_ops two_siblings))))))"
proof -
  obtain r s' where eq: "prepare_cancel_by_upstream (Upstream_Number 1) (after_ops two_siblings) = (r, s')"
    by (cases "prepare_cancel_by_upstream (Upstream_Number 1) (after_ops two_siblings)")
  obtain t out cl where run: "run_ops sample_env [Claim 7, Register 7 None, Claim 7] s' = (t, out, cl)"
    by (metis prod.collapse)
  show ?thesis
    using cancelled_before_write_is_never_written
      [OF runs_after_ops eq _ two_siblings_ids(2) _ runs_run_ops [OF run]] run eq
    by (simp add: two_siblings_ids)
qed

end
