(* ===== verification/Node_Edits.thy ===== *)
theory Node_Edits
  imports Prelude
begin

text \<open>
  Positions of tracked nodes and how an edit moves them: \<open>PositionKey\<close>, \<open>EditInfo\<close>,
  \<open>apply_delta\<close>, \<open>adjust_position_for_edit\<close>, \<open>should_invalidate_node\<close> and
  \<open>apply_input_edits\<close>'s guard in \<open>src/src/language/node_tracker.rs\<close>. Byte positions are
  natural numbers below \<open>2 ^ 63\<close>, so the casts to \<open>i64\<close> are exact.
\<close>

record position_key =
  start_byte :: nat
  end_byte :: nat
  kind :: string
  layer :: nat

record edit_info =
  e_start :: nat
  e_old_end :: nat
  e_new_end :: nat

definition with_positions :: "position_key \<Rightarrow> nat \<Rightarrow> nat \<Rightarrow> position_key" where
  "with_positions k s e = k\<lparr>start_byte := s, end_byte := e\<rparr>"

definition edit_delta :: "edit_info \<Rightarrow> int" where
  "edit_delta e = int (e_new_end e) - int (e_old_end e)"

definition is_insertion_only :: "edit_info \<Rightarrow> bool" where
  "is_insertion_only e \<longleftrightarrow> e_start e = e_old_end e"

definition i64_max :: int where
  "i64_max = 2 ^ 63 - 1"

definition apply_delta :: "nat \<Rightarrow> int \<Rightarrow> nat" where
  "apply_delta position d = nat (max (min (int position + d) i64_max) 0)"

definition adjust_position_for_edit :: "position_key \<Rightarrow> edit_info \<Rightarrow> int \<Rightarrow> position_key option" where
  "adjust_position_for_edit k e d =
     (if e_old_end e \<le> start_byte k
      then Some (with_positions k (apply_delta (start_byte k) d) (apply_delta (end_byte k) d))
      else if e_start e < end_byte k
      then let new_end = (if end_byte k \<le> e_old_end e then e_new_end e else apply_delta (end_byte k) d)
           in if new_end \<le> start_byte k then None else Some (with_positions k (start_byte k) new_end)
      else Some k)"

definition should_invalidate_node :: "position_key \<Rightarrow> edit_info \<Rightarrow> bool" where
  "should_invalidate_node k e \<longleftrightarrow>
     (if is_insertion_only e then start_byte k = e_start e
      else e_start e \<le> start_byte k \<and> start_byte k < e_old_end e)"

lemma with_positions_simps [simp]:
  "start_byte (with_positions k s e) = s" "end_byte (with_positions k s e) = e"
  "kind (with_positions k s e) = kind k" "layer (with_positions k s e) = layer k"
  "with_positions k (start_byte k) (end_byte k) = k"
  by (simp_all add: with_positions_def)

lemma adjust_keeps:
  "adjust_position_for_edit k e d = Some k' \<Longrightarrow> kind k' = kind k \<and> layer k' = layer k"
  by (auto simp: adjust_position_for_edit_def Let_def split: if_splits)

section \<open>What the edit does to the text\<close>

definition sub_text :: "'a list \<Rightarrow> nat \<Rightarrow> nat \<Rightarrow> 'a list" where
  "sub_text xs a b = drop a (take b xs)"

definition edit_text :: "'a list \<Rightarrow> edit_info \<Rightarrow> 'a list \<Rightarrow> 'a list" where
  "edit_text xs e ins = take (e_start e) xs @ ins @ drop (e_old_end e) xs"

definition edit_fits :: "'a list \<Rightarrow> edit_info \<Rightarrow> 'a list \<Rightarrow> bool" where
  "edit_fits xs e ins \<longleftrightarrow> e_start e \<le> e_old_end e \<and> e_old_end e \<le> length xs \<and>
     e_new_end e = e_start e + length ins \<and> int (length xs + length ins) \<le> i64_max"

definition key_fits :: "'a list \<Rightarrow> position_key \<Rightarrow> bool" where
  "key_fits xs k \<longleftrightarrow> start_byte k \<le> end_byte k \<and> end_byte k \<le> length xs"

text \<open>A node's text after the edit: its own, with the part inside the edit replaced.\<close>

definition edited_node :: "'a list \<Rightarrow> edit_info \<Rightarrow> 'a list \<Rightarrow> position_key \<Rightarrow> 'a list" where
  "edited_node xs e ins k =
     (if e_old_end e \<le> start_byte k \<or> end_byte k \<le> e_start e then sub_text xs (start_byte k) (end_byte k)
      else sub_text xs (start_byte k) (e_start e) @ ins @ sub_text xs (e_old_end e) (end_byte k))"

lemma sub_text_edit_before:
  "b \<le> e_start e \<Longrightarrow> e_start e \<le> length xs \<Longrightarrow> sub_text (edit_text xs e ins) a b = sub_text xs a b"
  by (simp add: sub_text_def edit_text_def min_def)

lemma sub_text_edit_inside:
  "e_start e \<le> length xs \<Longrightarrow> sub_text (edit_text xs e ins) (e_start e) (e_start e + length ins) = ins"
  by (simp add: sub_text_def edit_text_def)

lemma sub_text_edit_after:
  "e_start e \<le> length xs \<Longrightarrow>
    sub_text (edit_text xs e ins) (e_start e + length ins + a) (e_start e + length ins + b) =
    sub_text xs (e_old_end e + a) (e_old_end e + b)"
  by (simp add: sub_text_def edit_text_def add.commute take_drop)

lemma sub_text_split:
  assumes "a \<le> m" "m \<le> b"
  shows "sub_text xs a b = sub_text xs a m @ sub_text xs m b"
proof -
  have "take b xs = take m xs @ drop m (take b xs)"
    using append_take_drop_id [of m "take b xs"] assms(2) by (simp add: min_def)
  then have "sub_text xs a b = drop a (take m xs @ drop m (take b xs))" by (simp add: sub_text_def)
  then show ?thesis using assms(1) by (cases "m \<le> length xs") (simp_all add: sub_text_def)
qed

lemma sub_text_empty [simp]: "b \<le> a \<Longrightarrow> sub_text xs a b = []"
  by (simp add: sub_text_def)

lemma apply_delta_exact:
  assumes "edit_fits xs e ins" "e_old_end e \<le> p" "p \<le> length xs"
  shows "apply_delta p (edit_delta e) = e_start e + length ins + (p - e_old_end e)"
  using assms by (auto simp: apply_delta_def edit_delta_def edit_fits_def max_def min_def)

text \<open>a node that an edit does not invalidate stays tracked over exactly its own text with the
  edited part replaced: a node beside the edit keeps its bytes, a node around the edit gets the
  inserted ones, and the collapsed-range guard never fires for it.\<close>

lemma adjust_position_correct:
  assumes "edit_fits xs e ins" "key_fits xs k" "\<not> should_invalidate_node k e"
  shows "\<exists>k'. adjust_position_for_edit k e (edit_delta e) = Some k' \<and>
    key_fits (edit_text xs e ins) k' \<and> kind k' = kind k \<and> layer k' = layer k \<and>
    sub_text (edit_text xs e ins) (start_byte k') (end_byte k') = edited_node xs e ins k"
proof -
  define n where "n = e_start e + length ins"
  let ?ys = "edit_text xs e ins" and ?s = "start_byte k" and ?t = "end_byte k"
  have fits: "e_start e \<le> e_old_end e" "e_old_end e \<le> length xs" "e_new_end e = n"
    using assms(1) by (simp_all add: edit_fits_def n_def)
  have key: "?s \<le> ?t" "?t \<le> length xs" using assms(2) by (simp_all add: key_fits_def)
  have len: "length ?ys = n + (length xs - e_old_end e)"
    using fits by (simp add: edit_text_def n_def)
  have moved: "e_old_end e \<le> p \<Longrightarrow> p \<le> length xs \<Longrightarrow> apply_delta p (edit_delta e) = n + (p - e_old_end e)" for p
    using apply_delta_exact [OF assms(1)] by (simp add: n_def)
  have tail: "sub_text ?ys (n + a) (n + b) = sub_text xs (e_old_end e + a) (e_old_end e + b)" for a b
    using sub_text_edit_after [of e xs ins a b] fits by (simp add: n_def)
  consider "e_old_end e \<le> ?s" | "?s < e_old_end e" "?t \<le> e_start e"
    | "?s < e_old_end e" "e_start e < ?t" by linarith
  then show ?thesis
  proof cases
    case 1
    then show ?thesis
      using key len tail [of "?s - e_old_end e" "?t - e_old_end e"]
      by (simp add: adjust_position_for_edit_def moved key_fits_def edited_node_def) arith
  next
    case 2
    then show ?thesis
      using key fits(1,2) len sub_text_edit_before [of ?t e xs ins ?s]
      by (auto simp: adjust_position_for_edit_def key_fits_def edited_node_def n_def)
  next
    case 3
    then have before: "?s < e_start e" using assms(3) fits
      by (auto simp: should_invalidate_node_def is_insertion_only_def split: if_splits)
    have front: "sub_text ?ys ?s n = sub_text xs ?s (e_start e) @ ins"
      using sub_text_split [of ?s "e_start e" n ?ys] before fits
        sub_text_edit_before [of "e_start e" e xs ins ?s] sub_text_edit_inside [of e xs ins]
      by (simp add: n_def)
    show ?thesis
    proof (cases "?t \<le> e_old_end e")
      case True
      then show ?thesis
        using 3 before key fits len front
        by (simp add: adjust_position_for_edit_def Let_def key_fits_def edited_node_def n_def)
    next
      case False
      define new_end where "new_end = n + (?t - e_old_end e)"
      have "sub_text ?ys ?s new_end = sub_text ?ys ?s n @ sub_text ?ys n new_end"
        using before by (intro sub_text_split) (simp_all add: n_def new_end_def)
      moreover have "sub_text ?ys n new_end = sub_text xs (e_old_end e) ?t"
        using tail [of 0 "?t - e_old_end e"] False by (simp add: new_end_def)
      ultimately have body: "sub_text ?ys ?s new_end = sub_text xs ?s (e_start e) @ ins @ sub_text xs (e_old_end e) ?t"
        using front by simp
      have "adjust_position_for_edit k e (edit_delta e) = Some (with_positions k ?s new_end)"
        using 3 False before key moved [of ?t]
        by (simp add: adjust_position_for_edit_def Let_def new_end_def n_def)
      moreover have "?s \<le> new_end \<and> new_end \<le> length ?ys"
        using before key len by (simp add: new_end_def n_def)
      ultimately show ?thesis
        using body 3 False fits by (simp add: key_fits_def edited_node_def)
    qed
  qed
qed

definition sample_key :: position_key where
  "sample_key = \<lparr>start_byte = 1, end_byte = 4, kind = ''id'', layer = 0\<rparr>"

definition sample_edit :: edit_info where
  "sample_edit = \<lparr>e_start = 2, e_old_end = 3, e_new_end = 4\<rparr>"

end
