(* ===== verification/Tree_Scopes.thy ===== *)
theory Tree_Scopes
  imports Node_Edits "HOL-Library.AList"
begin

text \<open>
  \<open>src/src/language/node_tracker/tree_scope.rs\<close>: the parse scopes of one document and the
  tokens that name them. \<open>by_token\<close> is an association list with distinct keys, \<open>by_scope\<close>
  its inverse, which keeps the least token where edits made two scopes equal.
\<close>

section \<open>Scopes\<close>

type_synonym byte_ranges = "(nat \<times> nat) list"

record tree_scope =
  language :: string
  depth :: nat
  ranges :: byte_ranges

definition shift_range :: "edit_info \<Rightarrow> nat \<times> nat \<Rightarrow> (nat \<times> nat) option" where
  "shift_range e r =
     (let k = \<lparr>start_byte = fst r, end_byte = snd r, kind = '''', layer = 0\<rparr>
      in if should_invalidate_node k e then None
         else map_option (\<lambda>k'. (start_byte k', end_byte k')) (adjust_position_for_edit k e (edit_delta e)))"

fun collect_options :: "'a option list \<Rightarrow> 'a list option" where
  "collect_options [] = Some []"
| "collect_options (None # xs) = None"
| "collect_options (Some x # xs) = map_option (Cons x) (collect_options xs)"

definition shifted :: "edit_info \<Rightarrow> tree_scope \<Rightarrow> tree_scope option" where
  "shifted e sc = map_option (\<lambda>rs. sc\<lparr>ranges := rs\<rparr>) (collect_options (map (shift_range e) (ranges sc)))"

record unresolved_scope =
  u_language :: "string option"
  u_depth :: nat
  u_ranges :: byte_ranges

fun covered_by :: "byte_ranges \<Rightarrow> nat \<Rightarrow> nat \<Rightarrow> bool" where
  "covered_by [] covered stop = False"
| "covered_by ((left, right) # rs) covered stop =
     (if covered < left then False
      else let covered = max covered right
           in if stop \<le> covered then True else covered_by rs covered stop)"

definition may_contain :: "unresolved_scope \<Rightarrow> tree_scope \<Rightarrow> bool" where
  "may_contain u sc =
     (if depth sc < u_depth u then False
      else if depth sc = u_depth u
      then u_ranges u = ranges sc \<and> (case u_language u of None \<Rightarrow> True | Some l \<Rightarrow> l = language sc)
      else list_all (\<lambda>(s, e). covered_by (u_ranges u) s e) (ranges sc))"

section \<open>Tokens\<close>

definition MAX_INJECTION_DEPTH :: nat where
  "MAX_INJECTION_DEPTH = 10"

definition TREE_SCOPE_BASE :: nat where
  "TREE_SCOPE_BASE = MAX_INJECTION_DEPTH + 1"

definition REGION_IDENTITY_LAYER_BASE :: nat where
  "REGION_IDENTITY_LAYER_BASE = usize_max div 2 + 1"

record tree_scopes =
  by_scope :: "tree_scope \<rightharpoonup> nat"
  by_token :: "(nat \<times> tree_scope) list"
  next_token :: nat
  reconciliation_pending :: bool
  reconciled_query_generation :: "u64 option"

definition scopes_default :: tree_scopes where
  "scopes_default = \<lparr>by_scope = Map.empty, by_token = [], next_token = 0,
     reconciliation_pending = False, reconciled_query_generation = None\<rparr>"

definition scopes_empty :: "tree_scopes \<Rightarrow> bool" where
  "scopes_empty ts \<longleftrightarrow> by_token ts = []"

definition scopes_get :: "tree_scopes \<Rightarrow> tree_scope \<Rightarrow> nat option" where
  "scopes_get ts sc = by_scope ts sc"

definition scope_of :: "tree_scopes \<Rightarrow> nat \<Rightarrow> tree_scope option" where
  "scope_of ts token = map_of (by_token ts) token"

definition scopes_contains :: "tree_scopes \<Rightarrow> nat \<Rightarrow> bool" where
  "scopes_contains ts token \<longleftrightarrow> scope_of ts token \<noteq> None"

fun index_scopes :: "(nat \<times> tree_scope) list \<Rightarrow> (tree_scope \<rightharpoonup> nat) \<Rightarrow> (tree_scope \<rightharpoonup> nat)" where
  "index_scopes [] m = m"
| "index_scopes ((token, sc) # bs) m =
     index_scopes bs (m(sc \<mapsto> (case m sc of None \<Rightarrow> token | Some old \<Rightarrow> min old token)))"

definition reindex :: "tree_scopes \<Rightarrow> tree_scopes" where
  "reindex ts = ts\<lparr>by_scope := index_scopes (by_token ts) Map.empty\<rparr>"

definition scopes_register :: "tree_scope \<Rightarrow> tree_scopes \<Rightarrow> nat option \<times> tree_scopes" where
  "scopes_register sc ts =
     (case scopes_get ts sc of
        Some token \<Rightarrow> (Some token, ts)
      | None \<Rightarrow>
          let token = TREE_SCOPE_BASE + next_token ts
          in if usize_max < token then (None, ts)
             else if REGION_IDENTITY_LAYER_BASE \<le> token then (None, ts)
             else (Some token,
                   ts\<lparr>reconciliation_pending := True, next_token := next_token ts + 1,
                      by_scope := (by_scope ts)(sc \<mapsto> token),
                      by_token := AList.update token sc (by_token ts)\<rparr>))"

fun shift_tokens :: "edit_info \<Rightarrow> (nat \<times> tree_scope) list \<Rightarrow> (nat \<times> tree_scope) list" where
  "shift_tokens e [] = []"
| "shift_tokens e ((token, sc) # bs) =
     (case shifted e sc of
        Some sc' \<Rightarrow> (token, sc') # shift_tokens e bs
      | None \<Rightarrow> shift_tokens e bs)"

definition scopes_shift :: "edit_info \<Rightarrow> tree_scopes \<Rightarrow> tree_scopes" where
  "scopes_shift e ts =
     reindex (ts\<lparr>reconciliation_pending := reconciliation_pending ts \<or> by_token ts \<noteq> [],
                 by_token := shift_tokens e (by_token ts)\<rparr>)"

definition scopes_retain :: "nat list \<Rightarrow> tree_scopes \<Rightarrow> tree_scopes" where
  "scopes_retain live ts =
     reindex (ts\<lparr>by_token := filter (\<lambda>(token, _). token \<in> set live) (by_token ts)\<rparr>)"

definition uncertain :: "tree_scope list \<Rightarrow> unresolved_scope list \<Rightarrow> tree_scope \<Rightarrow> bool" where
  "uncertain current unresolved sc \<longleftrightarrow>
     sc \<notin> set current \<and> list_ex (\<lambda>u. may_contain u sc) unresolved"

definition retire_absent ::
    "tree_scope list \<Rightarrow> unresolved_scope list \<Rightarrow> tree_scopes \<Rightarrow> nat list \<times> tree_scopes" where
  "retire_absent current unresolved ts =
     (let keep = (\<lambda>sc. sc \<in> set current \<or> uncertain current unresolved sc);
          retired = map fst (filter (\<lambda>(_, sc). \<not> keep sc) (by_token ts));
          ts = ts\<lparr>reconciliation_pending := list_ex (\<lambda>(_, sc). uncertain current unresolved sc) (by_token ts),
                  by_token := filter (\<lambda>(_, sc). keep sc) (by_token ts)\<rparr>
      in (retired, if retired \<noteq> [] then reindex ts else ts))"

section \<open>The two directions agree\<close>

text \<open>
  Tokens are distinct, drawn below the counter and inside their part of the layer space; a
  scope is indexed exactly when some token names it, and then by such a token.
\<close>

definition scopes_ok :: "tree_scopes \<Rightarrow> bool" where
  "scopes_ok ts \<longleftrightarrow> distinct (map fst (by_token ts)) \<and>
     (\<forall>(token, sc)\<in>set (by_token ts). TREE_SCOPE_BASE \<le> token \<and> token < TREE_SCOPE_BASE + next_token ts \<and>
        token < REGION_IDENTITY_LAYER_BASE) \<and>
     (\<forall>sc token. by_scope ts sc = Some token \<longrightarrow> (token, sc) \<in> set (by_token ts)) \<and>
     (\<forall>sc token. (token, sc) \<in> set (by_token ts) \<longrightarrow> by_scope ts sc \<noteq> None)"

lemma index_scopes_spec:
  "case index_scopes bs m sc of
     None \<Rightarrow> m sc = None \<and> sc \<notin> snd ` set bs
   | Some token \<Rightarrow> (token, sc) \<in> set bs \<or> m sc = Some token"
proof (induction bs arbitrary: m)
  case (Cons b bs)
  obtain token sc' where b: "b = (token, sc')" by (cases b)
  define v where "v = (case m sc' of None \<Rightarrow> token | Some old \<Rightarrow> min old token)"
  have v: "v = token \<or> m sc' = Some v" by (auto simp: v_def min_def split: option.split)
  define m' where "m' = m(sc' \<mapsto> v)"
  have eq: "index_scopes (b # bs) m = index_scopes bs m'" by (simp add: b v_def m'_def)
  show ?case
  proof (cases "index_scopes bs m' sc")
    case None
    then have "m' sc = None \<and> sc \<notin> snd ` set bs" using Cons.IH [of m'] by simp
    then show ?thesis unfolding eq using None by (auto simp: b m'_def split: if_splits)
  next
    case (Some t)
    then have "(t, sc) \<in> set bs \<or> m' sc = Some t" using Cons.IH [of m'] by simp
    then show ?thesis unfolding eq using Some v by (auto simp: b m'_def split: if_splits)
  qed
qed (simp split: option.split)

lemma reindex_ok:
  assumes "distinct (map fst (by_token ts))"
    and "\<forall>(token, sc)\<in>set (by_token ts). TREE_SCOPE_BASE \<le> token \<and> token < TREE_SCOPE_BASE + next_token ts \<and>
        token < REGION_IDENTITY_LAYER_BASE"
  shows "scopes_ok (reindex ts)"
proof -
  have index: "(\<forall>t. by_scope (reindex ts) sc = Some t \<longrightarrow> (t, sc) \<in> set (by_token ts)) \<and>
      (\<forall>t. (t, sc) \<in> set (by_token ts) \<longrightarrow> by_scope (reindex ts) sc \<noteq> None)" for sc
    using index_scopes_spec [where bs = "by_token ts" and m = Map.empty and sc = sc]
    by (force simp: reindex_def split: option.splits)
  have same: "by_token (reindex ts) = by_token ts" "next_token (reindex ts) = next_token ts"
    by (simp_all add: reindex_def)
  show ?thesis unfolding scopes_ok_def same using assms index by blast
qed

lemma scopes_default_ok: "scopes_ok scopes_default"
  by (simp add: scopes_ok_def scopes_default_def)

lemma scopes_get_token: "scopes_ok ts \<Longrightarrow> scopes_get ts sc = Some token \<Longrightarrow> scope_of ts token = Some sc"
  by (auto simp: scopes_ok_def scopes_get_def scope_of_def)

lemma update_new: "k \<notin> fst ` set al \<Longrightarrow> AList.update k v al = al @ [(k, v)]"
  by (induction al) auto

lemma scopes_register_ok:
  assumes "scopes_ok ts" "scopes_register sc ts = (r, ts')"
  shows "scopes_ok ts'"
proof (cases "scopes_get ts sc = None \<and> TREE_SCOPE_BASE + next_token ts \<le> usize_max \<and>
    TREE_SCOPE_BASE + next_token ts < REGION_IDENTITY_LAYER_BASE")
  case False
  then show ?thesis using assms by (auto simp: scopes_register_def Let_def split: option.splits if_splits)
next
  case True
  define token where "token = TREE_SCOPE_BASE + next_token ts"
  have new: "token \<notin> fst ` set (by_token ts)"
    using assms(1) by (force simp: scopes_ok_def token_def)
  have ts': "ts' = ts\<lparr>reconciliation_pending := True, next_token := next_token ts + 1,
      by_scope := (by_scope ts)(sc \<mapsto> token), by_token := by_token ts @ [(token, sc)]\<rparr>"
    using assms(2) True unfolding scopes_register_def Let_def token_def [symmetric] update_new [OF new]
    by (auto simp flip: token_def)
  have index: "(by_scope ts' sc' = Some t \<longrightarrow> (t, sc') \<in> set (by_token ts')) \<and>
      ((t, sc') \<in> set (by_token ts') \<longrightarrow> by_scope ts' sc' \<noteq> None)" for sc' t
    using assms(1) True unfolding scopes_ok_def ts' by auto
  have "\<forall>(t, sc')\<in>set (by_token ts'). TREE_SCOPE_BASE \<le> t \<and> t < TREE_SCOPE_BASE + next_token ts' \<and>
      t < REGION_IDENTITY_LAYER_BASE"
    using assms(1) True by (force simp: scopes_ok_def ts' token_def)
  moreover have "distinct (map fst (by_token ts'))"
    using assms(1) new by (simp add: scopes_ok_def ts')
  ultimately show ?thesis unfolding scopes_ok_def using index by blast
qed

lemma map_fst_shift: "map fst (shift_tokens e bs) = map fst (filter (\<lambda>(_, sc). shifted e sc \<noteq> None) bs)"
  by (induction bs) (auto split: option.splits)

lemma set_shift_tokens: "fst ` set (shift_tokens e bs) \<subseteq> fst ` set bs"
  using arg_cong [OF map_fst_shift [of e bs], of set] by auto

lemma scopes_shift_ok: "scopes_ok ts \<Longrightarrow> scopes_ok (scopes_shift e ts)"
  unfolding scopes_shift_def
proof (rule reindex_ok)
  assume ok: "scopes_ok ts"
  then have "distinct (map fst (filter (\<lambda>(_, sc). shifted e sc \<noteq> None) (by_token ts)))"
    by (auto simp: scopes_ok_def distinct_map intro: inj_on_subset)
  then show "distinct (map fst (by_token (ts\<lparr>reconciliation_pending := reconciliation_pending ts \<or> by_token ts \<noteq> [],
      by_token := shift_tokens e (by_token ts)\<rparr>)))"
    by (simp add: map_fst_shift)
  show "\<forall>(token, sc)\<in>set (by_token (ts\<lparr>reconciliation_pending := reconciliation_pending ts \<or> by_token ts \<noteq> [],
      by_token := shift_tokens e (by_token ts)\<rparr>)). TREE_SCOPE_BASE \<le> token \<and>
      token < TREE_SCOPE_BASE + next_token (ts\<lparr>reconciliation_pending := reconciliation_pending ts \<or> by_token ts \<noteq> [],
      by_token := shift_tokens e (by_token ts)\<rparr>) \<and> token < REGION_IDENTITY_LAYER_BASE"
    using ok set_shift_tokens [of e "by_token ts"] by (fastforce simp: scopes_ok_def)
qed

lemma scopes_retain_ok: "scopes_ok ts \<Longrightarrow> scopes_ok (scopes_retain live ts)"
  unfolding scopes_retain_def
  by (rule reindex_ok) (auto simp: scopes_ok_def distinct_map intro: inj_on_subset)

lemma retire_absent_ok: "scopes_ok ts \<Longrightarrow> scopes_ok (snd (retire_absent current unresolved ts))"
proof -
  assume ok: "scopes_ok ts"
  define keep where "keep = (\<lambda>sc. sc \<in> set current \<or> uncertain current unresolved sc)"
  define kept where "kept = ts\<lparr>reconciliation_pending := list_ex (\<lambda>(_, sc). uncertain current unresolved sc) (by_token ts),
                  by_token := filter (\<lambda>(_, sc). keep sc) (by_token ts)\<rparr>"
  have eq: "snd (retire_absent current unresolved ts) =
      (if filter (\<lambda>(_, sc). \<not> keep sc) (by_token ts) \<noteq> [] then reindex kept else kept)"
    by (simp add: retire_absent_def keep_def kept_def Let_def)
  have "scopes_ok (reindex kept)"
    using ok by (intro reindex_ok) (auto simp: kept_def scopes_ok_def distinct_map intro: inj_on_subset)
  moreover have "scopes_ok kept" if none: "filter (\<lambda>(_, sc). \<not> keep sc) (by_token ts) = []"
  proof -
    have "filter (\<lambda>(_, sc). keep sc) (by_token ts) = by_token ts"
      using none by (auto simp: filter_empty_conv filter_id_conv)
    then show ?thesis using ok by (simp add: kept_def scopes_ok_def)
  qed
  ultimately show ?thesis by (simp add: eq)
qed

section \<open>Which tokens stay known\<close>

lemma scopes_contains_iff: "scopes_contains ts l \<longleftrightarrow> l \<in> fst ` set (by_token ts)"
  by (simp add: scopes_contains_def scope_of_def map_of_eq_None_iff)

lemma contains_default: "\<not> scopes_contains scopes_default l"
  by (simp add: scopes_contains_iff scopes_default_def)

text \<open>Registration forgets no token, and a token it returns stands for the scope asked for.\<close>

lemma scopes_register_fields:
  assumes "scopes_ok ts" "scopes_register sc ts = (r, ts')"
  shows "(scopes_contains ts l \<longrightarrow> scopes_contains ts' l) \<and>
    (\<forall>token. r = Some token \<longrightarrow> scope_of ts' token = Some sc \<and> scopes_get ts' sc = Some token) \<and>
    (r = None \<longrightarrow> ts' = ts)"
proof -
  have "TREE_SCOPE_BASE + next_token ts \<notin> fst ` set (by_token ts)"
    using assms(1) by (force simp: scopes_ok_def)
  note new = update_new [OF this]
  show ?thesis
  proof (cases "scopes_get ts sc")
    case (Some token)
    then show ?thesis using assms scopes_get_token [OF assms(1)] by (simp add: scopes_register_def)
  next
    case None
    have "map_of (by_token ts) (TREE_SCOPE_BASE + next_token ts) = None"
      using assms(1) by (force simp: scopes_ok_def map_of_eq_None_iff)
    then show ?thesis using assms(2) None
      by (auto simp: scopes_register_def Let_def scopes_contains_iff scopes_get_def scope_of_def new
          map_add_def split: if_splits)
  qed
qed

lemma retire_absent_contains:
  assumes "retire_absent current unresolved ts = (retired, ts')" "scopes_contains ts l" "l \<notin> set retired"
  shows "scopes_contains ts' l"
  using assms by (force simp: retire_absent_def Let_def scopes_contains_iff reindex_def)

end
