(* ===== verification/Node_Index.thy ===== *)
theory Node_Index
  imports Tree_Scopes "HOL-Library.Monad_Syntax"
begin

text \<open>
  \<open>UriEntries\<close> of \<open>src/src/language/node_tracker.rs\<close>: the index of one document, from
  positions to ids and back, with its named layers and parse scopes. Ids come from
  \<open>Ulid::generate\<close>, a dependency: the parameter \<open>gen\<close> gives the id of each draw, and a
  counter says how many were drawn. \<open>forward\<close> is an association list with distinct keys,
  drained in list order (the code leaves the order open).
\<close>

section \<open>State\<close>

record 'u tracked_ulid =
  t_ulid :: 'u
  t_incarnation :: u64

record tracked_position =
  p_key :: position_key
  p_incarnation :: u64

record 'u uri_entries =
  forward :: "(position_key \<times> 'u tracked_ulid) list"
  reverse :: "'u \<rightharpoonup> tracked_position"
  latest_incarnation :: u64
  shift_gen :: u64
  named_layers :: "(nat \<times> (string \<times> nat) list) list"
  next_named_layer :: nat
  free_named_layers :: "nat list"
  doc_scopes :: tree_scopes

definition entries_default :: "'u uri_entries" where
  "entries_default = \<lparr>forward = [], reverse = Map.empty, latest_incarnation = 0, shift_gen = 0,
     named_layers = [], next_named_layer = 0, free_named_layers = [], doc_scopes = scopes_default\<rparr>"

definition entries_len :: "'u uri_entries \<Rightarrow> nat" where
  "entries_len e = length (forward e)"

definition drop_ids :: "'u list \<Rightarrow> ('u \<rightharpoonup> tracked_position) \<Rightarrow> ('u \<rightharpoonup> tracked_position)" where
  "drop_ids us m = (\<lambda>u. if u \<in> set us then None else m u)"

section \<open>Named layers\<close>

definition clear_named :: "'u uri_entries \<Rightarrow> 'u uri_entries" where
  "clear_named e = e\<lparr>named_layers := [], next_named_layer := 0, free_named_layers := []\<rparr>"

definition languages_of :: "'u uri_entries \<Rightarrow> nat \<Rightarrow> (string \<times> nat) list" where
  "languages_of e pattern = (case map_of (named_layers e) pattern of None \<Rightarrow> [] | Some ls \<Rightarrow> ls)"

definition named_layer :: "nat \<Rightarrow> string \<Rightarrow> u64 \<Rightarrow> 'u uri_entries \<Rightarrow> nat option \<times> 'u uri_entries" where
  "named_layer pattern lang incarnation e =
     (if incarnation < latest_incarnation e then (None, e)
      else
        let e = (if latest_incarnation e < incarnation then clear_named e else e);
            e = e\<lparr>latest_incarnation := incarnation\<rparr>;
            languages = languages_of e pattern;
            e = e\<lparr>named_layers := AList.update pattern languages (named_layers e)\<rparr>
        in case map_of languages lang of
             Some slot \<Rightarrow> (Some slot, e)
           | None \<Rightarrow>
               let add = (\<lambda>slot e. (Some slot, e\<lparr>named_layers :=
                     AList.update pattern (AList.update lang slot languages) (named_layers e)\<rparr>))
               in if free_named_layers e \<noteq> []
                  then add (last (free_named_layers e))
                         (e\<lparr>free_named_layers := butlast (free_named_layers e)\<rparr>)
                  else if usize_max div 2 < next_named_layer e then (None, e)
                  else add (next_named_layer e) (e\<lparr>next_named_layer := next_named_layer e + 1\<rparr>))"

definition reconcile_named_layers ::
    "(nat \<times> string) list \<Rightarrow> nat \<Rightarrow> 'u uri_entries \<Rightarrow> 'u uri_entries" where
  "reconcile_named_layers active layer_base e =
     (let keep = (\<lambda>pattern (lang, slot). (pattern, lang) \<in> set active);
          retired = concat (map (\<lambda>(pattern, ls). map snd (filter (\<lambda>l. \<not> keep pattern l) ls)) (named_layers e));
          e = e\<lparr>named_layers := filter (\<lambda>(_, ls). ls \<noteq> [])
                  (map (\<lambda>(pattern, ls). (pattern, filter (keep pattern) ls)) (named_layers e))\<rparr>
      in if retired = [] then e
         else
           let retired_layers = filter (\<lambda>l. l \<le> usize_max) (map (\<lambda>slot. layer_base + slot) retired);
               retired_ids = map (t_ulid \<circ> snd) (filter (\<lambda>(k, _). layer k \<in> set retired_layers) (forward e))
           in e\<lparr>forward := filter (\<lambda>(k, _). layer k \<notin> set retired_layers) (forward e),
                reverse := drop_ids retired_ids (reverse e),
                free_named_layers := free_named_layers e @ retired\<rparr>)"

section \<open>Ids\<close>

definition scope_layer :: "nat \<Rightarrow> bool" where
  "scope_layer l \<longleftrightarrow> TREE_SCOPE_BASE \<le> l \<and> l < REGION_IDENTITY_LAYER_BASE"

definition get_or_insert ::
    "(nat \<Rightarrow> 'u) \<Rightarrow> position_key \<Rightarrow> u64 \<Rightarrow> nat \<times> 'u uri_entries \<Rightarrow> 'u option \<times> nat \<times> 'u uri_entries" where
  "get_or_insert gen k incarnation = (\<lambda>(n, e).
     if incarnation < latest_incarnation e then (None, n, e)
     else if scope_layer (layer k) \<and> \<not> scopes_contains (doc_scopes e) (layer k) then (None, n, e)
     else
       let e = e\<lparr>latest_incarnation := incarnation\<rparr>;
           mint = (\<lambda>rv. (Some (gen n), n + 1,
             e\<lparr>forward := AList.update k \<lparr>t_ulid = gen n, t_incarnation = incarnation\<rparr> (forward e),
               reverse := rv(gen n \<mapsto> \<lparr>p_key = k, p_incarnation = incarnation\<rparr>)\<rparr>))
       in case map_of (forward e) k of
            Some existing \<Rightarrow>
              if t_incarnation existing = incarnation then (Some (t_ulid existing), n, e)
              else mint ((reverse e)(t_ulid existing := None))
          | None \<Rightarrow> mint (reverse e))"

definition insert_tracked ::
    "position_key \<Rightarrow> 'u tracked_ulid \<Rightarrow> 'u uri_entries \<Rightarrow> 'u option \<times> 'u uri_entries" where
  "insert_tracked k t e =
     (case map_of (forward e) k of
        None \<Rightarrow> (None, e\<lparr>forward := forward e @ [(k, t)],
                          reverse := (reverse e)(t_ulid t \<mapsto> \<lparr>p_key = k, p_incarnation = t_incarnation t\<rparr>)\<rparr>)
      | Some existing \<Rightarrow> (Some (t_ulid existing), e))"

definition retain_newer_than :: "u64 \<Rightarrow> 'u uri_entries \<Rightarrow> 'u uri_entries" where
  "retain_newer_than closing e =
     (let e = e\<lparr>forward := filter (\<lambda>(_, t). closing < t_incarnation t) (forward e),
                reverse := map_retain (\<lambda>_ p. closing < p_incarnation p) (reverse e)\<rparr>;
          e = (if scopes_empty (doc_scopes e) then e
               else e\<lparr>doc_scopes := scopes_retain (map (layer \<circ> fst) (forward e)) (doc_scopes e)\<rparr>)
      in if latest_incarnation e \<le> closing then clear_named e else e)"

section \<open>Edits\<close>

fun edit_loop ::
    "edit_info \<Rightarrow> (position_key \<times> 'u tracked_ulid) list \<Rightarrow> 'u uri_entries \<Rightarrow> 'u list \<times> 'u uri_entries" where
  "edit_loop ed [] new_entries = ([], new_entries)"
| "edit_loop ed ((k, t) # drained) new_entries =
     (let invalidate = (let (us, e) = edit_loop ed drained new_entries in (t_ulid t # us, e))
      in if should_invalidate_node k ed \<or> scope_layer (layer k) \<and> \<not> scopes_contains (doc_scopes new_entries) (layer k)
         then invalidate
         else case adjust_position_for_edit k ed (edit_delta ed) of
                None \<Rightarrow> invalidate
              | Some new_key \<Rightarrow>
                  (case insert_tracked new_key t new_entries of
                     (None, e) \<Rightarrow> edit_loop ed drained e
                   | (Some _, _) \<Rightarrow> invalidate))"

definition apply_edit_to_entries :: "edit_info \<Rightarrow> 'u uri_entries \<Rightarrow> 'u list \<times> 'u uri_entries" where
  "apply_edit_to_entries ed e =
     (let start = e\<lparr>forward := [], reverse := Map.empty, shift_gen := shift_gen e + 1,
                    doc_scopes := scopes_shift ed (doc_scopes e)\<rparr>;
          (invalidated, new_entries) = edit_loop ed (forward e) start
      in (invalidated,
          if scopes_empty (doc_scopes new_entries) then new_entries
          else new_entries\<lparr>doc_scopes :=
                 scopes_retain (map (layer \<circ> fst) (forward new_entries)) (doc_scopes new_entries)\<rparr>))"

section \<open>Lookups\<close>

record scoped_node =
  node_position :: "nat \<times> nat \<times> string \<times> nat \<times> u64"
  node_scope :: "tree_scope option"

definition scoped_node :: "'u uri_entries \<Rightarrow> 'u \<Rightarrow> scoped_node option" where
  "scoped_node e u =
     map_option (\<lambda>t. let k = p_key t in
       \<lparr>node_position = (start_byte k, end_byte k, kind k, layer k, p_incarnation t),
        node_scope = scope_of (doc_scopes e) (layer k)\<rparr>) (reverse e u)"

section \<open>The index is one relation read in two directions\<close>

definition sync :: "'u uri_entries \<Rightarrow> bool" where
  "sync e \<longleftrightarrow> distinct (map fst (forward e)) \<and>
     (\<forall>u k i. reverse e u = Some \<lparr>p_key = k, p_incarnation = i\<rparr> \<longleftrightarrow>
        (k, \<lparr>t_ulid = u, t_incarnation = i\<rparr>) \<in> set (forward e))"

definition drawn_below :: "(nat \<Rightarrow> 'u) \<Rightarrow> nat \<Rightarrow> 'u uri_entries \<Rightarrow> bool" where
  "drawn_below gen n e \<longleftrightarrow> (\<forall>(k, t)\<in>set (forward e). t_ulid t \<in> gen ` {..<n})"

definition lifetimes_ok :: "'u uri_entries \<Rightarrow> bool" where
  "lifetimes_ok e \<longleftrightarrow> (\<forall>(k, t)\<in>set (forward e). t_incarnation t \<le> latest_incarnation e \<and>
     (t_incarnation t = latest_incarnation e \<and> scope_layer (layer k)
        \<longrightarrow> scopes_contains (doc_scopes e) (layer k)))"

definition slots_of :: "'u uri_entries \<Rightarrow> nat list" where
  "slots_of e = concat (map (\<lambda>(_, ls). map snd ls) (named_layers e))"

definition named_ok :: "'u uri_entries \<Rightarrow> bool" where
  "named_ok e \<longleftrightarrow> distinct (map fst (named_layers e)) \<and>
     (\<forall>(_, ls)\<in>set (named_layers e). distinct (map fst ls)) \<and>
     distinct (slots_of e @ free_named_layers e) \<and>
     (\<forall>s\<in>set (slots_of e @ free_named_layers e). s < next_named_layer e)"

definition index_ok :: "(nat \<Rightarrow> 'u) \<Rightarrow> nat \<Rightarrow> 'u uri_entries \<Rightarrow> bool" where
  "index_ok gen n e \<longleftrightarrow> sync e \<and> drawn_below gen n e \<and> lifetimes_ok e \<and> named_ok e \<and> scopes_ok (doc_scopes e)"

lemma entries_default_ok: "index_ok gen n entries_default"
  by (simp add: index_ok_def sync_def drawn_below_def lifetimes_ok_def named_ok_def slots_of_def
      entries_default_def scopes_default_ok)

end
