(* ===== verification/Node_Index_Laws.thy ===== *)
theory Node_Index_Laws
  imports Node_Index
begin

text \<open>
  What the operations of one document's node index keep and do: both directions describe one
  relation, ids are fresh, an edit splits the tracked ids into those that moved with their
  node and those it invalidated.
\<close>

section \<open>One relation\<close>

definition ids :: "'u uri_entries \<Rightarrow> 'u set" where
  "ids e = (\<lambda>(_, t). t_ulid t) ` set (forward e)"

lemma idsI: "(k, t) \<in> set (forward e) \<Longrightarrow> t_ulid t \<in> ids e"
  by (force simp: ids_def)

lemma ulid_eta [simp]: "\<lparr>t_ulid = t_ulid t, t_incarnation = t_incarnation t\<rparr> = t"
  by (cases t) simp

lemma position_eta [simp]: "\<lparr>p_key = p_key p, p_incarnation = p_incarnation p\<rparr> = p"
  by (cases p) simp

lemma sync_forward:
  "sync e \<Longrightarrow> (k, t) \<in> set (forward e) \<Longrightarrow> reverse e (t_ulid t) = Some \<lparr>p_key = k, p_incarnation = t_incarnation t\<rparr>"
  unfolding sync_def by (metis ulid_eta)

lemma sync_reverse:
  "sync e \<Longrightarrow> reverse e u = Some p \<Longrightarrow> (p_key p, \<lparr>t_ulid = u, t_incarnation = p_incarnation p\<rparr>) \<in> set (forward e)"
  unfolding sync_def by (metis position_eta)

lemma syncI:
  assumes "distinct (map fst (forward e))"
    and "\<And>k t. (k, t) \<in> set (forward e) \<Longrightarrow> reverse e (t_ulid t) = Some \<lparr>p_key = k, p_incarnation = t_incarnation t\<rparr>"
    and "\<And>u p. reverse e u = Some p \<Longrightarrow>
      (p_key p, \<lparr>t_ulid = u, t_incarnation = p_incarnation p\<rparr>) \<in> set (forward e)"
  shows "sync e"
  using assms(1) assms(2) [of _ "\<lparr>t_ulid = _, t_incarnation = _\<rparr>"] assms(3) unfolding sync_def by fastforce

lemma sync_cong: "sync e \<Longrightarrow> forward e' = forward e \<Longrightarrow> reverse e' = reverse e \<Longrightarrow> sync e'"
  by (simp add: sync_def)

lemma same_id:
  "sync e \<Longrightarrow> (k, t) \<in> set (forward e) \<Longrightarrow> (k', t') \<in> set (forward e) \<Longrightarrow> t_ulid t = t_ulid t' \<Longrightarrow>
    k = k' \<and> t = t'"
  using sync_forward [of e k t] sync_forward [of e k' t'] by (auto intro: tracked_ulid.equality)

lemma reverse_None: "sync e \<Longrightarrow> reverse e u = None \<longleftrightarrow> u \<notin> ids e"
  using sync_forward [of e] sync_reverse [of e u] by (cases "reverse e u") (force simp: ids_def)+

lemma sync_filter:
  assumes "sync e" "forward e' = filter P (forward e)"
    and "\<And>u. reverse e' u = (case reverse e u of None \<Rightarrow> None
      | Some p \<Rightarrow> if P (p_key p, \<lparr>t_ulid = u, t_incarnation = p_incarnation p\<rparr>) then Some p else None)"
  shows "sync e'"
proof (rule syncI)
  show "distinct (map fst (forward e'))"
    using assms(1) by (auto simp: assms(2) sync_def distinct_map intro: inj_on_subset)
  show "reverse e' (t_ulid t) = Some \<lparr>p_key = k, p_incarnation = t_incarnation t\<rparr>"
    if "(k, t) \<in> set (forward e')" for k t
    using that sync_forward [OF assms(1), of k t] by (simp add: assms(2,3))
  show "(p_key p, \<lparr>t_ulid = u, t_incarnation = p_incarnation p\<rparr>) \<in> set (forward e')"
    if "reverse e' u = Some p" for u p
    using that sync_reverse [OF assms(1), of u p] by (auto simp: assms(2,3) split: option.splits if_splits)
qed

lemma drop_ids_filter:
  assumes "sync e"
  shows "drop_ids (map (t_ulid \<circ> snd) (filter (\<lambda>x. \<not> P x) (forward e))) (reverse e) u =
    (case reverse e u of None \<Rightarrow> None
      | Some p \<Rightarrow> if P (p_key p, \<lparr>t_ulid = u, t_incarnation = p_incarnation p\<rparr>) then Some p else None)"
proof (cases "reverse e u")
  case (Some p)
  note inp = sync_reverse [OF assms Some]
  have "u \<in> (t_ulid \<circ> snd) ` {x \<in> set (forward e). \<not> P x} \<longleftrightarrow>
      \<not> P (p_key p, \<lparr>t_ulid = u, t_incarnation = p_incarnation p\<rparr>)"
  proof
    assume "u \<in> (t_ulid \<circ> snd) ` {x \<in> set (forward e). \<not> P x}"
    then obtain k t where kt: "(k, t) \<in> set (forward e)" "\<not> P (k, t)" "t_ulid t = u" by auto
    from same_id [OF assms kt(1) inp] kt(2,3) show "\<not> P (p_key p, \<lparr>t_ulid = u, t_incarnation = p_incarnation p\<rparr>)"
      by simp
  next
    assume "\<not> P (p_key p, \<lparr>t_ulid = u, t_incarnation = p_incarnation p\<rparr>)"
    then show "u \<in> (t_ulid \<circ> snd) ` {x \<in> set (forward e). \<not> P x}" using inp by force
  qed
  then show ?thesis by (simp add: drop_ids_def Some)
qed (simp add: drop_ids_def)

section \<open>Minting\<close>

lemma set_update:
  "distinct (map fst al) \<Longrightarrow> set (AList.update k v al) = insert (k, v) {x \<in> set al. fst x \<noteq> k}"
proof (induction al)
  case (Cons x al)
  then show ?case by (cases "fst x = k") (force simp: image_iff)+
qed simp

definition mint_ok :: "(nat \<Rightarrow> 'u) \<Rightarrow> nat \<Rightarrow> 'u uri_entries \<Rightarrow> nat \<Rightarrow> 'u uri_entries \<Rightarrow> bool" where
  "mint_ok gen n e n' e' \<longleftrightarrow> index_ok gen n' e' \<and> n \<le> n' \<and> ids e' \<subseteq> ids e \<union> gen ` {n..<n'}"

lemma get_or_insert_cases:
  obtains (refused) "get_or_insert gen k inc (n, e) = (None, n, e)"
    "inc < latest_incarnation e \<or> scope_layer (layer k) \<and> \<not> scopes_contains (doc_scopes e) (layer k)"
  | (reused) t where "map_of (forward e) k = Some t" "t_incarnation t = inc" "latest_incarnation e \<le> inc"
      "scope_layer (layer k) \<longrightarrow> scopes_contains (doc_scopes e) (layer k)"
      "get_or_insert gen k inc (n, e) = (Some (t_ulid t), n, e\<lparr>latest_incarnation := inc\<rparr>)"
  | (minted) rv where "latest_incarnation e \<le> inc"
      "scope_layer (layer k) \<longrightarrow> scopes_contains (doc_scopes e) (layer k)"
      "rv = (case map_of (forward e) k of None \<Rightarrow> reverse e | Some t \<Rightarrow> (reverse e)(t_ulid t := None))"
      "map_of (forward e) k = None \<or> (\<exists>t. map_of (forward e) k = Some t \<and> t_incarnation t \<noteq> inc)"
      "get_or_insert gen k inc (n, e) = (Some (gen n), n + 1,
        e\<lparr>latest_incarnation := inc,
          forward := AList.update k \<lparr>t_ulid = gen n, t_incarnation = inc\<rparr> (forward e),
          reverse := rv(gen n \<mapsto> \<lparr>p_key = k, p_incarnation = inc\<rparr>)\<rparr>)"
proof (cases "inc < latest_incarnation e \<or> scope_layer (layer k) \<and> \<not> scopes_contains (doc_scopes e) (layer k)")
  case True
  then show ?thesis by (intro refused) (auto simp: get_or_insert_def)
next
  case False
  show ?thesis
  proof (cases "\<exists>t. map_of (forward e) k = Some t \<and> t_incarnation t = inc")
    case True
    then obtain t where "map_of (forward e) k = Some t" "t_incarnation t = inc" by blast
    then show ?thesis using False by (intro reused) (auto simp: get_or_insert_def Let_def)
  next
    case fresh: False
    then show ?thesis
      using False by (intro minted [OF _ _ refl]) (auto simp: get_or_insert_def Let_def split: option.splits)
  qed
qed

lemma minted_sync:
  assumes "sync e" "u \<notin> ids e"
    and "rv = (case map_of (forward e) k of None \<Rightarrow> reverse e | Some t \<Rightarrow> (reverse e)(t_ulid t := None))"
    and "forward e' = AList.update k \<lparr>t_ulid = u, t_incarnation = inc\<rparr> (forward e)"
    and "reverse e' = rv(u \<mapsto> \<lparr>p_key = k, p_incarnation = inc\<rparr>)"
  shows "sync e'"
proof (rule syncI)
  have d: "distinct (map fst (forward e))" using assms(1) by (simp add: sync_def)
  have fwd: "set (forward e') = insert (k, \<lparr>t_ulid = u, t_incarnation = inc\<rparr>) {x \<in> set (forward e). fst x \<noteq> k}"
    by (simp add: assms(4) set_update [OF d])
  have old: "map_of (forward e) k = Some t \<longleftrightarrow> (k, t) \<in> set (forward e)" for t
    using d by (metis map_of_SomeD map_of_is_SomeI)
  show "distinct (map fst (forward e'))" using d by (simp add: assms(4) AList.distinct_update)
  show "reverse e' (t_ulid t) = Some \<lparr>p_key = k', p_incarnation = t_incarnation t\<rparr>"
    if "(k', t) \<in> set (forward e')" for k' t
  proof (cases "k' = k")
    case True
    then show ?thesis using that by (auto simp: fwd assms(5))
  next
    case False
    then have kt: "(k', t) \<in> set (forward e)" using that by (auto simp: fwd)
    then have "t_ulid t \<noteq> u" using assms(2) idsI by metis
    moreover have "t_ulid t \<noteq> t_ulid t0" if "(k, t0) \<in> set (forward e)" for t0
      using same_id [OF assms(1) kt that] False by blast
    ultimately have "reverse e' (t_ulid t) = reverse e (t_ulid t)"
      using old by (auto simp: assms(3,5) split: option.splits)
    then show ?thesis using sync_forward [OF assms(1) kt] by simp
  qed
  show "(p_key p, \<lparr>t_ulid = v, t_incarnation = p_incarnation p\<rparr>) \<in> set (forward e')"
    if v: "reverse e' v = Some p" for v p
  proof (cases "v = u")
    case True
    then show ?thesis using v by (auto simp: assms(5) fwd)
  next
    case False
    then have "rv v = Some p" using v by (simp add: assms(5))
    then have r: "reverse e v = Some p" "\<And>t. (k, t) \<in> set (forward e) \<Longrightarrow> t_ulid t \<noteq> v"
    proof -
      show "reverse e v = Some p"
        using \<open>rv v = Some p\<close> unfolding assms(3) by (auto split: option.splits if_splits)
      show "t_ulid t \<noteq> v" if "(k, t) \<in> set (forward e)" for t
        using \<open>rv v = Some p\<close> old [of t] that unfolding assms(3) by auto
    qed
    have "p_key p \<noteq> k" using r(2) sync_reverse [OF assms(1) r(1)] by force
    then show ?thesis using sync_reverse [OF assms(1) r(1)] by (simp add: fwd)
  qed
qed

lemma minted_ids:
  "distinct (map fst (forward e)) \<Longrightarrow> forward e' = AList.update k t (forward e) \<Longrightarrow>
    ids e' \<subseteq> insert (t_ulid t) (ids e) \<and> t_ulid t \<in> ids e'"
  by (auto simp: set_update ids_def)

lemma get_or_insert_ok:
  assumes "inj gen" "index_ok gen n e" "get_or_insert gen k inc (n, e) = (r, n', e')"
  shows "mint_ok gen n e n' e'"
proof (cases rule: get_or_insert_cases [of gen k inc n e])
  case refused
  then show ?thesis using assms by (simp add: mint_ok_def)
next
  case (reused t)
  have e': "n' = n" "e' = e\<lparr>latest_incarnation := inc\<rparr>" using reused(5) assms(3) by auto
  have "lifetimes_ok e'"
    using assms(2) reused(3) by (fastforce simp: index_ok_def lifetimes_ok_def e')
  then show ?thesis
    using assms(2) sync_cong [of e e']
    by (auto simp: mint_ok_def index_ok_def e' drawn_below_def named_ok_def slots_of_def ids_def)
next
  case (minted rv)
  have e': "n' = n + 1" "e' = e\<lparr>latest_incarnation := inc,
      forward := AList.update k \<lparr>t_ulid = gen n, t_incarnation = inc\<rparr> (forward e),
      reverse := rv(gen n \<mapsto> \<lparr>p_key = k, p_incarnation = inc\<rparr>)\<rparr>"
    using minted(5) assms(3) by auto
  have sync: "sync e" and d: "distinct (map fst (forward e))" using assms(2) by (auto simp: index_ok_def sync_def)
  have "gen n \<notin> gen ` {..<n}" using assms(1) by (auto dest: injD)
  then have fresh: "gen n \<notin> ids e" using assms(2) by (force simp: index_ok_def drawn_below_def ids_def)
  have "sync e'" by (rule minted_sync [OF sync fresh minted(3)]) (simp_all add: e')
  moreover have fwd: "set (forward e') = insert (k, \<lparr>t_ulid = gen n, t_incarnation = inc\<rparr>) {x \<in> set (forward e). fst x \<noteq> k}"
    by (simp add: e' set_update [OF d])
  moreover have "drawn_below gen n' e'"
    using assms(2) unfolding index_ok_def drawn_below_def fwd e'(1) by (fastforce simp: less_Suc_eq)
  moreover have "lifetimes_ok e'"
    using assms(2) minted(1,2) unfolding index_ok_def lifetimes_ok_def fwd
    by (fastforce simp: e'(2))
  moreover have "ids e' \<subseteq> ids e \<union> gen ` {n..<n'}"
    unfolding ids_def fwd by (auto simp: e'(1))
  ultimately show ?thesis
    using assms(2) by (simp add: mint_ok_def index_ok_def e' named_ok_def slots_of_def)
qed

lemma get_or_insert_resolves:
  assumes "inj gen" "index_ok gen n e" "get_or_insert gen k inc (n, e) = (Some u, n', e')"
  shows "reverse e' u = Some \<lparr>p_key = k, p_incarnation = inc\<rparr> \<and>
    (\<forall>m. get_or_insert gen k inc (m, e') = (Some u, m, e'))"
proof -
  have "sync e'" using get_or_insert_ok [OF assms] by (simp add: mint_ok_def index_ok_def)
  moreover have "map_of (forward e') k = Some \<lparr>t_ulid = u, t_incarnation = inc\<rparr> \<and> latest_incarnation e' = inc \<and>
      (scope_layer (layer k) \<longrightarrow> scopes_contains (doc_scopes e') (layer k))"
  proof (cases rule: get_or_insert_cases [of gen k inc n e])
    case (reused t)
    then show ?thesis using assms(3) ulid_eta [of t] by auto
  next
    case (minted rv)
    then show ?thesis using assms(3) by (auto simp: AList.update_conv')
  qed (use assms(3) in simp)
  ultimately show ?thesis
    using sync_forward [of e' k "\<lparr>t_ulid = u, t_incarnation = inc\<rparr>"]
    by (auto simp: get_or_insert_def Let_def dest: map_of_SomeD)
qed

section \<open>Edits\<close>

definition loop_ok :: "(position_key \<times> 'u tracked_ulid) list \<Rightarrow> 'u uri_entries \<Rightarrow> bool" where
  "loop_ok drained e \<longleftrightarrow> sync e \<and> distinct (map (t_ulid \<circ> snd) drained) \<and>
     (\<forall>(k, t)\<in>set drained. t_ulid t \<notin> ids e)"

text \<open>A survivor has a position it moved to from one that the edit did not invalidate.\<close>

definition moved_from ::
    "edit_info \<Rightarrow> tree_scopes \<Rightarrow> position_key \<times> 'u tracked_ulid \<Rightarrow> position_key \<times> 'u tracked_ulid \<Rightarrow> bool" where
  "moved_from ed scs x y \<longleftrightarrow> snd y = snd x \<and> \<not> should_invalidate_node (fst x) ed \<and>
     (scope_layer (layer (fst x)) \<longrightarrow> scopes_contains scs (layer (fst x))) \<and>
     adjust_position_for_edit (fst x) ed (edit_delta ed) = Some (fst y)"

lemma insert_tracked_cases:
  obtains (vacant) "map_of (forward e) k = None" "insert_tracked k t e = (None,
      e\<lparr>forward := forward e @ [(k, t)],
        reverse := (reverse e)(t_ulid t \<mapsto> \<lparr>p_key = k, p_incarnation = t_incarnation t\<rparr>)\<rparr>)"
  | (occupied) t' where "map_of (forward e) k = Some t'" "insert_tracked k t e = (Some (t_ulid t'), e)"
  by (cases "map_of (forward e) k") (auto simp: insert_tracked_def)

lemma insert_sync:
  assumes "sync e" "map_of (forward e) k = None" "t_ulid t \<notin> ids e"
    and "forward e' = forward e @ [(k, t)]"
    and "reverse e' = (reverse e)(t_ulid t \<mapsto> \<lparr>p_key = k, p_incarnation = t_incarnation t\<rparr>)"
  shows "sync e'"
proof (rule syncI)
  show "distinct (map fst (forward e'))"
    using assms(1,2) by (auto simp: assms(4) sync_def map_of_eq_None_iff)
  show "reverse e' (t_ulid s) = Some \<lparr>p_key = j, p_incarnation = t_incarnation s\<rparr>"
    if "(j, s) \<in> set (forward e')" for j s
  proof (cases "(j, s) \<in> set (forward e)")
    case True
    then have "t_ulid s \<noteq> t_ulid t" using assms(3) idsI by metis
    then show ?thesis using sync_forward [OF assms(1) True] by (simp add: assms(5))
  next
    case False
    then show ?thesis using that by (simp add: assms(4,5))
  qed
  show "(p_key p, \<lparr>t_ulid = u, t_incarnation = p_incarnation p\<rparr>) \<in> set (forward e')"
    if "reverse e' u = Some p" for u p
    using that sync_reverse [OF assms(1), of u p] by (auto simp: assms(4,5) split: if_splits)
qed

lemma edit_loop_correct:
  "\<lbrakk>loop_ok drained e; edit_loop ed drained e = (dead, e')\<rbrakk> \<Longrightarrow>
    sync e' \<and> set dead \<inter> ids e' = {} \<and> set dead \<union> ids e' = (t_ulid \<circ> snd) ` set drained \<union> ids e \<and>
    ids e \<subseteq> ids e' \<and> set (forward e) \<subseteq> set (forward e') \<and> distinct dead \<and>
    (\<forall>y\<in>set (forward e'). y \<in> set (forward e) \<or> (\<exists>x\<in>set drained. moved_from ed (doc_scopes e) x y)) \<and>
    (\<forall>x\<in>set drained. t_ulid (snd x) \<in> set dead \<longrightarrow>
       \<not> (\<exists>y. moved_from ed (doc_scopes e) x y \<and> fst y \<notin> fst ` set (forward e'))) \<and>
    latest_incarnation e' = latest_incarnation e \<and> doc_scopes e' = doc_scopes e \<and>
    shift_gen e' = shift_gen e \<and> named_layers e' = named_layers e \<and>
    next_named_layer e' = next_named_layer e \<and> free_named_layers e' = free_named_layers e"
proof (induction drained arbitrary: e dead)
  case Nil
  then show ?case by (simp add: loop_ok_def)
next
  case (Cons x drained)
  obtain k t where x: "x = (k, t)" by (cases x)
  have ok: "loop_ok drained e" and new: "t_ulid t \<notin> ids e" "t_ulid t \<notin> (t_ulid \<circ> snd) ` set drained"
    using Cons.prems(1) by (auto simp: loop_ok_def x)
  define stays where "stays \<longleftrightarrow> (\<exists>k'. moved_from ed (doc_scopes e) (k, t) (k', t) \<and> map_of (forward e) k' = None)"
  show ?case
  proof (cases stays)
    case False
    have "edit_loop ed (x # drained) e = (let (us, e) = edit_loop ed drained e in (t_ulid t # us, e))"
      using False by (auto simp: x stays_def moved_from_def insert_tracked_def Let_def split: option.splits)
    then obtain us where us: "dead = t_ulid t # us" "edit_loop ed drained e = (us, e')"
      using Cons.prems(2) by (auto split: prod.splits)
    note IH = Cons.IH [OF ok us(2)]
    have gone: "t_ulid t \<notin> set us \<union> ids e'" using IH new by blast
    have "fst y \<in> fst ` set (forward e')" if "moved_from ed (doc_scopes e) x y" for y
    proof -
      have "y = (fst y, t)" using that by (auto simp: x moved_from_def)
      then have "map_of (forward e) (fst y) \<noteq> None" using False that by (auto simp: x stays_def)
      then have "fst y \<in> fst ` set (forward e)" by (simp add: map_of_eq_None_iff)
      then show ?thesis using IH by blast
    qed
    note collided = this
    have other: "t_ulid (snd z) \<noteq> t_ulid t" if "z \<in> set drained" for z
      using new(2) that by force
    have us_parts: "set us \<inter> ids e' = {}" "distinct us"
      "set us \<union> ids e' = (t_ulid \<circ> snd) ` set drained \<union> ids e"
      using IH by simp_all
    have d1: "set dead \<inter> ids e' = {}" unfolding us(1) list.set using us_parts(1) gone by blast
    have d2: "set dead \<union> ids e' = (t_ulid \<circ> snd) ` set (x # drained) \<union> ids e"
      unfolding us(1) x list.set using us_parts(3) by auto
    have "t_ulid t \<notin> set us" using gone by blast
    then have d3: "distinct dead" using us_parts(2) by (simp add: us(1))
    have d4: "\<forall>z\<in>set (x # drained). t_ulid (snd z) \<in> set dead \<longrightarrow>
        \<not> (\<exists>y. moved_from ed (doc_scopes e) z y \<and> fst y \<notin> fst ` set (forward e'))"
    proof (intro ballI impI)
      fix z assume z: "z \<in> set (x # drained)" "t_ulid (snd z) \<in> set dead"
      show "\<not> (\<exists>y. moved_from ed (doc_scopes e) z y \<and> fst y \<notin> fst ` set (forward e'))"
      proof (cases "z = x")
        case True
        then show ?thesis using collided by blast
      next
        case False
        then have "z \<in> set drained" using z(1) by simp
        moreover have "t_ulid (snd z) \<in> set us" using z(2) other [OF calculation] by (simp add: us(1))
        ultimately show ?thesis using IH by blast
      qed
    qed
    have d5: "\<forall>y\<in>set (forward e'). y \<in> set (forward e) \<or>
        (\<exists>z\<in>set (x # drained). moved_from ed (doc_scopes e) z y)"
      using IH by (meson list.set_intros(2))
    show ?thesis by (intro conjI d1 d2 d3 d4 d5) (use IH in blast)+
  next
    case True
    then obtain k' where k': "moved_from ed (doc_scopes e) (k, t) (k', t)" "map_of (forward e) k' = None"
      by (auto simp: stays_def)
    define e1 where "e1 = e\<lparr>forward := forward e @ [(k', t)],
        reverse := (reverse e)(t_ulid t \<mapsto> \<lparr>p_key = k', p_incarnation = t_incarnation t\<rparr>)\<rparr>"
    have step: "edit_loop ed drained e1 = (dead, e')"
      using Cons.prems(2) k' by (auto simp: x moved_from_def insert_tracked_def Let_def e1_def split: if_splits)
    have "sync e1"
      by (rule insert_sync [OF _ k'(2) new(1)]) (use ok in \<open>simp_all add: loop_ok_def e1_def\<close>)
    note sync1 = this
    have ids1: "ids e1 = insert (t_ulid t) (ids e)" by (auto simp: e1_def ids_def)
    have "t_ulid b \<notin> insert (t_ulid t) (ids e)" if "(a, b) \<in> set drained" for a b
    proof -
      have "t_ulid b \<noteq> t_ulid t" using new(2) that by force
      then show ?thesis using ok that unfolding loop_ok_def by blast
    qed
    then have "\<forall>(a, b)\<in>set drained. t_ulid b \<notin> ids e1" unfolding ids1 by blast
    moreover have "distinct (map (t_ulid \<circ> snd) drained)" using ok by (simp add: loop_ok_def)
    ultimately have ok1: "loop_ok drained e1" unfolding loop_ok_def using sync1 by blast
    note IH = Cons.IH [OF ok1 step]
    have alive: "t_ulid t \<notin> set dead" using IH ids1 by blast
    have fwd: "set (forward e1) = insert (k', t) (set (forward e))" by (auto simp: e1_def)
    have same: "doc_scopes e1 = doc_scopes e" "latest_incarnation e1 = latest_incarnation e"
      "shift_gen e1 = shift_gen e" "named_layers e1 = named_layers e"
      "next_named_layer e1 = next_named_layer e" "free_named_layers e1 = free_named_layers e"
      by (simp_all add: e1_def)
    have from_x: "y \<in> set (forward e) \<or> (\<exists>z\<in>set (x # drained). moved_from ed (doc_scopes e) z y)"
      if "y \<in> set (forward e')" for y
      using IH that k'(1) unfolding fwd same x by auto
    show ?thesis
      using IH alive from_x unfolding ids1 fwd same by (auto simp: x)
  qed
qed

lemma map_of_filter_keys: "map_of (filter (\<lambda>(t, _). t \<in> S) xs) k = (if k \<in> S then map_of xs k else None)"
  by (induction xs) auto

lemma contains_retain:
  "scopes_contains (scopes_retain live ts) token \<longleftrightarrow> token \<in> set live \<and> scopes_contains ts token"
  by (simp add: scopes_contains_def scope_of_def scopes_retain_def reindex_def map_of_filter_keys)

lemma edit_start_ok:
  assumes "sync e"
  shows "loop_ok (forward e) (e\<lparr>forward := [], reverse := Map.empty, shift_gen := g, doc_scopes := scs\<rparr>)"
proof -
  have "inj_on (t_ulid \<circ> snd) (set (forward e))"
    using same_id [OF assms] by (auto intro!: inj_onI)
  moreover have "distinct (forward e)" using assms by (simp add: sync_def distinct_map)
  ultimately have "distinct (map (t_ulid \<circ> snd) (forward e))" by (simp add: distinct_map)
  then show ?thesis by (simp add: loop_ok_def sync_def ids_def)
qed

text \<open>What an edit does to the index of a document.\<close>

definition edit_result :: "edit_info \<Rightarrow> 'u uri_entries \<Rightarrow> 'u list \<Rightarrow> 'u uri_entries \<Rightarrow> bool" where
  "edit_result ed e dead e' \<longleftrightarrow>
     set dead \<inter> ids e' = {} \<and> set dead \<union> ids e' = ids e \<and> distinct dead \<and>
     (\<forall>y\<in>set (forward e'). \<exists>x\<in>set (forward e). moved_from ed (scopes_shift ed (doc_scopes e)) x y) \<and>
     (\<forall>x\<in>set (forward e). \<forall>y. moved_from ed (scopes_shift ed (doc_scopes e)) x y \<longrightarrow>
        y \<in> set (forward e') \<or> t_ulid (snd x) \<in> set dead \<and> fst y \<in> fst ` set (forward e')) \<and>
     shift_gen e' = shift_gen e + 1 \<and> latest_incarnation e' = latest_incarnation e \<and>
     named_layers e' = named_layers e \<and> next_named_layer e' = next_named_layer e \<and>
     free_named_layers e' = free_named_layers e"

lemma apply_edit_ok:
  assumes "index_ok gen n e" "apply_edit_to_entries ed e = (dead, e')"
  shows "index_ok gen n e' \<and> edit_result ed e dead e'"
proof -
  have sync: "sync e" using assms(1) by (simp add: index_ok_def)
  define e0 where "e0 = e\<lparr>forward := [], reverse := Map.empty, shift_gen := shift_gen e + 1,
      doc_scopes := scopes_shift ed (doc_scopes e)\<rparr>"
  obtain e1 where loop: "edit_loop ed (forward e) e0 = (dead, e1)"
    and e': "e' = (if scopes_empty (doc_scopes e1) then e1
      else e1\<lparr>doc_scopes := scopes_retain (map (layer \<circ> fst) (forward e1)) (doc_scopes e1)\<rparr>)"
    using assms(2) by (auto simp: apply_edit_to_entries_def Let_def e0_def split: prod.splits)
  have ok: "loop_ok (forward e) e0" unfolding e0_def by (rule edit_start_ok [OF sync])
  note R = edit_loop_correct [OF ok loop]
  have e0: "ids e0 = {}" "set (forward e0) = {}" "doc_scopes e0 = scopes_shift ed (doc_scopes e)"
    "latest_incarnation e0 = latest_incarnation e" "shift_gen e0 = shift_gen e + 1"
    "named_layers e0 = named_layers e" "next_named_layer e0 = next_named_layer e"
    "free_named_layers e0 = free_named_layers e"
    by (simp_all add: e0_def ids_def)
  have fwd: "forward e' = forward e1" "reverse e' = reverse e1" "latest_incarnation e' = latest_incarnation e"
    "shift_gen e' = shift_gen e + 1" "named_layers e' = named_layers e"
    "next_named_layer e' = next_named_layer e" "free_named_layers e' = free_named_layers e"
    using R by (simp_all add: e' e0)
  have ids': "ids e' = ids e1" by (simp add: ids_def fwd)
  have dead: "set dead \<inter> ids e' = {}" "distinct dead" using R by (simp_all add: ids')
  have split: "set dead \<union> ids e' = ids e"
  proof -
    have "set dead \<union> ids e1 = (t_ulid \<circ> snd) ` set (forward e) \<union> ids e0" using R by simp
    then show ?thesis by (simp add: ids' e0 ids_def [of e] case_prod_unfold)
  qed
  have origin: "\<exists>x\<in>set (forward e). moved_from ed (scopes_shift ed (doc_scopes e)) x y"
    if "y \<in> set (forward e')" for y
    using R that by (simp add: fwd e0)
  have goes: "y \<in> set (forward e') \<or> t_ulid (snd x) \<in> set dead \<and> fst y \<in> fst ` set (forward e')"
    if x: "x \<in> set (forward e)" and y: "moved_from ed (scopes_shift ed (doc_scopes e)) x y" for x y
  proof (cases "t_ulid (snd x) \<in> set dead")
    case True
    then show ?thesis using R x y unfolding e0 fwd by blast
  next
    case False
    have "t_ulid (snd x) \<in> ids e" using x idsI [of "fst x" "snd x" e] by simp
    then have "t_ulid (snd x) \<in> ids e'" using split False by blast
    then obtain k' t' where kt: "(k', t') \<in> set (forward e')" "t_ulid t' = t_ulid (snd x)"
      by (auto simp: ids_def)
    obtain z where z: "z \<in> set (forward e)" "moved_from ed (scopes_shift ed (doc_scopes e)) z (k', t')"
      using origin [OF kt(1)] by blast
    then have "z = x"
      using same_id [OF sync, of "fst z" "snd z" "fst x" "snd x"] x kt(2)
      by (simp add: moved_from_def prod_eq_iff)
    then have "y = (k', t')" using y z(2) by (cases y) (simp add: moved_from_def)
    then show ?thesis using kt(1) by simp
  qed
  have result: "edit_result ed e dead e'"
    unfolding edit_result_def using dead split origin goes fwd by blast
  have "sync e'" using R sync_cong [of e1 e'] fwd by simp
  moreover have "drawn_below gen n e'"
  proof -
    have "t_ulid t \<in> gen ` {..<n}" if "(k, t) \<in> set (forward e')" for k t
      using origin [OF that] assms(1) by (fastforce simp: moved_from_def index_ok_def drawn_below_def)
    then show ?thesis by (auto simp: drawn_below_def)
  qed
  moreover have "lifetimes_ok e'"
    unfolding lifetimes_ok_def
  proof (intro ballI, clarsimp)
    fix k t assume kt: "(k, t) \<in> set (forward e')"
    then obtain k0 where k0: "(k0, t) \<in> set (forward e)" "moved_from ed (scopes_shift ed (doc_scopes e)) (k0, t) (k, t)"
      using origin [OF kt] by (auto simp: moved_from_def)
    have lay: "layer k = layer k0" using k0(2) adjust_keeps by (auto simp: moved_from_def)
    have "t_incarnation t \<le> latest_incarnation e" using assms(1) k0(1) by (auto simp: index_ok_def lifetimes_ok_def)
    moreover have "scopes_contains (doc_scopes e') (layer k)" if "scope_layer (layer k)"
    proof -
      have c: "scopes_contains (scopes_shift ed (doc_scopes e)) (layer k)"
        using k0(2) that by (simp add: moved_from_def lay)
      have "layer k \<in> set (map (layer \<circ> fst) (forward e1))" using kt by (force simp: fwd)
      then show ?thesis using c R by (simp add: e' contains_retain e0)
    qed
    ultimately show "t_incarnation t \<le> latest_incarnation e' \<and>
        (t_incarnation t = latest_incarnation e' \<and> scope_layer (layer k) \<longrightarrow>
         scopes_contains (doc_scopes e') (layer k))"
      by (simp add: fwd)
  qed
  moreover have "scopes_ok (doc_scopes e')"
    using assms(1) R by (auto simp: e' e0 index_ok_def scopes_shift_ok scopes_retain_ok)
  moreover have "named_ok e'" using assms(1) by (simp add: index_ok_def named_ok_def slots_of_def fwd)
  ultimately show ?thesis using result by (simp add: index_ok_def)
qed

end
