(* ===== verification/Node_Layers_Laws.thy ===== *)
theory Node_Layers_Laws
  imports Node_Index_Laws
begin

text \<open>
  The lifecycle operations of a node index: what closing a document lifetime leaves
  (\<open>retain_newer_than\<close>), and the named layers of injection alternatives, whose slots are
  never shared by two alternatives nor both in use and free.
\<close>

section \<open>Retention\<close>

lemma retain_fields:
  "forward (retain_newer_than c e) = filter (\<lambda>(_, t). c < t_incarnation t) (forward e)"
  "reverse (retain_newer_than c e) = map_retain (\<lambda>_ p. c < p_incarnation p) (reverse e)"
  "latest_incarnation (retain_newer_than c e) = latest_incarnation e"
  "shift_gen (retain_newer_than c e) = shift_gen e"
  by (simp_all add: retain_newer_than_def Let_def clear_named_def)

lemma retain_scopes:
  "doc_scopes (retain_newer_than c e) =
     (if scopes_empty (doc_scopes e) then doc_scopes e
      else scopes_retain (map (layer \<circ> fst) (forward (retain_newer_than c e))) (doc_scopes e))"
  by (simp add: retain_newer_than_def Let_def clear_named_def)

lemma clear_named_ok: "named_ok (clear_named e)"
  by (simp add: named_ok_def clear_named_def slots_of_def)

lemma ids_filter: "forward e' = filter P (forward e) \<Longrightarrow> ids e' \<subseteq> ids e"
  by (auto simp: ids_def)

lemma drawn_filter: "drawn_below gen n e \<Longrightarrow> forward e' = filter P (forward e) \<Longrightarrow> drawn_below gen n e'"
  by (auto simp: drawn_below_def)

lemma retain_newer_ok:
  assumes "index_ok gen n e"
  shows "index_ok gen n (retain_newer_than c e)"
proof -
  let ?e = "retain_newer_than c e"
  have sync: "sync e" using assms by (simp add: index_ok_def)
  have "sync ?e"
    by (rule sync_filter [OF sync retain_fields(1)])
      (auto simp: retain_fields map_retain_def split: option.split)
  moreover have "drawn_below gen n ?e"
    by (rule drawn_filter [OF _ retain_fields(1)]) (use assms in \<open>simp add: index_ok_def\<close>)
  moreover have "scopes_contains (doc_scopes ?e) (layer k)"
    if "(k, t) \<in> set (forward ?e)" "scopes_contains (doc_scopes e) (layer k)" for k t
    using that by (force simp: retain_scopes contains_retain)
  then have "lifetimes_ok ?e"
    using assms by (fastforce simp: index_ok_def lifetimes_ok_def retain_fields)
  moreover have "named_ok ?e"
    using assms clear_named_ok
    by (auto simp: retain_newer_than_def Let_def index_ok_def named_ok_def slots_of_def clear_named_def)
  moreover have "scopes_ok (doc_scopes ?e)"
    using assms by (simp add: retain_scopes index_ok_def scopes_retain_ok)
  ultimately show ?thesis by (simp add: index_ok_def)
qed

section \<open>Named layers\<close>

lemma mset_slots_update:
  "distinct (map fst al) \<Longrightarrow>
    mset (concat (map (\<lambda>(_, ls). map snd ls) (AList.update p new al))) +
      mset (map snd (case map_of al p of None \<Rightarrow> [] | Some ls \<Rightarrow> ls)) =
    mset (concat (map (\<lambda>(_, ls). map snd ls) al)) + mset (map snd new)"
proof (induction al)
  case (Cons x al)
  then show ?case by (cases x) (auto simp: ac_simps)
qed simp

lemma in_slots: "(p, ls) \<in> set (named_layers e) \<Longrightarrow> (l, s) \<in> set ls \<Longrightarrow> s \<in> set (slots_of e)"
  by (force simp: slots_of_def)

definition slot_of :: "'u uri_entries \<Rightarrow> nat \<Rightarrow> string \<Rightarrow> nat option" where
  "slot_of e p l = map_of (languages_of e p) l"

lemma languages_in: "languages_of e p \<noteq> [] \<Longrightarrow> (p, languages_of e p) \<in> set (named_layers e)"
  by (auto simp: languages_of_def split: option.splits dest: map_of_SomeD)

lemma slot_of_in: "slot_of e p l = Some s \<Longrightarrow> s \<in> set (slots_of e)"
  using languages_in [of e p] in_slots [of p "languages_of e p" e l s]
  by (force simp: slot_of_def dest: map_of_SomeD)

lemma named_update_ok:
  assumes "named_ok e" "languages_of e p = languages"
    and "named_layers e' = AList.update p new (named_layers e)"
    and "distinct (map fst new)" "mset (map snd new) = mset (map snd languages) + mset slots"
    and "mset (free_named_layers e) + mset extra = mset (free_named_layers e') + mset slots"
    and "distinct extra" "set extra \<inter> set (slots_of e @ free_named_layers e) = {}"
    and "next_named_layer e \<le> next_named_layer e'" "\<forall>s\<in>set extra. s < next_named_layer e'"
  shows "named_ok e'"
proof -
  have d: "distinct (map fst (named_layers e))" using assms(1) by (simp add: named_ok_def)
  have "mset (slots_of e') + mset (map snd languages) = mset (slots_of e) + mset (map snd new)"
    using mset_slots_update [OF d, of p new] assms(2,3) by (simp add: slots_of_def languages_of_def)
  then have "mset (slots_of e') = mset (slots_of e) + mset slots"
    using assms(5) by (simp add: ac_simps)
  then have m: "mset (slots_of e' @ free_named_layers e') = mset ((slots_of e @ free_named_layers e) @ extra)"
    using assms(6) by (simp add: ac_simps)
  have "distinct ((slots_of e @ free_named_layers e) @ extra)"
    by (rule distinct_append [THEN iffD2]) (use assms(1,7,8) in \<open>auto simp: named_ok_def\<close>)
  then have "distinct (slots_of e' @ free_named_layers e')"
    using mset_eq_imp_distinct_iff [OF m] by simp
  moreover have "\<forall>s\<in>set (slots_of e' @ free_named_layers e'). s < next_named_layer e'"
  proof
    fix s assume "s \<in> set (slots_of e' @ free_named_layers e')"
    then consider "s \<in> set (slots_of e @ free_named_layers e)" | "s \<in> set extra"
      using mset_eq_setD [OF m] by auto
    then show "s < next_named_layer e'"
    proof cases
      case 1
      then have "s < next_named_layer e" using assms(1) unfolding named_ok_def by blast
      then show ?thesis using assms(9) by simp
    qed (use assms(10) in blast)
  qed
  moreover have "distinct (map fst (named_layers e'))" using d by (simp add: assms(3) AList.distinct_update)
  moreover have "\<forall>(_, ls)\<in>set (named_layers e'). distinct (map fst ls)"
    using assms(1,4) by (auto simp: assms(3) set_update [OF d] named_ok_def)
  ultimately show ?thesis by (simp add: named_ok_def)
qed

lemma mset_pop: "xs \<noteq> [] \<Longrightarrow> mset xs = add_mset (last xs) (mset (butlast xs))"
  by (induction xs) auto

lemma named_layer_ok:
  assumes "named_ok e" "named_layer p l inc e = (r, e')"
  shows "named_ok e' \<and> forward e' = forward e \<and> reverse e' = reverse e \<and> doc_scopes e' = doc_scopes e \<and>
    shift_gen e' = shift_gen e \<and> latest_incarnation e \<le> latest_incarnation e' \<and>
    (\<forall>s. r = Some s \<longrightarrow> slot_of e' p l = Some s \<and> latest_incarnation e' = inc)"
proof (cases "inc < latest_incarnation e")
  case True
  then show ?thesis using assms by (auto simp: named_layer_def)
next
  case False
  define e1 where "e1 = (if latest_incarnation e < inc then clear_named e else e)\<lparr>latest_incarnation := inc\<rparr>"
  have ok1: "named_ok e1" using assms(1) clear_named_ok [of e] by (simp add: e1_def named_ok_def slots_of_def)
  have same: "forward e1 = forward e" "reverse e1 = reverse e" "doc_scopes e1 = doc_scopes e"
    "shift_gen e1 = shift_gen e" "latest_incarnation e1 = inc" "latest_incarnation e \<le> inc"
    using False by (auto simp: e1_def clear_named_def)
  define ls where "ls = languages_of e1 p"
  have dls: "distinct (map fst ls)"
    using ok1 languages_in [of e1 p] by (cases "ls = []") (auto simp: ls_def named_ok_def)
  have unfold: "named_layer p l inc e =
      (let e2 = e1\<lparr>named_layers := AList.update p ls (named_layers e1)\<rparr>
       in case map_of ls l of
            Some slot \<Rightarrow> (Some slot, e2)
          | None \<Rightarrow>
              if free_named_layers e2 \<noteq> []
              then (Some (last (free_named_layers e2)), e2\<lparr>free_named_layers := butlast (free_named_layers e2),
                  named_layers := AList.update p (AList.update l (last (free_named_layers e2)) ls) (named_layers e2)\<rparr>)
              else if usize_max div 2 < next_named_layer e2 then (None, e2)
              else (Some (next_named_layer e2), e2\<lparr>next_named_layer := next_named_layer e2 + 1,
                  named_layers := AList.update p (AList.update l (next_named_layer e2) ls) (named_layers e2)\<rparr>))"
    using False by (simp add: named_layer_def e1_def ls_def languages_of_def Let_def split: option.split)
  have langs: "languages_of e' p = new" if "named_layers e' = AList.update p new (named_layers e1)"
    for e' :: "'a uri_entries" and new
    using that by (simp add: languages_of_def AList.update_conv')
  show ?thesis
  proof (cases "map_of ls l")
    case (Some slot)
    then have e': "r = Some slot" "e' = e1\<lparr>named_layers := AList.update p ls (named_layers e1)\<rparr>"
      using assms(2) by (auto simp: unfold Let_def)
    have "named_ok e'"
      by (rule named_update_ok [OF ok1 ls_def [symmetric], where slots = "[]" and extra = "[]" and new = ls])
        (simp_all add: e' dls)
    moreover have "slot_of e' p l = Some slot"
      using langs [of e' ls] Some by (simp add: slot_of_def e')
    ultimately show ?thesis by (simp add: e' same)
  next
    case None
    then have new: "l \<notin> fst ` set ls" by (simp add: map_of_eq_None_iff)
    have upd: "AList.update p w (AList.update p v al) = AList.update p w al" for v w and al :: "(nat \<times> (string \<times> nat) list) list"
      by (induction al) auto
    have got: "slot_of e' p l = Some s" if "named_layers e' = AList.update p (AList.update l s ls) (named_layers e1)" for s
      using langs [OF that] by (simp add: slot_of_def AList.update_conv')
    consider (free) "free_named_layers e1 \<noteq> []" "r = Some (last (free_named_layers e1))"
        "e' = e1\<lparr>free_named_layers := butlast (free_named_layers e1),
          named_layers := AList.update p (AList.update l (last (free_named_layers e1)) ls) (named_layers e1)\<rparr>"
      | (full) "r = None" "e' = e1\<lparr>named_layers := AList.update p ls (named_layers e1)\<rparr>"
      | (fresh) "free_named_layers e1 = []" "r = Some (next_named_layer e1)"
        "e' = e1\<lparr>next_named_layer := next_named_layer e1 + 1,
          named_layers := AList.update p (AList.update l (next_named_layer e1) ls) (named_layers e1)\<rparr>"
      using assms(2) None by (auto simp: unfold Let_def upd split: if_splits)
    then show ?thesis
    proof cases
      case free
      have "named_ok e'"
        by (rule named_update_ok [OF ok1 ls_def [symmetric], where slots = "[last (free_named_layers e1)]"
              and extra = "[]" and new = "AList.update l (last (free_named_layers e1)) ls"])
          (use free dls new in \<open>simp_all add: update_new AList.distinct_update mset_pop [of "free_named_layers e1"]\<close>)
      then show ?thesis using free got by (simp add: same)
    next
      case full
      have "named_ok e'"
        by (rule named_update_ok [OF ok1 ls_def [symmetric], where slots = "[]" and extra = "[]" and new = ls])
          (simp_all add: full dls)
      then show ?thesis by (simp add: full same)
    next
      case fresh
      have "named_ok e'"
        by (rule named_update_ok [OF ok1 ls_def [symmetric], where slots = "[next_named_layer e1]"
              and extra = "[next_named_layer e1]" and new = "AList.update l (next_named_layer e1) ls"])
          (use fresh dls new ok1 in \<open>auto simp: update_new AList.distinct_update named_ok_def\<close>)
      then show ?thesis using fresh got by (simp add: same)
    qed
  qed
qed

section \<open>Reconciling named layers\<close>

definition kept_languages :: "(nat \<times> string) list \<Rightarrow> nat \<Rightarrow> (string \<times> nat) list \<Rightarrow> (string \<times> nat) list" where
  "kept_languages active p ls = filter (\<lambda>(l, _). (p, l) \<in> set active) ls"

definition retired_slots :: "(nat \<times> string) list \<Rightarrow> (nat \<times> (string \<times> nat) list) list \<Rightarrow> nat list" where
  "retired_slots active nls = concat (map (\<lambda>(p, ls). map snd (filter (\<lambda>(l, _). (p, l) \<notin> set active) ls)) nls)"

lemma drop_ids_Nil: "drop_ids [] m = m"
  by (simp add: drop_ids_def)

lemma reconcile_fields:
  fixes e :: "'u uri_entries" and active base
  defines "e' \<equiv> reconcile_named_layers active base e"
  defines "retired \<equiv> retired_slots active (named_layers e)"
  defines "gone \<equiv> \<lambda>l. l \<in> (\<lambda>s. base + s) ` set retired \<and> l \<le> usize_max"
  shows "named_layers e' = filter (\<lambda>(_, ls). ls \<noteq> [])
      (map (\<lambda>(p, ls). (p, kept_languages active p ls)) (named_layers e))"
    and "free_named_layers e' = free_named_layers e @ retired"
    and "forward e' = filter (\<lambda>(k, _). \<not> gone (layer k)) (forward e)"
    and "reverse e' = drop_ids (map (t_ulid \<circ> snd) (filter (\<lambda>(k, _). gone (layer k)) (forward e))) (reverse e)"
    and "latest_incarnation e' = latest_incarnation e" "shift_gen e' = shift_gen e"
    and "doc_scopes e' = doc_scopes e" "next_named_layer e' = next_named_layer e"
proof -
  have ret: "concat (map (\<lambda>(pattern, ls). map snd (filter (\<lambda>l. \<not> (case l of (lang, slot) \<Rightarrow> (pattern, lang) \<in> set active)) ls))
      (named_layers e)) = retired"
    by (simp add: retired_def retired_slots_def case_prod_unfold)
  have kept: "map (\<lambda>(pattern, ls). (pattern, filter (\<lambda>(lang, slot). (pattern, lang) \<in> set active) ls)) (named_layers e) =
      map (\<lambda>(p, ls). (p, kept_languages active p ls)) (named_layers e)"
    by (simp add: kept_languages_def)
  have none: "filter (\<lambda>(k, _). \<not> gone (layer k)) (forward e) = forward e"
    "filter (\<lambda>(k, _). gone (layer k)) (forward e) = []" if "retired = []"
    by (auto simp: gone_def that filter_empty_conv filter_id_conv)
  have layers: "set (filter (\<lambda>l. l \<le> usize_max) (map (\<lambda>slot. base + slot) retired)) = Collect gone"
    by (auto simp: gone_def)
  show "named_layers e' = filter (\<lambda>(_, ls). ls \<noteq> [])
      (map (\<lambda>(p, ls). (p, kept_languages active p ls)) (named_layers e))"
    "free_named_layers e' = free_named_layers e @ retired"
    "forward e' = filter (\<lambda>(k, _). \<not> gone (layer k)) (forward e)"
    "reverse e' = drop_ids (map (t_ulid \<circ> snd) (filter (\<lambda>(k, _). gone (layer k)) (forward e))) (reverse e)"
    "latest_incarnation e' = latest_incarnation e" "shift_gen e' = shift_gen e"
    "doc_scopes e' = doc_scopes e" "next_named_layer e' = next_named_layer e"
    unfolding e'_def reconcile_named_layers_def Let_def ret kept layers
    by (simp_all add: none drop_ids_Nil)
qed

lemma mset_filter_split: "mset (map f (filter P xs)) + mset (map f (filter (\<lambda>x. \<not> P x) xs)) = mset (map f xs)"
  by (induction xs) auto

lemma slots_split:
  "mset (concat (map (\<lambda>(_, ls). map snd ls) (filter (\<lambda>(_, ls). ls \<noteq> [])
      (map (\<lambda>(p, ls). (p, kept_languages active p ls)) nls)))) + mset (retired_slots active nls) =
    mset (concat (map (\<lambda>(_, ls). map snd ls) nls))"
proof (induction nls)
  case (Cons x nls)
  obtain p ls where x: "x = (p, ls)" by (cases x)
  have "mset (map snd (kept_languages active p ls)) +
      mset (map snd (filter (\<lambda>(l, _). (p, l) \<notin> set active) ls)) = mset (map snd ls)"
    using mset_filter_split [of snd "\<lambda>(l, _). (p, l) \<in> set active" ls]
    by (simp add: kept_languages_def case_prod_unfold)
  then show ?case using Cons
    by (auto simp: x retired_slots_def ac_simps)
qed (simp add: retired_slots_def)

lemma reconcile_ok:
  assumes "index_ok gen n e"
  shows "index_ok gen n (reconcile_named_layers active base e)"
proof -
  let ?e = "reconcile_named_layers active base e"
  note f = reconcile_fields [where active = active and base = base and e = e]
  have sync: "sync e" using assms by (simp add: index_ok_def)
  have "sync ?e"
  proof (rule sync_filter [OF sync f(3)])
    show "reverse ?e u = (case reverse e u of None \<Rightarrow> None
      | Some p \<Rightarrow> if (case (p_key p, \<lparr>t_ulid = u, t_incarnation = p_incarnation p\<rparr>) of (k, _) \<Rightarrow>
          \<not> (layer k \<in> (\<lambda>s. base + s) ` set (retired_slots active (named_layers e)) \<and> layer k \<le> usize_max))
        then Some p else None)" for u
      using drop_ids_filter [OF sync, where P = "\<lambda>(k, _).
          \<not> (layer k \<in> (\<lambda>s. base + s) ` set (retired_slots active (named_layers e)) \<and> layer k \<le> usize_max)" and u = u]
      by (simp add: f(4) case_prod_unfold)
  qed
  moreover have "drawn_below gen n ?e"
    by (rule drawn_filter [OF _ f(3)]) (use assms in \<open>simp add: index_ok_def\<close>)
  moreover have "lifetimes_ok ?e"
    using assms by (auto simp: index_ok_def lifetimes_ok_def f(3,5,7))
  moreover have "named_ok ?e"
  proof -
    have m: "mset (slots_of ?e @ free_named_layers ?e) = mset (slots_of e @ free_named_layers e)"
      using slots_split [of active "named_layers e"] by (simp add: slots_of_def f(1,2) ac_simps)
    have "distinct (slots_of ?e @ free_named_layers ?e)"
      using mset_eq_imp_distinct_iff [OF m] assms by (simp add: index_ok_def named_ok_def)
    moreover have "\<forall>s\<in>set (slots_of ?e @ free_named_layers ?e). s < next_named_layer ?e"
      using mset_eq_setD [OF m] assms unfolding f(8) index_ok_def named_ok_def by blast
    moreover have "distinct (map fst (named_layers ?e))"
    proof -
      have "map fst (map (\<lambda>(p, ls). (p, kept_languages active p ls)) (named_layers e)) = map fst (named_layers e)"
        by auto
      moreover have "distinct (map fst (named_layers e))" using assms by (simp add: index_ok_def named_ok_def)
      ultimately show ?thesis unfolding f(1) by (intro distinct_map_filter) (simp only:)
    qed
    moreover have "\<forall>(_, ls)\<in>set (named_layers ?e). distinct (map fst ls)"
      using assms unfolding f(1) index_ok_def named_ok_def
      by (auto simp: kept_languages_def distinct_map intro: inj_on_subset)
    ultimately show ?thesis by (simp add: named_ok_def)
  qed
  moreover have "scopes_ok (doc_scopes ?e)" using assms by (simp add: f(7) index_ok_def)
  ultimately show ?thesis by (simp add: index_ok_def)
qed

end
