(* ===== verification/Node_Tracker.thy ===== *)
theory Node_Tracker
  imports Node_Layers_Laws
begin

text \<open>
  \<open>NodeTracker\<close> of \<open>src/src/language/node_tracker.rs\<close>: the node indexes of all open
  documents, the lifetime each document is in, and the latch (shift generation, cleanup
  epoch) that proves a batch of ids correct at birth. An operation that first checks
  admission without the document's lock is the composition of that check and a
  \<open>_locked\<close> part that repeats it; a history may run the locked part in any later state.
\<close>

section \<open>State\<close>

record ('uri, 'u) tracker =
  docs :: "'uri \<rightharpoonup> 'u uri_entries"
  incarnations :: "'uri \<rightharpoonup> u64 option"
  cleanup_epoch :: u64
  drawn :: nat

definition tracker_new :: "('uri, 'u) tracker" where
  "tracker_new = \<lparr>docs = Map.empty, incarnations = Map.empty, cleanup_epoch = 0, drawn = 0\<rparr>"

definition open_incarnation :: "'uri \<Rightarrow> u64 \<Rightarrow> ('uri, 'u) tracker \<Rightarrow> ('uri, 'u) tracker" where
  "open_incarnation uri inc t = t\<lparr>incarnations := (incarnations t)(uri \<mapsto> Some inc)\<rparr>"

definition admits_incarnation :: "'uri \<Rightarrow> u64 \<Rightarrow> ('uri, 'u) tracker \<Rightarrow> bool" where
  "admits_incarnation uri inc t \<longleftrightarrow>
     (case incarnations t uri of None \<Rightarrow> True | Some current \<Rightarrow> current = Some inc)"

definition entry_of :: "('uri, 'u) tracker \<Rightarrow> 'uri \<Rightarrow> 'u uri_entries" where
  "entry_of t uri = (case docs t uri of None \<Rightarrow> entries_default | Some e \<Rightarrow> e)"

definition put_entry :: "'uri \<Rightarrow> nat \<Rightarrow> 'u uri_entries \<Rightarrow> ('uri, 'u) tracker \<Rightarrow> ('uri, 'u) tracker" where
  "put_entry uri n e t = t\<lparr>docs := (docs t)(uri \<mapsto> e), drawn := n\<rparr>"

definition remove_pristine_entry :: "'uri \<Rightarrow> ('uri, 'u) tracker \<Rightarrow> ('uri, 'u) tracker" where
  "remove_pristine_entry uri t =
     (case docs t uri of
        None \<Rightarrow> t
      | Some e \<Rightarrow> if shift_gen e = 0 \<and> entries_len e = 0 \<and> named_layers e = []
                  then t\<lparr>docs := (docs t)(uri := None)\<rparr> else t)"

text \<open>\<open>entries.entry(uri).or_default()\<close>, then the admission check under the lock.\<close>

definition under_lock ::
    "'uri \<Rightarrow> u64 \<Rightarrow> (nat \<times> 'u uri_entries \<Rightarrow> 'r option \<times> nat \<times> 'u uri_entries) \<Rightarrow> ('uri, 'u) tracker
      \<Rightarrow> 'r option \<times> ('uri, 'u) tracker" where
  "under_lock uri inc body t =
     (if \<not> admits_incarnation uri inc t
      then (None, remove_pristine_entry uri (put_entry uri (drawn t) (entry_of t uri) t))
      else let (r, n, e) = body (drawn t, entry_of t uri) in (r, put_entry uri n e t))"

section \<open>Single nodes\<close>

definition named_layer_locked ::
    "'uri \<Rightarrow> nat \<Rightarrow> string \<Rightarrow> u64 \<Rightarrow> ('uri, 'u) tracker \<Rightarrow> nat option \<times> ('uri, 'u) tracker" where
  "named_layer_locked uri pattern lang inc t =
     (if docs t uri \<noteq> None \<and> \<not> admits_incarnation uri inc t then (None, t)
      else under_lock uri inc (\<lambda>(n, e). let (r, e') = named_layer pattern lang inc e in (r, n, e')) t)"

definition named_layer_for_incarnation ::
    "'uri \<Rightarrow> nat \<Rightarrow> string \<Rightarrow> u64 \<Rightarrow> ('uri, 'u) tracker \<Rightarrow> nat option \<times> ('uri, 'u) tracker" where
  "named_layer_for_incarnation uri pattern lang inc t =
     (if \<not> admits_incarnation uri inc t then (None, t) else named_layer_locked uri pattern lang inc t)"

definition get_or_create_locked ::
    "(nat \<Rightarrow> 'u) \<Rightarrow> 'uri \<Rightarrow> position_key \<Rightarrow> u64 \<Rightarrow> ('uri, 'u) tracker \<Rightarrow> 'u option \<times> ('uri, 'u) tracker" where
  "get_or_create_locked gen uri k inc t = under_lock uri inc (get_or_insert gen k inc) t"

definition get_or_create_in_layer_for_incarnation ::
    "(nat \<Rightarrow> 'u) \<Rightarrow> 'uri \<Rightarrow> nat \<Rightarrow> nat \<Rightarrow> string \<Rightarrow> nat \<Rightarrow> u64 \<Rightarrow> ('uri, 'u) tracker
      \<Rightarrow> 'u option \<times> ('uri, 'u) tracker" where
  "get_or_create_in_layer_for_incarnation gen uri s e knd lay inc t =
     (if \<not> admits_incarnation uri inc t then (None, t)
      else get_or_create_locked gen uri \<lparr>start_byte = s, end_byte = e, kind = knd, layer = lay\<rparr> inc t)"

definition get_or_create_for_incarnation ::
    "(nat \<Rightarrow> 'u) \<Rightarrow> 'uri \<Rightarrow> nat \<Rightarrow> nat \<Rightarrow> string \<Rightarrow> u64 \<Rightarrow> ('uri, 'u) tracker
      \<Rightarrow> 'u option \<times> ('uri, 'u) tracker" where
  "get_or_create_for_incarnation gen uri s e knd inc t =
     get_or_create_in_layer_for_incarnation gen uri s e knd 0 inc t"

definition shift_generation :: "'uri \<Rightarrow> ('uri, 'u) tracker \<Rightarrow> u64" where
  "shift_generation uri t = (case docs t uri of None \<Rightarrow> 0 | Some e \<Rightarrow> shift_gen e)"

definition mint_epoch :: "'uri \<Rightarrow> ('uri, 'u) tracker \<Rightarrow> u64 \<times> u64" where
  "mint_epoch uri t = (shift_generation uri t, cleanup_epoch t)"

definition lookup_node ::
    "'uri \<Rightarrow> 'u \<Rightarrow> ('uri, 'u) tracker \<Rightarrow> (nat \<times> nat \<times> string \<times> nat \<times> u64) option" where
  "lookup_node uri u t = do {
     e \<leftarrow> docs t uri;
     p \<leftarrow> reverse e u;
     let k = p_key p;
     Some (start_byte k, end_byte k, kind k, layer k, p_incarnation p)
   }"

definition lookup_position ::
    "'uri \<Rightarrow> 'u \<Rightarrow> ('uri, 'u) tracker \<Rightarrow> (nat \<times> nat \<times> string \<times> u64) option" where
  "lookup_position uri u t = map_option (\<lambda>(s, e, knd, _, inc). (s, e, knd, inc)) (lookup_node uri u t)"

definition lookup_node_scope :: "'uri \<Rightarrow> 'u \<Rightarrow> ('uri, 'u) tracker \<Rightarrow> scoped_node option" where
  "lookup_node_scope uri u t = Option.bind (docs t uri) (\<lambda>e. scoped_node e u)"

definition lookup_node_scope_pair ::
    "'uri \<Rightarrow> 'u \<Rightarrow> 'u \<Rightarrow> ('uri, 'u) tracker \<Rightarrow> (scoped_node \<times> scoped_node) option" where
  "lookup_node_scope_pair uri first second t = do {
     e \<leftarrow> docs t uri;
     a \<leftarrow> scoped_node e first;
     b \<leftarrow> scoped_node e second;
     Some (a, b)
   }"

definition lookup_in_layer_for_incarnation ::
    "'uri \<Rightarrow> nat \<Rightarrow> nat \<Rightarrow> string \<Rightarrow> nat \<Rightarrow> u64 \<Rightarrow> ('uri, 'u) tracker \<Rightarrow> 'u option" where
  "lookup_in_layer_for_incarnation uri s e knd lay inc t = do {
     d \<leftarrow> docs t uri;
     tr \<leftarrow> map_of (forward d) \<lparr>start_byte = s, end_byte = e, kind = knd, layer = lay\<rparr>;
     if t_incarnation tr = inc then Some (t_ulid tr) else None
   }"

section \<open>Batches\<close>

text \<open>\<open>map(..).collect::<Option<Vec<_>>>()\<close>: stops at the first refusal.\<close>

fun mint_all ::
    "('k \<Rightarrow> nat \<times> 'u uri_entries \<Rightarrow> 'u option \<times> nat \<times> 'u uri_entries) \<Rightarrow> 'k list \<Rightarrow> nat \<times> 'u uri_entries
      \<Rightarrow> 'u list option \<times> nat \<times> 'u uri_entries" where
  "mint_all f [] ne = (Some [], ne)"
| "mint_all f (k # ks) ne =
     (case f k ne of
        (None, ne) \<Rightarrow> (None, ne)
      | (Some u, ne) \<Rightarrow> (let (r, ne) = mint_all f ks ne in (map_option (Cons u) r, ne)))"

definition tree_batch_body ::
    "(nat \<Rightarrow> 'u) \<Rightarrow> u64 \<times> u64 \<Rightarrow> u64 \<Rightarrow> u64 \<Rightarrow> tree_scope option \<Rightarrow> (nat \<times> nat \<times> string) list
      \<Rightarrow> nat \<times> 'u uri_entries \<Rightarrow> 'u list option \<times> nat \<times> 'u uri_entries" where
  "tree_batch_body gen expected epoch inc scope keys = (\<lambda>(n, e).
     if (shift_gen e, epoch) \<noteq> expected \<or> inc < latest_incarnation e then (None, n, e)
     else
       let e = (if latest_incarnation e < inc
                then e\<lparr>doc_scopes := scopes_default, latest_incarnation := inc\<rparr> else e)
       in if keys = [] then (Some [], n, e)
          else
            let (lay, e) = (case scope of
                  None \<Rightarrow> (Some 0, e)
                | Some sc \<Rightarrow> (let (tok, scs) = scopes_register sc (doc_scopes e) in (tok, e\<lparr>doc_scopes := scs\<rparr>)))
            in case lay of
                 None \<Rightarrow> (None, n, e)
               | Some lay \<Rightarrow>
                   mint_all (\<lambda>(s, t, knd). get_or_insert gen
                     \<lparr>start_byte = s, end_byte = t, kind = knd, layer = lay\<rparr> inc) keys (n, e))"

definition mint_tree_batch_locked where
  "mint_tree_batch_locked gen uri expected inc scope keys t =
     under_lock uri inc (tree_batch_body gen expected (cleanup_epoch t) inc scope keys) t"

definition mint_tree_batch where
  "mint_tree_batch gen uri expected inc scope keys t =
     (if \<not> admits_incarnation uri inc t then (None, t)
      else mint_tree_batch_locked gen uri expected inc scope keys t)"

definition named_batch_body ::
    "(nat \<Rightarrow> 'u) \<Rightarrow> u64 \<times> u64 \<Rightarrow> u64 \<Rightarrow> u64 \<Rightarrow> nat \<Rightarrow> (nat \<times> nat \<times> string \<times> nat \<times> string) list
      \<Rightarrow> nat \<times> 'u uri_entries \<Rightarrow> 'u list option \<times> nat \<times> 'u uri_entries" where
  "named_batch_body gen expected epoch inc layer_base keys = (\<lambda>(n, e).
     if (shift_gen e, epoch) \<noteq> expected then (None, n, e)
     else
       mint_all (\<lambda>(s, t, knd, pattern, lang) (n, e).
           case named_layer pattern lang inc e of
             (None, e) \<Rightarrow> (None, n, e)
           | (Some slot, e) \<Rightarrow>
               if usize_max < layer_base + slot then (None, n, e)
               else get_or_insert gen
                 \<lparr>start_byte = s, end_byte = t, kind = knd, layer = layer_base + slot\<rparr> inc (n, e))
         keys
         (n, reconcile_named_layers (map (\<lambda>(_, _, _, pattern, lang). (pattern, lang)) keys) layer_base e))"

definition mint_named_batch_locked where
  "mint_named_batch_locked gen uri expected inc layer_base keys t =
     under_lock uri inc (named_batch_body gen expected (cleanup_epoch t) inc layer_base keys) t"

definition mint_named_batch_if_unshifted_for_incarnation where
  "mint_named_batch_if_unshifted_for_incarnation gen uri expected inc layer_base keys t =
     (if \<not> admits_incarnation uri inc t then (None, t)
      else mint_named_batch_locked gen uri expected inc layer_base keys t)"

definition commit_locked ::
    "'uri \<Rightarrow> u64 \<times> u64 \<Rightarrow> u64 \<Rightarrow> 'r \<Rightarrow> ('uri, 'u) tracker \<Rightarrow> 'r option \<times> ('uri, 'u) tracker" where
  "commit_locked uri expected inc result t =
     under_lock uri inc (\<lambda>(n, e).
       (if (shift_gen e, cleanup_epoch t) \<noteq> expected then None else Some result, n, e)) t"

definition commit_if_unshifted ::
    "'uri \<Rightarrow> u64 \<times> u64 \<Rightarrow> u64 \<Rightarrow> 'r \<Rightarrow> ('uri, 'u) tracker \<Rightarrow> 'r option \<times> ('uri, 'u) tracker" where
  "commit_if_unshifted uri expected inc result t =
     (if \<not> admits_incarnation uri inc t then (None, t) else commit_locked uri expected inc result t)"

definition lookup_tree_batch ::
    "(nat \<Rightarrow> 'u) \<Rightarrow> 'uri \<Rightarrow> u64 \<Rightarrow> tree_scope option \<Rightarrow> (nat \<times> nat \<times> string) list \<Rightarrow> ('uri, 'u) tracker
      \<Rightarrow> 'u list \<times> ('uri, 'u) tracker" where
  "lookup_tree_batch gen uri inc scope keys t =
     (let lay = (case scope of
            None \<Rightarrow> Some 0
          | Some sc \<Rightarrow> Option.bind (docs t uri) (\<lambda>e. scopes_get (doc_scopes e) sc));
          look = (\<lambda>(s, e, knd). Option.bind lay (\<lambda>l. lookup_in_layer_for_incarnation uri s e knd l inc t));
          (us, n) = foldl (\<lambda>(us, n) k. case look k of Some u \<Rightarrow> (us @ [u], n) | None \<Rightarrow> (us @ [gen n], n + 1))
                      ([], drawn t) keys
      in (us, t\<lparr>drawn := n\<rparr>))"

section \<open>Edits and lifetimes\<close>

definition apply_single_edit :: "'uri \<Rightarrow> edit_info \<Rightarrow> ('uri, 'u) tracker \<Rightarrow> 'u list \<times> ('uri, 'u) tracker" where
  "apply_single_edit uri ed t =
     (let (dead, e) = apply_edit_to_entries ed (entry_of t uri) in (dead, put_entry uri (drawn t) e t))"

fun apply_input_edits :: "'uri \<Rightarrow> edit_info list \<Rightarrow> ('uri, 'u) tracker \<Rightarrow> 'u list \<times> ('uri, 'u) tracker" where
  "apply_input_edits uri [] t = ([], t)"
| "apply_input_edits uri (ed # eds) t =
     (if e_old_end ed < e_start ed then apply_input_edits uri eds t
      else let (dead, t) = apply_single_edit uri ed t; (dead', t) = apply_input_edits uri eds t
           in (dead @ dead', t))"

definition retain_tree_scopes ::
    "'uri \<Rightarrow> u64 \<times> u64 \<Rightarrow> u64 \<Rightarrow> tree_scope list \<Rightarrow> unresolved_scope list \<Rightarrow> u64 \<Rightarrow> ('uri, 'u) tracker
      \<Rightarrow> ('uri, 'u) tracker" where
  "retain_tree_scopes uri expected inc current unresolved generation t =
     (case docs t uri of
        None \<Rightarrow> t
      | Some e \<Rightarrow>
          if \<not> admits_incarnation uri inc t \<or> (shift_gen e, cleanup_epoch t) \<noteq> expected then t
          else
            let (retired, scs) = retire_absent current unresolved (doc_scopes e);
                e = e\<lparr>doc_scopes := scs\<lparr>reconciled_query_generation := Some generation\<rparr>\<rparr>;
                retired_ids = map (t_ulid \<circ> snd) (filter (\<lambda>(k, _). layer k \<in> set retired) (forward e));
                e = (if retired = [] then e
                     else e\<lparr>forward := filter (\<lambda>(k, _). layer k \<notin> set retired) (forward e),
                            reverse := drop_ids retired_ids (reverse e)\<rparr>)
            in put_entry uri (drawn t) e t)"

definition tree_scope_needs_reconciliation :: "'uri \<Rightarrow> u64 \<Rightarrow> ('uri, 'u) tracker \<Rightarrow> bool" where
  "tree_scope_needs_reconciliation uri generation t =
     (case docs t uri of
        None \<Rightarrow> False
      | Some e \<Rightarrow> \<not> scopes_empty (doc_scopes e) \<and>
          (reconciliation_pending (doc_scopes e) \<or>
           reconciled_query_generation (doc_scopes e) \<noteq> Some generation))"

definition cleanup :: "'uri \<Rightarrow> u64 \<Rightarrow> ('uri, 'u) tracker \<Rightarrow> ('uri, 'u) tracker" where
  "cleanup uri closing t =
     (let t = t\<lparr>cleanup_epoch := cleanup_epoch t + 1\<rparr>;
          t = t\<lparr>incarnations := (incarnations t)(uri \<mapsto>
                 (case incarnations t uri of
                    None \<Rightarrow> None
                  | Some current \<Rightarrow> if current = Some closing then None else current))\<rparr>
      in case docs t uri of
           None \<Rightarrow> t
         | Some e \<Rightarrow>
             let e = retain_newer_than closing e
             in t\<lparr>docs := (docs t)(uri := if entries_len e = 0 \<and> named_layers e = [] then None else Some e)\<rparr>)"

end
