(* ===== verification/Histories.thy ===== *)
theory Histories
  imports Prelude
begin

text \<open>
  The contract between a component that changes its state in atomic steps (the code runs each
  under a lock) and a statement about everything that can happen to it: an invariant that
  every step keeps, and a relation on states that every step satisfies and that composes.
  A client proves what a whole history does from what one step does.
\<close>

locale history =
  fixes ok :: "'s \<Rightarrow> bool"
    and moves :: "'s \<Rightarrow> 's \<Rightarrow> bool"
    and step :: "'op \<Rightarrow> 's \<Rightarrow> 's"
  assumes moves_refl: "ok s \<Longrightarrow> moves s s"
    and moves_trans: "ok s \<Longrightarrow> moves s s' \<Longrightarrow> moves s' s'' \<Longrightarrow> moves s s''"
    and step_ok: "ok s \<Longrightarrow> ok (step x s)"
    and step_moves: "ok s \<Longrightarrow> moves s (step x s)"
begin

lemma run_ok: "ok s \<Longrightarrow> ok (fold step xs s)"
  by (induction xs arbitrary: s) (simp_all add: step_ok)

lemma run_moves: "ok s \<Longrightarrow> moves s (fold step xs s)"
proof (induction xs arbitrary: s)
  case (Cons x xs)
  then show ?case using moves_trans step_moves step_ok by (metis fold_Cons comp_apply)
qed (simp add: moves_refl)

text \<open>What holds now and is preserved by every step from a legal state holds for good.\<close>

lemma run_preserves:
  assumes "ok s" "P s" "\<And>x s. ok s \<Longrightarrow> P s \<Longrightarrow> P (step x s)"
  shows "P (fold step xs s)"
  using assms(1,2) by (induction xs arbitrary: s) (simp_all add: assms(3) step_ok)

end

end
