(* ===== verification/Node_Tracker_Laws.thy ===== *)
theory Node_Tracker_Laws
  imports Node_Tracker Histories
begin

text \<open>
  What every operation of the tracker keeps: each document's index is one relation read in
  two directions, no id is shared by two documents, and an operation adds only ids that it
  draws itself. The lemmas follow the code: laws of the lock discipline once, then one lemma
  per operation body.
\<close>

section \<open>The invariant\<close>

definition ids_of :: "('uri, 'u) tracker \<Rightarrow> 'uri \<Rightarrow> 'u set" where
  "ids_of t uri = ids (entry_of t uri)"

definition tracker_ok :: "(nat \<Rightarrow> 'u) \<Rightarrow> ('uri, 'u) tracker \<Rightarrow> bool" where
  "tracker_ok gen t \<longleftrightarrow> (\<forall>uri. index_ok gen (drawn t) (entry_of t uri)) \<and>
     (\<forall>uri uri'. uri \<noteq> uri' \<longrightarrow> ids_of t uri \<inter> ids_of t uri' = {})"

definition advances :: "(nat \<Rightarrow> 'u) \<Rightarrow> ('uri, 'u) tracker \<Rightarrow> ('uri, 'u) tracker \<Rightarrow> bool" where
  "advances gen t t' \<longleftrightarrow> tracker_ok gen t' \<and> drawn t \<le> drawn t' \<and>
     (\<forall>uri. ids_of t' uri \<subseteq> ids_of t uri \<union> gen ` {drawn t..<drawn t'})"

lemma entry_of_put: "entry_of (put_entry uri n e t) v = (if v = uri then e else entry_of t v)"
  by (simp add: entry_of_def put_entry_def)

lemma put_fields [simp]:
  "drawn (put_entry uri n e t) = n" "cleanup_epoch (put_entry uri n e t) = cleanup_epoch t"
  "incarnations (put_entry uri n e t) = incarnations t"
  by (simp_all add: put_entry_def)

lemma advances_refl: "tracker_ok gen t \<Longrightarrow> advances gen t t"
  by (simp add: advances_def)

lemma advances_trans: "advances gen t t' \<Longrightarrow> advances gen t' t'' \<Longrightarrow> advances gen t t''"
  unfolding advances_def by (fastforce simp: image_iff)

lemma index_ok_mono: "index_ok gen n e \<Longrightarrow> n \<le> m \<Longrightarrow> index_ok gen m e"
  unfolding index_ok_def drawn_below_def by fastforce

lemma tracker_new_ok: "tracker_ok gen tracker_new"
  by (simp add: tracker_ok_def tracker_new_def ids_of_def entry_of_def entries_default_ok ids_def
      entries_default_def [THEN arg_cong [of _ _ forward]])

lemma ids_drawn: "tracker_ok gen t \<Longrightarrow> ids_of t uri \<subseteq> gen ` {..<drawn t}"
  by (fastforce simp: tracker_ok_def index_ok_def drawn_below_def ids_of_def ids_def)

lemma ids_disjoint: "tracker_ok gen t \<Longrightarrow> uri \<noteq> uri' \<Longrightarrow> ids_of t uri \<inter> ids_of t uri' = {}"
  unfolding tracker_ok_def by blast

lemma entries_advance:
  assumes "inj gen" "tracker_ok gen t" "drawn t \<le> drawn t'"
    and "\<And>v. index_ok gen (drawn t') (entry_of t' v)"
    and "\<And>v. v \<noteq> uri \<Longrightarrow> ids_of t' v \<subseteq> ids_of t v"
    and "ids_of t' uri \<subseteq> ids_of t uri \<union> gen ` {drawn t..<drawn t'}"
  shows "advances gen t t'"
proof -
  have fresh: "gen ` {drawn t..<drawn t'} \<inter> ids_of t v = {}" for v
    using ids_drawn [OF assms(2)] injD [OF assms(1)] by fastforce
  have "ids_of t' v \<inter> ids_of t' w = {}" if "v \<noteq> w" for v w
  proof -
    have disj: "ids_of t v \<inter> ids_of t w = {}" using assms(2) that by (simp add: tracker_ok_def)
    show ?thesis
    proof (cases "v = uri")
      case True
      then show ?thesis using disj assms(5) [of w] that assms(6) fresh [of w] by blast
    next
      case v: False
      show ?thesis
      proof (cases "w = uri")
        case True
        then show ?thesis using disj assms(5) [of v] v assms(6) fresh [of v] by blast
      next
        case False
        then show ?thesis using disj assms(5) [of v] assms(5) [of w] v by blast
      qed
    qed
  qed
  moreover have "ids_of t' v \<subseteq> ids_of t v \<union> gen ` {drawn t..<drawn t'}" for v
    using assms(5) [of v] assms(6) by (cases "v = uri") auto
  ultimately show ?thesis using assms(3,4) by (simp add: advances_def tracker_ok_def)
qed

lemma put_entry_advances:
  assumes "inj gen" "tracker_ok gen t" "mint_ok gen (drawn t) (entry_of t uri) n e"
  shows "advances gen t (put_entry uri n e t)"
proof (rule entries_advance [OF assms(1,2), where uri = uri])
  show "index_ok gen (drawn (put_entry uri n e t)) (entry_of (put_entry uri n e t) v)" for v
    using assms(2,3) index_ok_mono by (fastforce simp: entry_of_put mint_ok_def tracker_ok_def)
qed (use assms(3) in \<open>auto simp: mint_ok_def ids_of_def entry_of_put\<close>)

section \<open>The lock discipline\<close>

definition body_ok :: "(nat \<Rightarrow> 'u) \<Rightarrow> (nat \<times> 'u uri_entries \<Rightarrow> 'r option \<times> nat \<times> 'u uri_entries) \<Rightarrow> bool" where
  "body_ok gen body \<longleftrightarrow> (\<forall>n e r n' e'. index_ok gen n e \<longrightarrow> body (n, e) = (r, n', e') \<longrightarrow> mint_ok gen n e n' e')"

lemma body_okI:
  "(\<And>n e r n' e'. index_ok gen n e \<Longrightarrow> body (n, e) = (r, n', e') \<Longrightarrow> mint_ok gen n e n' e') \<Longrightarrow> body_ok gen body"
  by (simp add: body_ok_def)

lemma mint_ok_refl: "index_ok gen n e \<Longrightarrow> mint_ok gen n e n e"
  by (simp add: mint_ok_def)

lemma mint_ok_trans: "mint_ok gen n e n' e' \<Longrightarrow> mint_ok gen n' e' n'' e'' \<Longrightarrow> mint_ok gen n e n'' e''"
  unfolding mint_ok_def by (fastforce simp: image_iff)

lemma pristine_entry:
  "entry_of (remove_pristine_entry uri t) v = entry_of t v \<or>
   v = uri \<and> entry_of (remove_pristine_entry uri t) v = entries_default \<and> ids_of t v = {} \<and>
     shift_gen (entry_of t v) = 0"
  by (auto simp: remove_pristine_entry_def entry_of_def ids_of_def ids_def entries_len_def split: option.splits)

lemma pristine_fields [simp]:
  "drawn (remove_pristine_entry uri t) = drawn t"
  "cleanup_epoch (remove_pristine_entry uri t) = cleanup_epoch t"
  "incarnations (remove_pristine_entry uri t) = incarnations t"
  by (simp_all add: remove_pristine_entry_def split: option.splits)

lemma default_ids [simp]: "ids entries_default = {}"
  by (simp add: ids_def entries_default_def)

lemma pristine_advances:
  assumes "inj gen" "tracker_ok gen t"
  shows "advances gen t (remove_pristine_entry uri t)"
proof (rule entries_advance [OF assms, where uri = uri])
  show "index_ok gen (drawn (remove_pristine_entry uri t)) (entry_of (remove_pristine_entry uri t) v)" for v
    using pristine_entry [of uri t v] assms(2) entries_default_ok [of gen "drawn t"]
    by (auto simp: tracker_ok_def)
  show "ids_of (remove_pristine_entry uri t) v \<subseteq> ids_of t v" for v
    using pristine_entry [of uri t v] by (auto simp: ids_of_def)
  then show "ids_of (remove_pristine_entry uri t) uri
      \<subseteq> ids_of t uri \<union> gen ` {drawn t..<drawn (remove_pristine_entry uri t)}" by blast
qed simp

lemma under_lock_advances:
  assumes "inj gen" "tracker_ok gen t" "body_ok gen body"
  shows "advances gen t (snd (under_lock uri inc body t))"
proof (cases "admits_incarnation uri inc t")
  case True
  obtain r n e where b: "body (drawn t, entry_of t uri) = (r, n, e)" by (cases "body (drawn t, entry_of t uri)")
  then have "mint_ok gen (drawn t) (entry_of t uri) n e"
    using assms(2,3) by (simp add: body_ok_def tracker_ok_def)
  then show ?thesis using put_entry_advances [OF assms(1,2)] True b by (simp add: under_lock_def)
next
  case False
  have put: "advances gen t (put_entry uri (drawn t) (entry_of t uri) t)"
    using assms(2) by (intro put_entry_advances assms mint_ok_refl) (simp add: tracker_ok_def)
  then have "advances gen (put_entry uri (drawn t) (entry_of t uri) t)
      (remove_pristine_entry uri (put_entry uri (drawn t) (entry_of t uri) t))"
    by (intro pristine_advances assms) (simp add: advances_def)
  then show ?thesis using False advances_trans [OF put] by (simp add: under_lock_def)
qed

section \<open>Operation bodies\<close>

lemma lifetimes_mono:
  assumes "lifetimes_ok e" "forward e' = forward e"
    and "latest_incarnation e < latest_incarnation e' \<or> latest_incarnation e = latest_incarnation e' \<and>
      (\<forall>l. scopes_contains (doc_scopes e) l \<longrightarrow> scopes_contains (doc_scopes e') l)"
  shows "lifetimes_ok e'"
  using assms unfolding lifetimes_ok_def by (fastforce simp: case_prod_unfold)

lemma get_or_insert_body: "inj gen \<Longrightarrow> body_ok gen (get_or_insert gen k inc)"
  by (rule body_okI) (rule get_or_insert_ok)

lemma named_layer_index:
  assumes "index_ok gen n e" "named_layer p l inc e = (r, e')"
  shows "index_ok gen n e' \<and> ids e' = ids e"
proof -
  have *: "named_ok e' \<and> forward e' = forward e \<and> reverse e' = reverse e \<and> doc_scopes e' = doc_scopes e \<and>
    shift_gen e' = shift_gen e \<and> latest_incarnation e \<le> latest_incarnation e'"
    using named_layer_ok [of e p l inc r e'] assms by (simp add: index_ok_def)
  then have "lifetimes_ok e'"
    using lifetimes_mono [of e e'] assms(1) by (simp add: index_ok_def order_le_less)
  moreover have "sync e'" using sync_cong [of e e'] * assms(1) by (simp add: index_ok_def)
  moreover have "drawn_below gen n e'" "scopes_ok (doc_scopes e')" "ids e' = ids e"
    using * assms(1) by (simp_all add: index_ok_def drawn_below_def ids_def)
  ultimately show ?thesis using * by (simp add: index_ok_def)
qed

lemma named_layer_body: "body_ok gen (\<lambda>(n, e). let (r, e') = named_layer p l inc e in (r, n, e'))"
proof (rule body_okI)
  fix n e r n' e' assume a: "index_ok gen n e" "(\<lambda>(n, e). let (r, e') = named_layer p l inc e in (r, n, e')) (n, e) = (r, n', e')"
  obtain r1 e1 where "named_layer p l inc e = (r1, e1)" by (cases "named_layer p l inc e")
  then show "mint_ok gen n e n' e'" using a named_layer_index [of gen n e p l inc r1 e1] by (simp add: mint_ok_def)
qed

lemma mint_all_body: "(\<And>k. k \<in> set ks \<Longrightarrow> body_ok gen (f k)) \<Longrightarrow> body_ok gen (mint_all f ks)"
proof (induction ks)
  case Nil
  show ?case by (rule body_okI) (simp add: mint_ok_refl)
next
  case (Cons k ks)
  show ?case
  proof (rule body_okI)
    fix n e r n' e' assume a: "index_ok gen n e" "mint_all f (k # ks) (n, e) = (r, n', e')"
    obtain u n1 e1 where k: "f k (n, e) = (u, n1, e1)" by (cases "f k (n, e)")
    have m1: "mint_ok gen n e n1 e1" using Cons.prems [of k] a(1) k by (simp add: body_ok_def)
    show "mint_ok gen n e n' e'"
    proof (cases u)
      case None
      then show ?thesis using m1 a(2) k by simp
    next
      case (Some w)
      obtain r2 n2 e2 where m: "mint_all f ks (n1, e1) = (r2, n2, e2)" by (cases "mint_all f ks (n1, e1)")
      have ih: "body_ok gen (mint_all f ks)" by (rule Cons.IH) (rule Cons.prems, simp)
      have "index_ok gen n1 e1" using m1 by (simp add: mint_ok_def)
      then have "mint_ok gen n1 e1 n2 e2" using ih m unfolding body_ok_def by blast
      then show ?thesis using mint_ok_trans [OF m1] a(2) k m Some by simp
    qed
  qed
qed

text \<open>A batch for a parse scope starts a new lifetime of the document if its own is newer.\<close>

definition enter_lifetime :: "u64 \<Rightarrow> 'u uri_entries \<Rightarrow> 'u uri_entries" where
  "enter_lifetime inc e =
     (if latest_incarnation e < inc then e\<lparr>doc_scopes := scopes_default, latest_incarnation := inc\<rparr> else e)"

lemma enter_lifetime_index:
  assumes "index_ok gen n e"
  shows "index_ok gen n (enter_lifetime inc e) \<and> forward (enter_lifetime inc e) = forward e"
proof -
  let ?e = "enter_lifetime inc e"
  have f: "forward ?e = forward e" "reverse ?e = reverse e" by (simp_all add: enter_lifetime_def)
  note e = assms [unfolded index_ok_def]
  have "sync ?e" by (rule sync_cong [OF _ f]) (use e in simp)
  moreover have "lifetimes_ok ?e"
    by (rule lifetimes_mono [of e]) (use e in \<open>simp_all add: enter_lifetime_def\<close>)
  moreover have "drawn_below gen n ?e" using e by (simp add: drawn_below_def f)
  moreover have "named_ok ?e"
    using e by (simp add: enter_lifetime_def named_ok_def slots_of_def)
  moreover have "scopes_ok (doc_scopes ?e)" using e scopes_default_ok by (simp add: enter_lifetime_def)
  ultimately show ?thesis by (simp add: index_ok_def f)
qed

lemma register_index:
  assumes "index_ok gen n e" "scopes_register sc (doc_scopes e) = (r, scs)"
  shows "index_ok gen n (e\<lparr>doc_scopes := scs\<rparr>)"
proof -
  have ok: "scopes_ok (doc_scopes e)" using assms(1) by (simp add: index_ok_def)
  have "lifetimes_ok (e\<lparr>doc_scopes := scs\<rparr>)"
    by (rule lifetimes_mono [of e])
      (use assms(1) scopes_register_fields [OF ok assms(2)] in \<open>simp_all add: index_ok_def\<close>)
  moreover have "sync (e\<lparr>doc_scopes := scs\<rparr>)"
    by (rule sync_cong [of e]) (use assms(1) in \<open>simp_all add: index_ok_def\<close>)
  ultimately show ?thesis using assms(1) scopes_register_ok [OF ok assms(2)]
    by (simp add: index_ok_def drawn_below_def named_ok_def slots_of_def)
qed

text \<open>The layer of a batch, and the index in which its nodes are minted.\<close>

definition scope_token :: "tree_scope option \<Rightarrow> 'u uri_entries \<Rightarrow> nat option \<times> 'u uri_entries" where
  "scope_token scope e =
     (case scope of
        None \<Rightarrow> (Some 0, e)
      | Some sc \<Rightarrow> (let (tok, scs) = scopes_register sc (doc_scopes e) in (tok, e\<lparr>doc_scopes := scs\<rparr>)))"

lemma scope_token_index:
  assumes "index_ok gen n e" "scope_token scope e = (tok, e')"
  shows "index_ok gen n e' \<and> forward e' = forward e \<and> reverse e' = reverse e"
proof (cases scope)
  case (Some sc)
  obtain r scs where "scopes_register sc (doc_scopes e) = (r, scs)" by (cases "scopes_register sc (doc_scopes e)")
  then show ?thesis using assms(2) Some register_index [OF assms(1)] by (auto simp: scope_token_def)
qed (use assms in \<open>simp add: scope_token_def\<close>)

lemma tree_batch_cases:
  obtains (refused) "tree_batch_body gen expected epoch inc scope keys (n, e) = (None, n, e)"
      "(shift_gen e, epoch) \<noteq> expected \<or> inc < latest_incarnation e"
  | (no_keys) "keys = []"
      "tree_batch_body gen expected epoch inc scope keys (n, e) = (Some [], n, enter_lifetime inc e)"
      "(shift_gen e, epoch) = expected" "latest_incarnation e \<le> inc"
  | (exhausted) e' where "keys \<noteq> []" "scope_token scope (enter_lifetime inc e) = (None, e')"
      "tree_batch_body gen expected epoch inc scope keys (n, e) = (None, n, e')"
      "(shift_gen e, epoch) = expected" "latest_incarnation e \<le> inc"
  | (minted) lay e' where "keys \<noteq> []" "scope_token scope (enter_lifetime inc e) = (Some lay, e')"
      "tree_batch_body gen expected epoch inc scope keys (n, e) =
       mint_all (\<lambda>(s, t, knd). get_or_insert gen
         \<lparr>start_byte = s, end_byte = t, kind = knd, layer = lay\<rparr> inc) keys (n, e')"
      "(shift_gen e, epoch) = expected" "latest_incarnation e \<le> inc"
proof (cases "(shift_gen e, epoch) \<noteq> expected \<or> inc < latest_incarnation e")
  case True
  then show ?thesis using refused by (auto simp: tree_batch_body_def)
next
  case False
  obtain r e' where t: "scope_token scope (enter_lifetime inc e) = (r, e')"
    by (cases "scope_token scope (enter_lifetime inc e)")
  have "tree_batch_body gen expected epoch inc scope keys (n, e) =
    (if keys = [] then (Some [], n, enter_lifetime inc e)
     else case r of None \<Rightarrow> (None, n, e')
       | Some lay \<Rightarrow> mint_all (\<lambda>(s, t, knd). get_or_insert gen
           \<lparr>start_byte = s, end_byte = t, kind = knd, layer = lay\<rparr> inc) keys (n, e'))"
    using False t
    by (cases scope; cases "latest_incarnation e < inc"; cases "scopes_register (the scope) scopes_default";
        cases "scopes_register (the scope) (doc_scopes e)")
      (auto simp: tree_batch_body_def enter_lifetime_def scope_token_def Let_def)
  then show ?thesis using False t no_keys exhausted minted
    by (cases "keys = []"; cases r) auto
qed

lemma tree_batch_body_ok:
  fixes gen :: "nat \<Rightarrow> 'u"
  assumes "inj gen"
  shows "body_ok gen (tree_batch_body gen expected epoch inc scope keys)"
proof (rule body_okI)
  fix n and e e' :: "'u uri_entries" and r n'
  assume e: "index_ok gen n e" and b: "tree_batch_body gen expected epoch inc scope keys (n, e) = (r, n', e')"
  note life = enter_lifetime_index [OF e, of inc]
  show "mint_ok gen n e n' e'"
  proof (cases rule: tree_batch_cases [of gen expected epoch inc scope keys n e])
    case refused
    then show ?thesis using e b by (simp add: mint_ok_refl)
  next
    case no_keys
    then show ?thesis using life b by (auto simp: mint_ok_def ids_def)
  next
    case (exhausted e1)
    then show ?thesis using life b scope_token_index [of gen n "enter_lifetime inc e" scope None e1]
      by (auto simp: mint_ok_def ids_def)
  next
    case (minted lay e1)
    have e1: "mint_ok gen n e n e1"
      using life scope_token_index [OF _ minted(2)] by (auto simp: mint_ok_def ids_def)
    have "body_ok gen (mint_all (\<lambda>(s, t, knd). get_or_insert gen
         \<lparr>start_byte = s, end_byte = t, kind = knd, layer = lay\<rparr> inc) keys)"
      by (rule mint_all_body) (auto simp: case_prod_unfold intro: get_or_insert_body assms)
    then have "mint_ok gen n e1 n' e'"
      using minted(3) b e1 unfolding body_ok_def mint_ok_def [of gen n e n e1] by metis
    then show ?thesis by (rule mint_ok_trans [OF e1])
  qed
qed

lemma named_batch_body_ok:
  fixes gen :: "nat \<Rightarrow> 'u"
  assumes "inj gen"
  shows "body_ok gen (named_batch_body gen expected epoch inc layer_base keys)"
proof (rule body_okI)
  fix n and e e' :: "'u uri_entries" and r n'
  assume e: "index_ok gen n e" and b: "named_batch_body gen expected epoch inc layer_base keys (n, e) = (r, n', e')"
  define f where "f = (\<lambda>(s, t, knd, pattern, lang) (n, e :: 'u uri_entries).
           case named_layer pattern lang inc e of
             (None, e) \<Rightarrow> (None, n, e)
           | (Some slot, e) \<Rightarrow>
               if usize_max < layer_base + slot then (None, n, e)
               else get_or_insert gen
                 \<lparr>start_byte = s, end_byte = t, kind = knd, layer = layer_base + slot\<rparr> inc (n, e))"
  have one: "body_ok gen (f k)" for k
  proof (rule body_okI)
    fix n and e e' :: "'u uri_entries" and r n' assume e: "index_ok gen n e" and k: "f k (n, e) = (r, n', e')"
    obtain s t knd p l where kk: "k = (s, t, knd, p, l)" by (cases k)
    obtain o1 e1 where l: "named_layer p l inc e = (o1, e1)" by (cases "named_layer p l inc e")
    have m1: "mint_ok gen n e n e1" using named_layer_index [OF e l] by (simp add: mint_ok_def)
    show "mint_ok gen n e n' e'"
    proof (cases "\<exists>slot. o1 = Some slot \<and> layer_base + slot \<le> usize_max")
      case True
      then obtain slot where "get_or_insert gen
          \<lparr>start_byte = s, end_byte = t, kind = knd, layer = layer_base + slot\<rparr> inc (n, e1) = (r, n', e')"
        using k by (auto simp: f_def kk l)
      then have "mint_ok gen n e1 n' e'"
        using get_or_insert_ok [OF assms] m1 unfolding mint_ok_def [of gen n e n e1] by blast
      then show ?thesis by (rule mint_ok_trans [OF m1])
    next
      case False
      then have "n' = n \<and> e' = e1" using k by (auto simp: f_def kk l split: option.splits if_splits)
      then show ?thesis using m1 by simp
    qed
  qed
  let ?e = "reconcile_named_layers (map (\<lambda>(_, _, _, pattern, lang). (pattern, lang)) keys) layer_base e"
  have m1: "mint_ok gen n e n ?e"
    using reconcile_ok [OF e] ids_filter [OF reconcile_fields(3) [where e = e]] by (simp add: mint_ok_def)
  show "mint_ok gen n e n' e'"
  proof (cases "(shift_gen e, epoch) = expected")
    case True
    then have "mint_all f keys (n, ?e) = (r, n', e')"
      using b unfolding named_batch_body_def f_def by simp
    then have "mint_ok gen n ?e n' e'"
      using mint_all_body [of keys gen f] one m1 unfolding body_ok_def mint_ok_def [of gen n e n ?e] by blast
    then show ?thesis by (rule mint_ok_trans [OF m1])
  next
    case False
    then show ?thesis using b e by (simp add: named_batch_body_def mint_ok_refl)
  qed
qed

lemma commit_body: "body_ok gen (\<lambda>(n, e). (f e, n, e))"
  by (rule body_okI) (simp add: mint_ok_refl)

section \<open>Edits and lifetimes\<close>

lemma edit_advances:
  assumes "inj gen" "tracker_ok gen t"
  shows "advances gen t (snd (apply_single_edit uri ed t))"
proof -
  obtain dead e where ed: "apply_edit_to_entries ed (entry_of t uri) = (dead, e)"
    by (cases "apply_edit_to_entries ed (entry_of t uri)")
  have "index_ok gen (drawn t) (entry_of t uri)" using assms(2) by (simp add: tracker_ok_def)
  from apply_edit_ok [OF this ed] have "mint_ok gen (drawn t) (entry_of t uri) (drawn t) e"
    by (auto simp: mint_ok_def edit_result_def)
  then show ?thesis using put_entry_advances [OF assms] by (simp add: apply_single_edit_def ed)
qed

text \<open>The index that retiring absent parse scopes leaves.\<close>

definition retire_scopes ::
    "tree_scope list \<Rightarrow> unresolved_scope list \<Rightarrow> u64 \<Rightarrow> 'u uri_entries \<Rightarrow> 'u uri_entries" where
  "retire_scopes current unresolved generation e =
     (let (retired, scs) = retire_absent current unresolved (doc_scopes e)
      in e\<lparr>doc_scopes := scs\<lparr>reconciled_query_generation := Some generation\<rparr>,
           forward := filter (\<lambda>(k, _). layer k \<notin> set retired) (forward e),
           reverse := drop_ids (map (t_ulid \<circ> snd) (filter (\<lambda>(k, _). layer k \<in> set retired) (forward e))) (reverse e)\<rparr>)"

lemma retain_tree_scopes_eq:
  "retain_tree_scopes uri expected inc current unresolved generation t =
     (if docs t uri = None \<or> \<not> admits_incarnation uri inc t \<or>
         (shift_gen (entry_of t uri), cleanup_epoch t) \<noteq> expected then t
      else put_entry uri (drawn t) (retire_scopes current unresolved generation (entry_of t uri)) t)"
  by (cases "docs t uri"; cases "retire_absent current unresolved (doc_scopes (entry_of t uri))")
    (auto simp: retain_tree_scopes_def retire_scopes_def entry_of_def drop_ids_Nil Let_def)

lemma retire_scopes_ok:
  assumes "index_ok gen n e"
  shows "mint_ok gen n e n (retire_scopes current unresolved generation e)"
proof -
  obtain retired scs where r: "retire_absent current unresolved (doc_scopes e) = (retired, scs)"
    by (cases "retire_absent current unresolved (doc_scopes e)")
  let ?e = "retire_scopes current unresolved generation e"
  have f: "forward ?e = filter (\<lambda>(k, _). layer k \<notin> set retired) (forward e)"
    "reverse ?e = drop_ids (map (t_ulid \<circ> snd) (filter (\<lambda>(k, _). layer k \<in> set retired) (forward e))) (reverse e)"
    "doc_scopes ?e = scs\<lparr>reconciled_query_generation := Some generation\<rparr>"
    "latest_incarnation ?e = latest_incarnation e" "named_layers ?e = named_layers e"
    "next_named_layer ?e = next_named_layer e" "free_named_layers ?e = free_named_layers e"
    by (simp_all add: retire_scopes_def r)
  have sync: "sync e" using assms by (simp add: index_ok_def)
  have "sync ?e"
  proof (rule sync_filter [OF sync f(1)])
    show "reverse ?e u = (case reverse e u of None \<Rightarrow> None
      | Some p \<Rightarrow> if (case (p_key p, \<lparr>t_ulid = u, t_incarnation = p_incarnation p\<rparr>) of (k, _) \<Rightarrow> layer k \<notin> set retired)
        then Some p else None)" for u
      using drop_ids_filter [OF sync, where P = "\<lambda>(k, _). layer k \<notin> set retired" and u = u]
      by (simp add: f(2) case_prod_unfold)
  qed
  moreover have "drawn_below gen n ?e"
    by (rule drawn_filter [OF _ f(1)]) (use assms in \<open>simp add: index_ok_def\<close>)
  moreover have "scopes_contains (doc_scopes ?e) l \<longleftrightarrow> scopes_contains scs l" for l
    by (simp add: f scopes_contains_iff)
  then have "lifetimes_ok ?e"
    using assms retire_absent_contains [OF r] by (fastforce simp: index_ok_def lifetimes_ok_def f(1,4))
  moreover have "scopes_ok (doc_scopes ?e)"
    using retire_absent_ok [of "doc_scopes e" current unresolved] assms r
    by (simp add: f scopes_ok_def index_ok_def)
  moreover have "named_ok ?e" using assms by (simp add: index_ok_def named_ok_def slots_of_def f)
  ultimately show ?thesis using ids_filter [OF f(1)] by (auto simp: mint_ok_def index_ok_def)
qed

lemma retain_advances:
  assumes "inj gen" "tracker_ok gen t"
  shows "advances gen t (retain_tree_scopes uri expected inc current unresolved generation t)"
proof -
  have "index_ok gen (drawn t) (entry_of t uri)" using assms(2) by (simp add: tracker_ok_def)
  from put_entry_advances [OF assms retire_scopes_ok [OF this]] advances_refl [OF assms(2)]
  show ?thesis by (simp add: retain_tree_scopes_eq)
qed

lemma cleanup_entry:
  "entry_of (cleanup uri closing t) v =
     (if v = uri \<and> docs t uri \<noteq> None then
        let e = retain_newer_than closing (entry_of t uri)
        in if entries_len e = 0 \<and> named_layers e = [] then entries_default else e
      else entry_of t v)"
  "drawn (cleanup uri closing t) = drawn t"
  by (auto simp: cleanup_def entry_of_def Let_def split: option.splits)

lemma retain_default: "forward (retain_newer_than closing entries_default) = []"
  by (simp add: retain_fields entries_default_def)

lemma cleanup_ids:
  fixes t :: "('uri, 'u) tracker"
  shows "ids_of (cleanup uri closing t) v =
    (if v = uri then ids (retain_newer_than closing (entry_of t uri)) else ids_of t v)"
proof -
  have "ids (retain_newer_than closing (entry_of t uri)) = {}" if "docs t uri = None"
    using that retain_default [of closing] by (simp add: ids_def entry_of_def)
  moreover have "ids e = {}" if "entries_len e = 0" for e :: "'u uri_entries"
    using that by (simp add: ids_def entries_len_def)
  moreover have "ids_of t uri = {}" if "docs t uri = None"
    using that by (simp add: ids_of_def entry_of_def)
  ultimately show ?thesis unfolding ids_of_def cleanup_entry Let_def by auto
qed

lemma cleanup_advances:
  assumes "inj gen" "tracker_ok gen t"
  shows "advances gen t (cleanup uri closing t)"
proof (rule entries_advance [OF assms, where uri = uri])
  show "index_ok gen (drawn (cleanup uri closing t)) (entry_of (cleanup uri closing t) v)" for v
  proof -
    have i: "index_ok gen (drawn t) (entry_of t w)" for w using assms(2) by (simp add: tracker_ok_def)
    show ?thesis using i [of v] retain_newer_ok [OF i [of uri]] entries_default_ok [of gen "drawn t"]
      unfolding cleanup_entry Let_def by presburger
  qed
  show "ids_of (cleanup uri closing t) uri \<subseteq> ids_of t uri \<union> gen ` {drawn t..<drawn (cleanup uri closing t)}"
    using ids_filter [OF retain_fields(1)] cleanup_ids [of uri closing t uri]
    by (simp add: ids_of_def cleanup_entry(2))
qed (simp_all add: cleanup_ids cleanup_entry(2))

end
