(* ===== verification/Tracker_History.thy ===== *)
theory Tracker_History
  imports Node_Tracker_Laws
begin

text \<open>
  Everything that can happen to a tracker: each operation's locked part as an atomic step, in
  any order. An operation that is refused before it takes the lock takes no step, so every
  interleaving of the code's operations is one of these histories.
\<close>

section \<open>Steps\<close>

datatype 'uri tracker_op =
    Open_Life 'uri u64
  | Named_Layer 'uri nat string u64
  | Get_Or_Create 'uri position_key u64
  | Tree_Batch 'uri "u64 \<times> u64" u64 "tree_scope option" "(nat \<times> nat \<times> string) list"
  | Named_Batch 'uri "u64 \<times> u64" u64 nat "(nat \<times> nat \<times> string \<times> nat \<times> string) list"
  | Commit 'uri "u64 \<times> u64" u64
  | Lookup_Batch 'uri u64 "tree_scope option" "(nat \<times> nat \<times> string) list"
  | Edit 'uri edit_info
  | Retain_Scopes 'uri "u64 \<times> u64" u64 "tree_scope list" "unresolved_scope list" u64
  | Cleanup 'uri u64

fun tracker_step :: "(nat \<Rightarrow> 'u) \<Rightarrow> 'uri tracker_op \<Rightarrow> ('uri, 'u) tracker \<Rightarrow> ('uri, 'u) tracker" where
  "tracker_step gen (Open_Life uri inc) t = open_incarnation uri inc t"
| "tracker_step gen (Named_Layer uri p l inc) t = snd (named_layer_locked uri p l inc t)"
| "tracker_step gen (Get_Or_Create uri k inc) t = snd (get_or_create_locked gen uri k inc t)"
| "tracker_step gen (Tree_Batch uri expected inc scope keys) t = snd (mint_tree_batch_locked gen uri expected inc scope keys t)"
| "tracker_step gen (Named_Batch uri expected inc base keys) t = snd (mint_named_batch_locked gen uri expected inc base keys t)"
| "tracker_step gen (Commit uri expected inc) t = snd (commit_locked uri expected inc () t)"
| "tracker_step gen (Lookup_Batch uri inc scope keys) t = snd (lookup_tree_batch gen uri inc scope keys t)"
| "tracker_step gen (Edit uri ed) t = snd (apply_single_edit uri ed t)"
| "tracker_step gen (Retain_Scopes uri expected inc current unresolved g) t =
     retain_tree_scopes uri expected inc current unresolved g t"
| "tracker_step gen (Cleanup uri closing) t = cleanup uri closing t"

abbreviation run_tracker ::
    "(nat \<Rightarrow> 'u) \<Rightarrow> 'uri tracker_op list \<Rightarrow> ('uri, 'u) tracker \<Rightarrow> ('uri, 'u) tracker" where
  "run_tracker gen \<equiv> fold (tracker_step gen)"

lemma open_advances:
  assumes "tracker_ok gen t"
  shows "advances gen t (open_incarnation uri inc t)"
proof -
  have "entry_of (open_incarnation uri inc t) = entry_of t" "drawn (open_incarnation uri inc t) = drawn t"
    by (auto simp: open_incarnation_def entry_of_def)
  then show ?thesis using assms by (simp add: advances_def tracker_ok_def ids_of_def)
qed

lemma named_layer_advances:
  assumes "inj gen" "tracker_ok gen t"
  shows "advances gen t (snd (named_layer_locked uri p l inc t))"
  using under_lock_advances [OF assms named_layer_body] advances_refl [OF assms(2)]
  by (simp add: named_layer_locked_def)

lemma lookup_batch_state:
  "\<exists>n\<ge>drawn t. snd (lookup_tree_batch gen uri inc scope keys t) = t\<lparr>drawn := n\<rparr>"
proof -
  have "n \<le> snd (foldl (\<lambda>(us, n) k. case look k of Some u \<Rightarrow> (us @ [u], n) | None \<Rightarrow> (us @ [gen n], n + 1)) (us, n) keys)"
    for n us and look :: "nat \<times> nat \<times> string \<Rightarrow> 'b option"
  proof (induction keys arbitrary: us n)
    case (Cons k keys)
    show ?case
    proof (cases "look k")
      case None
      then show ?thesis using Cons.IH [of "n + 1" "us @ [gen n]"] by simp
    next
      case (Some u)
      then show ?thesis using Cons.IH [of n "us @ [u]"] by simp
    qed
  qed simp
  from this [of "drawn t"] show ?thesis
    unfolding lookup_tree_batch_def Let_def by (force simp: case_prod_unfold)
qed

lemma lookup_batch_advances:
  assumes "inj gen" "tracker_ok gen t"
  shows "advances gen t (snd (lookup_tree_batch gen uri inc scope keys t))"
proof -
  obtain n where n: "drawn t \<le> n" "snd (lookup_tree_batch gen uri inc scope keys t) = t\<lparr>drawn := n\<rparr>"
    using lookup_batch_state [where t = t and gen = gen and uri = uri and inc = inc and scope = scope and keys = keys]
    by auto
  have "entry_of (t\<lparr>drawn := n\<rparr>) = entry_of t" by (rule ext) (simp add: entry_of_def)
  then show ?thesis using assms(2) n(1) index_ok_mono unfolding n(2) advances_def tracker_ok_def ids_of_def
    by fastforce
qed

lemma step_advances:
  assumes "inj gen" "tracker_ok gen t"
  shows "advances gen t (tracker_step gen x t)"
  using under_lock_advances [OF assms get_or_insert_body [OF assms(1)]]
    under_lock_advances [OF assms tree_batch_body_ok [OF assms(1)]]
    under_lock_advances [OF assms named_batch_body_ok [OF assms(1)]]
    under_lock_advances [OF assms commit_body]
    open_advances [OF assms(2)] named_layer_advances [OF assms] lookup_batch_advances [OF assms]
    edit_advances [OF assms] retain_advances [OF assms] cleanup_advances [OF assms]
  by (cases x) (simp_all add: get_or_create_locked_def mint_tree_batch_locked_def
      mint_named_batch_locked_def commit_locked_def)

lemma advances_ok: "advances gen t t' \<Longrightarrow> tracker_ok gen t'"
  by (simp add: advances_def)

interpretation tracker: history "\<lambda>t. inj gen \<and> tracker_ok gen t" "advances gen" "tracker_step gen"
  for gen :: "nat \<Rightarrow> 'u"
proof unfold_locales
  show "inj gen \<and> tracker_ok gen t \<Longrightarrow> inj gen \<and> tracker_ok gen (tracker_step gen x t)"
    for t :: "('uri, 'u) tracker" and x
    using step_advances advances_ok by blast
qed (blast intro: step_advances advances_refl advances_trans)+

lemma run_tracker_ok: "inj gen \<Longrightarrow> tracker_ok gen (run_tracker gen ops tracker_new)"
  using tracker.run_ok [of gen tracker_new ops] tracker_new_ok by blast

section \<open>Lookups\<close>

lemma lookup_node_reverse:
  "lookup_node uri u t = map_option (\<lambda>p. (start_byte (p_key p), end_byte (p_key p), kind (p_key p),
      layer (p_key p), p_incarnation p)) (reverse (entry_of t uri) u)"
  by (cases "docs t uri"; cases "reverse (entry_of t uri) u")
    (simp_all add: lookup_node_def entry_of_def entries_default_def Let_def)

lemma lookup_node_at:
  "lookup_node uri u t = Some (s, e, knd, lay, inc) \<longleftrightarrow>
   reverse (entry_of t uri) u = Some \<lparr>p_key = \<lparr>start_byte = s, end_byte = e, kind = knd, layer = lay\<rparr>,
     p_incarnation = inc\<rparr>"
proof -
  have "(start_byte (p_key p), end_byte (p_key p), kind (p_key p), layer (p_key p), p_incarnation p) = (s, e, knd, lay, inc)
    \<longleftrightarrow> p = \<lparr>p_key = \<lparr>start_byte = s, end_byte = e, kind = knd, layer = lay\<rparr>, p_incarnation = inc\<rparr>" for p
    by (cases p; cases "p_key p") auto
  then show ?thesis by (simp add: lookup_node_reverse)
qed

lemma lookup_layer_forward:
  fixes t :: "('uri, 'u) tracker"
  shows "lookup_in_layer_for_incarnation uri s e knd lay inc t = Some u \<longleftrightarrow>
   map_of (forward (entry_of t uri)) \<lparr>start_byte = s, end_byte = e, kind = knd, layer = lay\<rparr> =
     Some \<lparr>t_ulid = u, t_incarnation = inc\<rparr>"
proof -
  have "t_incarnation x = inc \<and> t_ulid x = u \<longleftrightarrow> x = \<lparr>t_ulid = u, t_incarnation = inc\<rparr>" for x :: "'u tracked_ulid"
    by (cases x) auto
  then show ?thesis
    by (auto simp: lookup_in_layer_for_incarnation_def entry_of_def entries_default_def
        split: option.splits bind_splits)
qed

lemma lookup_node_ids:
  "tracker_ok gen t \<Longrightarrow> lookup_node uri u t = None \<longleftrightarrow> u \<notin> ids_of t uri"
  using reverse_None [of "entry_of t uri" u]
  by (simp add: lookup_node_reverse tracker_ok_def index_ok_def ids_of_def)


lemma sync_lookup:
  assumes "sync e"
  shows "map_of (forward e) k = Some \<lparr>t_ulid = u, t_incarnation = i\<rparr> \<longleftrightarrow>
    reverse e u = Some \<lparr>p_key = k, p_incarnation = i\<rparr>"
proof -
  have "distinct (map fst (forward e))" using assms by (simp add: sync_def)
  from map_of_eq_Some_iff [OF this] show ?thesis using assms unfolding sync_def by blast
qed

section \<open>Properties\<close>

text \<open>C1: after any history, a position resolves to an id exactly if the id resolves to that position,
  and an id resolves in at most one document.\<close>

theorem tracker_index_correct:
  fixes gen :: "nat \<Rightarrow> 'u" and uri :: 'uri and ops :: "'uri tracker_op list"
  assumes "inj gen"
  defines "t \<equiv> run_tracker gen ops tracker_new"
  shows "(lookup_in_layer_for_incarnation uri s e knd lay inc t = Some u \<longleftrightarrow>
      lookup_node uri u t = Some (s, e, knd, lay, inc)) \<and>
    (lookup_node uri u t \<noteq> None \<longrightarrow> uri' \<noteq> uri \<longrightarrow> lookup_node uri' u t = None)"
proof -
  have ok: "tracker_ok gen t" unfolding t_def by (rule run_tracker_ok [OF assms(1)])
  then have sync: "sync (entry_of t uri)" by (simp add: tracker_ok_def index_ok_def)
  have "lookup_in_layer_for_incarnation uri s e knd lay inc t = Some u \<longleftrightarrow>
      lookup_node uri u t = Some (s, e, knd, lay, inc)"
    unfolding lookup_layer_forward lookup_node_at by (rule sync_lookup [OF sync])
  moreover have "lookup_node uri' u t = None" if "lookup_node uri u t \<noteq> None" "uri' \<noteq> uri"
  proof -
    have "ids_of t uri \<inter> ids_of t uri' = {}" by (rule ids_disjoint [OF ok that(2) [symmetric]])
    moreover have "u \<in> ids_of t uri" using that(1) lookup_node_ids [OF ok, of uri u] by simp
    ultimately have "u \<notin> ids_of t uri'" by blast
    then show ?thesis using lookup_node_ids [OF ok, of uri' u] by simp
  qed
  ultimately show ?thesis by blast
qed

text \<open>C7: an id that was drawn and does not resolve, because an edit invalidated it, its lifetime was
  closed, or it was handed out without being tracked, never resolves again.\<close>

theorem dead_ids_stay_dead:
  fixes gen :: "nat \<Rightarrow> 'u" and uri :: 'uri and ops :: "'uri tracker_op list"
  assumes "inj gen"
  defines "t \<equiv> run_tracker gen ops tracker_new"
  assumes "i < drawn t" "lookup_node uri (gen i) t = None"
  shows "lookup_node uri (gen i) (run_tracker gen ops' t) = None"
proof -
  let ?t' = "run_tracker gen ops' t"
  have ok: "tracker_ok gen t" unfolding t_def by (rule run_tracker_ok [OF assms(1)])
  then have moved: "advances gen t ?t'" using tracker.run_moves [of gen t ops'] assms(1) by simp
  moreover have "gen i \<notin> gen ` {drawn t..<drawn ?t'}" using assms(1,3) by (auto simp: inj_eq)
  moreover have "gen i \<notin> ids_of t uri" using assms(4) lookup_node_ids [OF ok] by blast
  ultimately have "tracker_ok gen ?t'" "gen i \<notin> ids_of ?t' uri" unfolding advances_def by blast+
  then show ?thesis using lookup_node_ids [of gen ?t' uri "gen i"] by simp
qed


section \<open>Single nodes\<close>

text \<open>What one node insertion does to the ids: the new one appears, the id that another lifetime held
  at the same position goes, and nothing else changes.\<close>

lemma get_or_insert_reverse:
  assumes "inj gen" "index_ok gen n e" "get_or_insert gen k inc (n, e) = (Some u, n', e')"
  shows "reverse e' v =
    (if v = u then Some \<lparr>p_key = k, p_incarnation = inc\<rparr>
     else if \<exists>i. reverse e v = Some \<lparr>p_key = k, p_incarnation = i\<rparr> then None else reverse e v)"
proof (cases "v = u")
  case True
  then show ?thesis using get_or_insert_resolves [OF assms] by simp
next
  case False
  have sync: "sync e" using assms(2) by (simp add: index_ok_def)
  then have dist: "distinct (map fst (forward e))" by (simp add: sync_def)
  have at: "(\<exists>i. reverse e v = Some \<lparr>p_key = k, p_incarnation = i\<rparr>) \<longleftrightarrow>
      (\<exists>x. map_of (forward e) k = Some x \<and> t_ulid x = v)"
    using sync dist unfolding sync_def by (auto simp: map_of_eq_Some_iff) (metis ulid_eta)
  show ?thesis
  proof (cases rule: get_or_insert_cases [of gen k inc n e])
    case (reused x)
    then show ?thesis using False assms(3) at by auto
  next
    case (minted rv)
    then show ?thesis using False assms(3) at by (auto split: option.splits)
  qed (use assms(3) in simp)
qed

lemma get_or_insert_refused:
  "get_or_insert gen k inc (n, e) = (None, n', e') \<Longrightarrow> n' = n \<and> e' = e \<and>
     (inc < latest_incarnation e \<or> scope_layer (layer k) \<and> \<not> scopes_contains (doc_scopes e) (layer k))"
  by (cases rule: get_or_insert_cases [of gen k inc n e]) auto

lemma get_or_insert_fields:
  "get_or_insert gen k inc (n, e) = (r, n', e') \<Longrightarrow>
    doc_scopes e' = doc_scopes e \<and> shift_gen e' = shift_gen e \<and>
    (\<forall>u. r = Some u \<longrightarrow> latest_incarnation e' = inc)"
  by (cases rule: get_or_insert_cases [of gen k inc n e]) auto

lemma put_same: "docs t uri \<noteq> None \<Longrightarrow> put_entry uri (drawn t) (entry_of t uri) t = t"
  by (auto simp: put_entry_def entry_of_def fun_upd_idem)

lemma lookup_put:
  "lookup_node v u (put_entry uri n e t) =
    (if v = uri then map_option (\<lambda>p. (start_byte (p_key p), end_byte (p_key p), kind (p_key p),
        layer (p_key p), p_incarnation p)) (reverse e u) else lookup_node v u t)"
  by (simp add: lookup_node_reverse entry_of_put)

text \<open>asking for a node's id tracks the node at that position and no other change follows, except
  that an id of another lifetime at the same position stops resolving. Asking again gives the same
  id. The id is the one the position had, or else a drawn one that resolved in no document.\<close>

lemma get_or_create_correct:
  fixes gen :: "nat \<Rightarrow> 'u" and uri :: 'uri and ops :: "'uri tracker_op list"
  assumes "inj gen"
  defines "t \<equiv> run_tracker gen ops tracker_new"
  assumes "get_or_create_in_layer_for_incarnation gen uri s e knd lay inc t = (Some u, t')"
  shows "lookup_node v w t' =
      (if v = uri \<and> w = u then Some (s, e, knd, lay, inc)
       else if v = uri \<and> (\<exists>i. lookup_node v w t = Some (s, e, knd, lay, i)) then None
       else lookup_node v w t) \<and>
    get_or_create_in_layer_for_incarnation gen uri s e knd lay inc t' = (Some u, t') \<and>
    (case lookup_in_layer_for_incarnation uri s e knd lay inc t of
       Some u0 \<Rightarrow> u = u0
     | None \<Rightarrow> u = gen (drawn t) \<and> (\<forall>v. lookup_node v u t = None))"
proof -
  define k where "k = \<lparr>start_byte = s, end_byte = e, kind = knd, layer = lay\<rparr>"
  have ok: "tracker_ok gen t" unfolding t_def by (rule run_tracker_ok [OF assms(1)])
  then have idx: "index_ok gen (drawn t) (entry_of t uri)" by (simp add: tracker_ok_def)
  obtain n d where adm: "admits_incarnation uri inc t"
    and g: "get_or_insert gen k inc (drawn t, entry_of t uri) = (Some u, n, d)" and t': "t' = put_entry uri n d t"
    using assms(3) unfolding get_or_create_in_layer_for_incarnation_def get_or_create_locked_def
      under_lock_def k_def
    by (auto split: if_splits prod.splits)
  note rv = get_or_insert_reverse [OF assms(1) idx g]
  have "lookup_node v w t' =
      (if v = uri \<and> w = u then Some (s, e, knd, lay, inc)
       else if v = uri \<and> (\<exists>i. lookup_node v w t = Some (s, e, knd, lay, i)) then None
       else lookup_node v w t)"
    unfolding t' lookup_put rv lookup_node_at k_def [symmetric]
    by (auto simp: k_def lookup_node_reverse)
  moreover have "get_or_create_in_layer_for_incarnation gen uri s e knd lay inc t' = (Some u, t')"
  proof -
    have "docs t' uri \<noteq> None" "admits_incarnation uri inc t'" "entry_of t' uri = d" "drawn t' = n"
      using adm by (simp_all add: t' put_entry_def admits_incarnation_def entry_of_def)
    then show ?thesis
      using get_or_insert_resolves [OF assms(1) idx g] put_same [of t' uri]
      by (simp add: get_or_create_in_layer_for_incarnation_def get_or_create_locked_def under_lock_def k_def [symmetric])
  qed
  moreover have "case lookup_in_layer_for_incarnation uri s e knd lay inc t of
       Some u0 \<Rightarrow> u = u0 | None \<Rightarrow> u = gen (drawn t) \<and> (\<forall>v. lookup_node v u t = None)"
  proof (cases rule: get_or_insert_cases [of gen k inc "drawn t" "entry_of t uri"])
    case (reused x)
    then have "lookup_in_layer_for_incarnation uri s e knd lay inc t = Some (t_ulid x)"
      using ulid_eta [of x] by (simp add: lookup_layer_forward k_def [symmetric])
    then show ?thesis using reused(5) g by simp
  next
    case (minted rvs)
    have "map_of (forward (entry_of t uri)) k \<noteq> Some \<lparr>t_ulid = w, t_incarnation = inc\<rparr>" for w
      using minted(4) by auto
    then have "lookup_in_layer_for_incarnation uri s e knd lay inc t = None"
      using lookup_layer_forward [of uri s e knd lay inc t, folded k_def] not_None_eq by metis
    moreover have "gen (drawn t) \<notin> ids_of t v" for v
      using ids_drawn [OF ok, of v] assms(1) by (auto simp: inj_eq)
    ultimately show ?thesis using minted(5) g lookup_node_ids [OF ok] by simp
  qed (use g in simp)
  ultimately show ?thesis by blast
qed

end
