(* ===== verification/Tracker_Latch.thy ===== *)
theory Tracker_Latch
  imports Tracker_History
begin

text \<open>
  Edits, lifetimes and the latch of a tracker: what an edit does to every id, what closing a
  document leaves and refuses, and why a batch that was prepared before an edit or a close
  mints nothing.
\<close>

section \<open>Edits\<close>

text \<open>Where an edit takes a node, if anywhere, before collisions are settled.\<close>

definition edit_target :: "edit_info \<Rightarrow> tree_scopes \<Rightarrow> position_key \<Rightarrow> position_key option" where
  "edit_target ed scs k =
     (if should_invalidate_node k ed \<or>
         scope_layer (layer k) \<and> \<not> scopes_contains (scopes_shift ed scs) (layer k) then None
      else adjust_position_for_edit k ed (edit_delta ed))"

lemma moved_from_target:
  "moved_from ed (scopes_shift ed scs) x y \<longleftrightarrow> snd y = snd x \<and> edit_target ed scs (fst x) = Some (fst y)"
  by (auto simp: moved_from_def edit_target_def)

lemma edit_reverse:
  assumes "index_ok gen n e" "apply_edit_to_entries ed e = (dead, e')"
    and "reverse e u = Some \<lparr>p_key = k, p_incarnation = inc\<rparr>"
  shows "case edit_target ed (doc_scopes e) k of
      None \<Rightarrow> u \<in> set dead \<and> reverse e' u = None
    | Some k' \<Rightarrow> u \<notin> set dead \<and> reverse e' u = Some \<lparr>p_key = k', p_incarnation = inc\<rparr> \<or>
        u \<in> set dead \<and> reverse e' u = None \<and>
        (\<exists>w i. reverse e' w = Some \<lparr>p_key = k', p_incarnation = i\<rparr>)"
proof -
  note R = apply_edit_ok [OF assms(1,2)]
  have sync: "sync e" "sync e'" using assms(1) R by (simp_all add: index_ok_def)
  let ?x = "(k, \<lparr>t_ulid = u, t_incarnation = inc\<rparr>)"
  have x: "?x \<in> set (forward e)" using sync(1) assms(3) unfolding sync_def by blast
  then have "u \<in> ids e" using idsI by fastforce
  then have in_dead: "u \<in> set dead \<longleftrightarrow> reverse e' u = None"
    using R reverse_None [OF sync(2), of u] unfolding edit_result_def by blast
  have pos: "edit_target ed (doc_scopes e) k = Some (p_key p) \<and> p_incarnation p = inc" if "reverse e' u = Some p" for p
  proof -
    have "(p_key p, \<lparr>t_ulid = u, t_incarnation = p_incarnation p\<rparr>) \<in> set (forward e')"
      by (rule sync_reverse [OF sync(2) that])
    then obtain y where y: "y \<in> set (forward e)"
        "moved_from ed (scopes_shift ed (doc_scopes e)) y (p_key p, \<lparr>t_ulid = u, t_incarnation = p_incarnation p\<rparr>)"
      using R unfolding edit_result_def by blast
    have "snd y = \<lparr>t_ulid = u, t_incarnation = p_incarnation p\<rparr>" using y(2) by (simp add: moved_from_target)
    then have "t_ulid (snd y) = u" by simp
    then have "fst y = k \<and> snd y = \<lparr>t_ulid = u, t_incarnation = inc\<rparr>"
      using same_id [OF sync(1), of "fst y" "snd y" k "\<lparr>t_ulid = u, t_incarnation = inc\<rparr>"] x y(1) by simp
    then have "y = ?x" by (simp add: prod_eq_iff)
    then show ?thesis using y(2) by (simp add: moved_from_target)
  qed
  show ?thesis
  proof (cases "edit_target ed (doc_scopes e) k")
    case None
    then show ?thesis using pos in_dead by (cases "reverse e' u") auto
  next
    case (Some k')
    then have "moved_from ed (scopes_shift ed (doc_scopes e)) ?x (k', \<lparr>t_ulid = u, t_incarnation = inc\<rparr>)"
      by (simp add: moved_from_target)
    then have go: "(k', \<lparr>t_ulid = u, t_incarnation = inc\<rparr>) \<in> set (forward e') \<or>
        u \<in> set dead \<and> k' \<in> fst ` set (forward e')"
      using R x unfolding edit_result_def by fastforce
    show ?thesis
    proof (cases "u \<in> set dead")
      case True
      then have "k' \<in> fst ` set (forward e')" using go by force
      then obtain y where "(k', y) \<in> set (forward e')" by auto
      then have "reverse e' (t_ulid y) = Some \<lparr>p_key = k', p_incarnation = t_incarnation y\<rparr>"
        by (rule sync_forward [OF sync(2)])
      then show ?thesis using True in_dead Some by auto
    next
      case False
      then have "reverse e' u = Some \<lparr>p_key = k', p_incarnation = inc\<rparr>"
        using go sync_forward [OF sync(2)] by fastforce
      then show ?thesis using False Some by simp
    qed
  qed
qed

text \<open>
  What an edit does to positions, counted on the text alone: a start is hit when it is deleted or is
  the place of the edit; every position up to the edit stays, one behind the deleted bytes keeps its
  distance from their end, one inside them moves to that end. A scope is lost with the start of one of
  its ranges.
\<close>

definition start_hit :: "edit_info \<Rightarrow> nat \<Rightarrow> bool" where
  "start_hit ed a \<longleftrightarrow> a = e_start ed \<or> a \<in> {e_start ed..<e_old_end ed}"

definition position_after :: "edit_info \<Rightarrow> nat \<Rightarrow> nat" where
  "position_after ed p = (if p \<le> e_start ed then p else e_new_end ed + (p - e_old_end ed))"

definition scope_lost :: "edit_info \<Rightarrow> tree_scopes \<Rightarrow> nat \<Rightarrow> bool" where
  "scope_lost ed scs lay \<longleftrightarrow> 11 \<le> lay \<and> lay < 2 ^ 63 \<and>
     (case map_of (by_token scs) lay of
        None \<Rightarrow> True
      | Some sc \<Rightarrow> \<exists>r\<in>set (ranges sc). start_hit ed (fst r))"

lemma hit_invalidates:
  "e_start ed \<le> e_old_end ed \<Longrightarrow> should_invalidate_node k ed \<longleftrightarrow> start_hit ed (start_byte k)"
  by (auto simp: should_invalidate_node_def is_insertion_only_def start_hit_def)

lemma adjust_position_after:
  assumes "e_start ed \<le> e_old_end ed" "e_start ed \<le> e_new_end ed" "\<not> start_hit ed (start_byte k)"
    and "start_byte k \<le> end_byte k" "end_byte k + e_new_end ed < 2 ^ 63"
  shows "adjust_position_for_edit k ed (edit_delta ed) =
    Some (with_positions k (position_after ed (start_byte k)) (position_after ed (end_byte k)))"
proof -
  have exact: "apply_delta p (edit_delta ed) = e_new_end ed + (p - e_old_end ed)"
    if "e_old_end ed \<le> p" "p \<le> end_byte k" for p
    using that assms(5) by (auto simp: apply_delta_def edit_delta_def i64_max_def max_def min_def)
  have sides: "start_byte k < e_start ed \<or> e_old_end ed \<le> start_byte k \<and> e_start ed < start_byte k"
    using assms(1,3) by (auto simp: start_hit_def)
  show ?thesis
  proof (cases "start_byte k < e_start ed")
    case True
    then show ?thesis using assms(1,2,4) exact [of "end_byte k"]
      by (auto simp: adjust_position_for_edit_def position_after_def Let_def)
  next
    case False
    then show ?thesis using assms(4) exact sides
      by (simp add: adjust_position_for_edit_def position_after_def)
  qed
qed

lemma shift_range_None:
  assumes "e_start ed \<le> e_old_end ed" "e_start ed \<le> e_new_end ed" "e_new_end ed < 2 ^ 63"
  shows "shift_range ed r = None \<longleftrightarrow> start_hit ed (fst r)"
proof (cases "start_hit ed (fst r)")
  case True
  then show ?thesis using assms(1) by (simp add: shift_range_def Let_def hit_invalidates)
next
  case False
  have "\<not> apply_delta (snd r) (edit_delta ed) \<le> fst r" if "fst r < e_start ed" "e_old_end ed < snd r"
    using that assms by (auto simp: apply_delta_def edit_delta_def i64_max_def max_def min_def)
  moreover have "fst r < e_start ed \<or> e_old_end ed \<le> fst r \<and> e_start ed < fst r"
    using assms(1) False by (auto simp: start_hit_def)
  ultimately show ?thesis
    using assms False by (auto simp: shift_range_def Let_def hit_invalidates adjust_position_for_edit_def)
qed

lemma collect_options_None: "collect_options xs = None \<longleftrightarrow> None \<in> set xs"
  by (induction xs rule: collect_options.induct) auto

lemma contains_shift:
  "distinct (map fst bs) \<Longrightarrow> l \<in> fst ` set (shift_tokens ed bs) \<longleftrightarrow>
    (\<exists>sc. map_of bs l = Some sc \<and> shifted ed sc \<noteq> None)"
  by (induction bs) (force split: option.splits)+

lemma lost_scope:
  assumes "e_start ed \<le> e_old_end ed" "e_start ed \<le> e_new_end ed" "e_new_end ed < 2 ^ 63" "scopes_ok scs"
  shows "scope_lost ed scs l \<longleftrightarrow> scope_layer l \<and> \<not> scopes_contains (scopes_shift ed scs) l"
proof -
  have "shifted ed sc = None \<longleftrightarrow> (\<exists>r\<in>set (ranges sc). start_hit ed (fst r))" for sc
    by (auto simp: shifted_def collect_options_None shift_range_None [OF assms(1,2,3)]
        image_iff eq_commute [of None])
  then have "scopes_contains (scopes_shift ed scs) l \<longleftrightarrow>
      (\<exists>sc. map_of (by_token scs) l = Some sc \<and> \<not> (\<exists>r\<in>set (ranges sc). start_hit ed (fst r)))"
    using assms(4) contains_shift [of "by_token scs" l ed]
    by (simp add: scopes_contains_iff scopes_shift_def reindex_def scopes_ok_def)
  then show ?thesis
    by (auto simp: scope_lost_def scope_layer_def TREE_SCOPE_BASE_def MAX_INJECTION_DEPTH_def
        REGION_IDENTITY_LAYER_BASE_def usize_max_def split: option.splits)
qed

lemma edit_target_after:
  assumes "e_start ed \<le> e_old_end ed" "e_start ed \<le> e_new_end ed" "scopes_ok scs"
    and "start_byte k \<le> end_byte k" "end_byte k + e_new_end ed < 2 ^ 63"
  shows "edit_target ed scs k =
    (if start_hit ed (start_byte k) \<or> scope_lost ed scs (layer k) then None
     else Some (with_positions k (position_after ed (start_byte k)) (position_after ed (end_byte k))))"
  using assms lost_scope [OF assms(1,2) _ assms(3), of "layer k"]
  by (auto simp: edit_target_def hit_invalidates adjust_position_after)

text \<open>C6: an edit moves every id with its node or reports it invalidated. An id whose start is deleted
  or sits where the edit begins, or whose parse scope lost the start of one of its ranges, stops
  resolving and is reported. Any other resolves to its moved range: a boundary up to the edit's start
  is unchanged, one behind the replaced bytes moves by their change of length, one inside them moves to
  the end of the new bytes; or another id took that very range and this one is reported. Ids of other
  documents and ids that did not resolve are untouched. The edit's ends are in order and positions are
  below \<open>2 ^ 63\<close>.\<close>

theorem edit_correct:
  fixes gen :: "nat \<Rightarrow> 'u" and uri :: 'uri and ops :: "'uri tracker_op list"
  assumes "inj gen"
  defines "t \<equiv> run_tracker gen ops tracker_new"
  assumes "apply_single_edit uri ed t = (dead, t')"
    and "e_start ed \<le> e_old_end ed" "e_start ed \<le> e_new_end ed"
    and "\<forall>s e knd lay inc. lookup_node uri u t = Some (s, e, knd, lay, inc) \<longrightarrow>
      s \<le> e \<and> e + e_new_end ed < 2 ^ 63"
  shows "(v \<noteq> uri \<longrightarrow> lookup_node v u t' = lookup_node v u t) \<and>
    (case lookup_node uri u t of
       None \<Rightarrow> u \<notin> set dead \<and> lookup_node uri u t' = None
     | Some (s, e, knd, lay, inc) \<Rightarrow>
         let moved = (\<lambda>p. if p \<le> e_start ed then p else e_new_end ed + (p - e_old_end ed))
         in if s = e_start ed \<or> s \<in> {e_start ed..<e_old_end ed} \<or> scope_lost ed (doc_scopes (entry_of t uri)) lay
            then u \<in> set dead \<and> lookup_node uri u t' = None
            else u \<notin> set dead \<and> lookup_node uri u t' = Some (moved s, moved e, knd, lay, inc) \<or>
              u \<in> set dead \<and> lookup_node uri u t' = None \<and>
              (\<exists>w i. lookup_node uri w t' = Some (moved s, moved e, knd, lay, i)))"
proof -
  have ok: "tracker_ok gen t" unfolding t_def by (rule run_tracker_ok [OF assms(1)])
  then have idx: "index_ok gen (drawn t) (entry_of t uri)" by (simp add: tracker_ok_def)
  obtain d where d: "apply_edit_to_entries ed (entry_of t uri) = (dead, d)" and t': "t' = put_entry uri (drawn t) d t"
    using assms(3) by (auto simp: apply_single_edit_def split: prod.splits)
  have ids: "u \<notin> set dead \<and> reverse d u = None" if "reverse (entry_of t uri) u = None"
  proof -
    note R = apply_edit_ok [OF idx d]
    have "u \<notin> ids (entry_of t uri)" using that reverse_None [of "entry_of t uri" u] idx by (simp add: index_ok_def)
    then show ?thesis using R reverse_None [of d u] unfolding edit_result_def index_ok_def by blast
  qed
  have here: "lookup_node uri w t' = map_option (\<lambda>p. (start_byte (p_key p), end_byte (p_key p), kind (p_key p),
        layer (p_key p), p_incarnation p)) (reverse d w)" for w
    by (simp add: t' lookup_put)
  show ?thesis
  proof (cases "lookup_node uri u t")
    case None
    then show ?thesis using ids by (simp add: t' lookup_node_reverse entry_of_put)
  next
    case (Some p)
    obtain s e knd lay inc where p: "p = (s, e, knd, lay, inc)" by (cases p)
    define k where "k = \<lparr>start_byte = s, end_byte = e, kind = knd, layer = lay\<rparr>"
    have "reverse (entry_of t uri) u = Some \<lparr>p_key = k, p_incarnation = inc\<rparr>"
      using Some unfolding p k_def by (simp add: lookup_node_at)
    note E = edit_reverse [OF idx d this]
    have "s \<le> e \<and> e + e_new_end ed < 2 ^ 63" using assms(6) Some unfolding p by blast
    moreover have "scopes_ok (doc_scopes (entry_of t uri))" using idx by (simp add: index_ok_def)
    ultimately have target: "edit_target ed (doc_scopes (entry_of t uri)) k =
        (if start_hit ed s \<or> scope_lost ed (doc_scopes (entry_of t uri)) lay then None
         else Some (with_positions k (position_after ed s) (position_after ed e)))"
      using edit_target_after [OF assms(4,5), of "doc_scopes (entry_of t uri)" k] by (simp add: k_def)
    note moved = position_after_def [of ed, abs_def, symmetric]
    show ?thesis unfolding Some p option.case prod.case Let_def moved disj_assoc [symmetric] start_hit_def [symmetric]
      using E unfolding target by (force simp: here t' lookup_put k_def)
  qed
qed

section \<open>Lifetimes\<close>

text \<open>closing a document lifetime ends exactly the ids of that lifetime and older ones; ids that a
  racing reopen already minted survive, other documents are untouched, and unless a newer lifetime
  is open, no lifetime is admitted any more.\<close>

lemma cleanup_correct:
  fixes gen :: "nat \<Rightarrow> 'u" and uri :: 'uri and ops :: "'uri tracker_op list" and closing :: u64
  assumes "inj gen"
  defines "t \<equiv> run_tracker gen ops tracker_new"
  defines "t' \<equiv> cleanup uri closing t"
  shows "lookup_node v u t' =
      (case lookup_node v u t of
         Some (s, e, knd, lay, inc) \<Rightarrow>
           if v = uri \<and> inc \<le> closing then None else Some (s, e, knd, lay, inc)
       | None \<Rightarrow> None) \<and>
    (admits_incarnation uri inc t' \<longleftrightarrow> inc \<noteq> closing \<and> incarnations t uri = Some (Some inc)) \<and>
    (v \<noteq> uri \<longrightarrow> admits_incarnation v inc t' = admits_incarnation v inc t) \<and>
    mint_epoch v t' \<noteq> mint_epoch v t"
proof -
  have ok: "tracker_ok gen t" unfolding t_def by (rule run_tracker_ok [OF assms(1)])
  define d where "d = retain_newer_than closing (entry_of t uri)"
  have entry: "entry_of t' v = (if v = uri \<and> docs t uri \<noteq> None then
      if entries_len d = 0 \<and> named_layers d = [] then entries_default else d else entry_of t v)"
    unfolding t'_def d_def cleanup_entry Let_def by (cases "docs t uri") simp_all
  have empty: "reverse d u = None" if "entries_len d = 0"
  proof -
    have "index_ok gen (drawn t) (entry_of t uri)" using ok by (simp add: tracker_ok_def)
    then have "index_ok gen (drawn t) d" unfolding d_def by (rule retain_newer_ok)
    then show ?thesis using reverse_None [of d u] that by (simp add: index_ok_def ids_def entries_len_def)
  qed
  have rd: "reverse d u = (case reverse (entry_of t uri) u of None \<Rightarrow> None
      | Some p \<Rightarrow> if closing < p_incarnation p then Some p else None)"
    by (simp add: d_def retain_fields map_retain_def)
  have none: "reverse (entry_of t uri) u = None" if "docs t uri = None"
    using that by (simp add: entry_of_def entries_default_def)
  have rev': "reverse (entry_of t' v) u = (case reverse (entry_of t v) u of None \<Rightarrow> None
      | Some p \<Rightarrow> if v = uri \<and> p_incarnation p \<le> closing then None else Some p)"
  proof (cases "v = uri \<and> docs t uri \<noteq> None")
    case True
    have "reverse (entry_of t' v) u = reverse d u"
      using empty unfolding entry if_P [OF True] by (simp add: entries_default_def)
    then show ?thesis using True by (simp add: rd not_le [symmetric] split: option.split)
  next
    case False
    then have "entry_of t' v = entry_of t v" unfolding entry by (rule if_not_P)
    then show ?thesis using False none by (auto split: option.split)
  qed
  have inc: "incarnations t' = (incarnations t)(uri \<mapsto> (case incarnations t uri of None \<Rightarrow> None
      | Some current \<Rightarrow> if current = Some closing then None else current))"
    by (auto simp: t'_def cleanup_def Let_def split: option.splits)
  have "cleanup_epoch t' = cleanup_epoch t + 1"
    by (auto simp: t'_def cleanup_def Let_def split: option.splits)
  then have "mint_epoch v t' \<noteq> mint_epoch v t" by (simp add: mint_epoch_def)
  moreover have "lookup_node v u t' =
      (case lookup_node v u t of
         Some (s, e, knd, lay, inc) \<Rightarrow>
           if v = uri \<and> inc \<le> closing then None else Some (s, e, knd, lay, inc)
       | None \<Rightarrow> None)"
    by (simp add: lookup_node_reverse rev' split: option.split)
  ultimately show ?thesis by (auto simp: inc admits_incarnation_def split: option.splits if_splits)
qed

fun op_uri :: "'uri tracker_op \<Rightarrow> 'uri" where
  "op_uri (Open_Life uri _) = uri"
| "op_uri (Named_Layer uri _ _ _) = uri"
| "op_uri (Get_Or_Create uri _ _) = uri"
| "op_uri (Tree_Batch uri _ _ _ _) = uri"
| "op_uri (Named_Batch uri _ _ _ _) = uri"
| "op_uri (Commit uri _ _) = uri"
| "op_uri (Lookup_Batch uri _ _ _) = uri"
| "op_uri (Edit uri _) = uri"
| "op_uri (Retain_Scopes uri _ _ _ _ _) = uri"
| "op_uri (Cleanup uri _) = uri"

fun opens :: "'uri \<Rightarrow> 'uri tracker_op \<Rightarrow> bool" where
  "opens uri (Open_Life v _) \<longleftrightarrow> v = uri"
| "opens uri _ \<longleftrightarrow> False"

fun closes :: "'uri tracker_op \<Rightarrow> bool" where
  "closes (Cleanup _ _) \<longleftrightarrow> True"
| "closes _ \<longleftrightarrow> False"

fun shifts :: "'uri \<Rightarrow> 'uri tracker_op \<Rightarrow> bool" where
  "shifts uri (Edit v _) \<longleftrightarrow> v = uri"
| "shifts uri _ \<longleftrightarrow> False"

lemmas locked_ops = named_layer_locked_def get_or_create_locked_def mint_tree_batch_locked_def
  mint_named_batch_locked_def commit_locked_def

lemma under_lock_fields [simp]:
  "incarnations (snd (under_lock uri inc body t)) = incarnations t"
  "cleanup_epoch (snd (under_lock uri inc body t)) = cleanup_epoch t"
  by (simp_all add: under_lock_def split: prod.split)

lemma under_lock_refused:
  "\<not> admits_incarnation uri inc t \<Longrightarrow> ids_of (snd (under_lock uri inc body t)) v = ids_of t v"
  using pristine_entry [of uri "put_entry uri (drawn t) (entry_of t uri) t" v]
  by (auto simp: under_lock_def ids_of_def entry_of_put split: if_splits)

lemma under_lock_other:
  "v \<noteq> uri \<Longrightarrow> entry_of (snd (under_lock uri inc body t)) v = entry_of t v"
  using pristine_entry [of uri "put_entry uri (drawn t) (entry_of t uri) t" v]
  by (auto simp: under_lock_def entry_of_put split: prod.split)

lemma lookup_batch_fields [simp]:
  "docs (snd (lookup_tree_batch gen uri inc scope keys t)) = docs t"
  "incarnations (snd (lookup_tree_batch gen uri inc scope keys t)) = incarnations t"
  "cleanup_epoch (snd (lookup_tree_batch gen uri inc scope keys t)) = cleanup_epoch t"
  by (simp_all add: lookup_tree_batch_def Let_def split: prod.split)

lemma open_entry [simp]: "entry_of (open_incarnation uri inc t) = entry_of t"
  by (rule ext) (simp add: entry_of_def open_incarnation_def)

lemma lookup_batch_entry [simp]: "entry_of (snd (lookup_tree_batch gen uri inc scope keys t)) = entry_of t"
  by (rule ext) (simp add: entry_of_def)

lemma step_other: "op_uri x \<noteq> v \<Longrightarrow> entry_of (tracker_step gen x t) v = entry_of t v"
  by (cases x) (auto simp: locked_ops under_lock_other apply_single_edit_def entry_of_put
      retain_tree_scopes_eq cleanup_entry(1) split: prod.split)

lemma named_layer_locked_refused:
  "\<not> admits_incarnation uri inc t \<Longrightarrow> ids_of (snd (named_layer_locked uri p l inc t)) v = ids_of t v"
  by (simp add: named_layer_locked_def under_lock_refused)

lemma edit_ids: "tracker_ok gen t \<Longrightarrow> ids_of (snd (apply_single_edit uri ed t)) uri \<subseteq> ids_of t uri"
  using apply_edit_ok [of gen "drawn t" "entry_of t uri" ed]
  by (auto simp: apply_single_edit_def ids_of_def entry_of_put edit_result_def tracker_ok_def split: prod.splits)

lemma closed_step:
  assumes "tracker_ok gen t" "incarnations t uri = Some None" "\<not> opens uri x"
  shows "incarnations (tracker_step gen x t) uri = Some None \<and>
    ids_of (tracker_step gen x t) uri \<subseteq> ids_of t uri"
proof -
  have closed: "\<not> admits_incarnation uri inc t" for inc using assms(2) by (simp add: admits_incarnation_def)
  have "incarnations (tracker_step gen x t) uri = Some None"
    using assms(2,3) by (cases x) (auto simp: locked_ops apply_single_edit_def retain_tree_scopes_eq
        open_incarnation_def cleanup_def Let_def split: prod.split option.split)
  moreover have "ids_of (tracker_step gen x t) uri \<subseteq> ids_of t uri"
  proof (cases "op_uri x = uri")
    case True
    then show ?thesis
    proof (cases x)
      case (Edit v ed)
      then show ?thesis using True edit_ids [OF assms(1)] by simp
    next
      case (Cleanup v closing)
      then show ?thesis using True ids_filter [OF retain_fields(1)] cleanup_ids [of uri closing t uri]
        by (simp add: ids_of_def)
    next
      case (Retain_Scopes v expected inc current unresolved g)
      then show ?thesis using True closed by (simp add: retain_tree_scopes_eq)
    qed (use closed in \<open>auto simp: locked_ops under_lock_refused ids_of_def [of "open_incarnation _ _ _"]
        ids_of_def [of "snd (lookup_tree_batch _ _ _ _ _ _)"] ids_of_def [of t]\<close>)
  next
    case False
    then show ?thesis by (simp add: ids_of_def step_other)
  qed
  ultimately show ?thesis by blast
qed

text \<open>while a document is closed, nothing that runs late revives it: no operation tracks an id in it
  until it is opened again.\<close>

lemma closed_document_tracks_nothing:
  fixes gen :: "nat \<Rightarrow> 'u" and uri :: 'uri and ops :: "'uri tracker_op list"
  assumes "inj gen"
  defines "t \<equiv> run_tracker gen ops tracker_new"
  assumes "\<forall>inc. \<not> admits_incarnation uri inc t" "\<not> list_ex (opens uri) late"
  shows "(lookup_node uri u (run_tracker gen late t) \<noteq> None \<longrightarrow> lookup_node uri u t \<noteq> None) \<and>
    \<not> admits_incarnation uri inc (run_tracker gen late t)"
proof -
  have closed: "incarnations t uri = Some None"
    using assms(3) by (auto simp: admits_incarnation_def split: option.splits)
  have ok: "tracker_ok gen t" unfolding t_def by (rule run_tracker_ok [OF assms(1)])
  have "tracker_ok gen s \<Longrightarrow> incarnations s uri = Some None \<Longrightarrow> \<not> list_ex (opens uri) xs \<Longrightarrow>
      tracker_ok gen (run_tracker gen xs s) \<and> incarnations (run_tracker gen xs s) uri = Some None \<and>
      ids_of (run_tracker gen xs s) uri \<subseteq> ids_of s uri" for xs and s :: "('uri, 'u) tracker"
  proof (induction xs arbitrary: s)
    case (Cons x xs)
    then have one: "incarnations (tracker_step gen x s) uri = Some None"
        "ids_of (tracker_step gen x s) uri \<subseteq> ids_of s uri"
      using closed_step [of gen s uri x] by simp_all
    moreover have "tracker_ok gen (tracker_step gen x s)"
      by (rule advances_ok [OF step_advances [OF assms(1) Cons.prems(1)]])
    ultimately show ?case using Cons.IH [of "tracker_step gen x s"] Cons.prems(3) by (simp) blast
  qed simp
  note L = this [OF ok closed assms(4)]
  then have "lookup_node uri u (run_tracker gen late t) \<noteq> None \<longrightarrow> lookup_node uri u t \<noteq> None"
    using lookup_node_ids [OF ok, of uri u] lookup_node_ids [of gen "run_tracker gen late t" uri u] by auto
  then show ?thesis using L by (simp add: admits_incarnation_def)
qed

section \<open>The latch\<close>

text \<open>Only edits move the shift generation of a document, only closes the cleanup epoch.\<close>

definition keeps_shift :: "(nat \<times> 'u uri_entries \<Rightarrow> 'r option \<times> nat \<times> 'u uri_entries) \<Rightarrow> bool" where
  "keeps_shift body \<longleftrightarrow> (\<forall>n e. shift_gen (snd (snd (body (n, e)))) = shift_gen e)"

lemma named_layer_shift: "shift_gen (snd (named_layer p l inc e)) = shift_gen e"
  by (auto simp: named_layer_def Let_def clear_named_def split: option.splits)

lemma get_or_insert_shift: "keeps_shift (get_or_insert gen k inc)"
  using get_or_insert_fields unfolding keeps_shift_def by (metis prod.collapse)

lemma named_layer_keeps: "keeps_shift (\<lambda>(n, e). let (r, e') = named_layer p l inc e in (r, n, e'))"
  by (simp add: keeps_shift_def case_prod_unfold Let_def named_layer_shift)

lemma mint_all_shift: "(\<And>k. keeps_shift (f k)) \<Longrightarrow> keeps_shift (mint_all f ks)"
proof (induction ks)
  case (Cons k ks)
  have "shift_gen (snd (snd (mint_all f (k # ks) (n, e)))) = shift_gen e" for n e
  proof -
    obtain r n1 e1 where k: "f k (n, e) = (r, n1, e1)" by (cases "f k (n, e)")
    then have "shift_gen e1 = shift_gen e" using Cons.prems [of k] unfolding keeps_shift_def by (metis snd_conv)
    moreover have "shift_gen (snd (snd (mint_all f ks (n1, e1)))) = shift_gen e1"
      using Cons.IH [OF Cons.prems] unfolding keeps_shift_def by blast
    ultimately show ?thesis using k by (cases r; cases "mint_all f ks (n1, e1)") simp_all
  qed
  then show ?case by (simp add: keeps_shift_def)
qed (simp add: keeps_shift_def)

lemma tree_batch_shift: "keeps_shift (tree_batch_body gen expected epoch inc scope keys)"
proof -
  have "shift_gen (snd (snd (tree_batch_body gen expected epoch inc scope keys (n, e)))) = shift_gen e" for n e
  proof -
    have life: "shift_gen (enter_lifetime inc e) = shift_gen e" by (simp add: enter_lifetime_def)
    have tok: "shift_gen e' = shift_gen e" if "scope_token scope (enter_lifetime inc e) = (r, e')" for r e'
      using that life by (auto simp: scope_token_def split: option.splits prod.splits)
    show ?thesis
    proof (cases rule: tree_batch_cases [of gen expected epoch inc scope keys n e])
      case (minted lay e')
      have "keeps_shift (mint_all (\<lambda>(s, t, knd). get_or_insert gen
         \<lparr>start_byte = s, end_byte = t, kind = knd, layer = lay\<rparr> inc) keys)"
        by (rule mint_all_shift) (simp add: case_prod_unfold get_or_insert_shift)
      then show ?thesis using tok [OF minted(2)] unfolding minted(3) keeps_shift_def by simp
    qed (use life tok in auto)
  qed
  then show ?thesis by (simp add: keeps_shift_def)
qed

lemma named_batch_shift: "keeps_shift (named_batch_body gen expected epoch inc base keys)"
proof -
  define f where "f = (\<lambda>(s, t, knd, pattern, lang) (n, e).
           case named_layer pattern lang inc e of
             (None, e) \<Rightarrow> (None, n, e)
           | (Some slot, e) \<Rightarrow>
               if usize_max < base + slot then (None, n, e)
               else get_or_insert gen
                 \<lparr>start_byte = s, end_byte = t, kind = knd, layer = base + slot\<rparr> inc (n, e))"
  have "keeps_shift (f k)" for k
  proof -
    obtain s t knd p l where k: "k = (s, t, knd, p, l)" by (cases k)
    have "shift_gen (snd (snd (f k (n, e)))) = shift_gen e" for n e
      using named_layer_shift [of p l inc e] get_or_insert_shift [of gen _ inc]
      by (auto simp: f_def k keeps_shift_def split: prod.splits option.splits)
    then show ?thesis by (simp add: keeps_shift_def)
  qed
  then have "keeps_shift (mint_all f keys)" by (rule mint_all_shift)
  then show ?thesis
    unfolding keeps_shift_def named_batch_body_def f_def [symmetric] by (simp add: reconcile_fields(6))
qed

lemma shift_generation_entry: "shift_generation uri t = shift_gen (entry_of t uri)"
  by (simp add: shift_generation_def entry_of_def entries_default_def split: option.split)

lemma under_lock_shift:
  assumes "keeps_shift body"
  shows "shift_gen (entry_of (snd (under_lock uri inc body t)) v) = shift_gen (entry_of t v)"
proof (cases "admits_incarnation uri inc t")
  case True
  obtain r n e where b: "body (drawn t, entry_of t uri) = (r, n, e)" by (cases "body (drawn t, entry_of t uri)")
  then have "shift_gen e = shift_gen (entry_of t uri)" using assms unfolding keeps_shift_def by (metis snd_conv)
  then show ?thesis using True b by (simp add: under_lock_def entry_of_put)
next
  case False
  have "shift_gen entries_default = 0" by (simp add: entries_default_def)
  then show ?thesis using False pristine_entry [of uri "put_entry uri (drawn t) (entry_of t uri) t" v]
    by (auto simp: under_lock_def entry_of_put)
qed

lemma edit_loop_shift: "shift_gen (snd (edit_loop ed xs e)) = shift_gen e"
  by (induction ed xs e rule: edit_loop.induct)
    (auto simp: insert_tracked_def Let_def split: prod.splits option.splits)

lemma apply_edit_shift: "shift_gen (snd (apply_edit_to_entries ed e)) = shift_gen e + 1"
proof -
  define e0 where "e0 = e\<lparr>forward := [], reverse := Map.empty, shift_gen := shift_gen e + 1,
                    doc_scopes := scopes_shift ed (doc_scopes e)\<rparr>"
  obtain dead e1 where loop: "edit_loop ed (forward e) e0 = (dead, e1)" by (cases "edit_loop ed (forward e) e0")
  then have "shift_gen e1 = shift_gen e + 1" using edit_loop_shift [of ed "forward e" e0] by (simp add: e0_def)
  then show ?thesis using loop by (simp add: apply_edit_to_entries_def e0_def Let_def)
qed

lemma named_locked_shift: "shift_gen (entry_of (snd (named_layer_locked v p l inc t)) uri) = shift_gen (entry_of t uri)"
proof (cases "docs t v \<noteq> None \<and> \<not> admits_incarnation v inc t")
  case False
  show ?thesis unfolding named_layer_locked_def if_not_P [OF False]
    by (rule under_lock_shift [OF named_layer_keeps])
qed (simp add: named_layer_locked_def)

lemma step_epoch: "cleanup_epoch (tracker_step gen x t) = cleanup_epoch t + (if closes x then 1 else 0)"
  by (cases x) (auto simp: locked_ops open_incarnation_def apply_single_edit_def retain_tree_scopes_eq
      cleanup_def Let_def split: prod.split option.split)

lemma step_shift:
  assumes "\<not> closes x"
  shows "shift_generation uri (tracker_step gen x t) = shift_generation uri t + (if shifts uri x then 1 else 0)"
proof (cases x)
  case (Edit v ed)
  obtain dead e where "apply_edit_to_entries ed (entry_of t v) = (dead, e)"
    by (cases "apply_edit_to_entries ed (entry_of t v)")
  moreover from this have "shift_gen e = shift_gen (entry_of t v) + 1"
    using apply_edit_shift [of ed "entry_of t v"] by simp
  ultimately show ?thesis using Edit
    by (simp add: shift_generation_entry apply_single_edit_def entry_of_put)
next
  case (Retain_Scopes v expected inc current unresolved g)
  then show ?thesis
    by (simp add: shift_generation_entry retain_tree_scopes_eq entry_of_put retire_scopes_def case_prod_unfold Let_def)
next
  case (Named_Layer v p l inc)
  then show ?thesis
    by (simp add: shift_generation_entry named_locked_shift)
qed (use assms in \<open>simp_all add: shift_generation_entry locked_ops under_lock_shift
      get_or_insert_shift tree_batch_shift named_batch_shift keeps_shift_def [of "\<lambda>(n, e). (_ n e, n, e)"]\<close>)

lemma run_epoch:
  "cleanup_epoch (run_tracker gen xs t) = cleanup_epoch t + of_nat (length (filter closes xs))"
  by (induction xs arbitrary: t) (simp_all add: step_epoch)

lemma run_shift:
  "filter closes xs = [] \<Longrightarrow>
    shift_generation uri (run_tracker gen xs t) = shift_generation uri t + of_nat (length (filter (shifts uri) xs))"
  by (induction xs arbitrary: t) (auto simp: step_shift split: if_splits)

lemma of_nat_moves: "0 < n \<Longrightarrow> n < 2 ^ 64 \<Longrightarrow> (a :: u64) + of_nat n \<noteq> a"
  by (simp add: word_of_nat_eq_0_iff nat_dvd_not_less)

lemma superseded_epoch:
  assumes "list_ex (\<lambda>x. closes x \<or> shifts uri x) xs" "length xs < 2 ^ 64"
  shows "mint_epoch uri (run_tracker gen xs t) \<noteq> mint_epoch uri t"
proof (cases "filter closes xs = []")
  case True
  have "filter (shifts uri) xs \<noteq> []" using assms(1) True by (auto simp: list_ex_iff filter_empty_conv)
  moreover have "length (filter (shifts uri) xs) < 2 ^ 64" using assms(2) length_filter_le by (rule le_less_trans [rotated])
  ultimately show ?thesis
    using of_nat_moves [of "length (filter (shifts uri) xs)" "shift_generation uri t"]
    by (simp add: mint_epoch_def run_shift [OF True])
next
  case False
  moreover have "length (filter closes xs) < 2 ^ 64" using assms(2) length_filter_le by (rule le_less_trans [rotated])
  ultimately show ?thesis
    using of_nat_moves [of "length (filter closes xs)" "cleanup_epoch t"]
    by (simp add: mint_epoch_def run_epoch)
qed

lemma pristine_lookup:
  assumes "tracker_ok gen t"
  shows "lookup_node v u (remove_pristine_entry uri t) = lookup_node v u t"
  using pristine_entry [of uri t v]
proof (elim disjE conjE)
  assume "entry_of (remove_pristine_entry uri t) v = entries_default" "ids_of t v = {}"
  then show ?thesis using lookup_node_ids [OF assms, of v u]
    by (simp add: lookup_node_reverse entries_default_def)
qed (simp add: lookup_node_reverse)

text \<open>A body that refuses at the current generation leaves every id as it was.\<close>

lemma latch_refuses:
  assumes "tracker_ok gen t" "\<And>n. body (n, entry_of t uri) = (None, n, entry_of t uri)"
  shows "fst (under_lock uri inc body t) = None \<and> drawn (snd (under_lock uri inc body t)) = drawn t \<and>
    lookup_node v u (snd (under_lock uri inc body t)) = lookup_node v u t"
proof -
  let ?p = "put_entry uri (drawn t) (entry_of t uri) t"
  have same: "entry_of ?p = entry_of t" by (rule ext) (simp add: entry_of_put)
  then have "tracker_ok gen ?p" using assms(1) by (simp add: tracker_ok_def ids_of_def)
  from pristine_lookup [OF this] have "lookup_node v u (remove_pristine_entry uri ?p) = lookup_node v u t"
    by (simp add: lookup_node_reverse same)
  moreover have "lookup_node v u ?p = lookup_node v u t" by (simp add: lookup_node_reverse same)
  ultimately show ?thesis using assms(2) by (simp add: under_lock_def)
qed

text \<open>C5: a latch taken before an edit of the document, or before any close, is refused ever after: a
  commit does not run, a batch returns nothing, draws no id and leaves every lookup as it was.\<close>

theorem stale_latch_refused:
  fixes gen :: "nat \<Rightarrow> 'u" and uri :: 'uri and ops late :: "'uri tracker_op list"
  assumes "inj gen"
  defines "t \<equiv> run_tracker gen ops tracker_new"
  defines "t' \<equiv> run_tracker gen late t"
  assumes "list_ex (\<lambda>x. closes x \<or> shifts uri x) late" "length late < 2 ^ 64"
  shows "fst (commit_if_unshifted uri (mint_epoch uri t) inc result t') = None \<and>
    (\<exists>t''. mint_tree_batch gen uri (mint_epoch uri t) inc scope keys t' = (None, t'') \<and>
       drawn t'' = drawn t' \<and> (\<forall>v u. lookup_node v u t'' = lookup_node v u t')) \<and>
    (\<exists>t''. mint_named_batch_if_unshifted_for_incarnation gen uri (mint_epoch uri t) inc base nkeys t' = (None, t'') \<and>
       drawn t'' = drawn t' \<and> (\<forall>v u. lookup_node v u t'' = lookup_node v u t'))"
proof -
  let ?l = "mint_epoch uri t"
  have "tracker_ok gen t" unfolding t_def by (rule run_tracker_ok [OF assms(1)])
  then have ok: "tracker_ok gen t'" using tracker.run_ok [of gen t late] assms(1) unfolding t'_def by simp
  have "(shift_gen (entry_of t' uri), cleanup_epoch t') \<noteq> ?l"
    using superseded_epoch [OF assms(4,5), of gen t] by (simp add: t'_def mint_epoch_def shift_generation_entry)
  then have bodies:
    "\<And>n. tree_batch_body gen ?l (cleanup_epoch t') inc scope keys (n, entry_of t' uri) = (None, n, entry_of t' uri)"
    "\<And>n. named_batch_body gen ?l (cleanup_epoch t') inc base nkeys (n, entry_of t' uri) = (None, n, entry_of t' uri)"
    "\<And>n. (\<lambda>(n, e). (if (shift_gen e, cleanup_epoch t') \<noteq> ?l then None else Some result, n, e)) (n, entry_of t' uri) =
       (None, n, entry_of t' uri)"
    by (simp_all add: tree_batch_body_def named_batch_body_def)
  note refused = bodies [THEN latch_refuses [OF ok]]
  show ?thesis
    using refused(1) [of inc] refused(2) [of inc] refused(3) [of inc]
    by (cases "admits_incarnation uri inc t'")
      (simp_all add: commit_if_unshifted_def mint_tree_batch_def
        mint_named_batch_if_unshifted_for_incarnation_def locked_ops prod_eq_iff)
qed

end
