(* ===== verification/Tracker_Batches.thy ===== *)
theory Tracker_Batches
  imports Tracker_Latch
begin

text \<open>
  Batches of a tracker: what a batch that passes the latch returns, and the named layers that
  injection alternatives get.
\<close>

section \<open>Batches of parse trees\<close>

lemma get_or_insert_keeps:
  assumes "index_ok gen n e" "inj gen" "get_or_insert gen k inc (n, e) = (Some w, n', e')"
    and "reverse e u = Some \<lparr>p_key = k', p_incarnation = inc\<rparr>"
  shows "reverse e' u = Some \<lparr>p_key = k', p_incarnation = inc\<rparr>"
proof (cases "k' = k")
  case True
  have "sync e" using assms(1) by (simp add: index_ok_def)
  from sync_lookup [OF this] have "map_of (forward e) k = Some \<lparr>t_ulid = u, t_incarnation = inc\<rparr>"
    using assms(4) True by simp
  then have "w = u" using assms(3) by (cases rule: get_or_insert_cases [of gen k inc n e]) auto
  then show ?thesis using get_or_insert_reverse [OF assms(2,1,3), of u] True by simp
next
  case False
  have "u \<noteq> w"
  proof
    assume eq: "u = w"
    show False
    proof (cases rule: get_or_insert_cases [of gen k inc n e])
      case (reused x)
      have sync: "sync e" using assms(1) by (simp add: index_ok_def)
      have "map_of (forward e) k = Some \<lparr>t_ulid = u, t_incarnation = inc\<rparr>"
        using reused assms(3) eq ulid_eta [of x] by simp
      then show False using sync_lookup [OF sync, of k u inc] assms(4) False by simp
    next
      case (minted rv)
      then have "u = gen n" using assms(3) eq by simp
      moreover have "u \<in> ids e"
        using reverse_None [of e u] assms(1,4) by (simp add: index_ok_def)
      ultimately show False using assms(1,2) by (auto simp: index_ok_def drawn_below_def ids_def inj_eq)
    qed (use assms(3) in simp)
  qed
  then show ?thesis using get_or_insert_reverse [OF assms(2,1,3), of u] assms(4) False by simp
qed

lemma mint_all_resolves:
  fixes gen :: "nat \<Rightarrow> 'u"
  assumes "inj gen"
  defines "f \<equiv> \<lambda>lay inc (s, t, knd). get_or_insert gen
     \<lparr>start_byte = s, end_byte = t, kind = knd, layer = lay\<rparr> inc"
  shows "\<lbrakk>index_ok gen n e; latest_incarnation e \<le> inc;
     scope_layer lay \<Longrightarrow> scopes_contains (doc_scopes e) lay; mint_all (f lay inc) keys (n, e) = (r, n', e')\<rbrakk> \<Longrightarrow>
   \<exists>us. r = Some us \<and> doc_scopes e' = doc_scopes e \<and>
     list_all2 (\<lambda>(s, t, knd) u. reverse e' u = Some \<lparr>p_key =
        \<lparr>start_byte = s, end_byte = t, kind = knd, layer = lay\<rparr>, p_incarnation = inc\<rparr>) keys us \<and>
     (\<forall>u k. reverse e u = Some \<lparr>p_key = k, p_incarnation = inc\<rparr> \<longrightarrow>
        reverse e' u = Some \<lparr>p_key = k, p_incarnation = inc\<rparr>)"
proof (induction keys arbitrary: n e r)
  case (Cons key keys)
  obtain s t knd where key: "key = (s, t, knd)" by (cases key)
  define k where "k = \<lparr>start_byte = s, end_byte = t, kind = knd, layer = lay\<rparr>"
  obtain o1 n1 e1 where g: "get_or_insert gen k inc (n, e) = (o1, n1, e1)"
    by (cases "get_or_insert gen k inc (n, e)")
  have "layer k = lay" by (simp add: k_def)
  then have "o1 \<noteq> None" using get_or_insert_refused [of gen k inc n e n1 e1] g Cons.prems(2,3) by force
  then obtain w where w: "o1 = Some w" by blast
  have idx: "index_ok gen n1 e1" using get_or_insert_ok [OF assms(1) Cons.prems(1) g] by (simp add: mint_ok_def)
  have fields: "doc_scopes e1 = doc_scopes e" "latest_incarnation e1 = inc"
    using get_or_insert_fields [OF g] w by simp_all
  obtain r2 n2 e2 where rest: "mint_all (f lay inc) keys (n1, e1) = (r2, n2, e2)"
    by (cases "mint_all (f lay inc) keys (n1, e1)")
  have fin: "r = map_option (Cons w) r2 \<and> n' = n2 \<and> e' = e2"
    using Cons.prems(4) g w rest by (auto simp: key f_def k_def)
  obtain us where us: "r2 = Some us" "doc_scopes e' = doc_scopes e1"
    "list_all2 (\<lambda>(s, t, knd) u. reverse e' u = Some \<lparr>p_key =
        \<lparr>start_byte = s, end_byte = t, kind = knd, layer = lay\<rparr>, p_incarnation = inc\<rparr>) keys us"
    and keep: "\<And>u k. reverse e1 u = Some \<lparr>p_key = k, p_incarnation = inc\<rparr> \<Longrightarrow>
        reverse e' u = Some \<lparr>p_key = k, p_incarnation = inc\<rparr>"
    using Cons.IH [OF idx, of r2] rest fields Cons.prems(3) fin by auto
  have "reverse e1 w = Some \<lparr>p_key = k, p_incarnation = inc\<rparr>"
    using get_or_insert_resolves [OF assms(1) Cons.prems(1)] g w by simp
  then have "reverse e' w = Some \<lparr>p_key = k, p_incarnation = inc\<rparr>" by (rule keep)
  moreover have "reverse e' u = Some \<lparr>p_key = k', p_incarnation = inc\<rparr>"
    if "reverse e u = Some \<lparr>p_key = k', p_incarnation = inc\<rparr>" for u k'
    by (rule keep, rule get_or_insert_keeps [OF Cons.prems(1) assms(1) g [unfolded w] that])
  ultimately show ?case using us fields fin by (auto simp: key k_def)
qed simp

lemma lookup_scope_reverse:
  "lookup_node_scope uri u t = scoped_node (entry_of t uri) u"
  by (cases "docs t uri") (simp_all add: lookup_node_scope_def entry_of_def scoped_node_def entries_default_def)

text \<open>a batch of a parse tree either returns one id per node, each resolving to its node's
  position in the very parse scope that was walked, all under the latch the caller took, or it
  returns nothing, and then it drew no id and no lookup changed.\<close>

lemma mint_tree_batch_correct:
  fixes gen :: "nat \<Rightarrow> 'u" and uri :: 'uri and ops :: "'uri tracker_op list"
  assumes "inj gen"
  defines "t \<equiv> run_tracker gen ops tracker_new"
  assumes "mint_tree_batch gen uri expected inc scope keys t = (r, t')"
  shows "case r of
      Some us \<Rightarrow> expected = mint_epoch uri t \<and>
        (\<exists>lay. list_all2 (\<lambda>(s, e, knd) u. lookup_node_scope uri u t' =
           Some \<lparr>node_position = (s, e, knd, lay, inc), node_scope = scope\<rparr>) keys us)
    | None \<Rightarrow> drawn t' = drawn t \<and> (\<forall>v u. lookup_node v u t' = lookup_node v u t)"
proof (cases "admits_incarnation uri inc t")
  case False
  then show ?thesis using assms(3) by (auto simp: mint_tree_batch_def)
next
  case True
  have ok: "tracker_ok gen t" unfolding t_def by (rule run_tracker_ok [OF assms(1)])
  let ?e = "entry_of t uri"
  have idx: "index_ok gen (drawn t) ?e" using ok by (simp add: tracker_ok_def)
  note life = enter_lifetime_index [OF idx, of inc]
  obtain n e' where b: "tree_batch_body gen expected (cleanup_epoch t) inc scope keys (drawn t, ?e) = (r, n, e')"
    and t': "t' = put_entry uri n e' t"
    using assms(3) True
    by (auto simp: mint_tree_batch_def mint_tree_batch_locked_def under_lock_def split: prod.splits)
  have unchanged: "drawn t' = drawn t \<and> (\<forall>v u. lookup_node v u t' = lookup_node v u t)"
    if "n = drawn t" "reverse e' = reverse ?e"
    using that by (simp add: t' lookup_node_reverse entry_of_put)
  have life_rev: "reverse (enter_lifetime inc ?e) = reverse ?e" by (simp add: enter_lifetime_def)
  show ?thesis
  proof (cases rule: tree_batch_cases [of gen expected "cleanup_epoch t" inc scope keys "drawn t" ?e])
    case refused
    then show ?thesis using b unchanged by simp
  next
    case no_keys
    then show ?thesis using b by (auto simp: mint_epoch_def shift_generation_entry)
  next
    case (exhausted e1)
    then show ?thesis using b unchanged life life_rev scope_token_index [of gen "drawn t" "enter_lifetime inc ?e" scope None e1]
      by simp
  next
    case (minted lay e1)
    note e1 = scope_token_index [OF conjunct1 [OF life] minted(2)]
    have lat: "latest_incarnation e1 \<le> inc"
      using minted(2,5) by (auto simp: scope_token_def enter_lifetime_def split: option.splits prod.splits if_splits)
    have tok: "scope_of (doc_scopes e1) lay = scope"
    proof (cases scope)
      case None
      then have "scopes_ok (doc_scopes e1)" "lay = 0" using e1 minted(2) by (auto simp: index_ok_def scope_token_def)
      then have "lay \<notin> fst ` set (by_token (doc_scopes e1))" by (force simp: scopes_ok_def TREE_SCOPE_BASE_def)
      then show ?thesis using None by (simp add: scope_of_def map_of_eq_None_iff)
    next
      case (Some sc)
      have "scopes_ok (doc_scopes (enter_lifetime inc ?e))" using life by (simp add: index_ok_def)
      from scopes_register_fields [OF this] show ?thesis
        using minted(2) Some by (auto simp: scope_token_def split: prod.splits)
    qed
    have contains: "scopes_contains (doc_scopes e1) lay" if "scope_layer lay"
    proof (cases scope)
      case None
      then have "lay = 0" using minted(2) by (simp add: scope_token_def)
      then show ?thesis using that by (simp add: scope_layer_def TREE_SCOPE_BASE_def)
    next
      case (Some sc)
      then show ?thesis using tok by (simp add: scopes_contains_def)
    qed
    obtain us where "r = Some us" "doc_scopes e' = doc_scopes e1"
      and us: "list_all2 (\<lambda>(s, t, knd) u. reverse e' u = Some \<lparr>p_key =
        \<lparr>start_byte = s, end_byte = t, kind = knd, layer = lay\<rparr>, p_incarnation = inc\<rparr>) keys us"
      using mint_all_resolves [OF assms(1) conjunct1 [OF e1] lat contains b [unfolded minted(3)]] by blast
    moreover have "list_all2 (\<lambda>(s, e, knd) u. lookup_node_scope uri u t' =
           Some \<lparr>node_position = (s, e, knd, lay, inc), node_scope = scope\<rparr>) keys us"
      using us by (rule list_all2_mono)
        (auto simp: lookup_scope_reverse t' entry_of_put scoped_node_def tok calculation(2))
    ultimately show ?thesis using minted(4) by (auto simp: mint_epoch_def shift_generation_entry)
  qed
qed

section \<open>Named layers\<close>

lemma slots_unique:
  "\<lbrakk>distinct (concat (map (\<lambda>(_, ls). map snd ls) nls)); (p, ls) \<in> set nls; (p', ls') \<in> set nls;
    (l, s) \<in> set ls; (l', s) \<in> set ls'\<rbrakk> \<Longrightarrow> (p, ls) = (p', ls') \<and> l = l'"
proof (induction nls)
  case (Cons x nls)
  have away: False if "(q, ks) = x" "(q', ks') \<in> set nls" "(m, s) \<in> set ks" "(m', s) \<in> set ks'" for q ks q' ks' m m'
  proof -
    have "s \<in> snd ` set ks" "s \<in> \<Union> (set ` set (map (\<lambda>(_, ls). map snd ls) nls))"
      using that(2-4) by (force simp: image_iff)+
    moreover have "snd ` set ks \<inter> \<Union> (set ` set (map (\<lambda>(_, ls). map snd ls) nls)) = {}"
      using Cons.prems(1) that(1) by auto
    ultimately show False by blast
  qed
  consider "(p, ls) = x" "(p', ls') = x" | "(p, ls) = x" "(p', ls') \<in> set nls"
    | "(p, ls) \<in> set nls" "(p', ls') = x" | "(p, ls) \<in> set nls" "(p', ls') \<in> set nls"
    using Cons.prems(2,3) by auto
  then show ?case
  proof cases
    case 1
    then have "distinct (map snd ls)" "ls' = ls" "p' = p" using Cons.prems(1) by auto
    moreover from this have "(l, s) = (l', s)"
      using Cons.prems(4,5) by (intro inj_onD [of snd "set ls"]) (simp_all add: distinct_map)
    ultimately show ?thesis by simp
  next
    case 2
    then show ?thesis using away Cons.prems(4,5) by blast
  next
    case 3
    then show ?thesis using away Cons.prems(4,5) by blast
  next
    case 4
    then show ?thesis using Cons.IH Cons.prems by auto
  qed
qed simp

lemma slot_of_unique:
  assumes "named_ok e" "slot_of e p l = Some s" "slot_of e p' l' = Some s"
  shows "p = p' \<and> l = l'"
proof -
  have at: "(q, languages_of e q) \<in> set (named_layers e) \<and> (m, s) \<in> set (languages_of e q)"
    if "slot_of e q m = Some s" for q m
  proof -
    have "(m, s) \<in> set (languages_of e q)" using that by (auto simp: slot_of_def dest: map_of_SomeD)
    then show ?thesis using languages_in [of e q] by force
  qed
  have "distinct (slots_of e)" using assms(1) by (simp add: named_ok_def)
  from slots_unique [OF this [unfolded slots_of_def]] show ?thesis
    using at [OF assms(2)] at [OF assms(3)] by blast
qed

lemma named_layer_keeps_slots:
  assumes "latest_incarnation e = inc" "named_layer p l inc e = (r, e')" "slot_of e p' l' = Some s"
  shows "slot_of e' p' l' = Some s"
proof (cases "p' = p")
  case True
  then show ?thesis using assms
    by (auto simp: named_layer_def Let_def slot_of_def languages_of_def AList.update_conv'
        split: option.splits if_splits)
next
  case False
  then show ?thesis using assms
    by (auto simp: named_layer_def Let_def slot_of_def languages_of_def AList.update_conv'
        split: option.splits if_splits)
qed

lemma named_layer_tracker:
  assumes "named_layer_for_incarnation uri p l inc t = (Some a, t')"
  obtains e where "named_layer p l inc (entry_of t uri) = (Some a, e)" "entry_of t' uri = e"
  using assms
  by (auto simp: named_layer_for_incarnation_def named_layer_locked_def under_lock_def entry_of_put
      split: if_splits prod.splits)

text \<open>two injection alternatives of one document get the same layer only if they are the same
  pattern and language, and asking for an alternative again gives the layer it has.\<close>

lemma named_layers_distinct:
  fixes gen :: "nat \<Rightarrow> 'u" and uri :: 'uri and ops :: "'uri tracker_op list"
  assumes "inj gen"
  defines "t \<equiv> run_tracker gen ops tracker_new"
  assumes "named_layer_for_incarnation uri p l inc t = (Some a, t')"
    and "named_layer_for_incarnation uri p' l' inc t' = (Some b, t'')"
  shows "a = b \<longleftrightarrow> p = p' \<and> l = l'"
proof -
  have "tracker_ok gen t" unfolding t_def by (rule run_tracker_ok [OF assms(1)])
  then have ok: "named_ok (entry_of t uri)" by (simp add: tracker_ok_def index_ok_def)
  obtain e1 where e1: "named_layer p l inc (entry_of t uri) = (Some a, e1)" "entry_of t' uri = e1"
    by (rule named_layer_tracker [OF assms(3)])
  obtain e2 where e2: "named_layer p' l' inc e1 = (Some b, e2)"
    using named_layer_tracker [OF assms(4)] e1(2) by metis
  have one: "named_ok e1" "slot_of e1 p l = Some a" "latest_incarnation e1 = inc"
    using named_layer_ok [OF ok e1(1)] by simp_all
  have two: "named_ok e2" "slot_of e2 p' l' = Some b"
    using named_layer_ok [OF one(1) e2] by simp_all
  have "slot_of e2 p l = Some a" by (rule named_layer_keeps_slots [OF one(3) e2 one(2)])
  then show ?thesis using slot_of_unique [OF two(1)] two(2) by force
qed

end
