(* ===== verification/Tracker_Samples.thy ===== *)
theory Tracker_Samples
  imports Tracker_Batches
begin

text \<open>
  The tracker's properties at a concrete document: one opened lifetime with one tracked node,
  ids drawn as \<open>0, 1, 2, ...\<close>.
\<close>

definition sample_ops :: "nat tracker_op list" where
  "sample_ops = [Open_Life 7 1, Get_Or_Create 7 sample_key 1]"

abbreviation sample_tracker :: "(nat, nat) tracker" where
  "sample_tracker \<equiv> run_tracker id sample_ops tracker_new"

definition sample_entry :: "nat uri_entries" where
  "sample_entry = entries_default\<lparr>forward := [(sample_key, \<lparr>t_ulid = 0, t_incarnation = 1\<rparr>)],
     reverse := [0 \<mapsto> \<lparr>p_key = sample_key, p_incarnation = 1\<rparr>], latest_incarnation := 1\<rparr>"

lemma sample_tracker_eq:
  "sample_tracker = \<lparr>docs = [7 \<mapsto> sample_entry], incarnations = [7 \<mapsto> Some 1], cleanup_epoch = 0, drawn = 1\<rparr>"
  by (simp add: sample_ops_def get_or_create_locked_def under_lock_def open_incarnation_def tracker_new_def
      admits_incarnation_def entry_of_def get_or_insert_def put_entry_def sample_entry_def entries_default_def
      scope_layer_def sample_key_def TREE_SCOPE_BASE_def Let_def)

lemma sample_lookup: "lookup_node 7 0 sample_tracker = Some (1, 4, ''id'', 0, 1)"
  unfolding sample_tracker_eq by (simp add: lookup_node_def sample_entry_def sample_key_def Let_def)

theorem tracker_index_correct_witness:
  "lookup_in_layer_for_incarnation 7 1 4 ''id'' 0 1 sample_tracker = Some 0 \<and> lookup_node 8 0 sample_tracker = None"
  using tracker_index_correct [of id 7 1 4 "''id''" 0 1 sample_ops 0 8] by (simp add: sample_lookup)

definition sample_cut :: edit_info where
  "sample_cut = \<lparr>e_start = 0, e_old_end = 5, e_new_end = 0\<rparr>"

lemma sample_state [simp]:
  "entry_of sample_tracker 7 = sample_entry" "drawn sample_tracker = 1"
  "incarnations sample_tracker = [7 \<mapsto> Some 1]" "cleanup_epoch sample_tracker = 0"
  "docs sample_tracker 7 = Some sample_entry"
  unfolding sample_tracker_eq by (simp_all add: entry_of_def)

lemma sample_scopes: "scopes_empty (scopes_shift ed scopes_default)" "scopes_empty scopes_default"
  by (simp_all add: scopes_empty_def scopes_shift_def reindex_def scopes_default_def)

lemmas sample_evals = sample_entry_def sample_key_def entries_default_def should_invalidate_node_def
  is_insertion_only_def sample_scopes scope_layer_def TREE_SCOPE_BASE_def Let_def

lemma run_snoc: "run_tracker gen (xs @ [x]) t = tracker_step gen x (run_tracker gen xs t)"
  by simp

lemma sample_cut_entry:
  "apply_edit_to_entries sample_cut sample_entry = ([0], sample_entry\<lparr>forward := [], reverse := Map.empty,
     shift_gen := 1, doc_scopes := scopes_shift sample_cut scopes_default\<rparr>)"
  by (simp add: apply_edit_to_entries_def sample_cut_def sample_evals)

lemma sample_edit_entry:
  "apply_edit_to_entries sample_edit sample_entry = ([], sample_entry\<lparr>
     forward := [(sample_key\<lparr>end_byte := 5\<rparr>, \<lparr>t_ulid = 0, t_incarnation = 1\<rparr>)],
     reverse := [0 \<mapsto> \<lparr>p_key = sample_key\<lparr>end_byte := 5\<rparr>, p_incarnation = 1\<rparr>],
     shift_gen := 1, doc_scopes := scopes_shift sample_edit scopes_default\<rparr>)"
  by (simp add: apply_edit_to_entries_def sample_edit_def sample_evals adjust_position_for_edit_def
      edit_delta_def apply_delta_def i64_max_def insert_tracked_def with_positions_def)

abbreviation cut_tracker :: "(nat, nat) tracker" where
  "cut_tracker \<equiv> run_tracker id (sample_ops @ [Edit 7 sample_cut]) tracker_new"

theorem dead_ids_stay_dead_witness:
  "lookup_node 7 0 (run_tracker id [Get_Or_Create 7 sample_key 1] cut_tracker) = None"
proof -
  have "cut_tracker = tracker_step id (Edit 7 sample_cut) sample_tracker" by (rule run_snoc)
  also have "drawn \<dots> = 1 \<and> lookup_node 7 0 \<dots> = None"
    by (simp add: apply_single_edit_def sample_cut_entry lookup_node_reverse entry_of_put del: fold_append)
  finally show ?thesis
    using dead_ids_stay_dead [of id 0 "sample_ops @ [Edit 7 sample_cut]" 7 "[Get_Or_Create 7 sample_key 1]"]
    by simp
qed

theorem edit_correct_witness:
  "\<exists>t'. apply_single_edit 7 sample_edit sample_tracker = ([], t') \<and> lookup_node 7 0 t' = Some (1, 5, ''id'', 0, 1)"
proof -
  obtain t' where t': "apply_single_edit 7 sample_edit sample_tracker = ([], t')"
    by (simp add: apply_single_edit_def sample_edit_entry)
  have "doc_scopes sample_entry = scopes_default" by (simp add: sample_entry_def entries_default_def)
  then have "lookup_node 7 0 t' = Some (1, 5, ''id'', 0, 1)"
    using edit_correct [OF inj_on_id t', of 0 8] by (simp add: sample_lookup sample_edit_def scope_lost_def)
  then show ?thesis using t' by blast
qed

theorem stale_latch_refused_witness:
  "fst (mint_tree_batch id 7 (mint_epoch 7 sample_tracker) 1 None [(0, 1, ''id'')]
     (run_tracker id [Edit 7 sample_edit] sample_tracker)) = None"
  using stale_latch_refused [where gen = id and late = "[Edit 7 sample_edit]" and uri = 7 and ops = sample_ops
      and inc = 1 and result = "()" and base = 0 and nkeys = "[]" and scope = None and keys = "[(0, 1, ''id'')]"]
  by auto

end
