(* ===== verification/Ingress_Order.thy ===== *)
theory Ingress_Order
  imports Prelude
begin

text \<open>
  \<open>src/src/lsp/ingress_order.rs\<close>: the middleware that keeps mutations of a document and the
  requests that read it in wire order. \<open>Service::call\<close> runs in wire order and issues tickets;
  the futures it returns are polled in any order by one task, so that what a future does
  between two awaits is one step. Tickets are natural numbers (a \<open>u64\<close> that counts
  messages does not wrap). A completion ledger is shared between the entry of a document and
  the gates of its writers, and outlives the entry: ledgers live in a store, by number.
\<close>

section \<open>The completion ledger\<close>

record completion =
  last_done :: nat
  early :: "nat list"

definition completion_new :: completion where
  "completion_new = \<lparr>last_done = 0, early = []\<rparr>"

text \<open>\<open>while early.remove(&(*done + 1)) { *done += 1; }\<close>\<close>

function cascade :: "nat \<Rightarrow> nat list \<Rightarrow> nat \<times> nat list" where
  "cascade n e = (if n + 1 \<in> set e then cascade (n + 1) (remove1 (n + 1) e) else (n, e))"
  by pat_completeness auto
termination
proof (relation "measure (\<lambda>(n, e). length e)", goal_cases)
  case (2 n e)
  then have "0 < length e" by (cases e) auto
  then show ?case using 2 by (simp add: length_remove1)
qed simp

declare cascade.simps [simp del]

definition complete_ticket :: "nat \<Rightarrow> completion \<Rightarrow> completion" where
  "complete_ticket ticket c =
     (if ticket = last_done c + 1
      then let (n, e) = cascade ticket (early c) in \<lparr>last_done = n, early = e\<rparr>
      else if last_done c < ticket then c\<lparr>early := List.insert ticket (early c)\<rparr> else c)"

section \<open>State\<close>

record doc_seq =
  tail :: nat
  ledger :: nat

record 'uri writer =
  w_id :: nat
  w_uri :: 'uri
  w_ticket :: nat
  w_ledger :: nat
  w_close :: bool
  w_reclaim :: bool
  w_running :: bool

record 'uri reader =
  r_id :: nat
  r_uri :: 'uri
  r_barrier :: "(nat \<times> nat) option"
  r_tail :: "nat option"
  r_running :: bool

text \<open>\<open>calls\<close> counts the messages seen, and numbers the futures by the wire order of their call.\<close>

record 'uri ingress =
  seqs :: "'uri \<rightharpoonup> doc_seq"
  ledgers :: "nat \<Rightarrow> completion"
  next_ledger :: nat
  writers :: "'uri writer list"
  readers :: "'uri reader list"
  calls :: nat

definition ingress_new :: "'uri ingress" where
  "ingress_new = \<lparr>seqs = Map.empty, ledgers = (\<lambda>_. completion_new), next_ledger = 0,
     writers = [], readers = [], calls = 0\<rparr>"

section \<open>Tickets and barriers\<close>

definition next_ticket :: "'uri \<Rightarrow> doc_seq \<Rightarrow> 'uri ingress \<Rightarrow> (nat \<times> nat) \<times> 'uri ingress" where
  "next_ticket uri seq s =
     (let seq = seq\<lparr>tail := tail seq + 1\<rparr> in ((tail seq, ledger seq), s\<lparr>seqs := (seqs s)(uri \<mapsto> seq)\<rparr>))"

definition issue_writer_ticket :: "'uri \<Rightarrow> 'uri ingress \<Rightarrow> (nat \<times> nat) \<times> 'uri ingress" where
  "issue_writer_ticket uri s =
     (case seqs s uri of
        Some seq \<Rightarrow> next_ticket uri seq s
      | None \<Rightarrow> next_ticket uri \<lparr>tail = 0, ledger = next_ledger s\<rparr>
                  (s\<lparr>ledgers := (ledgers s)(next_ledger s := completion_new), next_ledger := next_ledger s + 1\<rparr>))"

definition reader_barrier_and_tail :: "'uri \<Rightarrow> 'uri ingress \<Rightarrow> (nat \<times> nat) option \<times> nat option" where
  "reader_barrier_and_tail uri s =
     (case seqs s uri of
        None \<Rightarrow> (None, None)
      | Some seq \<Rightarrow>
          (if last_done (ledgers s (ledger seq)) < tail seq then Some (tail seq, ledger seq) else None,
           if 0 < tail seq then Some (tail seq) else None))"

definition finish_close :: "'uri \<Rightarrow> nat \<Rightarrow> 'uri ingress \<Rightarrow> 'uri ingress" where
  "finish_close uri ticket s =
     (case seqs s uri of
        Some seq \<Rightarrow> if tail seq = ticket then s\<lparr>seqs := (seqs s)(uri := None)\<rparr> else s
      | None \<Rightarrow> s)"

text \<open>\<open>impl Drop for WriterGate\<close>\<close>

definition drop_gate :: "'uri writer \<Rightarrow> 'uri ingress \<Rightarrow> 'uri ingress" where
  "drop_gate w s =
     s\<lparr>ledgers := (ledgers s)(w_ledger w := complete_ticket (w_ticket w) (ledgers s (w_ledger w))),
       writers := filter (\<lambda>v. w_id v \<noteq> w_id w) (writers s)\<rparr>"

text \<open>The sender of a ledger is gone when neither an entry nor a gate holds the ledger.\<close>

definition sender_dropped :: "'uri ingress \<Rightarrow> nat \<Rightarrow> bool" where
  "sender_dropped s c \<longleftrightarrow> (\<forall>uri seq. seqs s uri = Some seq \<longrightarrow> ledger seq \<noteq> c) \<and>
     (\<forall>w\<in>set (writers s). w_ledger w \<noteq> c)"

definition turn_of :: "'uri ingress \<Rightarrow> 'uri writer \<Rightarrow> bool" where
  "turn_of s w \<longleftrightarrow> w_ticket w - 1 \<le> last_done (ledgers s (w_ledger w)) \<or> sender_dropped s (w_ledger w)"

definition barrier_open :: "'uri ingress \<Rightarrow> 'uri reader \<Rightarrow> bool" where
  "barrier_open s r \<longleftrightarrow>
     (case r_barrier r of
        None \<Rightarrow> True
      | Some (target, c) \<Rightarrow> target \<le> last_done (ledgers s c) \<or> sender_dropped s c)"

section \<open>Classification\<close>

text \<open>
  What \<open>classify\<close> reads of a request: the method, whether the parameters of a save decode,
  and the normalised document URIs at the three places the code looks for one.
\<close>

record 'uri request =
  req_method :: string
  save_decodes :: bool
  text_document_uri :: "'uri option"
  envelope_uri :: "'uri option"
  item_uri :: "'uri option"

datatype 'uri role = Writer_Role 'uri bool bool | Reader_Role 'uri

definition reader_methods :: "string list" where
  "reader_methods =
    [''textDocument/semanticTokens/full'', ''textDocument/semanticTokens/full/delta'',
     ''textDocument/semanticTokens/range'', ''textDocument/formatting'', ''textDocument/rangeFormatting'',
     ''textDocument/rename'', ''textDocument/prepareRename'', ''textDocument/codeAction'',
     ''textDocument/inlayHint'', ''textDocument/documentColor'', ''textDocument/colorPresentation'',
     ''textDocument/prepareCallHierarchy'', ''textDocument/prepareTypeHierarchy'',
     ''textDocument/diagnostic'', ''kakehashi/captures/full'', ''kakehashi/captures/full/delta'',
     ''kakehashi/captures/range'']"

definition resolve_methods :: "string list" where
  "resolve_methods = [''codeLens/resolve'', ''codeAction/resolve'', ''documentLink/resolve'',
     ''inlayHint/resolve'', ''completionItem/resolve'']"

definition hierarchy_methods :: "string list" where
  "hierarchy_methods = [''callHierarchy/incomingCalls'', ''callHierarchy/outgoingCalls'',
     ''typeHierarchy/supertypes'', ''typeHierarchy/subtypes'']"

definition starts_with :: "string \<Rightarrow> string \<Rightarrow> bool" where
  "starts_with s p \<longleftrightarrow> take (length p) s = p"

definition classify :: "'uri request \<Rightarrow> 'uri role option" where
  "classify req =
     (let method = req_method req in
      if method = ''textDocument/didSave'' then
        (if save_decodes req then map_option (\<lambda>u. Writer_Role u False True) (text_document_uri req) else None)
      else if method \<in> set [''textDocument/didOpen'', ''textDocument/didChange'', ''textDocument/didClose''] then
        map_option (\<lambda>u. Writer_Role u (method = ''textDocument/didClose'') False) (text_document_uri req)
      else if method \<in> set reader_methods then map_option Reader_Role (text_document_uri req)
      else if method \<in> set resolve_methods then map_option Reader_Role (envelope_uri req)
      else if method \<in> set hierarchy_methods then map_option Reader_Role (item_uri req)
      else if method = ''kakehashi/node'' \<or> starts_with method ''kakehashi/node/'' then
        map_option Reader_Role (text_document_uri req)
      else None)"

section \<open>Steps\<close>

text \<open>\<open>Service::call\<close>: synchronous, in wire order.\<close>

definition call_request :: "'uri request \<Rightarrow> 'uri ingress \<Rightarrow> 'uri ingress" where
  "call_request req s =
     (let n = calls s; s = s\<lparr>calls := n + 1\<rparr> in
      case classify req of
        None \<Rightarrow> s
      | Some (Writer_Role uri close reclaim) \<Rightarrow>
          (let ((ticket, c), s) = issue_writer_ticket uri s
           in s\<lparr>writers := writers s @ [\<lparr>w_id = n, w_uri = uri, w_ticket = ticket, w_ledger = c,
                  w_close = close, w_reclaim = reclaim, w_running = False\<rparr>]\<rparr>)
      | Some (Reader_Role uri) \<Rightarrow>
          (let (barrier, upto) = reader_barrier_and_tail uri s
           in s\<lparr>readers := readers s @ [\<lparr>r_id = n, r_uri = uri, r_barrier = barrier, r_tail = upto,
                  r_running = False\<rparr>]\<rparr>))"

definition start_writer :: "'uri writer \<Rightarrow> 'uri ingress \<Rightarrow> 'uri ingress" where
  "start_writer w s =
     s\<lparr>writers := map (\<lambda>v. if w_id v = w_id w then v\<lparr>w_running := True\<rparr> else v) (writers s)\<rparr>"

text \<open>The handler returned; \<open>flag\<close> tells whether it asked to reclaim the sequence.\<close>

definition finish_writer :: "bool \<Rightarrow> 'uri writer \<Rightarrow> 'uri ingress \<Rightarrow> 'uri ingress" where
  "finish_writer flag w s =
     (let s = drop_gate w s
      in if w_close w \<or> w_reclaim w \<and> flag then finish_close (w_uri w) (w_ticket w) s else s)"

definition start_reader :: "'uri reader \<Rightarrow> 'uri ingress \<Rightarrow> 'uri ingress" where
  "start_reader r s =
     s\<lparr>readers := map (\<lambda>v. if r_id v = r_id r then v\<lparr>r_running := True\<rparr> else v) (readers s)\<rparr>"

definition drop_reader :: "'uri reader \<Rightarrow> 'uri ingress \<Rightarrow> 'uri ingress" where
  "drop_reader r s = s\<lparr>readers := filter (\<lambda>v. r_id v \<noteq> r_id r) (readers s)\<rparr>"

text \<open>
  The steps of the middleware. A future may be dropped at any time, before or after its
  handler started: its gate completes the ticket, and no cleanup follows.
\<close>

inductive ingress_step :: "'uri ingress \<Rightarrow> 'uri ingress \<Rightarrow> bool" where
  Call: "ingress_step s (call_request req s)"
| Start_Writer: "w \<in> set (writers s) \<Longrightarrow> \<not> w_running w \<Longrightarrow> turn_of s w \<Longrightarrow> ingress_step s (start_writer w s)"
| Finish_Writer: "w \<in> set (writers s) \<Longrightarrow> w_running w \<Longrightarrow> ingress_step s (finish_writer flag w s)"
| Cancel_Writer: "w \<in> set (writers s) \<Longrightarrow> ingress_step s (drop_gate w s)"
| Start_Reader: "r \<in> set (readers s) \<Longrightarrow> \<not> r_running r \<Longrightarrow> barrier_open s r \<Longrightarrow> ingress_step s (start_reader r s)"
| Drop_Reader: "r \<in> set (readers s) \<Longrightarrow> ingress_step s (drop_reader r s)"

inductive ingress_reach :: "'uri ingress \<Rightarrow> bool" where
  Init: "ingress_reach ingress_new"
| Step: "ingress_reach s \<Longrightarrow> ingress_step s s' \<Longrightarrow> ingress_reach s'"

end
