(* ===== verification/Ingress_Fifo.thy ===== *)
theory Ingress_Fifo
  imports Ingress_Order
begin

text \<open>
  The tickets, ledgers and barriers of the ingress middleware implement one queue per
  document: a future may run exactly when no mutation of its document that came before it on
  the wire is unfinished. The invariant ties the tickets of unfinished writers to the gaps of
  the ledger, through cancellations, closes and reopenings.
\<close>

section \<open>The ledger\<close>

definition finished :: "completion \<Rightarrow> nat set" where
  "finished c = {k. k \<le> last_done c} \<union> set (early c)"

definition ledger_ok :: "completion \<Rightarrow> bool" where
  "ledger_ok c \<longleftrightarrow> distinct (early c) \<and> (\<forall>k\<in>set (early c). last_done c + 1 < k)"

lemma cascade_spec:
  "\<lbrakk>distinct e; \<forall>k\<in>set e. n < k; cascade n e = (n', e')\<rbrakk> \<Longrightarrow>
    distinct e' \<and> (\<forall>k\<in>set e'. n' + 1 < k) \<and> {k. k \<le> n'} \<union> set e' = {k. k \<le> n} \<union> set e"
proof (induction n e rule: cascade.induct)
  case (1 n e)
  show ?case
  proof (cases "n + 1 \<in> set e")
    case True
    then have "cascade (n + 1) (remove1 (n + 1) e) = (n', e')" using 1(4) by (simp add: cascade.simps [of n e])
    moreover have "\<forall>k\<in>set (remove1 (n + 1) e). n + 1 < k"
      using 1(2,3) by (auto simp: set_remove1_eq Suc_lessI)
    ultimately have "distinct e' \<and> (\<forall>k\<in>set e'. n' + 1 < k) \<and>
        {k. k \<le> n'} \<union> set e' = {k. k \<le> n + 1} \<union> set (remove1 (n + 1) e)"
      using 1(1) [OF True] 1(2) by simp
    moreover have "{k. k \<le> n + 1} \<union> set (remove1 (n + 1) e) = {k. k \<le> n} \<union> set e"
      using True 1(2) by (auto simp: set_remove1_eq le_Suc_eq)
    ultimately show ?thesis by simp
  next
    case False
    then have "n' = n" "e' = e" using 1(4) by (simp_all add: cascade.simps [of n e])
    then show ?thesis using False 1(2,3) by (auto intro: Suc_lessI)
  qed
qed

lemma complete_ticket_spec:
  assumes "ledger_ok c" "ticket \<notin> finished c"
  shows "ledger_ok (complete_ticket ticket c) \<and> finished (complete_ticket ticket c) = insert ticket (finished c)"
proof (cases "ticket = last_done c + 1")
  case True
  obtain n e where c: "cascade ticket (early c) = (n, e)" by (cases "cascade ticket (early c)")
  have "\<forall>k\<in>set (early c). ticket < k" using assms(1) True by (simp add: ledger_ok_def)
  then have "distinct e \<and> (\<forall>k\<in>set e. n + 1 < k) \<and> {k. k \<le> n} \<union> set e = {k. k \<le> ticket} \<union> set (early c)"
    using cascade_spec [OF _ _ c] assms(1) by (simp add: ledger_ok_def)
  then show ?thesis using True c
    by (auto simp: complete_ticket_def ledger_ok_def finished_def le_Suc_eq)
next
  case False
  then show ?thesis using assms
    by (auto simp: complete_ticket_def ledger_ok_def finished_def)
qed

section \<open>The invariant\<close>

definition none_before :: "'uri ingress \<Rightarrow> 'uri \<Rightarrow> nat \<Rightarrow> bool" where
  "none_before s uri n \<longleftrightarrow> (\<forall>w\<in>set (writers s). w_uri w = uri \<longrightarrow> n \<le> w_id w)"

text \<open>A ledger in use has a gap exactly for each unfinished writer of its document.\<close>

definition seq_ok :: "'uri ingress \<Rightarrow> 'uri \<Rightarrow> doc_seq \<Rightarrow> bool" where
  "seq_ok s uri seq \<longleftrightarrow> ledger seq < next_ledger s \<and> ledger_ok (ledgers s (ledger seq)) \<and>
     finished (ledgers s (ledger seq)) \<subseteq> {..tail seq} \<and>
     w_ticket ` {w \<in> set (writers s). w_uri w = uri} = {..tail seq} - finished (ledgers s (ledger seq))"

definition seqs_ok :: "'uri ingress \<Rightarrow> bool" where
  "seqs_ok s \<longleftrightarrow> (\<forall>uri seq. seqs s uri = Some seq \<longrightarrow> seq_ok s uri seq) \<and>
     (\<forall>uri uri' seq seq'. seqs s uri = Some seq \<longrightarrow> seqs s uri' = Some seq' \<longrightarrow> ledger seq = ledger seq' \<longrightarrow> uri = uri')"

definition writers_ok :: "'uri ingress \<Rightarrow> bool" where
  "writers_ok s \<longleftrightarrow> distinct (map w_id (writers s)) \<and>
     (\<forall>w\<in>set (writers s). w_id w < calls s \<and> (\<exists>t. seqs s (w_uri w) = Some \<lparr>tail = t, ledger = w_ledger w\<rparr>) \<and>
        (w_running w \<longrightarrow> none_before s (w_uri w) (w_id w))) \<and>
     (\<forall>w\<in>set (writers s). \<forall>v\<in>set (writers s). w_uri w = w_uri v \<longrightarrow>
        (w_id w < w_id v \<longleftrightarrow> w_ticket w < w_ticket v))"

definition barrier_ok :: "'uri ingress \<Rightarrow> 'uri \<Rightarrow> nat \<Rightarrow> (nat \<times> nat) option \<Rightarrow> bool" where
  "barrier_ok s uri n barrier \<longleftrightarrow>
     (case barrier of
        None \<Rightarrow> none_before s uri n
      | Some (target, c) \<Rightarrow> c < next_ledger s \<and>
          (if \<exists>t\<ge>target. seqs s uri = Some \<lparr>tail = t, ledger = c\<rparr>
           then \<forall>w\<in>set (writers s). w_uri w = uri \<longrightarrow> (w_id w < n \<longleftrightarrow> w_ticket w \<le> target)
           else none_before s uri n \<and> (\<forall>v seq. seqs s v = Some seq \<longrightarrow> ledger seq \<noteq> c)))"

definition reader_ok :: "'uri ingress \<Rightarrow> 'uri reader \<Rightarrow> bool" where
  "reader_ok s r \<longleftrightarrow> r_id r < calls s \<and> (r_running r \<longrightarrow> none_before s (r_uri r) (r_id r)) \<and>
     barrier_ok s (r_uri r) (r_id r) (r_barrier r)"

definition ingress_ok :: "'uri ingress \<Rightarrow> bool" where
  "ingress_ok s \<longleftrightarrow> seqs_ok s \<and> writers_ok s \<and> (\<forall>r\<in>set (readers s). reader_ok s r) \<and>
     distinct (map r_id (readers s))"

lemma ingress_new_ok: "ingress_ok ingress_new"
  by (simp add: ingress_ok_def ingress_new_def seqs_ok_def writers_ok_def)

section \<open>What the gates wait for\<close>

lemma doc_seq_eta [simp]: "\<lparr>tail = tail q, ledger = ledger q\<rparr> = q"
  by (cases q) simp

lemma done_reaches:
  assumes "seq_ok s uri q" "k \<le> tail q"
  shows "k \<le> last_done (ledgers s (ledger q)) \<longleftrightarrow>
    (\<forall>w\<in>set (writers s). w_uri w = uri \<longrightarrow> k < w_ticket w)"
proof
  let ?c = "ledgers s (ledger q)"
  have live: "w_ticket ` {w \<in> set (writers s). w_uri w = uri} = {..tail q} - finished ?c"
    using assms(1) by (simp add: seq_ok_def)
  {
    assume k: "k \<le> last_done ?c"
    show "\<forall>w\<in>set (writers s). w_uri w = uri \<longrightarrow> k < w_ticket w"
    proof (intro ballI impI)
      fix w assume "w \<in> set (writers s)" "w_uri w = uri"
      then have "w_ticket w \<notin> finished ?c" using live by blast
      then show "k < w_ticket w" using k by (simp add: finished_def)
    qed
  next
    assume none: "\<forall>w\<in>set (writers s). w_uri w = uri \<longrightarrow> k < w_ticket w"
    show "k \<le> last_done ?c"
    proof (rule ccontr)
      assume "\<not> k \<le> last_done ?c"
      then have "last_done ?c + 1 \<le> k" by simp
      moreover have "last_done ?c + 1 \<notin> finished ?c"
        using assms(1) by (auto simp: seq_ok_def ledger_ok_def finished_def)
      ultimately have "last_done ?c + 1 \<in> {..tail q} - finished ?c" using assms(2) by simp
      then obtain w where "w \<in> set (writers s)" "w_uri w = uri" "w_ticket w = last_done ?c + 1"
        unfolding live [symmetric] by force
      then show False using none \<open>last_done ?c + 1 \<le> k\<close> by fastforce
    qed
  }
qed

lemma turn_is_fifo:
  assumes "ingress_ok s" "w \<in> set (writers s)"
  shows "turn_of s w \<longleftrightarrow> none_before s (w_uri w) (w_id w)"
proof -
  obtain t where q: "seqs s (w_uri w) = Some \<lparr>tail = t, ledger = w_ledger w\<rparr>"
    using assms by (auto simp: ingress_ok_def writers_ok_def)
  then have sq: "seq_ok s (w_uri w) \<lparr>tail = t, ledger = w_ledger w\<rparr>"
    using assms(1) by (auto simp: ingress_ok_def seqs_ok_def)
  then have "w_ticket w \<in> {..t} - finished (ledgers s (w_ledger w))" using assms(2) by (auto simp: seq_ok_def)
  then have k: "w_ticket w - 1 \<le> t" "0 < w_ticket w" by (auto simp: finished_def intro: Suc_leI gr0I)
  have order: "w_id v < w_id w \<longleftrightarrow> w_ticket v < w_ticket w" if "v \<in> set (writers s)" "w_uri v = w_uri w" for v
    using assms that by (auto simp: ingress_ok_def writers_ok_def)
  have "turn_of s w \<longleftrightarrow> w_ticket w - 1 \<le> last_done (ledgers s (w_ledger w))"
    using assms(2) by (auto simp: turn_of_def sender_dropped_def)
  also have "\<dots> \<longleftrightarrow> (\<forall>v\<in>set (writers s). w_uri v = w_uri w \<longrightarrow> w_ticket w - 1 < w_ticket v)"
    using done_reaches [OF sq] k(1) by simp
  also have "\<dots> \<longleftrightarrow> (\<forall>v\<in>set (writers s). w_uri v = w_uri w \<longrightarrow> \<not> w_ticket v < w_ticket w)"
    using k(2) by auto
  also have "\<dots> \<longleftrightarrow> none_before s (w_uri w) (w_id w)" using order by (auto simp: none_before_def not_less [symmetric])
  finally show ?thesis .
qed

lemma barrier_is_fifo:
  assumes "ingress_ok s" "r \<in> set (readers s)"
  shows "barrier_open s r \<longleftrightarrow> none_before s (r_uri r) (r_id r)"
proof (cases "r_barrier r")
  case None
  then show ?thesis using assms by (auto simp: barrier_open_def ingress_ok_def reader_ok_def barrier_ok_def)
next
  case (Some b)
  obtain target c where b: "b = (target, c)" by (cases b)
  have ok: "reader_ok s r" using assms by (simp add: ingress_ok_def)
  show ?thesis
  proof (cases "\<exists>t\<ge>target. seqs s (r_uri r) = Some \<lparr>tail = t, ledger = c\<rparr>")
    case True
    then obtain t where q: "target \<le> t" "seqs s (r_uri r) = Some \<lparr>tail = t, ledger = c\<rparr>" by blast
    then have sq: "seq_ok s (r_uri r) \<lparr>tail = t, ledger = c\<rparr>"
      using assms(1) by (auto simp: ingress_ok_def seqs_ok_def)
    have "\<not> sender_dropped s c" using q(2) by (force simp: sender_dropped_def)
    moreover have "(\<forall>w\<in>set (writers s). w_uri w = r_uri r \<longrightarrow> (w_id w < r_id r \<longleftrightarrow> w_ticket w \<le> target))"
      using ok Some b True by (simp add: reader_ok_def barrier_ok_def)
    ultimately show ?thesis using done_reaches [OF sq, of target] q(1) Some b
      by (auto simp: barrier_open_def none_before_def not_less [symmetric])
  next
    case False
    then have none: "none_before s (r_uri r) (r_id r)" "\<forall>uri seq. seqs s uri = Some seq \<longrightarrow> ledger seq \<noteq> c"
      using ok Some b by (auto simp: reader_ok_def barrier_ok_def)
    moreover have "w_ledger w \<noteq> c" if "w \<in> set (writers s)" for w
      using assms(1) that none(2) by (force simp: ingress_ok_def writers_ok_def)
    ultimately have "sender_dropped s c" by (auto simp: sender_dropped_def)
    then show ?thesis using Some b none(1) by (simp add: barrier_open_def)
  qed
qed

section \<open>Every step keeps the invariant\<close>

lemma none_before_mono:
  "none_before s uri n \<Longrightarrow> set (writers s') \<subseteq> set (writers s) \<Longrightarrow> none_before s' uri n"
  by (auto simp: none_before_def)

text \<open>Starting a future changes only its own flag.\<close>

lemma start_writer_ok:
  assumes "ingress_ok s" "w \<in> set (writers s)" "turn_of s w"
  shows "ingress_ok (start_writer w s)"
proof -
  define f where "f = (\<lambda>v :: 'a writer. if w_id v = w_id w then v\<lparr>w_running := True\<rparr> else v)"
  have f: "w_id (f v) = w_id v" "w_uri (f v) = w_uri v" "w_ticket (f v) = w_ticket v"
    "w_ledger (f v) = w_ledger v" "w_running (f v) \<longleftrightarrow> w_running v \<or> w_id v = w_id w" for v
    by (simp_all add: f_def)
  have s': "start_writer w s = s\<lparr>writers := map f (writers s)\<rparr>" by (simp add: start_writer_def f_def)
  have before: "none_before (start_writer w s) uri n \<longleftrightarrow> none_before s uri n" for uri n
    by (simp add: none_before_def s' f)
  have tickets: "w_ticket ` {v \<in> f ` set (writers s). w_uri v = uri} = w_ticket ` {v \<in> set (writers s). w_uri v = uri}" for uri
    using f(2,3) by (auto simp: image_iff) metis
  have "seqs_ok (start_writer w s)"
    using assms(1) by (simp add: ingress_ok_def seqs_ok_def seq_ok_def s' tickets)
  moreover have "writers_ok (start_writer w s)"
  proof -
    have ok: "writers_ok s" using assms(1) by (simp add: ingress_ok_def)
    have "none_before s (w_uri v) (w_id v)" if "v \<in> set (writers s)" "w_id v = w_id w" for v
    proof -
      have "v = w" using ok that assms(2) by (auto simp: writers_ok_def distinct_map dest: inj_onD)
      then show ?thesis using turn_is_fifo [OF assms(1,2)] assms(3) by simp
    qed
    moreover have "w_id \<circ> f = w_id" by (rule ext) (simp add: f)
    ultimately show ?thesis using ok unfolding writers_ok_def before by (simp add: s' f)
  qed
  moreover have "reader_ok (start_writer w s) r" if "reader_ok s r" for r
    using that unfolding reader_ok_def barrier_ok_def before by (simp add: s' f cong: if_cong option.case_cong prod.case_cong)
  ultimately show ?thesis using assms(1) by (simp add: ingress_ok_def s')
qed

text \<open>What the readers list is does not matter to the rest.\<close>

lemma readers_irrelevant:
  "seqs_ok (s\<lparr>readers := rs\<rparr>) \<longleftrightarrow> seqs_ok s" "writers_ok (s\<lparr>readers := rs\<rparr>) \<longleftrightarrow> writers_ok s"
  "reader_ok (s\<lparr>readers := rs\<rparr>) r \<longleftrightarrow> reader_ok s r" "none_before (s\<lparr>readers := rs\<rparr>) uri n \<longleftrightarrow> none_before s uri n"
  by (auto simp: seqs_ok_def seq_ok_def writers_ok_def reader_ok_def barrier_ok_def none_before_def split: option.split)

lemma start_reader_ok:
  assumes "ingress_ok s" "r \<in> set (readers s)" "barrier_open s r"
  shows "ingress_ok (start_reader r s)"
proof -
  define f where "f = (\<lambda>v :: 'a reader. if r_id v = r_id r then v\<lparr>r_running := True\<rparr> else v)"
  have s': "start_reader r s = s\<lparr>readers := map f (readers s)\<rparr>" by (simp add: start_reader_def f_def)
  have "reader_ok s (f v)" if "v \<in> set (readers s)" for v
  proof (cases "r_id v = r_id r")
    case True
    then have "v = r" using assms(1,2) that by (auto simp: ingress_ok_def distinct_map dest: inj_onD)
    then show ?thesis using assms(1,2) barrier_is_fifo [OF assms(1,2)] assms(3)
      by (simp add: f_def ingress_ok_def reader_ok_def)
  next
    case False
    then show ?thesis using assms(1) that by (simp add: f_def ingress_ok_def)
  qed
  moreover have "r_id \<circ> f = r_id" by (rule ext) (simp add: f_def)
  ultimately show ?thesis using assms(1) unfolding s' ingress_ok_def by (simp add: readers_irrelevant)
qed

lemma drop_reader_ok: "ingress_ok s \<Longrightarrow> ingress_ok (drop_reader r s)"
  by (simp add: ingress_ok_def drop_reader_def readers_irrelevant distinct_map_filter)

text \<open>Dropping a gate closes the gap of its ticket.\<close>

lemma same_ledger:
  assumes "ingress_ok s" "w \<in> set (writers s)" "v \<in> set (writers s)"
  shows "w_ledger w = w_ledger v \<longleftrightarrow> w_uri w = w_uri v"
proof -
  obtain t u where "seqs s (w_uri w) = Some \<lparr>tail = t, ledger = w_ledger w\<rparr>"
      "seqs s (w_uri v) = Some \<lparr>tail = u, ledger = w_ledger v\<rparr>"
    using assms unfolding ingress_ok_def writers_ok_def by blast
  then show ?thesis using assms(1) unfolding ingress_ok_def seqs_ok_def by fastforce
qed

lemma same_ticket:
  assumes "ingress_ok s" "w \<in> set (writers s)" "v \<in> set (writers s)" "w_uri w = w_uri v"
  shows "w_ticket w = w_ticket v \<longleftrightarrow> w_id w = w_id v"
  using assms unfolding ingress_ok_def writers_ok_def by (metis less_irrefl linorder_neq_iff)

lemma drop_gate_ok:
  assumes "ingress_ok s" "w \<in> set (writers s)"
  shows "ingress_ok (drop_gate w s)"
proof -
  let ?s = "drop_gate w s"
  have sub: "set (writers ?s) \<subseteq> set (writers s)" by (simp add: drop_gate_def)
  have seqs: "seqs ?s = seqs s" "next_ledger ?s = next_ledger s" "calls ?s = calls s" "readers ?s = readers s"
    by (simp_all add: drop_gate_def)
  obtain t where q: "seqs s (w_uri w) = Some \<lparr>tail = t, ledger = w_ledger w\<rparr>"
    using assms by (auto simp: ingress_ok_def writers_ok_def)
  have "seq_ok ?s uri seq" if "seqs s uri = Some seq" for uri seq
  proof (cases "uri = w_uri w")
    case True
    then have seq: "seq = \<lparr>tail = t, ledger = w_ledger w\<rparr>" using that q by simp
    have ok: "seq_ok s (w_uri w) \<lparr>tail = t, ledger = w_ledger w\<rparr>"
      using assms(1) q by (simp add: ingress_ok_def seqs_ok_def)
    have live: "w_ticket ` {v \<in> set (writers s). w_uri v = w_uri w} = {..t} - finished (ledgers s (w_ledger w))"
      using ok by (simp add: seq_ok_def)
    have fresh: "w_ticket w \<in> {..t} - finished (ledgers s (w_ledger w))" using live assms(2) by blast
    have "w_ticket ` {v \<in> set (writers ?s). w_uri v = w_uri w} =
        w_ticket ` {v \<in> set (writers s). w_uri v = w_uri w} - {w_ticket w}"
    proof -
      have "w_ticket v = w_ticket w \<longleftrightarrow> w_id v = w_id w" if "v \<in> set (writers s)" "w_uri v = w_uri w" for v
        by (rule same_ticket [OF assms(1) that(1) assms(2) that(2)])
      then show ?thesis by (auto simp: drop_gate_def image_iff)
    qed
    then show ?thesis using complete_ticket_spec [of "ledgers s (w_ledger w)" "w_ticket w"] ok fresh live
      unfolding seq_ok_def seq True by (auto simp: drop_gate_def)
  next
    case False
    have "ledger seq \<noteq> w_ledger w"
      using assms(1) that q False by (force simp: ingress_ok_def seqs_ok_def)
    moreover have "{v \<in> set (writers ?s). w_uri v = uri} = {v \<in> set (writers s). w_uri v = uri}"
      using False assms by (auto simp: drop_gate_def ingress_ok_def writers_ok_def distinct_map dest: inj_onD)
    moreover have "seq_ok s uri seq" using assms(1) that by (simp add: ingress_ok_def seqs_ok_def)
    ultimately show ?thesis unfolding seq_ok_def by (simp add: seqs) (simp add: drop_gate_def)
  qed
  then have "seqs_ok ?s" using assms(1) by (simp add: seqs_ok_def seqs ingress_ok_def)
  moreover have "writers_ok ?s"
    using assms(1) none_before_mono [OF _ sub] unfolding ingress_ok_def writers_ok_def seqs
    by (auto simp: drop_gate_def distinct_map_filter)
  moreover have "reader_ok ?s r" if "reader_ok s r" for r
    using that none_before_mono [OF _ sub] sub unfolding reader_ok_def barrier_ok_def seqs
    by (auto split: option.splits if_splits)
  ultimately show ?thesis using assms(1) by (simp add: ingress_ok_def seqs)
qed

text \<open>Closing removes the entry of a document only when none of its writers is left.\<close>

lemma forget_ok:
  assumes "ingress_ok s" "\<forall>w\<in>set (writers s). w_uri w \<noteq> uri"
  shows "ingress_ok (s\<lparr>seqs := (seqs s)(uri := None)\<rparr>)"
proof -
  let ?s = "s\<lparr>seqs := (seqs s)(uri := None)\<rparr>"
  have nb: "none_before ?s v n \<longleftrightarrow> none_before s v n" for v n by (simp add: none_before_def)
  have "seqs_ok ?s" using assms(1) by (simp add: ingress_ok_def seqs_ok_def seq_ok_def)
  moreover have "writers_ok ?s" using assms unfolding ingress_ok_def writers_ok_def nb by auto
  moreover have "reader_ok ?s r" if r: "r \<in> set (readers s)" for r
  proof (cases "r_uri r = uri")
    case True
    have "none_before s (r_uri r) (r_id r)" using assms(2) True by (auto simp: none_before_def)
    moreover have "ledger seq \<noteq> c" if "r_barrier r = Some (target, c)" "seqs s v = Some seq" "v \<noteq> uri" for v seq target c
    proof (cases "\<exists>t\<ge>target. seqs s uri = Some \<lparr>tail = t, ledger = c\<rparr>")
      case True
      then show ?thesis using assms(1) that(2,3) unfolding ingress_ok_def seqs_ok_def by fastforce
    next
      case False
      have "reader_ok s r" using assms(1) r by (simp add: ingress_ok_def)
      then show ?thesis using that(1,2) \<open>r_uri r = uri\<close> False
        by (simp only: reader_ok_def barrier_ok_def option.case prod.case if_False) blast
    qed
    ultimately show ?thesis using assms(1) r True
      by (auto simp: ingress_ok_def reader_ok_def barrier_ok_def nb split: option.splits)
  next
    case False
    then show ?thesis using assms(1) r unfolding ingress_ok_def reader_ok_def barrier_ok_def nb
      by (auto split: option.splits if_splits)
  qed
  ultimately show ?thesis using assms(1) by (simp add: ingress_ok_def)
qed

lemma finish_writer_ok:
  assumes "ingress_ok s" "w \<in> set (writers s)" "w_running w"
  shows "ingress_ok (finish_writer flag w s)"
proof -
  let ?s = "drop_gate w s"
  have ok: "ingress_ok ?s" by (rule drop_gate_ok [OF assms(1,2)])
  have "w_uri v \<noteq> w_uri w" if last: "seqs ?s (w_uri w) = Some seq" "tail seq = w_ticket w"
      and v: "v \<in> set (writers ?s)" for v seq
  proof
    assume uri: "w_uri v = w_uri w"
    have vs: "v \<in> set (writers s)" "w_id v \<noteq> w_id w" using v by (auto simp: drop_gate_def)
    have "none_before s (w_uri w) (w_id w)" using assms by (auto simp: ingress_ok_def writers_ok_def)
    then have "w_id w < w_id v" using vs uri by (force simp: none_before_def)
    then have "w_ticket w < w_ticket v" using assms(1,2) vs(1) uri by (auto simp: ingress_ok_def writers_ok_def)
    moreover have "w_ticket v \<le> tail seq"
    proof -
      have "seq_ok ?s (w_uri w) seq" using ok last(1) by (simp add: ingress_ok_def seqs_ok_def)
      then show ?thesis using v uri unfolding seq_ok_def by blast
    qed
    ultimately show False using last(2) by simp
  qed
  then show ?thesis using ok forget_ok [OF ok, of "w_uri w"]
    by (auto simp: finish_writer_def finish_close_def Let_def split: option.split)
qed

text \<open>A call.\<close>

lemma tick_ok: "ingress_ok s \<Longrightarrow> calls s \<le> n \<Longrightarrow> ingress_ok (s\<lparr>calls := n\<rparr>)"
proof -
  assume ok: "ingress_ok s" and n: "calls s \<le> n"
  let ?s = "s\<lparr>calls := n\<rparr>"
  have nb: "none_before ?s v k \<longleftrightarrow> none_before s v k" for v k by (simp add: none_before_def)
  have "seqs_ok ?s" using ok by (simp add: ingress_ok_def seqs_ok_def seq_ok_def)
  moreover have "writers_ok ?s" using ok n unfolding ingress_ok_def writers_ok_def nb by (auto intro: less_le_trans)
  moreover have "reader_ok ?s r" if "r \<in> set (readers s)" for r
  proof -
    have "reader_ok s r" using ok that by (simp add: ingress_ok_def)
    moreover have "barrier_ok ?s v k b \<longleftrightarrow> barrier_ok s v k b" for v k b
      unfolding barrier_ok_def nb by (simp split: option.split)
    ultimately show ?thesis using n unfolding reader_ok_def nb by auto
  qed
  ultimately show ?thesis using ok by (simp add: ingress_ok_def)
qed

lemma open_seq_ok:
  assumes "ingress_ok s" "seqs s uri = None"
  shows "ingress_ok (s\<lparr>ledgers := (ledgers s)(next_ledger s := completion_new), next_ledger := next_ledger s + 1,
    seqs := (seqs s)(uri \<mapsto> \<lparr>tail = 0, ledger = next_ledger s\<rparr>)\<rparr>)"
proof -
  let ?s = "s\<lparr>ledgers := (ledgers s)(next_ledger s := completion_new), next_ledger := next_ledger s + 1,
    seqs := (seqs s)(uri \<mapsto> \<lparr>tail = 0, ledger = next_ledger s\<rparr>)\<rparr>"
  have nb: "none_before ?s v n \<longleftrightarrow> none_before s v n" for v n by (simp add: none_before_def)
  have away: "w_uri w \<noteq> uri" if "w \<in> set (writers s)" for w
    using assms that by (force simp: ingress_ok_def writers_ok_def)
  have old: "ledger q < next_ledger s" if "seqs s v = Some q" for v q
    using assms(1) that by (auto simp: ingress_ok_def seqs_ok_def seq_ok_def)
  have "seq_ok ?s v q" if "seqs ?s v = Some q" for v q
  proof (cases "v = uri")
    case True
    then have "q = \<lparr>tail = 0, ledger = next_ledger s\<rparr>" using that by simp
    moreover have "finished completion_new = {0}" by (auto simp: finished_def completion_new_def)
    ultimately show ?thesis using True away
      by (auto simp: seq_ok_def ledger_ok_def completion_new_def)
  next
    case False
    then have "seqs s v = Some q" using that by simp
    then have "ledger q \<noteq> next_ledger s" "seq_ok s v q"
      using old [of v q] assms(1) by (simp_all add: ingress_ok_def seqs_ok_def)
    then show ?thesis by (simp add: seq_ok_def)
  qed
  moreover have "v = v'" if "seqs ?s v = Some q" "seqs ?s v' = Some q'" "ledger q = ledger q'" for v v' q q'
  proof (cases "v = uri \<or> v' = uri")
    case True
    show ?thesis
    proof (rule ccontr)
      assume "v \<noteq> v'"
      then have "seqs s v = Some q \<and> ledger q' = next_ledger s \<or> seqs s v' = Some q' \<and> ledger q = next_ledger s"
        using True that(1,2) by (cases "v = uri") auto
      then show False using old [of v q] old [of v' q'] that(3) by auto
    qed
  next
    case False
    then have "seqs s v = Some q" "seqs s v' = Some q'" using that(1,2) by simp_all
    then show ?thesis using that(3) assms(1) unfolding ingress_ok_def seqs_ok_def by blast
  qed
  ultimately have "seqs_ok ?s" unfolding seqs_ok_def by blast
  moreover have "writers_ok ?s" using assms(1) away unfolding ingress_ok_def writers_ok_def nb by auto
  moreover have "reader_ok ?s r" if "r \<in> set (readers s)" for r
  proof -
    have "reader_ok s r" using assms(1) that by (simp add: ingress_ok_def)
    then show ?thesis using assms(2) unfolding reader_ok_def barrier_ok_def nb by (auto split: option.splits if_splits)
  qed
  ultimately show ?thesis using assms(1) by (simp add: ingress_ok_def)
qed

text \<open>A writer behind the others: its ticket extends the ledger's reach by one gap.\<close>

lemma push_writer_ok:
  assumes "ingress_ok s" "seqs s uri = Some q" "w_id w = calls s" "w_uri w = uri"
    and "w_ticket w = tail q + 1" "w_ledger w = ledger q" "\<not> w_running w"
  shows "ingress_ok (s\<lparr>seqs := (seqs s)(uri \<mapsto> q\<lparr>tail := tail q + 1\<rparr>), writers := writers s @ [w],
    calls := calls s + 1\<rparr>)" (is "ingress_ok ?s")
proof -
  have nb: "none_before ?s v n \<longleftrightarrow> none_before s v n \<and> (v = uri \<longrightarrow> n \<le> calls s)" for v n
    using assms(3,4) by (auto simp: none_before_def)
  have wid: "w_id v < calls s" if "v \<in> set (writers s)" for v
    using assms(1) that by (auto simp: ingress_ok_def writers_ok_def)
  have sq: "seq_ok s uri q" using assms(1,2) by (simp add: ingress_ok_def seqs_ok_def)
  have tickets: "w_ticket v \<le> tail q" if "v \<in> set (writers s)" "w_uri v = uri" for v
    using sq that unfolding seq_ok_def by blast
  have inj: "v = uri" if "seqs s v = Some q'" "ledger q' = ledger q" for v q'
    using assms(1,2) that unfolding ingress_ok_def seqs_ok_def by blast
  have "seq_ok ?s v q'" if "seqs ?s v = Some q'" for v q'
  proof (cases "v = uri")
    case True
    have live: "{u \<in> set (writers s @ [w]). w_uri u = uri} = insert w {u \<in> set (writers s). w_uri u = uri}"
      using assms(4) by auto
    have "w_ticket ` {u \<in> set (writers s @ [w]). w_uri u = uri} =
        insert (tail q + 1) ({..tail q} - finished (ledgers s (ledger q)))"
      unfolding live using sq assms(5) by (simp add: seq_ok_def)
    also have "\<dots> = {..tail q + 1} - finished (ledgers s (ledger q))"
      using sq by (auto simp: seq_ok_def le_Suc_eq)
    finally show ?thesis using sq True that by (auto simp: seq_ok_def)
  next
    case False
    then have "{u \<in> set (writers s @ [w]). w_uri u = v} = {u \<in> set (writers s). w_uri u = v}"
      using assms(4) by auto
    moreover have "seq_ok s v q'" using that False assms(1) by (simp add: ingress_ok_def seqs_ok_def)
    ultimately show ?thesis by (simp add: seq_ok_def)
  qed
  moreover have "v = v'" if "seqs ?s v = Some a" "seqs ?s v' = Some b" "ledger a = ledger b" for v v' a b
  proof -
    have "\<exists>a'. seqs s v = Some a' \<and> ledger a' = ledger a" "\<exists>b'. seqs s v' = Some b' \<and> ledger b' = ledger b"
      using that(1,2) assms(2) by (auto split: if_splits)
    then show ?thesis using assms(1) that(3) unfolding ingress_ok_def seqs_ok_def by metis
  qed
  ultimately have "seqs_ok ?s" unfolding seqs_ok_def by blast
  moreover have "writers_ok ?s"
  proof -
    have ok: "writers_ok s" using assms(1) by (simp add: ingress_ok_def)
    have dist: "distinct (map w_id (writers ?s))"
      using ok wid assms(3) by (force simp: writers_ok_def)
    have one: "w_id v < calls ?s \<and> (\<exists>t. seqs ?s (w_uri v) = Some \<lparr>tail = t, ledger = w_ledger v\<rparr>) \<and>
        (w_running v \<longrightarrow> none_before ?s (w_uri v) (w_id v))" if "v \<in> set (writers ?s)" for v
    proof (cases "v = w")
      case True
      then show ?thesis using assms by (auto intro: exI [of _ "tail q + 1"])
    next
      case False
      then have v: "v \<in> set (writers s)" using that by simp
      then obtain t where t: "seqs s (w_uri v) = Some \<lparr>tail = t, ledger = w_ledger v\<rparr>"
        using ok by (auto simp: writers_ok_def)
      have "w_running v \<longrightarrow> none_before s (w_uri v) (w_id v)" using ok v by (auto simp: writers_ok_def)
      then show ?thesis using t wid [OF v] assms(2) unfolding nb by (auto split: if_splits)
    qed
    have two: "w_id a < w_id b \<longleftrightarrow> w_ticket a < w_ticket b"
      if "a \<in> set (writers ?s)" "b \<in> set (writers ?s)" "w_uri a = w_uri b" for a b
    proof (cases "a = w \<or> b = w")
      case True
      then show ?thesis using that wid [of a] wid [of b] tickets [of a] tickets [of b] assms(3-5) by auto
    next
      case False
      then show ?thesis using that ok by (auto simp: writers_ok_def)
    qed
    show ?thesis unfolding writers_ok_def using dist one two by blast
  qed
  moreover have "reader_ok ?s r" if "r \<in> set (readers s)" for r
  proof -
    have ok: "reader_ok s r" using assms(1) that by (simp add: ingress_ok_def)
    then have r: "r_id r < calls s" by (simp add: reader_ok_def)
    have "barrier_ok ?s (r_uri r) (r_id r) (Some (target, c))" if b: "r_barrier r = Some (target, c)" for target c
    proof (cases "\<exists>t\<ge>target. seqs s (r_uri r) = Some \<lparr>tail = t, ledger = c\<rparr>")
      case True
      then obtain t where t: "target \<le> t" "seqs s (r_uri r) = Some \<lparr>tail = t, ledger = c\<rparr>" by blast
      have old: "c < next_ledger s" "\<forall>w\<in>set (writers s). w_uri w = r_uri r \<longrightarrow> (w_id w < r_id r \<longleftrightarrow> w_ticket w \<le> target)"
        using ok True b by (simp_all add: reader_ok_def barrier_ok_def)
      have "\<exists>t\<ge>target. seqs ?s (r_uri r) = Some \<lparr>tail = t, ledger = c\<rparr>"
        using t assms(2) by (auto intro: exI [of _ "t + 1"])
      moreover have "w_id w < r_id r \<longleftrightarrow> w_ticket w \<le> target" if "w_uri w = r_uri r"
        using that r assms(2-5) t by auto
      ultimately show ?thesis using old unfolding barrier_ok_def by simp
    next
      case False
      then have old: "c < next_ledger s" "none_before s (r_uri r) (r_id r)" "\<forall>v seq. seqs s v = Some seq \<longrightarrow> ledger seq \<noteq> c"
        using ok b by (auto simp: reader_ok_def barrier_ok_def)
      then have new: "ledger seq \<noteq> c" if "seqs ?s v = Some seq" for v seq
      proof (cases "v = uri")
        case True
        have "ledger q \<noteq> c" using old(3) assms(2) by blast
        then show ?thesis using that True by auto
      next
        case False
        then show ?thesis using that old(3) by simp
      qed
      have none: "\<not> (\<exists>t\<ge>target. seqs ?s (r_uri r) = Some \<lparr>tail = t, ledger = c\<rparr>)" using new by fastforce
      show ?thesis unfolding barrier_ok_def option.case prod.case if_not_P [OF none] nb
        using old(1,2) r new by simp
    qed
    moreover have "barrier_ok ?s (r_uri r) (r_id r) None" if "r_barrier r = None"
      using ok r that unfolding reader_ok_def barrier_ok_def option.case nb by simp
    ultimately have "barrier_ok ?s (r_uri r) (r_id r) (r_barrier r)"
      by (cases "r_barrier r") auto
    then show ?thesis using ok r unfolding reader_ok_def nb by simp
  qed
  ultimately show ?thesis using assms(1) by (simp add: ingress_ok_def)
qed

lemma push_reader_ok:
  assumes "ingress_ok s" "r_id r = calls s" "r_uri r = uri" "\<not> r_running r"
    and "r_barrier r = fst (reader_barrier_and_tail uri s)"
  shows "ingress_ok (s\<lparr>readers := readers s @ [r], calls := calls s + 1\<rparr>)"
proof -
  let ?t = "s\<lparr>calls := calls s + 1\<rparr>"
  have ok: "ingress_ok ?t" by (rule tick_ok [OF assms(1)]) simp
  have early: "w_id w < calls s" if "w \<in> set (writers s)" for w
    using assms(1) that by (auto simp: ingress_ok_def writers_ok_def)
  have "barrier_ok ?t uri (calls s) (r_barrier r)"
  proof (cases "seqs s uri")
    case None
    then have "none_before ?t uri (calls s)"
      using assms(1) by (force simp: none_before_def ingress_ok_def writers_ok_def)
    then show ?thesis using None assms(5) by (simp add: reader_barrier_and_tail_def barrier_ok_def)
  next
    case (Some q)
    have sq: "seq_ok s uri q" using assms(1) Some by (simp add: ingress_ok_def seqs_ok_def)
    then have tickets: "w_ticket w \<le> tail q" if "w \<in> set (writers s)" "w_uri w = uri" for w
      using that unfolding seq_ok_def by blast
    show ?thesis
    proof (cases "last_done (ledgers s (ledger q)) < tail q")
      case True
      then have "r_barrier r = Some (tail q, ledger q)"
        using Some assms(5) by (simp add: reader_barrier_and_tail_def)
      moreover have "\<exists>t\<ge>tail q. seqs ?t uri = Some \<lparr>tail = t, ledger = ledger q\<rparr>" using Some by auto
      ultimately show ?thesis using sq tickets early by (auto simp: barrier_ok_def seq_ok_def)
    next
      case False
      then have "none_before ?t uri (calls s)"
        using done_reaches [OF sq, of "tail q"] tickets by (force simp: none_before_def)
      then show ?thesis using False Some assms(5) by (simp add: reader_barrier_and_tail_def barrier_ok_def)
    qed
  qed
  then have "reader_ok ?t r" using assms(2-4) by (simp add: reader_ok_def)
  moreover have "distinct (map r_id (readers s @ [r]))"
    using assms(1,2) by (force simp: ingress_ok_def reader_ok_def)
  moreover have eq: "s\<lparr>readers := readers s @ [r], calls := calls s + 1\<rparr> = ?t\<lparr>readers := readers s @ [r]\<rparr>" by simp
  ultimately show ?thesis using ok unfolding eq ingress_ok_def readers_irrelevant by simp
qed

lemma call_request_ok:
  assumes "ingress_ok s"
  shows "ingress_ok (call_request req s)"
proof (cases "classify req")
  case None
  then show ?thesis using tick_ok [OF assms, of "calls s + 1"] by (simp add: call_request_def)
next
  case (Some role)
  show ?thesis
  proof (cases role)
    case (Writer_Role uri close reclaim)
    let ?w = "\<lambda>ticket c. \<lparr>w_id = calls s, w_uri = uri, w_ticket = ticket, w_ledger = c,
        w_close = close, w_reclaim = reclaim, w_running = False\<rparr>"
    show ?thesis
    proof (cases "seqs s uri")
      case (Some q)
      then have "call_request req s = s\<lparr>seqs := (seqs s)(uri \<mapsto> q\<lparr>tail := tail q + 1\<rparr>),
          writers := writers s @ [?w (tail q + 1) (ledger q)], calls := calls s + 1\<rparr>"
        using \<open>classify req = Some role\<close> Writer_Role
        by (simp add: call_request_def issue_writer_ticket_def next_ticket_def Let_def)
      moreover have "ingress_ok \<dots>" by (rule push_writer_ok [OF assms Some]) simp_all
      ultimately show ?thesis by simp
    next
      case None
      let ?s = "s\<lparr>ledgers := (ledgers s)(next_ledger s := completion_new), next_ledger := next_ledger s + 1,
          seqs := (seqs s)(uri \<mapsto> \<lparr>tail = 0, ledger = next_ledger s\<rparr>)\<rparr>"
      have at: "seqs ?s uri = Some \<lparr>tail = 0, ledger = next_ledger s\<rparr>" by simp
      have "call_request req s = ?s\<lparr>seqs := (seqs ?s)(uri \<mapsto> \<lparr>tail = 0, ledger = next_ledger s\<rparr>\<lparr>tail := 0 + 1\<rparr>),
          writers := writers ?s @ [?w 1 (next_ledger s)], calls := calls ?s + 1\<rparr>"
        using Some Writer_Role None
        by (simp add: call_request_def issue_writer_ticket_def next_ticket_def Let_def)
      moreover have "ingress_ok (?s\<lparr>seqs := (seqs ?s)(uri \<mapsto> \<lparr>tail = 0, ledger = next_ledger s\<rparr>\<lparr>tail :=
          doc_seq.tail \<lparr>tail = 0, ledger = next_ledger s\<rparr> + 1\<rparr>),
          writers := writers ?s @ [?w 1 (next_ledger s)], calls := calls ?s + 1\<rparr>)"
        by (rule push_writer_ok [OF open_seq_ok [OF assms None] at]) simp_all
      ultimately show ?thesis by simp
    qed
  next
    case (Reader_Role uri)
    obtain barrier upto where b: "reader_barrier_and_tail uri s = (barrier, upto)"
      by (cases "reader_barrier_and_tail uri s")
    moreover have "reader_barrier_and_tail uri (s\<lparr>calls := Suc (calls s)\<rparr>) = reader_barrier_and_tail uri s"
      by (simp add: reader_barrier_and_tail_def split: option.split)
    ultimately have "call_request req s = s\<lparr>readers := readers s @ [\<lparr>r_id = calls s, r_uri = uri,
        r_barrier = barrier, r_tail = upto, r_running = False\<rparr>], calls := calls s + 1\<rparr>"
      using Some Reader_Role by (simp add: call_request_def Let_def)
    moreover have "ingress_ok \<dots>" by (rule push_reader_ok [OF assms, where uri = uri]) (simp_all add: b)
    ultimately show ?thesis by simp
  qed
qed

lemma ingress_step_ok: "ingress_step s s' \<Longrightarrow> ingress_ok s \<Longrightarrow> ingress_ok s'"
  by (induction rule: ingress_step.induct)
    (simp_all add: call_request_ok start_writer_ok finish_writer_ok drop_gate_ok start_reader_ok drop_reader_ok)

lemma ingress_reach_ok: "ingress_reach s \<Longrightarrow> ingress_ok s"
  by (induction rule: ingress_reach.induct) (auto intro: ingress_new_ok ingress_step_ok)

section \<open>Properties\<close>

text \<open>C3: the tickets, ledgers and barriers of the ingress middleware implement one queue per document,
  through cancellations, closes and reopenings: a mutation's turn has come, and a reading
  request's barrier is open, exactly when no mutation of its document that came before it on
  the wire is unfinished.\<close>

theorem ingress_refines_fifo:
  assumes "ingress_reach s"
  shows "(\<forall>w\<in>set (writers s). turn_of s w \<longleftrightarrow>
      (\<forall>v\<in>set (writers s). w_uri v = w_uri w \<longrightarrow> w_id w \<le> w_id v)) \<and>
    (\<forall>r\<in>set (readers s). barrier_open s r \<longleftrightarrow>
      (\<forall>v\<in>set (writers s). w_uri v = r_uri r \<longrightarrow> r_id r \<le> w_id v))"
  using turn_is_fifo [OF ingress_reach_ok [OF assms]] barrier_is_fifo [OF ingress_reach_ok [OF assms]]
  by (simp add: none_before_def)

text \<open>C8: two mutations of one document never run at the same time, a request never reads a document
  while a mutation that preceded it is unfinished, and the gate never wedges: while a document
  has unfinished mutations, the first of them runs or may start.\<close>

theorem ingress_exclusive_and_live:
  assumes "ingress_reach s" "w \<in> set (writers s)"
  shows "(w_running w \<longrightarrow> (\<forall>v\<in>set (writers s). w_uri v = w_uri w \<and> w_running v \<longrightarrow> v = w)) \<and>
    (\<forall>r\<in>set (readers s). r_running r \<and> r_uri r = w_uri w \<longrightarrow> r_id r \<le> w_id w) \<and>
    (\<exists>v\<in>set (writers s). w_uri v = w_uri w \<and> (w_running v \<or> turn_of s v))"
proof -
  have ok: "ingress_ok s" by (rule ingress_reach_ok [OF assms(1)])
  have alone: "v = w" if "w_running w" "v \<in> set (writers s)" "w_uri v = w_uri w" "w_running v" for v
  proof -
    have "none_before s (w_uri w) (w_id w)" "none_before s (w_uri v) (w_id v)"
      using ok that assms(2) by (auto simp: ingress_ok_def writers_ok_def)
    then have "w_id v = w_id w" using that assms(2) by (force simp: none_before_def)
    then show ?thesis using ok that(2) assms(2) by (auto simp: ingress_ok_def writers_ok_def distinct_map dest: inj_onD)
  qed
  have readers: "r_id r \<le> w_id w" if "r \<in> set (readers s)" "r_running r" "r_uri r = w_uri w" for r
    using ok that assms(2) by (auto simp: ingress_ok_def reader_ok_def none_before_def)
  let ?W = "{v \<in> set (writers s). w_uri v = w_uri w}"
  have "finite ?W" "?W \<noteq> {}" using assms(2) by auto
  then obtain v where v: "v \<in> ?W" "\<forall>u\<in>?W. w_id v \<le> w_id u"
    using ex_min_if_finite [of "w_id ` ?W"] by (auto simp: not_less)
  then have "turn_of s v" using turn_is_fifo [OF ok, of v] by (simp add: none_before_def)
  then show ?thesis using alone readers v(1) by blast
qed

section \<open>A concrete history\<close>

definition sample_request :: "string \<Rightarrow> nat request" where
  "sample_request method = \<lparr>req_method = method, save_decodes = True, text_document_uri = Some 0,
     envelope_uri = None, item_uri = None\<rparr>"

definition sample_ingress :: "nat ingress" where
  "sample_ingress = call_request (sample_request ''textDocument/didChange'')
     (call_request (sample_request ''textDocument/didOpen'') ingress_new)"

lemma sample_reach: "ingress_reach sample_ingress"
  unfolding sample_ingress_def
  by (rule ingress_reach.Step [OF ingress_reach.Step [OF ingress_reach.Init ingress_step.Call] ingress_step.Call])

lemma sample_roles:
  "classify (sample_request ''textDocument/didOpen'') = Some (Writer_Role 0 False False)"
  "classify (sample_request ''textDocument/didChange'') = Some (Writer_Role 0 False False)"
  by (simp_all add: classify_def sample_request_def)

lemma sample_opened:
  "call_request (sample_request ''textDocument/didOpen'') ingress_new =
     \<lparr>seqs = [0 \<mapsto> \<lparr>tail = 1, ledger = 0\<rparr>], ledgers = (\<lambda>_. completion_new), next_ledger = 1,
      writers = [\<lparr>w_id = 0, w_uri = 0, w_ticket = 1, w_ledger = 0, w_close = False, w_reclaim = False, w_running = False\<rparr>],
      readers = [], calls = 1\<rparr>"
  by (simp add: call_request_def sample_roles issue_writer_ticket_def next_ticket_def ingress_new_def fun_upd_idem)

lemma sample_writers:
  "writers sample_ingress =
     [\<lparr>w_id = 0, w_uri = 0, w_ticket = 1, w_ledger = 0, w_close = False, w_reclaim = False, w_running = False\<rparr>,
      \<lparr>w_id = 1, w_uri = 0, w_ticket = 2, w_ledger = 0, w_close = False, w_reclaim = False, w_running = False\<rparr>]"
  unfolding sample_ingress_def sample_opened
  by (simp add: call_request_def sample_roles issue_writer_ticket_def next_ticket_def)

theorem ingress_refines_fifo_witness:
  "turn_of sample_ingress (writers sample_ingress ! 0) \<and> \<not> turn_of sample_ingress (writers sample_ingress ! 1)"
  using ingress_refines_fifo [OF sample_reach] by (simp add: sample_writers)

theorem ingress_exclusive_and_live_witness:
  "\<exists>v\<in>set (writers sample_ingress). w_uri v = 0 \<and> (w_running v \<or> turn_of sample_ingress v)"
  using ingress_exclusive_and_live [OF sample_reach, of "writers sample_ingress ! 1"] by (simp add: sample_writers)

end
