(* ===== verification/Region_Offset.thy ===== *)
theory Region_Offset
  imports Position_Batch
begin

text \<open>
  \<open>src/src/lsp/bridge/protocol/translation.rs\<close>: positions of a virtual document and of the
  host document it is a region of. The specification embeds a virtual text into a host text
  line by line: \<open>weave\<close> puts a prefix (a blockquote marker, an indentation) before each
  virtual line, and \<open>hosts\<close> says that a region offset records the widths of the prefixes.
\<close>

record region_offset =
  ro_line :: u32
  ro_columns :: "u32 list"

definition region_offset_new :: "u32 \<Rightarrow> u32 \<Rightarrow> region_offset" where
  "region_offset_new ln column = \<lparr>ro_line = ln, ro_columns = [column]\<rparr>"

definition with_per_line_offsets :: "u32 \<Rightarrow> u32 list \<Rightarrow> region_offset" where
  "with_per_line_offsets ln columns = \<lparr>ro_line = ln, ro_columns = columns\<rparr>"

definition opens_mid_line :: "region_offset \<Rightarrow> bool" where
  "opens_mid_line off = (case ro_columns off of [column] \<Rightarrow> column > 0 | _ \<Rightarrow> False)"

definition column_for_line :: "region_offset \<Rightarrow> u32 \<Rightarrow> u32" where
  "column_for_line off virtual_line =
     (if unat virtual_line < length (ro_columns off) then ro_columns off ! unat virtual_line else 0)"

type_synonym lsp_range = "lsp_pos_t \<times> lsp_pos_t"

definition translate_virtual_position_to_host :: "lsp_pos_t \<Rightarrow> region_offset \<Rightarrow> lsp_pos_t" where
  "translate_virtual_position_to_host pos off =
     (let virtual_line = pos_line pos
      in \<lparr>pos_line = sat_add32 (pos_line pos) (ro_line off),
          pos_character = sat_add32 (pos_character pos) (column_for_line off virtual_line)\<rparr>)"

definition translate_virtual_range_to_host :: "lsp_range \<Rightarrow> region_offset \<Rightarrow> lsp_range" where
  "translate_virtual_range_to_host r off =
     (translate_virtual_position_to_host (fst r) off, translate_virtual_position_to_host (snd r) off)"

definition pos_key :: "lsp_pos_t \<Rightarrow> u32 \<times> u32" where
  "pos_key p = (pos_line p, pos_character p)"

definition host_position_within_region :: "lsp_pos_t \<Rightarrow> region_offset \<Rightarrow> bool" where
  "host_position_within_region p off =
     (if pos_line p < ro_line off then False
      else let virtual_line = pos_line p - ro_line off
           in pos_character p \<ge> column_for_line off virtual_line)"

definition host_position_within_region_bounds :: "lsp_pos_t \<Rightarrow> region_offset \<Rightarrow> lsp_pos_t \<Rightarrow> bool" where
  "host_position_within_region_bounds p off region_end \<longleftrightarrow>
     host_position_within_region p off \<and> pos_key p \<le> pos_key region_end"

definition translate_host_position_to_virtual :: "lsp_pos_t \<Rightarrow> region_offset \<Rightarrow> lsp_pos_t" where
  "translate_host_position_to_virtual pos off =
     (let underflowed = pos_line pos < ro_line off;
          ln = sat_sub32 (pos_line pos) (ro_line off)
      in if underflowed then \<lparr>pos_line = ln, pos_character = pos_character pos\<rparr>
         else \<lparr>pos_line = ln, pos_character = sat_sub32 (pos_character pos) (column_for_line off ln)\<rparr>)"

definition translate_host_range_to_virtual :: "lsp_range \<Rightarrow> region_offset \<Rightarrow> lsp_range" where
  "translate_host_range_to_virtual r off =
     (translate_host_position_to_virtual (fst r) off, translate_host_position_to_virtual (snd r) off)"

section \<open>Line ends and where they put a text's end\<close>

text \<open>The line ends in a text, and what follows the last of them.\<close>

fun line_ends :: "rstr \<Rightarrow> nat" where
  "line_ends [] = 0"
| "line_ends (ch # rest) = (if ends_lsp_line ch rest then 1 else 0) + line_ends rest"

fun last_line :: "rstr \<Rightarrow> rstr" where
  "last_line [] = []"
| "last_line (ch # rest) =
     (if line_ends rest > 0 then last_line rest
      else if ends_lsp_line ch rest then rest else ch # rest)"

definition end_pos :: "rstr \<Rightarrow> nat \<times> nat" where
  "end_pos s = (line_ends s, ulen (last_line s))"

text \<open>No two-character line end is cut where two texts meet.\<close>

definition clean_seam :: "rstr \<Rightarrow> rstr \<Rightarrow> bool" where
  "clean_seam s t \<longleftrightarrow> \<not> (s \<noteq> [] \<and> last s = CR \<and> starts_lf t)"

definition eol_free :: "rstr \<Rightarrow> bool" where
  "eol_free s \<longleftrightarrow> LF \<notin> set s \<and> CR \<notin> set s"

lemma clean_seam_Nil [simp]: "clean_seam [] t" "clean_seam s []"
  by (auto simp: clean_seam_def starts_lf_def)

lemma clean_seam_Cons: "clean_seam (c # s) t \<longleftrightarrow> (if s = [] then \<not> (c = CR \<and> starts_lf t) else clean_seam s t)"
  by (auto simp: clean_seam_def)

lemma starts_lf_append [simp]: "starts_lf (s @ t) = (if s = [] then starts_lf t else starts_lf s)"
  by (cases s) (auto simp: starts_lf_def)

lemma starts_lf_simps [simp]: "\<not> starts_lf []" "starts_lf (c # s) \<longleftrightarrow> c = LF"
  by (auto simp: starts_lf_def)

lemma eol_free_simps [simp]:
  "eol_free []" "eol_free (c # s) \<longleftrightarrow> c \<noteq> LF \<and> c \<noteq> CR \<and> eol_free s"
  "eol_free (s @ t) \<longleftrightarrow> eol_free s \<and> eol_free t"
  by (auto simp: eol_free_def)

lemma eol_free_ends: "eol_free s \<Longrightarrow> line_ends s = 0" "eol_free s \<Longrightarrow> last_line s = s"
  by (induction s) (auto simp: ends_lsp_line_def)

lemma eol_free_not_lf: "eol_free s \<Longrightarrow> \<not> starts_lf s"
  by (cases s) auto

lemma eol_free_clean: "eol_free s \<Longrightarrow> clean_seam s t" "eol_free s \<Longrightarrow> s \<noteq> [] \<Longrightarrow> clean_seam t s"
  by (auto simp: clean_seam_def eol_free_def dest: last_in_set) (cases s; auto)

lemma line_ends_0_last: "line_ends s = 0 \<Longrightarrow> last_line s = s"
  by (cases s) (auto split: if_splits)

lemma line_ends_append:
  "clean_seam s t \<Longrightarrow> line_ends (s @ t) = line_ends s + line_ends t"
  by (induction s) (auto simp: clean_seam_Cons ends_lsp_line_def split: if_splits)

lemma last_line_append:
  "clean_seam s t \<Longrightarrow>
    last_line (s @ t) = (if line_ends t > 0 then last_line t else last_line s @ t)"
  by (induction s)
    (auto simp: clean_seam_Cons ends_lsp_line_def line_ends_append line_ends_0_last
      split: if_splits)

lemma end_pos_append:
  "clean_seam s t \<Longrightarrow>
    end_pos (s @ t) =
      (line_ends s + line_ends t,
       if line_ends t > 0 then ulen (last_line t) else ulen (last_line s) + ulen t)"
  by (simp add: end_pos_def line_ends_append last_line_append)

lemma end_pos_snoc:
  "clean_seam s [c] \<Longrightarrow>
    end_pos (s @ [c]) =
      (case end_pos s of
         (ln, column) \<Rightarrow> if c = LF \<or> c = CR then (ln + 1, 0) else (ln, column + len_utf16 c))"
  by (simp add: end_pos_append) (simp add: end_pos_def ends_lsp_line_def)

lemma end_pos_crlf: "end_pos (s @ [CR, LF]) = (fst (end_pos s) + 1, 0)"
  using end_pos_append [of s "[CR, LF]"]
  by (simp add: clean_seam_def ends_lsp_line_def) (simp add: end_pos_def)

lemma not_clean_seamE:
  assumes "\<not> clean_seam b (c # a)"
  obtains b' where "b = b' @ [CR]" "c = LF"
  using assms by (cases b rule: rev_cases) (auto simp: clean_seam_def)

text \<open>A position computed from the start of the text is the end of what precedes it.\<close>

lemma lsp_pos_end_pos: "clean_seam b a \<Longrightarrow> lsp_pos (b @ a) (blen b) (0, 0) = end_pos b"
proof (induction "length b" arbitrary: b a rule: less_induct)
  case less
  show ?case
  proof (cases b rule: rev_cases)
    case Nil
    then show ?thesis by (simp add: end_pos_def)
  next
    case (snoc b' c)
    note step = lsp_pos_snoc [of b' c a "(0, 0)"]
    have ends: "ends_lsp_line c a \<longleftrightarrow> c = LF \<or> c = CR"
      using less.prems snoc by (auto simp: ends_lsp_line_def clean_seam_def)
    show ?thesis
    proof (cases "clean_seam b' (c # a)")
      case True
      then have "clean_seam b' [c]" by (auto simp: clean_seam_def)
      with True less.hyps [of b' "c # a"] step ends show ?thesis
        by (simp add: snoc end_pos_snoc split: prod.splits)
    next
      case False
      then obtain b'' where b'': "b' = b'' @ [CR]" "c = LF" by (rule not_clean_seamE)
      have "clean_seam b'' (CR # LF # a)" by (simp add: clean_seam_def)
      then have "lsp_pos (b'' @ CR # LF # a) (blen b'') (0, 0) = end_pos b''"
        using less.hyps [of b'' "CR # LF # a"] by (simp add: snoc b'')
      then show ?thesis
        using lsp_pos_snoc [of b'' CR "LF # a" "(0, 0)"] step ends
        by (simp add: snoc b'' ends_lsp_line_def end_pos_crlf split: prod.splits)
    qed
  qed
qed

text \<open>A later place in a text has a later position.\<close>

lemma lsp_pos_mono:
  assumes "m \<noteq> []"
  shows "lsp_pos (b @ m @ a) (blen b) (0, 0) < lsp_pos (b @ m @ a) (blen (b @ m)) (0, 0)"
  using assms
proof (induction m arbitrary: a rule: rev_nonempty_induct)
  case (single c)
  show ?case using lsp_pos_snoc [of b c a "(0, 0)"]
    by (auto simp: less_prod_def split: prod.splits)
next
  case (snoc c m)
  have "lsp_pos ((b @ m) @ c # a) (blen (b @ m)) (0, 0) < lsp_pos ((b @ m) @ c # a) (blen (b @ m) + len_utf8 c) (0, 0)"
    using lsp_pos_snoc [of "b @ m" c a "(0, 0)"] by (auto simp: less_prod_def split: prod.splits)
  with snoc.IH [of "c # a"] show ?case by (auto simp: add.assoc intro: less_trans)
qed

lemma lsp_pos_inj:
  assumes "b @ a = b' @ a'" "lsp_pos (b @ a) (blen b) (0, 0) = lsp_pos (b @ a) (blen b') (0, 0)"
  shows "b = b' \<and> a = a'"
proof -
  from assms(1) consider m where "b' = b @ m" "a = m @ a'" | m where "b = b' @ m" "a' = m @ a"
    by (auto simp: append_eq_append_conv2)
  then show ?thesis
  proof cases
    case 1
    then show ?thesis using lsp_pos_mono [of m b a'] assms by (cases "m = []") auto
  next
    case 2
    then show ?thesis using lsp_pos_mono [of m b' a] assms by (cases "m = []") auto
  qed
qed

section \<open>A virtual text inside a host text\<close>

text \<open>Put the prefix of each line after the line end that precedes it.\<close>

fun weave :: "(nat \<Rightarrow> rstr) \<Rightarrow> nat \<Rightarrow> rstr \<Rightarrow> rstr" where
  "weave P k [] = []"
| "weave P k (ch # rest) =
     ch # (if ends_lsp_line ch rest then P (Suc k) @ weave P (Suc k) rest else weave P k rest)"

definition hosted :: "(nat \<Rightarrow> rstr) \<Rightarrow> rstr \<Rightarrow> rstr" where
  "hosted P v = P 0 @ weave P 0 v"

lemma weave_unprefixed: "(\<And>k. k > 0 \<Longrightarrow> P k = []) \<Longrightarrow> weave P k v = v"
  by (induction v arbitrary: k) auto

lemma weave_append:
  "clean_seam b a \<Longrightarrow> weave P k (b @ a) = weave P k b @ weave P (k + line_ends b) a"
  by (induction b arbitrary: k) (auto simp: clean_seam_Cons ends_lsp_line_def split: if_splits)

lemma weave_eol_free: "eol_free v \<Longrightarrow> weave P k v = v"
  by (induction v) (auto simp: ends_lsp_line_def)

lemma weave_one_line: "line_ends v = 0 \<Longrightarrow> weave P k v = v"
  by (induction v) (auto split: if_splits)

definition prefixes_ok :: "(nat \<Rightarrow> rstr) \<Rightarrow> bool" where
  "prefixes_ok P \<longleftrightarrow> (\<forall>k. eol_free (P k))"

lemma prefixes_okD: "prefixes_ok P \<Longrightarrow> eol_free (P k)"
  by (simp add: prefixes_ok_def)

lemma starts_lf_weave [simp]: "starts_lf (weave P k v) \<longleftrightarrow> starts_lf v"
  by (cases v) auto

lemma ends_line_weave [simp]: "ends_lsp_line c (weave P k v) \<longleftrightarrow> ends_lsp_line c v"
  by (auto simp: ends_lsp_line_def)

lemma ends_line_prefix:
  "prefixes_ok P \<Longrightarrow> ends_lsp_line c v \<Longrightarrow> ends_lsp_line c (P j @ v)"
  by (auto simp: ends_lsp_line_def eol_free_not_lf prefixes_okD)

lemma line_ends_weave: "prefixes_ok P \<Longrightarrow> line_ends (weave P k v) = line_ends v"
proof (induction v arbitrary: k)
  case (Cons c v)
  then show ?case
    by (auto simp: ends_line_prefix line_ends_append eol_free_clean eol_free_ends prefixes_okD)
qed simp

lemma last_line_weave:
  "prefixes_ok P \<Longrightarrow>
    last_line (weave P k v) = (if line_ends v = 0 then v else P (k + line_ends v) @ last_line v)"
proof (induction v arbitrary: k)
  case (Cons c v)
  then show ?case
    by (auto simp: ends_line_prefix line_ends_weave line_ends_append last_line_append eol_free_clean
        eol_free_ends line_ends_0_last weave_one_line prefixes_okD)
qed simp

lemma end_pos_hosted:
  "prefixes_ok P \<Longrightarrow>
    end_pos (hosted P v) = (line_ends v, ulen (P (line_ends v)) + ulen (last_line v))"
  by (auto simp: hosted_def end_pos_append eol_free_clean line_ends_weave last_line_weave eol_free_ends
      line_ends_0_last weave_one_line prefixes_okD)

lemma ulen_eq_0 [simp]: "ulen s = 0 \<longleftrightarrow> s = []" "0 < ulen s \<longleftrightarrow> s \<noteq> []"
  by (cases s; auto)+

text \<open>
  Where a cut of the woven text falls: at a place of the virtual text, or inside the prefix of
  a line after the first.
\<close>

lemma weave_cut:
  assumes "prefixes_ok P"
  shows "weave P k v = w @ z \<Longrightarrow> clean_seam w z \<Longrightarrow>
    (\<exists>b a. v = b @ a \<and> clean_seam b a \<and> w = weave P k b) \<or>
    (0 < line_ends w \<and> line_ends w \<le> line_ends v \<and> ulen (last_line w) < ulen (P (k + line_ends w)))"
proof (induction v arbitrary: k w)
  case Nil
  then show ?case by (intro disjI1 exI [of _ "[]"]) auto
next
  case (Cons c v)
  show ?case
  proof (cases w)
    case Nil
    then show ?thesis by (intro disjI1 exI [of _ "[]"] exI [of _ "c # v"]) auto
  next
    case w: (Cons c' w')
    then have [simp]: "c' = c" using Cons.prems by simp
    show ?thesis
    proof (cases "ends_lsp_line c v")
      case True
      with Cons.prems w consider us where "w' = P (Suc k) @ us" "weave P (Suc k) v = us @ z"
        | us where "P (Suc k) = w' @ us" "us \<noteq> []"
        by (auto simp: append_eq_append_conv2) blast
      then show ?thesis
      proof cases
        case 1
        have "clean_seam us z" using Cons.prems(2) w 1 by (auto simp: clean_seam_def split: if_splits)
        from Cons.IH [OF 1(2) this] show ?thesis
        proof (elim disjE exE conjE)
          fix b a
          assume "v = b @ a" "clean_seam b a" "us = weave P (Suc k) b"
          then show ?thesis using True w 1
            by (intro disjI1 exI [of _ "c # b"] exI [of _ a])
              (auto simp: ends_lsp_line_def clean_seam_Cons)
        next
          assume "0 < line_ends us" "line_ends us \<le> line_ends v"
            "ulen (last_line us) < ulen (P (Suc k + line_ends us))"
          then show ?thesis using True w 1 line_ends_append [of "P (Suc k)" us]
              last_line_append [of "P (Suc k)" us] eol_free_clean(1) [of "P (Suc k)" us]
              eol_free_ends(1) [of "P (Suc k)"] prefixes_okD [OF assms, of "Suc k"]
              starts_lf_weave [of P "Suc k" v]
            by (intro disjI2) (auto simp: ends_lsp_line_def eol_free_not_lf split: if_splits)
        qed
      next
        case 2
        then have "eol_free w'" using prefixes_okD [OF assms, of "Suc k"] by simp
        with 2 True w show ?thesis
          by (intro disjI2) (auto simp: eol_free_ends ends_lsp_line_def eol_free_not_lf)
      qed
    next
      case False
      then have cut: "weave P k v = w' @ z" using Cons.prems w by simp
      show ?thesis
      proof (cases "w' = []")
        case True
        with False cut Cons.prems(2) w have "c \<noteq> LF" "c \<noteq> CR"
          using starts_lf_weave [of P k v] by (auto simp: ends_lsp_line_def clean_seam_def)
        with True w show ?thesis
          by (intro disjI1 exI [of _ "[c]"] exI [of _ v]) (auto simp: ends_lsp_line_def clean_seam_Cons)
      next
        case ne: False
        have "clean_seam w' z" using Cons.prems(2) w ne by (auto simp: clean_seam_def)
        from Cons.IH [OF cut this] show ?thesis
        proof (elim disjE exE conjE)
          fix b a
          assume "v = b @ a" "clean_seam b a" "w' = weave P k b"
          then show ?thesis using False w ne
            by (intro disjI1 exI [of _ "c # b"] exI [of _ a])
              (auto simp: ends_lsp_line_def clean_seam_Cons)
        next
          assume "0 < line_ends w'" "line_ends w' \<le> line_ends v"
            "ulen (last_line w') < ulen (P (k + line_ends w'))"
          moreover have "\<not> ends_lsp_line c w'" 
            using False ne cut starts_lf_weave [of P k v] by (auto simp: ends_lsp_line_def)
          ultimately show ?thesis using w by (intro disjI2) auto
        qed
      qed
    qed
  qed
qed

section \<open>Hosting\<close>

definition hosts :: "region_offset \<Rightarrow> (nat \<Rightarrow> rstr) \<Rightarrow> rstr \<Rightarrow> rstr \<Rightarrow> rstr \<Rightarrow> bool" where
  "hosts off P pre v post \<longleftrightarrow>
     prefixes_ok P \<and> end_pos pre = (unat (ro_line off), 0) \<and>
     clean_seam pre (hosted P v @ post) \<and> clean_seam (hosted P v) post \<and>
     unat (ro_line off) + line_ends v < 2 ^ 32"

definition records_width :: "region_offset \<Rightarrow> (nat \<Rightarrow> rstr) \<Rightarrow> nat \<Rightarrow> bool" where
  "records_width off P k \<longleftrightarrow> ulen (P k) = unat (column_for_line off (of_nat k))"

definition translation_fits :: "lsp_pos_t \<Rightarrow> region_offset \<Rightarrow> bool" where
  "translation_fits p off \<longleftrightarrow>
     unat (pos_line p) + unat (ro_line off) < 2 ^ 32 \<and>
     unat (pos_character p) + unat (column_for_line off (pos_line p)) < 2 ^ 32"

lemma target_of_translate:
  "translation_fits p off \<Longrightarrow>
    target_of (translate_virtual_position_to_host p off) =
      (unat (pos_line p) + unat (ro_line off),
       unat (pos_character p) + unat (column_for_line off (pos_line p)))"
  by (simp add: translation_fits_def target_of_def translate_virtual_position_to_host_def Let_def
      unat_sat_add32)

lemma line_ends_prefix_le: "clean_seam b a \<Longrightarrow> line_ends b \<le> line_ends (b @ a)"
  by (simp add: line_ends_append)

lemma weave_eq_Nil [simp]: "weave P k v = [] \<longleftrightarrow> v = []"
  by (cases v) auto

lemma last_prefix: "prefixes_ok P \<Longrightarrow> P k \<noteq> [] \<Longrightarrow> last (P k) \<noteq> CR"
  by (metis eol_free_def last_in_set prefixes_okD)

lemma last_weave:
  "prefixes_ok P \<Longrightarrow> b \<noteq> [] \<Longrightarrow> last (weave P k b) = CR \<Longrightarrow> last b = CR"
proof (induction b arbitrary: k)
  case (Cons c b)
  then show ?case
    by (cases "b = []") (auto simp: last_append last_prefix split: if_splits)
qed simp

lemma clean_hosted_cut:
  assumes "prefixes_ok P" "clean_seam b a" "clean_seam pre (hosted P (b @ a) @ post)"
    "clean_seam (hosted P (b @ a)) post"
  shows "clean_seam (pre @ hosted P b) (weave P (line_ends b) a @ post)"
proof (cases "b = []")
  case True
  with assms last_prefix [OF assms(1), of 0] show ?thesis
    by (cases "P 0 = []") (auto simp: hosted_def clean_seam_def eol_free_def)
next
  case b: False
  then have ne: "weave P 0 b \<noteq> []" by (cases b) auto
  show ?thesis
  proof (cases "a = []")
    case True
    with assms ne show ?thesis by (auto simp: hosted_def clean_seam_def)
  next
    case False
    with assms ne b last_weave [OF assms(1) b, of 0] show ?thesis
      by (cases a) (auto simp: hosted_def clean_seam_def)
  qed
qed

lemma end_pos_in_host:
  assumes "hosts off P pre (b @ a) post" "clean_seam b a"
  shows "end_pos (pre @ hosted P b) =
    (unat (ro_line off) + line_ends b, ulen (P (line_ends b)) + ulen (last_line b))"
proof -
  have P: "prefixes_ok P" and pre: "line_ends pre = unat (ro_line off)" "ulen (last_line pre) = 0"
    using assms by (auto simp: hosts_def end_pos_def)
  have "clean_seam pre (hosted P b)"
  proof (cases "hosted P b = []")
    case False
    have "hosted P (b @ a) = hosted P b @ weave P (line_ends b) a"
      using weave_append [OF assms(2), of P 0] by (simp add: hosted_def)
    with assms(1) False show ?thesis by (auto simp: hosts_def clean_seam_def)
  qed simp
  then show ?thesis
    using end_pos_hosted [OF P, of b] pre line_ends_0_last [of "hosted P b"]
    by (auto simp: end_pos_def line_ends_append last_line_append)
qed

lemma host_split:
  "clean_seam b a \<Longrightarrow>
    pre @ hosted P (b @ a) @ post = (pre @ hosted P b) @ (weave P (line_ends b) a @ post)"
  by (simp add: hosted_def weave_append)

text \<open>The host position of a place of the virtual text.\<close>

lemma host_lsp_pos:
  assumes "hosts off P pre (b @ a) post" "clean_seam b a"
  shows "lsp_pos (pre @ hosted P (b @ a) @ post) (blen (pre @ hosted P b)) (0, 0) =
    (unat (ro_line off) + line_ends b, ulen (P (line_ends b)) + ulen (last_line b))"
  using assms lsp_pos_end_pos [OF clean_hosted_cut, of P b a pre post] end_pos_in_host [OF assms]
  by (simp add: hosts_def host_split)

section \<open>Translation on positions\<close>

lemma within_region_iff:
  "host_position_within_region p off \<longleftrightarrow>
     unat (ro_line off) \<le> unat (pos_line p) \<and>
     unat (column_for_line off (pos_line p - ro_line off)) \<le> unat (pos_character p)"
  by (auto simp: host_position_within_region_def Let_def word_less_nat_alt word_le_nat_alt)

lemma to_virtual_within:
  assumes "unat (ro_line off) \<le> unat (pos_line p)"
  shows "translate_host_position_to_virtual p off =
    \<lparr>pos_line = pos_line p - ro_line off,
     pos_character = sat_sub32 (pos_character p) (column_for_line off (pos_line p - ro_line off))\<rparr>"
  using assms
  by (simp add: translate_host_position_to_virtual_def Let_def word_less_nat_alt word_le_nat_alt
      sat_sub32_def)

lemma to_host_in_region:
  assumes "translation_fits p off"
  shows "host_position_within_region (translate_virtual_position_to_host p off) off"
    and "translate_host_position_to_virtual (translate_virtual_position_to_host p off) off = p"
proof -
  let ?q = "translate_virtual_position_to_host p off"
  have ln: "unat (pos_line ?q) = unat (pos_line p) + unat (ro_line off)"
    and ch: "unat (pos_character ?q) = unat (pos_character p) + unat (column_for_line off (pos_line p))"
    using target_of_translate [OF assms] by (auto simp: target_of_def)
  have vl: "pos_line ?q - ro_line off = pos_line p"
    using ln by (intro word_unat_eq_iff [THEN iffD2]) (simp add: unat_sub word_le_nat_alt)
  show "host_position_within_region ?q off" by (simp add: within_region_iff vl ln ch)
  have "sat_sub32 (pos_character ?q) (column_for_line off (pos_line p)) = pos_character p"
    by (intro word_unat_eq_iff [THEN iffD2]) (simp add: unat_sat_sub32 ch)
  then show "translate_host_position_to_virtual ?q off = p"
    using ln by (simp add: to_virtual_within vl)
qed

text \<open>
  C40: A host position is inside the region (no translation underflows) exactly when
  translating it to the virtual document and back returns it. A virtual position whose
  translation does not saturate lands inside the region and comes back unchanged.
\<close>

theorem translation_roundtrip:
  "(host_position_within_region p off \<longleftrightarrow>
      translate_virtual_position_to_host (translate_host_position_to_virtual p off) off = p) \<and>
   (translation_fits q off \<longrightarrow>
      host_position_within_region (translate_virtual_position_to_host q off) off \<and>
      translate_host_position_to_virtual (translate_virtual_position_to_host q off) off = q)"
proof (intro conjI impI iffI)
  assume "host_position_within_region p off"
  then have le: "ro_line off \<le> pos_line p"
    and "column_for_line off (sat_sub32 (pos_line p) (ro_line off)) \<le> pos_character p"
    by (auto simp: host_position_within_region_def sat_sub32_def Let_def not_less split: if_splits)
  then show "translate_virtual_position_to_host (translate_host_position_to_virtual p off) off = p"
    by (simp add: translate_virtual_position_to_host_def translate_host_position_to_virtual_def Let_def
        sat_add32_sub32 not_less)
next
  assume *: "translate_virtual_position_to_host (translate_host_position_to_virtual p off) off = p"
  let ?v = "translate_host_position_to_virtual p off"
  have ln: "unat (pos_line p) = min (unat (pos_line ?v) + unat (ro_line off)) (2 ^ 32 - 1)"
    and ch: "unat (pos_character p) =
      min (unat (pos_character ?v) + unat (column_for_line off (pos_line ?v))) (2 ^ 32 - 1)"
    by (subst * [symmetric], simp add: translate_virtual_position_to_host_def Let_def unat_sat_add32)+
  have le: "unat (ro_line off) \<le> unat (pos_line p)"
    using unsigned_less [where w = "ro_line off", where 'a = nat] ln by simp
  then have "pos_line ?v = pos_line p - ro_line off" by (simp add: to_virtual_within)
  with le ch show "host_position_within_region p off"
    using unsigned_less [where w = "column_for_line off (pos_line ?v)", where 'a = nat]
    by (simp add: within_region_iff)
qed (auto simp: to_host_in_region)


lemma translation_roundtrip_witness:
  "translate_host_position_to_virtual
     (translate_virtual_position_to_host \<lparr>pos_line = 1, pos_character = 5\<rparr>
        (with_per_line_offsets 10 [2, 2, 0]))
     (with_per_line_offsets 10 [2, 2, 0]) = \<lparr>pos_line = 1, pos_character = 5\<rparr>"
proof -
  have "translation_fits \<lparr>pos_line = 1, pos_character = 5\<rparr> (with_per_line_offsets 10 [2, 2, 0])"
    by (simp add: translation_fits_def with_per_line_offsets_def column_for_line_def)
  then show ?thesis
    using translation_roundtrip [where q = "\<lparr>pos_line = 1, pos_character = 5\<rparr>"
        and off = "with_per_line_offsets 10 [2, 2, 0]"] by blast
qed

section \<open>Translation on places of the texts\<close>

lemma hosts_endpoints:
  assumes "hosts off P pre v post"
  shows "lsp_pos (pre @ hosted P v @ post) (blen pre) (0, 0) = (unat (ro_line off), 0)"
    and "lsp_pos (pre @ hosted P v @ post) (blen (pre @ hosted P v)) (0, 0) = end_pos (pre @ hosted P v)"
proof -
  show "lsp_pos (pre @ hosted P v @ post) (blen pre) (0, 0) = (unat (ro_line off), 0)"
    using assms lsp_pos_end_pos [of pre "hosted P v @ post"] by (simp add: hosts_def)
  have "clean_seam (pre @ hosted P v) post"
    using assms by (auto simp: hosts_def clean_seam_def split: if_splits)
  then show "lsp_pos (pre @ hosted P v @ post) (blen (pre @ hosted P v)) (0, 0) = end_pos (pre @ hosted P v)"
    using lsp_pos_end_pos [of "pre @ hosted P v" post] by simp
qed

text \<open>A place of the host text between the ends of the region lies in the hosted text.\<close>

lemma place_between:
  assumes "hosts off P pre v post" "pre @ hosted P v @ post = x @ y" "clean_seam x y"
    "(unat (ro_line off), 0) \<le> end_pos x" "end_pos x \<le> end_pos (pre @ hosted P v)"
  obtains x' us where "x = pre @ x'" "hosted P v = x' @ us" "y = us @ post"
proof -
  have x: "lsp_pos (x @ y) (blen x) (0, 0) = end_pos x" using assms(3) by (rule lsp_pos_end_pos)
  have ends: "lsp_pos (x @ y) (blen pre) (0, 0) \<le> end_pos x"
    "end_pos x \<le> lsp_pos (x @ y) (blen (pre @ hosted P v)) (0, 0)"
    using hosts_endpoints [OF assms(1)] assms by simp_all
  have "\<nexists>us. us \<noteq> [] \<and> pre = x @ us"
  proof (clarify)
    fix us assume us: "us \<noteq> []" "pre = x @ us"
    then have "y = us @ hosted P v @ post" using assms(2) by simp
    with us show False using lsp_pos_mono [of us x "hosted P v @ post"] ends(1) x by simp
  qed
  then obtain x' where x': "x = pre @ x'" "hosted P v @ post = x' @ y"
  proof -
    from assms(2) obtain us where
      "pre = x @ us \<and> us @ hosted P v @ post = y \<or> pre @ us = x \<and> hosted P v @ post = us @ y"
      by (auto simp: append_eq_append_conv2)
    with \<open>\<nexists>us. us \<noteq> [] \<and> pre = x @ us\<close> show ?thesis
      by (cases "us = []") (auto intro: that [of us])
  qed
  have "\<nexists>us. us \<noteq> [] \<and> x' = hosted P v @ us"
  proof (clarify)
    fix us assume "us \<noteq> []" "x' = hosted P v @ us"
    then show False
      using lsp_pos_mono [of us "pre @ hosted P v" y] ends(2) x x' by simp
  qed
  moreover from x'(2) obtain us where
    "hosted P v = x' @ us \<and> us @ post = y \<or> hosted P v @ us = x' \<and> post = us @ y"
    by (auto simp: append_eq_append_conv2)
  ultimately show ?thesis using x'(1) by (cases "us = []") (auto intro: that [of x' us])
qed

lemma target_in_region:
  assumes "target_of q = (unat (ro_line off) + k, d)"
  shows "host_position_within_region q off \<longleftrightarrow> unat (column_for_line off (of_nat k)) \<le> d"
    and "target_of (translate_host_position_to_virtual q off) = (k, d - unat (column_for_line off (of_nat k)))"
proof -
  have q: "unat (pos_line q) = unat (ro_line off) + k" "unat (pos_character q) = d"
    using assms by (auto simp: target_of_def)
  then have "k < 2 ^ 32" using unsigned_less [where w = "pos_line q", where 'a = nat] by simp
  with q have k: "pos_line q - ro_line off = of_nat k"
    by (intro word_unat_eq_iff [THEN iffD2]) (simp add: unat_sub word_le_nat_alt unsigned_of_nat take_bit_nat_eq_self)
  show "host_position_within_region q off \<longleftrightarrow> unat (column_for_line off (of_nat k)) \<le> d"
    using q by (simp add: within_region_iff k)
  show "target_of (translate_host_position_to_virtual q off) = (k, d - unat (column_for_line off (of_nat k)))"
    using q \<open>k < 2 ^ 32\<close>
    by (simp add: to_virtual_within k target_of_def unat_sat_sub32 unsigned_of_nat take_bit_nat_eq_self)
qed

lemma pos_key_le: "pos_key p \<le> pos_key q \<longleftrightarrow> target_of p \<le> target_of q"
  by (auto simp: pos_key_def target_of_def less_eq_prod_def word_less_nat_alt word_le_nat_alt)

lemma end_pos_hosted_mono:
  assumes "hosts off P pre (b @ a) post" "clean_seam b a"
  shows "end_pos (pre @ hosted P b) \<le> end_pos (pre @ hosted P (b @ a))"
proof (cases "weave P (line_ends b) a = []")
  case False
  have "clean_seam (pre @ hosted P b) (weave P (line_ends b) a @ post)"
    using assms by (auto simp: hosts_def intro: clean_hosted_cut)
  then show ?thesis
    using False lsp_pos_mono [of "weave P (line_ends b) a" "pre @ hosted P b" post]
      hosts_endpoints(2) [OF assms(1)] lsp_pos_end_pos [of "pre @ hosted P b" "weave P (line_ends b) a @ post"]
    by (simp add: host_split [OF assms(2)] hosted_def weave_append [OF assms(2)])
qed (simp add: hosted_def weave_append [OF assms(2)])

text \<open>A place inside the prefix of a line is left of the width recorded for the line.\<close>

lemma place_in_region:
  assumes "hosts off P pre v post" "\<forall>k \<le> line_ends v. records_width off P k"
    and "hosted P v = x' @ us" "clean_seam (pre @ x') (us @ post)"
    and "target_of q = end_pos (pre @ x')" "host_position_within_region q off"
  shows "\<exists>b a. v = b @ a \<and> clean_seam b a \<and> x' = hosted P b"
proof -
  have P: "prefixes_ok P" using assms(1) by (simp add: hosts_def)
  have pre: "line_ends pre = unat (ro_line off)" "ulen (last_line pre) = 0"
    using assms(1) by (auto simp: hosts_def end_pos_def)
  have "clean_seam pre x'"
    using assms(1,3) by (cases "x' = []") (auto simp: hosts_def clean_seam_def)
  then have at: "target_of q = (unat (ro_line off) + line_ends x', ulen (last_line x'))"
    using assms(5) pre line_ends_0_last [of x'] by (auto simp: end_pos_def line_ends_append last_line_append)
  have enough: "line_ends x' \<le> line_ends v \<Longrightarrow> ulen (P (line_ends x')) \<le> ulen (last_line x')"
    using target_in_region(1) [OF at] assms(2,6) by (simp add: records_width_def)
  from assms(3) consider w where "x' = P 0 @ w" "weave P 0 v = w @ us"
    | us' where "P 0 = x' @ us'" "us' \<noteq> []"
    by (auto simp: hosted_def append_eq_append_conv2) blast
  then show ?thesis
  proof cases
    case 1
    have "clean_seam w us"
      using assms(4) 1 by (cases "us = []") (auto simp: clean_seam_def split: if_splits)
    from weave_cut [OF P 1(2) this] show ?thesis
    proof (elim disjE exE conjE)
      fix b a
      assume "v = b @ a" "clean_seam b a" "w = weave P 0 b"
      with 1 show ?thesis by (auto simp: hosted_def)
    next
      assume w: "0 < line_ends w" "line_ends w \<le> line_ends v"
        "ulen (last_line w) < ulen (P (0 + line_ends w))"
      have "line_ends x' = line_ends w" "last_line x' = last_line w"
        using 1 w eol_free_clean(1) [OF prefixes_okD [OF P]] eol_free_ends(1) [OF prefixes_okD [OF P]]
        by (simp_all add: line_ends_append last_line_append)
      with w enough show ?thesis by simp
    qed
  next
    case 2
    then have "eol_free x'" using prefixes_okD [OF P, of 0] by simp
    with 2 enough show ?thesis by (simp add: eol_free_ends)
  qed
qed

lemma hosted_place_within:
  assumes "hosts off P pre v post" "\<forall>k \<le> line_ends v. records_width off P k"
    and "target_of region_end = end_pos (pre @ hosted P v)"
    and "v = b @ a" "clean_seam b a" "target_of q = end_pos (pre @ hosted P b)"
  shows "host_position_within_region_bounds q off region_end"
proof -
  have "records_width off P (line_ends b)"
    using assms(2,4,5) line_ends_prefix_le by blast
  then show ?thesis
    using assms end_pos_in_host [of off P pre b a post] target_in_region(1) [of q off "line_ends b"]
      end_pos_hosted_mono [of off P pre b a post]
    by (simp add: host_position_within_region_bounds_def pos_key_le records_width_def)
qed

lemma region_bounds_place:
  assumes "hosts off P pre v post"
    and "\<forall>k \<le> line_ends v. records_width off P k"
    and "target_of region_end = end_pos (pre @ hosted P v)"
    and "pre @ hosted P v @ post = x @ y" "clean_seam x y" "target_of q = end_pos x"
  shows "host_position_within_region_bounds q off region_end \<longleftrightarrow>
    (\<exists>b a. v = b @ a \<and> clean_seam b a \<and> x = pre @ hosted P b \<and>
      target_of (translate_host_position_to_virtual q off) = end_pos b)"
proof
  assume "host_position_within_region_bounds q off region_end"
  then have within: "host_position_within_region q off" and le: "end_pos x \<le> end_pos (pre @ hosted P v)"
    using assms by (auto simp: host_position_within_region_bounds_def pos_key_le)
  have ge: "(unat (ro_line off), 0) \<le> end_pos x"
    using within assms(6) by (simp add: within_region_iff target_of_def flip: assms(6))
  obtain x' us where x': "x = pre @ x'" "hosted P v = x' @ us" "y = us @ post"
    using place_between [OF assms(1) assms(4) assms(5) ge le] .
  with assms within obtain b a where ba: "v = b @ a" "clean_seam b a" "x' = hosted P b"
    using place_in_region [OF assms(1,2) x'(2), of q] by auto
  have "records_width off P (line_ends b)"
    using assms(2) ba line_ends_prefix_le by blast
  then have "target_of (translate_host_position_to_virtual q off) = end_pos b"
    using target_in_region(2) [of q off "line_ends b"] assms(6) x' ba end_pos_in_host [of off P pre b a post] assms(1)
    by (simp add: records_width_def end_pos_def)
  with ba x' show "\<exists>b a. v = b @ a \<and> clean_seam b a \<and> x = pre @ hosted P b \<and>
      target_of (translate_host_position_to_virtual q off) = end_pos b"
    by blast
next
  assume "\<exists>b a. v = b @ a \<and> clean_seam b a \<and> x = pre @ hosted P b \<and>
      target_of (translate_host_position_to_virtual q off) = end_pos b"
  then obtain b a where "v = b @ a" "clean_seam b a" "x = pre @ hosted P b" by blast
  then show "host_position_within_region_bounds q off region_end"
    using assms by (intro hosted_place_within [where b = b and a = a]) simp_all
qed

text \<open>
  In a region whose line widths are recorded, a host position is within the bounds exactly
  when it is a place of the virtual text, and then it is translated to the position of that
  place in the virtual document.
\<close>

lemma region_bounds_correct:
  assumes "hosts off P pre v post"
    and "\<forall>k \<le> line_ends v. records_width off P k"
    and "target_of region_end = end_pos (pre @ hosted P v)"
    and "pre @ hosted P v @ post = x @ y" "clean_seam x y" "target_of q = end_pos x"
  shows "host_position_within_region_bounds q off region_end \<longleftrightarrow>
    (\<exists>b a. v = b @ a \<and> clean_seam b a \<and> x = pre @ hosted P b \<and>
      target_of (translate_host_position_to_virtual q off) = end_pos b)"
  by (rule region_bounds_place [OF assms])

end
