(* ===== verification/Virtual_Uri.thy ===== *)
theory Virtual_Uri
  imports Rust_Str "HOL-Library.Sublist"
begin

text \<open>
  \<open>src/src/lsp/bridge/protocol/virtual_uri.rs\<close>: the URI under which a downstream server knows
  an injection region, how it is told from the URI of a real file, and how the URI of a
  formatting scratch document leads back to its region. Parsing URLs (the \<open>url\<close> crate),
  accepting LSP URIs and percent-encoding are dependencies: the parameters \<open>parse\<close>, \<open>accepts\<close>
  and \<open>encode\<close>.
\<close>

section \<open>Strings\<close>

definition lit :: "string \<Rightarrow> rstr" where
  "lit = map of_char"

definition strip_prefix_str :: "rstr \<Rightarrow> rstr \<Rightarrow> rstr option" where
  "strip_prefix_str p s = (if prefix p s then Some (drop (length p) s) else None)"

fun split_once :: "nat \<Rightarrow> rstr \<Rightarrow> (rstr \<times> rstr) option" where
  "split_once c [] = None"
| "split_once c (x # s) =
     (if x = c then Some ([], s) else map_option (\<lambda>(a, b). (x # a, b)) (split_once c s))"

text \<open>\<open>str::contains\<close> and \<open>str::rfind\<close> of a pattern: what precedes and follows its last occurrence.\<close>

definition contains_str :: "rstr \<Rightarrow> rstr \<Rightarrow> bool" where
  "contains_str p s = sublist p s"

fun rsplit_str :: "rstr \<Rightarrow> rstr \<Rightarrow> (rstr \<times> rstr) option" where
  "rsplit_str p [] = (if p = [] then Some ([], []) else None)"
| "rsplit_str p (x # s) =
     (case rsplit_str p s of
        Some (a, b) \<Rightarrow> Some (x # a, b)
      | None \<Rightarrow> if prefix p (x # s) then Some ([], drop (length p) (x # s)) else None)"

text \<open>\<open>usize::from_str\<close> (a leading plus sign is accepted) and \<open>usize::to_string\<close>.\<close>

definition is_digit :: "nat \<Rightarrow> bool" where
  "is_digit c \<longleftrightarrow> 48 \<le> c \<and> c \<le> 57"

definition digits_value :: "rstr \<Rightarrow> nat" where
  "digits_value s = foldl (\<lambda>n c. 10 * n + (c - 48)) 0 s"

definition parse_usize :: "rstr \<Rightarrow> nat option" where
  "parse_usize s =
     (let ds = (case s of c # t \<Rightarrow> if c = 43 then t else s | [] \<Rightarrow> [])
      in if ds \<noteq> [] \<and> list_all is_digit ds \<and> digits_value ds \<le> usize_max
         then Some (digits_value ds) else None)"

fun usize_to_string :: "nat \<Rightarrow> rstr" where
  "usize_to_string n = (if n < 10 then [48 + n] else usize_to_string (n div 10) @ [48 + n mod 10])"

declare usize_to_string.simps [simp del]

section \<open>URLs as their parser presents them\<close>

record url =
  url_before :: rstr
  url_path :: rstr
  url_after :: rstr
  cannot_be_a_base :: bool
  path_segments :: "rstr list option"

definition as_str :: "url \<Rightarrow> rstr" where
  "as_str u = url_before u @ url_path u @ url_after u"

definition VIRTUAL_URI_PREFIX :: rstr where
  "VIRTUAL_URI_PREFIX = lit ''kakehashi-virtual-uri-''"

definition SCRATCH_ID_MARKER :: rstr where
  "SCRATCH_ID_MARKER = lit ''-kakehashi-scratch-''"

definition is_alphanumeric :: "nat \<Rightarrow> bool" where
  "is_alphanumeric c \<longleftrightarrow> is_digit c \<or> 65 \<le> c \<and> c \<le> 90 \<or> 97 \<le> c \<and> c \<le> 122"

text \<open>The characters that an encode set leaves literal.\<close>

definition NON_ALPHANUMERIC_literal :: "nat \<Rightarrow> bool" where
  "NON_ALPHANUMERIC_literal c = is_alphanumeric c"

definition FILENAME_literal :: "nat \<Rightarrow> bool" where
  "FILENAME_literal c \<longleftrightarrow>
     is_alphanumeric c \<or> c \<in> set (lit ''-._~!$&'' @ [39] @ lit ''()*+,;=:@'')"

section \<open>Rendering\<close>

type_synonym encoder = "(nat \<Rightarrow> bool) \<Rightarrow> rstr \<Rightarrow> rstr"

definition encoded_filename :: "encoder \<Rightarrow> rstr \<Rightarrow> rstr \<Rightarrow> rstr" where
  "encoded_filename encode region_id extension =
     VIRTUAL_URI_PREFIX @ encode FILENAME_literal region_id @ lit ''.'' @
       encode FILENAME_literal extension"

record host_base =
  directory :: rstr
  after_filename :: rstr

definition host_base_parse ::
  "(rstr \<Rightarrow> url option) \<Rightarrow> (rstr \<Rightarrow> bool) \<Rightarrow> rstr \<Rightarrow> host_base option" where
  "host_base_parse parse accepts host =
     (case parse host of
        None \<Rightarrow> None
      | Some u \<Rightarrow>
          if cannot_be_a_base u \<or> \<not> accepts (as_str u) then None
          else Some \<lparr>directory = url_before u @
                       (case rsplit_str (lit ''/'') (url_path u) of None \<Rightarrow> [] | Some (a, _) \<Rightarrow> a),
                     after_filename = url_after u\<rparr>)"

definition host_base_render :: "host_base \<Rightarrow> rstr \<Rightarrow> rstr" where
  "host_base_render b filename = directory b @ lit ''/'' @ filename @ after_filename b"

definition language_to_extension :: "rstr \<Rightarrow> rstr" where
  "language_to_extension l =
     (if l = lit ''python'' then lit ''py'' else if l = lit ''rust'' then lit ''rs''
      else if l = lit ''javascript'' then lit ''js'' else if l = lit ''typescript'' then lit ''ts''
      else if l = lit ''ruby'' then lit ''rb'' else if l = lit ''kotlin'' then lit ''kt''
      else if l = lit ''haskell'' then lit ''hs'' else if l = lit ''ocaml'' then lit ''ml''
      else if l = lit ''elixir'' then lit ''ex'' else if l = lit ''erlang'' then lit ''erl''
      else if l = lit ''clojure'' then lit ''clj'' else if l = lit ''julia'' then lit ''jl''
      else if l = lit ''markdown'' then lit ''md'' else if l = lit ''powershell'' then lit ''ps1''
      else l)"

record virtual_document_uri =
  vd_host_uri :: rstr
  vd_language :: rstr
  vd_region_id :: rstr

definition render_hierarchical ::
  "(rstr \<Rightarrow> url option) \<Rightarrow> (rstr \<Rightarrow> bool) \<Rightarrow> virtual_document_uri \<Rightarrow> rstr \<Rightarrow> rstr option" where
  "render_hierarchical parse accepts v filename =
     map_option (\<lambda>b. host_base_render b filename) (host_base_parse parse accepts (vd_host_uri v))"

definition render_fallback :: "encoder \<Rightarrow> virtual_document_uri \<Rightarrow> rstr \<Rightarrow> rstr" where
  "render_fallback encode v filename =
     lit ''kakehashi:///virtual/'' @ encode NON_ALPHANUMERIC_literal (vd_host_uri v) @ lit ''/'' @ filename"

text \<open>The string that identifies the document, and the URI sent downstream.\<close>

definition validated_rendering :: "(rstr \<Rightarrow> bool) \<Rightarrow> rstr option \<Rightarrow> rstr \<Rightarrow> rstr \<Rightarrow> rstr \<times> rstr" where
  "validated_rendering accepts hierarchical fallback host =
     (case hierarchical of
        Some candidate \<Rightarrow>
          if accepts candidate then (candidate, candidate)
          else if accepts fallback then (fallback, fallback) else (fallback, host)
      | None \<Rightarrow> if accepts fallback then (fallback, fallback) else (fallback, host))"

definition rendering ::
  "(rstr \<Rightarrow> url option) \<Rightarrow> (rstr \<Rightarrow> bool) \<Rightarrow> encoder \<Rightarrow> virtual_document_uri \<Rightarrow> rstr \<times> rstr" where
  "rendering parse accepts encode v =
     (let filename = encoded_filename encode (vd_region_id v) (language_to_extension (vd_language v))
      in validated_rendering accepts (render_hierarchical parse accepts v filename)
           (render_fallback encode v filename) (vd_host_uri v))"

definition to_uri_string ::
  "(rstr \<Rightarrow> url option) \<Rightarrow> (rstr \<Rightarrow> bool) \<Rightarrow> encoder \<Rightarrow> virtual_document_uri \<Rightarrow> rstr" where
  "to_uri_string parse accepts encode v = fst (rendering parse accepts encode v)"

definition to_lsp_uri ::
  "(rstr \<Rightarrow> url option) \<Rightarrow> (rstr \<Rightarrow> bool) \<Rightarrow> encoder \<Rightarrow> virtual_document_uri \<Rightarrow> rstr" where
  "to_lsp_uri parse accepts encode v = snd (rendering parse accepts encode v)"

section \<open>Recognising\<close>

definition last_segment :: "(rstr \<Rightarrow> url option) \<Rightarrow> rstr \<Rightarrow> rstr option" where
  "last_segment parse uri =
     (case parse uri of
        None \<Rightarrow> None
      | Some u \<Rightarrow> (case path_segments u of
                     None \<Rightarrow> None
                   | Some segs \<Rightarrow> if segs = [] then None else Some (last segs)))"

definition is_virtual_uri :: "(rstr \<Rightarrow> url option) \<Rightarrow> rstr \<Rightarrow> bool" where
  "is_virtual_uri parse uri =
     (case last_segment parse uri of
        None \<Rightarrow> False
      | Some filename \<Rightarrow>
          prefix VIRTUAL_URI_PREFIX filename \<and>
          (case split_once 46 (drop (length VIRTUAL_URI_PREFIX) filename) of
             None \<Rightarrow> False
           | Some (region_id, ext) \<Rightarrow> region_id \<noteq> [] \<and> ext \<noteq> []))"

definition region_id_of :: "(rstr \<Rightarrow> url option) \<Rightarrow> rstr \<Rightarrow> rstr option" where
  "region_id_of parse uri =
     (case last_segment parse uri of
        None \<Rightarrow> None
      | Some filename \<Rightarrow>
          (case strip_prefix_str VIRTUAL_URI_PREFIX filename of
             None \<Rightarrow> None
           | Some s \<Rightarrow>
               (case split_once 46 s of
                  None \<Rightarrow> None
                | Some (region_id, ext) \<Rightarrow>
                    if region_id = [] \<or> ext = [] then None else Some region_id)))"

definition is_scratch_uri :: "(rstr \<Rightarrow> url option) \<Rightarrow> rstr \<Rightarrow> bool" where
  "is_scratch_uri parse uri \<longleftrightarrow>
     contains_str SCRATCH_ID_MARKER uri \<and>
     (case region_id_of parse uri of
        None \<Rightarrow> False | Some i \<Rightarrow> contains_str SCRATCH_ID_MARKER i)"

text \<open>The run and step numbers that end a scratch id, written the way they are printed.\<close>

definition scratch_numbers_ok :: "rstr \<Rightarrow> bool" where
  "scratch_numbers_ok s =
     (case split_once 45 s of
        None \<Rightarrow> False
      | Some (run, step) \<Rightarrow>
          (case parse_usize run of
             None \<Rightarrow> False
           | Some run_number \<Rightarrow>
               (case parse_usize step of
                  None \<Rightarrow> False
                | Some step_number \<Rightarrow>
                    usize_to_string run_number = run \<and> usize_to_string step_number = step)))"

definition canonical_uri_for_scratch :: "(rstr \<Rightarrow> url option) \<Rightarrow> rstr \<Rightarrow> rstr option" where
  "canonical_uri_for_scratch parse uri =
     (if \<not> is_scratch_uri parse uri then None
      else case parse uri of
        None \<Rightarrow> None
      | Some u \<Rightarrow>
          (let (dir, filename) = (case rsplit_str (lit ''/'') (url_path u) of
                                    None \<Rightarrow> ([], url_path u) | Some (a, b) \<Rightarrow> (a @ lit ''/'', b))
           in case strip_prefix_str VIRTUAL_URI_PREFIX filename of
                None \<Rightarrow> None
              | Some virtual_name \<Rightarrow>
                  (case split_once 46 virtual_name of
                     None \<Rightarrow> None
                   | Some (region_id, extension) \<Rightarrow>
                       (case rsplit_str SCRATCH_ID_MARKER region_id of
                          None \<Rightarrow> None
                        | Some (canonical_id, numbers) \<Rightarrow>
                            if \<not> scratch_numbers_ok numbers then None
                            else Some (url_before u @
                                   (dir @ VIRTUAL_URI_PREFIX @ canonical_id @ lit ''.'' @ extension) @
                                   url_after u)))))"

section \<open>String facts\<close>

lemma split_once_Some: "c \<notin> set a \<Longrightarrow> split_once c (a @ c # b) = Some (a, b)"
  by (induction a) auto

lemma rsplit_None: "rsplit_str p s = None \<longleftrightarrow> \<not> sublist p s"
  by (induction s) (auto simp: sublist_Cons_right split: option.splits)

lemma rsplit_last:
  "p \<noteq> [] \<Longrightarrow> \<not> sublist p (tl p @ d) \<Longrightarrow> rsplit_str p (a @ p @ d) = Some (a, d)"
proof (induction a)
  case Nil
  then obtain x q where p: "p = x # q" by (cases p) auto
  with Nil.prems have "rsplit_str p (q @ d) = None" by (simp add: rsplit_None)
  with p show ?case by simp
next
  case (Cons x a)
  then show ?case by simp
qed

lemma rsplit_char:
  assumes "c \<notin> set b"
  shows "rsplit_str [c] (a @ c # b) = Some (a, b)"
proof -
  have "\<not> sublist [c] b" using assms set_mono_sublist [of "[c]" b] by auto
  then show ?thesis using rsplit_last [of "[c]" b a] by simp
qed

lemma strip_prefix_append [simp]: "strip_prefix_str p (p @ s) = Some s"
  by (simp add: strip_prefix_str_def)

lemma is_digit_mod: "is_digit (48 + n mod 10)"
  using mod_less_divisor [of 10 n] by (simp add: is_digit_def)

lemma usize_to_string_digits: "usize_to_string n \<noteq> [] \<and> list_all is_digit (usize_to_string n)"
proof (induction n rule: usize_to_string.induct)
  case (1 n)
  show ?case
  proof (cases "n < 10")
    case True
    then show ?thesis using is_digit_mod [of n] by (simp add: usize_to_string.simps [of n])
  next
    case False
    then show ?thesis using 1 is_digit_mod [of n] by (simp add: usize_to_string.simps [of n])
  qed
qed

lemma digits_value_snoc: "digits_value (s @ [c]) = 10 * digits_value s + (c - 48)"
  by (simp add: digits_value_def)

lemma digits_value_to_string: "digits_value (usize_to_string n) = n"
proof (induction n rule: usize_to_string.induct)
  case (1 n)
  then show ?case
    by (subst usize_to_string.simps) (auto simp: digits_value_snoc, simp add: digits_value_def)
qed

lemma parse_usize_to_string:
  assumes "n \<le> usize_max"
  shows "parse_usize (usize_to_string n) = Some n"
proof -
  obtain c t where s: "usize_to_string n = c # t" "is_digit c"
    using usize_to_string_digits [of n] by (cases "usize_to_string n") auto
  then have "c \<noteq> 43" by (auto simp: is_digit_def)
  with s assms show ?thesis
    using usize_to_string_digits [of n] digits_value_to_string [of n]
    by (simp add: parse_usize_def Let_def)
qed

section \<open>Laws of the dependencies\<close>

text \<open>
  \<open>utf8_percent_encode\<close>: it works character by character, keeps the ASCII characters that are
  not in the set, and writes every other as percent signs and hexadecimal digits.
\<close>

definition is_hex_escape :: "nat \<Rightarrow> bool" where
  "is_hex_escape c \<longleftrightarrow> c = 37 \<or> is_digit c \<or> 65 \<le> c \<and> c \<le> 70"

definition percent_encodes :: "encoder \<Rightarrow> (nat \<Rightarrow> bool) \<Rightarrow> bool" where
  "percent_encodes encode keep \<longleftrightarrow>
     (\<forall>s t. encode keep (s @ t) = encode keep s @ encode keep t) \<and>
     (\<forall>c. if c < 128 \<and> keep c then encode keep [c] = [c]
          else encode keep [c] \<noteq> [] \<and> list_all is_hex_escape (encode keep [c]))"

text \<open>
  \<open>Url::parse\<close> on a URL whose last segment is a virtual filename: the segment is kept as it is
  when its characters may stand in a segment.
\<close>

definition segment_ok :: "rstr \<Rightarrow> bool" where
  "segment_ok f \<longleftrightarrow> prefix VIRTUAL_URI_PREFIX f \<and> list_all (\<lambda>c. FILENAME_literal c \<or> c = 37) f"

definition splices :: "(rstr \<Rightarrow> url option) \<Rightarrow> rstr \<Rightarrow> rstr \<Rightarrow> rstr \<Rightarrow> bool" where
  "splices parse pre dir post \<longleftrightarrow>
     (\<forall>f. segment_ok f \<longrightarrow>
        (\<exists>u segs. parse (pre @ dir @ lit ''/'' @ f @ post) = Some u \<and> url_before u = pre \<and>
           url_path u = dir @ lit ''/'' @ f \<and> url_after u = post \<and>
           path_segments u = Some (segs @ [f])))"

definition host_splices :: "(rstr \<Rightarrow> url option) \<Rightarrow> (rstr \<Rightarrow> bool) \<Rightarrow> encoder \<Rightarrow> rstr \<Rightarrow> bool" where
  "host_splices parse accepts encode host \<longleftrightarrow>
     (case host_base_parse parse accepts host of
        None \<Rightarrow> splices parse (lit ''kakehashi://'')
                  (lit ''/virtual/'' @ encode NON_ALPHANUMERIC_literal host) []
      | Some b \<Rightarrow>
          (\<exists>pre dir. directory b = pre @ dir \<and> splices parse pre dir (after_filename b)) \<and>
          (\<forall>f. segment_ok f \<longrightarrow> accepts (host_base_render b f)))"

lemma encode_Nil: "percent_encodes encode keep \<Longrightarrow> encode keep [] = []"
  unfolding percent_encodes_def by (metis append_Nil append_self_conv)

lemma encode_Cons: "percent_encodes encode keep \<Longrightarrow> encode keep (c # s) = encode keep [c] @ encode keep s"
  unfolding percent_encodes_def by (metis append_Cons append_Nil)

lemma encode_append: "percent_encodes encode keep \<Longrightarrow> encode keep (s @ t) = encode keep s @ encode keep t"
  unfolding percent_encodes_def by blast

lemma encode_literal:
  assumes "percent_encodes encode keep"
  shows "list_all (\<lambda>c. c < 128 \<and> keep c) s \<Longrightarrow> encode keep s = s"
proof (induction s)
  case (Cons c s)
  then show ?case
    using encode_Cons [OF assms, of c s] assms by (simp add: percent_encodes_def)
qed (simp add: encode_Nil [OF assms])

lemma encode_not_Nil:
  assumes "percent_encodes encode keep" "s \<noteq> []"
  shows "encode keep s \<noteq> []"
proof -
  obtain c t where s: "s = c # t" using assms(2) by (cases s) auto
  have "encode keep [c] \<noteq> []" using assms(1) unfolding percent_encodes_def by (metis list.distinct(1))
  then show ?thesis using encode_Cons [OF assms(1), of c t] s by simp
qed

lemma encode_chars:
  assumes "percent_encodes encode keep"
  shows "c \<in> set (encode keep s) \<Longrightarrow> is_hex_escape c \<or> c \<in> set s \<and> keep c"
proof (induction s)
  case (Cons d s)
  have "c \<in> set (encode keep [d]) \<Longrightarrow> is_hex_escape c \<or> c = d \<and> keep c"
    using assms unfolding percent_encodes_def list_all_iff
    by (metis empty_iff empty_set set_ConsD)
  then show ?case using Cons encode_Cons [OF assms, of d s] by auto
qed (simp add: encode_Nil [OF assms])

section \<open>The rendered URI\<close>

definition valid_region :: "virtual_document_uri \<Rightarrow> bool" where
  "valid_region v \<longleftrightarrow> vd_region_id v \<noteq> [] \<and> 46 \<notin> set (vd_region_id v) \<and> vd_language v \<noteq> []"

definition filename_of :: "encoder \<Rightarrow> virtual_document_uri \<Rightarrow> rstr" where
  "filename_of encode v = encoded_filename encode (vd_region_id v) (language_to_extension (vd_language v))"

lemma lit_slash: "lit ''/'' = [47]"
  by (simp add: lit_def)

lemma lit_dot: "lit ''.'' = [46]"
  by (simp add: lit_def)

lemma prefix_literal: "list_all (\<lambda>c. c < 128 \<and> FILENAME_literal c \<and> c \<noteq> 47 \<and> c \<noteq> 46) VIRTUAL_URI_PREFIX"
  by code_simp

lemma marker_literal: "list_all (\<lambda>c. c < 128 \<and> FILENAME_literal c \<and> c \<noteq> 47 \<and> c \<noteq> 46) SCRATCH_ID_MARKER"
  by code_simp

lemma extension_not_Nil: "l \<noteq> [] \<Longrightarrow> language_to_extension l \<noteq> []"
  by (simp add: language_to_extension_def lit_def)

lemma hex_escape_literal: "is_hex_escape c \<Longrightarrow> c = 37 \<or> FILENAME_literal c"
  by (auto simp: is_hex_escape_def FILENAME_literal_def is_alphanumeric_def)

lemma hex_escape_chars: "is_hex_escape c \<Longrightarrow> c \<noteq> 46 \<and> c \<noteq> 47"
  by (auto simp: is_hex_escape_def is_digit_def)

lemma slash_not_literal: "\<not> FILENAME_literal 47"
  by code_simp

lemma dot_literal: "FILENAME_literal 46"
  by code_simp

lemma encoded_chars:
  assumes "percent_encodes encode FILENAME_literal" "c \<in> set (encode FILENAME_literal s)"
  shows "FILENAME_literal c \<or> c = 37" "c \<noteq> 47" "c = 46 \<Longrightarrow> 46 \<in> set s"
  using encode_chars [OF assms] hex_escape_literal [of c] hex_escape_chars [of c] slash_not_literal
  by auto

lemma encoded_no_slash:
  "percent_encodes encode FILENAME_literal \<Longrightarrow> 47 \<notin> set (encode FILENAME_literal s)"
  using encoded_chars(2) by blast

lemma filename_segment:
  assumes "percent_encodes encode FILENAME_literal"
  shows "segment_ok (filename_of encode v)" "47 \<notin> set (filename_of encode v)"
  using prefix_literal encoded_chars(1) [OF assms] encoded_no_slash [OF assms] dot_literal
  by (auto simp: segment_ok_def filename_of_def encoded_filename_def lit_dot list_all_iff)

lemma filename_split:
  assumes "percent_encodes encode FILENAME_literal" "valid_region v"
  shows "strip_prefix_str VIRTUAL_URI_PREFIX (filename_of encode v) =
      Some (encode FILENAME_literal (vd_region_id v) @ 46 #
        encode FILENAME_literal (language_to_extension (vd_language v)))"
    and "split_once 46 (encode FILENAME_literal (vd_region_id v) @ 46 #
        encode FILENAME_literal (language_to_extension (vd_language v))) =
      Some (encode FILENAME_literal (vd_region_id v),
        encode FILENAME_literal (language_to_extension (vd_language v)))"
    and "encode FILENAME_literal (vd_region_id v) \<noteq> []"
    and "encode FILENAME_literal (language_to_extension (vd_language v)) \<noteq> []"
  using assms encoded_chars(3) [OF assms(1), of 46 "vd_region_id v"] encode_not_Nil [OF assms(1)]
    extension_not_Nil [of "vd_language v"]
  by (auto simp: filename_of_def encoded_filename_def lit_dot valid_region_def intro!: split_once_Some)

text \<open>All regions of a host are rendered beside each other, and the parser finds the filename.\<close>

lemma rendered_beside:
  assumes "host_splices parse accepts encode host" "percent_encodes encode FILENAME_literal"
  obtains pre dir post where "splices parse pre dir post"
    "\<And>v. vd_host_uri v = host \<Longrightarrow>
       to_uri_string parse accepts encode v = pre @ dir @ lit ''/'' @ filename_of encode v @ post"
proof (cases "host_base_parse parse accepts host")
  case None
  with assms(1) show ?thesis
    by (intro that [of "lit ''kakehashi://''" "lit ''/virtual/'' @ encode NON_ALPHANUMERIC_literal host" "[]"])
      (auto simp: host_splices_def to_uri_string_def rendering_def Let_def validated_rendering_def
        render_hierarchical_def render_fallback_def filename_of_def lit_def)
next
  case (Some b)
  with assms(1) obtain pre dir where "directory b = pre @ dir" "splices parse pre dir (after_filename b)"
    by (auto simp: host_splices_def)
  moreover have "accepts (host_base_render b (filename_of encode v))" for v
    using assms(1) Some filename_segment(1) [OF assms(2)] by (simp add: host_splices_def)
  ultimately show ?thesis using Some
    by (intro that [of pre dir "after_filename b"])
      (auto simp: to_uri_string_def rendering_def Let_def validated_rendering_def
        render_hierarchical_def host_base_render_def simp flip: filename_of_def)
qed

text \<open>
  The URI rendered for a region of a host is recognised as virtual, and the region id is
  read back from it: percent-encoded, and unchanged when it consists of characters that a
  filename keeps (as the ids in use do).
\<close>

lemma virtual_uri_roundtrip:
  assumes "percent_encodes encode FILENAME_literal"
    and "host_splices parse accepts encode (vd_host_uri v)" "valid_region v"
  shows "is_virtual_uri parse (to_uri_string parse accepts encode v) \<and>
    region_id_of parse (to_uri_string parse accepts encode v) =
      Some (encode FILENAME_literal (vd_region_id v)) \<and>
    (list_all (\<lambda>c. c < 128 \<and> FILENAME_literal c) (vd_region_id v) \<longrightarrow>
      region_id_of parse (to_uri_string parse accepts encode v) = Some (vd_region_id v))"
proof -
  obtain pre dir post where at: "splices parse pre dir post"
    and uri: "to_uri_string parse accepts encode v = pre @ dir @ lit ''/'' @ filename_of encode v @ post"
    using rendered_beside [OF assms(2,1)] by metis
  have last: "last_segment parse (to_uri_string parse accepts encode v) = Some (filename_of encode v)"
    using at filename_segment(1) [OF assms(1), of v] unfolding splices_def uri last_segment_def by fastforce
  have pre: "prefix VIRTUAL_URI_PREFIX (filename_of encode v)"
    using filename_segment(1) [OF assms(1), of v] by (simp add: segment_ok_def)
  note parts = filename_split [OF assms(1,3)]
  have "region_id_of parse (to_uri_string parse accepts encode v) =
      Some (encode FILENAME_literal (vd_region_id v))"
    by (simp add: region_id_of_def last parts)
  moreover have "is_virtual_uri parse (to_uri_string parse accepts encode v)"
    using parts pre by (simp add: is_virtual_uri_def last strip_prefix_str_def)
  ultimately show ?thesis by (simp add: encode_literal [OF assms(1)])
qed

section \<open>Scratch documents\<close>

definition scratch_suffix :: "nat \<Rightarrow> nat \<Rightarrow> rstr" where
  "scratch_suffix run step = usize_to_string run @ 45 # usize_to_string step"

lemma digit_chars:
  "c \<in> set (usize_to_string n) \<Longrightarrow> is_digit c"
  using usize_to_string_digits [of n] by (simp add: list_all_iff)

lemma digit_literal: "is_digit c \<Longrightarrow> c < 128 \<and> FILENAME_literal c \<and> c \<noteq> 46 \<and> c \<noteq> 45 \<and> c \<noteq> 107"
  by (auto simp: is_digit_def FILENAME_literal_def is_alphanumeric_def)

lemma dash_literal: "FILENAME_literal 45"
  by code_simp

lemma scratch_suffix_chars:
  "c \<in> set (scratch_suffix run step) \<Longrightarrow> c < 128 \<and> FILENAME_literal c \<and> c \<noteq> 46 \<and> c \<noteq> 107"
  using digit_literal dash_literal by (auto simp: scratch_suffix_def dest!: digit_chars)

lemma scratch_numbers_ok_suffix:
  assumes "run \<le> usize_max" "step \<le> usize_max"
  shows "scratch_numbers_ok (scratch_suffix run step)"
proof -
  have "45 \<notin> set (usize_to_string run)" using digit_literal digit_chars by blast
  then show ?thesis
    by (simp add: scratch_numbers_ok_def scratch_suffix_def split_once_Some parse_usize_to_string assms)
qed

lemma marker_last:
  assumes "107 \<notin> set d"
  shows "rsplit_str SCRATCH_ID_MARKER (a @ SCRATCH_ID_MARKER @ d) = Some (a, d)"
proof (rule rsplit_last)
  have "\<not> sublist [45, 107] d" using assms set_mono_sublist [of "[45, 107]" d] by auto
  moreover have "\<not> prefix [45, 107] (45 # d)" using assms by (cases d) auto
  ultimately have "\<not> sublist [45, 107] (tl SCRATCH_ID_MARKER @ d)"
    by (simp add: SCRATCH_ID_MARKER_def lit_def sublist_Cons_right)
  moreover have "sublist [45, 107] SCRATCH_ID_MARKER" by code_simp
  ultimately show "\<not> sublist SCRATCH_ID_MARKER (tl SCRATCH_ID_MARKER @ d)"
    using sublist_order.order_trans by blast
qed (simp add: SCRATCH_ID_MARKER_def lit_def)

definition scratch_region :: "virtual_document_uri \<Rightarrow> nat \<Rightarrow> nat \<Rightarrow> virtual_document_uri" where
  "scratch_region v run step =
     v\<lparr>vd_region_id := vd_region_id v @ SCRATCH_ID_MARKER @ scratch_suffix run step\<rparr>"

lemma valid_scratch_region: "valid_region v \<Longrightarrow> valid_region (scratch_region v run step)"
  using marker_literal scratch_suffix_chars
  by (auto simp: valid_region_def scratch_region_def list_all_iff)

lemma encode_scratch_id:
  assumes "percent_encodes encode FILENAME_literal"
  shows "encode FILENAME_literal (vd_region_id (scratch_region v run step)) =
    encode FILENAME_literal (vd_region_id v) @ SCRATCH_ID_MARKER @ scratch_suffix run step"
proof -
  have "list_all (\<lambda>c. c < 128 \<and> FILENAME_literal c) (SCRATCH_ID_MARKER @ scratch_suffix run step)"
    using marker_literal scratch_suffix_chars by (auto simp: list_all_iff)
  then show ?thesis
    by (simp add: scratch_region_def encode_append [OF assms] encode_literal [OF assms])
qed

text \<open>
  The URI of a formatting scratch document is recognised as scratch and leads back to the
  URI of the region that it was opened for.
\<close>

lemma scratch_uri_canonical:
  assumes "percent_encodes encode FILENAME_literal"
    and "host_splices parse accepts encode (vd_host_uri v)" "valid_region v"
    and "run \<le> usize_max" "step \<le> usize_max"
  shows "is_scratch_uri parse (to_uri_string parse accepts encode (scratch_region v run step)) \<and>
    canonical_uri_for_scratch parse (to_uri_string parse accepts encode (scratch_region v run step)) =
      Some (to_uri_string parse accepts encode v)"
proof -
  let ?v' = "scratch_region v run step"
  let ?uri = "to_uri_string parse accepts encode ?v'"
  obtain pre dir post where at: "splices parse pre dir post"
    and uri: "\<And>w. vd_host_uri w = vd_host_uri v \<Longrightarrow>
      to_uri_string parse accepts encode w = pre @ dir @ lit ''/'' @ filename_of encode w @ post"
    using rendered_beside [OF assms(2,1)] by metis
  have uri': "?uri = pre @ dir @ lit ''/'' @ filename_of encode ?v' @ post"
    by (rule uri) (simp add: scratch_region_def)
  obtain u segs where u: "parse ?uri = Some u" "url_before u = pre" "url_path u = dir @ lit ''/'' @ filename_of encode ?v'"
    "url_after u = post" "path_segments u = Some (segs @ [filename_of encode ?v'])"
    using at filename_segment(1) [OF assms(1), of ?v'] unfolding splices_def uri' by blast
  note parts = filename_split [OF assms(1) valid_scratch_region [OF assms(3), of run step]]
  have id: "region_id_of parse ?uri = Some (encode FILENAME_literal (vd_region_id ?v'))"
    by (simp add: region_id_of_def last_segment_def u parts)
  have in_id: "contains_str SCRATCH_ID_MARKER (encode FILENAME_literal (vd_region_id ?v'))"
    by (auto simp: contains_str_def encode_scratch_id [OF assms(1)] sublist_def)
  then have "contains_str SCRATCH_ID_MARKER ?uri"
    by (simp add: contains_str_def uri' filename_of_def encoded_filename_def sublist_append)
  with id in_id have scratch: "is_scratch_uri parse ?uri" by (simp add: is_scratch_uri_def)
  have dir: "rsplit_str (lit ''/'') (url_path u) = Some (dir, filename_of encode ?v')"
    using rsplit_char [OF filename_segment(2) [OF assms(1), of ?v'], of dir] by (simp add: u lit_slash)
  have id': "rsplit_str SCRATCH_ID_MARKER (encode FILENAME_literal (vd_region_id ?v')) =
      Some (encode FILENAME_literal (vd_region_id v), scratch_suffix run step)"
    unfolding encode_scratch_id [OF assms(1)] using scratch_suffix_chars by (intro marker_last) blast
  have "canonical_uri_for_scratch parse ?uri = Some (pre @ dir @ lit ''/'' @ filename_of encode v @ post)"
    by (simp add: canonical_uri_for_scratch_def scratch u(1,2,4) dir parts id' scratch_numbers_ok_suffix
        assms(4,5))
      (simp add: filename_of_def encoded_filename_def scratch_region_def)
  with scratch show ?thesis by (simp add: uri)
qed

section \<open>A sample host\<close>

text \<open>
  A host in one directory, a parser of the URLs in it, and an encoder that writes a character
  it does not keep as one percent sign.
\<close>

definition sample_encode :: encoder where
  "sample_encode keep s = map (\<lambda>c. if c < 128 \<and> keep c then c else 37) s"

definition sample_parse :: "rstr \<Rightarrow> url option" where
  "sample_parse s =
     map_option (\<lambda>f. \<lparr>url_before = lit ''file://'', url_path = lit ''/p/'' @ f, url_after = [],
         cannot_be_a_base = False, path_segments = Some [lit ''p'', f]\<rparr>)
       (strip_prefix_str (lit ''file:///p/'') s)"

definition sample_region :: virtual_document_uri where
  "sample_region = \<lparr>vd_host_uri = lit ''file:///p/a.md'', vd_language = lit ''rust'', vd_region_id = lit ''R1''\<rparr>"

lemma sample_encodes: "percent_encodes sample_encode keep"
  by (auto simp: percent_encodes_def sample_encode_def is_hex_escape_def)

lemma sample_base:
  "host_base_parse sample_parse (\<lambda>_. True) (vd_host_uri sample_region) =
     Some \<lparr>directory = lit ''file://'' @ lit ''/p'', after_filename = []\<rparr>"
  by code_simp

lemma sample_splices: "splices sample_parse (lit ''file://'') (lit ''/p'') []"
proof -
  have "sample_parse (lit ''file://'' @ lit ''/p'' @ lit ''/'' @ f) =
      Some \<lparr>url_before = lit ''file://'', url_path = lit ''/p/'' @ f, url_after = [],
         cannot_be_a_base = False, path_segments = Some [lit ''p'', f]\<rparr>" for f
    using strip_prefix_append [of "lit ''file:///p/''" f] by (simp add: sample_parse_def lit_def)
  then show ?thesis
    unfolding splices_def by (auto simp: lit_def intro!: exI [of _ "[lit ''p'']"])
qed

lemma sample_host: "host_splices sample_parse (\<lambda>_. True) sample_encode (vd_host_uri sample_region)"
  using sample_splices by (simp add: host_splices_def sample_base) blast

lemma sample_valid: "valid_region sample_region"
  by code_simp

end
