(* ===== verification/Workspace_Edit.thy ===== *)
theory Workspace_Edit
  imports Region_Offset Virtual_Uri
begin

text \<open>
  \<open>src/src/lsp/bridge/protocol/workspace_edit.rs\<close>: workspace edits that a downstream server
  computed on a virtual document, translated to the host document, and the guards that refuse
  edits a host document cannot take. The \<open>changes\<close> map is an association list with distinct
  keys; of file operations the model keeps the URIs, the only part the code reads.
\<close>

section \<open>The data of a workspace edit\<close>

datatype doc_edit_item = Plain text_edit | Annotated text_edit rstr

record text_document_edit =
  td_uri :: rstr
  td_version :: "int option"
  td_edits :: "doc_edit_item list"

datatype resource_op = Create rstr | Rename rstr rstr | Delete rstr

datatype document_change_operation = Op resource_op | Edit text_document_edit

datatype document_changes = Edits "text_document_edit list" | Operations "document_change_operation list"

record workspace_edit =
  changes :: "(rstr \<times> text_edit list) list option"
  document_changes :: "document_changes option"

fun item_edit :: "doc_edit_item \<Rightarrow> text_edit" where
  "item_edit (Plain e) = e"
| "item_edit (Annotated e _) = e"

fun map_item :: "(text_edit \<Rightarrow> text_edit) \<Rightarrow> doc_edit_item \<Rightarrow> doc_edit_item" where
  "map_item f (Plain e) = Plain (f e)"
| "map_item f (Annotated e i) = Annotated (f e) i"

section \<open>Translation\<close>

definition translate_edit :: "region_offset \<Rightarrow> text_edit \<Rightarrow> text_edit" where
  "translate_edit off e =
     (let (a, b) = translate_virtual_range_to_host (range_start e, range_end e) off
      in e\<lparr>range_start := a, range_end := b\<rparr>)"

fun resource_op_targets_real_files_only :: "(rstr \<Rightarrow> url option) \<Rightarrow> resource_op \<Rightarrow> bool" where
  "resource_op_targets_real_files_only parse (Create u) = (\<not> is_virtual_uri parse u)"
| "resource_op_targets_real_files_only parse (Rename old new) =
     (\<not> is_virtual_uri parse old \<and> \<not> is_virtual_uri parse new)"
| "resource_op_targets_real_files_only parse (Delete u) = (\<not> is_virtual_uri parse u)"

text \<open>\<open>None\<close> stands for the edit that is filtered out.\<close>

definition transform_text_document_edit ::
  "(rstr \<Rightarrow> url option) \<Rightarrow> rstr \<Rightarrow> rstr \<Rightarrow> region_offset \<Rightarrow> text_document_edit \<Rightarrow> text_document_edit option" where
  "transform_text_document_edit parse request_uri host off edit =
     (if \<not> is_virtual_uri parse (td_uri edit) then Some edit
      else if td_uri edit = request_uri then
        Some \<lparr>td_uri = host, td_version = None,
              td_edits = map (map_item (translate_edit off)) (td_edits edit)\<rparr>
      else None)"

definition transform_document_changes ::
  "(rstr \<Rightarrow> url option) \<Rightarrow> rstr \<Rightarrow> rstr \<Rightarrow> region_offset \<Rightarrow> document_changes \<Rightarrow> document_changes" where
  "transform_document_changes parse request_uri host off dc =
     (case dc of
        Edits edits \<Rightarrow> Edits (List.map_filter (transform_text_document_edit parse request_uri host off) edits)
      | Operations ops \<Rightarrow>
          Operations (List.map_filter
            (\<lambda>operation. case operation of
               Edit e \<Rightarrow> map_option Edit (transform_text_document_edit parse request_uri host off e)
             | Op r \<Rightarrow> Some (Op r)) ops))"

fun extend_entry :: "rstr \<Rightarrow> text_edit list \<Rightarrow> (rstr \<times> text_edit list) list \<Rightarrow> (rstr \<times> text_edit list) list" where
  "extend_entry k es [] = [(k, es)]"
| "extend_entry k es ((k', es') # m) =
     (if k' = k then (k', es' @ es) # m else (k', es') # extend_entry k es m)"

definition transform_changes_map ::
  "(rstr \<Rightarrow> url option) \<Rightarrow> rstr \<Rightarrow> rstr \<Rightarrow> region_offset \<Rightarrow> (rstr \<times> text_edit list) list
     \<Rightarrow> (rstr \<times> text_edit list) list" where
  "transform_changes_map parse request_uri host off m =
     (let kept = filter (\<lambda>(k, _). \<not> is_virtual_uri parse k) m;
          rekeyed_edits = (if is_virtual_uri parse request_uri
                           then map_option (map (translate_edit off)) (map_of m request_uri) else None)
      in case rekeyed_edits of
           Some edits \<Rightarrow> extend_entry host edits kept
         | None \<Rightarrow> kept)"

text \<open>The transformed edit, and whether it can be represented on the host.\<close>

definition transform_workspace_edit_to_host ::
  "(rstr \<Rightarrow> url option) \<Rightarrow> rstr \<Rightarrow> rstr \<Rightarrow> region_offset \<Rightarrow> workspace_edit \<Rightarrow> bool \<times> workspace_edit" where
  "transform_workspace_edit_to_host parse request_uri host off edit =
     (let has_virtual_file_op =
            (case document_changes edit of
               Some (Operations ops) \<Rightarrow>
                 list_ex (\<lambda>operation. case operation of
                    Op r \<Rightarrow> \<not> resource_op_targets_real_files_only parse r | Edit _ \<Rightarrow> False) ops
             | _ \<Rightarrow> False)
      in if has_virtual_file_op then (False, edit)
         else (True,
           \<lparr>changes = map_option (transform_changes_map parse request_uri host off) (changes edit),
            document_changes =
              map_option (transform_document_changes parse request_uri host off) (document_changes edit)\<rparr>))"

definition workspace_edit_has_effect :: "workspace_edit \<Rightarrow> bool" where
  "workspace_edit_has_effect edit =
     ((case changes edit of None \<Rightarrow> False | Some m \<Rightarrow> list_ex (\<lambda>(_, es). es \<noteq> []) m) \<or>
      (case document_changes edit of
         None \<Rightarrow> False
       | Some (Edits edits) \<Rightarrow> list_ex (\<lambda>e. td_edits e \<noteq> []) edits
       | Some (Operations ops) \<Rightarrow>
           list_ex (\<lambda>operation. case operation of Edit e \<Rightarrow> td_edits e \<noteq> [] | Op _ \<Rightarrow> True) ops))"

definition strip_bridge_local_versions :: "workspace_edit \<Rightarrow> workspace_edit" where
  "strip_bridge_local_versions edit =
     (let strip = (\<lambda>e. e\<lparr>td_version := None\<rparr>)
      in case document_changes edit of
           None \<Rightarrow> edit
         | Some (Edits edits) \<Rightarrow> edit\<lparr>document_changes := Some (Edits (map strip edits))\<rparr>
         | Some (Operations ops) \<Rightarrow>
             edit\<lparr>document_changes := Some (Operations
               (map (\<lambda>operation. case operation of Edit e \<Rightarrow> Edit (strip e) | Op r \<Rightarrow> Op r) ops))\<rparr>)"

section \<open>Guards\<close>

text \<open>
  \<open>region_host_end\<close> asks a position mapper for the position of the end of the content: the
  parameter \<open>byte_to_position\<close>.
\<close>

definition region_host_end :: "(rstr \<Rightarrow> nat \<Rightarrow> lsp_pos_t option) \<Rightarrow> rstr \<Rightarrow> region_offset \<Rightarrow> lsp_pos_t" where
  "region_host_end byte_to_position virtual_content off =
     (let eof = (case byte_to_position virtual_content (blen virtual_content) of
                   Some p \<Rightarrow> p | None \<Rightarrow> \<lparr>pos_line = 0, pos_character = 0\<rparr>)
      in translate_virtual_position_to_host eof off)"

definition position_after :: "lsp_pos_t \<Rightarrow> lsp_pos_t \<Rightarrow> bool" where
  "position_after a b \<longleftrightarrow> pos_key a > pos_key b"

definition text_edit_within_region :: "text_edit \<Rightarrow> region_offset \<Rightarrow> lsp_pos_t \<Rightarrow> bool" where
  "text_edit_within_region e off region_end =
     (if position_after (range_start e) (range_end e) then False
      else let in_region = (\<lambda>p. pos_line p \<ge> ro_line off \<and>
                 (let virtual_line = pos_line p - ro_line off
                  in pos_character p \<ge> column_for_line off virtual_line \<and> \<not> position_after p region_end))
           in in_region (range_start e) \<and> in_region (range_end e))"

definition boundary_at :: "region_offset \<Rightarrow> lsp_pos_t \<Rightarrow> u32 \<Rightarrow> bool" where
  "boundary_at off region_end host_line \<longleftrightarrow>
     length (ro_columns off) > 1 \<and> pos_character region_end = 0 \<and> host_line \<ge> pos_line region_end"

definition prefix_at :: "region_offset \<Rightarrow> lsp_pos_t \<Rightarrow> u32 \<Rightarrow> bool" where
  "prefix_at off region_end host_line \<longleftrightarrow>
     boundary_at off region_end host_line \<or>
     (host_line \<ge> ro_line off \<and> column_for_line off (host_line - ro_line off) > 0)"

definition contains_eol :: "rstr \<Rightarrow> bool" where
  "contains_eol s \<longleftrightarrow> LF \<in> set s \<or> CR \<in> set s"

definition ends_with_newline :: "rstr \<Rightarrow> bool" where
  "ends_with_newline s \<longleftrightarrow> s \<noteq> [] \<and> (last s = LF \<or> last s = CR)"

definition text_edit_preserves_line_prefixes :: "text_edit \<Rightarrow> region_offset \<Rightarrow> lsp_pos_t \<Rightarrow> bool" where
  "text_edit_preserves_line_prefixes e off region_end =
     (let start = range_start e; stop = range_end e;
          whole_line_deletion = (new_text e = [] \<and> pos_character start = 0)
      in if pos_character region_end = 0 \<and> stop = region_end \<and>
            \<not> ends_with_newline (new_text e) \<and> \<not> whole_line_deletion then False
         else if list_all (\<lambda>column. column = 0) (ro_columns off) then True
         else let touches_boundary =
                    (boundary_at off region_end (pos_line start) \<or> boundary_at off region_end (pos_line stop));
                  last_explicit = sat_add32 (ro_line off) (sat_sub32 (of_nat (length (ro_columns off))) 1);
                  spans_prefixed_line =
                    (pos_line stop > pos_line start \<and>
                     (list_ex (\<lambda>n. prefix_at off region_end (of_nat n))
                        [unat (sat_add32 (pos_line start) 1)..<unat (min (pos_line stop) last_explicit) + 1] \<or>
                      boundary_at off region_end (pos_line stop)));
                  newline_splits_nothing =
                    (length (ro_columns off) = 1 \<and> pos_line region_end > ro_line off);
                  inserts_unprefixed_line =
                    (\<not> newline_splits_nothing \<and> contains_eol (new_text e) \<and>
                     (prefix_at off region_end (pos_line start) \<or>
                      prefix_at off region_end (sat_add32 (pos_line start) 1)))
              in \<not> touches_boundary \<and> \<not> spans_prefixed_line \<and> \<not> inserts_unprefixed_line)"

definition text_edit_safe_in_region :: "text_edit \<Rightarrow> region_offset \<Rightarrow> lsp_pos_t \<Rightarrow> bool" where
  "text_edit_safe_in_region e off region_end \<longleftrightarrow>
     text_edit_within_region e off region_end \<and> text_edit_preserves_line_prefixes e off region_end"

definition host_uri_text_edits_all :: "workspace_edit \<Rightarrow> rstr \<Rightarrow> (text_edit \<Rightarrow> bool) \<Rightarrow> bool" where
  "host_uri_text_edits_all edit host pred =
     (let doc_edits_all = (\<lambda>items. list_all (\<lambda>item. pred (item_edit item)) items)
      in (case changes edit of
            None \<Rightarrow> True
          | Some m \<Rightarrow> (case map_of m host of None \<Rightarrow> True | Some edits \<Rightarrow> list_all pred edits)) \<and>
         (case document_changes edit of
            None \<Rightarrow> True
          | Some (Edits edits) \<Rightarrow> list_all (\<lambda>e. td_uri e = host \<longrightarrow> doc_edits_all (td_edits e)) edits
          | Some (Operations ops) \<Rightarrow>
              list_all (\<lambda>operation. case operation of
                 Edit e \<Rightarrow> td_uri e = host \<longrightarrow> doc_edits_all (td_edits e) | Op _ \<Rightarrow> True) ops))"

definition workspace_edit_within_region :: "workspace_edit \<Rightarrow> rstr \<Rightarrow> region_offset \<Rightarrow> lsp_pos_t \<Rightarrow> bool" where
  "workspace_edit_within_region edit host off region_end =
     host_uri_text_edits_all edit host (\<lambda>e. text_edit_within_region e off region_end)"

definition workspace_edit_preserves_line_prefixes ::
  "workspace_edit \<Rightarrow> rstr \<Rightarrow> region_offset \<Rightarrow> lsp_pos_t \<Rightarrow> bool" where
  "workspace_edit_preserves_line_prefixes edit host off region_end =
     host_uri_text_edits_all edit host (\<lambda>e. text_edit_preserves_line_prefixes e off region_end)"

end
