(* ===== verification/Region_Edits.thy ===== *)
theory Region_Edits
  imports Workspace_Edit
begin

text \<open>
  What the guards of \<open>workspace_edit.rs\<close> are for: an edit that they let through, applied to the
  host text, gives the embedding of the edited virtual text, with every line prefix in its
  place and the line after the region still a line of its own.
\<close>

section \<open>Applying one edit\<close>

definition edit_at :: "rstr \<Rightarrow> text_edit \<Rightarrow> rstr \<Rightarrow> rstr \<Rightarrow> rstr \<Rightarrow> bool" where
  "edit_at s e b m a \<longleftrightarrow>
     s = b @ m @ a \<and> target_of (range_start e) = lsp_pos s (blen b) (0, 0) \<and>
     target_of (range_end e) = lsp_pos s (blen (b @ m)) (0, 0)"

definition applies :: "rstr \<Rightarrow> text_edit \<Rightarrow> rstr \<Rightarrow> bool" where
  "applies s e t \<longleftrightarrow> (\<exists>b m a. edit_at s e b m a \<and> t = b @ new_text e @ a)"

text \<open>The edit neither cuts nor joins a line end of two characters.\<close>

definition clean_edit :: "rstr \<Rightarrow> text_edit \<Rightarrow> rstr \<Rightarrow> rstr \<Rightarrow> rstr \<Rightarrow> bool" where
  "clean_edit s e b m a \<longleftrightarrow>
     edit_at s e b m a \<and> clean_seam b (m @ a) \<and> clean_seam (b @ m) a \<and>
     clean_seam b (new_text e @ a) \<and> clean_seam (b @ new_text e) a"

lemma edit_at_unique:
  assumes "edit_at s e b m a" "edit_at s e b' m' a'"
  shows "b = b' \<and> m = m' \<and> a = a'"
proof -
  have "b = b'" and rest: "m @ a = m' @ a'"
    using assms lsp_pos_inj [of b "m @ a" b' "m' @ a'"] by (auto simp: edit_at_def)
  moreover have "b @ m = b' @ m' \<and> a = a'"
    using assms lsp_pos_inj [of "b @ m" a "b' @ m'" a'] by (auto simp: edit_at_def)
  ultimately show ?thesis by simp
qed

lemma appliesI: "edit_at s e b m a \<Longrightarrow> t = b @ new_text e @ a \<Longrightarrow> applies s e t"
  unfolding applies_def by blast

lemma applies_unique: "applies s e t \<Longrightarrow> applies s e t' \<Longrightarrow> t = t'"
  unfolding applies_def using edit_at_unique by blast

lemma clean_edit_ends:
  assumes "clean_edit s e b m a"
  shows "target_of (range_start e) = end_pos b" "target_of (range_end e) = end_pos (b @ m)"
    "s = b @ m @ a" "clean_seam b m"
  using assms lsp_pos_end_pos [of b "m @ a"] lsp_pos_end_pos [of "b @ m" a]
  by (auto simp: clean_edit_def edit_at_def clean_seam_def split: if_splits)

lemma translate_edit_sel [simp]:
  "range_start (translate_edit off e) = translate_virtual_position_to_host (range_start e) off"
  "range_end (translate_edit off e) = translate_virtual_position_to_host (range_end e) off"
  "new_text (translate_edit off e) = new_text e"
  by (simp_all add: translate_edit_def translate_virtual_range_to_host_def)

lemma target_of_eq_iff: "target_of p = target_of q \<longleftrightarrow> p = q"
  by (cases p; cases q) (auto simp: target_of_def word_unat_eq_iff)

text \<open>The translated edit replaces the embedding of what the virtual edit replaces.\<close>

lemma translated_place:
  assumes "hosts off P pre (b @ a) post" "clean_seam b a" "target_of p = end_pos b"
    "translation_fits p off" "records_width off P (line_ends b)"
  shows "target_of (translate_virtual_position_to_host p off) =
    lsp_pos (pre @ hosted P (b @ a) @ post) (blen (pre @ hosted P b)) (0, 0)"
proof -
  have "line_ends b < 2 ^ 32"
    using assms(1) line_ends_prefix_le [OF assms(2)] by (simp add: hosts_def)
  then have ln: "of_nat (line_ends b) = pos_line p"
    using assms(3) by (intro word_unat_eq_iff [THEN iffD2])
      (simp add: target_of_def end_pos_def unsigned_of_nat take_bit_nat_eq_self)
  then show ?thesis
    using assms(3,5) target_of_translate [OF assms(4)] host_lsp_pos [OF assms(1,2)]
    by (simp add: target_of_def end_pos_def records_width_def)
qed

lemma translated_edit_at:
  assumes "hosts off P pre v post" "clean_edit v e b m a"
    "translation_fits (range_start e) off" "translation_fits (range_end e) off"
    "records_width off P (line_ends b)" "records_width off P (line_ends (b @ m))"
  shows "edit_at (pre @ hosted P v @ post) (translate_edit off e)
    (pre @ hosted P b) (weave P (line_ends b) m) (weave P (line_ends (b @ m)) a @ post)"
proof -
  note ends = clean_edit_ends [OF assms(2)]
  have seams: "clean_seam b (m @ a)" "clean_seam (b @ m) a"
    using assms(2) by (auto simp: clean_edit_def)
  have mid: "hosted P (b @ m) = hosted P b @ weave P (line_ends b) m"
    by (simp add: hosted_def weave_append ends(4))
  have all: "hosted P (b @ m @ a) = hosted P b @ weave P (line_ends b) m @ weave P (line_ends (b @ m)) a"
    using weave_append [OF seams(2), of P 0] mid by (simp add: hosted_def)
  show ?thesis
    using translated_place [of off P pre b "m @ a" post "range_start e"]
      translated_place [of off P pre "b @ m" a post "range_end e"] assms(1,3-6) ends seams
    unfolding edit_at_def by (simp add: all mid)
qed

section \<open>Text without line ends, and text that ends a line\<close>

lemma line_ends_0_eol_free: "line_ends s = 0 \<longleftrightarrow> eol_free s"
proof
  show "line_ends s = 0 \<Longrightarrow> eol_free s"
  proof (induction s)
    case (Cons c s)
    then show ?case by (cases s) (auto simp: ends_lsp_line_def split: if_splits)
  qed simp
qed (simp add: eol_free_ends)

lemma not_contains_eol: "\<not> contains_eol s \<longleftrightarrow> eol_free s"
  by (simp add: contains_eol_def eol_free_def)

lemma ends_with_newline_line_ends: "ends_with_newline s \<Longrightarrow> line_ends s > 0"
  by (metis bot_nat_0.not_eq_extremum ends_with_newline_def eol_free_def last_in_set line_ends_0_eol_free)

lemma last_line_Nil: "last_line s = [] \<longleftrightarrow> s = [] \<or> ends_with_newline s"
proof (cases s rule: rev_cases)
  case (snoc t c)
  show ?thesis
  proof (cases "clean_seam t [c]")
    case True
    then show ?thesis
      by (auto simp: snoc last_line_append ends_with_newline_def ends_lsp_line_def)
  next
    case False
    then obtain t' where t: "t = t' @ [CR]" "c = LF" by (rule not_clean_seamE)
    have "clean_seam t' [CR, LF]" by (simp add: clean_seam_def)
    then show ?thesis
      by (simp add: snoc t last_line_append ends_with_newline_def ends_lsp_line_def)
  qed
qed (simp add: ends_with_newline_def)

lemma weave_eol_free_append:
  "eol_free s \<Longrightarrow> clean_seam s t \<Longrightarrow> weave P k (s @ t) = s @ weave P k t"
  by (simp add: weave_append weave_eol_free eol_free_ends)

section \<open>The guard in a region whose lines all have a prefix\<close>

text \<open>
  Blockquotes: every line has a prefix, of the recorded width, except that the width of the
  row after a final line end is recorded as 0.
\<close>

definition prefixed_region :: "region_offset \<Rightarrow> (nat \<Rightarrow> rstr) \<Rightarrow> rstr \<Rightarrow> bool" where
  "prefixed_region off P v \<longleftrightarrow>
     1 < length (ro_columns off) \<and> length (ro_columns off) < 2 ^ 32 \<and>
     (\<forall>k \<le> line_ends v. P k \<noteq> []) \<and>
     (\<forall>k \<le> line_ends v. records_width off P k \<or>
        0 < k \<and> k = line_ends v \<and> last_line v = [] \<and> column_for_line off (of_nat k) = 0)"

text \<open>The position mapper finds the end of a text where its last line ends.\<close>

definition maps_end :: "(rstr \<Rightarrow> nat \<Rightarrow> lsp_pos_t option) \<Rightarrow> rstr \<Rightarrow> bool" where
  "maps_end byte_to_position s \<longleftrightarrow>
     (\<exists>p. byte_to_position s (blen s) = Some p \<and> target_of p = lsp_pos s (blen s) (0, 0))"

lemma region_host_end_eq:
  assumes "maps_end mapper v"
  obtains p where "region_host_end mapper v off = translate_virtual_position_to_host p off"
    "target_of p = end_pos v"
  using assms lsp_pos_end_pos [of v "[]"] by (auto simp: maps_end_def region_host_end_def Let_def)

lemma unat_line_translate:
  assumes "unat (pos_line p) + unat (ro_line off) < 2 ^ 32"
  shows "unat (pos_line (translate_virtual_position_to_host p off)) = unat (pos_line p) + unat (ro_line off)"
  using assms by (simp add: translate_virtual_position_to_host_def Let_def unat_sat_add32)

lemma char_translate_0:
  "pos_character (translate_virtual_position_to_host p off) = 0 \<longleftrightarrow>
    pos_character p = 0 \<and> column_for_line off (pos_line p) = 0"
  by (auto simp: translate_virtual_position_to_host_def Let_def word_unat_eq_iff unat_sat_add32)

lemma guardD:
  assumes "text_edit_preserves_line_prefixes e off region_end"
    and "\<not> list_all (\<lambda>column. column = 0) (ro_columns off)"
  shows "\<not> boundary_at off region_end (pos_line (range_start e))"
    and "\<not> boundary_at off region_end (pos_line (range_end e))"
    and "pos_line (range_end e) > pos_line (range_start e) \<Longrightarrow>
      unat (sat_add32 (pos_line (range_start e)) 1) \<le> n \<Longrightarrow>
      n \<le> unat (min (pos_line (range_end e))
             (sat_add32 (ro_line off) (sat_sub32 (of_nat (length (ro_columns off))) 1))) \<Longrightarrow>
      \<not> prefix_at off region_end (of_nat n)"
    and "prefix_at off region_end (pos_line (range_start e)) \<Longrightarrow> contains_eol (new_text e) \<Longrightarrow>
      length (ro_columns off) = 1 \<and> pos_line region_end > ro_line off"
  using assms
  by (auto simp: text_edit_preserves_line_prefixes_def Let_def list_ex_iff split: if_splits)

lemma prefix_at_line:
  assumes "unat w = unat (ro_line off) + k" "column_for_line off (of_nat k) \<noteq> 0"
  shows "prefix_at off region_end w"
proof -
  have "k < 2 ^ 32" using assms(1) unsigned_less [where w = w, where 'a = nat] by simp
  then have "w - ro_line off = of_nat k"
    using assms(1) by (intro word_unat_eq_iff [THEN iffD2])
      (simp add: unat_sub word_le_nat_alt unsigned_of_nat take_bit_nat_eq_self)
  with assms show ?thesis by (simp add: prefix_at_def word_le_nat_alt word_neq_0_conv [symmetric])
qed

lemma column_in_list: "column_for_line off (of_nat k) \<noteq> 0 \<Longrightarrow> k < 2 ^ 32 \<Longrightarrow> k < length (ro_columns off)"
  by (auto simp: column_for_line_def unsigned_of_nat take_bit_nat_eq_self split: if_splits)

lemma column_not_all_0: "column_for_line off k \<noteq> 0 \<Longrightarrow> \<not> list_all (\<lambda>column. column = 0) (ro_columns off)"
  by (auto simp: column_for_line_def list_all_iff split: if_splits)

lemma end_pos_line:
  assumes "target_of p = end_pos s"
  shows "unat (pos_line p) = line_ends s" "unat (pos_character p) = ulen (last_line s)"
  using assms by (auto simp: target_of_def end_pos_def)

lemma prefixed_width:
  assumes "prefixed_region off P v" "k \<le> line_ends v" "line_ends v < 2 ^ 32"
    and "region_end = translate_virtual_position_to_host p off" "target_of p = end_pos v"
    and "\<not> boundary_at off region_end w" "unat w = unat (ro_line off) + k"
  shows "records_width off P k" "column_for_line off (of_nat k) \<noteq> 0"
proof -
  have line_p: "pos_line p = of_nat (line_ends v)"
    by (simp flip: end_pos_line(1) [OF assms(5)])
  show width: "records_width off P k"
  proof (rule ccontr)
    assume "\<not> records_width off P k"
    then have k: "k = line_ends v" "last_line v = []" "column_for_line off (of_nat k) = 0"
      using assms(1,2) by (auto simp: prefixed_region_def)
    then have "pos_character p = 0"
      using end_pos_line(2) [OF assms(5)] by (simp add: word_unat_eq_iff)
    then have "pos_character region_end = 0"
      using k line_p by (simp add: assms(4) char_translate_0)
    moreover have "unat (pos_line region_end) \<le> unat w"
      using assms(7) end_pos_line(1) [OF assms(5)] k(1)
      by (simp add: assms(4) translate_virtual_position_to_host_def Let_def unat_sat_add32)
    ultimately show False
      using assms(1,6) by (simp add: boundary_at_def prefixed_region_def word_le_nat_alt)
  qed
  have "P k \<noteq> []" using assms(1,2) by (simp add: prefixed_region_def)
  with width show "column_for_line off (of_nat k) \<noteq> 0"
    by (auto simp: records_width_def)
qed

lemma prefixed_guard:
  assumes "prefixed_region off P v" "hosts off P pre v post" "clean_edit v e b m a"
    and "translation_fits (range_start e) off" "translation_fits (range_end e) off"
    and "region_end = translate_virtual_position_to_host p off" "target_of p = end_pos v"
    and "text_edit_preserves_line_prefixes (translate_edit off e) off region_end"
  shows "eol_free m" "eol_free (new_text e)" "records_width off P (line_ends b)"
proof -
  let ?start = "pos_line (translate_virtual_position_to_host (range_start e) off)"
    and ?stop = "pos_line (translate_virtual_position_to_host (range_end e) off)"
  note ends = clean_edit_ends [OF assms(3)]
  have bound: "line_ends v < 2 ^ 32" using assms(2) by (simp add: hosts_def)
  have j: "line_ends (b @ m) = line_ends b + line_ends m" "line_ends (b @ m) \<le> line_ends v"
    using line_ends_append [OF ends(4)] line_ends_prefix_le [of "b @ m" a] assms(3) ends(3)
    by (auto simp: clean_edit_def)
  have start: "unat ?start = unat (ro_line off) + line_ends b"
    and stop: "unat ?stop = unat (ro_line off) + line_ends (b @ m)"
    using end_pos_line(1) [OF ends(1)] end_pos_line(1) [OF ends(2)] assms(4,5)
    by (simp_all add: unat_line_translate translation_fits_def)
  have "column_for_line off (of_nat 0) \<noteq> 0"
    using assms(1) by (auto simp: prefixed_region_def records_width_def)
  note guard = guardD [OF assms(8) column_not_all_0 [OF this], unfolded translate_edit_sel]
  note width = prefixed_width [OF assms(1) _ bound assms(6,7)]
  have k: "records_width off P (line_ends b)" "column_for_line off (of_nat (line_ends b)) \<noteq> 0"
    using width [OF _ guard(1) start] j by auto
  have col: "column_for_line off (of_nat (line_ends (b @ m))) \<noteq> 0"
    using width(2) [OF j(2) guard(2) stop] .
  show "records_width off P (line_ends b)" by (rule k)
  have "line_ends m = 0"
  proof (rule ccontr)
    assume m: "line_ends m \<noteq> 0"
    let ?n = "unat (ro_line off) + line_ends (b @ m)"
    have "line_ends (b @ m) < length (ro_columns off)"
      using column_in_list [OF col] j bound by simp
    then have "?n \<le> unat (sat_add32 (ro_line off) (sat_sub32 (of_nat (length (ro_columns off))) 1))"
      using assms(1,2) j
      by (simp add: unat_sat_add32 unat_sat_sub32 prefixed_region_def unsigned_of_nat
          take_bit_nat_eq_self hosts_def)
    moreover have "unat (sat_add32 ?start 1) \<le> ?n" "?start < ?stop"
      using m j by (simp_all add: unat_sat_add32 start stop word_less_nat_alt)
    ultimately have "\<not> prefix_at off region_end (of_nat ?n)"
      using guard(3) [of ?n] stop by (auto simp: min_def word_le_nat_alt)
    moreover have "?stop = of_nat ?n" by (simp flip: stop)
    ultimately show False using prefix_at_line [OF stop col] by simp
  qed
  then show "eol_free m" by (simp add: line_ends_0_eol_free)
  show "eol_free (new_text e)"
    using guard(4) prefix_at_line [OF start k(2)] assms(1)
    by (auto simp: prefixed_region_def not_contains_eol [symmetric])
qed

lemma prefixed_hosted_clean:
  assumes "prefixes_ok P" "P (line_ends w) \<noteq> []"
  shows "clean_seam (hosted P w) t"
proof -
  have "last_line (hosted P w) \<noteq> []"
    using assms(2) end_pos_hosted [OF assms(1), of w] by (auto simp: end_pos_def)
  then show ?thesis
    using last_line_Nil [of "hosted P w"] by (auto simp: clean_seam_def ends_with_newline_def)
qed

text \<open>
  C11: In a region whose lines all carry a host prefix (a blockquote), an edit that the guard
  lets through stays on one line: applied to the host text at its translated range, it gives
  the embedding of the edited virtual text with the same prefixes on the same lines, while an
  edit that deletes a prefix or adds an unprefixed line is refused.
\<close>

theorem prefixed_edit_correct:
  assumes "prefixed_region off P v" "hosts off P pre v post" "maps_end mapper v"
    and "clean_edit v e b m a"
    and "translation_fits (range_start e) off" "translation_fits (range_end e) off"
    and "text_edit_preserves_line_prefixes (translate_edit off e) off (region_host_end mapper v off)"
  shows "applies (pre @ hosted P v @ post) (translate_edit off e)
      (pre @ hosted P (b @ new_text e @ a) @ post) \<and>
    hosts off P pre (b @ new_text e @ a) post \<and>
    line_ends (b @ new_text e @ a) = line_ends v"
proof -
  obtain p where p: "region_host_end mapper v off = translate_virtual_position_to_host p off"
    "target_of p = end_pos v"
    using region_host_end_eq [OF assms(3)] .
  note ends = clean_edit_ends [OF assms(4)]
  note guard = prefixed_guard [OF assms(1,2,4,5,6) p(1,2) assms(7)]
  have seams: "clean_seam b (m @ a)" "clean_seam (b @ m) a" "clean_seam b (new_text e @ a)"
    "clean_seam m a" "clean_seam (new_text e) a"
    using assms(4) by (auto simp: clean_edit_def clean_seam_def split: if_splits)
  have m0: "line_ends (b @ m) = line_ends b" "line_ends (new_text e) = 0"
    using guard(1,2) by (simp_all add: line_ends_append ends(4) eol_free_ends)
  have new: "hosted P (b @ new_text e @ a) =
      hosted P b @ new_text e @ weave P (line_ends b) a"
    using guard(2) seams by (simp add: hosted_def weave_append weave_eol_free eol_free_ends)
  have at: "edit_at (pre @ hosted P v @ post) (translate_edit off e) (pre @ hosted P b) m
      (weave P (line_ends b) a @ post)"
    using translated_edit_at [OF assms(2,4,5,6)] guard(1,3) by (simp add: m0 weave_eol_free)
  have lines: "line_ends (b @ new_text e @ a) = line_ends v"
    using guard(1,2) seams by (simp add: ends(3) line_ends_append eol_free_ends)
  have "clean_seam (hosted P (b @ new_text e @ a)) post"
    using assms(1,2) lines by (intro prefixed_hosted_clean) (auto simp: prefixed_region_def hosts_def)
  moreover have "clean_seam pre (hosted P (b @ new_text e @ a) @ post)"
    using assms(1,2) by (auto simp: hosts_def prefixed_region_def hosted_def clean_seam_def)
  ultimately have "hosts off P pre (b @ new_text e @ a) post"
    using assms(2) lines by (simp add: hosts_def)
  with lines show ?thesis by (auto simp: new intro: appliesI [OF at])
qed

section \<open>The guard in a region whose later lines have no prefix\<close>

lemma guard_eol:
  assumes "text_edit_preserves_line_prefixes e off region_end"
    and "pos_character region_end = 0" "range_end e = region_end"
  shows "ends_with_newline (new_text e) \<or> new_text e = [] \<and> pos_character (range_start e) = 0"
  using assms by (auto simp: text_edit_preserves_line_prefixes_def Let_def split: if_splits)

lemma line_start_translate:
  assumes "target_of p = end_pos s" "records_width off P (line_ends s)"
  shows "pos_character (translate_virtual_position_to_host p off) = 0 \<longleftrightarrow>
    last_line s = [] \<and> P (line_ends s) = []"
proof -
  have "pos_line p = of_nat (line_ends s)"
    by (simp flip: end_pos_line(1) [OF assms(1)])
  then have "unat (column_for_line off (pos_line p)) = ulen (P (line_ends s))"
    using assms(2) by (simp add: records_width_def)
  then show ?thesis
    using end_pos_line(2) [OF assms(1)] unfolding char_translate_0 by (metis ulen_eq_0(1) unsigned_eq_0_iff)
qed

lemma at_line_start:
  assumes "end_pos pre = (l, 0)" "w = [] \<or> ends_with_newline w"
  shows "snd (end_pos (pre @ w)) = 0"
proof (cases "w = []")
  case False
  with assms(2) have "ends_with_newline (pre @ w)" by (auto simp: ends_with_newline_def)
  then show ?thesis using last_line_Nil [of "pre @ w"] by (simp add: end_pos_def)
qed (simp add: assms(1))

text \<open>
  C12: In a region whose lines after the first have no prefix (a plain fence, or content that
  opens after a delimiter on its line), an edit that the guard lets through gives the
  embedding of the edited virtual text; if the line after the region (a closing fence)
  started a line before, it does so after; and an edit of a region within one line
  that opens mid-line does not split that line.
\<close>

theorem unprefixed_edit_correct:
  assumes "hosts off P pre v post" "\<forall>k > 0. P k = []" "\<forall>k \<le> line_ends v. records_width off P k"
    and "maps_end mapper v" "clean_edit v e b m a"
    and "translation_fits (range_start e) off" "translation_fits (range_end e) off"
    and "text_edit_preserves_line_prefixes (translate_edit off e) off (region_host_end mapper v off)"
  shows "applies (pre @ hosted P v @ post) (translate_edit off e)
      (pre @ hosted P (b @ new_text e @ a) @ post) \<and>
    (snd (end_pos (pre @ hosted P v)) = 0 \<longrightarrow>
      snd (end_pos (pre @ hosted P (b @ new_text e @ a))) = 0) \<and>
    (line_ends v = 0 \<and> P 0 \<noteq> [] \<longrightarrow> line_ends (b @ new_text e @ a) = 0)"
proof -
  obtain p where p: "region_host_end mapper v off = translate_virtual_position_to_host p off"
    "target_of p = end_pos v"
    using region_host_end_eq [OF assms(4)] .
  note ends = clean_edit_ends [OF assms(5)]
  have flat: "hosted P w = P 0 @ w" for w
    using assms(2) by (simp add: hosted_def weave_unprefixed)
  have weave: "weave P k w = w" for k w
    using assms(2) by (simp add: weave_unprefixed)
  have seams: "clean_seam b (m @ a)" "clean_seam (b @ m) a" "clean_seam b m"
    using assms(5) ends(4) by (auto simp: clean_edit_def)
  have lines: "line_ends b \<le> line_ends v" "line_ends (b @ m) \<le> line_ends v"
    using line_ends_prefix_le [OF seams(1)] line_ends_prefix_le [OF seams(2)] ends(3) by simp_all
  have at: "edit_at (pre @ hosted P v @ post) (translate_edit off e) (pre @ hosted P b) m (a @ post)"
    using translated_edit_at [OF assms(1,5,6,7)] assms(3) lines by (simp add: weave)
  have "applies (pre @ hosted P v @ post) (translate_edit off e)
      (pre @ hosted P (b @ new_text e @ a) @ post)"
    by (rule appliesI [OF at]) (simp add: flat)
  moreover have "snd (end_pos (pre @ hosted P (b @ new_text e @ a))) = 0"
    if "snd (end_pos (pre @ hosted P v)) = 0"
  proof (rule at_line_start)
    show "end_pos pre = (unat (ro_line off), 0)" using assms(1) by (simp add: hosts_def)
    have v: "P (line_ends v) = []" "last_line v = []"
      using that end_pos_in_host [of off P pre v "[]" post] assms(1) by auto
    show "hosted P (b @ new_text e @ a) = [] \<or> ends_with_newline (hosted P (b @ new_text e @ a))"
    proof (cases "a = []")
      case True
      have "range_end e = p"
        using True ends p(2) by (simp flip: target_of_eq_iff)
      moreover have "pos_character (translate_virtual_position_to_host p off) = 0"
        using assms(3) v line_start_translate [OF p(2), of off P] by simp
      ultimately consider "ends_with_newline (new_text e)"
        | "new_text e = []" "pos_character (translate_virtual_position_to_host (range_start e) off) = 0"
        using guard_eol [OF assms(8)] p(1) by auto
      then show ?thesis
      proof cases
        case 2
        then have "last_line b = []" "P (line_ends b) = []"
          using assms(3) lines(1) line_start_translate [OF ends(1)] by auto
        with 2 True show ?thesis by (auto simp: last_line_Nil flat ends_with_newline_def)
      qed (use True in \<open>auto simp: flat ends_with_newline_def\<close>)
    next
      case False
      then have "ends_with_newline v" using v(2) ends(3) by (simp add: last_line_Nil)
      with False ends(3) show ?thesis by (auto simp: flat ends_with_newline_def)
    qed
  qed
  moreover have "line_ends (b @ new_text e @ a) = 0" if v: "line_ends v = 0" "P 0 \<noteq> []"
  proof -
    have col: "column_for_line off (of_nat 0) \<noteq> 0"
      using assms(3) v by (auto simp: records_width_def)
    have b: "line_ends b = 0" using lines(1) v(1) by simp
    have "unat (pos_line (translate_virtual_position_to_host (range_start e) off)) = unat (ro_line off) + 0"
      using end_pos_line(1) [OF ends(1)] assms(6) b by (simp add: unat_line_translate translation_fits_def)
    moreover have "pos_line (translate_virtual_position_to_host p off) = ro_line off"
      using end_pos_line(1) [OF p(2)] v(1) unsigned_less [where w = "ro_line off", where 'a = nat]
      by (simp add: word_unat_eq_iff translate_virtual_position_to_host_def Let_def unat_sat_add32)
    ultimately have "\<not> contains_eol (new_text e)"
      using guardD(4) [OF assms(8) column_not_all_0 [OF col]] prefix_at_line [OF _ col] p(1) by auto
    then show ?thesis
      using v(1) ends(3) by (simp add: line_ends_0_eol_free not_contains_eol)
  qed
  ultimately show ?thesis by blast
qed

section \<open>Containment\<close>

lemma text_edit_within_region_iff:
  "text_edit_within_region e off region_end \<longleftrightarrow>
     pos_key (range_start e) \<le> pos_key (range_end e) \<and>
     host_position_within_region_bounds (range_start e) off region_end \<and>
     host_position_within_region_bounds (range_end e) off region_end"
  by (auto simp: text_edit_within_region_def position_after_def host_position_within_region_bounds_def
      host_position_within_region_def Let_def not_less)

lemma edit_at_ordered: "edit_at s e b m a \<Longrightarrow> pos_key (range_start e) \<le> pos_key (range_end e)"
  using lsp_pos_mono [of m b a] by (cases "m = []") (auto simp: edit_at_def pos_key_le)

lemma hosted_cut_order:
  assumes "b1 @ a1 = b2 @ a2" "clean_seam b2 a2" "hosted P b1 @ m = hosted P b2"
  shows "\<exists>m. b2 = b1 @ m"
proof -
  from assms(1) obtain c where "b2 = b1 @ c \<or> b1 = b2 @ c \<and> a2 = c @ a1"
    by (auto simp: append_eq_append_conv2)
  then consider "b2 = b1 @ c" | "b1 = b2 @ c" "a2 = c @ a1" "c \<noteq> []"
    by (cases "c = []") auto
  then show ?thesis
  proof cases
    case 2
    then have "clean_seam b2 c" using assms(2) by (auto simp: clean_seam_def)
    then have "hosted P b1 = hosted P b2 @ weave P (line_ends b2) c"
      by (simp add: 2 hosted_def weave_append)
    with 2 assms(3) show ?thesis by simp
  qed blast
qed

text \<open>
  In a region whose line widths are recorded, an edit of the host text is within the
  region exactly when it replaces the embedding of some part of the virtual text: every edit
  translated from the virtual document passes, and nothing outside the region does.
\<close>

lemma within_region_correct:
  assumes "hosts off P pre v post" "\<forall>k \<le> line_ends v. records_width off P k"
    and "target_of region_end = end_pos (pre @ hosted P v)"
    and "edit_at (pre @ hosted P v @ post) e x m y" "clean_seam x (m @ y)" "clean_seam (x @ m) y"
  shows "text_edit_within_region e off region_end \<longleftrightarrow>
    (\<exists>b d a. v = b @ d @ a \<and> clean_seam b (d @ a) \<and> clean_seam (b @ d) a \<and>
      x = pre @ hosted P b \<and> x @ m = pre @ hosted P (b @ d))"
proof -
  have H: "pre @ hosted P v @ post = x @ (m @ y)" "pre @ hosted P v @ post = (x @ m) @ y"
    using assms(4) by (simp_all add: edit_at_def)
  have start: "target_of (range_start e) = end_pos x" and stop: "target_of (range_end e) = end_pos (x @ m)"
    using assms(4) lsp_pos_end_pos [OF assms(5)] lsp_pos_end_pos [OF assms(6)] H
    by (simp_all add: edit_at_def)
  note place = region_bounds_place [OF assms(1-3)]
  have at_start: "host_position_within_region_bounds (range_start e) off region_end \<longleftrightarrow>
      (\<exists>b a. v = b @ a \<and> clean_seam b a \<and> x = pre @ hosted P b \<and>
        target_of (translate_host_position_to_virtual (range_start e) off) = end_pos b)"
    by (rule place [OF H(1) assms(5) start])
  have at_stop: "host_position_within_region_bounds (range_end e) off region_end \<longleftrightarrow>
      (\<exists>b a. v = b @ a \<and> clean_seam b a \<and> x @ m = pre @ hosted P b \<and>
        target_of (translate_host_position_to_virtual (range_end e) off) = end_pos b)"
    by (rule place [OF H(2) assms(6) stop])
  show ?thesis
  proof
    assume "text_edit_within_region e off region_end"
    then have "host_position_within_region_bounds (range_start e) off region_end"
      "host_position_within_region_bounds (range_end e) off region_end"
      by (simp_all add: text_edit_within_region_iff)
    then obtain b1 a1 b2 a2 where 1: "v = b1 @ a1" "clean_seam b1 a1" "x = pre @ hosted P b1"
      and 2: "v = b2 @ a2" "clean_seam b2 a2" "x @ m = pre @ hosted P b2"
      using at_start at_stop by blast
    obtain d where d: "b2 = b1 @ d"
      using hosted_cut_order [of b1 a1 b2 a2 P m] 1 2 by auto
    with 1 2 have "a1 = d @ a2" by simp
    with d 1 2 show "\<exists>b d a. v = b @ d @ a \<and> clean_seam b (d @ a) \<and> clean_seam (b @ d) a \<and>
        x = pre @ hosted P b \<and> x @ m = pre @ hosted P (b @ d)"
      by (intro exI [of _ b1] exI [of _ d] exI [of _ a2]) simp
  next
    assume "\<exists>b d a. v = b @ d @ a \<and> clean_seam b (d @ a) \<and> clean_seam (b @ d) a \<and>
        x = pre @ hosted P b \<and> x @ m = pre @ hosted P (b @ d)"
    then obtain b d a where bda: "v = b @ d @ a" "clean_seam b (d @ a)" "clean_seam (b @ d) a"
      "x = pre @ hosted P b" "x @ m = pre @ hosted P (b @ d)" by blast
    note within = hosted_place_within [OF assms(1-3)]
    show "text_edit_within_region e off region_end"
      using within [of b "d @ a" "range_start e"] within [of "b @ d" a "range_end e"] bda start stop
        edit_at_ordered [OF assms(4)]
      by (simp add: text_edit_within_region_iff)
  qed
qed

end
