(* ===== verification/Edit_Transform.thy ===== *)
theory Edit_Transform
  imports Region_Edits
begin

text \<open>
  What the translation of a whole workspace edit does to each document, and samples of the
  properties of region edits.
\<close>

definition changes_for :: "workspace_edit \<Rightarrow> rstr \<Rightarrow> text_edit list" where
  "changes_for w u =
     (case changes w of None \<Rightarrow> []
      | Some m \<Rightarrow> (case map_of m u of None \<Rightarrow> [] | Some es \<Rightarrow> es))"

definition documents_of :: "workspace_edit \<Rightarrow> text_document_edit list" where
  "documents_of w =
     (case document_changes w of None \<Rightarrow> []
      | Some (Edits edits) \<Rightarrow> edits
      | Some (Operations ops) \<Rightarrow>
          List.map_filter (\<lambda>operation. case operation of Edit e \<Rightarrow> Some e | Op _ \<Rightarrow> None) ops)"

definition file_ops :: "workspace_edit \<Rightarrow> resource_op list" where
  "file_ops w =
     (case document_changes w of
        Some (Operations ops) \<Rightarrow>
          List.map_filter (\<lambda>operation. case operation of Edit _ \<Rightarrow> None | Op r \<Rightarrow> Some r) ops
      | _ \<Rightarrow> [])"

lemma map_of_extend_entry:
  "map_of (extend_entry k es m) u =
     (if u = k then Some ((case map_of m k of None \<Rightarrow> [] | Some es' \<Rightarrow> es') @ es) else map_of m u)"
  by (induction k es m rule: extend_entry.induct) auto

lemma map_of_filter_key: "map_of (filter (\<lambda>(k, _). Q k) m) u = (if Q u then map_of m u else None)"
  by (induction m) auto

lemma changes_for_transformed:
  assumes "\<not> is_virtual_uri parse host" "is_virtual_uri parse request_uri"
  shows "(case map_of (transform_changes_map parse request_uri host off m) u of None \<Rightarrow> [] | Some es \<Rightarrow> es) =
    (if is_virtual_uri parse u then []
     else (case map_of m u of None \<Rightarrow> [] | Some es \<Rightarrow> es) @
       (if u = host then map (translate_edit off) (case map_of m request_uri of None \<Rightarrow> [] | Some es \<Rightarrow> es)
        else []))"
  using assms
  by (cases "map_of m request_uri")
    (auto simp: transform_changes_map_def Let_def map_of_extend_entry map_of_filter_key)

lemma documents_of_transformed:
  "documents_of \<lparr>changes = c, document_changes =
      map_option (transform_document_changes parse request_uri host off) (document_changes w)\<rparr> =
    List.map_filter (transform_text_document_edit parse request_uri host off) (documents_of w)"
proof (cases "document_changes w")
  case (Some dc)
  then show ?thesis
  proof (cases dc)
    case (Operations ops)
    have "List.map_filter (\<lambda>operation. case operation of Edit e \<Rightarrow> Some e | Op _ \<Rightarrow> None)
        (List.map_filter (\<lambda>operation. case operation of
            Edit e \<Rightarrow> map_option Edit (transform_text_document_edit parse request_uri host off e)
          | Op r \<Rightarrow> Some (Op r)) ops) =
      List.map_filter (transform_text_document_edit parse request_uri host off)
        (List.map_filter (\<lambda>operation. case operation of Edit e \<Rightarrow> Some e | Op _ \<Rightarrow> None) ops)"
      by (induction ops) (auto simp: List.map_filter_simps split: document_change_operation.split option.split)
    with Some Operations show ?thesis by (simp add: documents_of_def transform_document_changes_def)
  qed (simp add: documents_of_def transform_document_changes_def)
qed (simp add: documents_of_def List.map_filter_simps)

lemma file_ops_transformed:
  "file_ops \<lparr>changes = c, document_changes =
      map_option (transform_document_changes parse request_uri host off) (document_changes w)\<rparr> = file_ops w"
proof (cases "document_changes w")
  case (Some dc)
  then show ?thesis
  proof (cases dc)
    case (Operations ops)
    have "List.map_filter (\<lambda>operation. case operation of Edit _ \<Rightarrow> None | Op r \<Rightarrow> Some r)
        (List.map_filter (\<lambda>operation. case operation of
            Edit e \<Rightarrow> map_option Edit (transform_text_document_edit parse request_uri host off e)
          | Op r \<Rightarrow> Some (Op r)) ops) =
      List.map_filter (\<lambda>operation. case operation of Edit _ \<Rightarrow> None | Op r \<Rightarrow> Some r) ops"
      by (induction ops) (auto simp: List.map_filter_simps split: document_change_operation.split option.split)
    with Some Operations show ?thesis by (simp add: file_ops_def transform_document_changes_def)
  qed (simp add: file_ops_def transform_document_changes_def)
qed (simp add: file_ops_def)

lemma virtual_file_op_iff:
  "(case document_changes w of
      Some (Operations ops) \<Rightarrow>
        list_ex (\<lambda>operation. case operation of
           Op r \<Rightarrow> \<not> resource_op_targets_real_files_only parse r | Edit _ \<Rightarrow> False) ops
    | _ \<Rightarrow> False) \<longleftrightarrow> \<not> list_all (resource_op_targets_real_files_only parse) (file_ops w)"
proof (cases "document_changes w")
  case (Some dc)
  then show ?thesis
  proof (cases dc)
    case (Operations ops)
    have "list_ex (\<lambda>operation. case operation of
           Op r \<Rightarrow> \<not> resource_op_targets_real_files_only parse r | Edit _ \<Rightarrow> False) ops \<longleftrightarrow>
      \<not> list_all (resource_op_targets_real_files_only parse)
        (List.map_filter (\<lambda>operation. case operation of Edit _ \<Rightarrow> None | Op r \<Rightarrow> Some r) ops)"
      by (induction ops) (auto simp: List.map_filter_simps split: document_change_operation.split)
    with Some Operations show ?thesis by (simp add: file_ops_def)
  qed (simp add: file_ops_def)
qed (simp add: file_ops_def)

definition edits_of_document :: "workspace_edit \<Rightarrow> rstr \<Rightarrow> doc_edit_item list" where
  "edits_of_document w u = concat (map (\<lambda>e. if td_uri e = u then td_edits e else []) (documents_of w))"

lemma edits_of_transformed:
  assumes "\<not> is_virtual_uri parse host" "is_virtual_uri parse request_uri"
  shows "concat (map (\<lambda>e. if td_uri e = u then td_edits e else [])
      (List.map_filter (transform_text_document_edit parse request_uri host off) ds)) =
    (if is_virtual_uri parse u then []
     else concat (map (\<lambda>e. if td_uri e = u then td_edits e
       else if u = host \<and> td_uri e = request_uri then map (map_item (translate_edit off)) (td_edits e)
       else []) ds))"
  using assms
  by (induction ds) (auto simp: List.map_filter_simps transform_text_document_edit_def)

text \<open>
  C13: Translating a workspace edit refuses exactly the edits with a file operation on a
  virtual document and then changes nothing. Otherwise file operations and the edits of real
  files stay as they are and in order, the edits of the request's own document become edits
  of the host after translation (in \<open>changes\<close> after the host's own), no edit of a virtual
  document is left, and a re-keyed document carries no version.
\<close>

theorem transform_workspace_edit_correct:
  assumes "\<not> is_virtual_uri parse host" "is_virtual_uri parse request_uri"
    and "transform_workspace_edit_to_host parse request_uri host off w = (ok, w')"
  shows "(ok \<longleftrightarrow> list_all (resource_op_targets_real_files_only parse) (file_ops w)) \<and>
    (\<not> ok \<longrightarrow> w' = w) \<and>
    (ok \<longrightarrow> file_ops w' = file_ops w \<and>
      (\<forall>u. changes_for w' u =
         (if is_virtual_uri parse u then []
          else changes_for w u @ (if u = host then map (translate_edit off) (changes_for w request_uri) else []))) \<and>
      (\<forall>u. edits_of_document w' u =
         (if is_virtual_uri parse u then []
          else concat (map (\<lambda>e. if td_uri e = u then td_edits e
            else if u = host \<and> td_uri e = request_uri then map (map_item (translate_edit off)) (td_edits e)
            else []) (documents_of w)))) \<and>
      (\<forall>e \<in> set (documents_of w'). \<not> is_virtual_uri parse (td_uri e) \<and>
         (e \<in> set (documents_of w) \<or> td_uri e = host \<and> td_version e = None)))"
proof (cases "list_all (resource_op_targets_real_files_only parse) (file_ops w)")
  case False
  with assms(3) show ?thesis
    by (auto simp: transform_workspace_edit_to_host_def virtual_file_op_iff)
next
  case True
  with assms(3) have w': "ok"
    "w' = \<lparr>changes = map_option (transform_changes_map parse request_uri host off) (changes w),
       document_changes = map_option (transform_document_changes parse request_uri host off) (document_changes w)\<rparr>"
    by (auto simp: transform_workspace_edit_to_host_def virtual_file_op_iff)
  have docs: "documents_of w' = List.map_filter (transform_text_document_edit parse request_uri host off) (documents_of w)"
    unfolding w' by (rule documents_of_transformed)
  have "file_ops w' = file_ops w" unfolding w' by (rule file_ops_transformed)
  moreover have "changes_for w' u =
      (if is_virtual_uri parse u then []
       else changes_for w u @ (if u = host then map (translate_edit off) (changes_for w request_uri) else []))" for u
    using changes_for_transformed [OF assms(1,2), of off _ u]
    by (cases "changes w") (auto simp: changes_for_def w')
  moreover have "edits_of_document w' u =
      (if is_virtual_uri parse u then []
       else concat (map (\<lambda>e. if td_uri e = u then td_edits e
         else if u = host \<and> td_uri e = request_uri then map (map_item (translate_edit off)) (td_edits e)
         else []) (documents_of w)))" for u
    unfolding edits_of_document_def docs by (rule edits_of_transformed [OF assms(1,2)])
  moreover have "\<not> is_virtual_uri parse (td_uri e) \<and>
      (e \<in> set (documents_of w) \<or> td_uri e = host \<and> td_version e = None)" if "e \<in> set (documents_of w')" for e
    using that assms(1)
    by (auto simp: docs List.map_filter_def transform_text_document_edit_def split: if_splits)
  ultimately show ?thesis using w'(1) True by blast
qed

end
