(* ===== verification/Region_Samples.thy ===== *)
theory Region_Samples
  imports Edit_Transform
begin

text \<open>
  The properties of region edits at concrete documents: a blockquoted region of two lines, and
  a plain fenced region of one line.
\<close>

definition quote_prefix :: "nat \<Rightarrow> rstr" where
  "quote_prefix k = [62, 32]"

definition no_prefix :: "nat \<Rightarrow> rstr" where
  "no_prefix k = []"

definition sample_pre :: rstr where "sample_pre = [120, 10]"
definition sample_post :: rstr where "sample_post = [96, 96]"
definition sample_text :: rstr where "sample_text = [97, 98, 10, 99, 10]"
definition quote_offset :: region_offset where "quote_offset = \<lparr>ro_line = 1, ro_columns = [2, 2, 0]\<rparr>"
definition fence_offset :: region_offset where "fence_offset = \<lparr>ro_line = 1, ro_columns = [0]\<rparr>"

definition sample_mapper :: "rstr \<Rightarrow> nat \<Rightarrow> lsp_pos_t option" where
  "sample_mapper s n =
     (case lsp_pos s n (0, 0) of (l, c) \<Rightarrow> Some \<lparr>pos_line = of_nat l, pos_character = of_nat c\<rparr>)"

definition sample_edit :: text_edit where
  "sample_edit = \<lparr>range_start = \<lparr>pos_line = 0, pos_character = 1\<rparr>,
     range_end = \<lparr>pos_line = 0, pos_character = 2\<rparr>, new_text = [120]\<rparr>"

lemmas sample_defs = sample_pre_def sample_post_def sample_text_def quote_offset_def fence_offset_def
  quote_prefix_def no_prefix_def sample_edit_def

lemmas eol_chars = ends_lsp_line_def len_utf8_def len_utf16_def

lemma sample_line_ends: "line_ends sample_text = 2" "last_line sample_text = []"
  by (simp_all add: sample_text_def ends_lsp_line_def)

lemma le_2_iff: "k \<le> (2 :: nat) \<longleftrightarrow> k = 0 \<or> k = 1 \<or> k = 2"
  by auto

lemma sample_maps_end: "maps_end sample_mapper sample_text"
  by (simp add: maps_end_def sample_mapper_def sample_text_def target_of_def eol_chars blen_def)

lemma sample_end: "region_host_end sample_mapper sample_text quote_offset = \<lparr>pos_line = 3, pos_character = 0\<rparr>"
  by (simp add: region_host_end_def sample_mapper_def sample_text_def eol_chars blen_def quote_offset_def
      fence_offset_def translate_virtual_position_to_host_def sat_add32_def column_for_line_def)

lemma fence_end: "region_host_end sample_mapper sample_text fence_offset = \<lparr>pos_line = 3, pos_character = 0\<rparr>"
  by (simp add: region_host_end_def sample_mapper_def sample_text_def eol_chars blen_def quote_offset_def
      fence_offset_def translate_virtual_position_to_host_def sat_add32_def column_for_line_def)

lemma quote_hosts: "hosts quote_offset quote_prefix sample_pre sample_text sample_post"
  by (simp add: hosts_def prefixes_ok_def sample_defs hosted_def clean_seam_def end_pos_def ends_lsp_line_def)

lemma fence_hosts: "hosts fence_offset no_prefix sample_pre sample_text sample_post"
  by (simp add: hosts_def prefixes_ok_def sample_defs hosted_def clean_seam_def end_pos_def ends_lsp_line_def)

lemma quote_prefixed: "prefixed_region quote_offset quote_prefix sample_text"
  by (simp add: prefixed_region_def sample_line_ends le_2_iff)
    (auto simp: records_width_def sample_defs column_for_line_def len_utf16_def)

lemma fence_widths: "\<forall>k \<le> line_ends sample_text. records_width fence_offset no_prefix k"
  by (auto simp: sample_line_ends le_2_iff records_width_def sample_defs column_for_line_def)

lemma fence_region_end:
  "target_of \<lparr>pos_line = 3, pos_character = 0\<rparr> = end_pos (sample_pre @ hosted no_prefix sample_text)"
  by (simp add: target_of_def end_pos_def sample_defs hosted_def ends_lsp_line_def)

lemma sample_clean_edit: "clean_edit sample_text sample_edit [97] [98] [10, 99, 10]"
  by (simp add: clean_edit_def edit_at_def sample_defs target_of_def eol_chars clean_seam_def)

lemma sample_fits:
  "translation_fits (range_start sample_edit) quote_offset"
  "translation_fits (range_end sample_edit) quote_offset"
  "translation_fits (range_start sample_edit) fence_offset"
  "translation_fits (range_end sample_edit) fence_offset"
  by (simp_all add: translation_fits_def sample_defs column_for_line_def)

lemma prefixed_edit_correct_witness:
  "applies (sample_pre @ hosted quote_prefix sample_text @ sample_post) (translate_edit quote_offset sample_edit)
     (sample_pre @ hosted quote_prefix ([97] @ new_text sample_edit @ [10, 99, 10]) @ sample_post)"
proof -
  have "text_edit_preserves_line_prefixes (translate_edit quote_offset sample_edit) quote_offset
      (region_host_end sample_mapper sample_text quote_offset)"
    unfolding sample_end
    by (simp add: text_edit_preserves_line_prefixes_def Let_def sample_defs boundary_at_def prefix_at_def
        translate_virtual_position_to_host_def sat_add32_def column_for_line_def contains_eol_def
        word_le_nat_alt)
  then show ?thesis
    using prefixed_edit_correct [OF quote_prefixed quote_hosts sample_maps_end sample_clean_edit
        sample_fits(1,2)] by blast
qed

lemma unprefixed_edit_correct_witness:
  "applies (sample_pre @ hosted no_prefix sample_text @ sample_post) (translate_edit fence_offset sample_edit)
     (sample_pre @ hosted no_prefix ([97] @ new_text sample_edit @ [10, 99, 10]) @ sample_post)"
proof -
  have "text_edit_preserves_line_prefixes (translate_edit fence_offset sample_edit) fence_offset
      (region_host_end sample_mapper sample_text fence_offset)"
    unfolding fence_end
    by (simp add: text_edit_preserves_line_prefixes_def Let_def sample_defs
        translate_virtual_position_to_host_def sat_add32_def column_for_line_def)
  moreover have "\<forall>k > 0. no_prefix k = []" by (simp add: no_prefix_def)
  ultimately show ?thesis
    using unprefixed_edit_correct [OF fence_hosts _ fence_widths sample_maps_end sample_clean_edit
        sample_fits(3,4)] by blast
qed

definition sample_virtual :: rstr where
  "sample_virtual = lit ''file:///p/kakehashi-virtual-uri-R1.rs''"

definition sample_workspace_edit :: workspace_edit where
  "sample_workspace_edit = \<lparr>changes = Some [(sample_virtual, [sample_edit])], document_changes = None\<rparr>"

lemma transform_workspace_edit_correct_witness:
  "changes_for (snd (transform_workspace_edit_to_host sample_parse sample_virtual (lit ''file:///p/a.md'')
      fence_offset sample_workspace_edit)) (lit ''file:///p/a.md'') = [translate_edit fence_offset sample_edit]"
proof -
  let ?host = "lit ''file:///p/a.md''"
  let ?r = "transform_workspace_edit_to_host sample_parse sample_virtual ?host fence_offset sample_workspace_edit"
  have host: "\<not> is_virtual_uri sample_parse ?host" by code_simp
  have virtual: "is_virtual_uri sample_parse sample_virtual" by code_simp
  have r: "?r = (fst ?r, snd ?r)" by simp
  have "file_ops sample_workspace_edit = []" by (simp add: file_ops_def sample_workspace_edit_def)
  then have "changes_for (snd ?r) ?host =
      changes_for sample_workspace_edit ?host @
        map (translate_edit fence_offset) (changes_for sample_workspace_edit sample_virtual)"
    using transform_workspace_edit_correct [OF host virtual r] host by simp
  moreover have "?host \<noteq> sample_virtual" using host virtual by metis
  ultimately show ?thesis by (simp add: changes_for_def sample_workspace_edit_def)
qed

end
