(* ===== verification/Injection_Ranges.thy ===== *)
theory Injection_Ranges
  imports Lone_Cr
begin

text \<open>
  \<open>src/src/language/injection/ranges.rs\<close>: which bytes of an injection's content its parser
  sees. A tree-sitter node is what the code reads of it: its extent and the extents of its
  named children, in document order; points count rows of LF and byte columns.
\<close>

record ts_point =
  pt_row :: nat
  pt_column :: nat

record ts_range =
  start_byte :: nat
  end_byte :: nat
  start_point :: ts_point
  end_point :: ts_point

record ts_node =
  node_range :: ts_range
  named_children :: "ts_range list"

section \<open>Gaps between the named children\<close>

definition relativize_point :: "ts_point \<Rightarrow> ts_point \<Rightarrow> ts_point" where
  "relativize_point base p =
     \<lparr>pt_row = pt_row p - pt_row base,
      pt_column = (if pt_row p = pt_row base then pt_column p - pt_column base else pt_column p)\<rparr>"

definition gap_range :: "nat \<Rightarrow> ts_point \<Rightarrow> nat \<Rightarrow> ts_point \<Rightarrow> nat \<Rightarrow> ts_point \<Rightarrow> ts_range" where
  "gap_range base_byte base from_byte from_point to_byte to_point =
     \<lparr>start_byte = from_byte - base_byte, end_byte = to_byte - base_byte,
      start_point = relativize_point base from_point, end_point = relativize_point base to_point\<rparr>"

fun gap_loop ::
  "nat \<times> ts_point \<Rightarrow> nat \<times> ts_point \<Rightarrow> ts_range list \<Rightarrow> nat \<Rightarrow> ts_point
     \<Rightarrow> ts_range list \<times> nat \<times> ts_point" where
  "gap_loop ws we [] cursor_byte cursor_point = ([], cursor_byte, cursor_point)"
| "gap_loop ws we (child # children) cursor_byte cursor_point =
     (if start_byte child = end_byte child then gap_loop ws we children cursor_byte cursor_point
      else if end_byte child \<le> cursor_byte then gap_loop ws we children cursor_byte cursor_point
      else if start_byte child \<ge> fst we then ([], cursor_byte, cursor_point)
      else let gap = (if cursor_byte < start_byte child
                      then [gap_range (fst ws) (snd ws) cursor_byte cursor_point
                              (start_byte child) (start_point child)]
                      else [])
           in if end_byte child \<ge> fst we then (gap, fst we, snd we)
              else let (ranges, cursor) = gap_loop ws we children (end_byte child) (end_point child)
                   in (gap @ ranges, cursor))"

definition compute_included_ranges_in_window ::
  "ts_node \<Rightarrow> bool \<Rightarrow> nat \<Rightarrow> nat \<Rightarrow> ts_point \<times> ts_point \<Rightarrow> ts_range list option" where
  "compute_included_ranges_in_window content_node include_children window_start_byte window_end_byte
      window_points =
     (if include_children \<or> named_children content_node = [] then None
      else if list_all (\<lambda>c. start_byte c = end_byte c) (named_children content_node) then None
      else let (window_start_point, window_end_point) = window_points;
               (ranges, cursor_byte, cursor_point) =
                 gap_loop (window_start_byte, window_start_point) (window_end_byte, window_end_point)
                   (named_children content_node) window_start_byte window_start_point
           in Some (ranges @
                (if cursor_byte < window_end_byte
                 then [gap_range window_start_byte window_start_point cursor_byte cursor_point
                         window_end_byte window_end_point]
                 else [])))"

definition compute_included_ranges :: "ts_node \<Rightarrow> bool \<Rightarrow> ts_range list option" where
  "compute_included_ranges content_node include_children =
     compute_included_ranges_in_window content_node include_children
       (start_byte (node_range content_node)) (end_byte (node_range content_node))
       (start_point (node_range content_node), end_point (node_range content_node))"

section \<open>Points\<close>

text \<open>\<open>byte_to_point\<close> and \<open>byte_to_point_anchored\<close> of \<open>content.rs\<close>; \<open>after_last_lf\<close> is \<open>rfind\<close>.\<close>

definition count_lf :: "rstr \<Rightarrow> nat" where
  "count_lf s = length (filter (\<lambda>b. b = LF) (as_bytes s))"

fun rfind_lf_from :: "rstr \<Rightarrow> nat \<Rightarrow> nat option" where
  "rfind_lf_from [] k = None"
| "rfind_lf_from (c # s) k =
     (case rfind_lf_from s (k + len_utf8 c) of
        Some i \<Rightarrow> Some i | None \<Rightarrow> if c = LF then Some k else None)"

definition byte_to_point :: "rstr \<Rightarrow> nat \<Rightarrow> ts_point" where
  "byte_to_point text byte =
     (let clamped = floor_char_boundary text byte;
          prefix = btake text clamped
      in \<lparr>pt_row = count_lf prefix,
          pt_column = (case rfind_lf_from prefix 0 of Some idx \<Rightarrow> clamped - idx - 1 | None \<Rightarrow> clamped)\<rparr>)"

definition byte_to_point_anchored :: "rstr \<Rightarrow> nat \<Rightarrow> nat \<Rightarrow> ts_point \<Rightarrow> ts_point" where
  "byte_to_point_anchored text byte anchor_byte anchor_point =
     (let clamped = floor_char_boundary text byte
      in if clamped < anchor_byte \<or> \<not> is_char_boundary text anchor_byte then byte_to_point text clamped
         else let segment = btake (bdrop text anchor_byte) (clamped - anchor_byte)
              in case rfind_lf_from segment 0 of
                   Some last_nl \<Rightarrow> \<lparr>pt_row = pt_row anchor_point + count_lf segment,
                                    pt_column = blen segment - last_nl - 1\<rparr>
                 | None \<Rightarrow> \<lparr>pt_row = pt_row anchor_point,
                            pt_column = pt_column anchor_point + blen segment\<rparr>)"

definition compute_included_ranges_clipped ::
  "ts_node \<Rightarrow> bool \<Rightarrow> rstr \<Rightarrow> nat \<times> nat \<Rightarrow> ts_range list option" where
  "compute_included_ranges_clipped content_node include_children text window =
     (if fst window \<ge> snd window then None
      else compute_included_ranges_in_window content_node include_children (fst window) (snd window)
        (let anchor_byte = start_byte (node_range content_node);
             anchor_point = start_point (node_range content_node);
             start = byte_to_point_anchored text (fst window) anchor_byte anchor_point
         in (start, byte_to_point_anchored text (snd window) (fst window) start)))"

section \<open>Selecting and intersecting\<close>

fun sub_select_loop :: "nat \<Rightarrow> nat \<Rightarrow> nat \<Rightarrow> bool \<Rightarrow> ts_range list \<Rightarrow> ts_range list" where
  "sub_select_loop base_row ns ne is_first [] = []"
| "sub_select_loop base_row ns ne is_first (r # rs) =
     (if end_byte r \<le> ns \<or> start_byte r \<ge> ne then sub_select_loop base_row ns ne is_first rs
      else let clip_start = max (start_byte r) ns; clip_end = min (end_byte r) ne
           in \<lparr>start_byte = clip_start - ns, end_byte = clip_end - ns,
               start_point = \<lparr>pt_row = pt_row (start_point r) - base_row,
                              pt_column = (if is_first then 0 else pt_column (start_point r))\<rparr>,
               end_point = \<lparr>pt_row = pt_row (end_point r) - base_row,
                            pt_column = pt_column (end_point r)\<rparr>\<rparr>
              # sub_select_loop base_row ns ne False rs)"

definition sub_select_included_ranges :: "ts_range list \<Rightarrow> nat \<Rightarrow> nat \<Rightarrow> ts_range list option" where
  "sub_select_included_ranges parent_ranges ns ne =
     (case List.find (\<lambda>r. end_byte r > ns \<and> start_byte r < ne) parent_ranges of
        None \<Rightarrow> None
      | Some first_overlap \<Rightarrow>
          (let clipped = sub_select_loop (pt_row (start_point first_overlap)) ns ne True parent_ranges
           in if clipped = [] then None else Some clipped))"

definition intersect_pair :: "ts_range \<Rightarrow> ts_range \<Rightarrow> ts_range list" where
  "intersect_pair ar br =
     (let s = max (start_byte ar) (start_byte br); e = min (end_byte ar) (end_byte br)
      in if s < e
         then [\<lparr>start_byte = s, end_byte = e,
                start_point = (if s = start_byte ar then start_point ar else start_point br),
                end_point = (if e = end_byte ar then end_point ar else end_point br)\<rparr>]
         else [])"

text \<open>The two scans over \<open>b\<close>: \<open>j\<close> only moves forward, \<open>k\<close> starts from it for every range of \<open>a\<close>.\<close>

fun intersect_included_ranges :: "ts_range list \<Rightarrow> ts_range list \<Rightarrow> ts_range list" where
  "intersect_included_ranges [] b = []"
| "intersect_included_ranges (ar # a) b =
     (let from_j = dropWhile (\<lambda>r. end_byte r \<le> start_byte ar) b
      in concat (map (intersect_pair ar) (takeWhile (\<lambda>r. start_byte r < end_byte ar) from_j)) @
         intersect_included_ranges a from_j)"

section \<open>What the ranges cover\<close>

definition covered :: "ts_range list \<Rightarrow> nat set" where
  "covered rs = {n. \<exists>r \<in> set rs. start_byte r \<le> n \<and> n < end_byte r}"

definition in_order :: "ts_range list \<Rightarrow> bool" where
  "in_order rs \<longleftrightarrow> sorted_wrt (\<lambda>a b. end_byte a \<le> start_byte b) rs \<and> (\<forall>r \<in> set rs. start_byte r < end_byte r)"

lemma covered_bytes_simps [simp]:
  "covered [] = {}" "covered (r # rs) = {start_byte r..<end_byte r} \<union> covered rs"
  "covered (rs @ ts) = covered rs \<union> covered ts"
  by (auto simp: covered_def)

lemma in_order_simps [simp]:
  "in_order []" "in_order (r # rs) \<longleftrightarrow>
     start_byte r < end_byte r \<and> (\<forall>t \<in> set rs. end_byte r \<le> start_byte t) \<and> in_order rs"
  by (auto simp: in_order_def)

lemma in_order_append:
  "in_order (rs @ ts) \<longleftrightarrow> in_order rs \<and> in_order ts \<and> (\<forall>r \<in> set rs. \<forall>t \<in> set ts. end_byte r \<le> start_byte t)"
  by (auto simp: in_order_def sorted_wrt_append)

lemma covered_bounds: "in_order rs \<Longrightarrow> n \<in> covered rs \<Longrightarrow> \<exists>r \<in> set rs. start_byte r \<le> n \<and> n < end_byte r"
  by (simp add: covered_def)

section \<open>Gaps\<close>

text \<open>The bytes from a position up to the window's end that no child covers.\<close>

definition uncovered :: "nat \<Rightarrow> nat \<Rightarrow> ts_range list \<Rightarrow> nat set" where
  "uncovered from_byte to_byte children =
     {n. from_byte \<le> n \<and> n < to_byte \<and> (\<forall>c \<in> set children. \<not> (start_byte c \<le> n \<and> n < end_byte c))}"

definition children_ok :: "ts_range list \<Rightarrow> bool" where
  "children_ok cs \<longleftrightarrow> sorted (map start_byte cs) \<and> (\<forall>c \<in> set cs. start_byte c \<le> end_byte c)"

definition shifted :: "nat \<Rightarrow> nat set \<Rightarrow> nat set" where
  "shifted w A = (\<lambda>n. n + w) ` A"

lemma shifted_simps [simp]:
  "shifted w {} = {}" "shifted w (A \<union> B) = shifted w A \<union> shifted w B"
  "shifted w {a..<b} = {a + w..<b + w}"
  by (auto simp: shifted_def image_Un)

lemma gap_loop_correct:
  assumes "gap_loop (ws, wsp) (we, wep) cs cb cp = (rs, cb', cp')"
    and "children_ok cs" "ws \<le> cb" "cb \<le> we"
  shows "shifted ws (covered rs) \<union> {cb'..<we} = uncovered cb we cs \<and> in_order rs \<and>
    cb \<le> cb' \<and> cb' \<le> we \<and> (\<forall>r \<in> set rs. cb \<le> start_byte r + ws \<and> end_byte r + ws \<le> cb')"
  using assms
proof (induction cs arbitrary: cb cp rs)
  case Nil
  then show ?case by (auto simp: uncovered_def)
next
  case (Cons c cs)
  have cs: "children_ok cs" "\<forall>d \<in> set cs. start_byte c \<le> start_byte d" "start_byte c \<le> end_byte c"
    using Cons.prems(2) by (auto simp: children_ok_def)
  consider (skip) "start_byte c = end_byte c \<or> end_byte c \<le> cb"
    | (stop) "start_byte c < end_byte c" "cb < end_byte c" "we \<le> start_byte c"
    | (last) "start_byte c < end_byte c" "cb < end_byte c" "start_byte c < we" "we \<le> end_byte c"
    | (gap) "start_byte c < end_byte c" "cb < end_byte c" "start_byte c < we" "end_byte c < we"
    using cs(3) by linarith
  then show ?case
  proof cases
    case skip
    then have "gap_loop (ws, wsp) (we, wep) cs cb cp = (rs, cb', cp')"
      using Cons.prems(1) by (auto split: if_splits)
    from Cons.IH [OF this cs(1) Cons.prems(3,4)] skip show ?thesis
      by (auto simp: uncovered_def)
  next
    case stop
    with Cons.prems cs(2) show ?thesis by (fastforce simp: uncovered_def)
  next
    case last
    have "uncovered cb we (c # cs) = {cb..<start_byte c}"
      using last cs(2) by (fastforce simp: uncovered_def)
    moreover have "rs = (if cb < start_byte c then [gap_range ws wsp cb cp (start_byte c) (start_point c)] else [])"
      "cb' = we"
      using last Cons.prems(1) by (auto simp: Let_def split: if_splits)
    ultimately show ?thesis
      using last Cons.prems(3,4) by (auto simp: gap_range_def)
  next
    case gap
    obtain rs' where loop: "gap_loop (ws, wsp) (we, wep) cs (end_byte c) (end_point c) = (rs', cb', cp')"
      and rs: "rs = (if cb < start_byte c then [gap_range ws wsp cb cp (start_byte c) (start_point c)] else []) @ rs'"
      using gap Cons.prems(1) by (auto simp: Let_def split: prod.splits)
    have "ws \<le> end_byte c" "end_byte c \<le> we" using gap Cons.prems(3) by simp_all
    note ih = Cons.IH [OF loop cs(1) this]
    have "uncovered cb we (c # cs) = {cb..<start_byte c} \<union> uncovered (end_byte c) we cs"
      using gap cs(2) by (fastforce simp: uncovered_def)
    with ih gap Cons.prems(3) show ?thesis
      by (auto simp: rs gap_range_def)
  qed
qed

lemma included_in_window:
  assumes "compute_included_ranges_in_window node inc ws we pts = Some rs"
    and "children_ok (named_children node)" "ws \<le> we"
  shows "shifted ws (covered rs) = uncovered ws we (named_children node)" "in_order rs"
    "\<forall>r \<in> set rs. end_byte r \<le> we - ws"
proof -
  obtain wsp wep where pts: "pts = (wsp, wep)" by (cases pts)
  obtain rs' cb cp where loop: "gap_loop (ws, wsp) (we, wep) (named_children node) ws wsp = (rs', cb, cp)"
    by (metis prod_cases3)
  have rs: "rs = rs' @ (if cb < we then [gap_range ws wsp cb cp we wep] else [])"
    using assms(1) loop
    by (auto simp: compute_included_ranges_in_window_def pts split: if_splits)
  note gaps = gap_loop_correct [OF loop assms(2) order_refl assms(3)]
  show "shifted ws (covered rs) = uncovered ws we (named_children node)"
    using gaps by (auto simp: rs gap_range_def)
  show "in_order rs" using gaps by (fastforce simp: rs gap_range_def in_order_append)
  show "\<forall>r \<in> set rs. end_byte r \<le> we - ws" using gaps by (fastforce simp: rs gap_range_def)
qed

lemma included_None:
  "compute_included_ranges_in_window node inc ws we pts = None \<longleftrightarrow>
     inc \<or> (\<forall>c \<in> set (named_children node). start_byte c = end_byte c)"
  by (auto simp: compute_included_ranges_in_window_def list_all_iff split: prod.splits)

section \<open>Points are counts from the start of the text\<close>

fun last_row :: "rstr \<Rightarrow> rstr" where
  "last_row [] = []"
| "last_row (c # s) = (if LF \<in> set s then last_row s else if c = LF then s else c # s)"

definition point_of :: "rstr \<Rightarrow> ts_point" where
  "point_of s = \<lparr>pt_row = count_list s LF, pt_column = blen (last_row s)\<rparr>"

lemma filter_enc: "filter (\<lambda>b. b = LF) (utf8_enc c) = (if c = LF then [LF] else [])"
  by (auto simp: utf8_enc_def)

lemma count_lf_eq: "count_lf s = count_list s LF"
  by (induction s) (auto simp: count_lf_def filter_enc)

lemma count_LF_0: "count_list s c = 0 \<longleftrightarrow> c \<notin> set s"
  by (induction s) auto

lemma last_row_no_lf: "LF \<notin> set s \<Longrightarrow> last_row s = s"
  by (cases s) auto

lemma rfind_lf_eq:
  "rfind_lf_from s k = (if LF \<in> set s then Some (k + blen s - blen (last_row s) - 1) else None)"
  by (induction s arbitrary: k) (auto simp: last_row_no_lf)

lemma blen_last_row: "LF \<in> set s \<Longrightarrow> blen (last_row s) < blen s"
  by (induction s) (auto simp: last_row_no_lf)

lemma last_row_append:
  "last_row (s @ t) = (if LF \<in> set t then last_row t else last_row s @ t)"
  by (induction s) (auto simp: last_row_no_lf)

lemma point_of_append:
  "point_of (s @ t) =
     (if LF \<in> set t then \<lparr>pt_row = pt_row (point_of s) + count_list t LF, pt_column = blen (last_row t)\<rparr>
      else \<lparr>pt_row = pt_row (point_of s), pt_column = pt_column (point_of s) + blen t\<rparr>)"
  using count_LF_0 [of t LF] by (simp add: point_of_def last_row_append)

lemma byte_to_point_eq: "byte_to_point s n = point_of (btake s n)"
  using blen_last_row [of "btake s n"] blen_btake [of s "floor_char_boundary s n"]
  by (auto simp: byte_to_point_def Let_def rfind_lf_eq count_lf_eq point_of_def btake_floor last_row_no_lf
      count_list_0_iff)

lemma byte_to_point_floor: "byte_to_point text (floor_char_boundary text byte) = byte_to_point text byte"
  by (simp add: byte_to_point_eq btake_floor)

lemma btake_split:
  assumes "is_char_boundary s w" "w \<le> n"
  shows "btake s n = btake s w @ btake (bdrop s w) (n - w)"
proof -
  obtain p q where "s = p @ q" "blen p = w" using assms(1) by (auto simp: boundary_iff_prefix)
  then show ?thesis using btake_append [of p q "n - w"] assms(2) by auto
qed

lemma btake_btake: "k \<le> m \<Longrightarrow> btake (btake s m) k = btake s k"
  by (induction s k arbitrary: m rule: btake.induct) auto

text \<open>The fast path of \<open>byte_to_point_anchored\<close> agrees with the full scan from a true anchor.\<close>

lemma byte_to_point_anchored_eq:
  assumes "is_char_boundary s anchor \<Longrightarrow> anchor_point = byte_to_point s anchor"
  shows "byte_to_point_anchored s n anchor anchor_point = byte_to_point s n"
proof (cases "floor_char_boundary s n < anchor \<or> \<not> is_char_boundary s anchor")
  case True
  then show ?thesis by (simp add: byte_to_point_anchored_def Let_def byte_to_point_floor)
next
  case False
  let ?seg = "btake (bdrop s anchor) (floor_char_boundary s n - anchor)"
  have "btake s n = btake s anchor @ ?seg"
    using False btake_split [of s anchor "floor_char_boundary s n"] by (simp add: btake_floor)
  moreover have "LF \<in> set ?seg \<Longrightarrow> blen ?seg - (blen ?seg - blen (last_row ?seg) - 1) - 1 = blen (last_row ?seg)"
    using blen_last_row [of ?seg] by simp
  ultimately show ?thesis
    using False assms point_of_append [of "btake s anchor" ?seg]
    by (simp add: byte_to_point_anchored_def Let_def rfind_lf_eq byte_to_point_eq count_lf_eq)
qed

text \<open>Relative to a place, a point is the point in the text that starts there.\<close>

lemma relativize_point_eq:
  assumes "is_char_boundary s w" "w \<le> n"
  shows "relativize_point (byte_to_point s w) (byte_to_point s n) = byte_to_point (bdrop s w) (n - w)"
  using count_LF_0 [of "btake (bdrop s w) (n - w)" LF]
  by (auto simp: relativize_point_def byte_to_point_eq btake_split [OF assms] point_of_append)
    (simp_all add: point_of_def last_row_no_lf)

definition points_true :: "rstr \<Rightarrow> ts_range \<Rightarrow> bool" where
  "points_true s r \<longleftrightarrow>
     start_point r = byte_to_point s (start_byte r) \<and> end_point r = byte_to_point s (end_byte r)"

lemma gap_loop_points:
  assumes "gap_loop (ws, byte_to_point s ws) (we, byte_to_point s we) cs cb cp = (rs, cb', cp')"
    and "\<forall>c \<in> set cs. points_true s c" "cp = byte_to_point s cb" "ws \<le> cb" "is_char_boundary s ws"
    "ws \<le> we"
  shows "(\<forall>r \<in> set rs. points_true (bdrop s ws) r) \<and> cp' = byte_to_point s cb' \<and> ws \<le> cb'"
  using assms
proof (induction cs arbitrary: cb cp rs)
  case (Cons c cs)
  consider (skip) "start_byte c = end_byte c \<or> end_byte c \<le> cb"
    | (stop) "start_byte c \<noteq> end_byte c" "cb < end_byte c" "we \<le> start_byte c"
    | (last) "start_byte c \<noteq> end_byte c" "cb < end_byte c" "start_byte c < we" "we \<le> end_byte c"
    | (gap) "start_byte c \<noteq> end_byte c" "cb < end_byte c" "start_byte c < we" "end_byte c < we"
    by linarith
  then show ?case
  proof cases
    case skip
    with Cons.prems Cons.IH [of cb cp rs] show ?thesis by (auto split: if_splits)
  next
    case stop
    with Cons.prems show ?thesis by auto
  next
    case last
    then have "rs = (if cb < start_byte c
        then [gap_range ws (byte_to_point s ws) cb cp (start_byte c) (start_point c)] else [])"
      "cb' = we" "cp' = byte_to_point s we"
      using Cons.prems(1) by (auto simp: Let_def split: if_splits)
    with Cons.prems(2-6) show ?thesis
      by (simp add: gap_range_def points_true_def relativize_point_eq)
  next
    case gap
    obtain rs' where loop: "gap_loop (ws, byte_to_point s ws) (we, byte_to_point s we) cs (end_byte c) (end_point c) = (rs', cb', cp')"
      and rs: "rs = (if cb < start_byte c then [gap_range ws (byte_to_point s ws) cb cp (start_byte c) (start_point c)] else []) @ rs'"
      using gap Cons.prems(1) by (auto simp: Let_def split: prod.splits)
    have "end_point c = byte_to_point s (end_byte c)" "start_point c = byte_to_point s (start_byte c)"
      using Cons.prems(2) by (auto simp: points_true_def)
    moreover have "(\<forall>r \<in> set rs'. points_true (bdrop s ws) r) \<and> cp' = byte_to_point s cb' \<and> ws \<le> cb'"
      using Cons.IH [OF loop] Cons.prems(2-6) gap calculation by simp
    ultimately show ?thesis
      using Cons.prems(3-5) by (auto simp: rs gap_range_def points_true_def relativize_point_eq)
  qed
qed auto

text \<open>
  C15: The ranges given to the injection parser cover exactly the bytes of the window that no
  named child covers, in order, without overlap and inside the content, and their points
  are the points of those bytes in the content that the parser reads. Without ranges the
  window is empty, or children are included, or no child covers a byte.
\<close>

theorem included_ranges_correct:
  assumes "children_ok (named_children node)"
    and "points_true s (node_range node)" "\<forall>c \<in> set (named_children node). points_true s c"
    and "is_char_boundary s ws"
  shows "case compute_included_ranges_clipped node include_children s (ws, we) of
      None \<Rightarrow> we \<le> ws \<or> include_children \<or> (\<forall>c \<in> set (named_children node). start_byte c = end_byte c)
    | Some rs \<Rightarrow> ws < we \<and> \<not> include_children \<and>
        shifted ws (covered rs) = uncovered ws we (named_children node) \<and> in_order rs \<and>
        (\<forall>r \<in> set rs. end_byte r \<le> we - ws \<and> points_true (btake (bdrop s ws) (we - ws)) r)"
proof (cases "we \<le> ws")
  case True
  then show ?thesis by (simp add: compute_included_ranges_clipped_def)
next
  case False
  let ?pts = "(byte_to_point s ws, byte_to_point s we)"
  have start: "byte_to_point_anchored s ws (start_byte (node_range node)) (start_point (node_range node)) =
      byte_to_point s ws"
    using assms(2) by (intro byte_to_point_anchored_eq) (simp add: points_true_def)
  have stop: "byte_to_point_anchored s we ws (byte_to_point s ws) = byte_to_point s we"
    by (intro byte_to_point_anchored_eq) simp
  have clipped: "compute_included_ranges_clipped node include_children s (ws, we) =
      compute_included_ranges_in_window node include_children ws we ?pts"
    using False by (simp add: compute_included_ranges_clipped_def Let_def start stop)
  show ?thesis
  proof (cases "compute_included_ranges_in_window node include_children ws we ?pts")
    case None
    then show ?thesis
      using included_None [of node include_children ws we ?pts] by (simp add: clipped)
  next
    case (Some rs)
    have not_inc: "\<not> include_children"
      using Some by (auto simp: compute_included_ranges_in_window_def)
    note window = included_in_window [OF Some assms(1)]
    obtain rs' cb cp where loop: "gap_loop (ws, byte_to_point s ws) (we, byte_to_point s we)
        (named_children node) ws (byte_to_point s ws) = (rs', cb, cp)"
      by (metis prod_cases3)
    have rs: "rs = rs' @ (if cb < we then [gap_range ws (byte_to_point s ws) cb cp we (byte_to_point s we)] else [])"
      using Some loop by (auto simp: compute_included_ranges_in_window_def split: if_splits)
    have "\<forall>r \<in> set rs. points_true (bdrop s ws) r"
      using gap_loop_points [OF loop assms(3) refl order_refl assms(4)] False assms(4)
      by (auto simp: rs gap_range_def points_true_def relativize_point_eq)
    moreover have "start_byte r \<le> we - ws \<and> end_byte r \<le> we - ws" if "r \<in> set rs" for r
    proof -
      have "start_byte r < end_byte r" "end_byte r \<le> we - ws"
        using window(2,3) that False by (auto simp: in_order_def)
      then show ?thesis by linarith
    qed
    ultimately have "\<forall>r \<in> set rs. points_true (btake (bdrop s ws) (we - ws)) r"
      by (auto simp: points_true_def byte_to_point_eq btake_btake)
    with window False not_inc show ?thesis unfolding clipped Some by simp
  qed
qed

section \<open>Intersections and selections\<close>

lemma intersect_pair_covered: "covered (intersect_pair a b) = {start_byte a..<end_byte a} \<inter> {start_byte b..<end_byte b}"
  by (auto simp: intersect_pair_def Let_def)

lemma covered_concat: "covered (concat (map f xs)) = (\<Union>x \<in> set xs. covered (f x))"
  by (induction xs) auto

lemma covered_alt: "covered rs = (\<Union>r \<in> set rs. {start_byte r..<end_byte r})"
  by (auto simp: covered_def)

lemma in_order_drop: "in_order b \<Longrightarrow> in_order (dropWhile Q b)"
  by (induction b) auto

lemma drop_ended:
  assumes "in_order b"
  shows "covered (dropWhile (\<lambda>r. end_byte r \<le> x) b) \<inter> {x..} = covered b \<inter> {x..}"
  using assms by (induction b) auto

lemma in_order_covered_from:
  assumes "in_order (r # rs)"
  shows "covered rs \<subseteq> {end_byte r..}"
  using assms by (auto simp: covered_def)

lemma in_order_covered_start: "in_order (r # rs) \<Longrightarrow> covered (r # rs) \<subseteq> {start_byte r..}"
  using in_order_covered_from [of r rs] by auto

lemma take_started:
  "in_order b \<Longrightarrow> covered (takeWhile (\<lambda>r. start_byte r < x) b) \<inter> {..<x} = covered b \<inter> {..<x}"
proof (induction b)
  case (Cons r b)
  show ?case
  proof (cases "start_byte r < x")
    case True
    with Cons show ?thesis by (auto simp: Int_Un_distrib2)
  next
    case False
    then show ?thesis using in_order_covered_start [OF Cons.prems] by (auto simp del: covered_bytes_simps(2))
  qed
qed simp

lemma intersect_covered:
  "in_order a \<Longrightarrow> in_order b \<Longrightarrow> covered (intersect_included_ranges a b) = covered a \<inter> covered b"
proof (induction a b rule: intersect_included_ranges.induct)
  case (2 ar a b)
  define from_j where "from_j = dropWhile (\<lambda>r. end_byte r \<le> start_byte ar) b"
  have j: "in_order from_j" "in_order a" using 2 by (auto simp: from_j_def in_order_drop)
  have cut: "covered from_j \<inter> {start_byte ar..} = covered b \<inter> {start_byte ar..}"
    unfolding from_j_def using 2 by (intro drop_ended) simp
  have "covered a \<subseteq> {start_byte ar..}"
    using in_order_covered_from [of ar a] 2 by auto
  then have rest: "covered a \<inter> covered from_j = covered a \<inter> covered b"
    using cut by blast
  have "(\<Union>x \<in> set (takeWhile (\<lambda>r. start_byte r < end_byte ar) from_j). covered (intersect_pair ar x)) =
      {start_byte ar..<end_byte ar} \<inter> covered (takeWhile (\<lambda>r. start_byte r < end_byte ar) from_j)"
    unfolding intersect_pair_covered by (auto simp: covered_alt)
  also have "\<dots> = {start_byte ar..<end_byte ar} \<inter> covered b"
    using take_started [OF j(1), of "end_byte ar"] cut by fastforce
  finally show ?case
    using 2 j rest by (simp add: Let_def covered_concat flip: from_j_def) blast
qed simp

lemma intersect_pair_within:
  "r \<in> set (intersect_pair a b) \<Longrightarrow>
    start_byte r < end_byte r \<and> max (start_byte a) (start_byte b) \<le> start_byte r \<and>
    end_byte r \<le> min (end_byte a) (end_byte b)"
  by (auto simp: intersect_pair_def Let_def split: if_splits)

lemma in_order_intersect_pair: "in_order (intersect_pair a b)"
  by (simp add: intersect_pair_def Let_def)

lemma intersect_pairs_in_order: "in_order b \<Longrightarrow> in_order (concat (map (intersect_pair a) b))"
proof (induction b)
  case (Cons br b)
  have "end_byte r \<le> start_byte t"
    if r: "r \<in> set (intersect_pair a br)" and t: "t \<in> set (concat (map (intersect_pair a) b))" for r t
  proof -
    obtain b' where b': "b' \<in> set b" "t \<in> set (intersect_pair a b')" using t by auto
    then have "end_byte br \<le> start_byte b'" using Cons.prems by simp
    with intersect_pair_within [OF r] intersect_pair_within [OF b'(2)] show ?thesis by simp
  qed
  with Cons show ?case by (simp add: in_order_append in_order_intersect_pair)
qed simp

lemma intersect_from: "r \<in> set (intersect_included_ranges a b) \<Longrightarrow> \<exists>ar \<in> set a. start_byte ar \<le> start_byte r"
proof (induction a b rule: intersect_included_ranges.induct)
  case (2 ar a b)
  then show ?case using intersect_pair_within [of r ar] by (fastforce simp: Let_def)
qed simp

lemma in_order_take: "in_order b \<Longrightarrow> in_order (takeWhile Q b)"
  by (induction b) (auto dest: set_takeWhileD)

lemma intersect_in_order: "in_order a \<Longrightarrow> in_order b \<Longrightarrow> in_order (intersect_included_ranges a b)"
proof (induction a b rule: intersect_included_ranges.induct)
  case (2 ar a b)
  let ?from_j = "dropWhile (\<lambda>r. end_byte r \<le> start_byte ar) b"
  let ?pairs = "concat (map (intersect_pair ar) (takeWhile (\<lambda>r. start_byte r < end_byte ar) ?from_j))"
  have j: "in_order ?from_j" "in_order a" using 2 by (auto simp: in_order_drop)
  have "in_order ?pairs" using j by (intro intersect_pairs_in_order in_order_take)
  moreover have "in_order (intersect_included_ranges a ?from_j)" using 2 j by blast
  moreover have "end_byte r \<le> start_byte t"
    if r: "r \<in> set ?pairs" and t: "t \<in> set (intersect_included_ranges a ?from_j)" for r t
  proof -
    obtain br where "r \<in> set (intersect_pair ar br)" using r by auto
    then have "end_byte r \<le> end_byte ar" using intersect_pair_within [of r ar br] by simp
    moreover obtain ar' where ar': "ar' \<in> set a" "start_byte ar' \<le> start_byte t"
      using intersect_from [OF t] by blast
    moreover have "end_byte ar \<le> start_byte ar'" using 2(2) ar'(1) by simp
    ultimately show ?thesis by linarith
  qed
  ultimately show ?case
    unfolding intersect_included_ranges.simps Let_def in_order_append by blast
qed simp

lemma sub_select_loop_correct:
  "in_order rs \<Longrightarrow> ns < ne \<Longrightarrow>
    shifted ns (covered (sub_select_loop base ns ne fst_flag rs)) = covered rs \<inter> {ns..<ne} \<and>
    in_order (sub_select_loop base ns ne fst_flag rs) \<and>
    (\<forall>r \<in> set (sub_select_loop base ns ne fst_flag rs). \<exists>p \<in> set rs. start_byte p \<le> start_byte r + ns) \<and>
    (sub_select_loop base ns ne fst_flag rs = [] \<longleftrightarrow> covered rs \<inter> {ns..<ne} = {})"
proof (induction rs arbitrary: fst_flag)
  case (Cons r rs)
  note ih = Cons.IH [of False] Cons.IH [of fst_flag]
  show ?case
  proof (cases "end_byte r \<le> ns \<or> start_byte r \<ge> ne")
    case True
    then have "{start_byte r..<end_byte r} \<inter> {ns..<ne} = {}" by auto
    with True ih Cons.prems show ?thesis by (auto simp: Int_Un_distrib2)
  next
    case False
    have meet: "{start_byte r..<end_byte r} \<inter> {ns..<ne} = {max (start_byte r) ns..<min (end_byte r) ne}"
      "max (start_byte r) ns < min (end_byte r) ne"
      using False Cons.prems by auto
    let ?rest = "sub_select_loop base ns ne False rs"
    obtain x where x: "sub_select_loop base ns ne fst_flag (r # rs) = x # ?rest"
      "start_byte x = max (start_byte r) ns - ns" "end_byte x = min (end_byte r) ne - ns"
      using False by (simp add: Let_def)
    have order: "in_order rs" using Cons.prems by simp
    note ih' = ih(1) [OF order Cons.prems(2)]
    have after: "end_byte x \<le> start_byte t" if t: "t \<in> set ?rest" for t
    proof -
      obtain p where p: "p \<in> set rs" "start_byte p \<le> start_byte t + ns"
        using ih' t by blast
      have "end_byte r \<le> start_byte p" using Cons.prems p(1) by simp
      then have "min (end_byte r) ne - ns \<le> start_byte t" using p(2) by linarith
      then show ?thesis by (simp only: x(3))
    qed
    have bytes: "start_byte x + ns = max (start_byte r) ns" "end_byte x + ns = min (end_byte r) ne"
      using meet(2) by (simp_all add: x(2,3))
    have seg: "{start_byte x + ns..<end_byte x + ns} = {start_byte r..<end_byte r} \<inter> {ns..<ne}"
      "start_byte x < end_byte x" "start_byte r \<le> start_byte x + ns"
    proof -
      show "{start_byte x + ns..<end_byte x + ns} = {start_byte r..<end_byte r} \<inter> {ns..<ne}"
        by (simp only: bytes meet(1))
      show "start_byte x < end_byte x" using meet(2) bytes by linarith
      show "start_byte r \<le> start_byte x + ns" unfolding bytes(1) by simp
    qed
    show ?thesis
      unfolding x(1)
    proof (intro conjI)
      show "shifted ns (covered (x # ?rest)) = covered (r # rs) \<inter> {ns..<ne}"
        using ih' by (simp add: seg(1) Int_Un_distrib2)
      show "in_order (x # ?rest)" using ih' after seg(2) by simp
      show "\<forall>t \<in> set (x # ?rest). \<exists>p \<in> set (r # rs). start_byte p \<le> start_byte t + ns"
        using ih' seg(3) by auto
      show "x # ?rest = [] \<longleftrightarrow> covered (r # rs) \<inter> {ns..<ne} = {}"
        using meet by (auto simp: Int_Un_distrib2)
    qed
  qed
qed simp

text \<open>
  Intersecting two sets of included ranges leaves exactly the bytes in both, and clipping
  the parent's ranges to a nested window leaves exactly the parent's bytes in the window,
  counted from its start; both results are in order without overlap, and the clipped set is
  absent exactly when it would be empty, so that an excluded byte is never parsed again.
\<close>

lemma range_algebra_correct:
  assumes "in_order a" "in_order b" "ns < ne"
  shows "covered (intersect_included_ranges a b) = covered a \<inter> covered b \<and>
    in_order (intersect_included_ranges a b) \<and>
    (case sub_select_included_ranges a ns ne of
       None \<Rightarrow> covered a \<inter> {ns..<ne} = {}
     | Some rs \<Rightarrow> shifted ns (covered rs) = covered a \<inter> {ns..<ne} \<and> in_order rs \<and> rs \<noteq> [])"
proof (intro conjI)
  show "covered (intersect_included_ranges a b) = covered a \<inter> covered b"
    using assms by (simp add: intersect_covered)
  show "in_order (intersect_included_ranges a b)"
    using assms by (simp add: intersect_in_order)
  note sel = sub_select_loop_correct [OF assms(1,3)]
  show "case sub_select_included_ranges a ns ne of
       None \<Rightarrow> covered a \<inter> {ns..<ne} = {}
     | Some rs \<Rightarrow> shifted ns (covered rs) = covered a \<inter> {ns..<ne} \<and> in_order rs \<and> rs \<noteq> []"
  proof (cases "List.find (\<lambda>r. end_byte r > ns \<and> start_byte r < ne) a")
    case None
    have "n \<notin> {ns..<ne}" if n: "n \<in> covered a" for n
    proof -
      obtain r where r: "r \<in> set a" "start_byte r \<le> n" "n < end_byte r" using n by (auto simp: covered_def)
      have "\<not> (ns < end_byte r \<and> start_byte r < ne)"
        using None r(1) unfolding find_None_iff by blast
      with r show ?thesis by auto
    qed
    then have "covered a \<inter> {ns..<ne} = {}" by blast
    with None show ?thesis by (simp add: sub_select_included_ranges_def)
  next
    case (Some r)
    with sel show ?thesis by (simp add: sub_select_included_ranges_def Let_def)
  qed
qed

section \<open>A sample\<close>

definition sample_quote :: rstr where
  "sample_quote = [97, 10, 62, 32, 98, 10]"

definition sample_content :: ts_node where
  "sample_content =
     \<lparr>node_range = \<lparr>start_byte = 0, end_byte = 6, start_point = \<lparr>pt_row = 0, pt_column = 0\<rparr>,
        end_point = \<lparr>pt_row = 2, pt_column = 0\<rparr>\<rparr>,
      named_children = [\<lparr>start_byte = 2, end_byte = 4, start_point = \<lparr>pt_row = 1, pt_column = 0\<rparr>,
        end_point = \<lparr>pt_row = 1, pt_column = 2\<rparr>\<rparr>]\<rparr>"

lemma included_ranges_correct_witness:
  "\<exists>rs. compute_included_ranges_clipped sample_content False sample_quote (0, 6) = Some rs \<and>
      shifted 0 (covered rs) = uncovered 0 6 (named_children sample_content)"
proof -
  have 1: "children_ok (named_children sample_content)"
    by (simp add: children_ok_def sample_content_def)
  have 2: "points_true sample_quote (node_range sample_content)"
    "\<forall>c \<in> set (named_children sample_content). points_true sample_quote c"
    by (simp_all add: points_true_def sample_content_def sample_quote_def byte_to_point_eq point_of_def
        len_utf8_def blen_def)
  have 3: "is_char_boundary sample_quote 0" by simp
  show ?thesis
    using included_ranges_correct [OF 1 2 3, where we = 6 and include_children = False]
    by (auto simp: sample_content_def split: option.splits)
qed

end
