(* ===== verification/Effective_Range.thy ===== *)
theory Effective_Range
  imports Injection_Ranges
begin

text \<open>
  \<open>src/src/analysis/offset_calculator.rs\<close>: the window that an \<open>#offset!\<close> directive leaves of
  an injection. The code walks from the position to the target row; the specification lists
  the starts of all rows and picks one.
\<close>

record injection_offset =
  off_start_row :: int
  off_start_column :: int
  off_end_row :: int
  off_end_column :: int

definition apply_column_offset :: "nat \<Rightarrow> int \<Rightarrow> nat" where
  "apply_column_offset base off =
     (let result = int base + off
      in if result \<le> 0 then 0 else if nat result \<le> usize_max then nat result else usize_max)"

fun find_lf_from :: "rstr \<Rightarrow> nat \<Rightarrow> nat option" where
  "find_lf_from [] k = None"
| "find_lf_from (c # s) k = (if c = LF then Some k else find_lf_from s (k + len_utf8 c))"

fun rows_down :: "rstr \<Rightarrow> nat \<Rightarrow> nat \<Rightarrow> nat" where
  "rows_down s 0 pos = pos"
| "rows_down s (Suc n) pos =
     (case find_lf_from (bdrop s pos) 0 of
        Some nl \<Rightarrow> rows_down s n (pos + nl + 1)
      | None \<Rightarrow> pos)"

fun rows_up :: "rstr \<Rightarrow> nat \<Rightarrow> nat \<Rightarrow> nat" where
  "rows_up s 0 pos = pos"
| "rows_up s (Suc n) pos =
     (if pos = 0 then pos
      else rows_up s n (case rfind_lf_from (btake s (pos - 1)) 0 of Some i \<Rightarrow> i + 1 | None \<Rightarrow> 0))"

definition apply_offset_to_position :: "rstr \<Rightarrow> nat \<Rightarrow> int \<Rightarrow> int \<Rightarrow> nat" where
  "apply_offset_to_position s byte_pos row_offset col_offset =
     (if row_offset = 0 then apply_column_offset byte_pos col_offset
      else let snapped_byte_pos = floor_char_boundary s byte_pos;
               current_line_start =
                 (case rfind_lf_from (btake s snapped_byte_pos) 0 of Some i \<Rightarrow> i + 1 | None \<Rightarrow> 0);
               target_line_start =
                 (if row_offset > 0 then rows_down s (nat row_offset) current_line_start
                  else rows_up s (nat \<bar>row_offset\<bar>) current_line_start);
               original_column = snapped_byte_pos - current_line_start
           in apply_column_offset (target_line_start + original_column) col_offset)"

definition calculate_effective_range :: "rstr \<Rightarrow> nat \<times> nat \<Rightarrow> injection_offset \<Rightarrow> nat \<times> nat" where
  "calculate_effective_range s byte_range off =
     (let (raw_start, raw_end) =
            (if off_start_row off = 0 \<and> off_end_row off = 0
             then (apply_column_offset (fst byte_range) (off_start_column off),
                   apply_column_offset (snd byte_range) (off_end_column off))
             else (apply_offset_to_position s (fst byte_range) (off_start_row off) (off_start_column off),
                   apply_offset_to_position s (snd byte_range) (off_end_row off) (off_end_column off)));
          snapped_start = ceil_char_boundary s (min raw_start (blen s));
          snapped_end = floor_char_boundary s (min raw_end (blen s))
      in if snapped_start \<le> snapped_end then (snapped_start, snapped_end)
         else (snapped_end, snapped_end))"

section \<open>Row starts\<close>

fun row_starts_from :: "rstr \<Rightarrow> nat \<Rightarrow> nat list" where
  "row_starts_from [] k = []"
| "row_starts_from (c # s) k =
     (if c = LF then (k + 1) # row_starts_from s (k + 1) else row_starts_from s (k + len_utf8 c))"

definition row_starts :: "rstr \<Rightarrow> nat list" where
  "row_starts s = 0 # row_starts_from s 0"

lemma row_starts_append: "row_starts_from (s @ t) k = row_starts_from s k @ row_starts_from t (k + blen s)"
  by (induction s arbitrary: k) (auto simp: add.assoc)

lemma row_starts_no_lf: "row_starts_from s k = [] \<longleftrightarrow> LF \<notin> set s"
  by (induction s arbitrary: k) auto

lemma find_lf_Some:
  assumes "find_lf_from s k = Some i"
  shows "\<exists>p q. s = p @ LF # q \<and> LF \<notin> set p \<and> i = k + blen p"
  using assms
proof (induction s arbitrary: k)
  case (Cons c s)
  show ?case
  proof (cases "c = LF")
    case True
    with Cons.prems show ?thesis by (intro exI [of _ "[]"] exI [of _ s]) auto
  next
    case False
    with Cons obtain p q where "s = p @ LF # q" "LF \<notin> set p" "i = k + len_utf8 c + blen p" by force
    with False show ?thesis by (intro exI [of _ "c # p"] exI [of _ q]) auto
  qed
qed simp

lemma find_lf_None: "find_lf_from s k = None \<longleftrightarrow> LF \<notin> set s"
  by (induction s arbitrary: k) auto

lemma row_starts_cut: "LF \<notin> set p \<Longrightarrow> row_starts_from (p @ LF # q) k = (k + blen p + 1) # row_starts_from q (k + blen p + 1)"
  by (simp add: row_starts_append row_starts_no_lf [THEN iffD2])

lemma rows_down_eq:
  assumes "s = p @ q"
  shows "rows_down s n (blen p) =
    (blen p # row_starts_from q (blen p)) ! min n (length (row_starts_from q (blen p)))"
  using assms
proof (induction n arbitrary: p q)
  case (Suc n)
  show ?case
  proof (cases "find_lf_from q 0")
    case None
    then have "row_starts_from q (blen p) = []" by (simp add: find_lf_None row_starts_no_lf)
    with None Suc.prems show ?thesis by simp
  next
    case (Some i)
    then obtain l r where q: "q = l @ LF # r" "LF \<notin> set l" "i = blen l"
      using find_lf_Some by fastforce
    have "rows_down s n (blen (p @ l @ [LF])) =
        (blen (p @ l @ [LF]) # row_starts_from r (blen (p @ l @ [LF]))) !
          min n (length (row_starts_from r (blen (p @ l @ [LF]))))"
      using Suc.prems q by (intro Suc.IH) simp
    with Some Suc.prems q show ?thesis
      by (simp add: row_starts_cut add.assoc)
  qed
qed simp

lemma last_row_start:
  "last (row_starts s) = blen s - blen (last_row s)"
proof (induction s rule: rev_induct)
  case (snoc c s)
  have "blen (last_row s) \<le> blen s"
    by (cases "LF \<in> set s") (auto simp: last_row_no_lf dest: blen_last_row)
  with snoc show ?case
    by (auto simp: row_starts_def row_starts_append last_row_append)
qed (simp add: row_starts_def)

lemma line_start_eq:
  "(case rfind_lf_from s 0 of Some i \<Rightarrow> i + 1 | None \<Rightarrow> 0) = last (row_starts s)"
  using blen_last_row [of s] by (auto simp: rfind_lf_eq last_row_start last_row_no_lf)

lemma last_row_split: "\<exists>p. s = p @ last_row s \<and> (p = [] \<or> last p = LF) \<and> LF \<notin> set (last_row s)"
proof (induction s)
  case (Cons c s)
  then obtain p where p: "s = p @ last_row s" "p = [] \<or> last p = LF" "LF \<notin> set (last_row s)" by blast
  show ?case
  proof (cases "LF \<in> set s")
    case True
    with p have "p \<noteq> []" by (metis append_Nil)
    with True p show ?thesis by (intro exI [of _ "c # p"]) auto
  next
    case False
    then show ?thesis
      by (cases "c = LF") (auto intro: exI [of _ "[LF]"] exI [of _ "[]"])
  qed
qed simp

lemma row_starts_last_row: "LF \<notin> set t \<Longrightarrow> row_starts (s @ t) = row_starts s"
  by (simp add: row_starts_def row_starts_append row_starts_no_lf [THEN iffD2])

lemma row_starts_not_Nil [simp]: "row_starts s \<noteq> []" "0 < length (row_starts s)"
  by (simp_all add: row_starts_def)

lemma rows_up_eq:
  assumes "s = p @ q" "p = [] \<or> last p = LF"
  shows "rows_up s n (blen p) = row_starts p ! (length (row_starts p) - 1 - n)"
  using assms
proof (induction n arbitrary: p q)
  case 0
  have "row_starts p ! (length (row_starts p) - 1) = last (row_starts p)"
    by (simp add: last_conv_nth)
  also have "\<dots> = blen p"
    using 0(2) by (cases p rule: rev_cases) (simp_all add: row_starts_def row_starts_append)
  finally show ?case by simp
next
  case (Suc n)
  show ?case
  proof (cases "p = []")
    case True
    then show ?thesis by (simp add: row_starts_def)
  next
    case False
    then obtain p' where p': "p = p' @ [LF]" using Suc.prems(2) by (metis append_butlast_last_id)
    obtain l where l: "p' = l @ last_row p'" "l = [] \<or> last l = LF" "LF \<notin> set (last_row p')"
      using last_row_split [of p'] by blast
    have starts: "row_starts p' = row_starts l"
      using row_starts_last_row [OF l(3), of l] by (simp flip: l(1))
    have "blen p' = blen l + blen (last_row p')" using arg_cong [OF l(1), of blen] by simp
    then have start: "(case rfind_lf_from p' 0 of Some i \<Rightarrow> i + 1 | None \<Rightarrow> 0) = blen l"
      by (simp add: line_start_eq last_row_start)
    have "btake s (blen p - 1) = p'" using Suc.prems(1) p' by simp
    then have "rows_up s (Suc n) (blen p) = rows_up s n (blen l)"
      using p' start by simp
    also have "\<dots> = row_starts l ! (length (row_starts l) - 1 - n)"
      using Suc.prems(1) p' l by (intro Suc.IH [of l "last_row p' @ LF # q"]) (metis append.assoc append_Cons append_Nil, simp)
    also have "\<dots> = row_starts p ! (length (row_starts p) - 1 - Suc n)"
    proof -
      have "row_starts p = row_starts l @ [blen p]"
        using starts p' by (simp add: row_starts_def row_starts_append)
      moreover have "length (row_starts l) - 1 - n < length (row_starts l)"
        using row_starts_not_Nil(2) [of l] by linarith
      ultimately show ?thesis by (simp add: nth_append)
    qed
    finally show ?thesis .
  qed
qed

section \<open>Moving a position by rows and columns\<close>

text \<open>The row of a position, moved and kept among the rows, with the position's column moved.\<close>

definition moved_position :: "rstr \<Rightarrow> nat \<Rightarrow> int \<Rightarrow> int \<Rightarrow> nat" where
  "moved_position s byte_pos row_offset col_offset =
     (let p = floor_char_boundary s byte_pos;
          starts = row_starts s;
          row = length (filter (\<lambda>x. x \<le> p) starts) - 1;
          target = nat (max 0 (min (int (length starts) - 1) (int row + row_offset)))
      in apply_column_offset (starts ! target + (p - starts ! row)) col_offset)"

lemma row_starts_bounds: "x \<in> set (row_starts_from s k) \<Longrightarrow> k < x \<and> x \<le> k + blen s"
  by (induction s arbitrary: k) (fastforce split: if_splits)+

lemma apply_offset_eq_moved:
  assumes "row_offset \<noteq> 0"
  shows "apply_offset_to_position s byte_pos row_offset col_offset = moved_position s byte_pos row_offset col_offset"
proof -
  define b where "b = floor_char_boundary s byte_pos"
  obtain p q where pq: "s = p @ q" "blen p = b"
    using floor_is_boundary [of s byte_pos] by (auto simp: boundary_iff_prefix b_def)
  obtain l where l: "p = l @ last_row p" "l = [] \<or> last l = LF" "LF \<notin> set (last_row p)"
    using last_row_split [of p] by blast
  have blen_p: "blen p = blen l + blen (last_row p)" using arg_cong [OF l(1), of blen] by simp
  have "btake s b = p" using pq by auto
  then have start: "(case rfind_lf_from (btake s b) 0 of Some i \<Rightarrow> i + 1 | None \<Rightarrow> 0) = blen l"
    using blen_p by (simp add: line_start_eq last_row_start)
  have starts: "row_starts s = row_starts l @ row_starts_from q b"
    using row_starts_last_row [OF l(3), of l] pq by (simp add: row_starts_def row_starts_append flip: l(1))
  have "x \<le> b" if "x \<in> set (row_starts l)" for x
    using that row_starts_bounds [of x l 0] blen_p pq by (auto simp: row_starts_def)
  then have "filter (\<lambda>x. x \<le> b) (row_starts l) = row_starts l" by simp
  moreover have "filter (\<lambda>x. x \<le> b) (row_starts_from q b) = []"
    using row_starts_bounds [of _ q b] by (fastforce simp: filter_empty_conv)
  ultimately have row: "length (filter (\<lambda>x. x \<le> b) (row_starts s)) - 1 = length (row_starts l) - 1"
    by (simp add: starts)
  have at_row: "row_starts s ! (length (row_starts l) - 1) = blen l"
  proof -
    have "row_starts s ! (length (row_starts l) - 1) = last (row_starts l)"
      by (simp add: starts nth_append last_conv_nth)
    also have "\<dots> = blen l"
      using l(2) by (cases l rule: rev_cases) (simp_all add: row_starts_def row_starts_append)
    finally show ?thesis .
  qed
  let ?n = "length (row_starts l)"
  have target: "(if row_offset > 0 then rows_down s (nat row_offset) (blen l)
      else rows_up s (nat \<bar>row_offset\<bar>) (blen l)) =
    row_starts s ! nat (max 0 (min (int (length (row_starts s)) - 1) (int (?n - 1) + row_offset)))"
  proof (cases "row_offset > 0")
    case True
    let ?R = "row_starts_from q b" and ?k = "min (nat row_offset) (length (row_starts_from q b))"
    have s: "s = l @ last_row p @ q" using l(1) pq(1) by simp
    have "row_starts_from (last_row p @ q) (blen l) = ?R"
      using row_starts_no_lf [of "last_row p" "blen l"] l(3) blen_p pq by (simp add: row_starts_append)
    then have "rows_down s (nat row_offset) (blen l) = (blen l # ?R) ! ?k"
      using rows_down_eq [OF s, of "nat row_offset"] by simp
    also have "\<dots> = (butlast (row_starts l) @ blen l # ?R) ! (?n - 1 + ?k)"
      by (simp add: nth_append)
    also have "butlast (row_starts l) @ blen l # ?R = row_starts s"
      using at_row append_butlast_last_id [OF row_starts_not_Nil(1) [of l]]
      by (simp add: starts nth_append last_conv_nth)
    also have "?n - 1 + ?k = nat (max 0 (min (int (length (row_starts s)) - 1) (int (?n - 1) + row_offset)))"
    proof -
      obtain m where "?n = Suc m" using row_starts_not_Nil(2) [of l] by (metis Suc_pred)
      then show ?thesis using True by (simp add: starts)
    qed
    finally show ?thesis using True by simp
  next
    case False
    have "s = l @ (last_row p @ q)" using l(1) pq(1) by simp
    then have "rows_up s (nat \<bar>row_offset\<bar>) (blen l) = row_starts l ! (?n - 1 - nat \<bar>row_offset\<bar>)"
      using rows_up_eq l(2) by blast
    also have "\<dots> = row_starts s ! (?n - 1 - nat \<bar>row_offset\<bar>)"
      using row_starts_not_Nil(2) [of l] by (simp add: starts nth_append)
    also have "?n - 1 - nat \<bar>row_offset\<bar> =
        nat (max 0 (min (int (length (row_starts s)) - 1) (int (?n - 1) + row_offset)))"
      using False assms row_starts_not_Nil(2) [of l] by (simp add: starts)
    finally show ?thesis using False by simp
  qed
  show ?thesis
    unfolding apply_offset_to_position_def moved_position_def Let_def b_def [symmetric] start row at_row target
    using assms by simp
qed

text \<open>Where an end of the range is moved to, before it is made a place of the text.\<close>

definition moved_end :: "rstr \<Rightarrow> nat \<Rightarrow> int \<Rightarrow> int \<Rightarrow> nat" where
  "moved_end s byte row_offset col_offset =
     (if row_offset = 0 then apply_column_offset byte col_offset
      else moved_position s byte row_offset col_offset)"

text \<open>
  C16: For every text, range and offset directive, however far it points, the effective range
  is a slice of the text: its ends are character boundaries in order and within the text. They
  are the ends of the range moved by rows and columns, as read off the list of all row starts,
  and shrunk to character boundaries.
\<close>

theorem effective_range_correct:
  "case calculate_effective_range s (a, b) off of (lo, hi) \<Rightarrow>
     lo \<le> hi \<and> hi \<le> blen s \<and> is_char_boundary s lo \<and> is_char_boundary s hi \<and>
     hi = floor_char_boundary s (moved_end s b (off_end_row off) (off_end_column off)) \<and>
     lo = min (ceil_char_boundary s
                 (min (moved_end s a (off_start_row off) (off_start_column off)) (blen s))) hi"
proof -
  have raw: "(if off_start_row off = 0 \<and> off_end_row off = 0
       then (apply_column_offset a (off_start_column off), apply_column_offset b (off_end_column off))
       else (apply_offset_to_position s a (off_start_row off) (off_start_column off),
             apply_offset_to_position s b (off_end_row off) (off_end_column off))) =
    (moved_end s a (off_start_row off) (off_start_column off),
     moved_end s b (off_end_row off) (off_end_column off))"
    by (auto simp: moved_end_def apply_offset_eq_moved) (simp_all add: apply_offset_to_position_def)
  show ?thesis
    unfolding calculate_effective_range_def fst_conv snd_conv raw by (simp add: Let_def min_le_iff_disj)
qed

end
