(* ===== verification/Injection_Content.thy ===== *)
theory Injection_Content
  imports Injection_Ranges Region_Edits
begin

text \<open>
  \<open>src/src/language/injection/content.rs\<close>: the text of an injection with its excluded bytes
  taken out, and the column offset of each of its lines, which are what a virtual document and
  its region offset are made of. A text laid out in pieces is where the two fit together.
\<close>

section \<open>Clean content\<close>


section \<open>Column offsets\<close>





section \<open>Scanning\<close>







section \<open>Pieces of a host text\<close>











section \<open>What is extracted\<close>









section \<open>A sample\<close>





end
