(* ===== verification/Crash_Recovery.thy ===== *)
theory Crash_Recovery
  imports Histories
begin

text \<open>
  \<open>lsp/bridge/pool/crash_recovery.rs\<close>: when a crashed downstream connection is respawned
  without anybody asking for it. The registry keeps a state per connection key under one
  mutex, so every operation is one step, save for \<open>stand_down\<close>, which takes the mutex twice; the
  specification reads the trace of what callers
  were told and which respawns they committed to.
\<close>

section \<open>The registry\<close>

text \<open>A \<open>Duration\<close> is its number of nanoseconds.\<close>

type_synonym duration = nat

definition from_secs :: "nat \<Rightarrow> duration" where
  "from_secs n = n * 1000000000"

definition first_retry_delay :: duration where
  "first_retry_delay = from_secs 2"

definition max_consecutive_attempts :: nat where
  "max_consecutive_attempts = 5"

definition healthy_period :: duration where
  "healthy_period = from_secs 300"

record key_state =
  attempts :: nat
  scheduled :: "nat option"
  next_reservation :: nat
  gave_up :: bool
  missed :: bool

definition key_state_default :: key_state where
  "key_state_default =
     \<lparr>attempts = 0, scheduled = None, next_reservation = 0, gave_up = False, missed = False\<rparr>"

datatype recovery_decision =
    Retry (retry_attempt: nat) (retry_delay: duration) (retry_reservation: nat)
  | AlreadyScheduled
  | GiveUp nat
  | Exhausted

type_synonym 'k registry = "'k \<rightharpoonup> key_state"

definition or_default :: "'k registry \<Rightarrow> 'k \<Rightarrow> key_state" where
  "or_default keys key = (case keys key of Some st \<Rightarrow> st | None \<Rightarrow> key_state_default)"

definition schedule :: "'k \<Rightarrow> duration \<Rightarrow> 'k registry \<Rightarrow> recovery_decision \<times> 'k registry" where
  "schedule key uptime keys =
     (let st = or_default keys key
      in if scheduled st \<noteq> None
         then (AlreadyScheduled, keys(key \<mapsto> st\<lparr>missed := True\<rparr>))
         else let st = (if uptime \<ge> healthy_period
                        then st\<lparr>attempts := 0, gave_up := False, missed := False\<rparr> else st)
              in if attempts st \<ge> max_consecutive_attempts
                 then if gave_up st then (Exhausted, keys(key \<mapsto> st))
                      else (GiveUp (attempts st), keys(key \<mapsto> st\<lparr>gave_up := True\<rparr>))
                 else let st = st\<lparr>attempts := attempts st + 1,
                                 next_reservation := next_reservation st + 1,
                                 scheduled := Some (next_reservation st + 1)\<rparr>
                      in (Retry (attempts st) (first_retry_delay * 2 ^ (attempts st - 1))
                            (next_reservation st), keys(key \<mapsto> st)))"

definition begin_attempt :: "'k \<Rightarrow> nat \<Rightarrow> 'k registry \<Rightarrow> 'k registry" where
  "begin_attempt key reservation keys =
     (case keys key of
        Some st \<Rightarrow>
          if scheduled st = Some reservation
          then keys(key \<mapsto> st\<lparr>scheduled := None, missed := False\<rparr>) else keys
      | None \<Rightarrow> keys)"

text \<open>The part of \<open>stand_down\<close> under the lock, and whether a crash is owed a recovery.\<close>

definition give_back :: "'k \<Rightarrow> nat \<Rightarrow> 'k registry \<Rightarrow> bool \<times> 'k registry" where
  "give_back key reservation keys =
     (case keys key of
        None \<Rightarrow> (False, keys)
      | Some st \<Rightarrow>
          if scheduled st \<noteq> Some reservation then (False, keys)
          else (missed st, keys(key \<mapsto> st\<lparr>scheduled := None, attempts := attempts st - 1, missed := False\<rparr>)))"

definition stand_down :: "'k \<Rightarrow> nat \<Rightarrow> 'k registry \<Rightarrow> recovery_decision option \<times> 'k registry" where
  "stand_down key reservation keys =
     (let (owed, keys) = give_back key reservation keys
      in if owed then (let (decision, keys) = schedule key 0 keys in (Some decision, keys))
         else (None, keys))"

section \<open>Histories\<close>

text \<open>
  What its callers do with the registry, and what happens: the answer to a crash, a respawn that
  was committed to, and a recovery that stood down. Callers may present any reservation. The lock is
  free between the two halves of \<open>stand_down\<close>: where another caller takes it there, the first half is
  \<open>Give_Back\<close> and the second a later \<open>Crashed\<close> without uptime, with any steps in between.
\<close>

datatype 'k recovery_op = Crashed 'k duration | Begin 'k nat | Stand_Down 'k nat | Give_Back 'k nat

datatype 'k recovery_event =
    Answered 'k duration recovery_decision
  | Respawned 'k
  | Stood_Down 'k

definition holds_schedule :: "'k registry \<Rightarrow> 'k \<Rightarrow> nat \<Rightarrow> bool" where
  "holds_schedule keys key reservation \<longleftrightarrow> scheduled (or_default keys key) = Some reservation"

fun recovery_step ::
  "'k recovery_op \<Rightarrow> 'k registry \<times> 'k recovery_event list \<Rightarrow> 'k registry \<times> 'k recovery_event list" where
  "recovery_step (Crashed k uptime) (keys, tr) =
     (let (decision, keys) = schedule k uptime keys in (keys, tr @ [Answered k uptime decision]))"
| "recovery_step (Begin k r) (keys, tr) =
     (begin_attempt k r keys, if holds_schedule keys k r then tr @ [Respawned k] else tr)"
| "recovery_step (Stand_Down k r) (keys, tr) =
     (let (decision, keys') = stand_down k r keys
      in (keys', (if holds_schedule keys k r then tr @ [Stood_Down k] else tr) @
                 (case decision of None \<Rightarrow> [] | Some d \<Rightarrow> [Answered k 0 d])))"
| "recovery_step (Give_Back k r) (keys, tr) =
     (snd (give_back k r keys), if holds_schedule keys k r then tr @ [Stood_Down k] else tr)"

definition recovery_run :: "'k recovery_op list \<Rightarrow> 'k registry \<times> 'k recovery_event list" where
  "recovery_run ops = fold recovery_step ops (Map.empty, [])"

section \<open>Reading a trace\<close>

text \<open>
  What a reader of the trace knows of a key: the respawns since a crash that ended a healthy
  run, whether a recovery is waiting out its delay, whether that recovery has absorbed a
  crash, whether giving up has been reported, and how many reservations were issued.
\<close>

record recovery_view =
  respawns :: nat
  waiting :: bool
  owed :: bool
  reported :: bool
  issued :: nat

fun see :: "'k \<Rightarrow> 'k recovery_event \<Rightarrow> recovery_view \<Rightarrow> recovery_view" where
  "see k (Answered k' uptime d) v =
     (if k' \<noteq> k then v
      else if d = AlreadyScheduled then v\<lparr>owed := True\<rparr>
      else let v = (if uptime \<ge> healthy_period then v\<lparr>respawns := 0, reported := False\<rparr> else v)
           in case d of
                Retry _ _ _ \<Rightarrow> v\<lparr>waiting := True, owed := False, issued := issued v + 1\<rparr>
              | GiveUp _ \<Rightarrow> v\<lparr>reported := True\<rparr>
              | _ \<Rightarrow> v)"
| "see k (Respawned k') v =
     (if k' \<noteq> k then v else v\<lparr>respawns := respawns v + 1, waiting := False, owed := False\<rparr>)"
| "see k (Stood_Down k') v = (if k' \<noteq> k then v else v\<lparr>waiting := False, owed := False\<rparr>)"

definition view_of :: "'k \<Rightarrow> 'k recovery_event list \<Rightarrow> recovery_view" where
  "view_of k tr = fold (see k) tr
     \<lparr>respawns = 0, waiting = False, owed = False, reported = False, issued = 0\<rparr>"

text \<open>The answer the documentation promises, from what a reader of the trace knows.\<close>

definition promised :: "duration \<Rightarrow> recovery_view \<Rightarrow> recovery_decision" where
  "promised uptime v =
     (if waiting v then AlreadyScheduled
      else let n = (if uptime \<ge> healthy_period then 0 else respawns v)
           in if n < max_consecutive_attempts
              then Retry (n + 1) (from_secs (2 ^ (n + 1))) (issued v + 1)
              else if reported v then Exhausted else GiveUp max_consecutive_attempts)"

definition view_ok :: "recovery_view \<Rightarrow> bool" where
  "view_ok v \<longleftrightarrow> respawns v + of_bool (waiting v) \<le> max_consecutive_attempts \<and>
     (reported v \<longrightarrow> respawns v = max_consecutive_attempts) \<and> (owed v \<longrightarrow> waiting v)"

definition state_for :: "recovery_view \<Rightarrow> key_state" where
  "state_for v =
     \<lparr>attempts = respawns v + of_bool (waiting v),
      scheduled = (if waiting v then Some (issued v) else None),
      next_reservation = issued v, gave_up = reported v, missed = owed v\<rparr>"

text \<open>A trace in which every answer is as promised and only a waiting recovery ends its wait.\<close>

definition allowed :: "'k \<Rightarrow> 'k recovery_event \<Rightarrow> recovery_view \<Rightarrow> bool" where
  "allowed k e v \<longleftrightarrow>
     (case e of
        Answered k' uptime d \<Rightarrow> k' = k \<longrightarrow> d = promised uptime v
      | Respawned k' \<Rightarrow> k' = k \<longrightarrow> waiting v
      | Stood_Down k' \<Rightarrow> k' = k \<longrightarrow> waiting v)"

definition plausible :: "'k \<Rightarrow> 'k recovery_event list \<Rightarrow> bool" where
  "plausible k tr \<longleftrightarrow> (\<forall>p e q. tr = p @ e # q \<longrightarrow> allowed k e (view_of k p))"

definition recovery_ok :: "'k registry \<times> 'k recovery_event list \<Rightarrow> bool" where
  "recovery_ok s \<longleftrightarrow>
     (\<forall>k. plausible k (snd s) \<and> or_default (fst s) k = state_for (view_of k (snd s)))"

lemma view_of_Nil: "view_of k [] =
    \<lparr>respawns = 0, waiting = False, owed = False, reported = False, issued = 0\<rparr>"
  by (simp add: view_of_def)

lemma view_of_snoc [simp]: "view_of k (tr @ [e]) = see k e (view_of k tr)"
  by (simp add: view_of_def)

lemma or_default_upd [simp]:
  "or_default (keys(k \<mapsto> st)) k' = (if k' = k then st else or_default keys k')"
  by (simp add: or_default_def)

lemmas recovery_bounds =
  max_consecutive_attempts_def healthy_period_def first_retry_delay_def from_secs_def

lemma attempts_positive: "0 < max_consecutive_attempts"
  by (simp add: max_consecutive_attempts_def)

section \<open>Traces\<close>

lemma plausible_Nil: "plausible k []"
  by (simp add: plausible_def)

lemma plausible_snoc: "plausible k (tr @ [e]) \<longleftrightarrow> plausible k tr \<and> allowed k e (view_of k tr)"
proof
  assume l: "plausible k (tr @ [e])"
  then have "plausible k tr" by (auto simp: plausible_def)
  with l show "plausible k tr \<and> allowed k e (view_of k tr)" by (simp add: plausible_def)
next
  assume r: "plausible k tr \<and> allowed k e (view_of k tr)"
  show "plausible k (tr @ [e])"
    unfolding plausible_def
  proof (intro allI impI)
    fix p x q assume eq: "tr @ [e] = p @ x # q"
    show "allowed k x (view_of k p)"
    proof (cases q rule: rev_cases)
      case Nil
      then show ?thesis using eq r by simp
    next
      case (snoc q' y)
      then show ?thesis using eq r by (simp add: plausible_def)
    qed
  qed
qed

lemma see_ok: "view_ok v \<Longrightarrow> allowed k e v \<Longrightarrow> view_ok (see k e v)"
  using attempts_positive
  by (cases e) (auto simp: allowed_def view_ok_def promised_def Let_def)

lemma plausible_ok: "plausible k tr \<Longrightarrow> view_ok (view_of k tr)"
proof (induction tr rule: rev_induct)
  case Nil
  show ?case by (simp add: view_of_Nil view_ok_def)
next
  case (snoc e tr)
  then show ?case by (simp add: plausible_snoc see_ok)
qed

section \<open>One step\<close>

text \<open>A crash is answered as promised, and the state follows the trace.\<close>

lemma schedule_follows:
  assumes "view_ok v" "or_default keys k = state_for v"
  shows "fst (schedule k uptime keys) = promised uptime v"
    and "or_default (snd (schedule k uptime keys)) k = state_for (see k (Answered k uptime (promised uptime v)) v)"
    and "k' \<noteq> k \<Longrightarrow> or_default (snd (schedule k uptime keys)) k' = or_default keys k'"
  using assms attempts_positive
  by (auto simp: schedule_def state_for_def promised_def view_ok_def Let_def first_retry_delay_def
      from_secs_def)

lemma holds_iff:
  "or_default keys k = state_for v \<Longrightarrow> holds_schedule keys k r \<longleftrightarrow> waiting v \<and> r = issued v"
  by (auto simp: holds_schedule_def state_for_def)

lemma begin_follows:
  assumes "view_ok v" "or_default keys k = state_for v"
  shows "holds_schedule keys k r \<Longrightarrow>
      or_default (begin_attempt k r keys) k = state_for (see k (Respawned k) v)"
    and "\<not> holds_schedule keys k r \<Longrightarrow> begin_attempt k r keys = keys"
    and "k' \<noteq> k \<Longrightarrow> or_default (begin_attempt k r keys) k' = or_default keys k'"
  using assms
  by (auto simp: begin_attempt_def holds_schedule_def or_default_def state_for_def view_ok_def
      key_state_default_def split: option.splits)

lemma give_back_idle: "\<not> holds_schedule keys k r \<Longrightarrow> give_back k r keys = (False, keys)"
  by (auto simp: give_back_def holds_schedule_def or_default_def split: option.splits)

lemma give_back_holds:
  assumes "view_ok v" "or_default keys k = state_for v" "holds_schedule keys k r"
  shows "fst (give_back k r keys) = owed v"
    and "or_default (snd (give_back k r keys)) k = state_for (see k (Stood_Down k) v)"
    and "k' \<noteq> k \<Longrightarrow> or_default (snd (give_back k r keys)) k' = or_default keys k'"
  using assms
  by (auto simp: give_back_def holds_schedule_def or_default_def state_for_def view_ok_def
      key_state_default_def split: option.splits)

lemma stand_down_idle: "\<not> holds_schedule keys k r \<Longrightarrow> stand_down k r keys = (None, keys)"
  by (simp add: stand_down_def give_back_idle)

section \<open>Every history\<close>

lemma see_other: "k' \<noteq> k \<Longrightarrow> see k (Answered k' uptime d) v = v"
  "k' \<noteq> k \<Longrightarrow> see k (Respawned k') v = v" "k' \<noteq> k \<Longrightarrow> see k (Stood_Down k') v = v"
  by simp_all

lemma recovery_okD:
  assumes "recovery_ok (keys, tr)"
  shows "plausible k tr" "or_default keys k = state_for (view_of k tr)" "view_ok (view_of k tr)"
  using assms by (simp_all add: recovery_ok_def plausible_ok)

lemma recovery_okI:
  assumes "\<And>k. plausible k tr" "\<And>k. or_default keys k = state_for (view_of k tr)"
  shows "recovery_ok (keys, tr)"
  using assms by (simp add: recovery_ok_def)

lemma crash_ok:
  assumes "recovery_ok (keys, tr)"
  shows "recovery_ok (snd (schedule k uptime keys), tr @ [Answered k uptime (fst (schedule k uptime keys))])"
proof (rule recovery_okI)
  fix k'
  note here = schedule_follows [OF recovery_okD(3,2) [OF assms], where k = k and uptime = uptime]
  show "plausible k' (tr @ [Answered k uptime (fst (schedule k uptime keys))])"
    using recovery_okD(1) [OF assms] here(1) by (auto simp: plausible_snoc allowed_def)
  show "or_default (snd (schedule k uptime keys)) k' =
      state_for (view_of k' (tr @ [Answered k uptime (fst (schedule k uptime keys))]))"
    using here recovery_okD(2) [OF assms] by (cases "k' = k") (simp_all del: see.simps add: see_other)
qed

lemma release_ok:
  assumes "recovery_ok (keys, tr)" "waiting (view_of k tr)" "e = Respawned k \<or> e = Stood_Down k"
    and "or_default keys' k = state_for (see k e (view_of k tr))"
    and "\<And>k'. k' \<noteq> k \<Longrightarrow> or_default keys' k' = or_default keys k'"
  shows "recovery_ok (keys', tr @ [e])"
proof (rule recovery_okI)
  fix k'
  show "plausible k' (tr @ [e])"
    using recovery_okD(1) [OF assms(1)] assms(2,3) by (auto simp: plausible_snoc allowed_def)
  show "or_default keys' k' = state_for (view_of k' (tr @ [e]))"
    using assms(3-5) recovery_okD(2) [OF assms(1)] by (cases "k' = k") (auto simp del: see.simps simp: see_other)
qed

lemma recovery_step_ok: "recovery_ok s \<Longrightarrow> recovery_ok (recovery_step x s)"
proof (cases s)
  case (Pair keys tr)
  assume "recovery_ok s"
  then have ok: "recovery_ok (keys, tr)" by (simp add: Pair)
  note at = recovery_okD(3,2) [OF ok]
  show ?thesis
  proof (cases x)
    case (Crashed k uptime)
    then show ?thesis using crash_ok [OF ok] by (simp add: Pair split_beta)
  next
    case (Begin k r)
    show ?thesis
    proof (cases "holds_schedule keys k r")
      case True
      then have "waiting (view_of k tr)" using holds_iff [OF at(2)] by simp
      then show ?thesis
        using Begin True release_ok [OF ok _ _ begin_follows(1,3) [OF at]] by (simp add: Pair)
    next
      case False
      then show ?thesis using Begin ok begin_follows(2) [OF at False] by (simp add: Pair)
    qed
  next
    case (Stand_Down k r)
    show ?thesis
    proof (cases "holds_schedule keys k r")
      case True
      then have "recovery_ok (snd (give_back k r keys), tr @ [Stood_Down k])"
        using release_ok [OF ok _ _ give_back_holds(2,3) [OF at True]] holds_iff [OF at(2)] by simp
      then show ?thesis
        using crash_ok [of "snd (give_back k r keys)" "tr @ [Stood_Down k]" k 0]
        by (simp add: Pair Stand_Down True stand_down_def split_beta)
    next
      case False
      then show ?thesis using Stand_Down ok by (simp add: Pair stand_down_idle)
    qed
  next
    case (Give_Back k r)
    show ?thesis
    proof (cases "holds_schedule keys k r")
      case True
      then show ?thesis
        using release_ok [OF ok _ _ give_back_holds(2,3) [OF at True]] holds_iff [OF at(2)]
        by (simp add: Pair Give_Back)
    next
      case False
      then show ?thesis using Give_Back ok by (simp add: Pair give_back_idle)
    qed
  qed
qed

lemma recovery_start_ok: "recovery_ok (Map.empty, [])"
  by (rule recovery_okI)
    (simp_all add: plausible_Nil view_of_Nil state_for_def or_default_def key_state_default_def)

text \<open>Every step extends the trace.\<close>

definition extends_trace ::
  "'k registry \<times> 'k recovery_event list \<Rightarrow> 'k registry \<times> 'k recovery_event list \<Rightarrow> bool" where
  "extends_trace s s' \<longleftrightarrow> (\<exists>seg. snd s' = snd s @ seg)"

lemma recovery_step_extends: "extends_trace s (recovery_step x s)"
  by (cases s; cases x) (auto simp: extends_trace_def split_beta)

interpretation recovery: history recovery_ok extends_trace recovery_step
  by unfold_locales (auto simp: recovery_step_ok recovery_step_extends, auto simp: extends_trace_def)

lemma recovery_run_ok: "recovery_ok (recovery_run ops)"
  unfolding recovery_run_def by (rule recovery.run_ok [OF recovery_start_ok])

section \<open>What the registry guarantees\<close>

text \<open>The answer that starts the backoff over, and the one that reports giving up.\<close>

definition healthy_crash :: "'k \<Rightarrow> 'k recovery_event \<Rightarrow> bool" where
  "healthy_crash k e \<longleftrightarrow>
     (case e of Answered k' uptime d \<Rightarrow> k' = k \<and> uptime \<ge> healthy_period \<and> d \<noteq> AlreadyScheduled
      | _ \<Rightarrow> False)"

definition gives_up :: "'k \<Rightarrow> 'k recovery_event \<Rightarrow> bool" where
  "gives_up k e \<longleftrightarrow> (case e of Answered k' _ (GiveUp _) \<Rightarrow> k' = k | _ \<Rightarrow> False)"

lemma see_unhealthy:
  assumes "\<not> healthy_crash k e" "allowed k e v"
  shows "respawns (see k e v) = respawns v + of_bool (e = Respawned k)"
    and "of_bool (reported (see k e v)) = of_bool (reported v) + (of_bool (gives_up k e) :: nat)"
  using assms
  by (cases e; auto simp: healthy_crash_def gives_up_def allowed_def promised_def Let_def
      split: recovery_decision.splits if_splits)+

lemma unhealthy_segment:
  assumes "plausible k (before @ seg)" "\<forall>e \<in> set seg. \<not> healthy_crash k e"
  shows "respawns (view_of k (before @ seg)) = respawns (view_of k before) + count_list seg (Respawned k) \<and>
    of_bool (reported (view_of k (before @ seg))) =
      of_bool (reported (view_of k before)) + length (filter (gives_up k) seg)"
  using assms
proof (induction seg rule: rev_induct)
  case (snoc e seg)
  have p: "plausible k (before @ seg)" "allowed k e (view_of k (before @ seg))"
    using snoc.prems(1) by (simp_all add: plausible_snoc flip: append_assoc)
  show ?case
    using snoc.IH [OF p(1)] snoc.prems(2) see_unhealthy [OF _ p(2)]
    by (simp flip: append_assoc)
qed simp

lemma plausible_prefix: "plausible k (tr @ tr') \<Longrightarrow> plausible k tr"
  by (auto simp: plausible_def)

lemma retry_promised:
  assumes "plausible k tr" "Answered k uptime (Retry n d r) \<in> set tr"
  shows "n \<in> {1..max_consecutive_attempts} \<and> d = from_secs (2 ^ n)"
proof -
  obtain p q where "tr = p @ Answered k uptime (Retry n d r) # q"
    using split_list [OF assms(2)] by blast
  then have "allowed k (Answered k uptime (Retry n d r)) (view_of k p)"
    using assms(1) unfolding plausible_def by blast
  then have "Retry n d r = promised uptime (view_of k p)" by (simp add: allowed_def)
  then show ?thesis by (auto simp: promised_def Let_def split: if_splits)
qed

text \<open>
  C30: However crashes and recoveries of a connection interleave, and whichever reservations
  callers present: between two crashes that end a healthy run, at most five respawns are
  committed to and giving up is reported at most once, and the delays of the attempts are
  2, 4, 8, 16 and 32 seconds.
\<close>

theorem restarts_bounded:
  assumes "snd (recovery_run ops) = before @ seg @ later" "\<forall>e \<in> set seg. \<not> healthy_crash k e"
  shows "count_list seg (Respawned k) \<le> max_consecutive_attempts \<and>
    length (filter (gives_up k) seg) \<le> 1 \<and>
    (\<forall>uptime n d r. Answered k uptime (Retry n d r) \<in> set seg \<longrightarrow>
      n \<in> {1..max_consecutive_attempts} \<and> d = from_secs (2 ^ n))"
proof -
  have tr: "plausible k ((before @ seg) @ later)"
    using recovery_run_ok [of ops] assms(1) by (simp add: recovery_ok_def)
  then have p: "plausible k (before @ seg)" by (rule plausible_prefix)
  have "view_ok (view_of k (before @ seg))" using p by (rule plausible_ok)
  then have "respawns (view_of k (before @ seg)) \<le> max_consecutive_attempts"
    by (simp add: view_ok_def)
  moreover have "(of_bool (reported (view_of k (before @ seg))) :: nat) \<le> 1" by simp
  ultimately have "count_list seg (Respawned k) \<le> max_consecutive_attempts \<and>
      length (filter (gives_up k) seg) \<le> 1"
    using unhealthy_segment [OF p assms(2)] by linarith
  then show ?thesis using retry_promised [OF tr] by auto
qed

text \<open>
  What callers are told follows from the history alone: a crash is absorbed while a
  recovery waits, is retried with the next delay while attempts are left, and is then given
  up. A recovery that stands down gives its attempt back and hands on a crash it absorbed,
  which is always retried, so no crash is lost; a reservation that was superseded or already
  used changes nothing.
\<close>

lemma recovery_answers:
  "let (keys, tr) = recovery_run ops; v = view_of k tr in
     fst (schedule k uptime keys) = promised uptime v \<and>
     (if waiting v \<and> r = issued v
      then scheduled (or_default (begin_attempt k r keys) k) = None \<and>
        fst (stand_down k r keys) =
          (if owed v then Some (Retry (respawns v + 1) (from_secs (2 ^ (respawns v + 1))) (issued v + 1))
           else None) \<and>
        attempts (or_default (snd (stand_down k r keys)) k) = respawns v + of_bool (owed v)
      else begin_attempt k r keys = keys \<and> stand_down k r keys = (None, keys))"
proof -
  obtain keys tr where run: "recovery_run ops = (keys, tr)" by force
  define v where "v = view_of k tr"
  have at: "view_ok v" "or_default keys k = state_for v"
    using recovery_okD [OF recovery_run_ok [of ops, unfolded run]] by (simp_all add: v_def)
  note holds = holds_iff [OF at(2), of r]
  show ?thesis
  proof (cases "waiting v \<and> r = issued v")
    case True
    then have h: "holds_schedule keys k r" using holds by blast
    define keys' where "keys' = snd (give_back k r keys)"
    have down: "or_default keys' k = state_for (see k (Stood_Down k) v)"
      "stand_down k r keys =
         (if owed v then (let (d, keys'') = schedule k 0 keys' in (Some d, keys'')) else (None, keys'))"
      using give_back_holds(1,2) [OF at h] by (simp_all add: keys'_def stand_down_def split_beta)
    let ?w = "see k (Stood_Down k) v"
    have w: "view_ok ?w" using see_ok [OF at(1), of k "Stood_Down k"] True by (simp add: allowed_def)
    have d: "promised 0 ?w = Retry (respawns v + 1) (from_secs (2 ^ (respawns v + 1))) (issued v + 1)"
      using at(1) True by (auto simp: promised_def view_ok_def healthy_period_def from_secs_def Let_def)
    note after = schedule_follows(1,2) [OF w down(1), of 0, unfolded d]
    have "0 < healthy_period" by (simp add: healthy_period_def from_secs_def)
    then have "fst (stand_down k r keys) =
          (if owed v then Some (Retry (respawns v + 1) (from_secs (2 ^ (respawns v + 1))) (issued v + 1))
           else None)"
      "attempts (or_default (snd (stand_down k r keys)) k) = respawns v + of_bool (owed v)"
      using after by (simp_all add: down(2) split_beta) (simp add: down(1) state_for_def)
    moreover have "scheduled (or_default (begin_attempt k r keys) k) = None"
      using begin_follows(1) [OF at h] by (simp add: state_for_def)
    ultimately show ?thesis
      using True schedule_follows(1) [OF at, of uptime] by (simp add: run v_def [symmetric])
  next
    case False
    then have h: "\<not> holds_schedule keys k r" using holds by blast
    then show ?thesis
      using False schedule_follows(1) [OF at, of uptime] begin_follows(2) [OF at h] stand_down_idle [OF h]
      by (auto simp: run v_def [symmetric])
  qed
qed

text \<open>A server that dies on every start: five respawns, then recovery gives up.\<close>

definition sample_crashes :: "nat recovery_op list" where
  "sample_crashes = concat (map (\<lambda>r. [Crashed 7 0, Begin 7 r]) [1, 2, 3, 4, 5]) @ [Crashed 7 0, Crashed 7 0]"

lemma sample_crash_trace: "snd (recovery_run sample_crashes) =
    [] @ concat (map (\<lambda>n. [Answered 7 0 (Retry n (from_secs (2 ^ n)) n), Respawned 7]) [1, 2, 3, 4, 5]) @
    [Answered 7 0 (GiveUp 5), Answered 7 0 Exhausted] @ []"
  by (simp add: recovery_run_def sample_crashes_def schedule_def begin_attempt_def holds_schedule_def
      or_default_def key_state_default_def recovery_bounds Let_def)

lemma restarts_bounded_witness:
  "count_list (snd (recovery_run sample_crashes)) (Respawned 7) = 5 \<and> (5 :: nat) \<le> max_consecutive_attempts \<and>
   length (filter (gives_up 7) (snd (recovery_run sample_crashes))) = 1"
proof -
  let ?seg = "snd (recovery_run sample_crashes)"
  have "snd (recovery_run sample_crashes) = [] @ ?seg @ []" by simp
  moreover have "\<forall>e \<in> set ?seg. \<not> healthy_crash (7 :: nat) e"
    unfolding sample_crash_trace by (simp add: healthy_crash_def healthy_period_def from_secs_def)
  ultimately have "count_list ?seg (Respawned 7) \<le> max_consecutive_attempts"
    by (rule restarts_bounded [THEN conjunct1])
  moreover have "count_list ?seg (Respawned 7) = 5" "length (filter (gives_up 7) ?seg) = 1"
    unfolding sample_crash_trace by (simp_all add: gives_up_def)
  ultimately show ?thesis by simp
qed

end
