(* ===== verification/Config_Types.thy ===== *)
theory Config_Types
  imports Prelude "HOL-Library.Finite_Map"
begin

text \<open>
  The settings of \<open>config/settings.rs\<close>: every field is optional, and an absent field is
  inherited. A hash map of the code is a finite map; equality of finite maps is equality of
  hash maps. Values of type \<open>serde_json::Value\<close> keep the order of their keys.
\<close>

section \<open>JSON values\<close>

datatype json =
    JNull
  | JBool bool
  | JNumber string
  | JString string
  | JArray "json list"
  | JObject "(string \<times> json) list"

section \<open>Aggregation\<close>

datatype aggregation_strategy = Preferred | Concatenated

record aggregation_config =
  ag_priorities :: "string list option"
  ag_strategy :: "aggregation_strategy option"
  ag_max_fan_out :: "int option"
  ag_pull_fallback :: "bool option"
  ag_push_fallback :: "bool option"

definition aggregation_config_default :: aggregation_config where
  "aggregation_config_default =
     \<lparr>ag_priorities = None, ag_strategy = None, ag_max_fan_out = None,
      ag_pull_fallback = None, ag_push_fallback = None\<rparr>"

record bridge_language_config =
  bl_enabled :: "bool option"
  bl_aggregation :: "(string, aggregation_config) fmap option"

definition bridge_language_config_default :: bridge_language_config where
  "bridge_language_config_default = \<lparr>bl_enabled = None, bl_aggregation = None\<rparr>"

datatype layer_source = Native | Host | Virt

record layer_aggregation_config =
  la_priorities :: "layer_source list option"
  la_strategy :: "aggregation_strategy option"

record layers_config =
  lc_aggregation :: "(string, layer_aggregation_config) fmap option"

section \<open>Language servers\<close>

datatype root_marker = Single string | Group "string list"

record bridge_server_config =
  bs_cmd :: "string list option"
  bs_languages :: "string list option"
  bs_initialization_options :: "json option"
  bs_settings :: "json option"
  bs_workspace_markers :: "root_marker list option"
  bs_on_type_formatting_triggers :: "string list option"
  bs_prefer_shared_instance :: "bool option"
  bs_force_start :: "bool option"
  bs_enabled :: "bool option"

section \<open>Languages\<close>

datatype query_kind = Highlights | Bindings | Injections

record query_item =
  qi_path :: string
  qi_kind :: "query_kind option"

record language_settings =
  ls_base :: "string option"
  ls_parser :: "string option"
  ls_queries :: "query_item list option"
  ls_bridge :: "(string, bridge_language_config) fmap option"
  ls_layers :: "layers_config option"
  ls_aliases :: "string list option"
  ls_auto_install :: "bool option"

definition language_settings_default :: language_settings where
  "language_settings_default =
     \<lparr>ls_base = None, ls_parser = None, ls_queries = None, ls_bridge = None, ls_layers = None,
      ls_aliases = None, ls_auto_install = None\<rparr>"

section \<open>Features\<close>

type_synonym capture_mapping = "(string, string) fmap"

record query_type_mappings =
  qt_highlights :: "capture_mapping option"

type_synonym capture_mappings = "(string, query_type_mappings) fmap"
type_synonym semantic_token_capture_mappings = "(string, capture_mapping) fmap"

record debounce_feature_settings =
  df_debounce_ms :: "u64 option"
  df_max_wait_ms :: "u64 option"

datatype log_message_level = Level_Error | Level_Warning | Level_Info | Level_Log | Level_Off

record log_message_feature_settings =
  lm_log_level :: "log_message_level option"

record semantic_tokens_feature_settings =
  st_capture_mappings :: "semantic_token_capture_mappings option"

definition semantic_tokens_feature_settings_default :: semantic_tokens_feature_settings where
  "semantic_tokens_feature_settings_default = \<lparr>st_capture_mappings = None\<rparr>"

record feature_settings =
  fs_semantic_tokens :: "semantic_tokens_feature_settings option"
  fs_publish_diagnostics :: "debounce_feature_settings option"
  fs_log_message :: "log_message_feature_settings option"
  fs_diagnostic_refresh :: "debounce_feature_settings option"

definition feature_settings_default :: feature_settings where
  "feature_settings_default =
     \<lparr>fs_semantic_tokens = None, fs_publish_diagnostics = None, fs_log_message = None,
      fs_diagnostic_refresh = None\<rparr>"

section \<open>Workspace settings\<close>

record raw_workspace_settings =
  rw_search_paths :: "string list option"
  rw_languages :: "(string, language_settings) fmap"
  rw_capture_mappings :: "capture_mappings option"
  rw_auto_install :: "bool option"
  rw_diagnostics_debounce_ms :: "u64 option"
  rw_features :: "feature_settings option"
  rw_language_servers :: "(string, bridge_server_config) fmap option"

text \<open>The key \<open>"_"\<close> of a map, whose entry the other entries inherit from.\<close>

abbreviation wildcard_key :: string where
  "wildcard_key \<equiv> ''_''"

section \<open>Options and maps\<close>

text \<open>\<open>Option::or\<close>, and the loop that merges the entries of one map into another.\<close>

fun or_else :: "'a option \<Rightarrow> 'a option \<Rightarrow> 'a option" where
  "or_else (Some x) y = Some x"
| "or_else None y = y"

definition merge_entries :: "('v \<Rightarrow> 'v \<Rightarrow> 'v) \<Rightarrow> ('k, 'v) fmap \<Rightarrow> ('k, 'v) fmap \<Rightarrow> ('k, 'v) fmap" where
  "merge_entries merge base overlay =
     base ++\<^sub>f fmmap_keys
       (\<lambda>k v. case fmlookup base k of Some b \<Rightarrow> merge b v | None \<Rightarrow> v) overlay"

named_theorems config_simps \<open>lookups in merged settings\<close>

lemma or_else_None [config_simps]: "or_else x None = x"
  by (cases x) simp_all

lemma or_else_eq_None [config_simps]: "or_else x y = None \<longleftrightarrow> x = None \<and> y = None"
  by (cases x) simp_all

lemma or_else_assoc: "or_else (or_else x y) z = or_else x (or_else y z)"
  by (cases x) simp_all

lemma lookup_merge_entries [config_simps]:
  "fmlookup (merge_entries merge b ov) k =
     (case fmlookup ov k of None \<Rightarrow> fmlookup b k
      | Some v \<Rightarrow> Some (case fmlookup b k of Some w \<Rightarrow> merge w v | None \<Rightarrow> v))"
  by (auto simp: merge_entries_def fmlookup_dom_iff split: option.splits)

lemma merge_entries_empty [simp]:
  "merge_entries merge fmempty ov = ov" "merge_entries merge b fmempty = b"
  by (rule fmap_ext, simp add: config_simps split: option.splits)+

lemma fmap_not_empty: "m \<noteq> fmempty \<longleftrightarrow> (\<exists>k v. fmlookup m k = Some v)"
proof
  assume "m \<noteq> fmempty"
  then show "\<exists>k v. fmlookup m k = Some v" by (metis fmap_ext fmempty_lookup option.exhaust)
qed auto

end
