(* ===== verification/Config_Merge.thy ===== *)
theory Config_Merge
  imports Config_Types
begin

text \<open>
  \<open>config/merge.rs\<close>: the merge of one settings layer over another, field by field, and the
  lookup of an entry with inheritance from the entry \<open>"_"\<close>.
\<close>

section \<open>Lookup with inheritance\<close>

definition resolve_with_wildcard ::
  "(string, 'v) fmap \<Rightarrow> string \<Rightarrow> ('v \<Rightarrow> 'v \<Rightarrow> 'v) \<Rightarrow> 'v option" where
  "resolve_with_wildcard m key merge =
     (case (fmlookup m wildcard_key, fmlookup m key) of
        (Some w, Some s) \<Rightarrow> Some (merge w s)
      | (Some w, None) \<Rightarrow> Some w
      | (None, Some s) \<Rightarrow> Some s
      | (None, None) \<Rightarrow> None)"

section \<open>Aggregation\<close>

definition merge_aggregation_configs :: "aggregation_config \<Rightarrow> aggregation_config \<Rightarrow> aggregation_config" where
  "merge_aggregation_configs base overlay =
     \<lparr>ag_priorities = or_else (ag_priorities overlay) (ag_priorities base),
      ag_strategy = or_else (ag_strategy overlay) (ag_strategy base),
      ag_max_fan_out = or_else (ag_max_fan_out overlay) (ag_max_fan_out base),
      ag_pull_fallback = or_else (ag_pull_fallback overlay) (ag_pull_fallback base),
      ag_push_fallback = or_else (ag_push_fallback overlay) (ag_push_fallback base)\<rparr>"

definition bridge_routing_method :: string where
  "bridge_routing_method = ''kakehashi/bridge/routing''"

definition resolve_aggregation_for_method ::
  "(string, aggregation_config) fmap \<Rightarrow> string \<Rightarrow> aggregation_config option" where
  "resolve_aggregation_for_method m meth =
     (if meth = bridge_routing_method then fmlookup m meth
      else resolve_with_wildcard m meth merge_aggregation_configs)"

definition merge_bridge_language_configs ::
  "bridge_language_config \<Rightarrow> bridge_language_config \<Rightarrow> bridge_language_config" where
  "merge_bridge_language_configs base overlay =
     \<lparr>bl_enabled = or_else (bl_enabled overlay) (bl_enabled base),
      bl_aggregation =
        (case (bl_aggregation base, bl_aggregation overlay) of
           (Some base_agg, Some overlay_agg) \<Rightarrow>
             if overlay_agg = fmempty then Some fmempty
             else Some (merge_entries merge_aggregation_configs base_agg overlay_agg)
         | (base_agg, overlay_agg) \<Rightarrow> or_else overlay_agg base_agg)\<rparr>"

definition merge_bridge_maps ::
  "(string, bridge_language_config) fmap option \<Rightarrow> (string, bridge_language_config) fmap option
     \<Rightarrow> (string, bridge_language_config) fmap option" where
  "merge_bridge_maps base overlay =
     (case (base, overlay) of
        (None, None) \<Rightarrow> None
      | (Some b, None) \<Rightarrow> Some b
      | (None, Some ov) \<Rightarrow> Some ov
      | (Some b, Some ov) \<Rightarrow>
          if ov = fmempty then Some fmempty
          else Some (merge_entries merge_bridge_language_configs b ov))"

definition merge_layer_aggregation_configs ::
  "layer_aggregation_config \<Rightarrow> layer_aggregation_config \<Rightarrow> layer_aggregation_config" where
  "merge_layer_aggregation_configs base overlay =
     \<lparr>la_priorities = or_else (la_priorities overlay) (la_priorities base),
      la_strategy = or_else (la_strategy overlay) (la_strategy base)\<rparr>"

definition merge_layers_aggregation_maps ::
  "(string, layer_aggregation_config) fmap option \<Rightarrow> (string, layer_aggregation_config) fmap option
     \<Rightarrow> (string, layer_aggregation_config) fmap option" where
  "merge_layers_aggregation_maps base overlay =
     (case (base, overlay) of
        (None, None) \<Rightarrow> None
      | (Some b, None) \<Rightarrow> Some b
      | (None, Some ov) \<Rightarrow> Some ov
      | (Some b, Some ov) \<Rightarrow>
          if ov = fmempty then Some fmempty
          else Some (merge_entries merge_layer_aggregation_configs b ov))"

definition merge_layers_configs :: "layers_config option \<Rightarrow> layers_config option \<Rightarrow> layers_config option" where
  "merge_layers_configs base overlay =
     (case (base, overlay) of
        (None, None) \<Rightarrow> None
      | (Some b, None) \<Rightarrow> Some b
      | (None, Some ov) \<Rightarrow> Some ov
      | (Some b, Some ov) \<Rightarrow>
          Some \<lparr>lc_aggregation = merge_layers_aggregation_maps (lc_aggregation b) (lc_aggregation ov)\<rparr>)"

section \<open>Language settings\<close>

definition merge_language_settings :: "language_settings \<Rightarrow> language_settings \<Rightarrow> language_settings" where
  "merge_language_settings base overlay =
     \<lparr>ls_base = or_else (ls_base overlay) (ls_base base),
      ls_parser = or_else (ls_parser overlay) (ls_parser base),
      ls_queries = or_else (ls_queries overlay) (ls_queries base),
      ls_bridge = merge_bridge_maps (ls_bridge base) (ls_bridge overlay),
      ls_layers = merge_layers_configs (ls_layers base) (ls_layers overlay),
      ls_aliases = or_else (ls_aliases overlay) (ls_aliases base),
      ls_auto_install = or_else (ls_auto_install overlay) (ls_auto_install base)\<rparr>"

definition merge_languages ::
  "(string, language_settings) fmap \<Rightarrow> (string, language_settings) fmap \<Rightarrow> (string, language_settings) fmap" where
  "merge_languages base overlay = merge_entries merge_language_settings base overlay"

section \<open>Language servers\<close>

text \<open>
  The recursion of \<open>deep_merge_json\<close> over the entries of the overlay object: the entry of a
  known key is merged in place, a new key is appended.
\<close>

fun insert_or_modify :: "'k \<Rightarrow> ('v \<Rightarrow> 'v) \<Rightarrow> 'v \<Rightarrow> ('k \<times> 'v) list \<Rightarrow> ('k \<times> 'v) list" where
  "insert_or_modify k f v [] = [(k, v)]"
| "insert_or_modify k f v ((k', v') # kvs) =
     (if k' = k then (k', f v') # kvs else (k', v') # insert_or_modify k f v kvs)"

fun deep_merge_json :: "json \<Rightarrow> json \<Rightarrow> json"
  and merge_json_entries :: "(string \<times> json) list \<Rightarrow> (string \<times> json) list \<Rightarrow> (string \<times> json) list" where
  "deep_merge_json base overlay =
     (case overlay of
        JObject overlay_map \<Rightarrow>
          (case base of
             JObject base_map \<Rightarrow> JObject (merge_json_entries base_map overlay_map)
           | _ \<Rightarrow> overlay)
      | _ \<Rightarrow> overlay)"
| "merge_json_entries merged [] = merged"
| "merge_json_entries merged ((key, overlay_value) # overlay_map) =
     merge_json_entries
       (insert_or_modify key (\<lambda>base_value. deep_merge_json base_value overlay_value) overlay_value merged)
       overlay_map"

declare deep_merge_json.simps [simp del]

lemma deep_merge_objects:
  "deep_merge_json (JObject b) (JObject ov) = JObject (merge_json_entries b ov)"
  by (simp add: deep_merge_json.simps)

lemma deep_merge_other:
  "(\<nexists>kvs. b = JObject kvs) \<or> (\<nexists>kvs. ov = JObject kvs) \<Longrightarrow> deep_merge_json b ov = ov"
  by (auto simp: deep_merge_json.simps split: json.splits)

definition merge_bridge_server_configs ::
  "bridge_server_config \<Rightarrow> bridge_server_config \<Rightarrow> bridge_server_config" where
  "merge_bridge_server_configs base overlay =
     \<lparr>bs_cmd = or_else (bs_cmd overlay) (bs_cmd base),
      bs_languages = or_else (bs_languages overlay) (bs_languages base),
      bs_initialization_options =
        (case (bs_initialization_options base, bs_initialization_options overlay) of
           (Some b, Some ov) \<Rightarrow> Some (deep_merge_json b ov)
         | _ \<Rightarrow> or_else (bs_initialization_options overlay) (bs_initialization_options base)),
      bs_settings =
        (case (bs_settings base, bs_settings overlay) of
           (Some b, Some ov) \<Rightarrow> Some (deep_merge_json b ov)
         | _ \<Rightarrow> or_else (bs_settings overlay) (bs_settings base)),
      bs_workspace_markers = or_else (bs_workspace_markers overlay) (bs_workspace_markers base),
      bs_on_type_formatting_triggers =
        or_else (bs_on_type_formatting_triggers overlay) (bs_on_type_formatting_triggers base),
      bs_prefer_shared_instance =
        or_else (bs_prefer_shared_instance overlay) (bs_prefer_shared_instance base),
      bs_force_start = or_else (bs_force_start overlay) (bs_force_start base),
      bs_enabled = or_else (bs_enabled overlay) (bs_enabled base)\<rparr>"

definition merge_language_servers ::
  "(string, bridge_server_config) fmap option \<Rightarrow> (string, bridge_server_config) fmap option
     \<Rightarrow> (string, bridge_server_config) fmap option" where
  "merge_language_servers base overlay =
     (case (base, overlay) of
        (None, None) \<Rightarrow> None
      | (Some servers, None) \<Rightarrow> Some servers
      | (None, Some servers) \<Rightarrow> Some servers
      | (Some b, Some ov) \<Rightarrow>
          if ov = fmempty then Some fmempty
          else Some (merge_entries merge_bridge_server_configs b ov))"

section \<open>Features\<close>

text \<open>
  An overlay entry for a language clears the mappings of that language when it is empty and
  extends them otherwise; an overlay without any language clears them all.
\<close>

definition merge_semantic_token_capture_mappings ::
  "semantic_token_capture_mappings option \<Rightarrow> semantic_token_capture_mappings option
     \<Rightarrow> semantic_token_capture_mappings option" where
  "merge_semantic_token_capture_mappings base overlay =
     (case (base, overlay) of
        (None, None) \<Rightarrow> None
      | (Some mappings, None) \<Rightarrow> Some mappings
      | (None, Some mappings) \<Rightarrow> Some mappings
      | (Some b, Some ov) \<Rightarrow>
          if ov = fmempty then Some fmempty
          else Some (merge_entries
            (\<lambda>entry overlay_mappings.
              if overlay_mappings = fmempty then fmempty else entry ++\<^sub>f overlay_mappings) b ov))"

definition merge_semantic_token_feature_settings ::
  "semantic_tokens_feature_settings option \<Rightarrow> semantic_tokens_feature_settings option
     \<Rightarrow> semantic_tokens_feature_settings option" where
  "merge_semantic_token_feature_settings base overlay =
     (case (base, overlay) of
        (Some b, Some ov) \<Rightarrow>
          Some \<lparr>st_capture_mappings =
            merge_semantic_token_capture_mappings (st_capture_mappings b) (st_capture_mappings ov)\<rparr>
      | _ \<Rightarrow> or_else overlay base)"

definition merge_debounce ::
  "debounce_feature_settings option \<Rightarrow> debounce_feature_settings option \<Rightarrow> debounce_feature_settings option" where
  "merge_debounce base overlay =
     (case (base, overlay) of
        (Some b, Some ov) \<Rightarrow>
          Some \<lparr>df_debounce_ms = or_else (df_debounce_ms ov) (df_debounce_ms b),
                df_max_wait_ms = or_else (df_max_wait_ms ov) (df_max_wait_ms b)\<rparr>
      | _ \<Rightarrow> or_else overlay base)"

definition merge_features :: "feature_settings option \<Rightarrow> feature_settings option \<Rightarrow> feature_settings option" where
  "merge_features base overlay =
     (case (base, overlay) of
        (Some b, Some ov) \<Rightarrow>
          Some
            \<lparr>fs_semantic_tokens =
               merge_semantic_token_feature_settings (fs_semantic_tokens b) (fs_semantic_tokens ov),
             fs_publish_diagnostics =
               merge_debounce (fs_publish_diagnostics b) (fs_publish_diagnostics ov),
             fs_log_message =
               (case (fs_log_message b, fs_log_message ov) of
                  (Some b, Some ov) \<Rightarrow> Some \<lparr>lm_log_level = or_else (lm_log_level ov) (lm_log_level b)\<rparr>
                | (b, ov) \<Rightarrow> or_else ov b),
             fs_diagnostic_refresh =
               merge_debounce (fs_diagnostic_refresh b) (fs_diagnostic_refresh ov)\<rparr>
      | _ \<Rightarrow> or_else overlay base)"

text \<open>
  \<open>as_mut()?\<close> and \<open>take()\<close> on the nested field: the mappings, and the features without them.
\<close>

definition take_semantic_token_capture_mappings ::
  "feature_settings option \<Rightarrow> semantic_token_capture_mappings option \<times> feature_settings option" where
  "take_semantic_token_capture_mappings features =
     (case features of
        None \<Rightarrow> (None, None)
      | Some fs \<Rightarrow>
          (case fs_semantic_tokens fs of
             None \<Rightarrow> (None, features)
           | Some st \<Rightarrow>
               (st_capture_mappings st,
                Some (fs\<lparr>fs_semantic_tokens := Some (st\<lparr>st_capture_mappings := None\<rparr>)\<rparr>))))"

definition get_or_insert :: "'a \<Rightarrow> 'a option \<Rightarrow> 'a" where
  "get_or_insert d x = (case x of Some y \<Rightarrow> y | None \<Rightarrow> d)"

definition set_semantic_token_capture_mappings ::
  "feature_settings option \<Rightarrow> semantic_token_capture_mappings option \<Rightarrow> feature_settings option" where
  "set_semantic_token_capture_mappings features mappings =
     (case mappings of
        None \<Rightarrow> features
      | Some m \<Rightarrow>
          (let fs = get_or_insert feature_settings_default features;
               st = get_or_insert semantic_tokens_feature_settings_default (fs_semantic_tokens fs)
           in Some (fs\<lparr>fs_semantic_tokens := Some (st\<lparr>st_capture_mappings := Some m\<rparr>)\<rparr>)))"

section \<open>The deprecated capture mappings\<close>

text \<open>The entries with highlights, as \<open>filter_map\<close> collects them.\<close>

definition legacy_capture_mappings_to_semantic ::
  "capture_mappings \<Rightarrow> semantic_token_capture_mappings option" where
  "legacy_capture_mappings_to_semantic mappings =
     (let root_was_empty = (mappings = fmempty);
          semantic = fmmap (\<lambda>e. the (qt_highlights e)) (fmfilter
            (\<lambda>language. case fmlookup mappings language of
                Some e \<Rightarrow> qt_highlights e \<noteq> None | None \<Rightarrow> False) mappings)
      in if root_was_empty \<or> semantic \<noteq> fmempty then Some semantic else None)"

definition normalize_deprecated_capture_mappings ::
  "raw_workspace_settings \<Rightarrow> raw_workspace_settings" where
  "normalize_deprecated_capture_mappings settings =
     (case rw_capture_mappings settings of
        None \<Rightarrow> settings
      | Some mappings \<Rightarrow>
          (let settings = settings\<lparr>rw_capture_mappings := None\<rparr>
           in case legacy_capture_mappings_to_semantic mappings of
                None \<Rightarrow> settings
              | Some legacy \<Rightarrow>
                  (let fs = get_or_insert feature_settings_default (rw_features settings);
                       st = get_or_insert semantic_tokens_feature_settings_default (fs_semantic_tokens fs);
                       st = st\<lparr>st_capture_mappings :=
                              merge_semantic_token_capture_mappings (Some legacy) (st_capture_mappings st)\<rparr>
                   in settings\<lparr>rw_features := Some (fs\<lparr>fs_semantic_tokens := Some st\<rparr>)\<rparr>)))"

section \<open>Workspace settings\<close>

definition merge_workspace_settings ::
  "raw_workspace_settings option \<Rightarrow> raw_workspace_settings option \<Rightarrow> raw_workspace_settings option" where
  "merge_workspace_settings base overlay =
     (case (base, overlay) of
        (Some base, Some overlay) \<Rightarrow>
          (let base = normalize_deprecated_capture_mappings base;
               (base_mappings, base_features) = take_semantic_token_capture_mappings (rw_features base);
               legacy_mappings =
                 (case rw_capture_mappings overlay of
                    None \<Rightarrow> None | Some m \<Rightarrow> legacy_capture_mappings_to_semantic m);
               (canonical_mappings, overlay_features) =
                 take_semantic_token_capture_mappings (rw_features overlay);
               mappings =
                 merge_semantic_token_capture_mappings
                   (merge_semantic_token_capture_mappings base_mappings legacy_mappings)
                   canonical_mappings
           in Some
                \<lparr>rw_search_paths = or_else (rw_search_paths overlay) (rw_search_paths base),
                 rw_languages = merge_languages (rw_languages base) (rw_languages overlay),
                 rw_capture_mappings = None,
                 rw_auto_install = or_else (rw_auto_install overlay) (rw_auto_install base),
                 rw_diagnostics_debounce_ms =
                   or_else (rw_diagnostics_debounce_ms overlay) (rw_diagnostics_debounce_ms base),
                 rw_features =
                   set_semantic_token_capture_mappings
                     (merge_features base_features overlay_features) mappings,
                 rw_language_servers =
                   merge_language_servers (rw_language_servers base) (rw_language_servers overlay)\<rparr>)
      | _ \<Rightarrow> map_option normalize_deprecated_capture_mappings (or_else base overlay))"

end
