(* ===== verification/Config_Base.thy ===== *)
theory Config_Base
  imports Config_Merge
begin

text \<open>
  Inheritance between the languages of one settings value (the second half of
  \<open>config/merge.rs\<close>): the chain of bases of a language, and its settings merged along it.
\<close>

section \<open>The chain of bases\<close>

text \<open>The base the loop moves to from a language, \<open>None\<close> where the wildcard ends the chain.\<close>

definition base_of :: "(string, language_settings) fmap \<Rightarrow> string \<Rightarrow> string option" where
  "base_of languages current =
     (case Option.bind (fmlookup languages current) ls_base of
        None \<Rightarrow> if current = wildcard_key then None else Some wildcard_key
      | Some b \<Rightarrow> Some b)"

definition base_candidates :: "(string, language_settings) fmap \<Rightarrow> string set" where
  "base_candidates languages =
     insert wildcard_key (the ` ls_base ` fset (fmran languages))"

lemma finite_base_candidates: "finite (base_candidates languages)"
  by (simp add: base_candidates_def)

lemma base_of_candidate: "base_of languages current = Some b \<Longrightarrow> b \<in> base_candidates languages"
  by (force simp: base_of_def base_candidates_def bind_eq_Some_conv image_iff fmlookup_ran_iff
      split: option.splits if_splits)

lemma candidates_shrink:
  assumes "base_of languages current = Some b" "b \<notin> visited"
  shows "card (base_candidates languages - insert b visited) < card (base_candidates languages - visited)"
  using assms base_of_candidate [OF assms(1)] finite_base_candidates [of languages]
  by (intro psubset_card_mono) auto

function chain_loop ::
  "(string, language_settings) fmap \<Rightarrow> string set \<Rightarrow> string \<Rightarrow> string list" where
  "chain_loop languages visited current =
     (case base_of languages current of
        None \<Rightarrow> []
      | Some base_name \<Rightarrow>
          if base_name = current then []
          else if base_name \<in> visited then []
          else base_name # chain_loop languages (insert base_name visited) base_name)"
  by pat_completeness auto

termination
  by (relation "measure (\<lambda>(languages, visited, _). card (base_candidates languages - visited))")
    (simp_all add: candidates_shrink)

declare chain_loop.simps [simp del]

definition build_base_chain :: "string \<Rightarrow> (string, language_settings) fmap \<Rightarrow> string list" where
  "build_base_chain name languages = name # chain_loop languages {name} name"

section \<open>Settings along the chain\<close>

definition language_or_default :: "(string, language_settings) fmap \<Rightarrow> string \<Rightarrow> language_settings" where
  "language_or_default languages n =
     (case fmlookup languages n of Some s \<Rightarrow> s | None \<Rightarrow> language_settings_default)"

text \<open>\<open>Iterator::reduce\<close>.\<close>

fun reduce :: "('a \<Rightarrow> 'a \<Rightarrow> 'a) \<Rightarrow> 'a list \<Rightarrow> 'a option" where
  "reduce f [] = None"
| "reduce f (x # xs) = Some (foldl f x xs)"

definition resolve_base_configs ::
  "(string, language_settings) fmap \<Rightarrow> (string, language_settings) fmap" where
  "resolve_base_configs languages =
     fmmap_keys (\<lambda>name s.
       let chain = build_base_chain name languages;
           resolved = (case reduce merge_language_settings
                         (map (language_or_default languages) (rev chain)) of
                         Some r \<Rightarrow> r | None \<Rightarrow> language_settings_default)
       in resolved\<lparr>ls_base := ls_base s\<rparr>) languages"

section \<open>The chain ends\<close>

lemma chain_loop_correct:
  assumes "current \<in> visited"
  shows "distinct (chain_loop languages visited current) \<and>
    set (chain_loop languages visited current) \<inter> visited = {} \<and>
    set (chain_loop languages visited current) \<subseteq> base_candidates languages \<and>
    successively (\<lambda>a b. base_of languages a = Some b) (current # chain_loop languages visited current) \<and>
    (case base_of languages (last (current # chain_loop languages visited current)) of
       None \<Rightarrow> True
     | Some b \<Rightarrow> b \<in> visited \<union> set (chain_loop languages visited current))"
  using assms
proof (induction languages visited current rule: chain_loop.induct)
  case (1 languages visited current)
  show ?case
  proof (cases "base_of languages current")
    case None
    then show ?thesis by (simp add: chain_loop.simps [of languages visited current])
  next
    case (Some b)
    show ?thesis
    proof (cases "b = current \<or> b \<in> visited")
      case True
      then show ?thesis using Some 1(2)
        by (auto simp: chain_loop.simps [of languages visited current])
    next
      case False
      have "distinct (chain_loop languages (insert b visited) b) \<and>
        set (chain_loop languages (insert b visited) b) \<inter> insert b visited = {} \<and>
        set (chain_loop languages (insert b visited) b) \<subseteq> base_candidates languages \<and>
        successively (\<lambda>a b. base_of languages a = Some b) (b # chain_loop languages (insert b visited) b) \<and>
        (case base_of languages (last (b # chain_loop languages (insert b visited) b)) of
           None \<Rightarrow> True
         | Some b' \<Rightarrow> b' \<in> insert b visited \<union> set (chain_loop languages (insert b visited) b))"
        using 1(1) [OF Some] False by simp
      then show ?thesis
        using Some False base_of_candidate [OF Some]
        by (auto simp: chain_loop.simps [of languages visited current] split: option.splits)
    qed
  qed
qed

lemma card_base_candidates: "card (base_candidates languages) \<le> fcard (fmdom languages) + 1"
proof -
  have "fset (fmran languages) = (\<lambda>k. the (fmlookup languages k)) ` fset (fmdom languages)"
    by (force simp: fmlookup_ran_iff fmlookup_dom_iff image_iff)
  then have "card (the ` ls_base ` fset (fmran languages)) \<le> fcard (fmdom languages)"
    by (simp add: image_image fcard.rep_eq card_image_le)
  then show ?thesis by (simp add: base_candidates_def card_insert_if)
qed

text \<open>
  C32: Whatever the configured bases are, circular or unknown ones included, the walk ends: its
  chain starts at the language, follows the bases, repeats no language, has at most two more
  elements than languages are configured, and stops only at a wildcard without a base or
  where the next base would be a language already on the chain.
\<close>

theorem base_chain_terminates:
  "let chain = build_base_chain name languages
   in hd chain = name \<and> distinct chain \<and> length chain \<le> fcard (fmdom languages) + 2 \<and>
      successively (\<lambda>a b. base_of languages a = Some b) chain \<and>
      (case base_of languages (last chain) of
         None \<Rightarrow> last chain = wildcard_key
       | Some b \<Rightarrow> b \<in> set chain)"
proof -
  let ?l = "chain_loop languages {name} name"
  note loop = chain_loop_correct [of name "{name}" languages, simplified]
  have "length ?l = card (set ?l)" using loop by (simp add: distinct_card)
  also have "\<dots> \<le> card (base_candidates languages)"
    using loop by (intro card_mono finite_base_candidates) simp
  finally have "length ?l \<le> fcard (fmdom languages) + 1"
    using card_base_candidates [of languages] by linarith
  then show ?thesis
    using loop by (auto simp: build_base_chain_def base_of_def split: option.splits if_splits)
qed

section \<open>Most specific first\<close>

text \<open>
  The specification reads layers from the most specific to the least specific: a field is the
  first one that is set; of maps, an empty one hides everything below it, and the entry of a
  key is merged from the entries that remain.
\<close>

fun first_some :: "'a option list \<Rightarrow> 'a option" where
  "first_some [] = None"
| "first_some (x # xs) = or_else x (first_some xs)"

fun visible :: "('k, 'v) fmap option list \<Rightarrow> ('k, 'v) fmap list" where
  "visible [] = []"
| "visible (None # ms) = visible ms"
| "visible (Some m # ms) = (if m = fmempty then [m] else m # visible ms)"

fun merge_found :: "('v \<Rightarrow> 'v \<Rightarrow> 'v) \<Rightarrow> 'v option list \<Rightarrow> 'v option" where
  "merge_found merge [] = None"
| "merge_found merge (x # xs) =
     (case (merge_found merge xs, x) of
        (Some b, Some ov) \<Rightarrow> Some (merge b ov)
      | (b, ov) \<Rightarrow> or_else ov b)"

definition entry_of :: "('v \<Rightarrow> 'v \<Rightarrow> 'v) \<Rightarrow> ('k, 'v) fmap option list \<Rightarrow> 'k \<Rightarrow> 'v option" where
  "entry_of merge ms k = merge_found merge (map (\<lambda>m. fmlookup m k) (visible ms))"

definition lookup_in :: "('k, 'v) fmap option \<Rightarrow> 'k \<Rightarrow> 'v option" where
  "lookup_in m k = Option.bind m (\<lambda>m. fmlookup m k)"

text \<open>The merge of two optional maps that every map field of the settings uses.\<close>

definition merge_optional_maps ::
  "('v \<Rightarrow> 'v \<Rightarrow> 'v) \<Rightarrow> ('k, 'v) fmap option \<Rightarrow> ('k, 'v) fmap option \<Rightarrow> ('k, 'v) fmap option" where
  "merge_optional_maps merge base overlay =
     (case (base, overlay) of
        (Some b, Some ov) \<Rightarrow> if ov = fmempty then Some fmempty else Some (merge_entries merge b ov)
      | _ \<Rightarrow> or_else overlay base)"

lemma map_merges:
  "merge_bridge_maps = merge_optional_maps merge_bridge_language_configs"
  "merge_layers_aggregation_maps = merge_optional_maps merge_layer_aggregation_configs"
  "merge_language_servers = merge_optional_maps merge_bridge_server_configs"
  "bl_aggregation (merge_bridge_language_configs p q) =
     merge_optional_maps merge_aggregation_configs (bl_aggregation p) (bl_aggregation q)"
  "merge_semantic_token_capture_mappings =
     merge_optional_maps (\<lambda>entry ov. if ov = fmempty then fmempty else entry ++\<^sub>f ov)"
  by (auto simp: fun_eq_iff merge_bridge_maps_def merge_layers_aggregation_maps_def
      merge_language_servers_def merge_bridge_language_configs_def
      merge_semantic_token_capture_mappings_def merge_optional_maps_def split: option.splits)

lemma first_some_append: "first_some (xs @ ys) = or_else (first_some xs) (first_some ys)"
  by (induction xs) (simp_all add: or_else_assoc)

text \<open>
  The interface of a record of settings: merging two of them gives the field of the overlay
  where it is set. The first lemma is the merge along a chain, the second the lookup in a map
  with a wildcard.
\<close>

locale inherited_field =
  fixes merge :: "'r \<Rightarrow> 'r \<Rightarrow> 'r" and field :: "'r \<Rightarrow> 'a option"
  assumes field_merge: "field (merge base overlay) = or_else (field overlay) (field base)"
begin

lemma field_foldl: "field (foldl merge x xs) = or_else (first_some (map field (rev xs))) (field x)"
  by (induction xs rule: rev_induct) (simp_all add: field_merge or_else_assoc)

lemma field_chain:
  "chain \<noteq> [] \<Longrightarrow> map_option field (reduce merge (map get (rev chain))) =
     Some (first_some (map (\<lambda>n. field (get n)) chain))"
  by (cases chain rule: rev_cases) (simp_all add: field_foldl rev_map comp_def first_some_append config_simps)

lemma field_wildcard:
  "resolve_with_wildcard m key merge = Some r \<Longrightarrow>
     field r = or_else (Option.bind (fmlookup m key) field) (Option.bind (fmlookup m wildcard_key) field)"
  by (auto simp: resolve_with_wildcard_def field_merge config_simps split: option.splits)

end

text \<open>The same for a field that holds a map.\<close>

lemma merge_optional_maps_None [simp]: "merge_optional_maps f None m = m"
  "merge_optional_maps f m None = m"
  by (cases m; simp add: merge_optional_maps_def)+

lemma lookup_in_simps [config_simps]: "lookup_in None k = None" "lookup_in (Some m) k = fmlookup m k"
  by (simp_all add: lookup_in_def)

lemma merged_maps:
  "(foldr (\<lambda>m acc. merge_optional_maps f acc m) ms None = None \<longleftrightarrow> visible ms = []) \<and>
    (\<forall>k. lookup_in (foldr (\<lambda>m acc. merge_optional_maps f acc m) ms None) k = entry_of f ms k)"
proof (induction ms)
    case Nil
    show ?case by (simp add: entry_of_def config_simps)
  next
    case (Cons m ms)
    let ?R = "foldr (\<lambda>m acc. merge_optional_maps f acc m) ms None"
    show ?case
    proof (cases m)
      case None
      with Cons show ?thesis by (simp add: entry_of_def)
    next
      case (Some m')
      show ?thesis
      proof (cases ?R)
        case None
        with Cons Some show ?thesis
          by (auto simp: entry_of_def config_simps split: option.splits)
      next
        case (Some b)
        with Cons have "\<forall>k. entry_of f ms k = fmlookup b k" "visible ms \<noteq> []"
          by (auto simp: config_simps)
        then show ?thesis
          using Some \<open>m = Some m'\<close>
          by (auto simp: entry_of_def merge_optional_maps_def config_simps split: option.splits)
      qed
    qed
  qed
lemma visible_Nil: "visible ms = [] \<longleftrightarrow> (\<forall>m \<in> set ms. m = None)"
  by (induction ms rule: visible.induct) auto

locale inherited_map =
  fixes merge :: "'r \<Rightarrow> 'r \<Rightarrow> 'r" and field :: "'r \<Rightarrow> ('k, 'v) fmap option" and value_merge :: "'v \<Rightarrow> 'v \<Rightarrow> 'v"
  assumes field_merge: "field (merge base overlay) = merge_optional_maps value_merge (field base) (field overlay)"
begin

lemma field_foldl:
  "field (foldl merge x xs) = foldl (merge_optional_maps value_merge) (field x) (map field xs)"
  by (induction xs rule: rev_induct) (simp_all add: field_merge)

lemma field_reduce:
  assumes "chain \<noteq> []" "reduce merge (map get (rev chain)) = Some r"
  shows "field r = foldr (\<lambda>m acc. merge_optional_maps value_merge acc m) (map (\<lambda>n. field (get n)) chain) None"
proof -
  obtain n ns where rev: "rev chain = n # ns" using assms(1) by (cases "rev chain") auto
  then have chain: "chain = rev ns @ [n]" by (metis rev.simps(2) rev_rev_ident)
  have "field r = foldl (merge_optional_maps value_merge) (field (get n)) (map field (map get ns))"
    using assms(2) by (auto simp: rev field_foldl)
  then show ?thesis by (simp add: chain foldr_conv_foldl rev_map comp_def)
qed

lemma lookup_chain:
  assumes "chain \<noteq> []" "reduce merge (map get (rev chain)) = Some r"
  shows "lookup_in (field r) k = entry_of value_merge (map (\<lambda>n. field (get n)) chain) k"
    and "field r = None \<longleftrightarrow> (\<forall>n \<in> set chain. field (get n) = None)"
  using merged_maps [where f = value_merge and ms = "map (\<lambda>n. field (get n)) chain"]
  by (simp_all add: field_reduce [OF assms] visible_Nil)

end

section \<open>The fields of the settings\<close>

interpretation parser: inherited_field merge_language_settings ls_parser
  by unfold_locales (simp add: merge_language_settings_def)

interpretation queries: inherited_field merge_language_settings ls_queries
  by unfold_locales (simp add: merge_language_settings_def)

interpretation aliases: inherited_field merge_language_settings ls_aliases
  by unfold_locales (simp add: merge_language_settings_def)

interpretation auto_install: inherited_field merge_language_settings ls_auto_install
  by unfold_locales (simp add: merge_language_settings_def)

interpretation bridge: inherited_map merge_language_settings ls_bridge merge_bridge_language_configs
  by unfold_locales (simp add: merge_language_settings_def map_merges)

definition layer_entries :: "language_settings \<Rightarrow> (string, layer_aggregation_config) fmap option" where
  "layer_entries s = Option.bind (ls_layers s) lc_aggregation"

interpretation layers: inherited_map merge_language_settings layer_entries merge_layer_aggregation_configs
  by unfold_locales
    (auto simp: layer_entries_def merge_language_settings_def merge_layers_configs_def map_merges
      split: option.splits)

definition chain_settings :: "(string, language_settings) fmap \<Rightarrow> string \<Rightarrow> language_settings list" where
  "chain_settings languages name = map (language_or_default languages) (build_base_chain name languages)"

lemma resolved_settings:
  assumes "fmlookup languages name = Some s"
  obtains r where
    "reduce merge_language_settings (map (language_or_default languages) (rev (build_base_chain name languages))) = Some r"
    "fmlookup (resolve_base_configs languages) name = Some (r\<lparr>ls_base := ls_base s\<rparr>)"
proof -
  have "build_base_chain name languages \<noteq> []" by (simp add: build_base_chain_def)
  then obtain n ns where "rev (build_base_chain name languages) = n # ns"
    by (cases "rev (build_base_chain name languages)") auto
  then show ?thesis using assms that by (simp add: resolve_base_configs_def)
qed

text \<open>
  C31: The settings of a language are the most specific ones along its chain of bases: each
  field is the first that is set, the entries of \<open>bridge\<close> and \<open>layers\<close> are merged per key
  from the maps above the most specific empty one, and \<open>base\<close> stays as configured.
\<close>

theorem resolve_base_configs_correct:
  assumes "fmlookup languages name = Some s"
  shows "\<exists>r. fmlookup (resolve_base_configs languages) name = Some r \<and>
    (let chain = chain_settings languages name
     in ls_base r = ls_base s \<and>
        ls_parser r = first_some (map ls_parser chain) \<and>
        ls_queries r = first_some (map ls_queries chain) \<and>
        ls_aliases r = first_some (map ls_aliases chain) \<and>
        ls_auto_install r = first_some (map ls_auto_install chain) \<and>
        (ls_bridge r = None \<longleftrightarrow> visible (map ls_bridge chain) = []) \<and>
        (\<forall>key. lookup_in (ls_bridge r) key =
           entry_of merge_bridge_language_configs (map ls_bridge chain) key) \<and>
        (\<forall>meth. lookup_in (layer_entries r) meth =
           entry_of merge_layer_aggregation_configs (map layer_entries chain) meth))"
proof -
  obtain r where
    r: "reduce merge_language_settings (map (language_or_default languages) (rev (build_base_chain name languages))) = Some r"
    and at: "fmlookup (resolve_base_configs languages) name = Some (r\<lparr>ls_base := ls_base s\<rparr>)"
    using resolved_settings [OF assms] .
  have ne: "build_base_chain name languages \<noteq> []" by (simp add: build_base_chain_def)
  note fields = parser.field_chain queries.field_chain aliases.field_chain auto_install.field_chain
  have "layer_entries (r\<lparr>ls_base := ls_base s\<rparr>) = layer_entries r" by (simp add: layer_entries_def)
  then show ?thesis
    using fields [OF ne, where get = "language_or_default languages"]
      bridge.lookup_chain [OF ne r] layers.lookup_chain [OF ne r]
    by (simp add: at r Let_def chain_settings_def comp_def visible_Nil)
qed

text \<open>A language with a base, and the wildcard all languages inherit from.\<close>

definition sample_languages :: "(string, language_settings) fmap" where
  "sample_languages =
     fmupd ''rmd'' (language_settings_default\<lparr>ls_base := Some ''markdown''\<rparr>)
       (fmupd ''markdown'' (language_settings_default\<lparr>ls_parser := Some ''md.so''\<rparr>)
         (fmupd ''_'' (language_settings_default\<lparr>ls_parser := Some ''any.so'', ls_auto_install := Some False\<rparr>)
           fmempty))"

lemma sample_chain: "build_base_chain ''rmd'' sample_languages = [''rmd'', ''markdown'', ''_'']"
  by (simp add: build_base_chain_def chain_loop.simps base_of_def sample_languages_def
      language_settings_default_def)

lemma resolve_base_configs_correct_witness:
  "map_option (\<lambda>r. (ls_parser r, ls_auto_install r)) (fmlookup (resolve_base_configs sample_languages) ''rmd'') =
     Some (Some ''md.so'', Some False)"
proof -
  have "fmlookup sample_languages ''rmd'' = Some (language_settings_default\<lparr>ls_base := Some ''markdown''\<rparr>)"
    by (simp add: sample_languages_def)
  from resolve_base_configs_correct [OF this]
  show ?thesis
    by (auto simp: chain_settings_def sample_chain Let_def)
      (simp_all add: language_or_default_def sample_languages_def language_settings_default_def)
qed

end
