(* ===== verification/Config_Workspace.thy ===== *)
theory Config_Workspace
  imports Config_Base
begin

text \<open>
  What a merge of whole settings gives: the roles of captures, whichever of the current and
  the deprecated spelling configured them, the other fields, and options in JSON.
\<close>

section \<open>JSON options\<close>

text \<open>Objects have distinct keys, as those of \<open>serde_json\<close> do.\<close>

fun wf_json :: "json \<Rightarrow> bool" where
  "wf_json (JArray js) \<longleftrightarrow> (\<forall>j \<in> set js. wf_json j)"
| "wf_json (JObject kvs) \<longleftrightarrow> distinct (map fst kvs) \<and> (\<forall>kv \<in> set kvs. wf_json (snd kv))"
| "wf_json _ \<longleftrightarrow> True"

definition object_entry :: "json \<Rightarrow> string \<Rightarrow> json option" where
  "object_entry j k = (case j of JObject kvs \<Rightarrow> map_of kvs k | _ \<Rightarrow> None)"

lemma fst_insert_or_modify:
  "map fst (insert_or_modify k f v kvs) = map fst kvs @ (if k \<in> set (map fst kvs) then [] else [k])"
  by (induction k f v kvs rule: insert_or_modify.induct) (simp_all del: set_map)

lemma map_of_insert_or_modify:
  "map_of (insert_or_modify k f v kvs) k' =
     (if k' = k then Some (case map_of kvs k of Some w \<Rightarrow> f w | None \<Rightarrow> v) else map_of kvs k')"
  by (induction kvs) auto

lemma set_insert_or_modify:
  "kv \<in> set (insert_or_modify k f v kvs) \<Longrightarrow>
     kv \<in> set kvs \<or> kv = (k, v) \<or> (\<exists>w. (k, w) \<in> set kvs \<and> kv = (k, f w))"
  by (induction kvs) (auto split: if_splits)

lemma merge_json_entries_lookup:
  "distinct (map fst ov) \<Longrightarrow> map_of (merge_json_entries merged ov) k =
     (case map_of ov k of None \<Rightarrow> map_of merged k
      | Some v \<Rightarrow> Some (case map_of merged k of Some w \<Rightarrow> deep_merge_json w v | None \<Rightarrow> v))"
proof (induction ov arbitrary: merged)
  case (Cons kv ov)
  obtain k' v where kv: "kv = (k', v)" by force
  have "k = k' \<Longrightarrow> map_of ov k = None" using Cons.prems kv by (auto simp: map_of_eq_None_iff)
  then show ?case using Cons kv by (auto simp: map_of_insert_or_modify split: option.splits)
qed simp

lemma merge_json_entries_keys:
  "distinct (map fst ov) \<Longrightarrow>
     map fst (merge_json_entries merged ov) = map fst merged @ filter (\<lambda>k. k \<notin> set (map fst merged)) (map fst ov)"
proof (induction ov arbitrary: merged)
  case (Cons kv ov)
  obtain k v where kv: "kv = (k, v)" by force
  let ?m = "insert_or_modify k (\<lambda>b. deep_merge_json b v) v merged"
  have keys: "set (map fst ?m) = insert k (set (map fst merged))"
    unfolding fst_insert_or_modify by auto
  have "filter (\<lambda>k'. k' \<notin> set (map fst ?m)) (map fst ov) =
      filter (\<lambda>k'. k' \<notin> set (map fst merged)) (map fst ov)"
    unfolding keys using Cons.prems kv by (intro filter_cong) auto
  then have "map fst (merge_json_entries ?m ov) =
      map fst ?m @ filter (\<lambda>k'. k' \<notin> set (map fst merged)) (map fst ov)"
    using Cons.prems Cons.IH [of ?m] kv by simp
  then show ?case by (simp add: kv fst_insert_or_modify del: set_map)
qed simp

lemma wf_deep_merge:
  "wf_json b \<Longrightarrow> wf_json ov \<Longrightarrow> wf_json (deep_merge_json b ov)"
  "distinct (map fst merged) \<Longrightarrow> \<forall>kv \<in> set merged. wf_json (snd kv) \<Longrightarrow> distinct (map fst kvs) \<Longrightarrow>
     \<forall>kv \<in> set kvs. wf_json (snd kv) \<Longrightarrow> wf_json (JObject (merge_json_entries merged kvs))"
proof (induction b ov and merged kvs rule: deep_merge_json_merge_json_entries.induct)
  case (1 b ov)
  show ?case
  proof (cases "(\<exists>kvs. b = JObject kvs) \<and> (\<exists>kvs. ov = JObject kvs)")
    case True
    then obtain bs os where "b = JObject bs" "ov = JObject os" by blast
    with 1 show ?thesis by (simp add: deep_merge_objects)
  next
    case False
    then show ?thesis using 1(3) by (simp add: deep_merge_other)
  qed
next
  case (3 merged k v ov)
  let ?m = "insert_or_modify k (\<lambda>b. deep_merge_json b v) v merged"
  have "\<forall>kv \<in> set ?m. wf_json (snd kv)"
    using 3 by (fastforce dest: set_insert_or_modify)
  moreover have "distinct (map fst ?m)"
    using 3(3) by (simp add: fst_insert_or_modify del: set_map)
  ultimately show ?case using 3 by simp
qed simp

text \<open>
  Merging two JSON objects keeps them well-formed: an object has each key once, in the
  order of the base with the new keys behind. The value of a key is that of the side that has
  it, and the merge where both have it; anything but two objects is replaced as a whole.
\<close>

lemma deep_merge_json_correct:
  assumes "wf_json b" "wf_json ov"
  shows "wf_json (deep_merge_json b ov) \<and>
    (case (b, ov) of
       (JObject bs, JObject os) \<Rightarrow>
         \<exists>kvs. deep_merge_json b ov = JObject kvs \<and>
           map fst kvs = map fst bs @ filter (\<lambda>k. k \<notin> set (map fst bs)) (map fst os) \<and>
           (\<forall>k. map_of kvs k =
             (case (map_of bs k, map_of os k) of
                (Some w, Some v) \<Rightarrow> Some (deep_merge_json w v)
              | (w, None) \<Rightarrow> w
              | (None, v) \<Rightarrow> v))
     | _ \<Rightarrow> deep_merge_json b ov = ov)"
proof (cases "(\<exists>kvs. b = JObject kvs) \<and> (\<exists>kvs. ov = JObject kvs)")
  case True
  then obtain bs os where "b = JObject bs" "ov = JObject os" by blast
  then show ?thesis
    using assms wf_deep_merge(1) [OF assms] merge_json_entries_keys [of os bs] merge_json_entries_lookup [of os bs]
    by (auto simp: deep_merge_objects split: option.splits)
next
  case False
  then show ?thesis using assms by (auto simp: deep_merge_other split: json.splits)
qed

section \<open>Capture roles\<close>

definition canonical_mappings :: "raw_workspace_settings \<Rightarrow> semantic_token_capture_mappings option" where
  "canonical_mappings raw =
     Option.bind (rw_features raw) (\<lambda>f. Option.bind (fs_semantic_tokens f) st_capture_mappings)"

definition legacy_mappings :: "raw_workspace_settings \<Rightarrow> semantic_token_capture_mappings option" where
  "legacy_mappings raw = Option.bind (rw_capture_mappings raw) legacy_capture_mappings_to_semantic"

definition capture_role :: "raw_workspace_settings \<Rightarrow> string \<Rightarrow> string \<Rightarrow> string option" where
  "capture_role raw language capture =
     Option.bind (lookup_in (canonical_mappings raw) language) (\<lambda>m. fmlookup m capture)"

text \<open>
  The role of a capture in a list of mappings, the most specific first: an empty mapping hides
  all below it, an empty entry of a language hides those of that language.
\<close>

definition role_in :: "semantic_token_capture_mappings option list \<Rightarrow> string \<Rightarrow> string \<Rightarrow> string option" where
  "role_in layers language capture =
     first_some (map (\<lambda>m. fmlookup m capture)
       (visible (map (\<lambda>m. fmlookup m language) (visible layers))))"

lemma lookup_fmadd: "fmlookup (m ++\<^sub>f n) k = or_else (fmlookup n k) (fmlookup m k)"
  by (cases "fmlookup n k") (auto simp: fmlookup_dom_iff)

lemma merge_found_role:
  "Option.bind (merge_found (\<lambda>entry ov. if ov = fmempty then fmempty else entry ++\<^sub>f ov) ms)
       (\<lambda>m. fmlookup m c) = first_some (map (\<lambda>m. fmlookup m c) (visible ms))"
proof (induction ms)
  case (Cons m ms)
  then show ?case
    by (cases m) (auto simp: lookup_fmadd config_simps split: option.splits)
qed simp

lemma role_of_merged:
  "Option.bind (lookup_in
      (foldr (\<lambda>m acc. merge_semantic_token_capture_mappings acc m) layers None) language)
      (\<lambda>m. fmlookup m capture) = role_in layers language capture"
  by (simp add: map_merges(5) merged_maps entry_of_def merge_found_role role_in_def)

section \<open>Features\<close>

text \<open>A field of one feature, or nothing when the feature is not configured.\<close>

definition feature ::
  "(feature_settings \<Rightarrow> 'f option) \<Rightarrow> ('f \<Rightarrow> 'a option) \<Rightarrow> feature_settings option \<Rightarrow> 'a option" where
  "feature section field fs = Option.bind fs (\<lambda>f. Option.bind (section f) field)"

lemmas feature_defs = feature_def merge_features_def merge_debounce_def
  merge_semantic_token_feature_settings_def

lemma merge_features_fields:
  "feature fs_publish_diagnostics df_debounce_ms (merge_features b ov) =
     or_else (feature fs_publish_diagnostics df_debounce_ms ov) (feature fs_publish_diagnostics df_debounce_ms b)"
  "feature fs_publish_diagnostics df_max_wait_ms (merge_features b ov) =
     or_else (feature fs_publish_diagnostics df_max_wait_ms ov) (feature fs_publish_diagnostics df_max_wait_ms b)"
  "feature fs_diagnostic_refresh df_debounce_ms (merge_features b ov) =
     or_else (feature fs_diagnostic_refresh df_debounce_ms ov) (feature fs_diagnostic_refresh df_debounce_ms b)"
  "feature fs_diagnostic_refresh df_max_wait_ms (merge_features b ov) =
     or_else (feature fs_diagnostic_refresh df_max_wait_ms ov) (feature fs_diagnostic_refresh df_max_wait_ms b)"
  "feature fs_log_message lm_log_level (merge_features b ov) =
     or_else (feature fs_log_message lm_log_level ov) (feature fs_log_message lm_log_level b)"
  "feature fs_semantic_tokens st_capture_mappings b = None \<Longrightarrow>
     feature fs_semantic_tokens st_capture_mappings ov = None \<Longrightarrow>
     feature fs_semantic_tokens st_capture_mappings (merge_features b ov) = None"
  by (cases b; cases ov;
      auto simp: feature_defs merge_semantic_token_capture_mappings_def config_simps
        split: option.splits)+

lemma take_mappings:
  "fst (take_semantic_token_capture_mappings fs) = feature fs_semantic_tokens st_capture_mappings fs"
  "feature fs_semantic_tokens st_capture_mappings (snd (take_semantic_token_capture_mappings fs)) = None"
  "feature fs_publish_diagnostics f1 (snd (take_semantic_token_capture_mappings fs)) = feature fs_publish_diagnostics f1 fs"
  "feature fs_diagnostic_refresh f2 (snd (take_semantic_token_capture_mappings fs)) = feature fs_diagnostic_refresh f2 fs"
  "feature fs_log_message f3 (snd (take_semantic_token_capture_mappings fs)) = feature fs_log_message f3 fs"
  by (auto simp: take_semantic_token_capture_mappings_def feature_def split: option.splits)

lemma set_mappings:
  "feature fs_semantic_tokens st_capture_mappings (set_semantic_token_capture_mappings fs m) =
     or_else m (feature fs_semantic_tokens st_capture_mappings fs)"
  "feature fs_publish_diagnostics f1 (set_semantic_token_capture_mappings fs m) = feature fs_publish_diagnostics f1 fs"
  "feature fs_diagnostic_refresh f2 (set_semantic_token_capture_mappings fs m) = feature fs_diagnostic_refresh f2 fs"
  "feature fs_log_message f3 (set_semantic_token_capture_mappings fs m) = feature fs_log_message f3 fs"
  by (auto simp: set_semantic_token_capture_mappings_def feature_def get_or_insert_def Let_def
      feature_settings_default_def split: option.splits)

lemma canonical_feature: "canonical_mappings raw = feature fs_semantic_tokens st_capture_mappings (rw_features raw)"
  by (simp add: canonical_mappings_def feature_def)

lemma merge_mappings_None [simp]:
  "merge_semantic_token_capture_mappings None m = m" "merge_semantic_token_capture_mappings m None = m"
  by (simp_all add: map_merges)

lemma normalize_mappings:
  "canonical_mappings (normalize_deprecated_capture_mappings s) =
     merge_semantic_token_capture_mappings (legacy_mappings s) (canonical_mappings s)"
  "rw_capture_mappings (normalize_deprecated_capture_mappings s) = None"
  by (auto simp: normalize_deprecated_capture_mappings_def canonical_mappings_def legacy_mappings_def
      get_or_insert_def Let_def feature_settings_default_def semantic_tokens_feature_settings_default_def
      split: option.splits)

lemma normalize_fields:
  "rw_search_paths (normalize_deprecated_capture_mappings s) = rw_search_paths s"
  "rw_languages (normalize_deprecated_capture_mappings s) = rw_languages s"
  "rw_auto_install (normalize_deprecated_capture_mappings s) = rw_auto_install s"
  "rw_diagnostics_debounce_ms (normalize_deprecated_capture_mappings s) = rw_diagnostics_debounce_ms s"
  "rw_language_servers (normalize_deprecated_capture_mappings s) = rw_language_servers s"
  "feature fs_publish_diagnostics f1 (rw_features (normalize_deprecated_capture_mappings s)) =
     feature fs_publish_diagnostics f1 (rw_features s)"
  "feature fs_diagnostic_refresh f2 (rw_features (normalize_deprecated_capture_mappings s)) =
     feature fs_diagnostic_refresh f2 (rw_features s)"
  "feature fs_log_message f3 (rw_features (normalize_deprecated_capture_mappings s)) =
     feature fs_log_message f3 (rw_features s)"
  by (auto simp: normalize_deprecated_capture_mappings_def feature_def get_or_insert_def Let_def
      feature_settings_default_def split: option.splits)

section \<open>Two layers of settings\<close>

text \<open>
  C39: Merging two layers of settings leaves no deprecated spelling behind. The role of a
  capture is looked up in the overlay's mappings, its deprecated mappings, and then those of
  the base in the same order; every other field is the overlay's where it is set, and the
  entries of languages and servers are merged per key.
\<close>

theorem merge_workspace_settings_correct:
  "\<exists>r. merge_workspace_settings (Some base) (Some overlay) = Some r \<and>
     rw_capture_mappings r = None \<and>
     (\<forall>language capture. capture_role r language capture =
        role_in [canonical_mappings overlay, legacy_mappings overlay,
                 canonical_mappings base, legacy_mappings base] language capture) \<and>
     rw_search_paths r = or_else (rw_search_paths overlay) (rw_search_paths base) \<and>
     rw_auto_install r = or_else (rw_auto_install overlay) (rw_auto_install base) \<and>
     rw_diagnostics_debounce_ms r =
       or_else (rw_diagnostics_debounce_ms overlay) (rw_diagnostics_debounce_ms base) \<and>
     feature fs_publish_diagnostics df_debounce_ms (rw_features r) =
       or_else (feature fs_publish_diagnostics df_debounce_ms (rw_features overlay))
               (feature fs_publish_diagnostics df_debounce_ms (rw_features base)) \<and>
     feature fs_publish_diagnostics df_max_wait_ms (rw_features r) =
       or_else (feature fs_publish_diagnostics df_max_wait_ms (rw_features overlay))
               (feature fs_publish_diagnostics df_max_wait_ms (rw_features base)) \<and>
     feature fs_diagnostic_refresh df_debounce_ms (rw_features r) =
       or_else (feature fs_diagnostic_refresh df_debounce_ms (rw_features overlay))
               (feature fs_diagnostic_refresh df_debounce_ms (rw_features base)) \<and>
     feature fs_diagnostic_refresh df_max_wait_ms (rw_features r) =
       or_else (feature fs_diagnostic_refresh df_max_wait_ms (rw_features overlay))
               (feature fs_diagnostic_refresh df_max_wait_ms (rw_features base)) \<and>
     feature fs_log_message lm_log_level (rw_features r) =
       or_else (feature fs_log_message lm_log_level (rw_features overlay))
               (feature fs_log_message lm_log_level (rw_features base)) \<and>
     (\<forall>language. fmlookup (rw_languages r) language =
        merge_found merge_language_settings
          [fmlookup (rw_languages overlay) language, fmlookup (rw_languages base) language]) \<and>
     (\<forall>server. lookup_in (rw_language_servers r) server =
        entry_of merge_bridge_server_configs
          [rw_language_servers overlay, rw_language_servers base] server)"
proof -
  obtain r where r: "merge_workspace_settings (Some base) (Some overlay) = Some r"
    by (simp add: merge_workspace_settings_def Let_def split_beta)
  then have fields:
    "rw_capture_mappings r = None"
    "rw_search_paths r = or_else (rw_search_paths overlay) (rw_search_paths base)"
    "rw_auto_install r = or_else (rw_auto_install overlay) (rw_auto_install base)"
    "rw_diagnostics_debounce_ms r =
       or_else (rw_diagnostics_debounce_ms overlay) (rw_diagnostics_debounce_ms base)"
    "rw_languages r = merge_languages (rw_languages base) (rw_languages overlay)"
    "rw_language_servers r = merge_language_servers (rw_language_servers base) (rw_language_servers overlay)"
    "rw_features r = set_semantic_token_capture_mappings
       (merge_features (snd (take_semantic_token_capture_mappings (rw_features (normalize_deprecated_capture_mappings base))))
         (snd (take_semantic_token_capture_mappings (rw_features overlay))))
       (foldr (\<lambda>m acc. merge_semantic_token_capture_mappings acc m)
          [canonical_mappings overlay, legacy_mappings overlay, canonical_mappings base, legacy_mappings base] None)"
    by (auto simp: merge_workspace_settings_def Let_def split_beta normalize_fields normalize_mappings
        take_mappings canonical_feature [symmetric] legacy_mappings_def split: option.splits)
  let ?layers = "[canonical_mappings overlay, legacy_mappings overlay, canonical_mappings base, legacy_mappings base]"
  have "canonical_mappings r =
      foldr (\<lambda>m acc. merge_semantic_token_capture_mappings acc m) ?layers None"
    unfolding canonical_feature [of r] fields(7)
    by (simp only: set_mappings merge_features_fields(6) take_mappings(2) config_simps)
  then have roles: "capture_role r language capture = role_in ?layers language capture" for language capture
    unfolding capture_role_def by (simp only: role_of_merged)
  have "fmlookup (rw_languages r) language = merge_found merge_language_settings
      [fmlookup (rw_languages overlay) language, fmlookup (rw_languages base) language]" for language
    by (simp add: fields(5) merge_languages_def config_simps split: option.splits)
  moreover have "lookup_in (rw_language_servers r) server = entry_of merge_bridge_server_configs
      [rw_language_servers overlay, rw_language_servers base] server" for server
    using merged_maps [where f = merge_bridge_server_configs
        and ms = "[rw_language_servers overlay, rw_language_servers base]"]
    by (simp add: fields(6) map_merges)
  ultimately show ?thesis
    using r fields(1-4) roles
    by (simp add: fields(7) set_mappings merge_features_fields take_mappings normalize_fields)
qed

end
