(* ===== verification/Config_Effective.thy ===== *)
theory Config_Effective
  imports Config_Workspace "HOL-Library.List_Lexorder" "HOL-Library.Char_ord"
begin

text \<open>
  The effective settings: \<open>config.rs\<close>, the resolution of defaults in \<open>config/settings.rs\<close>,
  the walk over path fields of \<open>config/paths.rs\<close> and the expansion of \<open>config/expand.rs\<close>.
  The platform's search paths and the \<open>shellexpand\<close> crate are parameters. The order of
  strings is that of their characters.
\<close>

section \<open>Resolved features\<close>

definition default_publish_diagnostics_debounce_ms :: u64 where
  "default_publish_diagnostics_debounce_ms = 100"

definition default_publish_diagnostics_max_wait_ms :: u64 where
  "default_publish_diagnostics_max_wait_ms = 1000"

definition default_workspace_diagnostic_refresh_debounce_ms :: u64 where
  "default_workspace_diagnostic_refresh_debounce_ms = 100"

definition default_workspace_diagnostic_refresh_max_wait_ms :: u64 where
  "default_workspace_diagnostic_refresh_max_wait_ms = 1000"

definition max_feature_timing_ms :: u64 where
  "max_feature_timing_ms = 86400000"

definition default_debounce_ms :: u64 where
  "default_debounce_ms = 500"

record resolved_debounce_feature_settings =
  rd_debounce_ms :: u64
  rd_max_wait_ms :: u64

record resolved_feature_settings =
  rf_publish_diagnostics :: resolved_debounce_feature_settings
  rf_log_message :: log_message_level
  rf_diagnostic_refresh :: resolved_debounce_feature_settings

definition unwrap_or :: "'a \<Rightarrow> 'a option \<Rightarrow> 'a" where
  "unwrap_or d x = (case x of Some y \<Rightarrow> y | None \<Rightarrow> d)"

definition resolved_feature_settings_default :: resolved_feature_settings where
  "resolved_feature_settings_default =
     \<lparr>rf_publish_diagnostics =
        \<lparr>rd_debounce_ms = default_workspace_diagnostic_refresh_debounce_ms,
         rd_max_wait_ms = default_workspace_diagnostic_refresh_max_wait_ms\<rparr>,
      rf_log_message = Level_Info,
      rf_diagnostic_refresh =
        \<lparr>rd_debounce_ms = default_workspace_diagnostic_refresh_debounce_ms,
         rd_max_wait_ms = default_workspace_diagnostic_refresh_max_wait_ms\<rparr>\<rparr>"

definition resolve_features :: "feature_settings \<Rightarrow> resolved_feature_settings" where
  "resolve_features fs =
     (let publish = fs_publish_diagnostics fs; refresh = fs_diagnostic_refresh fs
      in \<lparr>rf_publish_diagnostics =
            \<lparr>rd_debounce_ms = unwrap_or default_publish_diagnostics_debounce_ms
               (Option.bind publish df_debounce_ms),
             rd_max_wait_ms = unwrap_or default_publish_diagnostics_max_wait_ms
               (Option.bind publish df_max_wait_ms)\<rparr>,
          rf_log_message = unwrap_or Level_Info (Option.bind (fs_log_message fs) lm_log_level),
          rf_diagnostic_refresh =
            \<lparr>rd_debounce_ms = unwrap_or default_workspace_diagnostic_refresh_debounce_ms
               (Option.bind refresh df_debounce_ms),
             rd_max_wait_ms = unwrap_or default_workspace_diagnostic_refresh_max_wait_ms
               (Option.bind refresh df_max_wait_ms)\<rparr>\<rparr>)"

section \<open>Conversion\<close>

record workspace_settings =
  ws_search_paths :: "string list"
  ws_languages :: "(string, language_settings) fmap"
  ws_capture_mappings :: capture_mappings
  ws_auto_install :: bool
  ws_diagnostics_debounce_ms :: u64
  ws_features :: resolved_feature_settings
  ws_language_servers :: "(string, bridge_server_config) fmap"

definition base_convert :: "string list \<Rightarrow> raw_workspace_settings \<Rightarrow> workspace_settings" where
  "base_convert default_search_paths raw =
     (let legacy = Option.bind (rw_capture_mappings raw) legacy_capture_mappings_to_semantic;
          canonical = Option.bind (rw_features raw)
            (\<lambda>f. Option.bind (fs_semantic_tokens f) st_capture_mappings)
      in \<lparr>ws_search_paths = unwrap_or default_search_paths (rw_search_paths raw),
          ws_languages = rw_languages raw,
          ws_capture_mappings = fmmap (\<lambda>highlights. \<lparr>qt_highlights = Some highlights\<rparr>)
            (unwrap_or fmempty (merge_semantic_token_capture_mappings legacy canonical)),
          ws_auto_install = unwrap_or True (rw_auto_install raw),
          ws_diagnostics_debounce_ms = unwrap_or default_debounce_ms (rw_diagnostics_debounce_ms raw),
          ws_features = (case rw_features raw of None \<Rightarrow> resolved_feature_settings_default
                         | Some f \<Rightarrow> resolve_features f),
          ws_language_servers = unwrap_or fmempty (rw_language_servers raw)\<rparr>)"

section \<open>Paths\<close>

datatype expand_error =
    UndefinedVar string string
  | NoHomeDir string
  | InvalidSetting string u64 u64

text \<open>
  \<open>shellexpand::full_with_context\<close>, a parameter, is given the home directory and a lookup
  that fails for an undefined variable.
\<close>

type_synonym shell_expander =
  "string \<Rightarrow> string option \<Rightarrow> (string \<Rightarrow> expand_error + string) \<Rightarrow> expand_error + string"

definition expand_path ::
  "shell_expander \<Rightarrow> string option \<Rightarrow> (string \<Rightarrow> string option) \<Rightarrow> string \<Rightarrow> expand_error + string" where
  "expand_path full_with_context home env_fn input =
     (if home = None \<and> (input = ''~'' \<or> take 2 input = ''~/'') then Inl (NoHomeDir input)
      else full_with_context input home
        (\<lambda>var. case env_fn var of Some val \<Rightarrow> Inr val | None \<Rightarrow> Inl (UndefinedVar var input)))"

text \<open>
  The walk of \<open>path_fields_mut\<close>: the paths in its order, and the settings with every path
  replaced.
\<close>

definition language_paths :: "language_settings \<Rightarrow> string list" where
  "language_paths s =
     (case ls_parser s of Some p \<Rightarrow> [p] | None \<Rightarrow> []) @
     (case ls_queries s of Some qs \<Rightarrow> map qi_path qs | None \<Rightarrow> [])"

definition path_fields :: "string list \<Rightarrow> (string, language_settings) fmap \<Rightarrow> string list" where
  "path_fields search_paths languages =
     search_paths @
     concat (map (\<lambda>name. language_paths (language_or_default languages name))
       (sorted_list_of_fset (fmdom languages)))"

definition map_language_paths :: "(string \<Rightarrow> string) \<Rightarrow> language_settings \<Rightarrow> language_settings" where
  "map_language_paths f s =
     s\<lparr>ls_parser := map_option f (ls_parser s),
       ls_queries := map_option (map (\<lambda>q. q\<lparr>qi_path := f (qi_path q)\<rparr>)) (ls_queries s)\<rparr>"

definition path_errors :: "(string \<Rightarrow> expand_error + string) \<Rightarrow> string list \<Rightarrow> expand_error list" where
  "path_errors expand paths =
     concat (map (\<lambda>p. case expand p of Inl e \<Rightarrow> [e] | Inr _ \<Rightarrow> []) paths)"

definition expanded_or_kept :: "(string \<Rightarrow> expand_error + string) \<Rightarrow> string \<Rightarrow> string" where
  "expanded_or_kept expand p = (case expand p of Inl _ \<Rightarrow> p | Inr q \<Rightarrow> q)"

definition timing_errors :: "string \<Rightarrow> resolved_debounce_feature_settings \<Rightarrow> expand_error list" where
  "timing_errors section t =
     (if rd_max_wait_ms t = 0 \<or> rd_debounce_ms t > max_feature_timing_ms \<or>
         rd_max_wait_ms t > max_feature_timing_ms \<or> rd_max_wait_ms t < rd_debounce_ms t
      then [InvalidSetting section (rd_debounce_ms t) (rd_max_wait_ms t)] else [])"

definition try_from_settings ::
  "string list \<Rightarrow> shell_expander \<Rightarrow> string option \<Rightarrow> (string \<Rightarrow> string option) \<Rightarrow>
     raw_workspace_settings \<Rightarrow> expand_error list + workspace_settings" where
  "try_from_settings default_search_paths full_with_context home env_fn raw =
     (let ws = base_convert default_search_paths raw;
          timing =
            timing_errors ''textDocument/publishDiagnostics'' (rf_publish_diagnostics (ws_features ws)) @
            timing_errors ''workspace/diagnostic/refresh'' (rf_diagnostic_refresh (ws_features ws));
          languages = resolve_base_configs (ws_languages ws);
          expand = expand_path full_with_context home env_fn;
          errors = timing @ path_errors expand (path_fields (ws_search_paths ws) languages);
          ws = ws\<lparr>ws_search_paths := map (expanded_or_kept expand) (ws_search_paths ws),
                  ws_languages := fmmap (map_language_paths (expanded_or_kept expand)) languages\<rparr>
      in if errors = [] then Inr ws else Inl errors)"

text \<open>The timing a debounced feature may have.\<close>

definition timing_ok :: "resolved_debounce_feature_settings \<Rightarrow> bool" where
  "timing_ok t \<longleftrightarrow> rd_max_wait_ms t \<noteq> 0 \<and> rd_debounce_ms t \<le> rd_max_wait_ms t \<and>
     rd_max_wait_ms t \<le> max_feature_timing_ms"

lemma timing_errors_iff: "timing_errors section t = [] \<longleftrightarrow> timing_ok t"
  by (auto simp: timing_errors_def timing_ok_def not_le not_less)

lemma path_errors_iff: "path_errors expand ps = [] \<longleftrightarrow> list_all (\<lambda>p. \<not> isl (expand p)) ps"
  by (auto simp: path_errors_def list_all_iff isl_def split: sum.splits)

lemma expanded_path: "\<not> isl (expand p) \<Longrightarrow> Inr (expanded_or_kept expand p) = expand p"
  by (cases "expand p") (simp_all add: expanded_or_kept_def)

lemma language_paths_map: "language_paths (map_language_paths f s) = map f (language_paths s)"
  by (auto simp: language_paths_def map_language_paths_def split: option.splits)

lemma path_fields_map:
  "path_fields (map f ps) (fmmap (map_language_paths f) languages) = map f (path_fields ps languages)"
proof -
  have "language_paths (language_or_default (fmmap (map_language_paths f) languages) n) =
      map f (language_paths (language_or_default languages n))" for n
  proof (cases "fmlookup languages n")
    case None
    then show ?thesis
      by (simp add: language_or_default_def language_paths_def language_settings_default_def)
  next
    case (Some s)
    then show ?thesis by (simp add: language_or_default_def language_paths_map)
  qed
  then show ?thesis by (simp add: path_fields_def map_concat comp_def)
qed

text \<open>
  C38: Settings take effect only when they are sound: both debounced features have a positive
  maximal wait of at most a day that is no shorter than their debounce, and every path of the
  resolved languages and the search paths has been expanded; the settings in force hold those
  expansions. Otherwise errors are reported and one of the conditions indeed fails.
\<close>

theorem try_from_settings_correct:
  "let features = ws_features (base_convert default_search_paths raw);
       paths = path_fields (unwrap_or default_search_paths (rw_search_paths raw))
                 (resolve_base_configs (rw_languages raw))
   in case try_from_settings default_search_paths full home env_fn raw of
        Inr ws \<Rightarrow> timing_ok (rf_publish_diagnostics (ws_features ws)) \<and>
          timing_ok (rf_diagnostic_refresh (ws_features ws)) \<and>
          map Inr (path_fields (ws_search_paths ws) (ws_languages ws)) =
            map (expand_path full home env_fn) paths
      | Inl errors \<Rightarrow> errors \<noteq> [] \<and>
          \<not> (timing_ok (rf_publish_diagnostics features) \<and> timing_ok (rf_diagnostic_refresh features) \<and>
             list_all (\<lambda>p. \<not> isl (expand_path full home env_fn p)) paths)"
proof -
  let ?ws = "base_convert default_search_paths raw"
  have same: "ws_search_paths ?ws = unwrap_or default_search_paths (rw_search_paths raw)"
    "ws_languages ?ws = rw_languages raw"
    by (simp_all add: base_convert_def Let_def)
  show ?thesis
    by (auto simp: try_from_settings_def Let_def timing_errors_iff path_errors_iff path_fields_map
        expanded_path list_all_iff simp flip: same)
qed

section \<open>Automatic installation\<close>

datatype auto_install_source = Language | Wildcard | TopLevel

definition auto_install_decision :: "workspace_settings \<Rightarrow> string \<Rightarrow> auto_install_source \<times> bool" where
  "auto_install_decision ws language =
     unwrap_or (TopLevel, ws_auto_install ws)
       (case fmlookup (ws_languages ws) language of
          Some s \<Rightarrow> map_option (\<lambda>enabled. (Language, enabled)) (ls_auto_install s)
        | None \<Rightarrow> map_option (\<lambda>enabled. (Wildcard, enabled))
            (Option.bind (fmlookup (ws_languages ws) wildcard_key) ls_auto_install))"

definition auto_install_for :: "workspace_settings \<Rightarrow> string \<Rightarrow> bool" where
  "auto_install_for ws language = snd (auto_install_decision ws language)"

definition resolve_host_language_settings :: "workspace_settings \<Rightarrow> string \<Rightarrow> language_settings option" where
  "resolve_host_language_settings ws host_language =
     or_else (fmlookup (ws_languages ws) host_language) (fmlookup (ws_languages ws) wildcard_key)"

lemma resolved_auto_install:
  "Option.bind (fmlookup (resolve_base_configs languages) name) ls_auto_install =
     (if name |\<in>| fmdom languages then first_some (map ls_auto_install (chain_settings languages name)) else None)"
proof (cases "fmlookup languages name")
  case None
  then show ?thesis by (auto simp: resolve_base_configs_def fmlookup_dom_iff)
next
  case (Some s)
  then obtain r where
    "reduce merge_language_settings (map (language_or_default languages) (rev (build_base_chain name languages))) = Some r"
    "fmlookup (resolve_base_configs languages) name = Some (r\<lparr>ls_base := ls_base s\<rparr>)"
    by (rule resolved_settings)
  then show ?thesis
    using Some auto_install.field_chain [of "build_base_chain name languages" "language_or_default languages"]
    by (simp add: chain_settings_def comp_def fmlookup_dom_iff build_base_chain_def)
qed

text \<open>
  Whether the parser of a language may be installed is decided by the first language on its
  chain of bases that says so, and by the deprecated workspace setting, on by default, when
  none does. A language without an entry follows the chain of the wildcard entry, and one
  whose chain does not reach the wildcard is not decided by it.
\<close>

lemma auto_install_correct:
  assumes "try_from_settings default_search_paths full home env_fn raw = Inr ws"
  shows "auto_install_for ws language =
    unwrap_or (unwrap_or True (rw_auto_install raw))
      (let name = (if language |\<in>| fmdom (rw_languages raw) then language else wildcard_key)
       in if name |\<in>| fmdom (rw_languages raw)
          then first_some (map ls_auto_install (chain_settings (rw_languages raw) name)) else None)"
proof -
  obtain f where ws: "ws_languages ws = fmmap (map_language_paths f) (resolve_base_configs (rw_languages raw))"
    "ws_auto_install ws = unwrap_or True (rw_auto_install raw)"
    using assms by (auto simp: try_from_settings_def Let_def base_convert_def split: if_splits)
  have same: "Option.bind (map_option (map_language_paths f) x) ls_auto_install = Option.bind x ls_auto_install" for x
    by (cases x) (simp_all add: map_language_paths_def)
  have dom: "fmlookup (resolve_base_configs (rw_languages raw)) n = None \<longleftrightarrow> n |\<notin>| fmdom (rw_languages raw)" for n
    by (auto simp: resolve_base_configs_def fmlookup_dom_iff)
  note at = resolved_auto_install [of "rw_languages raw"]
  show ?thesis
    using at [of language] at [of wildcard_key] dom [of language] same
    by (auto simp: auto_install_for_def auto_install_decision_def ws unwrap_or_def Let_def
        map_language_paths_def split: option.splits)
qed

definition sample_raw :: raw_workspace_settings where
  "sample_raw =
     \<lparr>rw_search_paths = None, rw_languages = sample_languages, rw_capture_mappings = None,
      rw_auto_install = None, rw_diagnostics_debounce_ms = None, rw_features = None,
      rw_language_servers = None\<rparr>"

section \<open>Resolved servers\<close>

definition server_cmd :: "bridge_server_config \<Rightarrow> string list" where
  "server_cmd s = unwrap_or [] (bs_cmd s)"

definition server_languages :: "bridge_server_config \<Rightarrow> string list" where
  "server_languages s = unwrap_or [] (bs_languages s)"

definition is_enabled :: "bridge_server_config \<Rightarrow> bool" where
  "is_enabled s = unwrap_or True (bs_enabled s)"

definition prefers_shared_instance :: "bridge_server_config \<Rightarrow> bool" where
  "prefers_shared_instance s = unwrap_or False (bs_prefer_shared_instance s)"

definition is_spawnable :: "bridge_server_config \<Rightarrow> bool" where
  "is_spawnable s \<longleftrightarrow> server_cmd s \<noteq> [] \<and> is_enabled s"

definition handles_language :: "bridge_server_config \<Rightarrow> string \<Rightarrow> bool" where
  "handles_language s language \<longleftrightarrow> list_ex (\<lambda>l. l = language \<or> l = ''*'') (server_languages s)"

text \<open>The variants that read one field through the wildcard entry instead of merging all.\<close>

definition forces_start_with_wildcard ::
  "bridge_server_config \<Rightarrow> bridge_server_config option \<Rightarrow> bool" where
  "forces_start_with_wildcard s wildcard =
     unwrap_or False (or_else (bs_force_start s) (Option.bind wildcard bs_force_start))"

definition effective_languages_with_wildcard ::
  "bridge_server_config \<Rightarrow> bridge_server_config option \<Rightarrow> string list" where
  "effective_languages_with_wildcard s wildcard =
     (case bs_languages s of
        Some languages \<Rightarrow> languages
      | None \<Rightarrow> unwrap_or [] (map_option server_languages wildcard))"

definition is_spawnable_with_wildcard ::
  "bridge_server_config \<Rightarrow> bridge_server_config option \<Rightarrow> bool" where
  "is_spawnable_with_wildcard s wildcard \<longleftrightarrow>
     (case bs_cmd s of
        Some cmd \<Rightarrow> cmd \<noteq> []
      | None \<Rightarrow> (case wildcard of Some w \<Rightarrow> server_cmd w \<noteq> [] | None \<Rightarrow> False)) \<and>
     unwrap_or True (or_else (bs_enabled s) (Option.bind wildcard bs_enabled))"

definition is_server_spawnable :: "(string, bridge_server_config) fmap \<Rightarrow> string \<Rightarrow> bool" where
  "is_server_spawnable servers name \<longleftrightarrow>
     name \<noteq> wildcard_key \<and>
     (case fmlookup servers name of
        Some config \<Rightarrow> is_spawnable_with_wildcard config (fmlookup servers wildcard_key)
      | None \<Rightarrow> False)"

text \<open>The servers of the map in some order; the triggers are sorted and freed of duplicates.\<close>

definition on_type_formatting_trigger_union ::
  "(string, bridge_server_config) fmap \<Rightarrow> (string \<times> string list) option" where
  "on_type_formatting_trigger_union servers =
     (let wildcard = fmlookup servers wildcard_key;
          wildcard_triggers = Option.bind wildcard bs_on_type_formatting_triggers;
          configs = map (\<lambda>name. the (fmlookup servers name))
            (filter (\<lambda>name. name \<noteq> wildcard_key) (sorted_list_of_fset (fmdom servers)));
          triggers = filter (\<lambda>t. length t = 1)
            (concat (map (\<lambda>s. unwrap_or [] (or_else (bs_on_type_formatting_triggers s) wildcard_triggers))
              (filter (\<lambda>s. is_spawnable_with_wildcard s wildcard) configs)))
      in case remdups_adj (sort triggers) of
           [] \<Rightarrow> None
         | first # others \<Rightarrow> Some (first, others))"

definition any_bridge_server_runnable :: "workspace_settings \<Rightarrow> bool" where
  "any_bridge_server_runnable ws \<longleftrightarrow>
     (let wildcard = fmlookup (ws_language_servers ws) wildcard_key
      in list_ex (\<lambda>name. name \<noteq> wildcard_key \<and>
             is_spawnable_with_wildcard (the (fmlookup (ws_language_servers ws) name)) wildcard)
           (sorted_list_of_fset (fmdom (ws_language_servers ws))))"

interpretation server_cmds: inherited_field merge_bridge_server_configs bs_cmd
  by unfold_locales (simp add: merge_bridge_server_configs_def)

interpretation server_langs: inherited_field merge_bridge_server_configs bs_languages
  by unfold_locales (simp add: merge_bridge_server_configs_def)

interpretation server_enabled: inherited_field merge_bridge_server_configs bs_enabled
  by unfold_locales (simp add: merge_bridge_server_configs_def)

interpretation server_start: inherited_field merge_bridge_server_configs bs_force_start
  by unfold_locales (simp add: merge_bridge_server_configs_def)

interpretation server_triggers: inherited_field merge_bridge_server_configs bs_on_type_formatting_triggers
  by unfold_locales (simp add: merge_bridge_server_configs_def)

text \<open>The whole configuration of a server, merged with the wildcard entry.\<close>

definition merged_server :: "(string, bridge_server_config) fmap \<Rightarrow> string \<Rightarrow> bridge_server_config option" where
  "merged_server servers name =
     (if name = wildcard_key \<or> name |\<notin>| fmdom servers then None
      else resolve_with_wildcard servers name merge_bridge_server_configs)"

lemma merged_fields:
  assumes "merged_server servers name = Some c" "fmlookup servers name = Some s"
  shows "is_spawnable_with_wildcard s (fmlookup servers wildcard_key) = is_spawnable c"
    and "effective_languages_with_wildcard s (fmlookup servers wildcard_key) = server_languages c"
    and "forces_start_with_wildcard s (fmlookup servers wildcard_key) = unwrap_or False (bs_force_start c)"
    and "or_else (bs_on_type_formatting_triggers s)
        (Option.bind (fmlookup servers wildcard_key) bs_on_type_formatting_triggers) =
      bs_on_type_formatting_triggers c"
proof -
  have "resolve_with_wildcard servers name merge_bridge_server_configs = Some c"
    using assms(1) by (auto simp: merged_server_def split: if_splits)
  note via = server_cmds.field_wildcard [OF this] server_langs.field_wildcard [OF this]
    server_enabled.field_wildcard [OF this] server_start.field_wildcard [OF this]
    server_triggers.field_wildcard [OF this]
  show "is_spawnable_with_wildcard s (fmlookup servers wildcard_key) = is_spawnable c"
    by (cases "bs_cmd s"; cases "fmlookup servers wildcard_key")
      (simp_all add: is_spawnable_with_wildcard_def is_spawnable_def server_cmd_def is_enabled_def
        via assms(2) unwrap_or_def)
  show "effective_languages_with_wildcard s (fmlookup servers wildcard_key) = server_languages c"
    by (cases "bs_languages s"; cases "fmlookup servers wildcard_key")
      (simp_all add: effective_languages_with_wildcard_def server_languages_def via assms(2) unwrap_or_def)
  show "forces_start_with_wildcard s (fmlookup servers wildcard_key) = unwrap_or False (bs_force_start c)"
    by (simp add: forces_start_with_wildcard_def via assms(2))
  show "or_else (bs_on_type_formatting_triggers s)
        (Option.bind (fmlookup servers wildcard_key) bs_on_type_formatting_triggers) =
      bs_on_type_formatting_triggers c"
    by (simp add: via assms(2))
qed

lemma merged_server_some:
  "name \<noteq> wildcard_key \<Longrightarrow> fmlookup servers name = Some s \<Longrightarrow> \<exists>c. merged_server servers name = Some c"
  by (auto simp: merged_server_def resolve_with_wildcard_def fmlookup_dom_iff split: option.splits)

lemma merged_server_dest:
  "merged_server servers name = Some c \<Longrightarrow> name \<noteq> wildcard_key \<and> (\<exists>s. fmlookup servers name = Some s)"
  by (auto simp: merged_server_def fmlookup_dom_iff split: if_splits)

text \<open>The servers the code iterates over, read through the merged configurations.\<close>

lemma spawnable_servers:
  "(\<exists>s. fmlookup servers name = Some s \<and> name \<noteq> wildcard_key \<and>
      is_spawnable_with_wildcard s (fmlookup servers wildcard_key) \<and>
      P (or_else (bs_on_type_formatting_triggers s)
          (Option.bind (fmlookup servers wildcard_key) bs_on_type_formatting_triggers))) \<longleftrightarrow>
   (\<exists>c. merged_server servers name = Some c \<and> is_spawnable c \<and> P (bs_on_type_formatting_triggers c))"
proof
  assume "\<exists>s. fmlookup servers name = Some s \<and> name \<noteq> wildcard_key \<and>
      is_spawnable_with_wildcard s (fmlookup servers wildcard_key) \<and>
      P (or_else (bs_on_type_formatting_triggers s)
          (Option.bind (fmlookup servers wildcard_key) bs_on_type_formatting_triggers))"
  then obtain s where s: "fmlookup servers name = Some s" "name \<noteq> wildcard_key"
    "is_spawnable_with_wildcard s (fmlookup servers wildcard_key)"
    "P (or_else (bs_on_type_formatting_triggers s)
          (Option.bind (fmlookup servers wildcard_key) bs_on_type_formatting_triggers))" by blast
  obtain c where c: "merged_server servers name = Some c" using merged_server_some [OF s(2,1)] by blast
  show "\<exists>c. merged_server servers name = Some c \<and> is_spawnable c \<and> P (bs_on_type_formatting_triggers c)"
    using s(3,4) c unfolding merged_fields(1,4) [OF c s(1)] by blast
next
  assume "\<exists>c. merged_server servers name = Some c \<and> is_spawnable c \<and> P (bs_on_type_formatting_triggers c)"
  then obtain c where c: "merged_server servers name = Some c" "is_spawnable c"
    "P (bs_on_type_formatting_triggers c)" by blast
  obtain s where s: "fmlookup servers name = Some s" "name \<noteq> wildcard_key"
    using merged_server_dest [OF c(1)] by blast
  show "\<exists>s. fmlookup servers name = Some s \<and> name \<noteq> wildcard_key \<and>
      is_spawnable_with_wildcard s (fmlookup servers wildcard_key) \<and>
      P (or_else (bs_on_type_formatting_triggers s)
          (Option.bind (fmlookup servers wildcard_key) bs_on_type_formatting_triggers))"
    using c(2,3) s unfolding merged_fields(1,4) [OF c(1) s(1), symmetric] by blast
qed

text \<open>
  Reading a server's command, state, languages and triggers through the wildcard entry
  gives what merging the whole configuration would: the servers that may be spawned are those
  whose merged configuration has a command and is enabled, the wildcard entry never among
  them, and the advertised triggers are exactly the one-character triggers of those servers,
  in order and without duplicates.
\<close>

lemma server_shortcuts_correct:
  "(is_server_spawnable servers name \<longleftrightarrow>
      (case merged_server servers name of Some c \<Rightarrow> is_spawnable c | None \<Rightarrow> False)) \<and>
   (any_bridge_server_runnable (ws\<lparr>ws_language_servers := servers\<rparr>) \<longleftrightarrow>
      (\<exists>name c. merged_server servers name = Some c \<and> is_spawnable c)) \<and>
   (let ts = {t. length t = 1 \<and> (\<exists>name c. merged_server servers name = Some c \<and> is_spawnable c \<and>
                t \<in> set (unwrap_or [] (bs_on_type_formatting_triggers c)))}
    in case on_type_formatting_trigger_union servers of
         None \<Rightarrow> ts = {}
       | Some (first, others) \<Rightarrow> sorted_wrt (<) (first # others) \<and> set (first # others) = ts)"
proof (intro conjI)
  show "is_server_spawnable servers name \<longleftrightarrow>
      (case merged_server servers name of Some c \<Rightarrow> is_spawnable c | None \<Rightarrow> False)"
    using spawnable_servers [of servers name "\<lambda>_. True"]
    by (auto simp: is_server_spawnable_def split: option.splits)
  have "any_bridge_server_runnable (ws\<lparr>ws_language_servers := servers\<rparr>) \<longleftrightarrow>
      (\<exists>name s. fmlookup servers name = Some s \<and> name \<noteq> wildcard_key \<and>
        is_spawnable_with_wildcard s (fmlookup servers wildcard_key))"
    by (fastforce simp: any_bridge_server_runnable_def Let_def list_ex_iff fmlookup_dom_iff)
  then show "any_bridge_server_runnable (ws\<lparr>ws_language_servers := servers\<rparr>) \<longleftrightarrow>
      (\<exists>name c. merged_server servers name = Some c \<and> is_spawnable c)"
    using spawnable_servers [where P = "\<lambda>_. True" and servers = servers] by simp
next
  let ?w = "fmlookup servers wildcard_key"
  let ?own = "\<lambda>s. unwrap_or [] (or_else (bs_on_type_formatting_triggers s)
      (Option.bind ?w bs_on_type_formatting_triggers))"
  define triggers where "triggers = filter (\<lambda>t. length t = 1) (concat (map ?own
      (filter (\<lambda>s. is_spawnable_with_wildcard s ?w) (map (\<lambda>name. the (fmlookup servers name))
        (filter (\<lambda>name. name \<noteq> wildcard_key) (sorted_list_of_fset (fmdom servers)))))))"
  have "t \<in> set triggers \<longleftrightarrow> length t = 1 \<and> (\<exists>name s. fmlookup servers name = Some s \<and> name \<noteq> wildcard_key \<and>
      is_spawnable_with_wildcard s ?w \<and> t \<in> set (?own s))" for t
    by (force simp: triggers_def fmlookup_dom_iff)
  then have own: "t \<in> set triggers \<longleftrightarrow> length t = 1 \<and> (\<exists>name c. merged_server servers name = Some c \<and>
      is_spawnable c \<and> t \<in> set (unwrap_or [] (bs_on_type_formatting_triggers c)))" for t
    using spawnable_servers [where P = "\<lambda>x. t \<in> set (unwrap_or [] x)" and servers = servers] by simp
  then have set: "set triggers = {t. length t = 1 \<and> (\<exists>name c. merged_server servers name = Some c \<and>
      is_spawnable c \<and> t \<in> set (unwrap_or [] (bs_on_type_formatting_triggers c)))}"
    by blast
  have union: "on_type_formatting_trigger_union servers =
      (case remdups_adj (sort triggers) of [] \<Rightarrow> None | first # others \<Rightarrow> Some (first, others))"
    by (simp add: on_type_formatting_trigger_union_def Let_def triggers_def)
  have "sorted_wrt (<) (remdups_adj (sort triggers))" by (simp add: sorted_remdups_adj_strict)
  moreover have "set (remdups_adj (sort triggers)) = set triggers" by simp
  ultimately show "let ts = {t. length t = 1 \<and> (\<exists>name c. merged_server servers name = Some c \<and> is_spawnable c \<and>
                t \<in> set (unwrap_or [] (bs_on_type_formatting_triggers c)))}
    in case on_type_formatting_trigger_union servers of
         None \<Rightarrow> ts = {}
       | Some (first, others) \<Rightarrow> sorted_wrt (<) (first # others) \<and> set (first # others) = ts"
    unfolding union Let_def set [symmetric]
    by (cases "remdups_adj (sort triggers)") auto
qed

end
