(* ===== verification/Config_Bridging.thy ===== *)
theory Config_Bridging
  imports Config_Effective
begin

text \<open>
  The settings of one language applied to a method or an injected language (the methods of
  \<open>BridgeLanguageConfig\<close> and \<open>LanguageSettings\<close> in \<open>config/settings.rs\<close>): which layers and
  servers answer, and in what order.
\<close>

section \<open>Defaults\<close>

definition default_priorities :: "string list" where
  "default_priorities = [''*'']"

definition default_layer_priorities :: "layer_source list" where
  "default_layer_priorities = [Virt, Host, Native]"

definition default_diagnostic_fallback :: bool where
  "default_diagnostic_fallback = True"

definition default_aggregation_strategy_for_method :: "string \<Rightarrow> aggregation_strategy" where
  "default_aggregation_strategy_for_method meth =
     (if meth = ''textDocument/diagnostic'' \<or> meth = ''textDocument/publishDiagnostics'' \<or>
         meth = ''textDocument/codeAction''
      then Concatenated else Preferred)"

definition default_layer_strategy_for_method :: "string \<Rightarrow> aggregation_strategy" where
  "default_layer_strategy_for_method meth =
     (if meth = ''textDocument/formatting'' then Concatenated
      else default_aggregation_strategy_for_method meth)"

section \<open>Layers\<close>

record resolved_layer_config =
  rl_priorities :: "layer_source list"
  rl_strategy :: aggregation_strategy

fun dedup_from :: "layer_source set \<Rightarrow> layer_source list \<Rightarrow> layer_source list" where
  "dedup_from seen [] = []"
| "dedup_from seen (l # ls) =
     (if l \<in> seen then dedup_from seen ls else l # dedup_from (insert l seen) ls)"

definition dedup_layer_priorities :: "layer_source list \<Rightarrow> layer_source list" where
  "dedup_layer_priorities priorities = dedup_from {} priorities"

definition layer_defaults :: "string \<Rightarrow> resolved_layer_config" where
  "layer_defaults meth =
     \<lparr>rl_priorities = default_layer_priorities, rl_strategy = default_layer_strategy_for_method meth\<rparr>"

definition resolve_layers :: "language_settings \<Rightarrow> string \<Rightarrow> resolved_layer_config" where
  "resolve_layers s meth =
     (case Option.bind (Option.bind (ls_layers s) lc_aggregation)
             (\<lambda>m. resolve_with_wildcard m meth merge_layer_aggregation_configs) of
        Some cfg \<Rightarrow>
          \<lparr>rl_priorities = dedup_layer_priorities (unwrap_or default_layer_priorities (la_priorities cfg)),
           rl_strategy = unwrap_or (default_layer_strategy_for_method meth) (la_strategy cfg)\<rparr>
      | None \<Rightarrow> layer_defaults meth)"

definition allows_layer :: "resolved_layer_config \<Rightarrow> layer_source \<Rightarrow> bool" where
  "allows_layer cfg layer \<longleftrightarrow> layer \<in> set (rl_priorities cfg)"

section \<open>Servers\<close>

record resolved_aggregation_config =
  ra_strategy :: aggregation_strategy
  ra_priorities :: "string list"
  ra_max_fan_out :: "nat option"
  ra_pull_fallback :: bool
  ra_push_fallback :: bool

text \<open>\<open>usize::try_from\<close>: a negative limit is none.\<close>

definition fan_out_limit :: "int \<Rightarrow> nat option" where
  "fan_out_limit raw = (if raw < 0 then None else Some (nat raw))"

definition aggregation_defaults :: resolved_aggregation_config where
  "aggregation_defaults =
     \<lparr>ra_strategy = Preferred, ra_priorities = default_priorities, ra_max_fan_out = None,
      ra_pull_fallback = default_diagnostic_fallback, ra_push_fallback = default_diagnostic_fallback\<rparr>"

definition resolve_aggregation :: "bridge_language_config \<Rightarrow> string \<Rightarrow> resolved_aggregation_config" where
  "resolve_aggregation c meth =
     (case Option.bind (bl_aggregation c) (\<lambda>m. resolve_aggregation_for_method m meth) of
        Some entry \<Rightarrow>
          \<lparr>ra_strategy = unwrap_or (default_aggregation_strategy_for_method meth) (ag_strategy entry),
           ra_priorities = unwrap_or default_priorities (ag_priorities entry),
           ra_max_fan_out = Option.bind (ag_max_fan_out entry) fan_out_limit,
           ra_pull_fallback = unwrap_or default_diagnostic_fallback (ag_pull_fallback entry),
           ra_push_fallback = unwrap_or default_diagnostic_fallback (ag_push_fallback entry)\<rparr>
      | None \<Rightarrow>
          \<lparr>ra_strategy = default_aggregation_strategy_for_method meth,
           ra_priorities = default_priorities, ra_max_fan_out = None,
           ra_pull_fallback = default_diagnostic_fallback, ra_push_fallback = default_diagnostic_fallback\<rparr>)"

definition host_bridge_key :: string where
  "host_bridge_key = ''_self''"

definition is_host_bridging_enabled :: "language_settings \<Rightarrow> bool" where
  "is_host_bridging_enabled s =
     unwrap_or False (Option.bind (Option.bind (ls_bridge s) (\<lambda>m. fmlookup m host_bridge_key)) bl_enabled)"

definition resolve_host_aggregation :: "language_settings \<Rightarrow> string \<Rightarrow> resolved_aggregation_config" where
  "resolve_host_aggregation s meth =
     unwrap_or aggregation_defaults
       (map_option (\<lambda>c. resolve_aggregation c meth)
         (Option.bind (ls_bridge s)
           (\<lambda>m. resolve_with_wildcard m host_bridge_key merge_bridge_language_configs)))"

definition is_language_bridgeable :: "language_settings \<Rightarrow> string \<Rightarrow> bool" where
  "is_language_bridgeable s injection_language =
     (case ls_bridge s of
        None \<Rightarrow> True
      | Some m \<Rightarrow>
          if m = fmempty then False
          else (case resolve_with_wildcard m injection_language merge_bridge_language_configs of
                  Some c \<Rightarrow> unwrap_or True (bl_enabled c) | None \<Rightarrow> False))"

definition any_host_bridging_enabled :: "workspace_settings \<Rightarrow> bool" where
  "any_host_bridging_enabled ws \<longleftrightarrow>
     list_ex (\<lambda>name. is_host_bridging_enabled (language_or_default (ws_languages ws) name))
       (sorted_list_of_fset (fmdom (ws_languages ws)))"

section \<open>Fields through the wildcard\<close>

interpretation ag_strategy: inherited_field merge_aggregation_configs ag_strategy
  by unfold_locales (simp add: merge_aggregation_configs_def)

interpretation ag_priorities: inherited_field merge_aggregation_configs ag_priorities
  by unfold_locales (simp add: merge_aggregation_configs_def)

interpretation ag_max_fan_out: inherited_field merge_aggregation_configs ag_max_fan_out
  by unfold_locales (simp add: merge_aggregation_configs_def)

interpretation ag_pull_fallback: inherited_field merge_aggregation_configs ag_pull_fallback
  by unfold_locales (simp add: merge_aggregation_configs_def)

interpretation ag_push_fallback: inherited_field merge_aggregation_configs ag_push_fallback
  by unfold_locales (simp add: merge_aggregation_configs_def)

interpretation bl_enabled: inherited_field merge_bridge_language_configs bl_enabled
  by unfold_locales (simp add: merge_bridge_language_configs_def)

interpretation la_priorities: inherited_field merge_layer_aggregation_configs la_priorities
  by unfold_locales (simp add: merge_layer_aggregation_configs_def)

interpretation la_strategy: inherited_field merge_layer_aggregation_configs la_strategy
  by unfold_locales (simp add: merge_layer_aggregation_configs_def)

definition own_or_wildcard :: "('r \<Rightarrow> 'a option) \<Rightarrow> 'r option \<Rightarrow> 'r option \<Rightarrow> 'a option" where
  "own_or_wildcard field own wild = or_else (Option.bind own field) (Option.bind wild field)"

lemma resolve_with_wildcard_None:
  "resolve_with_wildcard m key merge = None \<longleftrightarrow> fmlookup m key = None \<and> fmlookup m wildcard_key = None"
  by (auto simp: resolve_with_wildcard_def split: option.splits)

lemma aggregation_entry:
  fixes m :: "(string, aggregation_config) fmap" and meth :: string
  defines "own \<equiv> fmlookup m meth"
    and "wild \<equiv> (if meth = bridge_routing_method then None else fmlookup m wildcard_key)"
  shows "resolve_aggregation_for_method m meth = None \<Longrightarrow> own = None \<and> wild = None"
    and "resolve_aggregation_for_method m meth = Some e \<Longrightarrow>
      ag_strategy e = own_or_wildcard ag_strategy own wild \<and>
      ag_priorities e = own_or_wildcard ag_priorities own wild \<and>
      ag_max_fan_out e = own_or_wildcard ag_max_fan_out own wild \<and>
      ag_pull_fallback e = own_or_wildcard ag_pull_fallback own wild \<and>
      ag_push_fallback e = own_or_wildcard ag_push_fallback own wild"
proof -
  assume "resolve_aggregation_for_method m meth = None"
  then show "own = None \<and> wild = None"
    by (auto simp: resolve_aggregation_for_method_def own_def wild_def resolve_with_wildcard_None
        split: if_splits)
next
  assume e: "resolve_aggregation_for_method m meth = Some e"
  show "ag_strategy e = own_or_wildcard ag_strategy own wild \<and>
      ag_priorities e = own_or_wildcard ag_priorities own wild \<and>
      ag_max_fan_out e = own_or_wildcard ag_max_fan_out own wild \<and>
      ag_pull_fallback e = own_or_wildcard ag_pull_fallback own wild \<and>
      ag_push_fallback e = own_or_wildcard ag_push_fallback own wild"
  proof (cases "meth = bridge_routing_method")
    case True
    then show ?thesis using e
      by (simp add: resolve_aggregation_for_method_def own_def wild_def own_or_wildcard_def config_simps)
  next
    case False
    then have "resolve_with_wildcard m meth merge_aggregation_configs = Some e"
      using e by (simp add: resolve_aggregation_for_method_def)
    note fields = ag_strategy.field_wildcard ag_priorities.field_wildcard ag_max_fan_out.field_wildcard
      ag_pull_fallback.field_wildcard ag_push_fallback.field_wildcard
    show ?thesis
      using False fields [OF \<open>resolve_with_wildcard m meth merge_aggregation_configs = Some e\<close>]
      by (simp add: own_def wild_def own_or_wildcard_def)
  qed
qed

lemma dedup_from_correct:
  "distinct (dedup_from seen ls) \<and> set (dedup_from seen ls) = set ls - seen"
  by (induction seen ls rule: dedup_from.induct) auto

text \<open>
  What answers a request follows field by field from the entry of the method and the wildcard
  entry beside it, with the defaults of the method below. The routing request alone does not
  read the wildcard entry, a layer is asked at most once, injected languages are bridged
  unless the entries say otherwise, and the host itself only on an explicit opt-in.
\<close>

lemma bridging_resolution_correct:
  "(let own = lookup_in (bl_aggregation c) meth;
        wild = (if meth = bridge_routing_method then None else lookup_in (bl_aggregation c) wildcard_key);
        r = resolve_aggregation c meth
    in ra_strategy r = unwrap_or (default_aggregation_strategy_for_method meth) (own_or_wildcard ag_strategy own wild) \<and>
       ra_priorities r = unwrap_or default_priorities (own_or_wildcard ag_priorities own wild) \<and>
       ra_max_fan_out r = Option.bind (own_or_wildcard ag_max_fan_out own wild) fan_out_limit \<and>
       ra_pull_fallback r = unwrap_or True (own_or_wildcard ag_pull_fallback own wild) \<and>
       ra_push_fallback r = unwrap_or True (own_or_wildcard ag_push_fallback own wild)) \<and>
   (let own = lookup_in (layer_entries s) meth; wild = lookup_in (layer_entries s) wildcard_key;
        r = resolve_layers s meth
    in rl_strategy r = unwrap_or (default_layer_strategy_for_method meth) (own_or_wildcard la_strategy own wild) \<and>
       distinct (rl_priorities r) \<and>
       (\<forall>layer. allows_layer r layer \<longleftrightarrow>
          layer \<in> set (unwrap_or default_layer_priorities (own_or_wildcard la_priorities own wild)))) \<and>
   (let own = lookup_in (ls_bridge s) language; wild = lookup_in (ls_bridge s) wildcard_key
    in is_language_bridgeable s language \<longleftrightarrow>
         ls_bridge s = None \<or> \<not> (own = None \<and> wild = None) \<and>
           unwrap_or True (own_or_wildcard bl_enabled own wild)) \<and>
   (is_host_bridging_enabled s \<longleftrightarrow>
      Option.bind (lookup_in (ls_bridge s) host_bridge_key) bl_enabled = Some True)"
proof (intro conjI)
  show "let own = lookup_in (bl_aggregation c) meth;
        wild = (if meth = bridge_routing_method then None else lookup_in (bl_aggregation c) wildcard_key);
        r = resolve_aggregation c meth
    in ra_strategy r = unwrap_or (default_aggregation_strategy_for_method meth) (own_or_wildcard ag_strategy own wild) \<and>
       ra_priorities r = unwrap_or default_priorities (own_or_wildcard ag_priorities own wild) \<and>
       ra_max_fan_out r = Option.bind (own_or_wildcard ag_max_fan_out own wild) fan_out_limit \<and>
       ra_pull_fallback r = unwrap_or True (own_or_wildcard ag_pull_fallback own wild) \<and>
       ra_push_fallback r = unwrap_or True (own_or_wildcard ag_push_fallback own wild)"
  proof (cases "bl_aggregation c")
    case None
    then show ?thesis
      by (simp add: resolve_aggregation_def config_simps own_or_wildcard_def unwrap_or_def
          default_diagnostic_fallback_def)
  next
    case (Some m)
    then show ?thesis
      using aggregation_entry [of m meth]
      by (cases "resolve_aggregation_for_method m meth"; cases "meth = bridge_routing_method")
        (simp_all add: resolve_aggregation_def config_simps own_or_wildcard_def unwrap_or_def Let_def
          default_diagnostic_fallback_def)
  qed
  show "let own = lookup_in (layer_entries s) meth; wild = lookup_in (layer_entries s) wildcard_key;
        r = resolve_layers s meth
    in rl_strategy r = unwrap_or (default_layer_strategy_for_method meth) (own_or_wildcard la_strategy own wild) \<and>
       distinct (rl_priorities r) \<and>
       (\<forall>layer. allows_layer r layer \<longleftrightarrow>
          layer \<in> set (unwrap_or default_layer_priorities (own_or_wildcard la_priorities own wild)))"
  proof (cases "layer_entries s")
    case None
    then show ?thesis
      by (simp add: resolve_layers_def layer_entries_def layer_defaults_def default_layer_priorities_def
          config_simps own_or_wildcard_def unwrap_or_def allows_layer_def)
  next
    case (Some m)
    note fields = la_strategy.field_wildcard [of m meth] la_priorities.field_wildcard [of m meth]
    show ?thesis
    proof (cases "resolve_with_wildcard m meth merge_layer_aggregation_configs")
      case None
      moreover from None have "fmlookup m meth = None" "fmlookup m wildcard_key = None"
        by (simp_all add: resolve_with_wildcard_None)
      ultimately show ?thesis using Some
        by (simp add: resolve_layers_def layer_entries_def layer_defaults_def default_layer_priorities_def
            config_simps own_or_wildcard_def unwrap_or_def allows_layer_def)
    next
      case (Some e)
      then show ?thesis using \<open>layer_entries s = Some m\<close> fields [of e]
        by (simp add: resolve_layers_def layer_entries_def config_simps own_or_wildcard_def
            allows_layer_def dedup_layer_priorities_def dedup_from_correct)
    qed
  qed
  show "let own = lookup_in (ls_bridge s) language; wild = lookup_in (ls_bridge s) wildcard_key
    in is_language_bridgeable s language \<longleftrightarrow>
         ls_bridge s = None \<or> \<not> (own = None \<and> wild = None) \<and>
           unwrap_or True (own_or_wildcard bl_enabled own wild)"
  proof (cases "ls_bridge s")
    case (Some m)
    then show ?thesis
      using bl_enabled.field_wildcard [of m language]
      by (cases "resolve_with_wildcard m language merge_bridge_language_configs")
        (auto simp: is_language_bridgeable_def config_simps own_or_wildcard_def resolve_with_wildcard_None,
         auto simp: resolve_with_wildcard_def split: option.splits)
  qed (simp add: is_language_bridgeable_def)
  show "is_host_bridging_enabled s \<longleftrightarrow>
      Option.bind (lookup_in (ls_bridge s) host_bridge_key) bl_enabled = Some True"
    by (auto simp: is_host_bridging_enabled_def lookup_in_def unwrap_or_def split: option.splits)
qed

end
