(* ===== verification/Config_Strip.thy ===== *)
theory Config_Strip
  imports Config_Bridging
begin

text \<open>
  The raw settings reconstructed from effective ones (\<open>config.rs\<close>): fields equal to what they
  would inherit are dropped, so that only overrides are shown. Resolving the result again
  gives every effective field but \<open>bridge\<close> back when the chain of bases is not circular; of the entries
  of \<open>bridge\<close> this fails, as the last section shows.
\<close>

section \<open>Dropping inherited values\<close>

definition strip_equal :: "'a option \<Rightarrow> 'a option \<Rightarrow> 'a option" where
  "strip_equal current inherited = (if current \<noteq> inherited then current else None)"

definition strip_inherited_aggregation_config ::
  "aggregation_config \<Rightarrow> aggregation_config \<Rightarrow> aggregation_config" where
  "strip_inherited_aggregation_config inherited current =
     \<lparr>ag_priorities = strip_equal (ag_priorities current) (ag_priorities inherited),
      ag_strategy = strip_equal (ag_strategy current) (ag_strategy inherited),
      ag_max_fan_out = strip_equal (ag_max_fan_out current) (ag_max_fan_out inherited),
      ag_pull_fallback = strip_equal (ag_pull_fallback current) (ag_pull_fallback inherited),
      ag_push_fallback = strip_equal (ag_push_fallback current) (ag_push_fallback inherited)\<rparr>"

text \<open>The entries that are not empty once stripped; a map that would be empty is dropped.\<close>

definition stripped_entries :: "('k \<Rightarrow> 'v \<Rightarrow> 'v) \<Rightarrow> 'v \<Rightarrow> ('k, 'v) fmap \<Rightarrow> ('k, 'v) fmap option" where
  "stripped_entries strip dflt current =
     (if current = fmempty then Some current
      else let stripped = fmmap_keys strip current;
               kept = fmfilter (\<lambda>k. fmlookup stripped k \<noteq> Some dflt) stripped
           in if kept = fmempty then None else Some kept)"

definition strip_inherited_aggregation_map ::
  "(string, aggregation_config) fmap option \<Rightarrow> (string, aggregation_config) fmap option
     \<Rightarrow> (string, aggregation_config) fmap option" where
  "strip_inherited_aggregation_map inherited current =
     Option.bind current
       (stripped_entries
         (\<lambda>meth current_config.
           case Option.bind inherited (\<lambda>b. resolve_aggregation_for_method b meth) of
             Some b \<Rightarrow> strip_inherited_aggregation_config b current_config
           | None \<Rightarrow> current_config)
         aggregation_config_default)"

definition strip_inherited_bridge_language_config ::
  "bridge_language_config \<Rightarrow> bridge_language_config \<Rightarrow> bridge_language_config" where
  "strip_inherited_bridge_language_config inherited current =
     \<lparr>bl_enabled = strip_equal (bl_enabled current) (bl_enabled inherited),
      bl_aggregation =
        strip_inherited_aggregation_map (bl_aggregation inherited) (bl_aggregation current)\<rparr>"

definition strip_inherited_bridge_map ::
  "(string, bridge_language_config) fmap option \<Rightarrow> (string, bridge_language_config) fmap option
     \<Rightarrow> (string, bridge_language_config) fmap option" where
  "strip_inherited_bridge_map inherited current =
     Option.bind current
       (stripped_entries
         (\<lambda>name current_config.
           case Option.bind inherited
                  (\<lambda>b. resolve_with_wildcard b name merge_bridge_language_configs) of
             Some b \<Rightarrow> strip_inherited_bridge_language_config b current_config
           | None \<Rightarrow> current_config)
         bridge_language_config_default)"

definition strip_inherited_language_settings ::
  "language_settings \<Rightarrow> language_settings \<Rightarrow> language_settings" where
  "strip_inherited_language_settings inherited current =
     \<lparr>ls_base = ls_base current,
      ls_parser = strip_equal (ls_parser current) (ls_parser inherited),
      ls_queries = strip_equal (ls_queries current) (ls_queries inherited),
      ls_bridge = strip_inherited_bridge_map (ls_bridge inherited) (ls_bridge current),
      ls_layers = strip_equal (ls_layers current) (ls_layers inherited),
      ls_aliases = strip_equal (ls_aliases current) (ls_aliases inherited),
      ls_auto_install = strip_equal (ls_auto_install current) (ls_auto_install inherited)\<rparr>"

definition inherited_language_settings ::
  "(string, language_settings) fmap \<Rightarrow> string \<Rightarrow> language_settings \<Rightarrow> language_settings option" where
  "inherited_language_settings languages name language =
     (if ls_base language = Some name then None
      else or_else (Option.bind (ls_base language) (fmlookup languages))
             (if name \<noteq> wildcard_key then fmlookup languages wildcard_key else None))"

definition strip_inherited_languages ::
  "(string, language_settings) fmap \<Rightarrow> (string, language_settings) fmap" where
  "strip_inherited_languages languages =
     fmmap_keys (\<lambda>name language.
       case inherited_language_settings languages name language of
         Some b \<Rightarrow> strip_inherited_language_settings b language
       | None \<Rightarrow> language) languages"

definition raw_from :: "workspace_settings \<Rightarrow> raw_workspace_settings" where
  "raw_from ws =
     \<lparr>rw_search_paths = Some (ws_search_paths ws),
      rw_languages = strip_inherited_languages (ws_languages ws),
      rw_capture_mappings = None,
      rw_auto_install = Some (ws_auto_install ws),
      rw_diagnostics_debounce_ms = Some (ws_diagnostics_debounce_ms ws),
      rw_features =
        Some
          \<lparr>fs_semantic_tokens = Some \<lparr>st_capture_mappings =
             Some (fmmap (\<lambda>m. unwrap_or fmempty (qt_highlights m)) (ws_capture_mappings ws))\<rparr>,
           fs_publish_diagnostics = Some
             \<lparr>df_debounce_ms = Some (rd_debounce_ms (rf_publish_diagnostics (ws_features ws))),
              df_max_wait_ms = Some (rd_max_wait_ms (rf_publish_diagnostics (ws_features ws)))\<rparr>,
           fs_log_message = Some \<lparr>lm_log_level = Some (rf_log_message (ws_features ws))\<rparr>,
           fs_diagnostic_refresh = Some
             \<lparr>df_debounce_ms = Some (rd_debounce_ms (rf_diagnostic_refresh (ws_features ws))),
              df_max_wait_ms = Some (rd_max_wait_ms (rf_diagnostic_refresh (ws_features ws)))\<rparr>\<rparr>,
      rw_language_servers = Some (ws_language_servers ws)\<rparr>"

section \<open>Chains without a circle\<close>

definition ends_properly :: "(string, language_settings) fmap \<Rightarrow> string \<Rightarrow> bool" where
  "ends_properly languages name \<longleftrightarrow>
     (let l = last (build_base_chain name languages)
      in base_of languages l = None \<or> base_of languages l = Some l)"

text \<open>A walk along the bases that visits no language twice and then stops by itself.\<close>

fun proper_walk :: "(string \<Rightarrow> string option) \<Rightarrow> string list \<Rightarrow> bool" where
  "proper_walk b [] \<longleftrightarrow> False"
| "proper_walk b [x] \<longleftrightarrow> b x = None \<or> b x = Some x"
| "proper_walk b (x # y # xs) \<longleftrightarrow> b x = Some y \<and> x \<notin> set (y # xs) \<and> proper_walk b (y # xs)"

lemma proper_walk_loop:
  assumes "proper_walk (base_of languages) (x # xs)" "x \<in> visited" "visited \<inter> set xs = {}"
  shows "chain_loop languages visited x = xs"
  using assms
proof (induction xs arbitrary: x visited)
  case Nil
  then show ?case by (auto simp: chain_loop.simps [of languages visited x])
next
  case (Cons y ys)
  have "chain_loop languages (insert y visited) y = ys"
    using Cons.prems by (cases ys) (intro Cons.IH; auto)+
  then show ?case using Cons.prems by (auto simp: chain_loop.simps [of languages visited x])
qed

lemma proper_walk_chain:
  "proper_walk (base_of languages) (x # xs) \<Longrightarrow> build_base_chain x languages = x # xs"
  using proper_walk_loop [of languages x xs "{x}"]
  by (cases xs) (auto simp: build_base_chain_def)

lemma ends_properly_walk:
  "ends_properly languages name \<Longrightarrow> proper_walk (base_of languages) (build_base_chain name languages)"
proof -
  assume e: "ends_properly languages name"
  have walk: "distinct c \<Longrightarrow> successively (\<lambda>a b. base_of languages a = Some b) c \<Longrightarrow> c \<noteq> [] \<Longrightarrow>
      base_of languages (last c) = None \<or> base_of languages (last c) = Some (last c) \<Longrightarrow>
      proper_walk (base_of languages) c" for c
    by (induction "base_of languages" c rule: proper_walk.induct) auto
  have "build_base_chain name languages \<noteq> []" by (simp add: build_base_chain_def)
  then show ?thesis
    using walk chain_loop_correct [of name "{name}" languages] e
    by (auto simp: build_base_chain_def ends_properly_def Let_def)
qed

section \<open>Resolving the stripped settings\<close>

lemma base_of_resolved: "base_of (resolve_base_configs languages) = base_of languages"
  by (rule ext) (simp add: base_of_def resolve_base_configs_def Let_def Option.bind_map_option comp_def
      split: option.splits)

lemma base_of_stripped: "base_of (strip_inherited_languages languages) = base_of languages"
proof (rule ext)
  fix n
  have "Option.bind (fmlookup (strip_inherited_languages languages) n) ls_base =
      Option.bind (fmlookup languages n) ls_base"
    by (cases "fmlookup languages n")
      (auto simp: strip_inherited_languages_def strip_inherited_language_settings_def split: option.splits)
  then show "base_of (strip_inherited_languages languages) n = base_of languages n"
    by (simp add: base_of_def)
qed

lemma chain_loop_cong: "base_of m = base_of l \<Longrightarrow> chain_loop m visited x = chain_loop l visited x"
proof (induction l visited x rule: chain_loop.induct)
  case (1 l visited x)
  then show ?case
    by (simp add: chain_loop.simps [of m visited x] chain_loop.simps [of l visited x] split: option.splits)
qed

lemma same_chain: "base_of m = base_of l \<Longrightarrow> build_base_chain x m = build_base_chain x l"
  using chain_loop_cong [of m l] by (simp add: build_base_chain_def)

lemma unknown_base: "fmlookup languages y = None \<Longrightarrow>
    base_of languages y = (if y = wildcard_key then None else Some wildcard_key)"
  by (simp add: base_of_def)

lemma inherited_of_stripped:
  assumes "proper_walk (base_of languages) (x # y # ys)" "fmlookup languages x = Some s"
    and "\<And>n. Option.bind (fmlookup settings n) ls_base = Option.bind (fmlookup languages n) ls_base"
    and "\<And>n. fmlookup settings n = None \<longleftrightarrow> fmlookup languages n = None"
    and "fmlookup settings x = Some t"
  shows "(\<exists>z zs. inherited_language_settings settings x t = fmlookup settings z \<and>
      fmlookup languages z \<noteq> None \<and> build_base_chain z languages = z # zs \<and>
      (\<exists>skip. y # ys = skip @ z # zs \<and> (\<forall>n \<in> set skip. fmlookup languages n = None))) \<or>
    inherited_language_settings settings x t = None \<and> (\<forall>n \<in> set (y # ys). fmlookup languages n = None)"
proof -
  have next_xy: "base_of languages x = Some y" "x \<noteq> y" "x \<notin> set ys" and walk: "proper_walk (base_of languages) (y # ys)"
    using assms(1) by auto
  have tbase: "ls_base t = ls_base s" using assms(3) [of x] assms(2,5) by simp
  then have not_self: "ls_base t \<noteq> Some x" using next_xy assms(2) by (auto simp: base_of_def split: option.splits)
  show ?thesis
  proof (cases "fmlookup languages y")
    case (Some u)
    obtain v where v: "fmlookup settings y = Some v" using assms(4) [of y] Some by auto
    have "inherited_language_settings settings x t = fmlookup settings y"
      using next_xy assms(2) tbase not_self v
      by (cases "ls_base s") (auto simp: inherited_language_settings_def base_of_def split: if_splits)
    then show ?thesis
      using Some proper_walk_chain [OF walk] by (metis append_Nil empty_iff empty_set option.distinct(1))
  next
    case None
    show ?thesis
    proof (cases "y = wildcard_key")
      case True
      with walk None have "ys = []" by (cases ys) (auto simp: unknown_base)
      moreover have "fmlookup settings wildcard_key = None" using assms(4) None True by simp
      then have "inherited_language_settings settings x t = None"
        using next_xy assms(2) tbase not_self True
        by (cases "ls_base s") (auto simp: inherited_language_settings_def base_of_def split: if_splits)
      ultimately show ?thesis using None by simp
    next
      case False
      with walk None obtain zs where ys: "ys = wildcard_key # zs" "proper_walk (base_of languages) (wildcard_key # zs)"
        by (cases ys) (auto simp: unknown_base)
      then have "x \<noteq> wildcard_key" using next_xy(3) by auto
      moreover have "fmlookup settings y = None" using assms(4) None by simp
      ultimately have inh: "inherited_language_settings settings x t = fmlookup settings wildcard_key"
        using next_xy assms(2) tbase not_self False
        by (cases "ls_base s") (auto simp: inherited_language_settings_def base_of_def split: if_splits)
      show ?thesis
      proof (cases "fmlookup languages wildcard_key")
        case None
        then have "zs = []" using ys(2) by (cases zs) (auto simp: unknown_base)
        then show ?thesis using None inh assms(4) \<open>fmlookup languages y = None\<close> ys(1) by auto
      next
        case (Some u)
        then have "fmlookup languages wildcard_key \<noteq> None" "build_base_chain wildcard_key languages = wildcard_key # zs"
          using proper_walk_chain [OF ys(2)] by auto
        moreover have "y # ys = [y] @ wildcard_key # zs" "\<forall>n \<in> set [y]. fmlookup languages n = None"
          using ys(1) \<open>fmlookup languages y = None\<close> by auto
        ultimately show ?thesis using inh by blast
      qed
    qed
  qed
qed

text \<open>
  The interface of a field of the language settings that is stripped as a whole: it is inherited by
  joining an overlay with what is below, joining the same again adds nothing, and stripping drops the
  field exactly when it equals the inherited value.
\<close>

definition joined :: "('a option \<Rightarrow> 'a option \<Rightarrow> 'a option) \<Rightarrow> 'a option list \<Rightarrow> 'a option" where
  "joined join xs = foldr join xs None"

lemma joined_simps [simp]: "joined join [] = None" "joined join (x # xs) = join x (joined join xs)"
  by (simp_all add: joined_def)

locale stripped_field =
  fixes field :: "language_settings \<Rightarrow> 'a option" and join :: "'a option \<Rightarrow> 'a option \<Rightarrow> 'a option"
  assumes field_merge: "field (merge_language_settings base overlay) = join (field overlay) (field base)"
    and join_None [simp]: "join None v = v" "join v None = v"
    and join_again: "join (join u v) v = join u v"
    and field_strip: "field (strip_inherited_language_settings i c) = strip_equal (field c) (field i)"
    and field_default: "field language_settings_default = None"
    and field_base: "field (r\<lparr>ls_base := b\<rparr>) = field r"
begin

lemma field_foldl: "field (foldl merge_language_settings x xs) = foldr join (map field (rev xs)) (field x)"
  by (induction xs rule: rev_induct) (simp_all add: field_merge)

lemma resolved_field:
  assumes "fmlookup languages n = Some s"
  shows "\<exists>r. fmlookup (resolve_base_configs languages) n = Some r \<and>
    field r = joined join (map (\<lambda>n. field (language_or_default languages n)) (build_base_chain n languages))"
proof -
  obtain r where r: "reduce merge_language_settings (map (language_or_default languages) (rev (build_base_chain n languages))) = Some r"
    "fmlookup (resolve_base_configs languages) n = Some (r\<lparr>ls_base := ls_base s\<rparr>)"
    using assms by (rule resolved_settings)
  obtain m ms where chain: "build_base_chain n languages = ms @ [m]"
    by (cases "build_base_chain n languages" rule: rev_cases) (simp_all add: build_base_chain_def)
  have "field r = foldr join (map (\<lambda>n. field (language_or_default languages n)) ms) (field (language_or_default languages m))"
    using r(1) by (auto simp: chain field_foldl rev_map comp_def)
  then show ?thesis using r(2) by (simp add: chain field_base joined_def)
qed

lemma joined_unknown:
  "\<forall>n \<in> set ns. fmlookup languages n = None \<Longrightarrow>
     joined join (map (\<lambda>n. field (language_or_default languages n)) (ns @ ms)) =
     joined join (map (\<lambda>n. field (language_or_default languages n)) ms)"
  by (induction ns) (simp_all add: language_or_default_def field_default)

lemma stripped_chain:
  assumes "proper_walk (base_of languages) (x # xs)"
  defines "S \<equiv> strip_inherited_languages (resolve_base_configs languages)"
  shows "joined join (map (\<lambda>n. field (language_or_default S n)) (x # xs)) =
    joined join (map (\<lambda>n. field (language_or_default languages n)) (x # xs))"
  using assms(1)
proof (induction xs arbitrary: x)
  case Nil
  have chain: "build_base_chain x languages = [x]" using proper_walk_chain [OF Nil] .
  show ?case
  proof (cases "fmlookup languages x")
    case None
    then show ?thesis
      by (simp add: S_def language_or_default_def strip_inherited_languages_def resolve_base_configs_def)
  next
    case (Some s)
    obtain r where r: "fmlookup (resolve_base_configs languages) x = Some r"
      "field r = field (language_or_default languages x)"
      using resolved_field [OF Some] chain by auto
    have "ls_base r = ls_base s"
      using r(1) Some by (auto simp: resolve_base_configs_def Let_def)
    then have "inherited_language_settings (resolve_base_configs languages) x r = None"
      using Nil Some by (auto simp: inherited_language_settings_def base_of_def split: option.splits if_splits)
    then show ?thesis
      using r by (simp add: S_def language_or_default_def strip_inherited_languages_def)
  qed
next
  case (Cons y ys)
  then have IH: "joined join (map (\<lambda>n. field (language_or_default S n)) (y # ys)) =
      joined join (map (\<lambda>n. field (language_or_default languages n)) (y # ys))" by simp
  show ?case
  proof (cases "fmlookup languages x")
    case None
    then have "language_or_default S x = language_or_default languages x"
      by (simp add: S_def language_or_default_def strip_inherited_languages_def resolve_base_configs_def)
    then show ?thesis using IH by simp
  next
    case (Some s)
    obtain r where r: "fmlookup (resolve_base_configs languages) x = Some r"
      "field r = joined join (map (\<lambda>n. field (language_or_default languages n)) (x # y # ys))"
      using resolved_field [OF Some] proper_walk_chain [OF Cons.prems] by auto
    have same: "Option.bind (fmlookup (resolve_base_configs languages) n) ls_base = Option.bind (fmlookup languages n) ls_base"
      "fmlookup (resolve_base_configs languages) n = None \<longleftrightarrow> fmlookup languages n = None" for n
      by (cases "fmlookup languages n"; simp add: resolve_base_configs_def Let_def)+
    have x: "language_or_default languages x = s" by (simp add: language_or_default_def Some)
    consider z zs skip u where
        "inherited_language_settings (resolve_base_configs languages) x r = fmlookup (resolve_base_configs languages) z"
        "fmlookup languages z = Some u" "build_base_chain z languages = z # zs" "y # ys = skip @ z # zs"
        "\<forall>n \<in> set skip. fmlookup languages n = None"
      | "inherited_language_settings (resolve_base_configs languages) x r = None"
        "\<forall>n \<in> set (y # ys). fmlookup languages n = None"
      using inherited_of_stripped [OF Cons.prems Some same r(1)] by auto
    then show ?thesis
    proof cases
      case 1
      obtain i where i: "fmlookup (resolve_base_configs languages) z = Some i"
        "field i = joined join (map (\<lambda>n. field (language_or_default languages n)) (y # ys))"
        using resolved_field [OF 1(2)] joined_unknown [OF 1(5), of "z # zs"]
        by (auto simp: 1(3,4))
      then have "language_or_default S x = strip_inherited_language_settings i r"
        using 1(1) r(1) by (simp add: S_def language_or_default_def strip_inherited_languages_def)
      then show ?thesis using IH i(2) r(2) x
        by (simp add: field_strip strip_equal_def join_again)
    next
      case 2
      then have "language_or_default S x = r"
        using r(1) by (simp add: S_def language_or_default_def strip_inherited_languages_def)
      then show ?thesis using IH joined_unknown [OF 2(2), of "[]"] r(2) x by simp
    qed
  qed
qed

lemma roundtrip:
  assumes "ends_properly languages name"
  shows "Option.bind (fmlookup (resolve_base_configs (strip_inherited_languages (resolve_base_configs languages))) name) field =
    Option.bind (fmlookup (resolve_base_configs languages) name) field"
proof (cases "fmlookup languages name")
  case None
  then show ?thesis by (simp add: strip_inherited_languages_def resolve_base_configs_def)
next
  case (Some s)
  let ?S = "strip_inherited_languages (resolve_base_configs languages)"
  obtain t where t: "fmlookup ?S name = Some t"
    using Some by (simp add: strip_inherited_languages_def resolve_base_configs_def)
  have chain: "build_base_chain name ?S = build_base_chain name languages"
    by (rule same_chain) (simp add: base_of_stripped base_of_resolved)
  obtain xs where xs: "build_base_chain name languages = name # xs" by (simp add: build_base_chain_def)
  show ?thesis
    using resolved_field [OF Some] resolved_field [OF t] stripped_chain [of languages name xs]
      ends_properly_walk [OF assms] unfolding chain xs by auto
qed

end

lemma or_else_again: "or_else v v = v" "or_else (or_else u v) v = or_else u v"
  by (cases v; cases u; simp)+

lemmas strip_field_defs = strip_inherited_language_settings_def language_settings_default_def
  merge_language_settings_def or_else_again config_simps

interpretation parser_strip: stripped_field ls_parser or_else
  by unfold_locales (simp_all add: strip_field_defs)

interpretation queries_strip: stripped_field ls_queries or_else
  by unfold_locales (simp_all add: strip_field_defs)

interpretation aliases_strip: stripped_field ls_aliases or_else
  by unfold_locales (simp_all add: strip_field_defs)

interpretation auto_install_strip: stripped_field ls_auto_install or_else
  by unfold_locales (simp_all add: strip_field_defs)

text \<open>Layers are joined per key, and an empty map hides what is below it.\<close>

lemma layers_again: "merge_layers_configs v (merge_layers_configs v u) = merge_layers_configs v u"
proof -
  have entry: "merge_layer_aggregation_configs c c = c"
    "merge_layer_aggregation_configs c (merge_layer_aggregation_configs c d) = merge_layer_aggregation_configs c d" for c d
    by (simp_all add: merge_layer_aggregation_configs_def or_else_again)
  have "merge_optional_maps merge_layer_aggregation_configs b (merge_optional_maps merge_layer_aggregation_configs b m) =
      merge_optional_maps merge_layer_aggregation_configs b m" for b m :: "(string, layer_aggregation_config) fmap option"
    by (cases b; cases m) (auto simp: merge_optional_maps_def config_simps entry intro!: fmap_ext split: option.splits)
  from this this [of _ None, simplified] show ?thesis
    by (cases v; cases u) (simp_all add: merge_layers_configs_def map_merges)
qed

interpretation layers_strip: stripped_field ls_layers "\<lambda>overlay base. merge_layers_configs base overlay"
  by unfold_locales (auto simp: strip_field_defs layers_again, auto simp: merge_layers_configs_def split: option.split)

text \<open>
  C33: Where the chain of bases of a language ends by itself and is not cut short at a circle, the raw
  settings reconstructed from the effective ones resolve to the same base, parser, queries, layers,
  aliases and installation setting again, although every value that is inherited has been dropped from
  them. The one field left out is \<open>bridge\<close>, for which this is false: see \<open>strip_loses_opt_in\<close>.
\<close>

theorem strip_roundtrip:
  assumes "ends_properly languages name"
  shows "let effective = resolve_base_configs languages;
             again = resolve_base_configs (strip_inherited_languages effective)
         in map_option (\<lambda>s. (ls_base s, ls_parser s, ls_queries s, ls_layers s, ls_aliases s, ls_auto_install s))
              (fmlookup again name) =
            map_option (\<lambda>s. (ls_base s, ls_parser s, ls_queries s, ls_layers s, ls_aliases s, ls_auto_install s))
              (fmlookup effective name)"
proof (cases "fmlookup languages name")
  case None
  then show ?thesis by (simp add: strip_inherited_languages_def resolve_base_configs_def)
next
  case (Some s)
  let ?R = "resolve_base_configs languages"
  let ?A = "resolve_base_configs (strip_inherited_languages ?R)"
  obtain r where r: "fmlookup ?R name = Some r" "ls_base r = ls_base s"
    using Some by (simp add: resolve_base_configs_def Let_def)
  obtain t where t: "fmlookup (strip_inherited_languages ?R) name = Some t" "ls_base t = ls_base r"
    using r(1) by (auto simp: strip_inherited_languages_def strip_inherited_language_settings_def
        split: option.splits)
  then obtain u where u: "fmlookup ?A name = Some u" "ls_base u = ls_base t"
    by (simp add: resolve_base_configs_def Let_def)
  show ?thesis
    using parser_strip.roundtrip [OF assms] queries_strip.roundtrip [OF assms]
      aliases_strip.roundtrip [OF assms] auto_install_strip.roundtrip [OF assms]
      layers_strip.roundtrip [OF assms] r t u
    by (simp add: Let_def)
qed

lemma sample_ends: "ends_properly sample_languages ''rmd''"
  unfolding ends_properly_def sample_chain
  by (simp add: base_of_def sample_languages_def language_settings_default_def)

lemma strip_roundtrip_witness:
  "map_option ls_parser (fmlookup (resolve_base_configs
      (strip_inherited_languages (resolve_base_configs sample_languages))) ''rmd'') = Some (Some ''md.so'')"
proof -
  have "fmlookup sample_languages ''rmd'' = Some (language_settings_default\<lparr>ls_base := Some ''markdown''\<rparr>)"
    by (simp add: sample_languages_def)
  then obtain r where r: "fmlookup (resolve_base_configs sample_languages) ''rmd'' = Some r"
    "ls_parser r = joined or_else (map (\<lambda>n. ls_parser (language_or_default sample_languages n)) (build_base_chain ''rmd'' sample_languages))"
    using parser_strip.resolved_field by blast
  then have "ls_parser r = Some ''md.so''"
    by (simp add: sample_chain) (simp add: language_or_default_def sample_languages_def language_settings_default_def)
  then show ?thesis using strip_roundtrip [OF sample_ends] r(1) by (auto simp: Let_def)
qed

section \<open>What stripping loses\<close>

text \<open>
  A language that bridges nothing by default but opts in to one language, over a wildcard entry
  that bridges everything. The opt-in equals what the wildcard alone would give, so it is
  dropped, while the opt-out that made it necessary stays.
\<close>

abbreviation enabled_as :: "bool \<Rightarrow> bridge_language_config" where
  "enabled_as b \<equiv> \<lparr>bl_enabled = Some b, bl_aggregation = None\<rparr>"

abbreviation bridging :: "(string, bridge_language_config) fmap \<Rightarrow> language_settings" where
  "bridging m \<equiv> \<lparr>ls_base = None, ls_parser = None, ls_queries = None, ls_bridge = Some m, ls_layers = None,
     ls_aliases = None, ls_auto_install = None\<rparr>"

definition opting_in :: "(string, language_settings) fmap" where
  "opting_in =
     fmupd ''md'' (bridging (fmupd ''py'' (enabled_as True) (fmupd ''_'' (enabled_as False) fmempty)))
       (fmupd ''_'' (bridging (fmupd ''_'' (enabled_as True) fmempty)) fmempty)"

lemma fmupd_not_empty: "fmupd k v m \<noteq> fmempty" "fmempty \<noteq> fmupd k v m"
  by (metis fmempty_lookup fmupd_lookup option.distinct(1))+

lemma merge_entries_eq:
  "(\<And>k. fmlookup (merge_entries f b ov) k = fmlookup m k) \<Longrightarrow> merge_entries f b ov = m"
  by (rule fmap_ext)

lemma enabled_merge: "merge_bridge_language_configs (enabled_as p) (enabled_as q) = enabled_as q"
  by (simp add: merge_bridge_language_configs_def)

text \<open>One wildcard entry over which a language has the given bridge entries.\<close>

definition over_wildcard :: "(string, bridge_language_config) fmap \<Rightarrow> (string, language_settings) fmap" where
  "over_wildcard m = fmupd ''md'' (bridging m) (fmupd ''_'' (bridging (fmupd ''_'' (enabled_as True) fmempty)) fmempty)"

lemma resolve_over_wildcard:
  assumes "m \<noteq> fmempty" "fmlookup m ''_'' = Some (enabled_as False)"
  shows "resolve_base_configs (over_wildcard m) = over_wildcard m"
proof (rule fmap_ext)
  fix n
  have chains: "build_base_chain ''md'' (over_wildcard m) = [''md'', ''_'']"
    "build_base_chain ''_'' (over_wildcard m) = [''_'']"
    by (simp_all add: build_base_chain_def chain_loop.simps base_of_def over_wildcard_def)
  have "merge_entries merge_bridge_language_configs (fmupd ''_'' (enabled_as True) fmempty) m = m"
    using assms(2) by (intro merge_entries_eq) (auto simp: config_simps enabled_merge split: option.splits)
  then have "merge_language_settings (bridging (fmupd ''_'' (enabled_as True) fmempty)) (bridging m) = bridging m"
    using assms(1) by (simp add: merge_language_settings_def merge_bridge_maps_def merge_layers_configs_def)
  moreover have look: "fmlookup (over_wildcard m) k =
      (if k = ''md'' then Some (bridging m)
       else if k = ''_'' then Some (bridging (fmupd ''_'' (enabled_as True) fmempty)) else None)" for k
    by (simp add: over_wildcard_def)
  ultimately show "fmlookup (resolve_base_configs (over_wildcard m)) n = fmlookup (over_wildcard m) n"
    using chains by (simp add: resolve_base_configs_def language_or_default_def look)
qed

lemma strip_over_wildcard:
  "strip_inherited_languages (over_wildcard (fmupd ''py'' (enabled_as True) (fmupd ''_'' (enabled_as False) fmempty))) =
     over_wildcard (fmupd ''_'' (enabled_as False) fmempty)"
proof (rule fmap_ext)
  fix n
  let ?w = "fmupd ''_'' (enabled_as True) fmempty"
  let ?m = "fmupd ''py'' (enabled_as True) (fmupd ''_'' (enabled_as False) fmempty)"
  have wild: "resolve_with_wildcard ?w k merge_bridge_language_configs = Some (enabled_as True)" for k
    by (simp add: resolve_with_wildcard_def enabled_merge)
  have entry: "strip_inherited_bridge_language_config (enabled_as True) (enabled_as b) =
      (if b then bridge_language_config_default else enabled_as b)" for b
    by (simp add: strip_inherited_bridge_language_config_def strip_equal_def
        strip_inherited_aggregation_map_def bridge_language_config_default_def)
  have "fmmap_keys (\<lambda>name. strip_inherited_bridge_language_config (enabled_as True)) ?m =
      fmupd ''py'' bridge_language_config_default (fmupd ''_'' (enabled_as False) fmempty)"
    by (rule fmap_ext) (simp add: entry)
  then have "strip_inherited_bridge_map (Some ?w) (Some ?m) = Some (fmupd ''_'' (enabled_as False) fmempty)"
    by (simp add: strip_inherited_bridge_map_def stripped_entries_def wild fmupd_not_empty Let_def)
      (auto intro!: fmap_ext simp: bridge_language_config_default_def fmupd_not_empty)
  then have "strip_inherited_language_settings (bridging ?w) (bridging ?m) =
      bridging (fmupd ''_'' (enabled_as False) fmempty)"
    by (simp add: strip_inherited_language_settings_def strip_equal_def)
  then show "fmlookup (strip_inherited_languages (over_wildcard ?m)) n =
      fmlookup (over_wildcard (fmupd ''_'' (enabled_as False) fmempty)) n"
    by (auto simp: strip_inherited_languages_def over_wildcard_def inherited_language_settings_def)
qed

lemma strip_loses_opt_in:
  "let effective = resolve_base_configs opting_in;
       again = resolve_base_configs (strip_inherited_languages effective)
   in (\<exists>s. fmlookup effective ''md'' = Some s \<and> is_language_bridgeable s ''py'') \<and>
      (\<exists>s. fmlookup again ''md'' = Some s \<and> \<not> is_language_bridgeable s ''py'')"
proof -
  have eq: "opting_in = over_wildcard (fmupd ''py'' (enabled_as True) (fmupd ''_'' (enabled_as False) fmempty))"
    by (simp add: opting_in_def over_wildcard_def)
  have "resolve_base_configs opting_in = opting_in"
    unfolding eq by (rule resolve_over_wildcard) (simp_all add: fmupd_not_empty)
  moreover have "resolve_base_configs (strip_inherited_languages opting_in) =
      over_wildcard (fmupd ''_'' (enabled_as False) fmempty)"
    unfolding eq strip_over_wildcard by (rule resolve_over_wildcard) (simp_all add: fmupd_not_empty)
  ultimately show ?thesis
    by (simp add: Let_def)
      (simp add: opting_in_def over_wildcard_def is_language_bridgeable_def fmupd_not_empty
        resolve_with_wildcard_def enabled_merge unwrap_or_def)
qed

end
