(* ===== verification/Document_Tracker.thy ===== *)
theory Document_Tracker
  imports Virtual_Uri
begin

text \<open>
  \<open>lsp/bridge/pool/document_tracker.rs\<close>: which virtual documents are open on which
  downstream connection, their versions, the fingerprints of what was sent, the documents of
  each host, and which virtual URIs a connection has seen. A document of the
  tracker is its URI string, which the parameter \<open>uri_of\<close> renders; \<open>scratch\<close> tells the URIs of
  scratch documents and \<open>fingerprint\<close> is the content hash.
\<close>

section \<open>Provenance of virtual URIs\<close>

record provenance =
  issued :: "rstr set"
  scratch_uris :: "rstr set"
  queued :: "rstr set"
  reservations :: "rstr set"
  admitted :: nat

definition provenance_default :: provenance where
  "provenance_default =
     \<lparr>issued = {}, scratch_uris = {}, queued = {}, reservations = {}, admitted = 0\<rparr>"

definition max_provenance :: nat where
  "max_provenance = 65536"

definition provenance_contains :: "provenance \<Rightarrow> rstr \<Rightarrow> bool" where
  "provenance_contains p uri \<longleftrightarrow> uri \<in> issued p \<or> uri \<in> scratch_uris p \<or> uri \<in> queued p"

definition insert_issued :: "(rstr \<Rightarrow> bool) \<Rightarrow> rstr \<Rightarrow> provenance \<Rightarrow> provenance" where
  "insert_issued scratch uri p =
     (if scratch uri then p\<lparr>scratch_uris := insert uri (scratch_uris p)\<rparr>
      else p\<lparr>issued := insert uri (issued p)\<rparr>)"

definition reserve :: "rstr \<Rightarrow> provenance \<Rightarrow> bool \<times> provenance" where
  "reserve uri p =
     (if uri \<in> issued p \<or> uri \<in> scratch_uris p then (True, p)
      else if uri \<notin> reservations p
      then if admitted p \<ge> max_provenance then (False, p)
           else (True, p\<lparr>reservations := insert uri (reservations p), admitted := admitted p + 1\<rparr>)
      else (True, p))"

definition release_reservation :: "rstr \<Rightarrow> provenance \<Rightarrow> provenance" where
  "release_reservation uri p =
     (if uri \<in> reservations p
      then p\<lparr>reservations := reservations p - {uri}, admitted := admitted p - 1\<rparr> else p)"

definition confirm :: "(rstr \<Rightarrow> bool) \<Rightarrow> rstr \<Rightarrow> provenance \<Rightarrow> provenance" where
  "confirm scratch uri p =
     (let p = insert_issued scratch uri p in p\<lparr>reservations := reservations p - {uri}\<rparr>)"

section \<open>The tracker\<close>

record 'k opened_virtual_doc =
  od_virtual_uri :: virtual_document_uri
  od_connection_key :: 'k
  od_connection_generation :: nat

text \<open>
  A claim is the identity of its \<open>Arc\<close>, the next unused number. \<open>leased\<close> is what leases still
  hold of the provenance of purged generations.
\<close>

record 'k doc_tracker =
  document_versions :: "'k \<rightharpoonup> (rstr \<rightharpoonup> int)"
  document_fingerprints :: "'k \<rightharpoonup> (rstr \<rightharpoonup> u64)"
  host_to_virtual :: "rstr \<rightharpoonup> 'k opened_virtual_doc list"
  opened_documents :: "rstr \<rightharpoonup> nat"
  virtual_to_servers :: "rstr \<rightharpoonup> 'k list"
  virtual_uri_provenance :: "'k \<times> nat \<rightharpoonup> provenance"
  leased :: "'k \<times> nat \<rightharpoonup> provenance"
  open_claims :: "'k \<times> rstr \<rightharpoonup> nat"
  connection_generations :: "'k \<rightharpoonup> nat"
  next_claim :: nat

definition tracker_new :: "'k doc_tracker" where
  "tracker_new =
     \<lparr>document_versions = Map.empty, document_fingerprints = Map.empty, host_to_virtual = Map.empty,
      opened_documents = Map.empty, virtual_to_servers = Map.empty,
      virtual_uri_provenance = Map.empty, leased = Map.empty, open_claims = Map.empty,
      connection_generations = Map.empty, next_claim = 0\<rparr>"

definition connection_generation :: "'k \<Rightarrow> 'k doc_tracker \<Rightarrow> nat" where
  "connection_generation k t = (case connection_generations t k of Some g \<Rightarrow> g | None \<Rightarrow> 0)"

definition provenance_for :: "'k \<Rightarrow> nat \<Rightarrow> 'k doc_tracker \<Rightarrow> provenance" where
  "provenance_for k g t =
     (case virtual_uri_provenance t (k, g) of Some p \<Rightarrow> p | None \<Rightarrow> provenance_default)"

definition set_provenance :: "'k \<Rightarrow> nat \<Rightarrow> provenance \<Rightarrow> 'k doc_tracker \<Rightarrow> 'k doc_tracker" where
  "set_provenance k g p t = t\<lparr>virtual_uri_provenance := (virtual_uri_provenance t)((k, g) \<mapsto> p)\<rparr>"

definition virtual_uri_provenance_limit_reached :: "'k \<Rightarrow> 'k doc_tracker \<Rightarrow> bool" where
  "virtual_uri_provenance_limit_reached k t =
     (case virtual_uri_provenance t (k, connection_generation k t) of
        Some p \<Rightarrow> admitted p \<ge> max_provenance | None \<Rightarrow> False)"

definition is_document_opened :: "rstr \<Rightarrow> 'k doc_tracker \<Rightarrow> bool" where
  "is_document_opened uri t = (case opened_documents t uri of Some c \<Rightarrow> c > 0 | None \<Rightarrow> False)"

definition docs_of :: "'k \<Rightarrow> 'k doc_tracker \<Rightarrow> rstr \<rightharpoonup> int" where
  "docs_of k t = (case document_versions t k of Some docs \<Rightarrow> docs | None \<Rightarrow> Map.empty)"

section \<open>Opening\<close>

definition try_claim_for_open :: "rstr \<Rightarrow> 'k \<Rightarrow> 'k doc_tracker \<Rightarrow> bool \<times> 'k doc_tracker" where
  "try_claim_for_open uri k t =
     (let docs = docs_of k t;
          t = t\<lparr>document_versions := (document_versions t)(k \<mapsto> docs)\<rparr>
      in if docs uri \<noteq> None \<or> open_claims t (k, uri) \<noteq> None then (False, t)
         else let g = connection_generation k t;
                  (admitted_uri, p) = reserve uri (provenance_for k g t);
                  t = set_provenance k g p t
              in if \<not> admitted_uri then (False, t)
                 else (True, t\<lparr>document_versions := (document_versions t)(k \<mapsto> docs(uri \<mapsto> 1)),
                               open_claims := (open_claims t)((k, uri) \<mapsto> next_claim t),
                               next_claim := next_claim t + 1\<rparr>))"

definition open_claim_waiter :: "rstr \<Rightarrow> 'k \<Rightarrow> 'k doc_tracker \<Rightarrow> nat option" where
  "open_claim_waiter uri k t = open_claims t (k, uri)"

definition is_virtual_doc_open_on_connection :: "rstr \<Rightarrow> 'k \<Rightarrow> 'k doc_tracker \<Rightarrow> bool" where
  "is_virtual_doc_open_on_connection uri k t =
     (case virtual_to_servers t uri of Some ks \<Rightarrow> k \<in> set ks | None \<Rightarrow> False)"

definition mark_open_queued :: "rstr \<Rightarrow> 'k \<Rightarrow> nat \<Rightarrow> nat \<Rightarrow> 'k doc_tracker \<Rightarrow> bool \<times> 'k doc_tracker" where
  "mark_open_queued uri k expected_generation expected_claim t =
     (if connection_generation k t \<noteq> expected_generation then (False, t)
      else if open_claims t (k, uri) \<noteq> Some expected_claim then (False, t)
      else let p = provenance_for k expected_generation t
           in (True, set_provenance k expected_generation (p\<lparr>queued := insert uri (queued p)\<rparr>) t))"

definition mark_open_sent ::
  "(rstr \<Rightarrow> bool) \<Rightarrow> rstr \<Rightarrow> 'k \<Rightarrow> nat \<Rightarrow> nat \<Rightarrow> 'k doc_tracker \<Rightarrow> bool \<times> 'k doc_tracker" where
  "mark_open_sent scratch uri k expected_generation expected_claim t =
     (if connection_generation k t \<noteq> expected_generation then (False, t)
      else if open_claims t (k, uri) \<noteq> Some expected_claim then (False, t)
      else let p = confirm scratch uri (provenance_for k expected_generation t);
               p = p\<lparr>queued := queued p - {uri}\<rparr>;
               t = set_provenance k expected_generation p t;
               t = t\<lparr>open_claims := (open_claims t)((k, uri) := None)\<rparr>;
               servers = (case virtual_to_servers t uri of Some ks \<Rightarrow> ks | None \<Rightarrow> []);
               newly_opened = (k \<notin> set servers);
               servers = (if newly_opened then servers @ [k] else servers);
               t = t\<lparr>virtual_to_servers := (virtual_to_servers t)(uri \<mapsto> servers)\<rparr>
           in (True,
               if newly_opened
               then t\<lparr>opened_documents := (opened_documents t)(uri \<mapsto>
                        (case opened_documents t uri of Some c \<Rightarrow> c | None \<Rightarrow> 0) + 1)\<rparr>
               else t))"

definition register_pending_document ::
  "(virtual_document_uri \<Rightarrow> rstr) \<Rightarrow> rstr \<Rightarrow> virtual_document_uri \<Rightarrow> 'k \<Rightarrow> 'k doc_tracker \<Rightarrow> 'k doc_tracker" where
  "register_pending_document uri_of host_uri v k t =
     (let uri = uri_of v;
          g = connection_generation k t;
          docs = docs_of k t;
          docs = (case docs uri of None \<Rightarrow> docs(uri \<mapsto> 1) | Some _ \<Rightarrow> docs);
          t = t\<lparr>document_versions := (document_versions t)(k \<mapsto> docs)\<rparr>;
          registered = (case host_to_virtual t host_uri of Some ds \<Rightarrow> ds | None \<Rightarrow> []);
          registered =
            (if list_ex (\<lambda>d. uri_of (od_virtual_uri d) = uri \<and> od_connection_key d = k) registered
             then registered
             else registered @ [\<lparr>od_virtual_uri = v, od_connection_key = k, od_connection_generation = g\<rparr>])
      in t\<lparr>host_to_virtual := (host_to_virtual t)(host_uri \<mapsto> registered)\<rparr>)"

section \<open>Versions\<close>

definition document_version :: "rstr \<Rightarrow> 'k \<Rightarrow> 'k doc_tracker \<Rightarrow> int option" where
  "document_version uri k t =
     (case docs_of k t uri of
        None \<Rightarrow> None
      | Some version \<Rightarrow>
          if open_claims t (k, uri) \<noteq> None then None
          else if \<not> is_virtual_doc_open_on_connection uri k t then None
          else Some version)"

definition increment_version_if_content_changed ::
  "(rstr \<Rightarrow> u64) \<Rightarrow> rstr \<Rightarrow> 'k \<Rightarrow> rstr \<Rightarrow> 'k doc_tracker \<Rightarrow> int option \<times> 'k doc_tracker" where
  "increment_version_if_content_changed fingerprint uri k content t =
     (if Option.bind (document_fingerprints t k) (\<lambda>docs. docs uri) = Some (fingerprint content)
      then (None, t)
      else case document_versions t k of
             None \<Rightarrow> (None, t)
           | Some docs \<Rightarrow>
               (case docs uri of
                  None \<Rightarrow> (None, t)
                | Some version \<Rightarrow>
                    (Some (version + 1),
                     t\<lparr>document_versions := (document_versions t)(k \<mapsto> docs(uri \<mapsto> version + 1))\<rparr>)))"

definition record_sent_content_fingerprint ::
  "(rstr \<Rightarrow> u64) \<Rightarrow> rstr \<Rightarrow> 'k \<Rightarrow> rstr \<Rightarrow> 'k doc_tracker \<Rightarrow> 'k doc_tracker" where
  "record_sent_content_fingerprint fingerprint uri k content t =
     (let docs = (case document_fingerprints t k of Some docs \<Rightarrow> docs | None \<Rightarrow> Map.empty)
      in t\<lparr>document_fingerprints :=
             (document_fingerprints t)(k \<mapsto> docs(uri \<mapsto> fingerprint content))\<rparr>)"

section \<open>Closing\<close>

definition decrement_opened :: "rstr \<Rightarrow> 'k doc_tracker \<Rightarrow> 'k doc_tracker" where
  "decrement_opened uri t =
     (case opened_documents t uri of
        None \<Rightarrow> t
      | Some c \<Rightarrow>
          t\<lparr>opened_documents := (opened_documents t)(uri := (if c - 1 = 0 then None else Some (c - 1)))\<rparr>)"

definition remove_from_reverse_index :: "rstr \<Rightarrow> 'k \<Rightarrow> 'k doc_tracker \<Rightarrow> 'k doc_tracker" where
  "remove_from_reverse_index uri k t =
     (case virtual_to_servers t uri of
        None \<Rightarrow> t
      | Some ks \<Rightarrow>
          (let ks = filter (\<lambda>k'. k' \<noteq> k) ks
           in t\<lparr>virtual_to_servers := (virtual_to_servers t)(uri := (if ks = [] then None else Some ks))\<rparr>))"

definition forget_version :: "rstr \<Rightarrow> 'k \<Rightarrow> 'k doc_tracker \<Rightarrow> 'k doc_tracker" where
  "forget_version uri k t =
     (case document_versions t k of
        None \<Rightarrow> t
      | Some docs \<Rightarrow> t\<lparr>document_versions := (document_versions t)(k \<mapsto> docs(uri := None))\<rparr>)"

definition forget_fingerprint :: "rstr \<Rightarrow> 'k \<Rightarrow> 'k doc_tracker \<Rightarrow> 'k doc_tracker" where
  "forget_fingerprint uri k t =
     (case document_fingerprints t k of
        None \<Rightarrow> t
      | Some docs \<Rightarrow> t\<lparr>document_fingerprints := (document_fingerprints t)(k \<mapsto> docs(uri := None))\<rparr>)"

definition untrack_document :: "rstr \<Rightarrow> 'k \<Rightarrow> 'k doc_tracker \<Rightarrow> 'k doc_tracker" where
  "untrack_document uri k t =
     (let t = forget_fingerprint uri k (forget_version uri k t);
          t = remove_from_reverse_index uri k (decrement_opened uri t)
      in t\<lparr>open_claims := (open_claims t)((k, uri) := None)\<rparr>)"

text \<open>The loop over the URIs of a purged connection changes each URI once, in any order.\<close>

definition purge_connection :: "'k \<Rightarrow> 'k doc_tracker \<Rightarrow> 'k doc_tracker" where
  "purge_connection k t =
     (let t = t\<lparr>connection_generations := (connection_generations t)(k \<mapsto> connection_generation k t + 1)\<rparr>;
          t = t\<lparr>leased := leased t ++ map_retain (\<lambda>key _. fst key = k) (virtual_uri_provenance t),
                virtual_uri_provenance := map_retain (\<lambda>key _. fst key \<noteq> k) (virtual_uri_provenance t)\<rparr>;
          docs = docs_of k t;
          t = t\<lparr>document_versions := (document_versions t)(k := None),
                document_fingerprints := (document_fingerprints t)(k := None)\<rparr>;
          t = t\<lparr>opened_documents := (\<lambda>uri. if docs uri = None then opened_documents t uri
                                          else opened_documents (decrement_opened uri t) uri),
                virtual_to_servers := (\<lambda>uri. if docs uri = None then virtual_to_servers t uri
                                            else virtual_to_servers (remove_from_reverse_index uri k t) uri)\<rparr>;
          t = t\<lparr>host_to_virtual := (\<lambda>host. case host_to_virtual t host of
                  None \<Rightarrow> None
                | Some ds \<Rightarrow> let ds = filter (\<lambda>d. od_connection_key d \<noteq> k) ds
                             in if ds = [] then None else Some ds)\<rparr>
      in t\<lparr>open_claims := map_retain (\<lambda>key _. fst key \<noteq> k) (open_claims t)\<rparr>)"

definition rollback_open_claim_if ::
  "(virtual_document_uri \<Rightarrow> rstr) \<Rightarrow> rstr \<Rightarrow> rstr \<Rightarrow> 'k \<Rightarrow> nat \<Rightarrow> 'k doc_tracker \<Rightarrow> bool \<times> 'k doc_tracker" where
  "rollback_open_claim_if uri_of host_uri uri k expected_claim t =
     (if open_claims t (k, uri) \<noteq> Some expected_claim then (False, t)
      else let t = t\<lparr>open_claims := (open_claims t)((k, uri) := None)\<rparr>;
               t = t\<lparr>virtual_uri_provenance := (\<lambda>(k', g).
                       if k' = k
                       then map_option (\<lambda>p. release_reservation uri (p\<lparr>queued := queued p - {uri}\<rparr>))
                              (virtual_uri_provenance t (k', g))
                       else virtual_uri_provenance t (k', g))\<rparr>;
               t = forget_fingerprint uri k (forget_version uri k t)
           in (True,
               case host_to_virtual t host_uri of
                 None \<Rightarrow> t
               | Some ds \<Rightarrow>
                   (let ds = filter (\<lambda>d. uri_of (od_virtual_uri d) \<noteq> uri \<or> od_connection_key d \<noteq> k) ds
                    in t\<lparr>host_to_virtual := (host_to_virtual t)(host_uri := (if ds = [] then None else Some ds))\<rparr>)))"

definition rollback_open_claim ::
  "(virtual_document_uri \<Rightarrow> rstr) \<Rightarrow> rstr \<Rightarrow> rstr \<Rightarrow> 'k \<Rightarrow> 'k doc_tracker \<Rightarrow> bool \<times> 'k doc_tracker" where
  "rollback_open_claim uri_of host_uri uri k t =
     (case open_claim_waiter uri k t of
        None \<Rightarrow> (False, t)
      | Some claim \<Rightarrow> rollback_open_claim_if uri_of host_uri uri k claim t)"

text \<open>Removing documents from a host, and their connections from the reverse index.\<close>

definition unindex_docs ::
  "(virtual_document_uri \<Rightarrow> rstr) \<Rightarrow> 'k opened_virtual_doc list \<Rightarrow> 'k doc_tracker \<Rightarrow> 'k doc_tracker" where
  "unindex_docs uri_of ds t =
     fold (\<lambda>d. remove_from_reverse_index (uri_of (od_virtual_uri d)) (od_connection_key d)) ds t"

definition unregister_virtual_doc ::
  "(virtual_document_uri \<Rightarrow> rstr) \<Rightarrow> rstr \<Rightarrow> rstr \<Rightarrow> 'k doc_tracker \<Rightarrow> 'k doc_tracker" where
  "unregister_virtual_doc uri_of host_uri uri t =
     (case host_to_virtual t host_uri of
        None \<Rightarrow> t
      | Some ds \<Rightarrow>
          unindex_docs uri_of (filter (\<lambda>d. uri_of (od_virtual_uri d) = uri) ds)
            (t\<lparr>host_to_virtual := (host_to_virtual t)(host_uri \<mapsto>
                filter (\<lambda>d. uri_of (od_virtual_uri d) \<noteq> uri) ds)\<rparr>))"

definition host_virtual_docs :: "rstr \<Rightarrow> 'k doc_tracker \<Rightarrow> 'k opened_virtual_doc list" where
  "host_virtual_docs host_uri t = (case host_to_virtual t host_uri of Some ds \<Rightarrow> ds | None \<Rightarrow> [])"

definition remove_host_virtual_docs ::
  "(virtual_document_uri \<Rightarrow> rstr) \<Rightarrow> rstr \<Rightarrow> 'k doc_tracker \<Rightarrow> 'k opened_virtual_doc list \<times> 'k doc_tracker" where
  "remove_host_virtual_docs uri_of host_uri t =
     (let ds = host_virtual_docs host_uri t
      in (ds, unindex_docs uri_of ds (t\<lparr>host_to_virtual := (host_to_virtual t)(host_uri := None)\<rparr>)))"

definition take_host_virtual_docs_where ::
  "(virtual_document_uri \<Rightarrow> rstr) \<Rightarrow> rstr \<Rightarrow> ('k opened_virtual_doc \<Rightarrow> bool) \<Rightarrow> 'k doc_tracker
     \<Rightarrow> 'k opened_virtual_doc list \<times> 'k doc_tracker" where
  "take_host_virtual_docs_where uri_of host_uri should_take t =
     (case host_to_virtual t host_uri of
        None \<Rightarrow> ([], t)
      | Some ds \<Rightarrow>
          (let taken = filter should_take ds
           in (taken, unindex_docs uri_of taken
                (t\<lparr>host_to_virtual := (host_to_virtual t)(host_uri \<mapsto> filter (\<lambda>d. \<not> should_take d) ds)\<rparr>))))"

definition remove_matching_virtual_docs ::
  "(virtual_document_uri \<Rightarrow> rstr) \<Rightarrow> rstr \<Rightarrow> rstr list \<Rightarrow> 'k doc_tracker
     \<Rightarrow> 'k opened_virtual_doc list \<times> 'k doc_tracker" where
  "remove_matching_virtual_docs uri_of host_uri invalidated_ulids t =
     (if invalidated_ulids = [] then ([], t)
      else case host_to_virtual t host_uri of
             None \<Rightarrow> ([], t)
           | Some ds \<Rightarrow>
               (let closed = (\<lambda>d. vd_region_id (od_virtual_uri d) \<in> set invalidated_ulids);
                    to_close = filter closed ds
                in (to_close, unindex_docs uri_of to_close
                     (t\<lparr>host_to_virtual := (host_to_virtual t)(host_uri \<mapsto> filter (\<lambda>d. \<not> closed d) ds)\<rparr>))))"

definition remove_replaced_virtual_docs ::
  "(virtual_document_uri \<Rightarrow> rstr) \<Rightarrow> rstr \<Rightarrow> (rstr \<rightharpoonup> rstr) \<Rightarrow> 'k doc_tracker
     \<Rightarrow> 'k opened_virtual_doc list \<times> 'k doc_tracker" where
  "remove_replaced_virtual_docs uri_of host_uri expected_languages t =
     take_host_virtual_docs_where uri_of host_uri
       (\<lambda>d. case expected_languages (vd_region_id (od_virtual_uri d)) of
              Some expected \<Rightarrow> vd_language (od_virtual_uri d) \<noteq> expected
            | None \<Rightarrow> False) t"

section \<open>Queries\<close>

definition get_all_connections_for_virtual_uri :: "rstr \<Rightarrow> 'k doc_tracker \<Rightarrow> 'k list" where
  "get_all_connections_for_virtual_uri uri t =
     (case virtual_to_servers t uri of Some ks \<Rightarrow> ks | None \<Rightarrow> [])"

definition connections_serving_uri ::
  "(virtual_document_uri \<Rightarrow> rstr) \<Rightarrow> (rstr \<Rightarrow> rstr option) \<Rightarrow> rstr \<Rightarrow> 'k doc_tracker \<Rightarrow> 'k list" where
  "connections_serving_uri uri_of parse_host uri t =
     (let connections = get_all_connections_for_virtual_uri uri t
      in case parse_host uri of
           None \<Rightarrow> connections
         | Some host_uri \<Rightarrow>
             fold (\<lambda>d ks.
                 if is_virtual_doc_open_on_connection (uri_of (od_virtual_uri d)) (od_connection_key d) t \<and>
                    od_connection_key d \<notin> set ks
                 then ks @ [od_connection_key d] else ks)
               (host_virtual_docs host_uri t) connections)"

text \<open>A lease on the provenance of one generation, and the URIs added to it alone.\<close>

record 'k virtual_uri_observer =
  ob_lease :: "('k \<times> nat) option"
  explicit_uris :: "rstr set"

definition observe_virtual_uris_for_connection ::
  "'k \<Rightarrow> nat \<Rightarrow> 'k doc_tracker \<Rightarrow> 'k virtual_uri_observer \<times> 'k doc_tracker" where
  "observe_virtual_uris_for_connection k g t =
     (if connection_generation k t = g
      then (\<lparr>ob_lease = Some (k, g), explicit_uris = {}\<rparr>, set_provenance k g (provenance_for k g t) t)
      else (\<lparr>ob_lease = None, explicit_uris = {}\<rparr>, t))"

definition observer_insert :: "rstr \<Rightarrow> 'k virtual_uri_observer \<Rightarrow> 'k virtual_uri_observer" where
  "observer_insert uri ob = ob\<lparr>explicit_uris := insert uri (explicit_uris ob)\<rparr>"

definition observer_contains :: "'k doc_tracker \<Rightarrow> 'k virtual_uri_observer \<Rightarrow> rstr \<Rightarrow> bool" where
  "observer_contains t ob uri \<longleftrightarrow>
     uri \<in> explicit_uris ob \<or>
     (case ob_lease ob of
        None \<Rightarrow> False
      | Some key \<Rightarrow>
          (case virtual_uri_provenance t key of
             Some p \<Rightarrow> provenance_contains p uri
           | None \<Rightarrow> (case leased t key of Some p \<Rightarrow> provenance_contains p uri | None \<Rightarrow> False)))"

end
