(* ===== verification/Document_Laws.thy ===== *)
theory Document_Laws
  imports Document_Tracker Histories
begin

text \<open>
  What holds of \<open>Document_Tracker\<close> however its methods interleave. Each document on each
  connection has a phase, which the methods move along the edges of \<open>lifecycle\<close>.
\<close>

section \<open>Operations\<close>

datatype 'k doc_op =
    Claim rstr 'k
  | Mark_Queued rstr 'k nat nat
  | Mark_Sent rstr 'k nat nat
  | Register rstr virtual_document_uri 'k
  | Increment rstr 'k rstr
  | Record_Sent rstr 'k rstr
  | Untrack rstr 'k
  | Purge 'k
  | Rollback_If rstr rstr 'k nat
  | Rollback rstr rstr 'k
  | Unregister rstr rstr
  | Remove_Host rstr
  | Take_Where rstr "'k opened_virtual_doc \<Rightarrow> bool"
  | Remove_Matching rstr "rstr list"
  | Remove_Replaced rstr "rstr \<rightharpoonup> rstr"
  | Observe 'k nat

type_synonym doc_params = "(virtual_document_uri \<Rightarrow> rstr) \<times> (rstr \<Rightarrow> bool) \<times> (rstr \<Rightarrow> u64)"

fun apply_op :: "doc_params \<Rightarrow> 'k doc_op \<Rightarrow> 'k doc_tracker \<Rightarrow> 'k doc_tracker" where
  "apply_op (uri_of, scratch, fp) op t = (case op of
     Claim uri k \<Rightarrow> snd (try_claim_for_open uri k t)
   | Mark_Queued uri k g c \<Rightarrow> snd (mark_open_queued uri k g c t)
   | Mark_Sent uri k g c \<Rightarrow> snd (mark_open_sent scratch uri k g c t)
   | Register host v k \<Rightarrow> register_pending_document uri_of host v k t
   | Increment uri k content \<Rightarrow> snd (increment_version_if_content_changed fp uri k content t)
   | Record_Sent uri k content \<Rightarrow> record_sent_content_fingerprint fp uri k content t
   | Untrack uri k \<Rightarrow> untrack_document uri k t
   | Purge k \<Rightarrow> purge_connection k t
   | Rollback_If host uri k c \<Rightarrow> snd (rollback_open_claim_if uri_of host uri k c t)
   | Rollback host uri k \<Rightarrow> snd (rollback_open_claim uri_of host uri k t)
   | Unregister host uri \<Rightarrow> unregister_virtual_doc uri_of host uri t
   | Remove_Host host \<Rightarrow> snd (remove_host_virtual_docs uri_of host t)
   | Take_Where host f \<Rightarrow> snd (take_host_virtual_docs_where uri_of host f t)
   | Remove_Matching host ids \<Rightarrow> snd (remove_matching_virtual_docs uri_of host ids t)
   | Remove_Replaced host expected \<Rightarrow> snd (remove_replaced_virtual_docs uri_of host expected t)
   | Observe k g \<Rightarrow> snd (observe_virtual_uris_for_connection k g t))"

definition run_docs :: "doc_params \<Rightarrow> 'k doc_op list \<Rightarrow> 'k doc_tracker \<Rightarrow> 'k doc_tracker" where
  "run_docs ps ops = fold (apply_op ps) ops"

section \<open>What the auxiliary methods leave alone\<close>

lemma decrement_opened_fields [simp]:
  "document_versions (decrement_opened u t) = document_versions t"
  "virtual_to_servers (decrement_opened u t) = virtual_to_servers t"
  "virtual_uri_provenance (decrement_opened u t) = virtual_uri_provenance t"
  "leased (decrement_opened u t) = leased t"
  "open_claims (decrement_opened u t) = open_claims t"
  "connection_generations (decrement_opened u t) = connection_generations t"
  "next_claim (decrement_opened u t) = next_claim t"
  by (simp_all add: decrement_opened_def split: option.splits)

lemma remove_from_reverse_index_fields [simp]:
  "document_versions (remove_from_reverse_index u k t) = document_versions t"
  "opened_documents (remove_from_reverse_index u k t) = opened_documents t"
  "virtual_uri_provenance (remove_from_reverse_index u k t) = virtual_uri_provenance t"
  "leased (remove_from_reverse_index u k t) = leased t"
  "open_claims (remove_from_reverse_index u k t) = open_claims t"
  "connection_generations (remove_from_reverse_index u k t) = connection_generations t"
  "next_claim (remove_from_reverse_index u k t) = next_claim t"
  by (simp_all add: remove_from_reverse_index_def Let_def split: option.splits)

lemma forget_version_fields [simp]:
  "opened_documents (forget_version u k t) = opened_documents t"
  "virtual_to_servers (forget_version u k t) = virtual_to_servers t"
  "virtual_uri_provenance (forget_version u k t) = virtual_uri_provenance t"
  "leased (forget_version u k t) = leased t"
  "open_claims (forget_version u k t) = open_claims t"
  "connection_generations (forget_version u k t) = connection_generations t"
  "next_claim (forget_version u k t) = next_claim t"
  by (simp_all add: forget_version_def split: option.splits)

lemma forget_fingerprint_fields [simp]:
  "document_versions (forget_fingerprint u k t) = document_versions t"
  "opened_documents (forget_fingerprint u k t) = opened_documents t"
  "virtual_to_servers (forget_fingerprint u k t) = virtual_to_servers t"
  "virtual_uri_provenance (forget_fingerprint u k t) = virtual_uri_provenance t"
  "leased (forget_fingerprint u k t) = leased t"
  "open_claims (forget_fingerprint u k t) = open_claims t"
  "connection_generations (forget_fingerprint u k t) = connection_generations t"
  "next_claim (forget_fingerprint u k t) = next_claim t"
  by (simp_all add: forget_fingerprint_def split: option.splits)

lemma unindex_docs_fields [simp]:
  "document_versions (unindex_docs uri_of ds t) = document_versions t"
  "opened_documents (unindex_docs uri_of ds t) = opened_documents t"
  "virtual_uri_provenance (unindex_docs uri_of ds t) = virtual_uri_provenance t"
  "leased (unindex_docs uri_of ds t) = leased t"
  "open_claims (unindex_docs uri_of ds t) = open_claims t"
  "connection_generations (unindex_docs uri_of ds t) = connection_generations t"
  "next_claim (unindex_docs uri_of ds t) = next_claim t"
  by (induction ds arbitrary: t) (simp_all add: unindex_docs_def)

abbreviation serves :: "'k doc_tracker \<Rightarrow> 'k \<Rightarrow> rstr \<Rightarrow> bool" where
  "serves t k u \<equiv> is_virtual_doc_open_on_connection u k t"

lemma serves_remove [simp]:
  "serves (remove_from_reverse_index u k t) k' u' \<longleftrightarrow> serves t k' u' \<and> (u', k') \<noteq> (u, k)"
  by (auto simp: remove_from_reverse_index_def is_virtual_doc_open_on_connection_def filter_empty_conv Let_def
      split: option.splits)

lemma serves_unindex:
  "serves (unindex_docs uri_of ds t) k u \<longleftrightarrow>
     serves t k u \<and> (\<forall>d \<in> set ds. (uri_of (od_virtual_uri d), od_connection_key d) \<noteq> (u, k))"
  unfolding unindex_docs_def by (induction ds arbitrary: t) auto

lemma docs_of_forget [simp]:
  "docs_of k' (forget_version u k t) = (if k' = k then (docs_of k t)(u := None) else docs_of k' t)"
  by (auto simp: forget_version_def docs_of_def split: option.splits)

lemma docs_of_updates [simp]:
  "docs_of k (t\<lparr>document_fingerprints := b\<rparr>) = docs_of k t"
  "docs_of k (t\<lparr>host_to_virtual := c\<rparr>) = docs_of k t"
  "docs_of k (t\<lparr>opened_documents := d\<rparr>) = docs_of k t"
  "docs_of k (t\<lparr>virtual_to_servers := e\<rparr>) = docs_of k t"
  "docs_of k (t\<lparr>virtual_uri_provenance := f\<rparr>) = docs_of k t"
  "docs_of k (t\<lparr>leased := l\<rparr>) = docs_of k t"
  "docs_of k (t\<lparr>open_claims := h\<rparr>) = docs_of k t"
  "docs_of k (t\<lparr>connection_generations := i\<rparr>) = docs_of k t"
  "docs_of k (t\<lparr>next_claim := j\<rparr>) = docs_of k t"
  by (simp_all add: docs_of_def)

lemma serves_updates [simp]:
  "serves (t\<lparr>document_versions := a\<rparr>) k u = serves t k u"
  "serves (t\<lparr>document_fingerprints := b\<rparr>) k u = serves t k u"
  "serves (t\<lparr>host_to_virtual := c\<rparr>) k u = serves t k u"
  "serves (t\<lparr>opened_documents := d\<rparr>) k u = serves t k u"
  "serves (t\<lparr>virtual_uri_provenance := f\<rparr>) k u = serves t k u"
  "serves (t\<lparr>leased := l\<rparr>) k u = serves t k u"
  "serves (t\<lparr>open_claims := h\<rparr>) k u = serves t k u"
  "serves (t\<lparr>connection_generations := i\<rparr>) k u = serves t k u"
  "serves (t\<lparr>next_claim := j\<rparr>) k u = serves t k u"
  by (simp_all add: is_virtual_doc_open_on_connection_def)

lemma generation_updates [simp]:
  "connection_generation k (t\<lparr>document_versions := a\<rparr>) = connection_generation k t"
  "connection_generation k (t\<lparr>document_fingerprints := b\<rparr>) = connection_generation k t"
  "connection_generation k (t\<lparr>host_to_virtual := c\<rparr>) = connection_generation k t"
  "connection_generation k (t\<lparr>opened_documents := d\<rparr>) = connection_generation k t"
  "connection_generation k (t\<lparr>virtual_to_servers := e\<rparr>) = connection_generation k t"
  "connection_generation k (t\<lparr>virtual_uri_provenance := f\<rparr>) = connection_generation k t"
  "connection_generation k (t\<lparr>leased := l\<rparr>) = connection_generation k t"
  "connection_generation k (t\<lparr>open_claims := h\<rparr>) = connection_generation k t"
  "connection_generation k (t\<lparr>next_claim := j\<rparr>) = connection_generation k t"
  by (simp_all add: connection_generation_def)

lemma provenance_updates [simp]:
  "provenance_for k g (t\<lparr>document_versions := a\<rparr>) = provenance_for k g t"
  "provenance_for k g (t\<lparr>document_fingerprints := b\<rparr>) = provenance_for k g t"
  "provenance_for k g (t\<lparr>host_to_virtual := c\<rparr>) = provenance_for k g t"
  "provenance_for k g (t\<lparr>opened_documents := d\<rparr>) = provenance_for k g t"
  "provenance_for k g (t\<lparr>virtual_to_servers := e\<rparr>) = provenance_for k g t"
  "provenance_for k g (t\<lparr>leased := l\<rparr>) = provenance_for k g t"
  "provenance_for k g (t\<lparr>open_claims := h\<rparr>) = provenance_for k g t"
  "provenance_for k g (t\<lparr>connection_generations := i\<rparr>) = provenance_for k g t"
  "provenance_for k g (t\<lparr>next_claim := j\<rparr>) = provenance_for k g t"
  by (simp_all add: provenance_for_def)

lemma docs_of_set [simp]:
  "docs_of k' (t\<lparr>document_versions := (document_versions t')(k \<mapsto> docs)\<rparr>) =
     (if k' = k then docs else docs_of k' t')"
  by (simp add: docs_of_def)

lemma read_from_fields:
  "document_versions t = document_versions t' \<Longrightarrow> docs_of k t = docs_of k t'"
  "virtual_to_servers t = virtual_to_servers t' \<Longrightarrow> serves t k u = serves t' k u"
  "connection_generations t = connection_generations t' \<Longrightarrow>
     connection_generation k t = connection_generation k t'"
  "virtual_uri_provenance t = virtual_uri_provenance t' \<Longrightarrow> provenance_for k g t = provenance_for k g t'"
  by (simp_all add: docs_of_def is_virtual_doc_open_on_connection_def connection_generation_def
      provenance_for_def)

section \<open>Provenance\<close>

definition sent_uris :: "provenance \<Rightarrow> rstr set" where
  "sent_uris p = issued p \<union> scratch_uris p"

definition known_uris :: "provenance \<Rightarrow> rstr set" where
  "known_uris p = sent_uris p \<union> reservations p"

definition provenance_ok :: "provenance \<Rightarrow> bool" where
  "provenance_ok p \<longleftrightarrow>
     finite (known_uris p) \<and> admitted p = card (known_uris p) \<and> admitted p \<le> max_provenance \<and>
     reservations p \<inter> sent_uris p = {} \<and> queued p \<subseteq> known_uris p"

lemmas provenance_defs = provenance_ok_def known_uris_def sent_uris_def

lemma provenance_default_ok [simp]: "provenance_ok provenance_default"
  by (simp add: provenance_defs provenance_default_def)

lemma reserve_correct:
  assumes "provenance_ok p"
  shows "provenance_ok (snd (reserve u p)) \<and> sent_uris (snd (reserve u p)) = sent_uris p \<and>
    known_uris p \<subseteq> known_uris (snd (reserve u p)) \<and>
    (fst (reserve u p) \<longrightarrow> u \<in> known_uris (snd (reserve u p)))"
proof (cases "u \<in> known_uris p \<or> admitted p \<ge> max_provenance")
  case True
  then show ?thesis using assms by (auto simp: reserve_def provenance_defs)
next
  case False
  let ?p = "p\<lparr>reservations := insert u (reservations p), admitted := admitted p + 1\<rparr>"
  have p: "reserve u p = (True, ?p)" using False by (simp add: reserve_def provenance_defs)
  have "known_uris ?p = insert u (known_uris p)" by (simp add: provenance_defs)
  then show ?thesis using False assms unfolding p by (auto simp: provenance_ok_def sent_uris_def known_uris_def)
qed

lemma confirm_correct:
  assumes "provenance_ok p" "u \<in> known_uris p"
  shows "let q = confirm scratch u p in
    provenance_ok (q\<lparr>queued := queued q - {u}\<rparr>) \<and> known_uris (q\<lparr>queued := queued q - {u}\<rparr>) = known_uris p \<and>
    sent_uris (q\<lparr>queued := queued q - {u}\<rparr>) = insert u (sent_uris p)"
proof -
  define q where "q = (confirm scratch u p)\<lparr>queued := queued (confirm scratch u p) - {u}\<rparr>"
  have fields: "sent_uris q = insert u (sent_uris p)" "reservations q = reservations p - {u}"
    "queued q = queued p - {u}" "admitted q = admitted p"
    by (auto simp: q_def confirm_def insert_issued_def sent_uris_def Let_def)
  then have "known_uris q = known_uris p" using assms(2) by (auto simp: known_uris_def)
  moreover from this have "provenance_ok q"
    using assms(1) unfolding provenance_ok_def fields by (auto simp: known_uris_def fields)
  ultimately show ?thesis using fields(1) unfolding Let_def q_def [symmetric] by blast
qed

lemma release_correct:
  assumes "provenance_ok p"
  shows "let q = release_reservation u (p\<lparr>queued := queued p - {u}\<rparr>) in
    provenance_ok q \<and> known_uris p \<subseteq> insert u (known_uris q) \<and> sent_uris q = sent_uris p"
proof (cases "u \<in> reservations p")
  case True
  define q where "q = release_reservation u (p\<lparr>queued := queued p - {u}\<rparr>)"
  have fields: "sent_uris q = sent_uris p" "reservations q = reservations p - {u}"
    "queued q = queued p - {u}" "admitted q = admitted p - 1"
    using True by (auto simp: q_def release_reservation_def sent_uris_def)
  moreover from this have known: "known_uris q = known_uris p - {u}"
    using True assms by (auto simp: known_uris_def provenance_ok_def)
  moreover have "u \<in> known_uris p" using True by (simp add: known_uris_def)
  then have "provenance_ok q"
    using assms unfolding provenance_ok_def fields known by auto
  ultimately show ?thesis unfolding q_def [symmetric] Let_def by auto
next
  case False
  then show ?thesis using assms by (auto simp: release_reservation_def provenance_defs)
qed

section \<open>The invariant\<close>

definition doc_ok :: "'k doc_tracker \<Rightarrow> bool" where
  "doc_ok t \<longleftrightarrow>
     (\<forall>k u c. open_claims t (k, u) = Some c \<longrightarrow>
        docs_of k t u \<noteq> None \<and> c < next_claim t \<and>
        u \<in> known_uris (provenance_for k (connection_generation k t) t)) \<and>
     (\<forall>k u. serves t k u \<longrightarrow> docs_of k t u \<noteq> None \<and> open_claims t (k, u) = None) \<and>
     (\<forall>k g p. virtual_uri_provenance t (k, g) = Some p \<longrightarrow>
        g = connection_generation k t \<and> provenance_ok p) \<and>
     (\<forall>k g p. leased t (k, g) = Some p \<longrightarrow> g < connection_generation k t \<and> provenance_ok p)"

lemma doc_okD:
  assumes "doc_ok t"
  shows "open_claims t (k, u) = Some c \<Longrightarrow> docs_of k t u \<noteq> None"
    "open_claims t (k, u) = Some c \<Longrightarrow> c < next_claim t"
    "open_claims t (k, u) = Some c \<Longrightarrow> u \<in> known_uris (provenance_for k (connection_generation k t) t)"
    "serves t k u \<Longrightarrow> docs_of k t u \<noteq> None"
    "serves t k u \<Longrightarrow> open_claims t (k, u) = None"
    "virtual_uri_provenance t (k, g) = Some p \<Longrightarrow> g = connection_generation k t"
    "provenance_ok (provenance_for k g t)"
    "leased t (k, g) = Some p \<Longrightarrow> g < connection_generation k t"
    "virtual_uri_provenance t (k, g) = Some p \<Longrightarrow> provenance_ok p"
    "leased t (k, g) = Some p \<Longrightarrow> provenance_ok p"
  using assms unfolding doc_ok_def provenance_for_def by (blast | auto split: option.splits)+

text \<open>The URIs whose \<open>didOpen\<close> was sent to a connection in one of its generations.\<close>

definition sent_in :: "'k doc_tracker \<Rightarrow> 'k \<Rightarrow> nat \<Rightarrow> rstr set" where
  "sent_in t k g =
     (case (leased t ++ virtual_uri_provenance t) (k, g) of Some p \<Rightarrow> sent_uris p | None \<Rightarrow> {})"

text \<open>
  What time changes in one direction only: generations and claims are counted up, a claim that
  was settled is not taken again, and what was sent stays sent.
\<close>

definition doc_moves :: "'k doc_tracker \<Rightarrow> 'k doc_tracker \<Rightarrow> bool" where
  "doc_moves t t' \<longleftrightarrow>
     (\<forall>k. connection_generation k t \<le> connection_generation k t') \<and> next_claim t \<le> next_claim t' \<and>
     (\<forall>key c. c < next_claim t \<and> open_claims t key \<noteq> Some c \<longrightarrow> open_claims t' key \<noteq> Some c) \<and>
     (\<forall>k g. sent_in t k g \<subseteq> sent_in t' k g)"

lemma doc_moves_sent: "doc_moves t t' \<Longrightarrow> sent_in t k g \<subseteq> sent_in t' k g"
  by (simp add: doc_moves_def)

text \<open>Steps that leave provenance alone and take only new claims on known URIs.\<close>

lemma claims_step:
  assumes ok: "doc_ok t"
    and f: "virtual_uri_provenance t' = virtual_uri_provenance t" "leased t' = leased t"
      "connection_generations t' = connection_generations t" "next_claim t \<le> next_claim t'"
    and claims: "\<And>k u c. open_claims t' (k, u) = Some c \<Longrightarrow> docs_of k t' u \<noteq> None \<and>
        (open_claims t (k, u) = Some c \<or>
         next_claim t \<le> c \<and> c < next_claim t' \<and> u \<in> known_uris (provenance_for k (connection_generation k t) t))"
    and served: "\<And>k u. serves t' k u \<Longrightarrow> docs_of k t' u \<noteq> None \<and> open_claims t' (k, u) = None"
  shows "doc_ok t' \<and> doc_moves t t'"
proof -
  have r: "connection_generation k t' = connection_generation k t" "provenance_for k g t' = provenance_for k g t"
    "sent_in t' k g = sent_in t k g" for k g
    by (simp_all add: connection_generation_def provenance_for_def sent_in_def f(1-3))
  have "doc_ok t'" unfolding doc_ok_def r f(1,2)
  proof (intro conjI)
    show "\<forall>k u c. open_claims t' (k, u) = Some c \<longrightarrow> docs_of k t' u \<noteq> None \<and> c < next_claim t' \<and>
        u \<in> known_uris (provenance_for k (connection_generation k t) t)"
      using claims doc_okD(2,3) [OF ok] f(4) by (meson order_less_le_trans)
    show "\<forall>k u. serves t' k u \<longrightarrow> docs_of k t' u \<noteq> None \<and> open_claims t' (k, u) = None"
      using served by blast
  qed (use ok in \<open>unfold doc_ok_def, blast+\<close>)
  moreover have "doc_moves t t'" unfolding doc_moves_def r
    using f(4) claims by (auto, meson leD)
  ultimately show ?thesis ..
qed

lemma doc_moves_refl: "doc_moves t t"
  by (simp add: doc_moves_def)

lemma doc_moves_trans: "doc_moves t t' \<Longrightarrow> doc_moves t' t'' \<Longrightarrow> doc_moves t t''"
  unfolding doc_moves_def by (meson order_trans order_less_le_trans)

section \<open>Steps that change claims or provenance\<close>

lemma set_provenance_fields [simp]:
  "document_versions (set_provenance k g p t) = document_versions t"
  "opened_documents (set_provenance k g p t) = opened_documents t"
  "virtual_to_servers (set_provenance k g p t) = virtual_to_servers t"
  "virtual_uri_provenance (set_provenance k g p t) = (virtual_uri_provenance t)((k, g) \<mapsto> p)"
  "leased (set_provenance k g p t) = leased t"
  "open_claims (set_provenance k g p t) = open_claims t"
  "connection_generations (set_provenance k g p t) = connection_generations t"
  "next_claim (set_provenance k g p t) = next_claim t"
  by (simp_all add: set_provenance_def)

lemma set_provenance_reads [simp]:
  "docs_of k' (set_provenance k g p t) = docs_of k' t"
  "serves (set_provenance k g p t) k' u \<longleftrightarrow> serves t k' u"
  "connection_generation k' (set_provenance k g p t) = connection_generation k' t"
  "provenance_for k' g' (set_provenance k g p t) = (if (k', g') = (k, g) then p else provenance_for k' g' t)"
  by (auto simp: read_from_fields provenance_for_def docs_of_def is_virtual_doc_open_on_connection_def
      connection_generation_def)

lemma sent_in_current:
  assumes "doc_ok t"
  shows "sent_in t k (connection_generation k t) = sent_uris (provenance_for k (connection_generation k t) t)"
proof -
  have "leased t (k, connection_generation k t) = None"
    using doc_okD(8) [OF assms, of k "connection_generation k t"] by (cases "leased t (k, connection_generation k t)") auto
  then show ?thesis
    by (simp add: sent_in_def provenance_for_def provenance_default_def sent_uris_def map_add_def split: option.splits)
qed

lemma set_provenance_step:
  assumes "doc_ok t" "g = connection_generation k t" "provenance_ok p"
    "sent_uris (provenance_for k g t) \<subseteq> sent_uris p"
    "\<forall>u. open_claims t (k, u) \<noteq> None \<longrightarrow> u \<in> known_uris p"
  shows "doc_ok (set_provenance k g p t) \<and> doc_moves t (set_provenance k g p t)"
proof
  show "doc_ok (set_provenance k g p t)" using assms by (auto simp: doc_ok_def)
  have "sent_in t k' g' \<subseteq> sent_in (set_provenance k g p t) k' g'" for k' g'
    using assms(2,4) sent_in_current [OF assms(1), of k]
    by (cases "(k', g') = (k, g)") (auto simp: sent_in_def map_add_def)
  then show "doc_moves t (set_provenance k g p t)" by (auto simp: doc_moves_def)
qed

section \<open>Every method\<close>

lemma claim_preserves:
  assumes ok: "doc_ok t"
  shows "doc_ok (snd (try_claim_for_open u k t)) \<and> doc_moves t (snd (try_claim_for_open u k t))"
proof -
  let ?t0 = "t\<lparr>document_versions := (document_versions t)(k \<mapsto> docs_of k t)\<rparr>"
  have t0: "doc_ok ?t0 \<and> doc_moves t ?t0"
    by (intro claims_step [OF ok]) (auto dest: doc_okD(1,4,5) [OF ok])
  show ?thesis
  proof (cases "docs_of k t u \<noteq> None \<or> open_claims t (k, u) \<noteq> None")
    case True
    then show ?thesis using t0 by (auto simp: try_claim_for_open_def Let_def)
  next
    case False
    let ?g = "connection_generation k t"
    obtain a p where r: "reserve u (provenance_for k ?g t) = (a, p)" by fastforce
    have p: "provenance_ok p" "sent_uris p = sent_uris (provenance_for k ?g t)"
      "known_uris (provenance_for k ?g t) \<subseteq> known_uris p" "a \<longrightarrow> u \<in> known_uris p"
      using reserve_correct [OF doc_okD(7) [OF ok], of u k ?g] unfolding r by auto
    let ?t1 = "set_provenance k ?g p ?t0"
    have "\<forall>u'. open_claims ?t0 (k, u') \<noteq> None \<longrightarrow> u' \<in> known_uris p"
      using doc_okD(3) [OF ok, of k] p(3) by auto
    then have "doc_ok ?t1 \<and> doc_moves ?t0 ?t1"
      using t0 p(1,2) by (intro set_provenance_step) simp_all
    then have t1: "doc_ok ?t1" "doc_moves t ?t1" using t0 doc_moves_trans by blast+
    let ?t2 = "?t1\<lparr>document_versions := (document_versions t)(k \<mapsto> (docs_of k t)(u \<mapsto> 1)),
      open_claims := (open_claims t)((k, u) \<mapsto> next_claim t), next_claim := next_claim t + 1\<rparr>"
    have t2: "doc_ok ?t2 \<and> doc_moves ?t1 ?t2" if a
      using False p(4) that
      by (intro claims_step [OF t1(1)]) (auto split: if_splits dest: doc_okD(1,4,5) [OF ok])
    have "snd (try_claim_for_open u k t) = (if a then ?t2 else ?t1)"
      using False r by (auto simp: try_claim_for_open_def Let_def)
    then show ?thesis using t1 t2 doc_moves_trans by (auto split: if_splits)
  qed
qed

text \<open>A method \<open>f\<close> keeps the invariant and moves time forward.\<close>

definition keeps :: "('k doc_tracker \<Rightarrow> 'k doc_tracker) \<Rightarrow> bool" where
  "keeps f \<longleftrightarrow> (\<forall>t. doc_ok t \<longrightarrow> doc_ok (f t) \<and> doc_moves t (f t))"

lemma keepsI: "(\<And>t. doc_ok t \<Longrightarrow> doc_ok (f t) \<and> doc_moves t (f t)) \<Longrightarrow> keeps f"
  by (simp add: keeps_def)

lemma keeps_claim: "keeps (\<lambda>t. snd (try_claim_for_open u k t))"
  by (rule keepsI) (rule claim_preserves)

lemma keeps_queued: "keeps (\<lambda>t. snd (mark_open_queued u k g c t))"
proof (rule keepsI)
  fix t :: "'a doc_tracker"
  assume ok: "doc_ok t"
  let ?p = "provenance_for k g t"
  have "doc_ok (set_provenance k g (?p\<lparr>queued := insert u (queued ?p)\<rparr>) t) \<and>
      doc_moves t (set_provenance k g (?p\<lparr>queued := insert u (queued ?p)\<rparr>) t)"
    if "g = connection_generation k t" "open_claims t (k, u) = Some c"
    using doc_okD(3) [OF ok] doc_okD(7) [OF ok, of k g] that
    by (intro set_provenance_step [OF ok that(1)]) (auto simp: provenance_defs)
  then show "doc_ok (snd (mark_open_queued u k g c t)) \<and> doc_moves t (snd (mark_open_queued u k g c t))"
    using ok doc_moves_refl by (auto simp: mark_open_queued_def Let_def)
qed

lemma serves_add [simp]:
  "serves (t\<lparr>virtual_to_servers := (virtual_to_servers t')(u \<mapsto> (case virtual_to_servers t' u of Some ks \<Rightarrow> ks | None \<Rightarrow> []) @ [k])\<rparr>) k' u' \<longleftrightarrow>
     serves t' k' u' \<or> (k', u') = (k, u)"
  by (auto simp: is_virtual_doc_open_on_connection_def split: option.splits)

text \<open>The method that promotes a claim, on a state with the invariant.\<close>

lemma mark_open_sent_accepts:
  assumes ok: "doc_ok t" and g: "g = connection_generation k t" and c: "open_claims t (k, u) = Some c"
  shows "let p = (confirm scratch u (provenance_for k g t))\<lparr>queued := queued (confirm scratch u (provenance_for k g t)) - {u}\<rparr>;
             t' = (set_provenance k g p t)\<lparr>open_claims := (open_claims t)((k, u) := None)\<rparr>
         in mark_open_sent scratch u k g c t =
              (True, t'\<lparr>virtual_to_servers := (virtual_to_servers t)(u \<mapsto>
                          (case virtual_to_servers t u of Some ks \<Rightarrow> ks | None \<Rightarrow> []) @ [k]),
                        opened_documents := (opened_documents t)(u \<mapsto>
                          (case opened_documents t u of Some n \<Rightarrow> n | None \<Rightarrow> 0) + 1)\<rparr>)"
proof -
  have "\<not> serves t k u" using doc_okD(5) [OF ok] c by auto
  then have "k \<notin> set (case virtual_to_servers t u of Some ks \<Rightarrow> ks | None \<Rightarrow> [])"
    by (auto simp: is_virtual_doc_open_on_connection_def split: option.splits)
  then show ?thesis by (simp add: mark_open_sent_def Let_def g c)
qed

lemma keeps_sent: "keeps (\<lambda>t. snd (mark_open_sent scratch u k g c t))"
proof (rule keepsI)
  fix t :: "'a doc_tracker"
  assume ok: "doc_ok t"
  show "doc_ok (snd (mark_open_sent scratch u k g c t)) \<and> doc_moves t (snd (mark_open_sent scratch u k g c t))"
  proof (cases "g = connection_generation k t \<and> open_claims t (k, u) = Some c")
    case False
    then show ?thesis using ok doc_moves_refl by (auto simp: mark_open_sent_def)
  next
    case True
    then have g: "g = connection_generation k t" and c: "open_claims t (k, u) = Some c" by simp_all
    let ?p = "provenance_for k g t"
    define p where "p = (confirm scratch u ?p)\<lparr>queued := queued (confirm scratch u ?p) - {u}\<rparr>"
    have p: "provenance_ok p" "known_uris p = known_uris ?p" "sent_uris p = insert u (sent_uris ?p)"
      using confirm_correct [OF doc_okD(7) [OF ok], of u k g scratch] doc_okD(3) [OF ok c]
      unfolding Let_def p_def [symmetric] g [symmetric] by blast+
    let ?t1 = "set_provenance k g p t"
    have t1: "doc_ok ?t1 \<and> doc_moves t ?t1"
      using doc_okD(3) [OF ok, of k] p g by (intro set_provenance_step [OF ok]) auto
    let ?t2 = "snd (mark_open_sent scratch u k g c t)"
    have t2: "?t2 = ?t1\<lparr>open_claims := (open_claims t)((k, u) := None),
        virtual_to_servers := (virtual_to_servers t)(u \<mapsto> (case virtual_to_servers t u of Some ks \<Rightarrow> ks | None \<Rightarrow> []) @ [k]),
        opened_documents := (opened_documents t)(u \<mapsto> (case opened_documents t u of Some n \<Rightarrow> n | None \<Rightarrow> 0) + 1)\<rparr>"
      using mark_open_sent_accepts [OF ok g c, of scratch] unfolding Let_def p_def [symmetric] by simp
    have "doc_ok ?t2 \<and> doc_moves ?t1 ?t2"
      unfolding t2 using t1 c
      by (intro claims_step) (auto dest: doc_okD(1,4,5) [OF ok] split: if_splits)
    then show ?thesis using t1 doc_moves_trans by blast
  qed
qed

lemma keeps_quietly:
  assumes "\<And>t. virtual_uri_provenance (f t) = virtual_uri_provenance t" "\<And>t. leased (f t) = leased t"
    "\<And>t. connection_generations (f t) = connection_generations t" "\<And>t. next_claim (f t) = next_claim t"
    "\<And>t. open_claims (f t) = open_claims t" "\<And>t k u. docs_of k t u \<noteq> None \<Longrightarrow> docs_of k (f t) u \<noteq> None"
    "\<And>t k u. serves (f t) k u \<Longrightarrow> serves t k u"
  shows "keeps f"
proof (rule keepsI)
  fix t :: "'a doc_tracker"
  assume ok: "doc_ok t"
  show "doc_ok (f t) \<and> doc_moves t (f t)"
  proof (rule claims_step [OF ok], goal_cases)
    case (5 k u c)
    then show ?case using assms(6) doc_okD(1) [OF ok] by (simp add: assms(5))
  next
    case (6 k u)
    then show ?case using assms(6,7) doc_okD(4,5) [OF ok] by (simp add: assms(5))
  qed (simp_all add: assms(1-4))
qed

lemma keeps_register: "keeps (register_pending_document uri_of host v k)"
  by (rule keeps_quietly) (auto simp: register_pending_document_def Let_def split: option.splits)

lemma keeps_increment: "keeps (\<lambda>t. snd (increment_version_if_content_changed fp u k content t))"
  by (rule keeps_quietly)
    (auto simp: increment_version_if_content_changed_def docs_of_def split: option.splits if_splits)

lemma keeps_record: "keeps (record_sent_content_fingerprint fp u k content)"
  by (rule keeps_quietly) (auto simp: record_sent_content_fingerprint_def Let_def)

text \<open>Methods that drop documents from a host.\<close>

definition hides :: "(virtual_document_uri \<Rightarrow> rstr) \<Rightarrow> ('k doc_tracker \<Rightarrow> 'k doc_tracker) \<Rightarrow> bool" where
  "hides uri_of f \<longleftrightarrow> (\<forall>t. \<exists>hs ds. f t = unindex_docs uri_of ds (t\<lparr>host_to_virtual := hs\<rparr>))"

lemma unindex_nothing: "unindex_docs uri_of [] (t\<lparr>host_to_virtual := host_to_virtual t\<rparr>) = t"
  by (simp add: unindex_docs_def)

lemma hides_nothing: "\<exists>hs ds. t = unindex_docs uri_of ds (t\<lparr>host_to_virtual := hs\<rparr>)"
  using unindex_nothing by metis

lemma hides_methods:
  "hides uri_of (unregister_virtual_doc uri_of host u)"
  "hides uri_of (\<lambda>t. snd (remove_host_virtual_docs uri_of host t))"
  "hides uri_of (\<lambda>t. snd (take_host_virtual_docs_where uri_of host should_take t))"
  "hides uri_of (\<lambda>t. snd (remove_matching_virtual_docs uri_of host ids t))"
  "hides uri_of (\<lambda>t. snd (remove_replaced_virtual_docs uri_of host expected t))"
  unfolding hides_def
  by (auto simp: unregister_virtual_doc_def remove_host_virtual_docs_def take_host_virtual_docs_where_def
      remove_matching_virtual_docs_def remove_replaced_virtual_docs_def Let_def hides_nothing
      split: option.splits)

lemma keeps_hiding:
  assumes "hides uri_of f"
  shows "keeps f"
proof (rule keepsI)
  fix t :: "'a doc_tracker"
  assume ok: "doc_ok t"
  obtain hs ds where f: "f t = unindex_docs uri_of ds (t\<lparr>host_to_virtual := hs\<rparr>)"
    using assms unfolding hides_def by blast
  then have docs: "docs_of k (f t) = docs_of k t" for k by (simp add: docs_of_def)
  show "doc_ok (f t) \<and> doc_moves t (f t)"
    using docs by (intro claims_step [OF ok]) (auto simp: f serves_unindex dest: doc_okD(1,4,5) [OF ok])
qed

lemma keeps_untrack: "keeps (untrack_document u k)"
proof (rule keepsI)
  fix t :: "'a doc_tracker"
  assume ok: "doc_ok t"
  let ?t = "untrack_document u k t"
  have docs: "docs_of k' ?t = (if k' = k then (docs_of k t)(u := None) else docs_of k' t)" for k'
    by (simp add: untrack_document_def Let_def docs_of_def forget_version_def split: option.splits)
  have srv: "serves ?t k' u' \<longleftrightarrow> serves t k' u' \<and> (u', k') \<noteq> (u, k)" for k' u'
    by (simp add: untrack_document_def Let_def) (simp add: is_virtual_doc_open_on_connection_def)
  show "doc_ok ?t \<and> doc_moves t ?t"
    by (rule claims_step [OF ok], unfold docs srv)
      (auto simp: untrack_document_def Let_def dest: doc_okD(1,4,5) [OF ok] split: if_splits)
qed

lemma purge_reads:
  "connection_generation k' (purge_connection k t) = connection_generation k' t + of_bool (k' = k)"
  "virtual_uri_provenance (purge_connection k t) =
     map_retain (\<lambda>key _. fst key \<noteq> k) (virtual_uri_provenance t)"
  "leased (purge_connection k t) =
     leased t ++ map_retain (\<lambda>key _. fst key = k) (virtual_uri_provenance t)"
  "open_claims (purge_connection k t) = map_retain (\<lambda>key _. fst key \<noteq> k) (open_claims t)"
  "next_claim (purge_connection k t) = next_claim t"
  "docs_of k' (purge_connection k t) = (if k' = k then Map.empty else docs_of k' t)"
  by (auto simp: purge_connection_def Let_def connection_generation_def docs_of_def)

lemma purge_serves:
  "serves (purge_connection k t) k' u \<longleftrightarrow> serves t k' u \<and> (k' = k \<longrightarrow> docs_of k t u = None)"
proof -
  have "virtual_to_servers (purge_connection k t) u =
      (if docs_of k t u = None then virtual_to_servers t u
       else virtual_to_servers (remove_from_reverse_index u k t) u)"
    by (simp add: purge_connection_def Let_def docs_of_def remove_from_reverse_index_def split: option.splits)
  then show ?thesis
    using serves_remove [where u' = u and k' = k' and u = u and k = k and t = t] unfolding is_virtual_doc_open_on_connection_def by auto
qed

lemma retained_split:
  "(m ++ map_retain (\<lambda>key _. fst key = k) p) ++ map_retain (\<lambda>key _. fst key \<noteq> k) p = m ++ p"
  by (rule ext) (auto simp: map_add_def map_retain_def split: option.splits)

lemma keeps_purge: "keeps (purge_connection k)"
proof (rule keepsI)
  fix t :: "'a doc_tracker"
  assume ok: "doc_ok t"
  let ?t = "purge_connection k t"
  have other: "provenance_for k' g ?t = provenance_for k' g t" if "k' \<noteq> k" for k' g
    using that by (simp add: provenance_for_def purge_reads map_retain_def split: option.splits)
  have "doc_ok ?t" unfolding doc_ok_def
  proof (intro conjI; intro allI impI)
    fix k' u c assume "open_claims ?t (k', u) = Some c"
    then have "k' \<noteq> k" "open_claims t (k', u) = Some c" by (simp_all add: purge_reads map_simps)
    then show "docs_of k' ?t u \<noteq> None \<and> c < next_claim ?t \<and>
        u \<in> known_uris (provenance_for k' (connection_generation k' ?t) ?t)"
      using doc_okD(1-3) [OF ok] by (simp add: purge_reads other)
  next
    fix k' u assume "serves ?t k' u"
    then show "docs_of k' ?t u \<noteq> None \<and> open_claims ?t (k', u) = None"
      using doc_okD(4,5) [OF ok, of u k'] by (auto simp: purge_serves purge_reads map_simps)
  next
    fix k' g p assume "virtual_uri_provenance ?t (k', g) = Some p"
    then show "g = connection_generation k' ?t \<and> provenance_ok p"
      by (auto simp: purge_reads map_simps dest: doc_okD(6,9) [OF ok])
  next
    fix k' g p assume "leased ?t (k', g) = Some p"
    then consider "leased t (k', g) = Some p" | "k' = k" "virtual_uri_provenance t (k', g) = Some p"
      by (auto simp: purge_reads map_add_Some_iff map_simps)
    then show "g < connection_generation k' ?t \<and> provenance_ok p"
      unfolding purge_reads
      by cases (auto dest: doc_okD(6,8,9,10) [OF ok])
  qed
  moreover have "doc_moves t ?t"
    by (auto simp: doc_moves_def sent_in_def purge_reads retained_split map_simps)
  ultimately show "doc_ok ?t \<and> doc_moves t ?t" ..
qed

lemma keeps_observe: "keeps (\<lambda>t. snd (observe_virtual_uris_for_connection k g t))"
proof (rule keepsI)
  fix t :: "'a doc_tracker"
  assume ok: "doc_ok t"
  show "doc_ok (snd (observe_virtual_uris_for_connection k g t)) \<and>
      doc_moves t (snd (observe_virtual_uris_for_connection k g t))"
  proof (cases "connection_generation k t = g")
    case True
    have "doc_ok (set_provenance k g (provenance_for k g t) t) \<and>
        doc_moves t (set_provenance k g (provenance_for k g t) t)"
      using doc_okD(3) [OF ok, of k] True by (intro set_provenance_step ok doc_okD(7) [OF ok]) auto
    then show ?thesis using True by (simp add: observe_virtual_uris_for_connection_def)
  qed (simp add: observe_virtual_uris_for_connection_def ok doc_moves_refl)
qed

definition released :: "rstr \<Rightarrow> provenance \<Rightarrow> provenance" where
  "released u p = release_reservation u (p\<lparr>queued := queued p - {u}\<rparr>)"

lemma released_correct:
  assumes "provenance_ok p"
  shows "provenance_ok (released u p)" "known_uris p \<subseteq> insert u (known_uris (released u p))"
    "sent_uris (released u p) = sent_uris p"
  using release_correct [OF assms, of u] unfolding released_def Let_def by blast+

lemma rollback_refused: "open_claims t (k, u) \<noteq> Some c \<Longrightarrow> rollback_open_claim_if uri_of host u k c t = (False, t)"
  by (simp add: rollback_open_claim_if_def)

lemma rollback_reads:
  assumes "open_claims t (k, u) = Some c"
  shows "let t' = snd (rollback_open_claim_if uri_of host u k c t) in
    fst (rollback_open_claim_if uri_of host u k c t) \<and>
    (\<forall>k'. docs_of k' t' = (if k' = k then (docs_of k t)(u := None) else docs_of k' t)) \<and>
    virtual_to_servers t' = virtual_to_servers t \<and> connection_generations t' = connection_generations t \<and>
    next_claim t' = next_claim t \<and> leased t' = leased t \<and> opened_documents t' = opened_documents t \<and>
    open_claims t' = (open_claims t)((k, u) := None) \<and>
    virtual_uri_provenance t' = (\<lambda>(k', g).
      if k' = k then map_option (released u) (virtual_uri_provenance t (k', g))
      else virtual_uri_provenance t (k', g))"
proof -
  show ?thesis
    unfolding rollback_open_claim_if_def Let_def released_def [symmetric]
    using assms by (cases "host_to_virtual t host")
      (auto simp: released_def forget_version_def forget_fingerprint_def docs_of_def split: option.splits)
qed

lemma released_known:
  "provenance_ok p \<Longrightarrow> u' \<in> known_uris p \<Longrightarrow> u' \<noteq> u \<Longrightarrow> u' \<in> known_uris (released u p)"
  using released_correct(2) by blast

lemma keeps_rollback_if: "keeps (\<lambda>t. snd (rollback_open_claim_if uri_of host u k c t))"
proof (rule keepsI)
  fix t :: "'a doc_tracker"
  assume ok: "doc_ok t"
  let ?t = "snd (rollback_open_claim_if uri_of host u k c t)"
  show "doc_ok ?t \<and> doc_moves t ?t"
  proof (cases "open_claims t (k, u) = Some c")
    case False
    then show ?thesis by (simp add: rollback_refused ok doc_moves_refl)
  next
    case True
    note r = rollback_reads [OF True, of uri_of host, unfolded Let_def]
    have docs: "docs_of k' ?t = (if k' = k then (docs_of k t)(u := None) else docs_of k' t)" for k'
      using r by blast
    have fields: "virtual_to_servers ?t = virtual_to_servers t" "connection_generations ?t = connection_generations t"
      "next_claim ?t = next_claim t" "leased ?t = leased t" "open_claims ?t = (open_claims t)((k, u) := None)"
      "virtual_uri_provenance ?t = (\<lambda>(k', g).
         if k' = k then map_option (released u) (virtual_uri_provenance t (k', g))
         else virtual_uri_provenance t (k', g))"
      using r by blast+
    have reads: "serves ?t k' u' = serves t k' u'" "connection_generation k' ?t = connection_generation k' t" for k' u'
      by (rule read_from_fields, rule fields)+
    have known: "u' \<in> known_uris (provenance_for k' g ?t)"
      if "u' \<in> known_uris (provenance_for k' g t)" "(k', u') \<noteq> (k, u)" for k' u' g
      using that by (auto simp: provenance_for_def fields intro: released_known doc_okD(9) [OF ok] split: option.splits)
    have "sent_in t k' g \<subseteq> sent_in ?t k' g" for k' g
      by (auto simp: sent_in_def fields map_add_def released_correct(3) [OF doc_okD(9) [OF ok]] split: option.splits)
    then have "doc_moves t ?t" by (simp add: doc_moves_def reads fields)
    moreover have "doc_ok ?t" unfolding doc_ok_def reads fields docs
      using known True
      by (auto dest: doc_okD(1-6,8-10) [OF ok] intro: released_correct(1) split: if_splits)
    ultimately show ?thesis by blast
  qed
qed

lemma keeps_rollback: "keeps (\<lambda>t. snd (rollback_open_claim uri_of host u k t))"
proof (rule keepsI)
  fix t :: "'a doc_tracker"
  assume ok: "doc_ok t"
  then show "doc_ok (snd (rollback_open_claim uri_of host u k t)) \<and> doc_moves t (snd (rollback_open_claim uri_of host u k t))"
    using keeps_rollback_if [unfolded keeps_def, rule_format, OF ok] doc_moves_refl
    by (auto simp: rollback_open_claim_def split: option.splits)
qed

lemma keeps_const: "keeps (\<lambda>t. t)"
  by (simp add: keeps_def doc_moves_refl)

lemmas keeps_methods = keeps_claim keeps_queued keeps_sent keeps_register keeps_increment keeps_record
  keeps_untrack keeps_purge keeps_rollback_if keeps_rollback keeps_observe hides_methods [THEN keeps_hiding]

lemma keeps_apply: "keeps (apply_op ps op)"
proof (cases ps)
  case (fields uri_of scratch fp)
  then show ?thesis by (cases op) (simp_all add: keeps_methods [unfolded keeps_def] keeps_def)
qed

interpretation docs: history doc_ok doc_moves "apply_op ps" for ps
  using keeps_apply [of ps] by unfold_locales (auto simp: keeps_def doc_moves_refl intro: doc_moves_trans)

lemma document_tracker_new_ok: "doc_ok tracker_new"
  by (simp add: doc_ok_def tracker_new_def is_virtual_doc_open_on_connection_def)

lemma run_docs_ok: "doc_ok (run_docs ps ops tracker_new)"
  unfolding run_docs_def by (rule docs.run_ok) (rule document_tracker_new_ok)

lemma run_docs_append: "run_docs ps (ops @ ops') t = run_docs ps ops' (run_docs ps ops t)"
  by (simp add: run_docs_def)

end
