(* ===== verification/Document_Lifecycle.thy ===== *)
theory Document_Lifecycle
  imports Document_Laws
begin

text \<open>
  The life of a virtual document on one connection, as its callers see it, and what the methods
  of \<open>Document_Tracker\<close> promise about it in every history.
\<close>

section \<open>Phases\<close>

datatype phase = Gone | Opening nat int | Opened int | Hidden int

text \<open>
  A document that was opened and then dropped from its host is \<open>Hidden\<close> until it is untracked.
\<close>

definition phase :: "rstr \<Rightarrow> 'k \<Rightarrow> 'k doc_tracker \<Rightarrow> phase" where
  "phase u k t =
     (case docs_of k t u of
        None \<Rightarrow> Gone
      | Some v \<Rightarrow>
          (case open_claims t (k, u) of
             Some c \<Rightarrow> Opening c v
           | None \<Rightarrow> if is_virtual_doc_open_on_connection u k t then Opened v else Hidden v))"

fun drops_host_docs :: "'k doc_op \<Rightarrow> bool" where
  "drops_host_docs (Unregister host u) = True"
| "drops_host_docs (Remove_Host host) = True"
| "drops_host_docs (Take_Where host f) = True"
| "drops_host_docs (Remove_Matching host ids) = True"
| "drops_host_docs (Remove_Replaced host expected) = True"
| "drops_host_docs op = False"

fun revised :: "phase \<Rightarrow> phase" where
  "revised Gone = Gone"
| "revised (Opening c v) = Opening c (v + 1)"
| "revised (Opened v) = Opened (v + 1)"
| "revised (Hidden v) = Hidden (v + 1)"

text \<open>The edges: which operation may take the document \<open>u\<close> on \<open>k\<close> from one phase to another.\<close>

inductive lifecycle :: "(virtual_document_uri \<Rightarrow> rstr) \<Rightarrow> rstr \<Rightarrow> 'k \<Rightarrow> 'k doc_op \<Rightarrow> phase \<Rightarrow> phase \<Rightarrow> bool"
  for uri_of u k where
  stays: "lifecycle uri_of u k op p p"
| claimed: "lifecycle uri_of u k (Claim u k) Gone (Opening c 1)"
| sent: "lifecycle uri_of u k (Mark_Sent u k g c) (Opening c v) (Opened v)"
| registered: "uri_of vd = u \<Longrightarrow> lifecycle uri_of u k (Register host vd k) Gone (Hidden 1)"
| changed: "lifecycle uri_of u k (Increment u k content) p (revised p)"
| untracked: "lifecycle uri_of u k (Untrack u k) p Gone"
| purged: "lifecycle uri_of u k (Purge k) p Gone"
| rolled_back_if: "lifecycle uri_of u k (Rollback_If host u k c) (Opening c v) Gone"
| rolled_back: "lifecycle uri_of u k (Rollback host u k) (Opening c v) Gone"
| hidden: "drops_host_docs op \<Longrightarrow> lifecycle uri_of u k op (Opened v) (Hidden v)"

inductive_cases lifecycle_cases: "lifecycle uri_of u k op p p'"

lemma phase_same:
  "docs_of k t' u = docs_of k t u \<Longrightarrow> open_claims t' (k, u) = open_claims t (k, u) \<Longrightarrow>
   serves t' k u = serves t k u \<Longrightarrow> phase u k t' = phase u k t"
  by (simp add: phase_def cong: option.case_cong)

section \<open>Every operation follows an edge\<close>

lemma phase_gone: "docs_of k t u = None \<Longrightarrow> phase u k t = Gone"
  by (simp add: phase_def)

lemma unclaimed:
  "doc_ok t \<Longrightarrow> docs_of k t u = None \<Longrightarrow> open_claims t (k, u) = None \<and> \<not> serves t k u"
  by (cases "open_claims t (k, u)") (auto dest: doc_okD(1,4))

lemma claim_admits:
  assumes "doc_ok t"
  shows "fst (try_claim_for_open u k t) \<longleftrightarrow>
     phase u k t = Gone \<and>
     (u \<in> known_uris (provenance_for k (connection_generation k t) t) \<or>
      admitted (provenance_for k (connection_generation k t) t) < max_provenance)"
  using unclaimed [OF assms, of k u]
  by (auto simp: try_claim_for_open_def Let_def reserve_def known_uris_def sent_uris_def phase_def
      split: option.splits if_splits)

lemma claim_phase:
  assumes ok: "doc_ok t"
  shows "lifecycle uri_of u k (Claim u' k') (phase u k t) (phase u k (snd (try_claim_for_open u' k' t)))"
proof (cases "(u, k) = (u', k') \<and> fst (try_claim_for_open u' k' t)")
  case True
  then have "phase u k t = Gone" using claim_admits [OF ok] by auto
  moreover have "phase u k (snd (try_claim_for_open u' k' t)) = Opening (next_claim t) 1"
    using True by (auto simp: phase_def try_claim_for_open_def Let_def split: if_splits prod.splits)
  ultimately show ?thesis using True by (simp add: lifecycle.claimed)
next
  case False
  then have "phase u k (snd (try_claim_for_open u' k' t)) = phase u k t"
    by (intro phase_same)
      (auto simp: try_claim_for_open_def Let_def split: if_splits prod.splits)
  then show ?thesis by (simp add: lifecycle.stays)
qed

lemma sent_phase:
  assumes ok: "doc_ok t"
  shows "lifecycle uri_of u k (Mark_Sent u' k' g c) (phase u k t) (phase u k (snd (mark_open_sent scratch u' k' g c t)))"
proof (cases "g = connection_generation k' t \<and> open_claims t (k', u') = Some c")
  case True
  then obtain v where v: "docs_of k' t u' = Some v" using doc_okD(1) [OF ok] by blast
  note sent = mark_open_sent_accepts [OF ok conjunct1 [OF True] conjunct2 [OF True], of scratch, unfolded Let_def]
  show ?thesis
  proof (cases "(u, k) = (u', k')")
    case same: True
    then have "phase u k t = Opening c v" using True v by (simp add: phase_def)
    moreover have "phase u k (snd (mark_open_sent scratch u' k' g c t)) = Opened v"
      using same v by (simp add: sent phase_def)
    ultimately show ?thesis using same by (simp add: lifecycle.sent)
  next
    case False
    then have "phase u k (snd (mark_open_sent scratch u' k' g c t)) = phase u k t"
      by (intro phase_same) (auto simp: sent)
    then show ?thesis by (simp add: lifecycle.stays)
  qed
next
  case False
  then show ?thesis by (auto simp: mark_open_sent_def intro: lifecycle.stays)
qed

lemma register_phase:
  assumes ok: "doc_ok t"
  shows "lifecycle uri_of u k (Register host v k') (phase u k t) (phase u k (register_pending_document uri_of host v k' t))"
proof (cases "k' = k \<and> uri_of v = u \<and> docs_of k t u = None")
  case True
  then have "phase u k (register_pending_document uri_of host v k' t) = Hidden 1"
    using unclaimed [OF ok, of k u] by (auto simp: phase_def register_pending_document_def Let_def)
  then show ?thesis using True by (auto simp: phase_gone intro: lifecycle.registered)
next
  case False
  then have "phase u k (register_pending_document uri_of host v k' t) = phase u k t"
    by (intro phase_same) (auto simp: register_pending_document_def Let_def split: option.splits)
  then show ?thesis by (simp add: lifecycle.stays)
qed

lemma increment_phase:
  "lifecycle uri_of u k (Increment u' k' content) (phase u k t)
     (phase u k (snd (increment_version_if_content_changed fp u' k' content t)))"
proof (cases "(u', k') = (u, k) \<and> fst (increment_version_if_content_changed fp u' k' content t) \<noteq> None")
  case True
  then have "phase u k (snd (increment_version_if_content_changed fp u' k' content t)) = revised (phase u k t)"
    by (auto simp: increment_version_if_content_changed_def phase_def docs_of_def
        split: option.splits if_splits)
  then show ?thesis using True by (auto intro: lifecycle.changed)
next
  case False
  then have "phase u k (snd (increment_version_if_content_changed fp u' k' content t)) = phase u k t"
    by (intro phase_same)
      (auto simp: increment_version_if_content_changed_def docs_of_def split: option.splits if_splits)
  then show ?thesis by (simp add: lifecycle.stays)
qed

lemma untrack_reads:
  "docs_of k' (untrack_document u k t) = (if k' = k then (docs_of k t)(u := None) else docs_of k' t)"
  "serves (untrack_document u k t) k' u' \<longleftrightarrow> serves t k' u' \<and> (u', k') \<noteq> (u, k)"
  "open_claims (untrack_document u k t) = (open_claims t)((k, u) := None)"
  by (simp add: untrack_document_def Let_def docs_of_def forget_version_def split: option.splits)
    (simp add: untrack_document_def Let_def, simp add: is_virtual_doc_open_on_connection_def,
     simp add: untrack_document_def Let_def)

lemma untrack_phase: "lifecycle uri_of u k (Untrack u' k') (phase u k t) (phase u k (untrack_document u' k' t))"
proof (cases "(u', k') = (u, k)")
  case True
  then show ?thesis by (auto simp: phase_gone untrack_reads intro: lifecycle.untracked)
next
  case False
  then have "phase u k (untrack_document u' k' t) = phase u k t"
    by (intro phase_same) (auto simp: untrack_reads)
  then show ?thesis by (simp add: lifecycle.stays)
qed

lemma purge_phase: "lifecycle uri_of u k (Purge k') (phase u k t) (phase u k (purge_connection k' t))"
proof (cases "k' = k")
  case True
  then show ?thesis by (auto simp: phase_gone purge_reads intro: lifecycle.purged)
next
  case False
  then have "phase u k (purge_connection k' t) = phase u k t"
    by (intro phase_same) (auto simp: purge_reads purge_serves map_retain_def split: option.splits)
  then show ?thesis by (simp add: lifecycle.stays)
qed

lemma rollback_if_phase:
  fixes t :: "'k doc_tracker"
  assumes ok: "doc_ok t" and op: "op = Rollback_If host u' k' c \<or> op = Rollback host u' k'"
  shows "lifecycle uri_of u k op (phase u k t) (phase u k (snd (rollback_open_claim_if uri_of host u' k' c t)))"
proof (cases "open_claims t (k', u') = Some c")
  case True
  note r = rollback_reads [OF True, of uri_of host, unfolded Let_def]
  let ?t = "snd (rollback_open_claim_if uri_of host u' k' c t)"
  have fields: "docs_of k ?t = (if k = k' then (docs_of k' t)(u' := None) else docs_of k t)"
    "open_claims ?t = (open_claims t)((k', u') := None)"
    using r by blast+
  have srv: "serves ?t k u = serves t k u" by (rule read_from_fields(2)) (use r in blast)
  obtain v where v: "docs_of k' t u' = Some v" using doc_okD(1) [OF ok True] by blast
  show ?thesis
  proof (cases "(u', k') = (u, k)")
    case same: True
    have "docs_of k ?t u = None" unfolding fields using same by simp
    then have "phase u k ?t = Gone" by (rule phase_gone)
    moreover have "phase u k t = Opening c v" using same True v by (simp add: phase_def)
    ultimately show ?thesis using same op by (auto intro: lifecycle.intros)
  next
    case False
    then have "phase u k ?t = phase u k t" by (intro phase_same) (auto simp: fields srv)
    then show ?thesis by (simp add: lifecycle.stays)
  qed
qed (simp add: rollback_refused lifecycle.stays)

lemma hides_phase:
  assumes "hides uri_of f" "drops_host_docs op"
  shows "lifecycle uri_of u k op (phase u k t) (phase u k (f t))"
proof -
  obtain hs ds where f: "f t = unindex_docs uri_of ds (t\<lparr>host_to_virtual := hs\<rparr>)"
    using assms(1) unfolding hides_def by blast
  then have docs: "docs_of k (f t) = docs_of k t" by (simp add: docs_of_def)
  have "open_claims (f t) = open_claims t" by (simp add: f)
  moreover have "serves (f t) k u \<Longrightarrow> serves t k u" by (simp add: f serves_unindex)
  ultimately
  have "phase u k (f t) = phase u k t \<or> (\<exists>v. phase u k t = Opened v \<and> phase u k (f t) = Hidden v)"
    by (auto simp: phase_def docs split: option.splits)
  then show ?thesis using assms(2) by (auto intro: lifecycle.stays lifecycle.hidden)
qed

lemma apply_phase:
  assumes ok: "doc_ok t"
  shows "lifecycle uri_of u k op (phase u k t) (phase u k (apply_op (uri_of, scratch, fp) op t))"
proof (cases op)
  case (Claim u' k')
  then show ?thesis by (simp only: apply_op.simps doc_op.case claim_phase [OF ok])
next
  case (Mark_Queued u' k' g c)
  then have "phase u k (apply_op (uri_of, scratch, fp) op t) = phase u k t"
    by (intro phase_same) (simp_all add: mark_open_queued_def Let_def)
  then show ?thesis by (simp only: lifecycle.stays)
next
  case (Mark_Sent u' k' g c)
  then show ?thesis by (simp only: apply_op.simps doc_op.case sent_phase [OF ok])
next
  case (Register host v k')
  then show ?thesis by (simp only: apply_op.simps doc_op.case register_phase [OF ok])
next
  case (Increment u' k' content)
  then show ?thesis by (simp only: apply_op.simps doc_op.case increment_phase)
next
  case (Record_Sent u' k' content)
  then have "phase u k (apply_op (uri_of, scratch, fp) op t) = phase u k t"
    by (intro phase_same) (simp_all add: record_sent_content_fingerprint_def Let_def)
  then show ?thesis by (simp only: lifecycle.stays)
next
  case (Untrack u' k')
  then show ?thesis by (simp only: apply_op.simps doc_op.case untrack_phase)
next
  case (Purge k')
  then show ?thesis by (simp only: apply_op.simps doc_op.case purge_phase)
next
  case (Rollback_If host u' k' c)
  then show ?thesis
    using rollback_if_phase [OF ok, of op host u' k' c] by (simp only: apply_op.simps doc_op.case simp_thms)
next
  case (Rollback host u' k')
  then show ?thesis
    using rollback_if_phase [OF ok, of op host u' k']
    by (simp add: rollback_open_claim_def lifecycle.stays split: option.splits)
next
  case (Observe k' g)
  then have "phase u k (apply_op (uri_of, scratch, fp) op t) = phase u k t"
    by (intro phase_same) (simp_all add: observe_virtual_uris_for_connection_def)
  then show ?thesis by (simp only: lifecycle.stays)
qed (simp_all only: apply_op.simps doc_op.case hides_methods [THEN hides_phase] drops_host_docs.simps)

section \<open>What callers rely on\<close>

lemma version_of_phase:
  "document_version u k t = (case phase u k t of Opened v \<Rightarrow> Some v | _ \<Rightarrow> None)"
  by (simp add: document_version_def phase_def split: option.split)

lemma sent_accepted:
  assumes "doc_ok t"
  shows "fst (mark_open_sent scratch u k g c t) \<longleftrightarrow>
    g = connection_generation k t \<and> (\<exists>v. phase u k t = Opening c v)"
proof -
  have "fst (mark_open_sent scratch u k g c t) \<longleftrightarrow>
      g = connection_generation k t \<and> open_claims t (k, u) = Some c"
    by (auto simp: mark_open_sent_def Let_def)
  moreover have "open_claims t (k, u) = Some c \<longleftrightarrow> (\<exists>v. phase u k t = Opening c v)"
    using doc_okD(1) [OF assms, of k u c] by (auto simp: phase_def split: option.splits if_splits)
  ultimately show ?thesis by simp
qed

text \<open>
  C27: In every history each document on each connection follows the life cycle: an operation
  either leaves its phase alone or takes it along an edge that the operation labels. What
  callers are told reads off the phase: a claim is granted exactly to a document that is gone,
  while the generation has room for its URI; a promotion is accepted exactly from the holder of
  the claim in the current generation; and a version is reported exactly for an opened document.
\<close>

theorem document_lifecycle:
  "let t = run_docs (uri_of, scratch, fp) ops tracker_new;
       provenance = provenance_for k (connection_generation k t) t
   in lifecycle uri_of u k op (phase u k t) (phase u k (apply_op (uri_of, scratch, fp) op t)) \<and>
      (fst (try_claim_for_open u k t) \<longleftrightarrow>
         phase u k t = Gone \<and> (u \<in> known_uris provenance \<or> admitted provenance < max_provenance)) \<and>
      (fst (mark_open_sent scratch u k g c t) \<longleftrightarrow>
         g = connection_generation k t \<and> (\<exists>v. phase u k t = Opening c v)) \<and>
      document_version u k t = (case phase u k t of Opened v \<Rightarrow> Some v | _ \<Rightarrow> None)"
  unfolding Let_def
  by (intro conjI apply_phase claim_admits sent_accepted version_of_phase run_docs_ok)

definition settled_phase :: "phase \<Rightarrow> bool" where
  "settled_phase p \<longleftrightarrow> (\<exists>v. p = Opened v \<or> p = Hidden v)"

lemma settled_revised [simp]: "settled_phase (revised p) \<longleftrightarrow> settled_phase p"
  by (cases p) (simp_all add: settled_phase_def)

lemma settled_phase_simps [simp]:
  "settled_phase (Opened v)" "settled_phase (Hidden v)" "\<not> settled_phase Gone" "\<not> settled_phase (Opening c v)"
  by (simp_all add: settled_phase_def)

lemma settled_stays:
  "lifecycle uri_of u k op p p' \<Longrightarrow> settled_phase p \<Longrightarrow> op \<noteq> Untrack u k \<Longrightarrow> op \<noteq> Purge k \<Longrightarrow> settled_phase p'"
  by (auto elim: lifecycle_cases)

lemma settled_run:
  assumes "doc_ok t" "settled_phase (phase u k t)" "list_all (\<lambda>op. op \<noteq> Untrack u k \<and> op \<noteq> Purge k) ops"
  shows "settled_phase (phase u k (run_docs (uri_of, scratch, fp) ops t))"
  using assms
proof (induction ops arbitrary: t)
  case (Cons op ops)
  have "doc_ok (apply_op (uri_of, scratch, fp) op t)" using Cons.prems(1) by (rule docs.step_ok)
  moreover have "settled_phase (phase u k (apply_op (uri_of, scratch, fp) op t))"
    using settled_stays [OF apply_phase [OF Cons.prems(1)] Cons.prems(2)] Cons.prems(3) by simp
  ultimately show ?case using Cons.IH Cons.prems(3) by (simp add: run_docs_def del: apply_op.simps)
qed (simp add: run_docs_def)

text \<open>
  C28: A document is opened once until it is closed: after its \<open>didOpen\<close> was sent, no caller
  obtains a claim to send another one, whatever the host and other documents go through,
  until the document is untracked or its connection is purged.
\<close>

theorem opened_once:
  assumes "fst (mark_open_sent scratch u k g c (run_docs (uri_of, scratch, fp) ops tracker_new))"
    "list_all (\<lambda>op. op \<noteq> Untrack u k \<and> op \<noteq> Purge k) late"
  shows "\<not> fst (try_claim_for_open u k (run_docs (uri_of, scratch, fp) (ops @ Mark_Sent u k g c # late) tracker_new))"
proof -
  let ?ps = "(uri_of, scratch, fp)"
  let ?t = "run_docs ?ps ops tracker_new"
  have ok: "doc_ok ?t" by (rule run_docs_ok)
  have g: "g = connection_generation k ?t" and c: "open_claims ?t (k, u) = Some c"
    using assms(1) by (auto simp: mark_open_sent_def split: if_splits)
  obtain v where v: "docs_of k ?t u = Some v" using doc_okD(1) [OF ok c] by blast
  have "phase u k (snd (mark_open_sent scratch u k g c ?t)) = Opened v"
    using v by (simp add: mark_open_sent_accepts [OF ok g c, unfolded Let_def] phase_def)
  then have "settled_phase (phase u k (apply_op ?ps (Mark_Sent u k g c) ?t))" by simp
  then have "settled_phase (phase u k (run_docs ?ps late (apply_op ?ps (Mark_Sent u k g c) ?t)))"
    using assms(2) docs.step_ok [OF ok] by (intro settled_run)
  then have "settled_phase (phase u k (run_docs ?ps (ops @ Mark_Sent u k g c # late) tracker_new))"
    by (simp add: run_docs_def del: apply_op.simps)
  then show ?thesis by (metis claim_admits run_docs_ok settled_phase_simps(3))
qed

text \<open>
  A claim is good for one lifetime: once it is no longer the current one of its document,
  because the document was promoted, rolled back, untracked, purged or claimed again, no
  method that is shown it does anything, however much later.
\<close>

lemma settled_claim_refused:
  assumes "c < next_claim (run_docs ps ops tracker_new)" "open_claim_waiter u k (run_docs ps ops tracker_new) \<noteq> Some c"
  shows "let t = run_docs ps (ops @ late) tracker_new
    in mark_open_queued u k g c t = (False, t) \<and> mark_open_sent scratch u k g c t = (False, t) \<and>
       rollback_open_claim_if uri_of host u k c t = (False, t)"
proof -
  let ?t = "run_docs ps ops tracker_new" and ?t' = "run_docs ps (ops @ late) tracker_new"
  have "doc_moves ?t (fold (apply_op ps) late ?t)" by (rule docs.run_moves [OF run_docs_ok])
  then have "open_claims ?t' (k, u) \<noteq> Some c"
    using assms unfolding doc_moves_def open_claim_waiter_def
    by (simp add: run_docs_def del: apply_op.simps)
  then show ?thesis
    by (auto simp: mark_open_queued_def mark_open_sent_def rollback_refused Let_def)
qed

text \<open>
  One producer generation knows at most 65536 URIs, counting those whose opening is in
  progress, and once a \<open>didOpen\<close> was sent in it, its observers recognise the URI for ever:
  after the document is closed, and after the connection was purged and replaced.
\<close>

lemma provenance_correct:
  assumes "fst (mark_open_sent scratch u k g c (run_docs (uri_of, scratch, fp) ops tracker_new))"
  shows "let t = run_docs (uri_of, scratch, fp) (ops @ Mark_Sent u k g c # late) tracker_new
    in observer_contains t \<lparr>ob_lease = Some (k, g), explicit_uris = {}\<rparr> u \<and>
       card {u. provenance_contains (provenance_for k' g' t) u} \<le> max_provenance"
proof -
  let ?ps = "(uri_of, scratch, fp)"
  let ?t = "run_docs ?ps ops tracker_new"
  let ?t1 = "apply_op ?ps (Mark_Sent u k g c) ?t"
  let ?t2 = "run_docs ?ps (ops @ Mark_Sent u k g c # late) tracker_new"
  have ok: "doc_ok ?t" "doc_ok ?t1" "doc_ok ?t2" using run_docs_ok docs.step_ok by blast+
  have g: "g = connection_generation k ?t" and c: "open_claims ?t (k, u) = Some c"
    using assms by (auto simp: mark_open_sent_def split: if_splits)
  let ?p = "(confirm scratch u (provenance_for k g ?t))\<lparr>queued := queued (confirm scratch u (provenance_for k g ?t)) - {u}\<rparr>"
  have "u \<in> sent_uris ?p"
    using confirm_correct [OF doc_okD(7) [OF ok(1)] doc_okD(3) [OF ok(1) c, folded g], of scratch]
    unfolding Let_def by blast
  moreover have "virtual_uri_provenance ?t1 (k, g) = Some ?p"
    using mark_open_sent_accepts [OF ok(1) g c, of scratch] by (simp add: Let_def)
  ultimately have "u \<in> sent_in ?t1 k g" by (simp add: sent_in_def map_add_def del: apply_op.simps)
  then have "u \<in> sent_in (fold (apply_op ?ps) late ?t1) k g"
    by (rule subsetD [OF doc_moves_sent [OF docs.run_moves [OF ok(2)]]])
  moreover have "fold (apply_op ?ps) late ?t1 = ?t2" by (simp add: run_docs_def del: apply_op.simps)
  ultimately have "u \<in> sent_in ?t2 k g" by (simp only:)
  then have "observer_contains ?t2 \<lparr>ob_lease = Some (k, g), explicit_uris = {}\<rparr> u"
    by (auto simp: sent_in_def observer_contains_def map_add_def provenance_contains_def sent_uris_def
        split: option.splits)
  moreover have "card {u. provenance_contains (provenance_for k' g' ?t2) u} \<le> max_provenance"
  proof -
    have p: "provenance_ok (provenance_for k' g' ?t2)" by (rule doc_okD(7) [OF ok(3)])
    then have "{u. provenance_contains (provenance_for k' g' ?t2) u} \<subseteq> known_uris (provenance_for k' g' ?t2)"
      by (auto simp: provenance_defs provenance_contains_def)
    moreover have "finite (known_uris (provenance_for k' g' ?t2))" using p by (simp only: provenance_ok_def)
    ultimately have "card {u. provenance_contains (provenance_for k' g' ?t2) u} \<le> card (known_uris (provenance_for k' g' ?t2))"
      by (intro card_mono)
    also have "\<dots> \<le> max_provenance" using p unfolding provenance_ok_def by linarith
    finally show ?thesis .
  qed
  ultimately show ?thesis unfolding Let_def by (rule conjI)
qed

section \<open>The count of open documents\<close>

lemma settled_phase_iff:
  "settled_phase (phase u k t) \<longleftrightarrow> docs_of k t u \<noteq> None \<and> open_claims t (k, u) = None"
  by (auto simp: phase_def split: option.splits)

definition settled_on :: "rstr \<Rightarrow> 'k doc_tracker \<Rightarrow> 'k set" where
  "settled_on u t = {k. settled_phase (phase u k t)}"

text \<open>
  What the callers in \<open>lsp/bridge/pool.rs\<close> and \<open>text_document/did_close.rs\<close> keep to, and the methods do
  not check: a document is registered only on a connection that tracks it, as
  \<open>ensure_document_opened\<close> does after its claim; it is untracked only when its opening is over (both
  sides hold its transition lock), and then on a connection that tracks it, unless its URI is open
  nowhere, which is what a second close of a scratch document finds; and a connection is purged only
  when none of its documents is being opened.
\<close>

fun orderly :: "(virtual_document_uri \<Rightarrow> rstr) \<Rightarrow> 'k doc_tracker \<Rightarrow> 'k doc_op \<Rightarrow> bool" where
  "orderly uri_of t (Register host v k) \<longleftrightarrow> docs_of k t (uri_of v) \<noteq> None"
| "orderly uri_of t (Untrack u k) \<longleftrightarrow>
     open_claims t (k, u) = None \<and> (docs_of k t u \<noteq> None \<or> \<not> is_document_opened u t)"
| "orderly uri_of t (Purge k) \<longleftrightarrow> map_retain (\<lambda>key _. fst key = k) (open_claims t) = Map.empty"
| "orderly uri_of t op \<longleftrightarrow> True"

primrec orderly_run :: "doc_params \<Rightarrow> 'k doc_op list \<Rightarrow> 'k doc_tracker \<Rightarrow> bool" where
  "orderly_run ps [] t \<longleftrightarrow> True"
| "orderly_run ps (op # ops) t \<longleftrightarrow> orderly (fst ps) t op \<and> orderly_run ps ops (apply_op ps op t)"

definition counted :: "'k set \<Rightarrow> nat option" where
  "counted S = (if S = {} then None else Some (card S))"

definition counts_settled :: "'k doc_tracker \<Rightarrow> bool" where
  "counts_settled t \<longleftrightarrow> (\<forall>u. finite (settled_on u t) \<and>
     opened_documents t u = counted (settled_on u t))"

definition one_less :: "nat option \<Rightarrow> nat option" where
  "one_less n = Option.bind n (\<lambda>c. if c - 1 = 0 then None else Some (c - 1))"

lemma one_less_counted: "finite S \<Longrightarrow> k \<in> S \<Longrightarrow> one_less (counted S) = counted (S - {k})"
  using card_Suc_Diff1 [of S k] card_eq_0_iff [of "S - {k}"] by (auto simp: one_less_def counted_def)

lemma decrement_reads:
  "opened_documents (decrement_opened u t) u' =
     (if u' = u then one_less (opened_documents t u) else opened_documents t u')"
  by (simp add: decrement_opened_def one_less_def split: option.split)

lemma settled_edges:
  "lifecycle uri_of u k op p p' \<Longrightarrow>
     settled_phase p' = settled_phase p \<or> (\<exists>g c. op = Mark_Sent u k g c) \<or> op = Untrack u k \<or> op = Purge k \<or>
     p = Gone \<and> (\<exists>host v. op = Register host v k \<and> uri_of v = u)"
  by (auto elim: lifecycle_cases)

lemma hides_opened: "hides uri_of f \<Longrightarrow> opened_documents (f t) = opened_documents t"
  unfolding hides_def by (metis unindex_docs_fields(2) doc_tracker.select_convs(4) doc_tracker.surjective doc_tracker.update_convs(3))

fun counts_opens :: "'k doc_op \<Rightarrow> bool" where
  "counts_opens (Mark_Sent u k g c) = True"
| "counts_opens (Untrack u k) = True"
| "counts_opens (Purge k) = True"
| "counts_opens op = False"

lemmas hidden_opened = hides_methods [THEN hides_opened]

lemma phase_gone_iff: "phase u k t = Gone \<longleftrightarrow> docs_of k t u = None"
  by (simp add: phase_def split: option.split)

lemma opened_unchanged:
  "\<not> counts_opens op \<Longrightarrow> opened_documents (apply_op (uri_of, scratch, fp) op t) = opened_documents t"
proof (cases op)
  case (Rollback_If host u k c)
  then show ?thesis
    using rollback_reads [of t k u c uri_of host] by (cases "open_claims t (k, u) = Some c") (auto simp: rollback_refused Let_def)
next
  case (Rollback host u k)
  then show ?thesis
    using rollback_reads [of t k u _ uri_of host]
    by (auto simp: rollback_open_claim_def open_claim_waiter_def Let_def split: option.split)
qed (auto simp: hidden_opened try_claim_for_open_def mark_open_queued_def
    register_pending_document_def increment_version_if_content_changed_def
    record_sent_content_fingerprint_def observe_virtual_uris_for_connection_def Let_def split: option.split prod.split)

lemma counts_update:
  assumes "counts_settled t" "\<And>u. settled_on u t' = settled_on u t" "opened_documents t' = opened_documents t"
  shows "counts_settled t'"
  using assms by (simp add: counts_settled_def)

lemma settled_sent:
  assumes ok: "doc_ok t" and g: "g = connection_generation k t" and c: "open_claims t (k, u) = Some c"
  shows "settled_on u' (snd (mark_open_sent scratch u k g c t)) =
      (if u' = u then insert k (settled_on u t) else settled_on u' t)" "k \<notin> settled_on u t"
proof -
  note sent = mark_open_sent_accepts [OF ok g c, of scratch, unfolded Let_def]
  obtain v where "docs_of k t u = Some v" using doc_okD(1) [OF ok c] by blast
  then show "settled_on u' (snd (mark_open_sent scratch u k g c t)) =
      (if u' = u then insert k (settled_on u t) else settled_on u' t)"
    by (auto simp: settled_on_def settled_phase_iff sent)
  show "k \<notin> settled_on u t" using c by (simp add: settled_on_def settled_phase_iff)
qed

lemma counts_step:
  assumes ok: "doc_ok t" and n: "counts_settled t" and o: "orderly uri_of t op"
  shows "counts_settled (apply_op (uri_of, scratch, fp) op t)"
proof (cases "counts_opens op")
  case False
  have "settled_phase (phase u k (apply_op (uri_of, scratch, fp) op t)) = settled_phase (phase u k t)" for u k
    using settled_edges [OF apply_phase [OF ok, of uri_of u k op scratch fp]] False o
    by (auto simp: phase_gone_iff simp del: apply_op.simps)
  then show ?thesis
    using opened_unchanged [OF False] by (intro counts_update [OF n]) (simp_all add: settled_on_def)
next
  case True
  then consider u k g c where "op = Mark_Sent u k g c" | u k where "op = Untrack u k" | k where "op = Purge k"
    by (cases op) auto
  then show ?thesis
  proof cases
    case (1 u k g c)
    show ?thesis
    proof (cases "g = connection_generation k t \<and> open_claims t (k, u) = Some c")
      case True
      note set = settled_sent(1) [OF ok conjunct1 [OF True] conjunct2 [OF True], where scratch = scratch]
        settled_sent(2) [OF ok conjunct1 [OF True] conjunct2 [OF True]]
      note sent = mark_open_sent_accepts [OF ok conjunct1 [OF True] conjunct2 [OF True], of scratch, unfolded Let_def]
      have "opened_documents (snd (mark_open_sent scratch u k g c t)) =
          (opened_documents t)(u \<mapsto> (case opened_documents t u of Some n \<Rightarrow> n | None \<Rightarrow> 0) + 1)"
        by (simp add: sent)
      then show ?thesis using n set(2) unfolding 1 by (simp add: counts_settled_def set(1) counted_def)
    next
      case False
      then show ?thesis using n unfolding 1 by (auto simp: mark_open_sent_def)
    qed
  next
    case (2 u k)
    have closed: "settled_on u t = {} \<and> opened_documents t u = None" if "\<not> is_document_opened u t"
      using n that unfolding counts_settled_def
      by (metis card_gt_0_iff counted_def is_document_opened_def option.simps(5))
    have k: "k \<in> settled_on u t \<or> settled_on u t = {} \<and> opened_documents t u = None"
      using o closed unfolding 2 by (auto simp: settled_on_def settled_phase_iff)
    have "settled_on u' (untrack_document u k t) = (if u' = u then settled_on u t - {k} else settled_on u' t)" for u'
      by (auto simp: settled_on_def settled_phase_iff untrack_reads)
    moreover have "opened_documents (untrack_document u k t) u' = opened_documents (decrement_opened u t) u'" for u'
      by (simp add: untrack_document_def Let_def decrement_opened_def split: option.split)
    ultimately show ?thesis
      using n k unfolding 2 counts_settled_def
      by (elim disjE; auto simp: decrement_reads one_less_counted)
        (simp_all add: one_less_def counted_def)
  next
    case (3 k)
    have free: "open_claims t (k, u) = None" for u
      using o [unfolded 3] by (cases "open_claims t (k, u)") (auto simp: fun_eq_iff map_retain_None)
    have "settled_on u (purge_connection k t) = settled_on u t - {k}" for u
      by (auto simp: settled_on_def settled_phase_iff purge_reads map_simps)
    moreover have "opened_documents (purge_connection k t) u =
        (if k \<in> settled_on u t then opened_documents (decrement_opened u t) u else opened_documents t u)" for u
      using free
      by (simp add: purge_connection_def Let_def docs_of_def settled_on_def settled_phase_iff decrement_opened_def
          split: option.split)
    ultimately show ?thesis
      using n unfolding 3 counts_settled_def by (auto simp: decrement_reads one_less_counted)
  qed
qed

lemma counts_run:
  "doc_ok t \<Longrightarrow> counts_settled t \<Longrightarrow> orderly_run (uri_of, scratch, fp) ops t \<Longrightarrow>
     counts_settled (run_docs (uri_of, scratch, fp) ops t)"
proof (induction ops arbitrary: t)
  case (Cons op ops)
  then show ?case
    using counts_step [OF Cons.prems(1,2)] docs.step_ok [OF Cons.prems(1)]
    by (simp add: run_docs_def del: apply_op.simps)
qed (simp add: run_docs_def)

lemma counts_new: "counts_settled tracker_new"
  by (simp add: counts_settled_def counted_def settled_on_def settled_phase_iff docs_of_def)
    (simp add: tracker_new_def)

text \<open>
  C29: The count kept for a URI is exact, the number of connections on which the document was opened and
  not closed since, and the check whether it is open anywhere answers truly, in every history in which
  each operation is orderly: a registration is of a document that its connection already tracks, an
  untracking is of one that is not being opened and is tracked there or open nowhere, and a purge is of
  a connection on which nothing is being opened. The methods do not check this, and the count of a URI
  open elsewhere goes wrong without it.
\<close>

theorem opened_count_exact:
  assumes "orderly_run (uri_of, scratch, fp) ops tracker_new"
  shows "let t = run_docs (uri_of, scratch, fp) ops tracker_new;
             open_on = {k. \<exists>v. phase u k t = Opened v \<or> phase u k t = Hidden v}
         in finite open_on \<and> (is_document_opened u t \<longleftrightarrow> open_on \<noteq> {}) \<and>
            opened_documents t u = (if open_on = {} then None else Some (card open_on))"
proof -
  let ?t = "run_docs (uri_of, scratch, fp) ops tracker_new"
  have "counts_settled ?t" using counts_run [OF document_tracker_new_ok counts_new] assms by blast
  then show ?thesis
    by (auto simp: counts_settled_def counted_def settled_on_def settled_phase_def is_document_opened_def
        card_gt_0_iff Let_def)
qed

end
