(* ===== verification/Document_Samples.thy ===== *)
theory Document_Samples
  imports Document_Lifecycle
begin

text \<open>
  The promises of \<open>Document_Lifecycle\<close> at one document on two connections, and two histories
  in which a purge meets an opening that is still in progress.
\<close>

definition sample_doc :: rstr where
  "sample_doc = lit ''file:///p/kakehashi-virtual-uri-R1.rs''"

definition sample_virtual_doc :: virtual_document_uri where
  "sample_virtual_doc = \<lparr>vd_host_uri = lit ''file:///p/a.md'', vd_language = lit ''rust'', vd_region_id = lit ''R1''\<rparr>"

abbreviation sample_params :: doc_params where
  "sample_params \<equiv> (\<lambda>_. sample_doc, \<lambda>_. False, \<lambda>_. 0)"

lemmas sample_eval = run_docs_def try_claim_for_open_def mark_open_queued_def
  mark_open_sent_def register_pending_document_def purge_connection_def untrack_document_def
  reserve_def confirm_def insert_issued_def Let_def decrement_opened_def
  remove_from_reverse_index_def forget_version_def forget_fingerprint_def is_document_opened_def
  is_virtual_doc_open_on_connection_def connection_generation_def provenance_for_def
  set_provenance_def docs_of_def tracker_new_def provenance_default_def max_provenance_def
  map_retain_def phase_def open_claim_waiter_def

abbreviation open_sample :: "nat doc_op list" where
  "open_sample \<equiv> [Claim sample_doc 0, Mark_Queued sample_doc 0 0 0]"

theorem opened_once_witness:
  "\<not> fst (try_claim_for_open sample_doc 0
     (run_docs sample_params (open_sample @ Mark_Sent sample_doc 0 0 0 # [Claim sample_doc 0, Untrack sample_doc 1]) tracker_new))"
  by (rule opened_once) (simp_all add: sample_eval)

theorem opened_count_exact_witness:
  "\<exists>t open_on. t = run_docs sample_params
       (open_sample @ [Mark_Sent sample_doc 0 0 0, Claim sample_doc 1, Mark_Sent sample_doc 1 0 1, Purge 0]) tracker_new \<and>
     opened_documents t sample_doc = Some (card (open_on :: nat set)) \<and> card open_on = 1"
proof -
  let ?ops = "open_sample @ [Mark_Sent sample_doc 0 0 0, Claim sample_doc 1, Mark_Sent sample_doc 1 0 1, Purge 0]"
  let ?t = "run_docs sample_params ?ops tracker_new"
  let ?on = "{k. \<exists>v. phase sample_doc k ?t = Opened v \<or> phase sample_doc k ?t = Hidden v}"
  have "orderly_run sample_params ?ops tracker_new" by (simp add: sample_eval)
  then have "opened_documents ?t sample_doc = (if ?on = {} then None else Some (card ?on))"
    by (rule opened_count_exact [unfolded Let_def, THEN conjunct2, THEN conjunct2])
  moreover have "opened_documents ?t sample_doc = Some 1" by (simp add: sample_eval)
  ultimately have "card ?on = 1" by (simp split: if_splits)
  with \<open>opened_documents ?t sample_doc = Some 1\<close> show ?thesis
    by (intro exI [of _ ?t] exI [of _ ?on]) simp
qed

text \<open>An untracking on a connection that never tracked the document closes it on the one that has it open.\<close>

lemma stray_untrack_miscounts:
  "let t = run_docs sample_params (open_sample @ [Mark_Sent sample_doc 0 0 0, Untrack sample_doc 1]) tracker_new
   in phase sample_doc 0 t = Opened 1 \<and> \<not> is_document_opened sample_doc t"
  by (simp add: sample_eval)

text \<open>
  A purge also counts down the documents its connection had only claimed: a document that is
  open on another connection is no longer reported as opened.
\<close>

lemma purge_hides_open_document:
  "let t = run_docs sample_params
       (open_sample @ [Mark_Sent sample_doc 0 0 0, Claim sample_doc 1, Purge 1]) tracker_new
   in phase sample_doc 0 t = Opened 1 \<and> \<not> is_document_opened sample_doc t"
  by (simp add: sample_eval)

text \<open>
  Registration puts the version of a document back that a purge removed after the claim: the
  document has no claim then, is not open, and cannot be claimed.
\<close>

lemma purge_race_blocks_open:
  "let t = run_docs sample_params
       [Claim sample_doc 0, Purge 0, Register (lit ''file:///p/a.md'') sample_virtual_doc (0 :: nat)] tracker_new
   in phase sample_doc 0 t = Hidden 1 \<and> open_claim_waiter sample_doc 0 t = None \<and>
      \<not> fst (try_claim_for_open sample_doc 0 t)"
  by (simp add: sample_eval)

end
