(* ===== verification/Parse_Scheduler.thy ===== *)
theory Parse_Scheduler
  imports Histories
begin

text \<open>
  \<open>lsp/lsp_impl/parse_scheduler.rs\<close> and the parse loop that \<open>schedule_reparse\<close> of
  \<open>lsp/lsp_impl.rs\<close> spawns around it. Each method of the scheduler holds the lock of its
  entry, so it is one step. The loop runs from one await or shared access to the next; its
  tasks, the edits and the life of the documents interleave freely.
\<close>

section \<open>The scheduler\<close>

record sched_state =
  parsing :: bool
  dirty :: bool
  sc_ticket :: "nat option"

text \<open>The order of \<open>Option\<close>: \<open>None\<close> is below every ticket.\<close>

fun max_ticket :: "nat option \<Rightarrow> nat option \<Rightarrow> nat option" where
  "max_ticket None b = b"
| "max_ticket a None = a"
| "max_ticket (Some a) (Some b) = Some (max a b)"

definition schedule :: "'u \<Rightarrow> nat option \<Rightarrow> ('u \<rightharpoonup> sched_state) \<Rightarrow> bool \<times> ('u \<rightharpoonup> sched_state)" where
  "schedule uri ticket states =
     (case states uri of
        Some state \<Rightarrow>
          (let state = state\<lparr>sc_ticket := max_ticket (sc_ticket state) ticket\<rparr>
           in if parsing state then (False, states(uri \<mapsto> state\<lparr>dirty := True\<rparr>))
              else (True, states(uri \<mapsto> state\<lparr>parsing := True, dirty := False\<rparr>)))
      | None \<Rightarrow> (True, states(uri \<mapsto> \<lparr>parsing = True, dirty = False, sc_ticket = ticket\<rparr>)))"

definition start_pass :: "'u \<Rightarrow> ('u \<rightharpoonup> sched_state) \<Rightarrow> nat option option \<times> ('u \<rightharpoonup> sched_state)" where
  "start_pass uri states =
     (case states uri of
        Some state \<Rightarrow> (Some (sc_ticket state), states(uri \<mapsto> state\<lparr>dirty := False\<rparr>))
      | None \<Rightarrow> (None, states))"

definition finish :: "'u \<Rightarrow> ('u \<rightharpoonup> sched_state) \<Rightarrow> bool \<times> ('u \<rightharpoonup> sched_state)" where
  "finish uri states =
     (case states uri of
        Some state \<Rightarrow> if dirty state then (True, states) else (False, states(uri := None))
      | None \<Rightarrow> (False, states))"

definition clear :: "'u \<Rightarrow> ('u \<rightharpoonup> sched_state) \<Rightarrow> ('u \<rightharpoonup> sched_state)" where
  "clear uri states = states(uri := None)"

section \<open>Parse loops and documents\<close>

text \<open>
  Where a loop is: at its top, before the text is read, with the parse of a text it read under
  way, after the parse, before the second look at the shutdown, in the downstream work, and
  about to clear its entry.
\<close>

datatype loop = Top | Reading "nat option" | Parsing nat "nat option" | After_Parse | Resume | Downstream | Stopping

text \<open>
  Every text a document ever has is a new number, so a tree is of the current text when it is
  of the same number, and \<open>opened_at\<close>, the first text of the current lifetime, separates the texts of a
  reopened document from those before. \<open>calls\<close> are the notifications whose edit was applied to the store, in
  order, and which have not asked for a parse yet.
\<close>

record 'u parse_state =
  scheds :: "'u \<rightharpoonup> sched_state"
  loops :: "'u \<Rightarrow> loop list"
  texts :: "'u \<rightharpoonup> nat"
  opened_at :: "'u \<Rightarrow> nat"
  trees :: "'u \<rightharpoonup> nat"
  calls :: "'u \<Rightarrow> nat option list"
  next_text :: nat
  shut_down :: bool

definition parse_start :: "'u parse_state" where
  "parse_start = \<lparr>scheds = Map.empty, loops = \<lambda>_. [], texts = Map.empty, opened_at = \<lambda>_. 0,
     trees = Map.empty, calls = \<lambda>_. [],
     next_text = 0, shut_down = False\<rparr>"

definition schedule_reparse :: "'u \<Rightarrow> nat option \<Rightarrow> 'u parse_state \<Rightarrow> 'u parse_state" where
  "schedule_reparse uri ticket s =
     (let (spawn, states) = schedule uri ticket (scheds s)
      in s\<lparr>scheds := states,
           loops := (loops s)(uri := loops s uri @ (if spawn then [Top] else []))\<rparr>)"

text \<open>
  The install at the end of \<open>reparse_latest\<close>: a tree of an earlier lifetime, or of a text older than
  the published tree's, is refused; one of a text that an edit has replaced meanwhile is published.
\<close>

definition install_tree :: "'u \<Rightarrow> nat \<Rightarrow> 'u parse_state \<Rightarrow> 'u parse_state" where
  "install_tree uri text s =
     (if texts s uri \<noteq> None \<and> opened_at s uri \<le> text \<and> (case trees s uri of None \<Rightarrow> True | Some old \<Rightarrow> old < text)
      then s\<lparr>trees := (trees s)(uri \<mapsto> text)\<rparr> else s)"

text \<open>
  One step of a loop; no loop is left when its task ends. \<open>parsed\<close> says whether the parse gives a tree:
  \<open>reparse_latest\<close> gives up, and installs nothing, when no language is detected or its grammar does not
  load, when the parse runs out of time or is cancelled, and when the language check of the install
  refuses the tree. The loop goes on alike in each case.
\<close>

definition advance :: "'u \<Rightarrow> bool \<Rightarrow> loop \<Rightarrow> 'u parse_state \<Rightarrow> loop option \<times> 'u parse_state" where
  "advance uri parsed l s = (case l of
     Top \<Rightarrow>
       if shut_down s then (Some Stopping, s)
       else (let (ticket, states) = start_pass uri (scheds s)
             in (Some (Reading (Option.bind ticket id)), s\<lparr>scheds := states\<rparr>))
   | Reading ticket \<Rightarrow>
       (case texts s uri of None \<Rightarrow> (Some After_Parse, s) | Some text \<Rightarrow> (Some (Parsing text ticket), s))
   | Parsing text ticket \<Rightarrow>
       (Some After_Parse, if parsed then install_tree uri text s else s)
   | After_Parse \<Rightarrow> (Some (if texts s uri = None then Stopping else Resume), s)
   | Resume \<Rightarrow> (Some (if shut_down s then Stopping else Downstream), s)
   | Downstream \<Rightarrow>
       (let (continue_loop, states) = finish uri (scheds s)
        in (if continue_loop then Some Top else None, s\<lparr>scheds := states\<rparr>))
   | Stopping \<Rightarrow> (None, s\<lparr>scheds := clear uri (scheds s)\<rparr>))"

definition set_loop :: "'u \<Rightarrow> nat \<Rightarrow> loop option \<Rightarrow> 'u parse_state \<Rightarrow> 'u parse_state" where
  "set_loop uri i l s =
     s\<lparr>loops := (loops s)(uri :=
         take i (loops s uri) @ (case l of Some l \<Rightarrow> [l] | None \<Rightarrow> []) @ drop (Suc i) (loops s uri))\<rparr>"

datatype 'u parse_event =
    Open 'u bool
  | Edit 'u "nat option"
  | Ask 'u
  | Request 'u "nat option"
  | Advance 'u nat bool
  | Panic 'u nat
  | Close 'u
  | Shutdown

text \<open>
  Opening parses the text it opens itself, and may give up as a loop does. A loop that panics runs its guard, which clears the
  entry. Requests without an edit come from the settings and installed languages, for
  documents that are open.
\<close>

fun parse_step :: "'u parse_event \<Rightarrow> 'u parse_state \<Rightarrow> 'u parse_state" where
  "parse_step (Open uri parsed) s =
     s\<lparr>texts := (texts s)(uri \<mapsto> next_text s), opened_at := (opened_at s)(uri := next_text s),
       trees := (trees s)(uri := if parsed then Some (next_text s) else None), next_text := next_text s + 1\<rparr>"
| "parse_step (Edit uri ticket) s =
     (if texts s uri = None then s
      else s\<lparr>texts := (texts s)(uri \<mapsto> next_text s), calls := (calls s)(uri := calls s uri @ [ticket]),
             next_text := next_text s + 1\<rparr>)"
| "parse_step (Ask uri) s =
     (case calls s uri of
        [] \<Rightarrow> s
      | ticket # tickets \<Rightarrow> schedule_reparse uri ticket (s\<lparr>calls := (calls s)(uri := tickets)\<rparr>))"
| "parse_step (Request uri ticket) s = (if texts s uri = None then s else schedule_reparse uri ticket s)"
| "parse_step (Advance uri i parsed) s =
     (if i < length (loops s uri)
      then (let (l, s) = advance uri parsed (loops s uri ! i) s in set_loop uri i l s) else s)"
| "parse_step (Panic uri i) s =
     (if i < length (loops s uri)
      then set_loop uri i None (s\<lparr>scheds := clear uri (scheds s)\<rparr>) else s)"
| "parse_step (Close uri) s = s\<lparr>texts := (texts s)(uri := None), trees := (trees s)(uri := None)\<rparr>"
| "parse_step Shutdown s = s\<lparr>shut_down := True\<rparr>"

definition parse_run :: "'u parse_event list \<Rightarrow> 'u parse_state" where
  "parse_run events = fold parse_step events parse_start"

section \<open>One loop per document\<close>

definition one_loop :: "'u parse_state \<Rightarrow> 'u \<Rightarrow> bool" where
  "one_loop s uri \<longleftrightarrow>
     (case loops s uri of
        [] \<Rightarrow> scheds s uri = None
      | [l] \<Rightarrow> (\<exists>st. scheds s uri = Some st \<and> parsing st)
      | _ \<Rightarrow> False)"

lemma one_loop_cases:
  assumes "one_loop s uri"
  obtains "loops s uri = []" "scheds s uri = None"
  | l st where "loops s uri = [l]" "scheds s uri = Some st" "parsing st"
  using assms by (auto simp: one_loop_def split: list.splits)

lemma schedule_one_loop:
  assumes "one_loop s uri'"
  shows "one_loop (schedule_reparse uri ticket s) uri'"
  using assms by (cases "uri' = uri"; cases rule: one_loop_cases [OF assms])
    (auto simp: schedule_reparse_def schedule_def one_loop_def Let_def split: option.splits prod.splits if_splits)

lemma install_keeps [simp]:
  "texts (install_tree uri text s) = texts s" "calls (install_tree uri text s) = calls s"
  "loops (install_tree uri text s) = loops s" "shut_down (install_tree uri text s) = shut_down s"
  "scheds (install_tree uri text s) = scheds s" "next_text (install_tree uri text s) = next_text s"
  "opened_at (install_tree uri text s) = opened_at s"
  "uri' \<noteq> uri \<Longrightarrow> trees (install_tree uri text s) uri' = trees s uri'"
  by (simp_all add: install_tree_def)

lemma advance_keeps:
  "texts (snd (advance uri p l s)) = texts s" "calls (snd (advance uri p l s)) = calls s"
  "loops (snd (advance uri p l s)) = loops s" "shut_down (snd (advance uri p l s)) = shut_down s"
  "opened_at (snd (advance uri p l s)) = opened_at s" "next_text (snd (advance uri p l s)) = next_text s"
  "uri' \<noteq> uri \<Longrightarrow> scheds (snd (advance uri p l s)) uri' = scheds s uri'"
  "uri' \<noteq> uri \<Longrightarrow> trees (snd (advance uri p l s)) uri' = trees s uri'"
  by (cases l; auto simp: advance_def start_pass_def finish_def clear_def split: option.split)+

lemma advance_entry:
  assumes "scheds s uri = Some st" "parsing st"
  shows "(\<exists>st'. scheds (snd (advance uri p l s)) uri = Some st' \<and> parsing st') \<and> fst (advance uri p l s) \<noteq> None \<or>
    scheds (snd (advance uri p l s)) uri = None \<and> fst (advance uri p l s) = None"
  using assms by (auto simp: advance_def start_pass_def finish_def clear_def split: loop.split option.split)

lemma one_loop_other:
  "loops s' uri = loops s uri \<Longrightarrow> scheds s' uri = scheds s uri \<Longrightarrow> one_loop s' uri = one_loop s uri"
  by (simp add: one_loop_def cong: list.case_cong)

lemma step_other_doc:
  "loops (parse_step (Advance uri i p) s) uri' = loops s uri'"
  "scheds (parse_step (Advance uri i p) s) uri' = scheds s uri'"
  "loops (parse_step (Panic uri i) s) uri' = loops s uri'"
  "scheds (parse_step (Panic uri i) s) uri' = scheds s uri'" if "uri' \<noteq> uri"
  using that by (auto simp: set_loop_def clear_def advance_keeps split_beta Let_def)

lemma step_one_loop:
  assumes "one_loop s uri'"
  shows "one_loop (parse_step e s) uri'"
proof (cases e)
  case (Ask uri)
  then show ?thesis
    using schedule_one_loop one_loop_other [of "s\<lparr>calls := (calls s)(uri := tl (calls s uri))\<rparr>" uri' s] assms
    by (cases "calls s uri") auto
next
  case (Request uri ticket)
  then show ?thesis using schedule_one_loop [OF assms] assms by simp
next
  case (Advance uri i p)
  show ?thesis
  proof (cases "uri' = uri \<and> i < length (loops s uri)")
    case False
    show ?thesis
    proof (cases "uri' = uri")
      case True
      then have "parse_step e s = s" using False Advance by simp
      then show ?thesis using assms by simp
    next
      case False
      then show ?thesis
        unfolding Advance one_loop_other [OF step_other_doc(1) step_other_doc(2), OF False False] using assms by simp
    qed
  next
    case True
    then obtain l st where l: "loops s uri = [l]" "i = 0" "scheds s uri = Some st" "parsing st"
      using assms by (cases rule: one_loop_cases [OF assms]) auto
    obtain l' s' where a: "advance uri p l s = (l', s')" by fastforce
    have e: "parse_step e s = set_loop uri 0 l' s'" using Advance l a by simp
    show ?thesis
      using advance_entry [OF l(3,4), of p l] advance_keeps(3) [of uri p l s] l True unfolding e a
      by (auto simp: set_loop_def one_loop_def split: option.split)
  qed
next
  case (Panic uri i)
  show ?thesis
  proof (cases "uri' = uri \<and> i < length (loops s uri)")
    case False
    show ?thesis
    proof (cases "uri' = uri")
      case True
      then have "parse_step e s = s" using False Panic by simp
      then show ?thesis using assms by simp
    next
      case False
      then show ?thesis
        unfolding Panic one_loop_other [OF step_other_doc(3) step_other_doc(4), OF False False] using assms by simp
    qed
  next
    case True
    then show ?thesis
      using Panic assms by (cases rule: one_loop_cases [OF assms]) (auto simp: set_loop_def clear_def one_loop_def)
  qed
qed (use assms in \<open>simp_all add: one_loop_def cong: list.case_cong\<close>)

interpretation parse: history "\<lambda>s. \<forall>uri. one_loop s uri" "\<lambda>_ _. True" parse_step
  by unfold_locales (auto intro: step_one_loop)

lemma run_one_loop: "one_loop (parse_run events) uri"
  using parse.run_ok [of parse_start events] by (simp add: parse_run_def parse_start_def one_loop_def)

text \<open>
  C26: Whatever edits, requests, closes, reopenings, panics and a shutdown do in between, a document
  has at most one parse loop, and the scheduler has an entry for it exactly while the loop
  runs: an entry never outlives its loop, so a document is never left without a way to start one.
\<close>

theorem parse_loop_exclusive:
  "let s = parse_run events in
     length (loops s uri) \<le> 1 \<and> (scheds s uri \<noteq> None \<longleftrightarrow> loops s uri \<noteq> []) \<and>
     (fst (schedule uri ticket (scheds s)) \<longleftrightarrow> loops s uri = [])"
  using run_one_loop [of events uri]
  by (cases rule: one_loop_cases) (auto simp: Let_def schedule_def)

section \<open>No edit is lost\<close>





text \<open>The parses of a document that a run completes: of which text, and whether it gave a tree.\<close>

fun attempt :: "'u \<Rightarrow> 'u parse_event \<Rightarrow> 'u parse_state \<Rightarrow> (nat \<times> bool) list" where
  "attempt uri (Open u parsed) s = (if u = uri then [(next_text s, parsed)] else [])"
| "attempt uri (Advance u i parsed) s =
     (if u = uri \<and> i < length (loops s uri)
      then (case loops s uri ! i of Parsing text _ \<Rightarrow> [(text, parsed)] | _ \<Rightarrow> []) else [])"
| "attempt uri e s = []"

fun attempts_from :: "'u \<Rightarrow> 'u parse_event list \<Rightarrow> 'u parse_state \<Rightarrow> (nat \<times> bool) list" where
  "attempts_from uri [] s = []"
| "attempts_from uri (e # es) s = attempt uri e s @ attempts_from uri es (parse_step e s)"

definition attempts :: "'u \<Rightarrow> 'u parse_event list \<Rightarrow> (nat \<times> bool) list" where
  "attempts uri events = attempts_from uri events parse_start"


lemma schedule_keeps [simp]:
  "texts (schedule_reparse uri ticket s) = texts s" "trees (schedule_reparse uri ticket s) = trees s"
  "calls (schedule_reparse uri ticket s) = calls s" "shut_down (schedule_reparse uri ticket s) = shut_down s"
  by (simp_all add: schedule_reparse_def split_beta Let_def)



lemma schedule_lists [simp]:
  "opened_at (schedule_reparse uri ticket s) = opened_at s" "next_text (schedule_reparse uri ticket s) = next_text s"
  by (simp_all add: schedule_reparse_def split_beta Let_def)







text \<open>Steps of the loop alone, and a bound on how many are left until it ends.\<close>

definition loop_events :: "'u \<Rightarrow> bool list \<Rightarrow> 'u parse_event list" where
  "loop_events uri outcomes = map (Advance uri 0) outcomes"

definition run_loop :: "'u \<Rightarrow> bool list \<Rightarrow> 'u parse_state \<Rightarrow> 'u parse_state" where
  "run_loop uri outcomes s = fold parse_step (loop_events uri outcomes) s"









lemmas parse_evals = parse_run_def parse_start_def schedule_reparse_def schedule_def advance_def start_pass_def
  finish_def set_loop_def install_tree_def attempts_def loop_events_def run_loop_def clear_def


text \<open>
  A loop that has seen its document closed clears the entry in a later step. If the document is
  reopened and edited in between, the edit only marked that entry: the loop is gone, and the
  edit is not parsed until another one arrives.
\<close>

lemma reopened_edit_unparsed:
  "let s = parse_run [Open (7 :: nat) True, Edit 7 (Some 1), Ask 7, Advance 7 0 True, Advance 7 0 True, Close 7,
       Advance 7 0 True, Advance 7 0 True, Open 7 True, Edit 7 (Some 2), Ask 7, Advance 7 0 True]
   in loops s 7 = [] \<and> calls s 7 = [] \<and> texts s 7 = Some 3 \<and> trees s 7 = Some 2"
  by (simp add: parse_evals)

end
