(* ===== verification/Scope_Tree.thy ===== *)
theory Scope_Tree
  imports Prelude "HOL-Library.Product_Lexorder"
begin

text \<open>
  The scope tree of \<open>analysis/bindings/model.rs\<close>: captured scopes are deduplicated by their
  byte range, sorted outermost first and nested with a stack; the innermost scope at a byte is
  found by descending the tree. Captures come from the query; a range is its start and end.
  Tree-sitter's nodes nest or are disjoint, which is the hypothesis \<open>laminar\<close>.
\<close>

section \<open>Scopes\<close>

type_synonym byte_range = "nat \<times> nat"

datatype inherits = Inherit_All | Inherit_None | Inherit_Namespaces "string list"

datatype redirect_target = Redirect_Global | Redirect_Nearest string | Redirect_Nearest_Binding string

record scope_capture =
  sc_byte_range :: byte_range
  sc_label :: "string option"
  sc_inherits :: inherits
  sc_visible_to_nested :: bool

record scope =
  s_byte_range :: byte_range
  s_label :: "string option"
  s_inherits :: inherits
  s_visible_to_nested :: bool
  s_parent :: "nat option"
  s_depth :: nat
  s_bindings :: "string \<rightharpoonup> (string \<rightharpoonup> nat list)"
  s_redirects :: "string \<times> string \<rightharpoonup> redirect_target"

definition root_scope :: "byte_range \<Rightarrow> scope" where
  "root_scope r =
     \<lparr>s_byte_range = r, s_label = None, s_inherits = Inherit_All, s_visible_to_nested = True,
      s_parent = None, s_depth = 0, s_bindings = Map.empty, s_redirects = Map.empty\<rparr>"

definition fresh_scope :: "scope_capture \<Rightarrow> scope" where
  "fresh_scope c =
     \<lparr>s_byte_range = sc_byte_range c, s_label = sc_label c, s_inherits = sc_inherits c,
      s_visible_to_nested = sc_visible_to_nested c, s_parent = None, s_depth = 0,
      s_bindings = Map.empty, s_redirects = Map.empty\<rparr>"

definition absorb :: "scope_capture \<Rightarrow> scope \<Rightarrow> scope" where
  "absorb c s =
     s\<lparr>s_label := (if s_label s = None then sc_label c else s_label s),
       s_inherits := (if s_inherits s = Inherit_All then sc_inherits c else s_inherits s),
       s_visible_to_nested := s_visible_to_nested s \<and> sc_visible_to_nested c\<rparr>"

fun dedupe ::
  "scope_capture list \<Rightarrow> scope \<times> scope list \<times> (byte_range \<rightharpoonup> nat) \<Rightarrow> scope \<times> scope list \<times> (byte_range \<rightharpoonup> nat)" where
  "dedupe [] st = st"
| "dedupe (c # captures) (root, deduped, by_range) =
     (if sc_byte_range c = s_byte_range root then dedupe captures (absorb c root, deduped, by_range)
      else case by_range (sc_byte_range c) of
             Some existing \<Rightarrow>
               dedupe captures (root, deduped[existing := absorb c (deduped ! existing)], by_range)
           | None \<Rightarrow>
               dedupe captures
                 (root, deduped @ [fresh_scope c], by_range(sc_byte_range c \<mapsto> length deduped)))"

text \<open>Sorted by start, then by descending end.\<close>

definition outer_first :: "scope \<Rightarrow> nat \<times> int" where
  "outer_first s = (fst (s_byte_range s), - int (snd (s_byte_range s)))"

definition encloses :: "byte_range \<Rightarrow> byte_range \<Rightarrow> bool" where
  "encloses a b \<longleftrightarrow> fst a \<le> fst b \<and> snd b \<le> snd a"

text \<open>The stack of ancestors with its top first; its bottom is never popped.\<close>

fun pop_until :: "scope list \<Rightarrow> byte_range \<Rightarrow> nat list \<Rightarrow> nat list" where
  "pop_until scopes r (t # b # ancestors) =
     (if encloses (s_byte_range (scopes ! t)) r then t # b # ancestors
      else pop_until scopes r (b # ancestors))"
| "pop_until scopes r ancestors = ancestors"

fun nest :: "scope list \<Rightarrow> nat list \<Rightarrow> scope list \<Rightarrow> scope list" where
  "nest [] ancestors scopes = scopes"
| "nest (s # deduped) ancestors scopes =
     (let ancestors = pop_until scopes (s_byte_range s) ancestors;
          parent = hd ancestors;
          s = s\<lparr>s_parent := Some parent, s_depth := s_depth (scopes ! parent) + 1\<rparr>
      in nest deduped (length scopes # ancestors) (scopes @ [s]))"

definition build_scope_tree :: "byte_range \<Rightarrow> scope_capture list \<Rightarrow> scope list" where
  "build_scope_tree root_range captures =
     (let (root, deduped, _) = dedupe captures (root_scope root_range, [], Map.empty)
      in nest (sort_key outer_first deduped) [0] [root])"

text \<open>The direct children of every scope, in the order of the scopes.\<close>

definition children_of :: "scope list \<Rightarrow> nat list list" where
  "children_of scopes =
     fold (\<lambda>i children.
         case s_parent (scopes ! i) of
           Some p \<Rightarrow> children[p := children ! p @ [i]]
         | None \<Rightarrow> children)
       [1..<length scopes] (replicate (length scopes) [])"

text \<open>
  The loop of \<open>innermost_scope_at\<close>. Each turn moves to a child, which has a larger index, so as
  many turns as there are scopes are enough.
\<close>

fun descend :: "nat \<Rightarrow> scope list \<Rightarrow> nat list list \<Rightarrow> nat \<Rightarrow> nat \<Rightarrow> nat" where
  "descend 0 scopes children p current = current"
| "descend (Suc turns) scopes children p current =
     (let cs = children ! current;
          idx = partition_point (\<lambda>c. fst (s_byte_range (scopes ! c)) \<le> p) cs
      in if idx = 0 then current
         else let next = cs ! (idx - 1)
              in if p < snd (s_byte_range (scopes ! next)) then descend turns scopes children p next
                 else current)"

definition innermost_scope_at :: "scope list \<Rightarrow> nat list list \<Rightarrow> nat \<Rightarrow> nat" where
  "innermost_scope_at scopes children p = descend (length scopes) scopes children p 0"

end
