(* ===== verification/Bindings_Model.thy ===== *)
theory Bindings_Model
  imports Scope_Tree
begin

text \<open>
  Binding registration and reference resolution of \<open>analysis/bindings/model.rs\<close>. Names and
  namespaces are strings that are only compared. Loops that follow parents outward run for as
  many turns as there are scopes, because a parent has a smaller index than its child.
\<close>

section \<open>Captures and the model\<close>

datatype scope_target = Target_Local | Target_Parent | Target_Global | Target_Label string | Target_Nearest string

datatype visibility = Visible_Scope | Visible_After | Visible_Declaration

datatype rebind = Rebind_Merge | Rebind_Fresh | Rebind_Outer_Or_Local

record definition_capture =
  d_byte_range :: byte_range
  d_name :: string
  d_namespace :: string
  d_scope_target :: scope_target
  d_visibility :: visibility
  d_rebind :: rebind
  d_match_end :: nat
  d_labeled_scopes :: "string \<rightharpoonup> byte_range option"

record reference_capture =
  r_byte_range :: byte_range
  r_name :: string
  r_namespaces :: "string list"

record redirect_capture =
  x_byte_range :: byte_range
  x_name :: string
  x_namespace :: string
  x_target :: redirect_target

record collection =
  root_byte_range :: byte_range
  c_scopes :: "scope_capture list"
  c_definitions :: "definition_capture list"
  c_references :: "reference_capture list"
  c_redirects :: "redirect_capture list"

record site =
  site_byte_range :: byte_range
  visibility_start :: nat

record bindings_model =
  m_scopes :: "scope list"
  m_children :: "nat list list"
  m_bindings :: "site list list"
  m_references :: "reference_capture list"

section \<open>Walking outward\<close>

text \<open>\<open>while let Some(scope) = current\<close>: the first scope from \<open>current\<close> on that satisfies a test.\<close>

fun find_outward :: "nat \<Rightarrow> scope list \<Rightarrow> (nat \<Rightarrow> bool) \<Rightarrow> nat option \<Rightarrow> nat option" where
  "find_outward turns scopes test None = None"
| "find_outward 0 scopes test (Some s) = None"
| "find_outward (Suc turns) scopes test (Some s) =
     (if test s then Some s else find_outward turns scopes test (s_parent (scopes ! s)))"

definition nearest_labeled_ancestor :: "scope list \<Rightarrow> nat \<Rightarrow> string \<Rightarrow> nat option" where
  "nearest_labeled_ancestor scopes s label =
     find_outward (length scopes) scopes (\<lambda>i. s_label (scopes ! i) = Some label) (s_parent (scopes ! s))"

definition bound_ids :: "scope \<Rightarrow> string \<Rightarrow> string \<Rightarrow> nat list option" where
  "bound_ids s name ns = Option.bind (s_bindings s name) (\<lambda>ns_map. ns_map ns)"

definition resolve_redirect_target :: "scope list \<Rightarrow> nat \<Rightarrow> redirect_target \<Rightarrow> string \<times> string \<Rightarrow> nat option" where
  "resolve_redirect_target scopes containing target key =
     (case target of
        Redirect_Global \<Rightarrow> Some 0
      | Redirect_Nearest label \<Rightarrow> nearest_labeled_ancestor scopes containing label
      | Redirect_Nearest_Binding label \<Rightarrow>
          find_outward (length scopes) scopes
            (\<lambda>i. s_label (scopes ! i) = Some label \<and>
                 (case bound_ids (scopes ! i) (fst key) (snd key) of Some b \<Rightarrow> b \<noteq> [] | None \<Rightarrow> False))
            (s_parent (scopes ! containing)))"

text \<open>\<open>Iterator::position\<close>.\<close>

fun position_of :: "('a \<Rightarrow> bool) \<Rightarrow> 'a list \<Rightarrow> nat option" where
  "position_of P [] = None"
| "position_of P (x # xs) = (if P x then Some 0 else map_option Suc (position_of P xs))"

definition scope_by_range :: "scope list \<Rightarrow> byte_range \<Rightarrow> nat option" where
  "scope_by_range scopes r = position_of (\<lambda>s. s_byte_range s = r) scopes"

definition resolve_scope_target :: "scope list \<Rightarrow> nat \<Rightarrow> definition_capture \<Rightarrow> nat option" where
  "resolve_scope_target scopes containing def =
     (case d_scope_target def of
        Target_Local \<Rightarrow> Some containing
      | Target_Parent \<Rightarrow> Some (case s_parent (scopes ! containing) of Some p \<Rightarrow> p | None \<Rightarrow> 0)
      | Target_Global \<Rightarrow> Some 0
      | Target_Label label \<Rightarrow>
          (case d_labeled_scopes def label of
             Some (Some r) \<Rightarrow> scope_by_range scopes r
           | _ \<Rightarrow> None)
      | Target_Nearest label \<Rightarrow>
          (case find_outward (length scopes) scopes (\<lambda>i. s_label (scopes ! i) = Some label) (Some containing) of
             Some s \<Rightarrow> Some s
           | None \<Rightarrow> Some 0))"

section \<open>Selection\<close>

text \<open>\<open>Iterator::max\<close> and \<open>max_by_key\<close>: the last of the largest.\<close>

fun max_last :: "('a \<Rightarrow> 'k :: linorder) \<Rightarrow> 'a list \<Rightarrow> 'a option" where
  "max_last key [] = None"
| "max_last key (x # xs) =
     (case max_last key xs of
        None \<Rightarrow> Some x
      | Some m \<Rightarrow> if key x \<le> key m then Some m else Some x)"

definition site_key :: "site \<Rightarrow> nat \<times> nat" where
  "site_key s = (visibility_start s, fst (site_byte_range s))"

text \<open>The latest visibility start of a binding at or before a byte.\<close>

definition best_start :: "site list \<Rightarrow> nat \<Rightarrow> (nat \<times> nat) option" where
  "best_start sites p =
     max_last id (map site_key (filter (\<lambda>s. visibility_start s \<le> p) sites))"

definition select_in_scope :: "bindings_model \<Rightarrow> nat \<Rightarrow> string \<Rightarrow> string \<Rightarrow> nat \<Rightarrow> nat option" where
  "select_in_scope m scope name ns p =
     (case bound_ids (m_scopes m ! scope) name ns of
        None \<Rightarrow> None
      | Some candidates \<Rightarrow>
          map_option snd
            (max_last fst
               (List.map_filter (\<lambda>i. map_option (\<lambda>best. (best, i)) (best_start (m_bindings m ! i) p)) candidates)))"

text \<open>The first namespace that finds a binding in a scope.\<close>

fun first_in :: "('a \<Rightarrow> 'b option) \<Rightarrow> 'a list \<Rightarrow> 'b option" where
  "first_in f [] = None"
| "first_in f (x # xs) = (case f x of Some y \<Rightarrow> Some y | None \<Rightarrow> first_in f xs)"

fun walk :: "nat \<Rightarrow> bindings_model \<Rightarrow> nat option \<Rightarrow> bool \<Rightarrow> string \<Rightarrow> string list \<Rightarrow> nat \<Rightarrow> nat option" where
  "walk turns m None innermost name active p = None"
| "walk 0 m (Some s) innermost name active p = None"
| "walk (Suc turns) m (Some s) innermost name active p =
     (let scope = m_scopes m ! s;
          found = (if innermost \<or> s_visible_to_nested scope
                   then first_in (\<lambda>ns. select_in_scope m s name ns p) active else None);
          outward = (\<lambda>active. walk turns m (s_parent scope) False name active p)
      in case found of
           Some i \<Rightarrow> Some i
         | None \<Rightarrow>
             (case s_inherits scope of
                Inherit_All \<Rightarrow> outward active
              | Inherit_None \<Rightarrow> None
              | Inherit_Namespaces kept \<Rightarrow>
                  (let active = filter (\<lambda>ns. ns \<in> set kept) active
                   in if active = [] then None else outward active)))"

definition walk_from :: "bindings_model \<Rightarrow> nat \<Rightarrow> bool \<Rightarrow> string \<Rightarrow> string list \<Rightarrow> nat \<Rightarrow> nat option" where
  "walk_from m s innermost name namespaces p =
     walk (length (m_scopes m)) m (Some s) innermost name namespaces p"

section \<open>Registration\<close>

definition visibility_from :: "scope \<Rightarrow> definition_capture \<Rightarrow> nat" where
  "visibility_from target def =
     (case d_visibility def of
        Visible_Scope \<Rightarrow> fst (s_byte_range target)
      | Visible_After \<Rightarrow> d_match_end def
      | Visible_Declaration \<Rightarrow> fst (d_byte_range def))"

definition add_binding :: "string \<Rightarrow> string \<Rightarrow> nat \<Rightarrow> scope \<Rightarrow> scope" where
  "add_binding name ns i s =
     (case s_bindings s name of
        Some ns_map \<Rightarrow>
          (case ns_map ns of
             Some ids \<Rightarrow> s\<lparr>s_bindings := (s_bindings s)(name \<mapsto> ns_map(ns \<mapsto> ids @ [i]))\<rparr>
           | None \<Rightarrow> s\<lparr>s_bindings := (s_bindings s)(name \<mapsto> ns_map(ns \<mapsto> [i]))\<rparr>)
      | None \<Rightarrow> s\<lparr>s_bindings := (s_bindings s)(name \<mapsto> [ns \<mapsto> [i]])\<rparr>)"

definition register_into :: "bindings_model \<Rightarrow> nat \<Rightarrow> definition_capture \<Rightarrow> rebind \<Rightarrow> bindings_model" where
  "register_into m target def rb =
     (let site = \<lparr>site_byte_range = d_byte_range def,
                  visibility_start = visibility_from (m_scopes m ! target) def\<rparr>;
          p = fst (d_byte_range def);
          local = select_in_scope m target (d_name def) (d_namespace def) p;
          binding_id =
            (case rb of
               Rebind_Fresh \<Rightarrow> None
             | Rebind_Merge \<Rightarrow> local
             | Rebind_Outer_Or_Local \<Rightarrow>
                 (case walk_from m target True (d_name def) [d_namespace def] p of
                    Some i \<Rightarrow> Some i | None \<Rightarrow> local))
      in case binding_id of
           Some i \<Rightarrow> m\<lparr>m_bindings := (m_bindings m)[i := m_bindings m ! i @ [site]]\<rparr>
         | None \<Rightarrow>
             m\<lparr>m_bindings := m_bindings m @ [[site]],
               m_scopes := (m_scopes m)[target :=
                 add_binding (d_name def) (d_namespace def) (length (m_bindings m)) (m_scopes m ! target)]\<rparr>)"

definition register :: "nat \<Rightarrow> definition_capture \<Rightarrow> bindings_model \<Rightarrow> bindings_model" where
  "register containing def m =
     (let key = (d_name def, d_namespace def)
      in case s_redirects (m_scopes m ! containing) key of
           Some target \<Rightarrow>
             (case resolve_redirect_target (m_scopes m) containing target key of
                Some s \<Rightarrow> register_into m s def Rebind_Merge
              | None \<Rightarrow> m)
         | None \<Rightarrow>
             (case resolve_scope_target (m_scopes m) containing def of
                Some s \<Rightarrow> register_into m s def (d_rebind def)
              | None \<Rightarrow> m))"

definition add_redirect :: "redirect_capture \<Rightarrow> bindings_model \<Rightarrow> bindings_model" where
  "add_redirect x m =
     (let i = innermost_scope_at (m_scopes m) (m_children m) (fst (x_byte_range x));
          s = m_scopes m ! i;
          key = (x_name x, x_namespace x)
      in m\<lparr>m_scopes := (m_scopes m)[i :=
             (case s_redirects s key of
                Some _ \<Rightarrow> s
              | None \<Rightarrow> s\<lparr>s_redirects := (s_redirects s)(key \<mapsto> x_target x)\<rparr>)]\<rparr>)"

definition build_model :: "collection \<Rightarrow> bindings_model" where
  "build_model c =
     (let scopes = build_scope_tree (root_byte_range c) (c_scopes c);
          m = \<lparr>m_scopes = scopes, m_children = children_of scopes, m_bindings = [], m_references = c_references c\<rparr>;
          m = fold add_redirect (c_redirects c) m;
          by_scope = (\<lambda>s. filter (\<lambda>def. innermost_scope_at (m_scopes m) (m_children m) (fst (d_byte_range def)) = s)
                       (c_definitions c));
          scope_order = sort_key (\<lambda>s. (s_depth (m_scopes m ! s), fst (s_byte_range (m_scopes m ! s))))
                          [0..<length (m_scopes m)]
      in fold (\<lambda>s m. fold (register s) (sort_key (\<lambda>def. fst (d_byte_range def)) (by_scope s)) m) scope_order m)"

section \<open>Queries\<close>

definition resolve_reference :: "bindings_model \<Rightarrow> reference_capture \<Rightarrow> nat option" where
  "resolve_reference m r =
     (let p = fst (r_byte_range r)
      in walk_from m (innermost_scope_at (m_scopes m) (m_children m) p) True (r_name r) (r_namespaces r) p)"

text \<open>The last binding with a site that contains the byte, and the first such site.\<close>

definition site_containing :: "bindings_model \<Rightarrow> nat \<Rightarrow> (nat \<times> site) option" where
  "site_containing m byte =
     first_in (\<lambda>(i, sites). map_option (\<lambda>s. (i, s))
                  (find (\<lambda>s. fst (site_byte_range s) \<le> byte \<and> byte < snd (site_byte_range s)) sites))
       (rev (enumerate 0 (m_bindings m)))"

definition reference_containing :: "bindings_model \<Rightarrow> nat \<Rightarrow> reference_capture option" where
  "reference_containing m byte =
     find (\<lambda>r. fst (r_byte_range r) \<le> byte \<and> byte < snd (r_byte_range r)) (m_references m)"

definition binding_at :: "bindings_model \<Rightarrow> nat \<Rightarrow> nat option" where
  "binding_at m byte =
     (case site_containing m byte of
        Some (i, _) \<Rightarrow> Some i
      | None \<Rightarrow> Option.bind (reference_containing m byte) (resolve_reference m))"

text \<open>The single pass of \<open>site_for\<close>.\<close>

fun site_pass :: "nat \<Rightarrow> site list \<Rightarrow> site option \<Rightarrow> site option \<Rightarrow> site option" where
  "site_pass p [] best_before first_after = (case best_before of Some b \<Rightarrow> Some b | None \<Rightarrow> first_after)"
| "site_pass p (s # sites) best_before first_after =
     (if p < visibility_start s then site_pass p sites best_before first_after
      else if fst (site_byte_range s) \<le> p
      then site_pass p sites
             (if case best_before of None \<Rightarrow> True | Some b \<Rightarrow> fst (site_byte_range b) < fst (site_byte_range s)
              then Some s else best_before)
             first_after
      else site_pass p sites best_before
             (if case first_after of None \<Rightarrow> True | Some a \<Rightarrow> fst (site_byte_range s) < fst (site_byte_range a)
              then Some s else first_after))"

definition site_for :: "bindings_model \<Rightarrow> nat \<Rightarrow> nat \<Rightarrow> site option" where
  "site_for m i p = site_pass p (m_bindings m ! i) None None"

definition definition_range_at :: "bindings_model \<Rightarrow> nat \<Rightarrow> byte_range option" where
  "definition_range_at m byte =
     (case site_containing m byte of
        Some (_, s) \<Rightarrow> Some (site_byte_range s)
      | None \<Rightarrow>
          Option.bind (reference_containing m byte) (\<lambda>r.
            Option.bind (resolve_reference m r) (\<lambda>i.
              map_option site_byte_range (site_for m i (fst (r_byte_range r))))))"

definition references_resolving_to :: "bindings_model \<Rightarrow> nat \<Rightarrow> byte_range list" where
  "references_resolving_to m i =
     map r_byte_range (filter (\<lambda>r. resolve_reference m r = Some i) (m_references m))"

definition resolvable_identifier_at :: "bindings_model \<Rightarrow> nat \<Rightarrow> byte_range option" where
  "resolvable_identifier_at m byte =
     (case site_containing m byte of
        Some (_, s) \<Rightarrow> Some (site_byte_range s)
      | None \<Rightarrow>
          Option.bind (reference_containing m byte) (\<lambda>r.
            map_option (\<lambda>_. r_byte_range r) (resolve_reference m r)))"

end
