(* ===== verification/Scope_Tree_Laws.thy ===== *)
theory Scope_Tree_Laws
  imports Scope_Tree
begin

text \<open>
  The scope tree of \<open>Scope_Tree\<close>: what each scope's parent is, and that descending the tree
  finds the scope that a scan of all of them would.
\<close>

section \<open>Deduplication\<close>

lemma absorb_range [simp]: "s_byte_range (absorb c s) = s_byte_range s"
  by (simp add: absorb_def)

lemma fresh_range [simp]: "s_byte_range (fresh_scope c) = sc_byte_range c"
  by (simp add: fresh_scope_def)

lemma root_range [simp]: "s_byte_range (root_scope r) = r"
  by (simp add: root_scope_def)

definition indexes_ranges :: "(byte_range \<rightharpoonup> nat) \<Rightarrow> scope list \<Rightarrow> bool" where
  "indexes_ranges by_range ds \<longleftrightarrow>
     distinct (map s_byte_range ds) \<and>
     (\<forall>r i. by_range r = Some i \<longleftrightarrow> i < length ds \<and> s_byte_range (ds ! i) = r)"

lemma dedupe_ranges:
  assumes "dedupe captures (root, ds, by_range) = (root', ds', by_range')" "indexes_ranges by_range ds"
  shows "s_byte_range root' = s_byte_range root \<and> indexes_ranges by_range' ds' \<and>
    s_byte_range ` set ds' = s_byte_range ` set ds \<union> (sc_byte_range ` set captures - {s_byte_range root})"
  using assms
proof (induction captures arbitrary: root ds by_range)
  case (Cons c captures)
  show ?case
  proof (cases "sc_byte_range c = s_byte_range root")
    case True
    then show ?thesis using Cons.IH [of "absorb c root" ds by_range] Cons.prems by auto
  next
    case new: False
    show ?thesis
    proof (cases "by_range (sc_byte_range c)")
      case (Some i)
      let ?ds = "ds[i := absorb c (ds ! i)]"
      have i: "i < length ds" "s_byte_range (ds ! i) = sc_byte_range c"
        using Some Cons.prems(2) unfolding indexes_ranges_def by blast+
      have same: "map s_byte_range ?ds = map s_byte_range ds"
        using i by (simp add: map_update) (metis list_update_id map_update)
      then have ranges: "s_byte_range ` set ?ds = s_byte_range ` set ds" by (metis list.set_map)
      have "s_byte_range (?ds ! j) = s_byte_range (ds ! j)" if "j < length ds" for j
        using that i by (cases "j = i") auto
      then have "indexes_ranges by_range ?ds"
        using Cons.prems(2) unfolding indexes_ranges_def same by (auto simp del: split_paired_All)
      moreover have "sc_byte_range c \<in> s_byte_range ` set ds" using i nth_mem by (metis image_eqI)
      ultimately show ?thesis
        using Cons.IH [of root ?ds by_range] Cons.prems(1) new Some ranges by auto
    next
      case None
      have "by_range (s_byte_range (ds ! i)) = Some i" if "i < length ds" for i
        using Cons.prems(2) that unfolding indexes_ranges_def by blast
      then have fresh: "sc_byte_range c \<notin> s_byte_range ` set ds"
        using None by (metis imageE in_set_conv_nth option.distinct(1))
      then have ne: "s_byte_range (ds ! i) \<noteq> sc_byte_range c" if "i < length ds" for i
        using that by (metis image_eqI nth_mem)
      from fresh have idx: "indexes_ranges (by_range(sc_byte_range c \<mapsto> length ds)) (ds @ [fresh_scope c])"
        using Cons.prems(2) None ne by (auto simp: indexes_ranges_def nth_append less_Suc_eq simp del: split_paired_All)
      have "dedupe captures (root, ds @ [fresh_scope c], by_range(sc_byte_range c \<mapsto> length ds)) =
          (root', ds', by_range')"
        using Cons.prems(1) new None by simp
      from Cons.IH [OF this idx] show ?thesis using new by (simp add: insert_Diff_if Un_insert_left)
    qed
  qed
qed simp

section \<open>Parents\<close>

abbreviation range_at :: "scope list \<Rightarrow> nat \<Rightarrow> byte_range" where
  "range_at scopes i \<equiv> s_byte_range (scopes ! i)"

text \<open>A scope that is no longer on the stack was popped by a later one it does not enclose.\<close>

definition popped :: "scope list \<Rightarrow> nat \<Rightarrow> nat \<Rightarrow> bool" where
  "popped scopes i n \<longleftrightarrow> (\<exists>s. i < s \<and> s < n \<and> \<not> encloses (range_at scopes i) (range_at scopes s))"

definition stack_ok :: "scope list \<Rightarrow> nat list \<Rightarrow> bool" where
  "stack_ok scopes ancestors \<longleftrightarrow>
     ancestors \<noteq> [] \<and> last ancestors = 0 \<and> sorted_wrt (>) ancestors \<and>
     (\<forall>i \<in> set ancestors. i < length scopes) \<and>
     (\<forall>i < length scopes. i \<in> set ancestors \<or> popped scopes i (length scopes))"

lemma pop_until_correct:
  assumes "ancestors \<noteq> []" "last ancestors = 0" "sorted_wrt (>) ancestors"
  shows "let as = pop_until scopes r ancestors; q = hd as in
    as \<noteq> [] \<and> last as = 0 \<and> sorted_wrt (>) as \<and> set as = {a \<in> set ancestors. a \<le> q} \<and> q \<in> set ancestors \<and>
    (q = 0 \<or> encloses (range_at scopes q) r) \<and>
    (\<forall>a \<in> set ancestors. q < a \<longrightarrow> \<not> encloses (range_at scopes a) r)"
  using assms
proof (induction scopes r ancestors rule: pop_until.induct)
  case (1 scopes r t b ancestors)
  show ?case
  proof (cases "encloses (range_at scopes t) r")
    case True
    then show ?thesis using 1(2-) by (auto simp: Let_def)
  next
    case False
    note ih = 1(1) [OF False]
    have "b < t" using 1(4) by simp
    show ?thesis using ih 1(2-) False by (auto simp: Let_def)
  qed
qed auto

text \<open>What is known of the parent of every scope but the root.\<close>

definition parents_ok :: "scope list \<Rightarrow> bool" where
  "parents_ok scopes \<longleftrightarrow>
     (\<forall>i. 0 < i \<and> i < length scopes \<longrightarrow> (\<exists>q. s_parent (scopes ! i) = Some q \<and> q < i \<and>
        (q = 0 \<or> encloses (range_at scopes q) (range_at scopes i)) \<and>
        (\<forall>j. q < j \<and> j < i \<longrightarrow> \<not> encloses (range_at scopes j) (range_at scopes i) \<or> popped scopes j i)))"

lemma popped_append:
  assumes "n \<le> length scopes" "i < n"
  shows "popped (scopes @ ss) i n = popped scopes i n"
proof -
  have "(scopes @ ss) ! j = scopes ! j" if "j < n" for j using that assms(1) by (simp add: nth_append)
  then show ?thesis unfolding popped_def using assms(2) by (metis (no_types, lifting))
qed

lemma popped_mono: "popped scopes i n \<Longrightarrow> n \<le> m \<Longrightarrow> popped scopes i m"
  unfolding popped_def by (meson order_less_le_trans)

lemma nest_correct:
  assumes "scopes \<noteq> []" "stack_ok scopes ancestors" "parents_ok scopes" "s_parent (hd scopes) = None"
  shows "let T = nest ss ancestors scopes in
    T \<noteq> [] \<and> hd T = hd scopes \<and> parents_ok T \<and> map s_byte_range T = map s_byte_range (scopes @ ss)"
  using assms
proof (induction ss arbitrary: ancestors scopes)
  case (Cons s ss)
  let ?r = "s_byte_range s" and ?n = "length scopes"
  define as where "as = pop_until scopes ?r ancestors"
  define q where "q = hd as"
  let ?s = "s\<lparr>s_parent := Some q, s_depth := Suc (s_depth (scopes ! q))\<rparr>"
  let ?S = "scopes @ [?s]"
  have st: "ancestors \<noteq> []" "last ancestors = 0" "sorted_wrt (>) ancestors"
    and less: "\<And>i. i \<in> set ancestors \<Longrightarrow> i < ?n"
    and gone: "\<And>i. i < ?n \<Longrightarrow> i \<in> set ancestors \<or> popped scopes i ?n"
    using Cons.prems(2) by (auto simp: stack_ok_def)
  have as: "as \<noteq> []" "last as = 0" "sorted_wrt (>) as" "set as = {a \<in> set ancestors. a \<le> q}" "q \<in> set ancestors"
    "q = 0 \<or> encloses (range_at scopes q) ?r" "\<forall>a \<in> set ancestors. q < a \<longrightarrow> \<not> encloses (range_at scopes a) ?r"
    using pop_until_correct [OF st, of scopes ?r] unfolding as_def q_def Let_def by blast+
  have popped_now: "popped ?S j (Suc ?n)" if "j < ?n" "j \<notin> set as" for j
  proof (cases "j \<in> set ancestors")
    case True
    then have "\<not> encloses (range_at scopes j) ?r" using that(2) as(4,7) by auto
    then show ?thesis unfolding popped_def using that(1) by (intro exI [of _ ?n]) (simp add: nth_append)
  next
    case False
    then have "popped ?S j ?n" using gone [OF that(1)] that(1) by (simp add: popped_append)
    then show ?thesis by (rule popped_mono) simp
  qed
  have "stack_ok ?S (?n # as)"
    unfolding stack_ok_def using as less popped_now by (auto simp: less_Suc_eq)
  moreover have "parents_ok ?S"
    unfolding parents_ok_def
  proof (intro allI impI)
    fix i assume i: "0 < i \<and> i < length ?S"
    show "\<exists>q. s_parent (?S ! i) = Some q \<and> q < i \<and> (q = 0 \<or> encloses (range_at ?S q) (range_at ?S i)) \<and>
        (\<forall>j. q < j \<and> j < i \<longrightarrow> \<not> encloses (range_at ?S j) (range_at ?S i) \<or> popped ?S j i)"
    proof (cases "i = ?n")
      case True
      have "q < ?n" using as(5) less by blast
      moreover have "\<not> encloses (range_at scopes j) ?r \<or> popped scopes j ?n" if "q < j" "j < ?n" for j
        using gone [OF that(2)] as(7) that(1) by blast
      ultimately show ?thesis
        using as(6) True by (intro exI [of _ q]) (auto simp: nth_append popped_append)
    next
      case False
      then have "i < ?n" using i by simp
      obtain q' where q': "s_parent (scopes ! i) = Some q'" "q' < i"
        "q' = 0 \<or> encloses (range_at scopes q') (range_at scopes i)"
        "\<And>j. q' < j \<Longrightarrow> j < i \<Longrightarrow> \<not> encloses (range_at scopes j) (range_at scopes i) \<or> popped scopes j i"
        using Cons.prems(3) i \<open>i < ?n\<close> unfolding parents_ok_def by blast
      have at: "?S ! j = scopes ! j" if "j \<le> i" for j using that \<open>i < ?n\<close> by (simp add: nth_append)
      have pop: "popped ?S j i = popped scopes j i" if "j < i" for j
        using that \<open>i < ?n\<close> by (intro popped_append) simp_all
      show ?thesis
        using q' by (intro exI [of _ q']) (auto simp: at pop)
    qed
  qed
  moreover have "nest (s # ss) ancestors scopes = nest ss (?n # as) ?S"
    by (simp add: as_def q_def Let_def)
  moreover have "?S \<noteq> []" "hd ?S = hd scopes" "map s_byte_range (?S @ ss) = map s_byte_range (scopes @ s # ss)"
    using Cons.prems(1) by simp_all
  ultimately show ?case using Cons.IH [of ?S "?n # as"] Cons.prems(4) by (simp only: Let_def simp_thms)
qed simp

section \<open>Children\<close>

lemma children_fold:
  assumes "\<forall>i \<in> set is. \<exists>p. s_parent (scopes ! i) = Some p \<and> p < length children" "q < length children"
  shows "length (fold (\<lambda>i children. case s_parent (scopes ! i) of
           Some p \<Rightarrow> children[p := children ! p @ [i]] | None \<Rightarrow> children) is children) = length children \<and>
    fold (\<lambda>i children. case s_parent (scopes ! i) of
           Some p \<Rightarrow> children[p := children ! p @ [i]] | None \<Rightarrow> children) is children ! q =
      children ! q @ filter (\<lambda>i. s_parent (scopes ! i) = Some q) is"
  using assms
proof (induction "is" arbitrary: children)
  case (Cons i "is")
  obtain p where p: "s_parent (scopes ! i) = Some p" "p < length children" using Cons.prems(1) by auto
  then show ?case
    using Cons.IH [of "children[p := children ! p @ [i]]"] Cons.prems by (cases "p = q") auto
qed simp

lemma children_of_nth:
  assumes "parents_ok scopes" "q < length scopes"
  shows "children_of scopes ! q = filter (\<lambda>i. s_parent (scopes ! i) = Some q) [1..<length scopes]"
proof -
  have "\<forall>i \<in> set [1..<length scopes]. \<exists>p. s_parent (scopes ! i) = Some p \<and> p < length (replicate (length scopes) ([] :: nat list))"
    using assms(1) unfolding parents_ok_def by (metis Suc_le_eq One_nat_def atLeastLessThan_iff length_replicate order_less_trans set_upt)
  from children_fold [OF this, of q] show ?thesis using assms(2) by (simp add: children_of_def)
qed

section \<open>The innermost scope\<close>

definition contains :: "byte_range \<Rightarrow> nat \<Rightarrow> bool" where
  "contains r p \<longleftrightarrow> fst r \<le> p \<and> p < snd r"

definition laminar :: "byte_range set \<Rightarrow> bool" where
  "laminar rs \<longleftrightarrow> (\<forall>a \<in> rs. fst a \<le> snd a) \<and>
     (\<forall>a \<in> rs. \<forall>b \<in> rs. encloses a b \<or> encloses b a \<or> snd a \<le> fst b \<or> snd b \<le> fst a)"

lemma laminar_subset: "laminar rs \<Longrightarrow> rs' \<subseteq> rs \<Longrightarrow> laminar rs'"
  unfolding laminar_def by blast

definition range_key :: "byte_range \<Rightarrow> nat \<times> int" where
  "range_key r = (fst r, - int (snd r))"

lemma outer_first_key: "outer_first s = range_key (s_byte_range s)"
  by (simp add: outer_first_def range_key_def)

lemma inj_range_key: "inj range_key"
  by (auto simp: inj_def range_key_def prod_eq_iff)

text \<open>What the construction establishes: parents, and ranges in the outer-first order.\<close>

definition tree_ok :: "scope list \<Rightarrow> bool" where
  "tree_ok T \<longleftrightarrow> T \<noteq> [] \<and> s_parent (hd T) = None \<and> parents_ok T \<and>
     sorted_wrt (\<lambda>a b. range_key a < range_key b) (map s_byte_range (tl T))"

lemma tree_before:
  assumes "tree_ok T" "0 < i" "i < j" "j < length T"
  shows "range_key (range_at T i) < range_key (range_at T j)"
proof -
  have "sorted_wrt (\<lambda>a b. range_key a < range_key b) (map s_byte_range (tl T))"
    using assms(1) by (simp add: tree_ok_def)
  then have "range_key (map s_byte_range (tl T) ! (i - 1)) < range_key (map s_byte_range (tl T) ! (j - 1))"
    using assms(2-4) by (rule_tac sorted_wrt_nth_less [where P = "\<lambda>a b. range_key a < range_key b"]) simp_all
  then show ?thesis using assms(2-4) by (simp add: nth_tl)
qed

lemma absorb_parent [simp]: "s_parent (absorb c s) = s_parent s"
  by (simp add: absorb_def)

lemma dedupe_root_parent: "s_parent (fst (dedupe captures st)) = s_parent (fst st)"
  by (induction captures st rule: dedupe.induct) (auto split: option.splits)

lemma build_tree_ok:
  "tree_ok (build_scope_tree r captures) \<and>
   s_byte_range ` set (tl (build_scope_tree r captures)) = sc_byte_range ` set captures - {r}"
proof -
  obtain root ds by_range where d: "dedupe captures (root_scope r, [], Map.empty) = (root, ds, by_range)"
    by (metis prod.exhaust)
  let ?sorted = "sort_key outer_first ds"
  let ?T = "build_scope_tree r captures"
  have T: "?T = nest ?sorted [0] [root]" by (simp add: build_scope_tree_def d)
  have ranges: "s_byte_range root = r" "distinct (map s_byte_range ds)"
    "s_byte_range ` set ds = sc_byte_range ` set captures - {r}"
    using dedupe_ranges [OF d] by (auto simp: indexes_ranges_def)
  have "s_parent root = None"
    using dedupe_root_parent [of captures "(root_scope r, [], Map.empty)", unfolded d] by (simp add: root_scope_def)
  then have n: "?T \<noteq> []" "hd ?T = root" "parents_ok ?T" "map s_byte_range ?T = map s_byte_range (root # ?sorted)"
    using nest_correct [of "[root]" "[0]" ?sorted] unfolding T
    by (auto simp: Let_def stack_ok_def parents_ok_def)
  have "sorted (map range_key (map s_byte_range ?sorted))"
  proof -
    have "map range_key (map s_byte_range ?sorted) = map outer_first ?sorted" by (simp add: outer_first_key)
    then show ?thesis by (simp only: sorted_sort_key)
  qed
  moreover have "distinct (map s_byte_range ?sorted)" using ranges(2) by (simp add: distinct_map)
  then have "distinct (map range_key (map s_byte_range ?sorted))"
    using inj_on_subset [OF inj_range_key] by (subst distinct_map) blast
  ultimately have "sorted_wrt (<) (map range_key (map s_byte_range ?sorted))"
    by (simp add: strict_sorted_iff)
  moreover have tl: "map s_byte_range (tl ?T) = map s_byte_range ?sorted"
    using n(1,4) by (cases ?T) auto
  ultimately have "tree_ok ?T"
    using n \<open>s_parent root = None\<close> by (simp add: tree_ok_def sorted_wrt_map comp_def)
  moreover have "s_byte_range ` set (tl ?T) = s_byte_range ` set ds"
    using tl by (metis list.set_map set_sort)
  ultimately show ?thesis using ranges(3) by simp
qed

lemma laminar_encloses:
  assumes "tree_ok T" "laminar (s_byte_range ` set (tl T))" "0 < i" "i < j" "j < length T"
    "fst (range_at T j) < snd (range_at T i)"
  shows "encloses (range_at T i) (range_at T j)"
proof -
  let ?a = "range_at T i" and ?b = "range_at T j"
  have "T ! k \<in> set (tl T)" if "0 < k" "k < length T" for k
    using that nth_mem [of "k - 1" "tl T"] by (simp add: nth_tl)
  then have "?a \<in> s_byte_range ` set (tl T)" "?b \<in> s_byte_range ` set (tl T)" using assms(3-5) by auto
  then have l: "encloses ?a ?b \<or> encloses ?b ?a \<or> snd ?a \<le> fst ?b \<or> snd ?b \<le> fst ?a" "fst ?b \<le> snd ?b"
    using assms(2) unfolding laminar_def by blast+
  have "fst ?a < fst ?b \<or> fst ?a = fst ?b \<and> snd ?b < snd ?a"
    using tree_before [OF assms(1,3,4,5)] by (auto simp: range_key_def less_prod_def)
  then show ?thesis using l assms(6) by (auto simp: encloses_def)
qed

lemma not_popped:
  assumes "tree_ok T" "laminar (s_byte_range ` set (tl T))" "0 < i" "j < length T"
    "fst (range_at T j) < snd (range_at T i)"
  shows "\<not> popped T i j"
proof
  assume "popped T i j"
  then obtain k where k: "i < k" "k < j" "\<not> encloses (range_at T i) (range_at T k)" by (auto simp: popped_def)
  have "fst (range_at T k) \<le> fst (range_at T j)"
    using tree_before [OF assms(1) _ k(2)] k(1) assms(3,4) by (auto simp: range_key_def less_prod_def)
  then show False
    using k laminar_encloses [OF assms(1-3) k(1)] assms(4,5) by simp
qed

text \<open>The scopes other than the root that contain a byte, outermost first.\<close>

definition containing :: "scope list \<Rightarrow> nat \<Rightarrow> nat list" where
  "containing T p = filter (\<lambda>i. contains (range_at T i) p) [1..<length T]"

lemma containing_iff: "i \<in> set (containing T p) \<longleftrightarrow> 0 < i \<and> i < length T \<and> contains (range_at T i) p"
  by (auto simp: containing_def)

text \<open>The parent of a scope that contains a byte is the next outer one that contains it.\<close>

lemma parent_of_containing:
  assumes ok: "tree_ok T" "laminar (s_byte_range ` set (tl T))"
    and i: "i \<in> set (containing T p)" and q: "s_parent (T ! i) = Some q"
  shows "q < i" "q = 0 \<or> q \<in> set (containing T p)" "\<And>j. j \<in> set (containing T p) \<Longrightarrow> q < j \<Longrightarrow> i \<le> j"
proof -
  have i': "0 < i" "i < length T" "contains (range_at T i) p" using i by (simp_all add: containing_iff)
  obtain q' where q': "s_parent (T ! i) = Some q'" "q' < i" "q' = 0 \<or> encloses (range_at T q') (range_at T i)"
    "\<And>j. q' < j \<Longrightarrow> j < i \<Longrightarrow> \<not> encloses (range_at T j) (range_at T i) \<or> popped T j i"
    using ok(1) i'(1,2) unfolding tree_ok_def parents_ok_def by blast
  have [simp]: "q' = q" using q q'(1) by simp
  show "q < i" using q'(2) by simp
  show "q = 0 \<or> q \<in> set (containing T p)"
    using q'(2,3) i' by (auto simp: containing_iff contains_def encloses_def)
  fix j assume j: "j \<in> set (containing T p)" "q < j"
  show "i \<le> j"
  proof (rule ccontr)
    assume "\<not> i \<le> j"
    then have less: "j < i" by simp
    have "fst (range_at T i) < snd (range_at T j)" "0 < j"
      using j(1) i'(3) by (auto simp: containing_iff contains_def)
    then show False
      using q'(4) [of j] j(2) less laminar_encloses [OF ok _ less i'(2)] not_popped [OF ok _ i'(2), of j] by simp
  qed
qed

lemma children_nth:
  assumes "tree_ok T" "q < length T"
  shows "children_of T ! q = filter (\<lambda>i. s_parent (T ! i) = Some q) [1..<length T]"
  using assms by (intro children_of_nth) (simp_all add: tree_ok_def)

lemma children_sorted:
  assumes "tree_ok T" "q < length T"
  shows "sorted (map (\<lambda>c. fst (range_at T c)) (children_of T ! q))"
proof -
  have "sorted (map (\<lambda>c. fst (range_at T c)) [1..<length T])"
  proof (intro sorted_iff_nth_mono [THEN iffD2] allI impI)
    fix i j assume ij: "i \<le> j" "j < length (map (\<lambda>c. fst (range_at T c)) [1..<length T])"
    then show "map (\<lambda>c. fst (range_at T c)) [1..<length T] ! i \<le> map (\<lambda>c. fst (range_at T c)) [1..<length T] ! j"
      using tree_before [OF assms(1), of "Suc i" "Suc j"]
      by (cases "i = j") (auto simp: range_key_def less_prod_def Suc_less_eq less_diff_conv)
  qed
  then show ?thesis unfolding children_nth [OF assms] by (rule sorted_filter)
qed

text \<open>The last child that starts at or before a byte.\<close>

lemma last_child:
  fixes p :: nat
  assumes ok: "tree_ok T" "q < length T"
  defines "cs \<equiv> children_of T ! q"
  defines "idx \<equiv> partition_point (\<lambda>c. fst (range_at T c) \<le> p) cs"
  shows "idx = 0 \<Longrightarrow> \<forall>c \<in> set cs. p < fst (range_at T c)"
    "idx \<noteq> 0 \<Longrightarrow> cs ! (idx - 1) \<in> set cs \<and> fst (range_at T (cs ! (idx - 1))) \<le> p \<and>
       (\<forall>c \<in> set cs. fst (range_at T c) \<le> p \<longrightarrow> c \<le> cs ! (idx - 1))"
proof -
  let ?P = "\<lambda>c. fst (range_at T c) \<le> p"
  have srt: "sorted (map (\<lambda>c. fst (range_at T c)) cs)" unfolding cs_def by (rule children_sorted [OF ok])
  have inc: "sorted cs" unfolding cs_def children_nth [OF ok] by (rule sorted_wrt_filter) (simp del: upt_Suc)
  have len: "idx \<le> length cs" by (simp add: idx_def partition_point_def length_takeWhile_le)
  have below: "?P (cs ! i)" if "i < idx" for i
    using that by (metis idx_def partition_point_def nth_mem set_takeWhileD takeWhile_nth)
  have above: "\<not> ?P (cs ! i)" if "idx \<le> i" "i < length cs" for i
  proof -
    have "idx < length cs" using that by simp
    then have "\<not> ?P (cs ! idx)" unfolding idx_def partition_point_def by (rule nth_length_takeWhile)
    moreover have "fst (range_at T (cs ! idx)) \<le> fst (range_at T (cs ! i))"
      using sorted_nth_mono [OF srt that(1)] that by simp
    ultimately show ?thesis by simp
  qed
  show "\<forall>c \<in> set cs. p < fst (range_at T c)" if "idx = 0"
    using above that by (auto simp: in_set_conv_nth not_le)
  show "cs ! (idx - 1) \<in> set cs \<and> ?P (cs ! (idx - 1)) \<and> (\<forall>c \<in> set cs. ?P c \<longrightarrow> c \<le> cs ! (idx - 1))"
    if "idx \<noteq> 0"
  proof (intro conjI ballI impI)
    show "cs ! (idx - 1) \<in> set cs" using that len by simp
    show "?P (cs ! (idx - 1))" using that below by simp
    fix c assume "c \<in> set cs" "?P c"
    then obtain i where i: "i < length cs" "c = cs ! i" by (auto simp: in_set_conv_nth)
    then have "i < idx" using above \<open>?P c\<close> by (meson not_le)
    then show "c \<le> cs ! (idx - 1)" using i len by (auto intro: sorted_nth_mono [OF inc])
  qed
qed

lemma sorted_filter_Cons:
  assumes "sorted xs" "distinct xs" "filter (\<lambda>x. (n :: nat) < x) xs = y # ys"
  shows "filter (\<lambda>x. y < x) xs = ys" "n < y" "y \<in> set xs" "\<And>x. x \<in> set xs \<Longrightarrow> n < x \<Longrightarrow> y \<le> x"
proof -
  have mem: "x \<in> set (y # ys) \<longleftrightarrow> x \<in> set xs \<and> n < x" for x using arg_cong [OF assms(3), of set] by (simp add: set_eq_iff)
  show y: "n < y" "y \<in> set xs" using mem [of y] by simp_all
  have d: "distinct (y # ys)" "sorted (y # ys)" using distinct_filter [OF assms(2)] sorted_wrt_filter [OF assms(1)] assms(3) by metis+
  then show "x \<in> set xs \<Longrightarrow> n < x \<Longrightarrow> y \<le> x" for x using mem [of x] by auto
  have "filter (\<lambda>x. y < x) xs = filter (\<lambda>x. y < x) (filter (\<lambda>x. n < x) xs)"
    unfolding filter_filter using y(1) by (intro filter_cong) auto
  also have "\<dots> = ys" unfolding assms(3) using d by (auto simp: filter_id_conv order_less_le)
  finally show "filter (\<lambda>x. y < x) xs = ys" .
qed

lemma containing_sorted: "sorted (containing T p)" "distinct (containing T p)"
  by (simp_all add: containing_def sorted_wrt_filter del: upt_Suc)

lemma descend_correct:
  assumes ok: "tree_ok T" "laminar (s_byte_range ` set (tl T))"
    and at: "current = 0 \<or> current \<in> set (containing T p)" and turns: "length T \<le> current + turns"
  shows "descend turns T (children_of T) p current = last (current # filter (\<lambda>i. current < i) (containing T p))"
  using at turns
proof (induction turns arbitrary: current)
  case 0
  then show ?case using ok(1) by (auto simp: containing_iff tree_ok_def)
next
  case (Suc turns)
  let ?cs = "children_of T ! current" and ?C = "filter (\<lambda>i. current < i) (containing T p)"
  let ?idx = "partition_point (\<lambda>c. fst (range_at T c) \<le> p) ?cs"
  have cur: "current < length T" using Suc.prems(1) ok(1) by (auto simp: containing_iff tree_ok_def)
  have child: "c \<in> set ?cs \<longleftrightarrow> 0 < c \<and> c < length T \<and> s_parent (T ! c) = Some current" for c
    by (auto simp: children_nth [OF ok(1) cur])
  have later: "current < c" if "c \<in> set ?cs" for c
    using that ok(1) by (auto simp: child tree_ok_def parents_ok_def)
  show ?case
  proof (cases ?C)
    case Nil
    have "\<not> p < snd (range_at T (?cs ! (?idx - 1)))" if "?idx \<noteq> 0"
    proof
      let ?c = "?cs ! (?idx - 1)"
      assume "p < snd (range_at T ?c)"
      then have "?c \<in> set (containing T p)" "current < ?c"
        using last_child(2) [OF ok(1) cur that] later by (auto simp: containing_iff contains_def child)
      then show False using Nil by (simp add: filter_empty_conv)
    qed
    then show ?thesis using Nil by (simp add: Let_def)
  next
    case (Cons m C)
    note m = sorted_filter_Cons [OF containing_sorted Cons]
    obtain q where q: "s_parent (T ! m) = Some q"
      using ok(1) m(3) unfolding tree_ok_def parents_ok_def containing_iff by blast
    note par = parent_of_containing [OF ok m(3) q]
    have "current \<le> q" using par(3) [of current] m(2) Suc.prems(1) by force
    moreover have "q \<le> current" using par(1,2) m(4) [of q] by force
    ultimately have "q = current" by simp
    then have mc: "m \<in> set ?cs" "fst (range_at T m) \<le> p" "p < snd (range_at T m)"
      using m(3) q by (auto simp: child containing_iff contains_def)
    then have idx: "?idx \<noteq> 0" using last_child(1) [OF ok(1) cur, of p] by force
    let ?c = "?cs ! (?idx - 1)"
    note c = last_child(2) [OF ok(1) cur idx]
    have "?c = m"
    proof (rule ccontr)
      assume "?c \<noteq> m"
      then have less: "m < ?c" using c mc by (metis le_neq_implies_less)
      have lt: "fst (range_at T ?c) < snd (range_at T m)" "?c < length T" "0 < m"
        using c mc m(3) by (auto simp: child containing_iff)
      have "encloses (range_at T m) (range_at T ?c)" "\<not> popped T m ?c"
        using laminar_encloses [OF ok lt(3) less lt(2,1)] not_popped [OF ok lt(3,2,1)] by simp_all
      moreover have "s_parent (T ! ?c) = Some current" "0 < ?c" using c child by blast+
      ultimately show False
        using ok(1) lt(2) less m(2) unfolding tree_ok_def parents_ok_def by (metis option.inject)
    qed
    then have "descend (Suc turns) T (children_of T) p current = descend turns T (children_of T) p m"
      using idx mc(3) by (simp add: Let_def)
    also have "\<dots> = last (m # filter (\<lambda>i. m < i) (containing T p))"
      using Suc.prems(2) m(2,3) by (intro Suc.IH) auto
    finally show ?thesis using Cons m(1) by simp
  qed
qed

text \<open>
  C24: Where the captured scopes nest or are disjoint, descending the scope tree finds the scope that
  a scan of all of them would: the last one in outer-first order that contains the byte, the
  root if none does. Every scope that contains the byte encloses it.
\<close>

theorem innermost_scope_correct:
  assumes "laminar (sc_byte_range ` set captures)"
  shows "let T = build_scope_tree r captures;
             hits = filter (\<lambda>i. contains (range_at T i) p) [1..<length T];
             s = innermost_scope_at T (children_of T) p
         in s = last (0 # hits) \<and> list_all (\<lambda>i. encloses (range_at T i) (range_at T s)) hits"
proof -
  let ?T = "build_scope_tree r captures"
  let ?hits = "containing ?T p"
  let ?s = "innermost_scope_at ?T (children_of ?T) p"
  have ok: "tree_ok ?T" "laminar (s_byte_range ` set (tl ?T))"
    using build_tree_ok [of r captures] laminar_subset [OF assms] by auto
  have s: "?s = last (0 # ?hits)"
    using descend_correct [OF ok, of 0 p "length ?T"] unfolding innermost_scope_at_def
    by (simp add: containing_def filter_filter) (metis (mono_tags, lifting) filter_cong atLeastLessThan_iff less_eq_Suc_le One_nat_def set_upt)
  have "encloses (range_at ?T i) (range_at ?T ?s)" if "i \<in> set ?hits" for i
  proof -
    have "?hits \<noteq> []" using that by auto
    then have last: "?s = last ?hits" "?s \<in> set ?hits" using s by simp_all
    have "i \<le> ?s"
      using that containing_sorted(1) [of ?T p] unfolding last(1)
      by (metis in_set_conv_nth last_conv_nth \<open>?hits \<noteq> []\<close> sorted_nth_mono diff_less length_greater_0_conv less_one Suc_pred' less_Suc_eq_le)
    moreover have "fst (range_at ?T ?s) < snd (range_at ?T i)"
      using that last(2) by (auto simp: containing_iff contains_def)
    ultimately show ?thesis
      using laminar_encloses [OF ok, of i ?s] that last(2) by (cases "i = ?s") (auto simp: containing_iff encloses_def)
  qed
  then show ?thesis using s by (simp add: Let_def containing_def list_all_iff)
qed

end
