(* ===== verification/Bindings_Laws.thy ===== *)
theory Bindings_Laws
  imports Bindings_Model Scope_Tree_Laws
begin

text \<open>
  The invariant of a bindings model under registration, the resolution walk as a search
  through a list of scopes and namespaces, and what navigation may rely on.
\<close>

section \<open>Loops outward\<close>

text \<open>The shape that registration leaves alone.\<close>

definition shape_ok :: "scope list \<Rightarrow> bool" where
  "shape_ok scopes \<longleftrightarrow>
     scopes \<noteq> [] \<and> s_parent (scopes ! 0) = None \<and>
     (\<forall>i < length scopes. case s_parent (scopes ! i) of Some q \<Rightarrow> q < i | None \<Rightarrow> True)"

lemma shape_parent: "shape_ok scopes \<Longrightarrow> s < length scopes \<Longrightarrow> s_parent (scopes ! s) = Some q \<Longrightarrow> q < s"
  by (force simp: shape_ok_def)

lemma build_shape: "shape_ok (build_scope_tree r captures)"
proof -
  have ok: "tree_ok (build_scope_tree r captures)" using build_tree_ok by blast
  have "case s_parent (build_scope_tree r captures ! i) of Some q \<Rightarrow> q < i | None \<Rightarrow> True"
    if "i < length (build_scope_tree r captures)" for i
    using ok that by (cases "i = 0") (auto simp: tree_ok_def parents_ok_def hd_conv_nth)
  moreover have "hd (build_scope_tree r captures) = build_scope_tree r captures ! 0"
    using ok by (simp add: tree_ok_def hd_conv_nth)
  ultimately show ?thesis using ok by (simp add: shape_ok_def tree_ok_def)
qed

text \<open>What a loop outward finds satisfies its test; more turns than the index of its start change nothing.\<close>

lemma find_outward_found:
  assumes "find_outward turns scopes test current = Some s" "shape_ok scopes" "\<forall>c. current = Some c \<longrightarrow> c < length scopes"
  shows "test s \<and> s < length scopes"
  using assms
proof (induction turns scopes test current rule: find_outward.induct)
  case (3 turns scopes test s')
  show ?case
  proof (cases "test s'")
    case False
    then show ?thesis using 3 shape_parent [of scopes s'] by (auto intro: order_less_trans)
  qed (use 3 in simp)
qed auto

lemma find_outward_turns:
  assumes "shape_ok scopes" "s < length scopes" "s < turns" "s < turns'"
  shows "find_outward turns scopes test (Some s) = find_outward turns' scopes test (Some s)"
  using assms(2-4)
proof (induction s arbitrary: turns turns' rule: less_induct)
  case (less s)
  obtain n where n1: "turns = Suc n" using less.prems(2) by (cases turns) simp_all
  obtain n' where n2: "turns' = Suc n'" using less.prems(3) by (cases turns') simp_all
  note n = n1 n2
  show ?case
  proof (cases "s_parent (scopes ! s)")
    case (Some q)
    then have "q < s" using shape_parent [OF assms(1)] less.prems(1) by blast
    then have "find_outward n scopes test (Some q) = find_outward n' scopes test (Some q)"
      by (rule less.IH) (use \<open>q < s\<close> less.prems n in simp_all)
    then show ?thesis using Some by (simp add: n)
  qed (simp add: n)
qed

lemma walk_turns:
  assumes "shape_ok (m_scopes m)" "s < length (m_scopes m)" "s < turns" "s < turns'"
  shows "walk turns m (Some s) innermost name active p = walk turns' m (Some s) innermost name active p"
  using assms(2-4)
proof (induction s arbitrary: turns turns' innermost active rule: less_induct)
  case (less s)
  obtain n where n1: "turns = Suc n" using less.prems(2) by (cases turns) simp_all
  obtain n' where n2: "turns' = Suc n'" using less.prems(3) by (cases turns') simp_all
  note n = n1 n2
  have eq: "walk n m (s_parent (m_scopes m ! s)) False name active p =
      walk n' m (s_parent (m_scopes m ! s)) False name active p" for active
  proof (cases "s_parent (m_scopes m ! s)")
    case (Some q)
    then have "q < s" using shape_parent [OF assms(1)] less.prems(1) by blast
    then show ?thesis unfolding Some
      by (rule less.IH) (use \<open>q < s\<close> less.prems n in simp_all)
  qed simp
  show ?case by (simp add: n Let_def eq split: option.split inherits.split)
qed

section \<open>The walk as a search\<close>

fun gate :: "inherits \<Rightarrow> string list \<Rightarrow> string list" where
  "gate Inherit_All active = active"
| "gate Inherit_None active = []"
| "gate (Inherit_Namespaces kept) active = filter (\<lambda>ns. ns \<in> set kept) active"

text \<open>
  The pairs of a scope and a namespace that a lookup consults, in order: scopes from the inside
  out, hidden ones left out, and with the namespaces that every scope on the way lets pass.
\<close>

fun consulted :: "nat \<Rightarrow> scope list \<Rightarrow> nat option \<Rightarrow> bool \<Rightarrow> string list \<Rightarrow> (nat \<times> string) list" where
  "consulted turns scopes None innermost active = []"
| "consulted 0 scopes (Some s) innermost active = []"
| "consulted (Suc turns) scopes (Some s) innermost active =
     (if innermost \<or> s_visible_to_nested (scopes ! s) then map (Pair s) active else []) @
     consulted turns scopes (s_parent (scopes ! s)) False (gate (s_inherits (scopes ! s)) active)"

lemma first_in_append:
  "first_in f (xs @ ys) = (case first_in f xs of Some y \<Rightarrow> Some y | None \<Rightarrow> first_in f ys)"
  by (induction xs) (auto split: option.split)

lemma first_in_map: "first_in f (map g xs) = first_in (\<lambda>x. f (g x)) xs"
  by (induction xs) (auto split: option.split)

lemma first_in_Some: "first_in f xs = Some y \<Longrightarrow> \<exists>x \<in> set xs. f x = Some y"
  by (induction xs) (auto split: option.splits)

lemma consulted_none: "consulted turns scopes current innermost [] = []"
proof (induction turns arbitrary: current innermost)
  case (Suc turns)
  have "gate i [] = []" for i by (cases i) simp_all
  then show ?case using Suc by (cases current) simp_all
qed (case_tac current, simp_all)

lemma walk_consults:
  "walk turns m current innermost name active p =
     first_in (\<lambda>(s, ns). select_in_scope m s name ns p) (consulted turns (m_scopes m) current innermost active)"
proof (induction turns m current innermost name active p rule: walk.induct)
  case (3 turns m s innermost name active p)
  show ?case
  proof (cases "s_inherits (m_scopes m ! s)")
    case Inherit_None
    then show ?thesis
      by (simp add: Let_def first_in_append first_in_map consulted_none split: option.split)
  next
    case (Inherit_Namespaces kept)
    then show ?thesis
      using 3 by (auto simp: Let_def first_in_append first_in_map consulted_none split: option.split)
  next
    case Inherit_All
    then show ?thesis using 3 by (auto simp: Let_def first_in_append first_in_map split: option.split)
  qed
qed simp_all

text \<open>The scopes on the way out from a scope, itself first.\<close>

inductive outward :: "scope list \<Rightarrow> nat \<Rightarrow> nat \<Rightarrow> bool" for scopes where
  here: "outward scopes s s"
| step: "s_parent (scopes ! s) = Some q \<Longrightarrow> outward scopes q t \<Longrightarrow> outward scopes s t"

lemma consulted_outward:
  assumes "(t, ns) \<in> set (consulted turns scopes (Some s) innermost active)"
  shows "outward scopes s t \<and> ns \<in> set active"
  using assms
proof (induction turns scopes "Some s" innermost active arbitrary: s rule: consulted.induct)
  case (3 turns scopes s innermost active)
  have sub: "ns \<in> set active" if "ns \<in> set (gate i active)" for i using that by (cases i) auto
  show ?case
  proof (cases "s_parent (scopes ! s)")
    case (Some q)
    then show ?thesis using 3 sub by (auto split: if_splits intro: outward.intros)
  qed (use 3 in \<open>auto split: if_splits intro: outward.intros\<close>)
qed simp

lemma outward_bound: "outward scopes s t \<Longrightarrow> shape_ok scopes \<Longrightarrow> s < length scopes \<Longrightarrow> t < length scopes"
  by (induction rule: outward.induct) (auto dest: shape_parent)

section \<open>Registration\<close>

definition registered :: "bindings_model \<Rightarrow> nat \<Rightarrow> string \<Rightarrow> string \<Rightarrow> nat list" where
  "registered m s name ns = (case bound_ids (m_scopes m ! s) name ns of Some ids \<Rightarrow> ids | None \<Rightarrow> [])"

text \<open>
  Every binding has a site and is registered under exactly one name in one namespace of one
  scope, and every number in a scope is one of a binding.
\<close>

definition model_ok :: "bindings_model \<Rightarrow> bool" where
  "model_ok m \<longleftrightarrow>
     shape_ok (m_scopes m) \<and> [] \<notin> set (m_bindings m) \<and>
     (\<forall>s name ns i. s < length (m_scopes m) \<and> i \<in> set (registered m s name ns) \<longrightarrow> i < length (m_bindings m)) \<and>
     (\<forall>i < length (m_bindings m). \<exists>!key. fst key < length (m_scopes m) \<and>
        i \<in> set (registered m (fst key) (fst (snd key)) (snd (snd key))))"

lemma max_last_None [simp]: "max_last key xs = None \<longleftrightarrow> xs = []"
proof (cases xs)
  case (Cons a ys)
  have "max_last key (a # ys) \<noteq> None" by (cases "max_last key ys") simp_all
  then show ?thesis using Cons by simp
qed simp

lemma max_last_Some:
  "max_last key xs = Some x \<Longrightarrow> x \<in> set xs \<and> (\<forall>y \<in> set xs. key y \<le> key x)"
proof (induction xs arbitrary: x)
  case (Cons a xs)
  show ?case
  proof (cases "max_last key xs")
    case None
    then show ?thesis using Cons.prems by simp
  next
    case (Some b)
    then show ?thesis using Cons.IH [OF Some] Cons.prems by (fastforce split: if_splits)
  qed
qed simp

lemma best_start_Some:
  "best_start sites p = Some b \<Longrightarrow> \<exists>s \<in> set sites. visibility_start s \<le> p"
  unfolding best_start_def by (drule max_last_Some) auto

lemma select_Some:
  assumes "select_in_scope m s name ns p = Some i"
  shows "i \<in> set (registered m s name ns) \<and> (\<exists>t \<in> set (m_bindings m ! i). visibility_start t \<le> p)"
proof -
  obtain ids where ids: "bound_ids (m_scopes m ! s) name ns = Some ids"
    using assms by (auto simp: select_in_scope_def split: option.splits)
  let ?cands = "List.map_filter (\<lambda>i. map_option (\<lambda>best. (best, i)) (best_start (m_bindings m ! i) p)) ids"
  obtain b where "max_last fst ?cands = Some (b, i)"
    using assms ids by (auto simp: select_in_scope_def)
  from max_last_Some [OF this] have "(b, i) \<in> set ?cands" by (rule conjunct1)
  then have "i \<in> set ids" "best_start (m_bindings m ! i) p = Some b"
    by (auto simp: List.map_filter_def)
  then show ?thesis using ids best_start_Some by (simp add: registered_def)
qed

text \<open>A lookup finds a binding of the name, in a scope on the way out, that is visible.\<close>

lemma walk_from_Some:
  assumes "walk_from m s innermost name namespaces p = Some i"
  shows "\<exists>t ns. outward (m_scopes m) s t \<and> ns \<in> set namespaces \<and> i \<in> set (registered m t name ns) \<and>
    (\<exists>site \<in> set (m_bindings m ! i). visibility_start site \<le> p)"
proof -
  obtain t ns where tn: "(t, ns) \<in> set (consulted (length (m_scopes m)) (m_scopes m) (Some s) innermost namespaces)"
    "select_in_scope m t name ns p = Some i"
    using assms first_in_Some unfolding walk_from_def walk_consults by fastforce
  then show ?thesis using consulted_outward select_Some by blast
qed

lemma bound_add_binding:
  "bound_ids (add_binding name ns i s) name' ns' =
     (if (name', ns') = (name, ns)
      then Some ((case bound_ids s name ns of Some ids \<Rightarrow> ids | None \<Rightarrow> []) @ [i])
      else bound_ids s name' ns')"
  by (auto simp: add_binding_def bound_ids_def split: option.splits)

lemma add_binding_parent [simp]: "s_parent (add_binding name ns i s) = s_parent s"
  by (simp add: add_binding_def split: option.split)

lemma shape_update:
  assumes "shape_ok scopes" "s_parent s' = s_parent (scopes ! i)"
  shows "shape_ok (scopes[i := s'])"
proof -
  have "s_parent (scopes[i := s'] ! j) = s_parent (scopes ! j)" if "j < length scopes" for j
    using assms(2) that by (cases "i = j") simp_all
  then show ?thesis using assms(1) by (auto simp: shape_ok_def)
qed

lemma register_into_scopes:
  "length (m_scopes (register_into m target def rb)) = length (m_scopes m) \<and>
   m_children (register_into m target def rb) = m_children m \<and>
   m_references (register_into m target def rb) = m_references m"
  by (simp add: register_into_def Let_def split: option.split)

lemma chosen_binding:
  assumes ok: "model_ok m" and t: "target < length (m_scopes m)"
    and c: "select_in_scope m target name ns p = Some i \<or> walk_from m target True name [ns] p = Some i"
  shows "i < length (m_bindings m)"
proof -
  obtain s name' ns' where "s < length (m_scopes m)" "i \<in> set (registered m s name' ns')"
    using c select_Some [of m target name ns p i] walk_from_Some [of m target True name "[ns]" p i] t
      outward_bound ok unfolding model_ok_def by blast
  then show ?thesis using ok unfolding model_ok_def by blast
qed

lemma register_into_ok:
  assumes ok: "model_ok m" and t: "target < length (m_scopes m)"
  shows "model_ok (register_into m target def rb)"
proof -
  let ?site = "\<lparr>site_byte_range = d_byte_range def, visibility_start = visibility_from (m_scopes m ! target) def\<rparr>"
  let ?n = "length (m_bindings m)" and ?name = "d_name def" and ?ns = "d_namespace def"
  consider i where "i < ?n" "register_into m target def rb = m\<lparr>m_bindings := (m_bindings m)[i := m_bindings m ! i @ [?site]]\<rparr>"
    | "register_into m target def rb = m\<lparr>m_bindings := m_bindings m @ [[?site]],
         m_scopes := (m_scopes m)[target := add_binding ?name ?ns ?n (m_scopes m ! target)]\<rparr>"
  proof -
    let ?p = "fst (d_byte_range def)"
    define c where "c = (case rb of Rebind_Fresh \<Rightarrow> None | Rebind_Merge \<Rightarrow> select_in_scope m target ?name ?ns ?p
      | Rebind_Outer_Or_Local \<Rightarrow> (case walk_from m target True ?name [?ns] ?p of
           Some i \<Rightarrow> Some i | None \<Rightarrow> select_in_scope m target ?name ?ns ?p))"
    have "select_in_scope m target ?name ?ns ?p = Some i \<or> walk_from m target True ?name [?ns] ?p = Some i" if "c = Some i" for i
      using that by (auto simp: c_def split: rebind.splits option.splits)
    then have "i < ?n" if "c = Some i" for i using that chosen_binding [OF ok t] by blast
    then show ?thesis
      using that by (cases c) (auto simp: register_into_def Let_def c_def [symmetric])
  qed
  then show ?thesis
  proof cases
    case (1 i)
    have "registered (m\<lparr>m_bindings := b\<rparr>) s name ns = registered m s name ns" for b s name ns
      by (simp add: registered_def)
    then show ?thesis using ok 1(1) unfolding 1(2) model_ok_def
      by (auto simp: in_set_conv_nth nth_list_update)
  next
    case 2
    let ?m = "register_into m target def rb"
    have reg: "registered ?m s name ns =
        registered m s name ns @ (if (s, name, ns) = (target, ?name, ?ns) then [?n] else [])"
      if "s < length (m_scopes m)" for s name ns
      using that t by (cases "s = target") (auto simp: 2 registered_def bound_add_binding split: option.split)
    have old: "?n \<notin> set (registered m s name ns)" if "s < length (m_scopes m)" for s name ns
      using ok that unfolding model_ok_def by blast
    have len: "length (m_scopes ?m) = length (m_scopes m)" "length (m_bindings ?m) = Suc ?n" by (simp_all add: 2)
    show ?thesis unfolding model_ok_def
    proof (intro conjI)
      show "shape_ok (m_scopes ?m)" using ok by (simp add: 2 model_ok_def shape_update)
      show "[] \<notin> set (m_bindings ?m)" using ok by (simp add: 2 model_ok_def)
      show "\<forall>s name ns i. s < length (m_scopes ?m) \<and> i \<in> set (registered ?m s name ns) \<longrightarrow> i < length (m_bindings ?m)"
        using ok reg unfolding model_ok_def len by (fastforce simp: less_Suc_eq split: if_splits)
      show "\<forall>i < length (m_bindings ?m). \<exists>!key. fst key < length (m_scopes ?m) \<and>
          i \<in> set (registered ?m (fst key) (fst (snd key)) (snd (snd key)))"
      proof (intro allI impI)
        fix i assume i: "i < length (m_bindings ?m)"
        show "\<exists>!key. fst key < length (m_scopes ?m) \<and> i \<in> set (registered ?m (fst key) (fst (snd key)) (snd (snd key)))"
        proof (cases "i = ?n")
          case True
          show ?thesis unfolding len True
            by (rule ex1I [of _ "(target, ?name, ?ns)"]) (use t old reg in \<open>auto split: if_splits\<close>)
        next
          case False
          then have "i < ?n" using i len by simp
          moreover have "i \<in> set (registered ?m s name ns) \<longleftrightarrow> i \<in> set (registered m s name ns)"
            if "s < length (m_scopes m)" for s name ns using reg [OF that] False by auto
          ultimately show ?thesis using ok unfolding model_ok_def len by (metis (no_types, lifting))
        qed
      qed
    qed
  qed
qed

lemma position_of_less: "position_of P xs = Some i \<Longrightarrow> i < length xs \<and> P (xs ! i)"
  by (induction xs arbitrary: i) (auto split: if_splits)

lemma parent_bound:
  "shape_ok scopes \<Longrightarrow> s < length scopes \<Longrightarrow> \<forall>c. s_parent (scopes ! s) = Some c \<longrightarrow> c < length scopes"
  by (auto dest: shape_parent)

lemma resolve_redirect_bound:
  assumes "resolve_redirect_target scopes c target key = Some s" "shape_ok scopes" "c < length scopes"
  shows "s < length scopes"
  using assms find_outward_found [OF _ assms(2) parent_bound [OF assms(2,3)]]
  by (auto simp: resolve_redirect_target_def nearest_labeled_ancestor_def shape_ok_def split: redirect_target.splits)

lemma resolve_scope_bound:
  assumes "resolve_scope_target scopes c def = Some s" "shape_ok scopes" "c < length scopes"
  shows "s < length scopes"
  using assms(1)
proof (cases "d_scope_target def")
  case (Target_Label label)
  then show ?thesis
    using assms(1) position_of_less by (auto simp: resolve_scope_target_def scope_by_range_def split: option.splits)
next
  case (Target_Nearest label)
  have "\<forall>d. Some c = Some d \<longrightarrow> d < length scopes" using assms(3) by simp
  then show ?thesis
    using assms Target_Nearest find_outward_found [OF _ assms(2)]
    by (fastforce simp: resolve_scope_target_def shape_ok_def split: option.splits)
qed (use assms parent_bound [OF assms(2,3)] in \<open>auto simp: resolve_scope_target_def shape_ok_def split: option.splits\<close>)

text \<open>What registration leaves of the scopes: everything but their bindings and redirects.\<close>

definition skeleton :: "scope \<Rightarrow> scope" where
  "skeleton s = s\<lparr>s_bindings := Map.empty, s_redirects := Map.empty\<rparr>"

lemma skeleton_range: "s_byte_range (skeleton s) = s_byte_range s"
  by (simp add: skeleton_def)

lemma skeleton_add_binding [simp]: "skeleton (add_binding name ns i s) = skeleton s"
  by (simp add: skeleton_def add_binding_def split: option.split)

definition built_on :: "collection \<Rightarrow> bindings_model \<Rightarrow> bool" where
  "built_on c m \<longleftrightarrow>
     model_ok m \<and> m_references m = c_references c \<and>
     m_children m = children_of (build_scope_tree (root_byte_range c) (c_scopes c)) \<and>
     map skeleton (m_scopes m) = map skeleton (build_scope_tree (root_byte_range c) (c_scopes c))"

lemma map_update_same: "f y = f (xs ! i) \<Longrightarrow> map f (xs[i := y]) = map f xs"
  by (metis list_update_beyond list_update_id map_update not_le)

lemma register_into_built:
  assumes "built_on c m" "target < length (m_scopes m)"
  shows "built_on c (register_into m target def rb)"
proof -
  have "map skeleton (m_scopes (register_into m target def rb)) = map skeleton (m_scopes m)"
    by (simp add: register_into_def Let_def map_update_same split: option.split)
  then show ?thesis
    using assms register_into_ok register_into_scopes unfolding built_on_def by simp
qed

lemma register_built:
  assumes "built_on c m" "s < length (m_scopes m)"
  shows "built_on c (register s def m)"
proof -
  have "shape_ok (m_scopes m)" using assms(1) by (simp add: built_on_def model_ok_def)
  then show ?thesis
    using assms register_into_built resolve_redirect_bound resolve_scope_bound
    by (simp add: register_def Let_def split: option.split)
qed

lemma add_redirect_built:
  assumes "built_on c m"
  shows "built_on c (add_redirect x m)"
proof -
  obtain i s' where m: "add_redirect x m = m\<lparr>m_scopes := (m_scopes m)[i := s']\<rparr>"
    and s': "s_parent s' = s_parent (m_scopes m ! i)" "skeleton s' = skeleton (m_scopes m ! i)"
      "s_bindings s' = s_bindings (m_scopes m ! i)"
    by (auto simp: add_redirect_def Let_def skeleton_def split: option.splits)
  have "bound_ids ((m_scopes m)[i := s'] ! j) name ns = bound_ids (m_scopes m ! j) name ns" for j name ns
    using s'(3) by (cases "i = j"; cases "i < length (m_scopes m)") (simp_all add: bound_ids_def list_update_beyond)
  then have "registered (add_redirect x m) j name ns = registered m j name ns" for j name ns
    by (simp add: m registered_def)
  then have "model_ok (add_redirect x m)"
    using assms s'(1) by (simp add: built_on_def model_ok_def m shape_update)
  then show ?thesis using assms s'(2) by (simp add: built_on_def m map_update_same)
qed

lemma built_length: "built_on c m \<Longrightarrow> length (m_scopes m) = length (build_scope_tree (root_byte_range c) (c_scopes c))"
  unfolding built_on_def by (metis length_map)

lemma fold_built:
  assumes "built_on c m" "\<And>x m. x \<in> set xs \<Longrightarrow> built_on c m \<Longrightarrow> built_on c (f x m)"
  shows "built_on c (fold f xs m)"
  using assms by (induction xs arbitrary: m) simp_all

lemma nest_bindings:
  "s \<in> set (nest ss ancestors scopes) \<Longrightarrow> \<exists>t \<in> set (scopes @ ss). s_bindings s = s_bindings t"
proof (induction ss ancestors scopes rule: nest.induct)
  case (2 s' deduped ancestors scopes)
  then show ?case by (fastforce simp: Let_def)
qed auto

lemma dedupe_bindings:
  assumes "dedupe captures (root, ds, b) = (root', ds', b')" "\<forall>s \<in> insert root (set ds). s_bindings s = Map.empty"
    "\<forall>r i. b r = Some i \<longrightarrow> i < length ds"
  shows "\<forall>s \<in> insert root' (set ds'). s_bindings s = Map.empty"
  using assms
proof (induction captures arbitrary: root ds b)
  case (Cons c captures)
  have absorb: "s_bindings (absorb c s) = s_bindings s" for s by (simp add: absorb_def)
  consider "sc_byte_range c = s_byte_range root"
    | i where "sc_byte_range c \<noteq> s_byte_range root" "b (sc_byte_range c) = Some i"
    | "sc_byte_range c \<noteq> s_byte_range root" "b (sc_byte_range c) = None" by blast
  then show ?case
  proof cases
    case 1
    then show ?thesis using Cons.IH [of "absorb c root" ds b] Cons.prems absorb by simp
  next
    case (2 i)
    then have "i < length ds" using Cons.prems(3) by blast
    then have "\<forall>s \<in> set (ds[i := absorb c (ds ! i)]). s_bindings s = Map.empty"
      using Cons.prems(2) absorb set_update_subset_insert by fastforce
    then show ?thesis using Cons.IH [of root "ds[i := absorb c (ds ! i)]" b] Cons.prems 2 by simp
  next
    case 3
    have "\<forall>r i. (b(sc_byte_range c \<mapsto> length ds)) r = Some i \<longrightarrow> i < length (ds @ [fresh_scope c])"
      using Cons.prems(3) by (auto simp: less_Suc_eq simp del: split_paired_All)
    moreover have "dedupe captures (root, ds @ [fresh_scope c], b(sc_byte_range c \<mapsto> length ds)) = (root', ds', b')"
      using Cons.prems(1) 3 by simp
    moreover have "\<forall>s \<in> insert root (set (ds @ [fresh_scope c])). s_bindings s = Map.empty"
      using Cons.prems(2) by (simp add: fresh_scope_def)
    ultimately show ?thesis by (intro Cons.IH)
  qed
qed simp

lemma tree_unbound:
  assumes "s \<in> set (build_scope_tree r captures)"
  shows "s_bindings s = Map.empty"
proof -
  obtain root ds b where d: "dedupe captures (root_scope r, [], Map.empty) = (root, ds, b)" by (metis prod.exhaust)
  then have "\<forall>s \<in> insert root (set ds). s_bindings s = Map.empty"
    by (rule dedupe_bindings) (simp_all add: root_scope_def)
  moreover have "\<exists>t \<in> set ([root] @ sort_key outer_first ds). s_bindings s = s_bindings t"
    using assms unfolding build_scope_tree_def d by (intro nest_bindings) simp
  ultimately show ?thesis by auto
qed

lemma build_model_built: "built_on c (build_model c)"
proof -
  let ?T = "build_scope_tree (root_byte_range c) (c_scopes c)"
  let ?m0 = "\<lparr>m_scopes = ?T, m_children = children_of ?T, m_bindings = [], m_references = c_references c\<rparr>"
  have none: "registered ?m0 s name ns = []" if "s < length ?T" for s name ns
    using tree_unbound [OF nth_mem [OF that]] by (simp add: registered_def bound_ids_def)
  then have "model_ok ?m0" using build_shape unfolding model_ok_def by simp
  then have "built_on c ?m0" by (simp add: built_on_def)
  then have m: "built_on c (fold add_redirect (c_redirects c) ?m0)" by (rule fold_built) (rule add_redirect_built)
  show ?thesis
    unfolding build_model_def Let_def
  proof (rule fold_built [OF m])
    fix s m'
    assume s: "s \<in> set (sort_key (\<lambda>s. (s_depth (m_scopes (fold add_redirect (c_redirects c) ?m0) ! s),
        fst (s_byte_range (m_scopes (fold add_redirect (c_redirects c) ?m0) ! s))))
        [0..<length (m_scopes (fold add_redirect (c_redirects c) ?m0))])" and m': "built_on c m'"
    have s: "s < length ?T" using s built_length [OF m] by simp
    show "built_on c (fold (register s) (sort_key (\<lambda>def. fst (d_byte_range def))
        (filter (\<lambda>def. innermost_scope_at (m_scopes (fold add_redirect (c_redirects c) ?m0))
           (m_children (fold add_redirect (c_redirects c) ?m0)) (fst (d_byte_range def)) = s) (c_definitions c))) m')"
      using m' by (rule fold_built) (use s built_length register_built in simp)
  qed
qed

text \<open>Registration does not move the innermost scope, and it is always a scope of the model.\<close>

lemma descend_same:
  assumes "length A = length B" "\<And>i. i < length B \<Longrightarrow> s_byte_range (A ! i) = s_byte_range (B ! i)"
    "\<And>q c. q < length B \<Longrightarrow> c \<in> set (children ! q) \<Longrightarrow> c < length B" "current < length B"
  shows "descend turns A children p current = descend turns B children p current \<and>
    descend turns B children p current < length B"
  using assms(4)
proof (induction turns arbitrary: current)
  case (Suc turns)
  let ?cs = "children ! current"
  let ?idx = "\<lambda>S. partition_point (\<lambda>c. fst (s_byte_range (S ! c)) \<le> p) ?cs"
  have below: "c < length B" if "c \<in> set ?cs" for c using assms(3) Suc.prems that by blast
  then have same: "?idx A = ?idx B"
    unfolding partition_point_def using assms(2) by (intro arg_cong [of _ _ length] takeWhile_cong) auto
  show ?case
  proof (cases "?idx B = 0")
    case False
    have "?idx B \<le> length ?cs" by (simp add: partition_point_def length_takeWhile_le)
    then have "?cs ! (?idx B - 1) \<in> set ?cs" using False by simp
    then have "?cs ! (?idx B - 1) < length B" by (rule below)
    then show ?thesis using Suc False same assms(2) by (simp add: Let_def)
  qed (use Suc.prems same in simp)
qed simp

lemma innermost_built:
  assumes "built_on c m"
  defines "T \<equiv> build_scope_tree (root_byte_range c) (c_scopes c)"
  shows "innermost_scope_at (m_scopes m) (m_children m) p = innermost_scope_at T (children_of T) p"
    "innermost_scope_at T (children_of T) p < length T"
proof -
  have ok: "tree_ok T" using build_tree_ok by (auto simp: T_def)
  have ranges: "s_byte_range (m_scopes m ! i) = s_byte_range (T ! i)" if "i < length T" for i
  proof -
    have "map skeleton (m_scopes m) ! i = map skeleton T ! i" using assms by (simp add: built_on_def)
    then have "skeleton (m_scopes m ! i) = skeleton (T ! i)" using that built_length [OF assms(1)] by (simp add: T_def)
    then show ?thesis by (metis skeleton_range)
  qed
  have kids: "d < length T" if "q < length T" "d \<in> set (children_of T ! q)" for q d
    using that children_nth [OF ok] by auto
  have zero: "0 < length T" using ok by (simp add: tree_ok_def)
  have len: "length (m_scopes m) = length T" using built_length [OF assms(1)] by (simp add: T_def)
  note same = descend_same [OF len ranges kids zero, of "children_of T"]
  show "innermost_scope_at (m_scopes m) (m_children m) p = innermost_scope_at T (children_of T) p"
    using same assms(1) len by (simp add: innermost_scope_at_def built_on_def T_def)
  show "innermost_scope_at T (children_of T) p < length T"
    using same by (simp add: innermost_scope_at_def)
qed

section \<open>What navigation relies on\<close>

text \<open>
  C37: However definitions are lifted, redirected and rebound, every binding of a built model has
  a definition site and is registered under exactly one name in one namespace of one scope, and
  the scopes are those of the tree with only bindings and redirects added, so that the
  innermost scope at a byte is still the one of the tree.
\<close>

theorem build_model_correct:
  "let m = build_model c; T = build_scope_tree (root_byte_range c) (c_scopes c)
   in [] \<notin> set (m_bindings m) \<and>
      list_all (\<lambda>i. \<exists>!key. fst key < length (m_scopes m) \<and>
          i \<in> set (registered m (fst key) (fst (snd key)) (snd (snd key)))) [0..<length (m_bindings m)] \<and>
      map skeleton (m_scopes m) = map skeleton T \<and>
      innermost_scope_at (m_scopes m) (m_children m) p = innermost_scope_at T (children_of T) p"
  using build_model_built [of c] innermost_built [OF build_model_built [of c]]
  by (simp add: built_on_def model_ok_def list_all_iff Let_def)

text \<open>
  A reference is resolved by searching, from its innermost scope outward, the namespaces that
  every scope on the way lets pass, and what it resolves to is a binding of its name, registered
  in one of its namespaces in an enclosing scope, with a site that is visible at the reference.
\<close>

lemma resolve_reference_correct:
  "let m = build_model c; p = fst (r_byte_range r);
       s = innermost_scope_at (m_scopes m) (m_children m) p;
       found = resolve_reference m r
   in found = first_in (\<lambda>(t, ns). select_in_scope m t (r_name r) ns p)
                (consulted (length (m_scopes m)) (m_scopes m) (Some s) True (r_namespaces r)) \<and>
      (case found of None \<Rightarrow> True
       | Some i \<Rightarrow> \<exists>t ns site. outward (m_scopes m) s t \<and> ns \<in> set (r_namespaces r) \<and>
           i \<in> set (registered m t (r_name r) ns) \<and> site \<in> set (m_bindings m ! i) \<and> visibility_start site \<le> p)"
proof -
  let ?m = "build_model c" and ?p = "fst (r_byte_range r)"
  let ?s = "innermost_scope_at (m_scopes ?m) (m_children ?m) ?p"
  have "resolve_reference ?m r = first_in (\<lambda>(t, ns). select_in_scope ?m t (r_name r) ns ?p)
      (consulted (length (m_scopes ?m)) (m_scopes ?m) (Some ?s) True (r_namespaces r))"
    by (simp add: resolve_reference_def Let_def walk_from_def walk_consults)
  moreover have "case resolve_reference ?m r of None \<Rightarrow> True
      | Some i \<Rightarrow> \<exists>t ns site. outward (m_scopes ?m) ?s t \<and> ns \<in> set (r_namespaces r) \<and>
          i \<in> set (registered ?m t (r_name r) ns) \<and> site \<in> set (m_bindings ?m ! i) \<and> visibility_start site \<le> ?p"
    using walk_from_Some [of ?m ?s True "r_name r" "r_namespaces r" ?p]
    unfolding resolve_reference_def Let_def by (fastforce split: option.split)
  ultimately show ?thesis unfolding Let_def by (rule conjI)
qed

definition starts_before :: "nat \<Rightarrow> site list \<Rightarrow> site list" where
  "starts_before p sites = filter (\<lambda>s. visibility_start s \<le> p \<and> fst (site_byte_range s) \<le> p) sites"

definition starts_after :: "nat \<Rightarrow> site list \<Rightarrow> site list" where
  "starts_after p sites = filter (\<lambda>s. visibility_start s \<le> p \<and> p < fst (site_byte_range s)) sites"

text \<open>The latest of the first sites, or the earliest of the second where there are none.\<close>

definition picks :: "site list \<Rightarrow> site list \<Rightarrow> site option \<Rightarrow> bool" where
  "picks before later found \<longleftrightarrow>
     (case found of
        None \<Rightarrow> before = [] \<and> later = []
      | Some s \<Rightarrow>
          if before \<noteq> [] then s \<in> set before \<and> (\<forall>t \<in> set before. fst (site_byte_range t) \<le> fst (site_byte_range s))
          else s \<in> set later \<and> (\<forall>t \<in> set later. fst (site_byte_range s) \<le> fst (site_byte_range t)))"

definition held :: "site option \<Rightarrow> site list" where
  "held found = (case found of Some s \<Rightarrow> [s] | None \<Rightarrow> [])"

lemma held_simps [simp]: "held None = []" "held (Some s) = [s]"
  by (simp_all add: held_def)

lemma starts_Cons:
  "starts_before p (s # sites) =
     (if visibility_start s \<le> p \<and> fst (site_byte_range s) \<le> p then [s] else []) @ starts_before p sites"
  "starts_after p (s # sites) =
     (if visibility_start s \<le> p \<and> p < fst (site_byte_range s) then [s] else []) @ starts_after p sites"
  by (simp_all add: starts_before_def starts_after_def)

lemma picks_later:
  assumes "picks (b # bs) as found" "fst (site_byte_range a) \<le> fst (site_byte_range b)"
  shows "picks (a # b # bs) as found" "picks (b # a # bs) as found"
  using assms by (auto simp: picks_def split: option.splits intro: order_trans)

lemma picks_earlier:
  assumes "picks bs (a # as) found" "fst (site_byte_range a) \<le> fst (site_byte_range b)"
  shows "picks bs (b # a # as) found" "picks bs (a # b # as) found"
  using assms by (auto simp: picks_def split: option.splits if_splits intro: order_trans)

lemma site_pass_picks:
  "picks (held best_before @ starts_before p sites) (held first_after @ starts_after p sites)
     (site_pass p sites best_before first_after)"
proof (induction sites arbitrary: best_before first_after)
  case Nil
  then show ?case
    by (auto simp: picks_def held_def starts_before_def starts_after_def split: option.split)
next
  case (Cons s sites)
  consider "p < visibility_start s" | "visibility_start s \<le> p" "fst (site_byte_range s) \<le> p"
    | "visibility_start s \<le> p" "p < fst (site_byte_range s)" by linarith
  then show ?case
  proof cases
    case 1
    then show ?thesis using Cons.IH by (simp add: starts_Cons)
  next
    case 2
    then show ?thesis
      using Cons.IH [of best_before first_after] Cons.IH [of "Some s" first_after]
      by (cases best_before) (auto simp: starts_Cons intro: picks_later)
  next
    case 3
    then show ?thesis
      using Cons.IH [of best_before first_after] Cons.IH [of best_before "Some s"]
      by (cases first_after) (auto simp: starts_Cons intro: picks_earlier)
  qed
qed

lemma site_for_picks:
  "picks (starts_before p (m_bindings m ! i)) (starts_after p (m_bindings m ! i)) (site_for m i p)"
  using site_pass_picks [of None p "m_bindings m ! i" None] by (simp add: site_for_def)

lemma reference_site:
  assumes "resolve_reference m r = Some i"
  shows "site_for m i (fst (r_byte_range r)) \<noteq> None"
proof -
  let ?p = "fst (r_byte_range r)"
  obtain s where "s \<in> set (m_bindings m ! i)" "visibility_start s \<le> ?p"
    using walk_from_Some assms unfolding resolve_reference_def Let_def by blast
  then have "s \<in> set (starts_before ?p (m_bindings m ! i)) \<or> s \<in> set (starts_after ?p (m_bindings m ! i))"
    by (auto simp: starts_before_def starts_after_def)
  then show ?thesis using site_for_picks [of ?p m i] by (auto simp: picks_def split: option.splits)
qed

text \<open>
  C25: The queries of an editor agree: a definition is offered, and a rename, exactly where the cursor
  identifies a binding. On a reference, the binding lists the reference among its uses, and the
  definition is a site that is visible there: the latest one that starts at or before the
  reference, or the earliest one where all of them start after it.
\<close>

theorem navigation_correct:
  "let m = build_model c
   in (definition_range_at m byte = None \<longleftrightarrow> binding_at m byte = None) \<and>
      (resolvable_identifier_at m byte = None \<longleftrightarrow> binding_at m byte = None) \<and>
      (case (site_containing m byte, reference_containing m byte, binding_at m byte) of
         (None, Some r, Some i) \<Rightarrow>
           r_byte_range r \<in> set (references_resolving_to m i) \<and>
           (\<exists>s. definition_range_at m byte = Some (site_byte_range s) \<and>
              picks (starts_before (fst (r_byte_range r)) (m_bindings m ! i))
                (starts_after (fst (r_byte_range r)) (m_bindings m ! i)) (Some s))
       | _ \<Rightarrow> True)"
proof -
  let ?m = "build_model c"
  show ?thesis
  proof (cases "site_containing ?m byte")
    case (Some found)
    then show ?thesis
      by (cases found) (simp add: definition_range_at_def resolvable_identifier_at_def binding_at_def Let_def)
  next
    case none: None
    show ?thesis
    proof (cases "Option.bind (reference_containing ?m byte) (resolve_reference ?m)")
      case None
      then show ?thesis
        using none by (cases "reference_containing ?m byte")
          (auto simp: definition_range_at_def resolvable_identifier_at_def binding_at_def Let_def)
    next
      case (Some i)
      then obtain r where r: "reference_containing ?m byte = Some r" "resolve_reference ?m r = Some i"
        by (auto simp: bind_eq_Some_conv)
      obtain s where s: "site_for ?m i (fst (r_byte_range r)) = Some s" using reference_site [OF r(2)] by blast
      have "r \<in> set (m_references ?m)" using r(1) by (auto simp: reference_containing_def find_Some_iff)
      then have "r_byte_range r \<in> set (references_resolving_to ?m i)"
        using r(2) by (auto simp: references_resolving_to_def)
      moreover have "definition_range_at ?m byte = Some (site_byte_range s)"
        using none r s by (simp add: definition_range_at_def)
      ultimately show ?thesis
        using none r s site_for_picks [of "fst (r_byte_range r)" ?m i]
        by (auto simp: resolvable_identifier_at_def binding_at_def Let_def)
    qed
  qed
qed

section \<open>A file with a function in it\<close>

text \<open>A name defined outside a function, twice in its body, and used in both places.\<close>

definition sample_def :: "nat \<Rightarrow> nat \<Rightarrow> definition_capture" where
  "sample_def a b = \<lparr>d_byte_range = (a, b), d_name = ''x'', d_namespace = ''value'', d_scope_target = Target_Local,
     d_visibility = Visible_Scope, d_rebind = Rebind_Merge, d_match_end = b, d_labeled_scopes = Map.empty\<rparr>"

definition sample_captures :: "scope_capture list" where
  "sample_captures =
     [\<lparr>sc_byte_range = (7, 30), sc_label = Some ''function'', sc_inherits = Inherit_All, sc_visible_to_nested = True\<rparr>,
      \<lparr>sc_byte_range = (12, 25), sc_label = None, sc_inherits = Inherit_All, sc_visible_to_nested = True\<rparr>,
      \<lparr>sc_byte_range = (7, 30), sc_label = None, sc_inherits = Inherit_All, sc_visible_to_nested = False\<rparr>]"

theorem innermost_scope_correct_witness:
  "innermost_scope_at (build_scope_tree (0, 40) sample_captures)
     (children_of (build_scope_tree (0, 40) sample_captures)) 20 = 2"
proof -
  let ?T = "build_scope_tree (0, 40) sample_captures"
  have lam: "laminar (sc_byte_range ` set sample_captures)"
    by (auto simp: laminar_def encloses_def sample_captures_def)
  have ranges: "map s_byte_range ?T = [(0, 40), (7, 30), (12, 25)]"
    by (simp add: build_scope_tree_def sample_captures_def root_scope_def fresh_scope_def absorb_def outer_first_def
        encloses_def Let_def)
  have len: "length ?T = 3" using arg_cong [OF ranges, of length] by simp
  have "range_at ?T i = map s_byte_range ?T ! i" if "i < 3" for i using that len by simp
  then have "range_at ?T 1 = (7, 30)" "range_at ?T 2 = (12, 25)" by (simp_all add: ranges)
  moreover have "[1..<length ?T] = [1, 2]" by (simp add: len upt_rec)
  ultimately have "filter (\<lambda>i. contains (range_at ?T i) 20) [1..<length ?T] = [1, 2]"
    by (simp add: contains_def)
  then show ?thesis
    using innermost_scope_correct [OF lam, of "(0, 40)" 20] by (simp add: Let_def)
qed

definition sample_collection :: collection where
  "sample_collection = \<lparr>root_byte_range = (0, 40), c_scopes = sample_captures,
     c_definitions = [sample_def 15 16, sample_def 0 1, sample_def 18 19],
     c_references = [\<lparr>r_byte_range = (22, 23), r_name = ''x'', r_namespaces = [''value'']\<rparr>,
                     \<lparr>r_byte_range = (33, 34), r_name = ''x'', r_namespaces = [''value'']\<rparr>],
     c_redirects = []\<rparr>"

lemma sample_navigation:
  "definition_range_at (build_model sample_collection) 22 = Some (18, 19)"
  "definition_range_at (build_model sample_collection) 33 = Some (0, 1)"
  by code_simp+

end
