(* ===== verification/Snapshot_Cell.thy ===== *)
theory Snapshot_Cell
  imports Rust_Str
begin

text \<open>
  \<open>document/snapshot.rs\<close>: the snapshot of a parse and the slot it is published in. An \<open>Arc\<close> is
  its address and its value; allocating one takes a fresh address. The lazily filled cell of
  layer trees is a cache of readers and absent; the records of regions are carried along unread.
\<close>

section \<open>Snapshots\<close>

definition closed_incarnation :: nat where
  "closed_incarnation = 2 ^ 64 - 1"

record 'r resolved_regions =
  rr_generation :: nat
  rr_bridge :: "'r list"
  rr_whole_document :: "'r list"

record ('t, 'r) parse_snapshot =
  ps_text :: rstr
  ps_tree :: "'t option"
  ps_language :: "string option"
  ps_parsed_version :: nat
  ps_incarnation :: nat
  ps_injection_regions :: "'r list option"
  ps_regions :: "'r resolved_regions option"

definition empty_regions :: "nat \<Rightarrow> 'r resolved_regions" where
  "empty_regions generation = \<lparr>rr_generation = generation, rr_bridge = [], rr_whole_document = []\<rparr>"

definition regions_for_generation :: "nat \<Rightarrow> ('t, 'r) parse_snapshot \<Rightarrow> 'r resolved_regions option" where
  "regions_for_generation generation s =
     (case ps_regions s of
        Some regions \<Rightarrow> if rr_generation regions = generation then Some regions else None
      | None \<Rightarrow> None)"

section \<open>The slot\<close>

type_synonym 'a arc = "nat \<times> 'a"

definition ptr_eq :: "'a arc \<Rightarrow> 'a arc \<Rightarrow> bool" where
  "ptr_eq a b \<longleftrightarrow> fst a = fst b"

record ('t, 'r) snapshot_slot =
  current_incarnation :: nat
  held :: "('t, 'r) parse_snapshot arc option"

definition bootstrap :: "nat \<Rightarrow> ('t, 'r) snapshot_slot" where
  "bootstrap incarnation = \<lparr>current_incarnation = incarnation, held = None\<rparr>"

definition closed_slot :: "('t, 'r) snapshot_slot" where
  "closed_slot = \<lparr>current_incarnation = closed_incarnation, held = None\<rparr>"

definition admits :: "('t, 'r) snapshot_slot \<Rightarrow> ('t, 'r) parse_snapshot \<Rightarrow> bool" where
  "admits slot s \<longleftrightarrow>
     ps_incarnation s \<noteq> closed_incarnation \<and>
     ps_incarnation s = current_incarnation slot \<and>
     (case held slot of
        None \<Rightarrow> True
      | Some (_, current) \<Rightarrow>
          (let tree_downgrade = ps_tree current \<noteq> None \<and> ps_tree s = None;
               tree_upgrade = ps_tree current = None \<and> ps_tree s \<noteq> None
           in (ps_parsed_version s > ps_parsed_version current \<and> \<not> tree_downgrade) \<or>
              (ps_parsed_version s = ps_parsed_version current \<and> tree_upgrade)))"

text \<open>The address is the one of the \<open>Arc\<close> that an enrichment allocates.\<close>

definition enrich_regions ::
  "nat \<Rightarrow> ('t, 'r) parse_snapshot arc \<Rightarrow> 'r resolved_regions \<Rightarrow> ('t, 'r) snapshot_slot \<Rightarrow>
     bool \<times> ('t, 'r) snapshot_slot" where
  "enrich_regions address expected regions slot =
     (if current_incarnation slot = closed_incarnation \<or>
         current_incarnation slot \<noteq> ps_incarnation (snd expected) \<or>
         ps_tree (snd expected) = None \<or>
         ps_regions (snd expected) \<noteq> None \<or>
         \<not> (case held slot of Some current \<Rightarrow> ptr_eq current expected | None \<Rightarrow> False)
      then (False, slot)
      else (True, slot\<lparr>held := Some (address, (snd expected)\<lparr>ps_regions := Some regions\<rparr>)\<rparr>))"

section \<open>What a slot goes through\<close>

text \<open>
  The rank of a slot: the version it parsed and whether there is a tree. A slot without a
  snapshot is below every rank.
\<close>

definition rank :: "('t, 'r) snapshot_slot \<Rightarrow> (nat \<times> bool) option" where
  "rank slot = map_option (\<lambda>(_, s). (ps_parsed_version s, ps_tree s \<noteq> None)) (held slot)"

definition rank_le :: "(nat \<times> bool) option \<Rightarrow> (nat \<times> bool) option \<Rightarrow> bool" where
  "rank_le a b \<longleftrightarrow>
     (case a of
        None \<Rightarrow> True
      | Some (v, t) \<Rightarrow>
          (case b of None \<Rightarrow> False | Some (v', t') \<Rightarrow> v < v' \<or> (v = v' \<and> (t \<longrightarrow> t'))))"

lemma rank_le_refl [simp, intro]: "rank_le a a"
  by (auto simp: rank_le_def split: option.splits)

lemma rank_le_None [simp]: "rank_le None b" "rank_le a None \<longleftrightarrow> a = None"
  by (auto simp: rank_le_def split: option.splits)

lemma rank_le_trans: "rank_le a b \<Longrightarrow> rank_le b c \<Longrightarrow> rank_le a c"
  by (auto simp: rank_le_def split: option.splits)

lemma rank_le_antisym: "rank_le a b \<Longrightarrow> rank_le b a \<Longrightarrow> a = b"
  by (auto simp: rank_le_def split: option.splits)

lemma rank_simps [simp]: "rank (bootstrap i) = None" "rank closed_slot = None"
  "held slot = None \<Longrightarrow> rank slot = None"
  by (simp_all add: rank_def bootstrap_def closed_slot_def)

lemma admits_rank:
  assumes "admits slot s"
  shows "rank_le (rank slot) (rank (slot\<lparr>held := Some (a, s)\<rparr>))"
    and "rank slot \<noteq> rank (slot\<lparr>held := Some (a, s)\<rparr>)"
  using assms by (auto simp: admits_def rank_def rank_le_def split: option.splits)

lemma closed_admits_nothing: "\<not> admits closed_slot s"
  by (simp add: admits_def closed_slot_def)

end
