(* ===== verification/Position_Mapper.thy ===== *)
theory Position_Mapper
  imports Position_Batch
begin

text \<open>
  \<open>PositionMapper\<close> of \<open>text/position.rs\<close>, over the line index of the \<open>line-index\<close> crate. The
  crate is a parameter: \<open>indexes\<close> states what it documents about the lines and offsets of a
  text. The mapper feeds it a text whose lone carriage returns are line feeds, and answers
  as the single pass of \<open>Position_Batch\<close> does.
\<close>

section \<open>The crate\<close>

record line_index =
  li_len :: nat
  li_line :: "u32 \<Rightarrow> (nat \<times> nat) option"
  li_to_utf8 :: "u32 \<times> u32 \<Rightarrow> (u32 \<times> u32) option"
  li_offset :: "u32 \<times> u32 \<Rightarrow> nat option"
  li_try_line_col :: "nat \<Rightarrow> (u32 \<times> u32) option"
  li_to_wide :: "u32 \<times> u32 \<Rightarrow> (u32 \<times> u32) option"

text \<open>Lines that end at LF: the part of a text up to and with the first LF, and what is left of it from its n-th line on.\<close>

fun upto_lf :: "rstr \<Rightarrow> rstr" where
  "upto_lf [] = []"
| "upto_lf (c # s) = (if c = LF then [LF] else c # upto_lf s)"

fun from_line :: "nat \<Rightarrow> rstr \<Rightarrow> rstr option" where
  "from_line 0 s = Some s"
| "from_line (Suc n) s = (if LF \<in> set s then from_line n (drop (length (upto_lf s)) s) else None)"

text \<open>The point after a text: its line feeds, and its bytes after the last of them.\<close>

definition point_after :: "rstr \<Rightarrow> nat \<times> nat" where
  "point_after p = (count_list p LF, blen (takeWhile (\<lambda>c. c \<noteq> LF) (rev p)))"

definition utf16_offset :: "line_index \<Rightarrow> u32 \<times> u32 \<Rightarrow> nat option" where
  "utf16_offset li p = Option.bind (li_to_utf8 li p) (li_offset li)"

text \<open>
  The documented behaviour, for texts whose offsets fit in \<open>u32\<close>: the length; the range of each
  line; the offset of a UTF-16 column at a character of its line, inside one, and past the
  line's end; and the line and column of an offset between characters.
\<close>

definition line_ranges :: "(rstr \<Rightarrow> line_index) \<Rightarrow> bool" where
  "line_ranges new \<longleftrightarrow> (\<forall>s n. blen s < 2 ^ 32 \<longrightarrow>
     li_len (new s) = blen s \<and>
     li_line (new s) n =
       map_option (\<lambda>t. (blen s - blen t, blen s - blen t + blen (upto_lf t))) (from_line (unat n) s))"

definition utf16_columns :: "(rstr \<Rightarrow> line_index) \<Rightarrow> bool" where
  "utf16_columns new \<longleftrightarrow> (\<forall>s n t c. blen s < 2 ^ 32 \<longrightarrow> unat c \<le> blen s \<longrightarrow> from_line (unat n) s = Some t \<longrightarrow>
     (let x = takeWhile (\<lambda>ch. ch \<noteq> LF) t;
          q = utake x (unat c);
          start = blen s - blen t
      in if ulen x < unat c then (case utf16_offset (new s) (n, c) of None \<Rightarrow> True | Some b \<Rightarrow> start + blen x \<le> b)
         else (\<exists>b. utf16_offset (new s) (n, c) = Some b \<and> start + blen q \<le> b \<and>
                   (if ulen q = unat c then b = start + blen q
                    else b < start + blen q + len_utf8 (x ! length q)))))"

definition points :: "(rstr \<Rightarrow> line_index) \<Rightarrow> bool" where
  "points new \<longleftrightarrow> (\<forall>p q. blen (p @ q) < 2 ^ 32 \<longrightarrow>
     map_option (\<lambda>(l, c). (unat l, unat c)) (li_try_line_col (new (p @ q)) (blen p)) = Some (point_after p))"

definition indexes :: "(rstr \<Rightarrow> line_index) \<Rightarrow> bool" where
  "indexes new \<longleftrightarrow> line_ranges new \<and> utf16_columns new \<and> points new"

section \<open>The mapper\<close>

fun normalize_lone_carriage_returns :: "rstr \<Rightarrow> rstr" where
  "normalize_lone_carriage_returns [] = []"
| "normalize_lone_carriage_returns (c # s) =
     (if c = CR \<and> \<not> starts_lf s then LF else c) # normalize_lone_carriage_returns s"

fun has_lone_cr :: "rstr \<Rightarrow> bool" where
  "has_lone_cr [] \<longleftrightarrow> False"
| "has_lone_cr (c # s) \<longleftrightarrow> (c = CR \<and> \<not> starts_lf s) \<or> has_lone_cr s"

record position_mapper =
  mp_line_index :: line_index
  mp_tree_line_index :: "line_index option"
  mp_text :: rstr

definition mapper_new :: "(rstr \<Rightarrow> line_index) \<Rightarrow> rstr \<Rightarrow> position_mapper" where
  "mapper_new new text =
     (let indexed_text = normalize_lone_carriage_returns text
      in \<lparr>mp_line_index = new indexed_text,
          mp_tree_line_index = (if has_lone_cr text then Some (new text) else None),
          mp_text = text\<rparr>)"

definition position_to_byte :: "position_mapper \<Rightarrow> lsp_pos_t \<Rightarrow> nat option" where
  "position_to_byte m p = utf16_offset (mp_line_index m) (pos_line p, pos_character p)"

definition strip_suffix :: "nat \<Rightarrow> rstr \<Rightarrow> rstr option" where
  "strip_suffix c s = (if s \<noteq> [] \<and> last s = c then Some (butlast s) else None)"

definition line_content :: "rstr \<Rightarrow> rstr" where
  "line_content line =
     (case strip_suffix LF line of
        Some line \<Rightarrow> (case strip_suffix CR line of Some content \<Rightarrow> content | None \<Rightarrow> line)
      | None \<Rightarrow> (case strip_suffix CR line of Some content \<Rightarrow> content | None \<Rightarrow> line))"

text \<open>Slicing the text at the range of a line may panic, which is \<open>None\<close>.\<close>

definition position_to_byte_clamped :: "position_mapper \<Rightarrow> lsp_pos_t \<Rightarrow> nat option" where
  "position_to_byte_clamped m p =
     (case li_line (mp_line_index m) (pos_line p) of
        Some (line_start, line_range_end) \<Rightarrow>
          (case str_get (mp_text m) line_start line_range_end of
             None \<Rightarrow> None
           | Some line \<Rightarrow>
               (let content = line_content line;
                    line_end = line_start + blen content;
                    character = min (pos_character p) (u32_try_from (blen content));
                    byte = min (case position_to_byte m \<lparr>pos_line = pos_line p, pos_character = character\<rparr> of
                                  Some b \<Rightarrow> b | None \<Rightarrow> line_end) line_end
                in Some (floor_char_boundary (mp_text m) byte)))
      | None \<Rightarrow> Some (li_len (mp_line_index m)))"

definition byte_to_position :: "position_mapper \<Rightarrow> nat \<Rightarrow> lsp_pos_t option" where
  "byte_to_position m offset =
     (if offset < 2 ^ 32
      then Option.bind (li_try_line_col (mp_line_index m) offset) (\<lambda>line_col.
             map_option (\<lambda>(l, c). \<lparr>pos_line = l, pos_character = c\<rparr>) (li_to_wide (mp_line_index m) line_col))
      else None)"

definition position_to_byte_strict :: "position_mapper \<Rightarrow> lsp_pos_t \<Rightarrow> nat option" where
  "position_to_byte_strict m p =
     Option.bind (position_to_byte m p) (\<lambda>byte.
       Option.bind (byte_to_position m byte) (\<lambda>back. if back = p then Some byte else None))"

definition byte_to_point :: "position_mapper \<Rightarrow> nat \<Rightarrow> nat \<times> nat" where
  "byte_to_point m offset =
     (let li = (case mp_tree_line_index m of Some t \<Rightarrow> t | None \<Rightarrow> mp_line_index m);
          offset = min offset (li_len li)
      in case (if offset < 2 ^ 32 then li_try_line_col li offset else None) of
           Some (l, c) \<Rightarrow> (unat l, unat c)
         | None \<Rightarrow> (0, 0))"

section \<open>Lines of the normalised text\<close>

lemma blen_normalize [simp]: "blen (normalize_lone_carriage_returns s) = blen s"
  by (induction s) (auto simp: len_utf8_def)

lemma length_normalize [simp]: "length (normalize_lone_carriage_returns s) = length s"
  by (induction s) auto

lemma drop_normalize: "drop n (normalize_lone_carriage_returns s) = normalize_lone_carriage_returns (drop n s)"
  by (induction s arbitrary: n) (auto simp: drop_Cons split: nat.splits)

lemma normalize_id: "\<not> has_lone_cr s \<Longrightarrow> normalize_lone_carriage_returns s = s"
  by (induction s) auto

text \<open>The same lines in the text itself.\<close>

fun raw_from :: "nat \<Rightarrow> rstr \<Rightarrow> rstr option" where
  "raw_from 0 s = Some s"
| "raw_from (Suc n) s =
     (if LF \<in> set (normalize_lone_carriage_returns s)
      then raw_from n (drop (length (upto_lf (normalize_lone_carriage_returns s))) s) else None)"

lemma from_line_normalize:
  "from_line n (normalize_lone_carriage_returns s) = map_option normalize_lone_carriage_returns (raw_from n s)"
  by (induction n s rule: raw_from.induct) (simp_all add: drop_normalize)

lemma raw_from_suffix: "raw_from n s = Some t \<Longrightarrow> \<exists>p. s = p @ t"
proof (induction n s rule: raw_from.induct)
  case (2 n s)
  then obtain p where "drop (length (upto_lf (normalize_lone_carriage_returns s))) s = p @ t"
    by (auto split: if_splits)
  then have "s = (take (length (upto_lf (normalize_lone_carriage_returns s))) s @ p) @ t"
    by (metis append_assoc append_take_drop_id)
  then show ?case by blast
qed simp

lemma upto_lf_take: "upto_lf s = take (length (upto_lf s)) s"
  by (induction s) auto

lemma take_normalize_blen: "blen (take k (normalize_lone_carriage_returns s)) = blen (take k s)"
proof -
  have "blen (take k (normalize_lone_carriage_returns s)) + blen (drop k (normalize_lone_carriage_returns s))
    = blen (take k s) + blen (drop k s)"
    by (metis append_take_drop_id blen_normalize blen_simps(3))
  then show ?thesis by (simp add: drop_normalize)
qed

lemma blen_upto_normalize:
  "blen (upto_lf (normalize_lone_carriage_returns s)) =
     blen (take (length (upto_lf (normalize_lone_carriage_returns s))) s)"
  by (metis take_normalize_blen upto_lf_take)

lemma drop_line_normalize:
  "drop_line s at =
     (if LF \<in> set (normalize_lone_carriage_returns s)
      then Some (at + blen (upto_lf (normalize_lone_carriage_returns s)),
                 drop (length (upto_lf (normalize_lone_carriage_returns s))) s)
      else None)"
proof (induction s arbitrary: at)
  case (Cons c s)
  show ?case
  proof (cases "c = CR \<and> starts_lf s")
    case True
    then obtain r where "s = LF # r" by (cases s) (auto simp: starts_lf_def)
    with True show ?thesis by (simp add: starts_lf_def len_utf8_def)
  qed (use Cons in \<open>auto simp: len_utf8_def\<close>)
qed simp

lemma nth_line_raw:
  "nth_line n s at =
     map_option (\<lambda>t. (at + (blen s - blen t), takeWhile (\<lambda>c. c \<noteq> LF \<and> c \<noteq> CR) t)) (raw_from n s)"
proof (induction n s arbitrary: at rule: raw_from.induct)
  case (2 n s)
  let ?k = "length (upto_lf (normalize_lone_carriage_returns s))"
  show ?case
  proof (cases "LF \<in> set (normalize_lone_carriage_returns s)")
    case True
    have "blen s = blen (take ?k s) + blen (drop ?k s)"
      by (metis append_take_drop_id blen_simps(3))
    moreover have "blen t \<le> blen (drop ?k s)" if "raw_from n (drop ?k s) = Some t" for t
      using raw_from_suffix [OF that] by auto
    ultimately show ?thesis
      using True "2.IH" [OF True]
      by (auto simp: drop_line_normalize blen_upto_normalize intro!: option.map_cong0)
  qed (simp add: drop_line_normalize)
qed simp

text \<open>The raw line of the mapper, without its end, is the content of the LSP line.\<close>

lemma line_content_raw:
  "line_content (take (length (upto_lf (normalize_lone_carriage_returns t))) t) =
     takeWhile (\<lambda>c. c \<noteq> LF \<and> c \<noteq> CR) t"
proof (induction t)
  case (Cons c t)
  let ?k = "length (upto_lf (normalize_lone_carriage_returns t))"
  consider (lf) "c = LF" | (crlf) r where "c = CR" "t = LF # r" | (cr) "c = CR" "\<not> starts_lf t"
    | (other) "c \<noteq> LF" "c \<noteq> CR"
    by (cases t) (auto simp: starts_lf_def)
  then show ?case
  proof cases
    case other
    have "line_content (c # l) = c # line_content l" for l
      using other by (auto simp: line_content_def strip_suffix_def split: option.splits)
    with other Cons show ?thesis by simp
  qed (auto simp: line_content_def strip_suffix_def starts_lf_def)
qed (simp add: line_content_def strip_suffix_def)

lemma normalized_line_prefix:
  "\<exists>e. takeWhile (\<lambda>c. c \<noteq> LF) (normalize_lone_carriage_returns t) =
     takeWhile (\<lambda>c. c \<noteq> LF \<and> c \<noteq> CR) t @ e"
  by (induction t) auto

section \<open>UTF-16 prefixes\<close>

lemma utake_append: "ulen w \<le> n \<Longrightarrow> utake (w @ e) n = w @ utake e (n - ulen w)"
  by (induction w arbitrary: n) (auto simp: diff_diff_left)

lemma utake_all: "ulen w \<le> n \<Longrightarrow> utake w n = w"
  using utake_append [of w n "[]"] by simp

lemma utake_within:
  assumes "n < ulen w"
  obtains ch r where "w = utake w n @ ch # r" "utake (w @ e) n = utake w n"
    "(w @ e) ! length (utake w n) = ch"
proof -
  have "\<exists>ch r. w = utake w n @ ch # r \<and> utake (w @ e) n = utake w n"
    using assms by (induction w arbitrary: n) (auto simp: less_diff_conv2 intro: less_diff_conv2 [THEN iffD2])
  then obtain ch r where w: "w = utake w n @ ch # r" "utake (w @ e) n = utake w n" by blast
  have "(w @ e) ! length (utake w n) = ch"
    by (subst w(1)) (simp add: nth_append)
  with w that show ?thesis by blast
qed

lemma floor_inside:
  assumes "d < len_utf8 ch"
  shows "floor_char_boundary (p @ q @ ch # r) (blen p + blen q + d) = blen p + blen q"
proof (rule antisym)
  show "blen p + blen q \<le> floor_char_boundary (p @ q @ ch # r) (blen p + blen q + d)"
    using boundary_append [of "p @ q" "ch # r"] by (intro floor_greatest) simp_all
  have "\<not> is_char_boundary (p @ q @ ch # r) m" if "blen p + blen q < m" "m \<le> blen p + blen q + d" for m
  proof
    assume "is_char_boundary (p @ q @ ch # r) m"
    then obtain a b where ab: "(p @ q) @ ch # r = a @ b" "blen a = m"
      by (auto simp: boundary_iff_prefix)
    then consider u where "a = (p @ q) @ u" "ch # r = u @ b" | u where "p @ q = a @ u"
      by (auto simp: append_eq_append_conv2)
    then show False
    proof cases
      case 1
      then show False using that ab(2) assms by (cases u) auto
    next
      case 2
      then have "blen (p @ q) = blen a + blen u" by (metis blen_simps(3))
      with that ab(2) show False by simp
    qed
  qed
  then show "floor_char_boundary (p @ q @ ch # r) (blen p + blen q + d) \<le> blen p + blen q"
    by (meson floor_is_boundary floor_le not_le)
qed

section \<open>The mapper answers as the single pass\<close>

lemma unat_min: "unat (min (a :: 'a :: len word) b) = min (unat a) (unat b)"
  by (simp add: min_def word_le_nat_alt)

lemma unat_u32_try_from: "n < 2 ^ 32 \<Longrightarrow> unat (u32_try_from n) = n"
  by (simp add: u32_try_from_def unat_of_nat)

text \<open>The clamped byte of a column, from what the crate says of it.\<close>

lemma clamp_column:
  fixes w e rest p :: rstr
  assumes crate: "if ulen (w @ e) < c then (case ans of None \<Rightarrow> True | Some b \<Rightarrow> blen p + blen (w @ e) \<le> b)
       else (\<exists>b. ans = Some b \<and> blen p + blen (utake (w @ e) c) \<le> b \<and>
               (if ulen (utake (w @ e) c) = c then b = blen p + blen (utake (w @ e) c)
                else b < blen p + blen (utake (w @ e) c) + len_utf8 ((w @ e) ! length (utake (w @ e) c))))"
    and "line_end = blen p + blen w"
  shows "floor_char_boundary (p @ w @ rest) (min (case ans of Some b \<Rightarrow> b | None \<Rightarrow> line_end) line_end) =
     blen p + blen (utake w c)"
proof (cases "ulen w \<le> c")
  case True
  have "min (case ans of Some b \<Rightarrow> b | None \<Rightarrow> line_end) line_end = line_end"
    using crate assms(2) True by (auto simp: utake_append split: if_splits option.splits)
  moreover have "is_char_boundary (p @ w @ rest) line_end"
    using boundary_append [of "p @ w" rest] assms(2) by simp
  ultimately show ?thesis using True assms(2) by (simp add: floor_of_boundary utake_all)
next
  case False
  then obtain ch r where w: "w = utake w c @ ch # r" "utake (w @ e) c = utake w c"
      "(w @ e) ! length (utake w c) = ch"
    using utake_within [of c w e] by auto
  from False have "\<not> ulen (w @ e) < c" by simp
  with crate w(2,3) obtain b where b: "ans = Some b" "blen p + blen (utake w c) \<le> b"
      "b < blen p + blen (utake w c) + len_utf8 ch"
    by (auto split: if_splits)
  have "blen w = blen (utake w c) + len_utf8 ch + blen r"
    by (subst w(1)) simp
  with b assms(2) have "min (case ans of Some b \<Rightarrow> b | None \<Rightarrow> line_end) line_end = b" by simp
  moreover have "floor_char_boundary (p @ utake w c @ ch # r @ rest) b = blen p + blen (utake w c)"
    using floor_inside [of "b - (blen p + blen (utake w c))" ch p "utake w c" "r @ rest"] b by simp
  moreover have "p @ w @ rest = p @ utake w c @ ch # r @ rest"
    using arg_cong [OF w(1), of "\<lambda>w. p @ w @ rest"] by simp
  ultimately show ?thesis by (simp only:)
qed

lemma target_of_simps [simp]: "fst (target_of p) = unat (pos_line p)" "snd (target_of p) = unat (pos_character p)"
  by (simp_all add: target_of_def)

lemma mapper_new_simps:
  "mp_line_index (mapper_new new s) = new (normalize_lone_carriage_returns s)"
  "mp_text (mapper_new new s) = s"
  "mp_tree_line_index (mapper_new new s) = (if has_lone_cr s then Some (new s) else None)"
  by (simp_all add: mapper_new_def)

lemma utf16_columns_law:
  assumes "utf16_columns new" "blen s < 2 ^ 32" "from_line (unat n) s = Some t" "unat c \<le> blen s"
  shows "(let x = takeWhile (\<lambda>ch. ch \<noteq> LF) t;
          q = utake x (unat c);
          start = blen s - blen t
      in if ulen x < unat c then (case utf16_offset (new s) (n, c) of None \<Rightarrow> True | Some b \<Rightarrow> start + blen x \<le> b)
         else (\<exists>b. utf16_offset (new s) (n, c) = Some b \<and> start + blen q \<le> b \<and>
                   (if ulen q = unat c then b = start + blen q
                    else b < start + blen q + len_utf8 (x ! length q))))"
  using assms unfolding utf16_columns_def by blast

lemma position_to_byte_clamped_mapper:
  assumes "indexes new" and fits: "blen s < 2 ^ 32"
  shows "position_to_byte_clamped (mapper_new new s) p = Some (clamped_byte s (target_of p))"
proof -
  let ?ns = "normalize_lone_carriage_returns s" and ?n = "unat (pos_line p)"
  have ranges: "li_len (new ?ns) = blen s"
    "li_line (new ?ns) (pos_line p) =
       map_option (\<lambda>t. (blen s - blen t, blen s - blen t + blen (upto_lf t))) (from_line ?n ?ns)"
    using assms by (simp_all add: indexes_def line_ranges_def)
  show ?thesis
  proof (cases "raw_from ?n s")
    case None
    then show ?thesis
      by (simp add: position_to_byte_clamped_def mapper_new_simps ranges from_line_normalize clamped_byte_def
          nth_line_raw)
  next
    case (Some t)
    then obtain q where s: "s = q @ t" using raw_from_suffix by blast
    let ?k = "length (upto_lf (normalize_lone_carriage_returns t))"
    let ?w = "takeWhile (\<lambda>c. c \<noteq> LF \<and> c \<noteq> CR) t"
    obtain e where e: "takeWhile (\<lambda>c. c \<noteq> LF) (normalize_lone_carriage_returns t) = ?w @ e"
      using normalized_line_prefix by blast
    have w: "t = ?w @ dropWhile (\<lambda>c. c \<noteq> LF \<and> c \<noteq> CR) t" by simp
    then have blen_t: "blen t = blen ?w + blen (dropWhile (\<lambda>c. c \<noteq> LF \<and> c \<noteq> CR) t)" by (metis blen_simps(3))
    with s fits blen_t have w_fits: "blen ?w < 2 ^ 32" by simp
    let ?c = "min (unat (pos_character p)) (blen ?w)"
    let ?p = "(pos_line p, min (pos_character p) (u32_try_from (blen ?w)))"
    have c: "unat (snd ?p) = ?c" using w_fits by (simp add: unat_min unat_u32_try_from)
    have line: "str_get s (blen q) (blen q + blen (upto_lf (normalize_lone_carriage_returns t))) = Some (take ?k t)"
      unfolding str_get_Some blen_upto_normalize using s by (intro exI [of _ q] exI [of _ "drop ?k t"]) simp
    have lines: "from_line ?n ?ns = Some (normalize_lone_carriage_returns t)"
      using Some by (simp add: from_line_normalize)
    have le: "unat (snd ?p) \<le> blen ?ns"
      unfolding c using blen_t s by simp
    have fits': "blen ?ns < 2 ^ 32" and start: "blen ?ns - blen (normalize_lone_carriage_returns t) = blen q"
      using fits s by simp_all
    have p: "(pos_line p, snd ?p) = ?p" by simp
    have cols: "utf16_columns new" using assms(1) by (simp add: indexes_def)
    note crate = utf16_columns_law [OF cols fits' lines le, unfolded Let_def e c start p]
    have "floor_char_boundary s (min (case utf16_offset (new ?ns) ?p of Some b \<Rightarrow> b | None \<Rightarrow> blen q + blen ?w)
         (blen q + blen ?w)) = blen q + blen (utake ?w ?c)"
      using clamp_column [OF crate refl, of "dropWhile (\<lambda>c. c \<noteq> LF \<and> c \<noteq> CR) t"] s w by metis
    moreover have "utake ?w ?c = utake ?w (unat (pos_character p))"
      using ulen_le_blen [of ?w] by (cases "unat (pos_character p) \<le> blen ?w") (simp_all add: utake_all min_def)
    moreover have "blen s - blen t = blen q" using s by simp
    ultimately show ?thesis
      using Some line
      by (simp add: position_to_byte_clamped_def mapper_new_simps ranges from_line_normalize clamped_byte_def
          nth_line_raw line_content_raw position_to_byte_def)
  qed
qed

lemma byte_to_point_mapper:
  assumes "indexes new" "blen (p @ q) < 2 ^ 32"
  shows "byte_to_point (mapper_new new (p @ q)) (blen p) = point_after p"
proof -
  have "map_option (\<lambda>(l, c). (unat l, unat c)) (li_try_line_col (new (p @ q)) (blen p)) = Some (point_after p)"
    using assms unfolding indexes_def points_def by blast
  then have "(case li_try_line_col (new (p @ q)) (blen p) of Some (l, c) \<Rightarrow> (unat l, unat c) | None \<Rightarrow> (0, 0)) = point_after p"
    by (cases "li_try_line_col (new (p @ q)) (blen p)") auto
  moreover have "li_len (new (p @ q)) = blen (p @ q)"
    using assms by (simp add: indexes_def line_ranges_def)
  ultimately show ?thesis
    using assms(2) by (simp add: byte_to_point_def mapper_new_simps normalize_id)
qed

section \<open>An index that behaves as documented\<close>

definition plain_index :: "rstr \<Rightarrow> line_index" where
  "plain_index s =
     (let line = (\<lambda>n. map_option (\<lambda>t. (blen s - blen t, t)) (from_line (unat n) s))
      in \<lparr>li_len = blen s,
          li_line = (\<lambda>n. map_option (\<lambda>(start, t). (start, start + blen (upto_lf t))) (line n)),
          li_to_utf8 = (\<lambda>(n, c). Option.bind (line n) (\<lambda>(_, t).
             let x = takeWhile (\<lambda>ch. ch \<noteq> LF) t
             in if ulen x < unat c then None else Some (n, of_nat (blen (utake x (unat c)))))),
          li_offset = (\<lambda>(n, c). map_option (\<lambda>(start, _). start + unat c) (line n)),
          li_try_line_col = (\<lambda>offset. let (l, c) = point_after (btake s offset) in Some (of_nat l, of_nat c)),
          li_to_wide = (\<lambda>(n, c). map_option (\<lambda>(_, t). (n, of_nat (ulen (btake t (unat c))))) (line n))\<rparr>)"

lemma drop_suffix: "\<exists>p. drop k s = p @ t \<Longrightarrow> \<exists>p. s = p @ t"
  by (metis append_assoc append_take_drop_id)

lemma from_line_suffix: "from_line n s = Some t \<Longrightarrow> \<exists>p. s = p @ t"
  by (induction n s rule: from_line.induct) (auto split: if_splits intro: drop_suffix)

lemma utake_prefix: "\<exists>r. x = utake x n @ r"
  by (induction x n rule: utake.induct) auto

lemma count_list_le_blen: "count_list p c \<le> blen p"
  by (induction p) (auto simp: Suc_le_eq add_strict_increasing le_imp_less_Suc trans_le_add2
      intro: order.trans [OF Suc_leI])

lemma blen_takeWhile_le: "blen (takeWhile P s) \<le> blen s"
  by (induction s) auto

lemma unat_of_small: "n < 2 ^ 32 \<Longrightarrow> unat (of_nat n :: u32) = n"
  by (simp add: unat_of_nat)

lemma plain_index_indexes: "indexes plain_index"
proof -
  have "line_ranges plain_index"
    by (auto simp: line_ranges_def plain_index_def Let_def option.map_comp comp_def)
  moreover have "points plain_index"
  proof -
    have "count_list p LF < 2 ^ 32" "blen (takeWhile (\<lambda>c. c \<noteq> LF) (rev p)) < 2 ^ 32" if "blen (p @ q) < 2 ^ 32" for p q
      using that count_list_le_blen [of p LF] blen_takeWhile_le [of "\<lambda>c. c \<noteq> LF" "rev p"] by simp_all
    then show ?thesis by (auto simp: points_def plain_index_def Let_def point_after_def unat_of_small)
  qed
  moreover have "utf16_columns plain_index"
    unfolding utf16_columns_def
  proof (intro allI impI)
    fix s :: rstr and n :: u32 and t :: rstr and c :: u32
    assume fits: "blen s < 2 ^ 32" and line: "from_line (unat n) s = Some t"
    let ?x = "takeWhile (\<lambda>ch. ch \<noteq> LF) t"
    obtain p where "s = p @ t" using from_line_suffix [OF line] by blast
    moreover obtain r where "?x = utake ?x (unat c) @ r" using utake_prefix by blast
    then have "blen (utake ?x (unat c)) \<le> blen ?x" by (metis blen_simps(3) le_add1)
    ultimately have "blen (utake ?x (unat c)) < 2 ^ 32"
      using fits blen_takeWhile_le [of "\<lambda>ch. ch \<noteq> LF" t] by simp
    then show "let x = ?x; q = utake x (unat c); start = blen s - blen t
      in if ulen x < unat c then (case utf16_offset (plain_index s) (n, c) of None \<Rightarrow> True | Some b \<Rightarrow> start + blen x \<le> b)
         else (\<exists>b. utf16_offset (plain_index s) (n, c) = Some b \<and> start + blen q \<le> b \<and>
                   (if ulen q = unat c then b = start + blen q
                    else b < start + blen q + len_utf8 (x ! length q)))"
      using line by (simp add: utf16_offset_def plain_index_def Let_def unat_of_small)
  qed
  ultimately show ?thesis by (simp add: indexes_def)
qed

text \<open>
  C23: the mapper and the batch agree. Over an index that behaves as documented, the mapper
  never panics, and it answers every position of every text with the byte the single pass
  finds: lone carriage returns end lines, a line's terminator is out of reach, columns count
  UTF-16 units and are cut to whole characters, and lines past the end are the end.
\<close>

theorem mapper_agrees_with_batch:
  assumes "indexes new" "blen s < 2 ^ 32"
  shows "map (position_to_byte_clamped (mapper_new new s)) ps = map Some (positions_to_bytes_clamped s ps)"
  using position_to_byte_clamped_mapper [OF assms] by (simp add: positions_to_bytes_clamped_correct)

text \<open>A text with a lone carriage return and a pair of surrogates.\<close>

theorem mapper_agrees_with_batch_witness:
  "map (position_to_byte_clamped (mapper_new plain_index [97, CR, 0x1F600, 98]))
     [\<lparr>pos_line = 0, pos_character = 9\<rparr>, \<lparr>pos_line = 1, pos_character = 1\<rparr>, \<lparr>pos_line = 1, pos_character = 2\<rparr>]
   = map Some (positions_to_bytes_clamped [97, CR, 0x1F600, 98]
       [\<lparr>pos_line = 0, pos_character = 9\<rparr>, \<lparr>pos_line = 1, pos_character = 1\<rparr>, \<lparr>pos_line = 1, pos_character = 2\<rparr>])"
  by (rule mapper_agrees_with_batch [OF plain_index_indexes]) (simp add: len_utf8_def)

end
