(* ===== verification/Text_Sync.thy ===== *)
theory Text_Sync
  imports Position_Mapper
begin

text \<open>
  \<open>lsp/text_sync.rs\<close>: the content changes of a \<open>didChange\<close> applied to a text, with the edits
  that tell tree-sitter what changed.
\<close>

record input_edit =
  ie_start_byte :: nat
  ie_old_end_byte :: nat
  ie_new_end_byte :: nat
  ie_start_position :: "nat \<times> nat"
  ie_old_end_position :: "nat \<times> nat"
  ie_new_end_position :: "nat \<times> nat"

record content_change =
  cc_range :: "(lsp_pos_t \<times> lsp_pos_t) option"
  cc_text :: rstr

text \<open>\<open>str::split\<close> at line feeds.\<close>

fun split_lf :: "rstr \<Rightarrow> rstr list" where
  "split_lf [] = [[]]"
| "split_lf (c # s) =
     (if c = LF then [] # split_lf s else (case split_lf s of [] \<Rightarrow> [[c]] | l # ls \<Rightarrow> (c # l) # ls))"

definition change_edit :: "position_mapper \<Rightarrow> nat \<Rightarrow> nat \<Rightarrow> rstr \<Rightarrow> input_edit" where
  "change_edit m start_offset end_offset ins =
     (let line_count = length (split_lf ins);
          last_line_len = blen (last (split_lf ins));
          start_point = byte_to_point m start_offset
      in \<lparr>ie_start_byte = start_offset, ie_old_end_byte = end_offset,
          ie_new_end_byte = start_offset + blen ins,
          ie_start_position = start_point, ie_old_end_position = byte_to_point m end_offset,
          ie_new_end_position =
            (if line_count > 1 then (fst start_point + line_count - 1, last_line_len)
             else (fst start_point, snd start_point + last_line_len))\<rparr>)"

text \<open>\<open>String::replace_range\<close>, which panics between the bytes of a character.\<close>

definition replace_range :: "rstr \<Rightarrow> nat \<Rightarrow> nat \<Rightarrow> rstr \<Rightarrow> rstr option" where
  "replace_range s a b ins =
     (if a \<le> b \<and> is_char_boundary s a \<and> is_char_boundary s b
      then Some (btake s a @ ins @ bdrop s b) else None)"

text \<open>
  The loop over the changes: the text so far, the edits, and whether the text was replaced as a
  whole. The crate indexes offsets of \<open>u32\<close> and panics on a longer text.
\<close>

fun apply_changes ::
  "(rstr \<Rightarrow> line_index) \<Rightarrow> content_change list \<Rightarrow> rstr \<Rightarrow> input_edit list \<Rightarrow> bool \<Rightarrow>
     (rstr \<times> input_edit list \<times> bool) option" where
  "apply_changes new [] text edits saw = Some (text, edits, saw)"
| "apply_changes new (change # changes) text edits saw =
     (case cc_range change of
        Some (from_pos, to_pos) \<Rightarrow>
          (let m = mapper_new new text
           in if blen text \<ge> 2 ^ 32 then None else
              case (position_to_byte_clamped m from_pos, position_to_byte_clamped m to_pos) of
                (Some start_offset, Some stop) \<Rightarrow>
                  (let end_offset = max stop start_offset;
                       edits = (if saw then edits
                                else edits @ [change_edit m start_offset end_offset (cc_text change)])
                   in case replace_range text start_offset end_offset (cc_text change) of
                        Some text \<Rightarrow> apply_changes new changes text edits saw
                      | None \<Rightarrow> None)
              | _ \<Rightarrow> None)
      | None \<Rightarrow> apply_changes new changes (cc_text change) [] True)"

definition apply_content_changes_with_edits ::
  "(rstr \<Rightarrow> line_index) \<Rightarrow> rstr \<Rightarrow> content_change list \<Rightarrow> (rstr \<times> input_edit list) option" where
  "apply_content_changes_with_edits new old_text changes =
     map_option (\<lambda>(text, edits, saw). (text, if saw then [] else edits)) (apply_changes new changes old_text [] False)"

section \<open>What an edit says\<close>

text \<open>
  tree-sitter's contract: an edit replaces a part of the text by another, and gives the bytes
  and the points of where that part starts, where it ended and where the new one ends.
\<close>

definition describes :: "input_edit \<Rightarrow> rstr \<Rightarrow> rstr \<Rightarrow> bool" where
  "describes e s s' \<longleftrightarrow> (\<exists>p old ins q. s = p @ old @ q \<and> s' = p @ ins @ q \<and>
     e = \<lparr>ie_start_byte = blen p, ie_old_end_byte = blen (p @ old), ie_new_end_byte = blen (p @ ins),
          ie_start_position = point_after p, ie_old_end_position = point_after (p @ old),
          ie_new_end_position = point_after (p @ ins)\<rparr>)"

fun leads :: "input_edit list \<Rightarrow> rstr \<Rightarrow> rstr \<Rightarrow> bool" where
  "leads [] s s' \<longleftrightarrow> s = s'"
| "leads (e # es) s s' \<longleftrightarrow> (\<exists>m. describes e s m \<and> leads es m s')"

lemma leads_append: "leads (es @ es') s s' \<longleftrightarrow> (\<exists>m. leads es s m \<and> leads es' m s')"
  by (induction es arbitrary: s) auto

lemma split_lf_nonempty [simp]: "split_lf s \<noteq> []"
  by (cases s) (auto split: list.splits)

lemma length_split_lf: "length (split_lf s) = Suc (count_list s LF)"
  by (induction s) (auto split: list.splits)

lemma point_after_append:
  "point_after (p @ t) =
     (fst (point_after p) + count_list t LF,
      if LF \<in> set t then snd (point_after t) else snd (point_after p) + blen t)"
  by (auto simp: point_after_def takeWhile_append add.commute)

lemma last_split_lf: "blen (last (split_lf s)) = (if LF \<in> set s then snd (point_after s) else blen s)"
proof (induction s)
  case (Cons c s)
  have "snd (point_after (c # s)) = (if LF \<in> set s then snd (point_after s) else if c = LF then blen s else len_utf8 c + blen s)"
    using point_after_append [of "[c]" s] by (auto simp: point_after_def)
  moreover have "LF \<in> set s \<longleftrightarrow> length (split_lf s) > 1"
    using count_list_0_iff [of s LF] by (auto simp: length_split_lf)
  ultimately show ?case using Cons by (auto split: list.splits)
qed simp

lemma point_of_insertion:
  "point_after (p @ t) =
     (let l = length (split_lf t); n = blen (last (split_lf t))
      in if l > 1 then (fst (point_after p) + l - 1, n) else (fst (point_after p), snd (point_after p) + n))"
  by (auto simp: point_after_append length_split_lf last_split_lf Let_def count_list_0_iff)

lemma change_edit_describes:
  assumes "indexes new" "blen (p @ old @ q) < 2 ^ 32"
  shows "describes (change_edit (mapper_new new (p @ old @ q)) (blen p) (blen p + blen old) ins)
           (p @ old @ q) (p @ ins @ q)"
proof -
  have "byte_to_point (mapper_new new (p @ old @ q)) (blen p) = point_after p"
    using byte_to_point_mapper [OF assms(1), of p "old @ q"] assms(2) by simp
  moreover have "byte_to_point (mapper_new new (p @ old @ q)) (blen p + blen old) = point_after (p @ old)"
    using byte_to_point_mapper [OF assms(1), of "p @ old" q] assms(2) by simp
  ultimately have "change_edit (mapper_new new (p @ old @ q)) (blen p) (blen p + blen old) ins =
     \<lparr>ie_start_byte = blen p, ie_old_end_byte = blen (p @ old), ie_new_end_byte = blen (p @ ins),
      ie_start_position = point_after p, ie_old_end_position = point_after (p @ old),
      ie_new_end_position = point_after (p @ ins)\<rparr>"
    by (simp add: change_edit_def point_of_insertion Let_def)
  then show ?thesis unfolding describes_def by blast
qed

section \<open>The changes of a client\<close>

text \<open>What a change means to a client: its range is clamped into the text, and replaced.\<close>

definition change_range :: "rstr \<Rightarrow> lsp_pos_t \<times> lsp_pos_t \<Rightarrow> nat \<times> nat" where
  "change_range s r =
     (let a = clamped_byte s (target_of (fst r)) in (a, max (clamped_byte s (target_of (snd r))) a))"

definition client_change :: "rstr \<Rightarrow> content_change \<Rightarrow> rstr" where
  "client_change s change =
     (case cc_range change of
        None \<Rightarrow> cc_text change
      | Some r \<Rightarrow> (case change_range s r of (a, b) \<Rightarrow> btake s a @ cc_text change @ bdrop s b))"

lemma clamped_byte_boundary: "is_char_boundary s (clamped_byte s target)"
proof (cases "raw_from (fst target) s")
  case (Some t)
  let ?w = "takeWhile (\<lambda>c. c \<noteq> LF \<and> c \<noteq> CR) t"
  obtain q where s: "s = q @ t" using raw_from_suffix [OF Some] by blast
  obtain r where "?w = utake ?w (snd target) @ r" using utake_prefix by blast
  from arg_cong [OF this, of "\<lambda>w. w @ dropWhile (\<lambda>c. c \<noteq> LF \<and> c \<noteq> CR) t"]
  have "t = utake ?w (snd target) @ r @ dropWhile (\<lambda>c. c \<noteq> LF \<and> c \<noteq> CR) t"
    by simp
  then obtain b where "s = (q @ utake ?w (snd target)) @ b" using s by auto
  moreover have "clamped_byte s target = blen (q @ utake ?w (snd target))"
    using Some s by (simp add: clamped_byte_def nth_line_raw)
  ultimately show ?thesis using boundary_append by metis
qed (simp add: clamped_byte_def nth_line_raw)

text \<open>A text cut at two of its boundaries.\<close>

lemma cut_text:
  assumes "is_char_boundary s a" "is_char_boundary s b" "a \<le> b"
  obtains p old q where "s = p @ old @ q" "a = blen p" "b = blen p + blen old"
    "btake s a = p" "bdrop s b = q"
proof -
  have "\<exists>t. str_get s a b = Some t" using assms by (simp add: str_get_def)
  then obtain p old q where s: "s = p @ old @ q" "a = blen p" "b = blen p + blen old"
    by (auto simp: str_get_Some)
  have "bdrop s b = q" using bdrop_append_exact [of "p @ old" q] s by simp
  with s that show ?thesis by simp
qed

definition full :: "content_change \<Rightarrow> bool" where
  "full change \<longleftrightarrow> cc_range change = None"

definition total_len :: "rstr \<Rightarrow> content_change list \<Rightarrow> nat" where
  "total_len s changes = blen s + sum_list (map (\<lambda>c. blen (cc_text c)) changes)"

text \<open>One ranged change: the loop does what the client means, and its edit says so.\<close>

lemma ranged_change:
  assumes ix: "indexes new" and fits: "blen s < 2 ^ 32" and r: "cc_range change = Some (a, b)"
  obtains i j where "position_to_byte_clamped (mapper_new new s) a = Some i"
    "position_to_byte_clamped (mapper_new new s) b = Some j"
    "replace_range s i (max j i) (cc_text change) = Some (client_change s change)"
    "describes (change_edit (mapper_new new s) i (max j i) (cc_text change)) s (client_change s change)"
    "blen (client_change s change) \<le> blen s + blen (cc_text change)"
proof -
  let ?i = "clamped_byte s (target_of a)" and ?j = "clamped_byte s (target_of b)"
  have bd: "is_char_boundary s ?i" "is_char_boundary s (max ?j ?i)" "?i \<le> max ?j ?i"
    by (auto simp: clamped_byte_boundary max_def)
  obtain p old q where s: "s = p @ old @ q" "?i = blen p" "max ?j ?i = blen p + blen old"
    "btake s ?i = p" "bdrop s (max ?j ?i) = q"
    by (rule cut_text [OF bd])
  have client: "client_change s change = p @ cc_text change @ q"
    using r s(4,5) by (simp add: client_change_def change_range_def Let_def)
  have "describes (change_edit (mapper_new new s) ?i (max ?j ?i) (cc_text change)) s (client_change s change)"
    using change_edit_describes [OF ix, of p old q "cc_text change"] fits unfolding client s(3) unfolding s(2)
    by (simp add: s(1) [symmetric])
  moreover have "replace_range s ?i (max ?j ?i) (cc_text change) = Some (client_change s change)"
    using bd s(4,5) client by (simp add: replace_range_def)
  moreover have "blen (client_change s change) \<le> blen s + blen (cc_text change)"
    using arg_cong [OF s(1), of blen] client by simp
  ultimately show ?thesis
    by (intro that [of ?i ?j] position_to_byte_clamped_mapper [OF ix fits])
qed

lemma apply_changes_sound:
  assumes "indexes new" "apply_changes new changes s edits saw = Some (t, edits', saw')" "saw \<or> leads edits old s"
  shows "t = foldl client_change s changes \<and> saw' = (saw \<or> list_ex full changes) \<and>
    (saw' \<or> (leads edits' old t \<and> length edits' = length edits + length changes))"
  using assms(2,3)
proof (induction changes arbitrary: s edits saw)
  case (Cons change changes)
  show ?case
  proof (cases "cc_range change")
    case None
    with Cons.prems have "apply_changes new changes (cc_text change) [] True = Some (t, edits', saw')" by simp
    from Cons.IH [OF this] None show ?thesis by (simp add: client_change_def full_def)
  next
    case (Some r)
    then obtain a b where r: "cc_range change = Some (a, b)" by (cases r) auto
    with Cons.prems(1) have fits: "blen s < 2 ^ 32" by (auto simp: Let_def split: if_splits)
    obtain i j where c: "position_to_byte_clamped (mapper_new new s) a = Some i"
      "position_to_byte_clamped (mapper_new new s) b = Some j"
      "replace_range s i (max j i) (cc_text change) = Some (client_change s change)"
      "describes (change_edit (mapper_new new s) i (max j i) (cc_text change)) s (client_change s change)"
      by (rule ranged_change [OF assms(1) fits r])
    let ?edits = "if saw then edits else edits @ [change_edit (mapper_new new s) i (max j i) (cc_text change)]"
    have "saw \<or> leads ?edits old (client_change s change)"
      using Cons.prems(2) c(4) by (auto simp: leads_append)
    moreover have "apply_changes new changes (client_change s change) ?edits saw = Some (t, edits', saw')"
      using Cons.prems(1) c(1-3) r fits by (simp add: Let_def)
    ultimately show ?thesis
      using Cons.IH [of "client_change s change" ?edits saw] r by (cases saw) (auto simp: full_def)
  qed
qed auto

lemma apply_changes_total:
  assumes "indexes new" "total_len s changes < 2 ^ 32"
  shows "apply_changes new changes s edits saw \<noteq> None"
  using assms(2)
proof (induction changes arbitrary: s edits saw)
  case (Cons change changes)
  have fits: "blen s < 2 ^ 32" using Cons.prems by (simp add: total_len_def)
  show ?case
  proof (cases "cc_range change")
    case None
    then show ?thesis using Cons by (simp add: total_len_def)
  next
    case (Some r)
    then obtain a b where r: "cc_range change = Some (a, b)" by (cases r) auto
    obtain i j where c: "position_to_byte_clamped (mapper_new new s) a = Some i"
      "position_to_byte_clamped (mapper_new new s) b = Some j"
      "replace_range s i (max j i) (cc_text change) = Some (client_change s change)"
      "blen (client_change s change) \<le> blen s + blen (cc_text change)"
      by (rule ranged_change [OF assms(1) fits r])
    then have "total_len (client_change s change) changes < 2 ^ 32"
      using Cons.prems by (simp add: total_len_def)
    with Cons.IH c(1-3) r fits show ?thesis by (simp add: Let_def)
  qed
qed simp

lemma content_changes_sound:
  assumes "indexes new" "apply_content_changes_with_edits new old changes = Some (t, edits)"
  shows "t = foldl client_change old changes \<and>
    (if list_ex full changes then edits = [] else leads edits old t \<and> length edits = length changes)"
proof -
  obtain edits' saw' where "apply_changes new changes old [] False = Some (t, edits', saw')"
    "edits = (if saw' then [] else edits')"
    using assms(2) by (auto simp: apply_content_changes_with_edits_def)
  with apply_changes_sound [OF assms(1) this(1), of old] show ?thesis by (auto split: if_splits)
qed

lemma content_changes_total:
  assumes "indexes new" "total_len old changes < 2 ^ 32"
  shows "apply_content_changes_with_edits new old changes \<noteq> None"
  using apply_changes_total [OF assms] by (simp add: apply_content_changes_with_edits_def)

text \<open>
  C22: a \<open>didChange\<close> is applied as the client means it, one change after the other on the text
  the previous one left, with ranges clamped into it and without a panic. With a full
  replacement anywhere there are no edits; else there is one for each change, and they lead
  from the old text to the new one in bytes and in points.
\<close>

theorem content_changes_correct:
  assumes "indexes new" "total_len old changes < 2 ^ 32"
  shows "\<exists>edits. apply_content_changes_with_edits new old changes = Some (foldl client_change old changes, edits) \<and>
    (if list_ex full changes then edits = []
     else leads edits old (foldl client_change old changes) \<and> length edits = length changes)"
  using content_changes_total [OF assms] content_changes_sound [OF assms(1)] by fast

end
