(* ===== verification/Document_Model.thy ===== *)
theory Document_Model
  imports Snapshot_Cell Text_Sync
begin

text \<open>
  \<open>document/model.rs\<close>: the text of a document, its lifetime and version, the slot its parses
  are published in, and the log of edits from which an incremental parse is seeded. Versions
  are \<open>u64\<close>, with their wrapping written out. Tokens that cancel obsolete work are hints to the
  tasks that hold them, and absent.
\<close>

definition wrap64 :: "nat \<Rightarrow> nat" where
  "wrap64 n = n mod 2 ^ 64"

record ('t, 'r) document =
  doc_text :: rstr
  doc_language_id :: "string option"
  doc_seed_edits :: "(nat \<times> input_edit) list"
  doc_seed_floor :: nat
  doc_incarnation :: nat
  doc_content_version :: nat
  doc_slot :: "('t, 'r) snapshot_slot"

definition max_seed_edits :: nat where
  "max_seed_edits = 1024"

section \<open>Construction\<close>

definition document_new :: "rstr \<Rightarrow> nat \<Rightarrow> ('t, 'r) document" where
  "document_new text incarnation =
     \<lparr>doc_text = text, doc_language_id = None, doc_seed_edits = [], doc_seed_floor = 0,
      doc_incarnation = incarnation, doc_content_version = 0, doc_slot = bootstrap incarnation\<rparr>"

definition with_language :: "rstr \<Rightarrow> string \<Rightarrow> nat \<Rightarrow> ('t, 'r) document" where
  "with_language text language_id incarnation =
     \<lparr>doc_text = text, doc_language_id = Some language_id, doc_seed_edits = [], doc_seed_floor = 0,
      doc_incarnation = incarnation, doc_content_version = 0, doc_slot = bootstrap incarnation\<rparr>"

definition bare_snapshot :: "('t, 'r) document \<Rightarrow> 't option \<Rightarrow> ('t, 'r) parse_snapshot" where
  "bare_snapshot d tree =
     \<lparr>ps_text = doc_text d, ps_tree = tree, ps_language = doc_language_id d,
      ps_parsed_version = doc_content_version d, ps_incarnation = doc_incarnation d,
      ps_injection_regions = None, ps_regions = None\<rparr>"

definition slot_with :: "('t, 'r) document \<Rightarrow> ('t, 'r) parse_snapshot arc \<Rightarrow> ('t, 'r) snapshot_slot" where
  "slot_with d snapshot = \<lparr>current_incarnation = doc_incarnation d, held = Some snapshot\<rparr>"

definition with_tree :: "nat \<Rightarrow> rstr \<Rightarrow> string \<Rightarrow> 't \<Rightarrow> nat \<Rightarrow> ('t, 'r) document" where
  "with_tree address text language_id tree incarnation =
     (let d = with_language text language_id incarnation
      in d\<lparr>doc_slot := slot_with d (address, bare_snapshot d (Some tree))\<rparr>)"

section \<open>Reading\<close>

definition is_current :: "('t, 'r) document \<Rightarrow> ('t, 'r) parse_snapshot \<Rightarrow> bool" where
  "is_current d s \<longleftrightarrow> ps_incarnation s = doc_incarnation d \<and> ps_parsed_version s = doc_content_version d"

definition current_snapshot :: "('t, 'r) document \<Rightarrow> ('t, 'r) parse_snapshot arc option" where
  "current_snapshot d =
     (case held (doc_slot d) of
        Some s \<Rightarrow> if is_current d (snd s) then Some s else None
      | None \<Rightarrow> None)"

definition doc_tree :: "('t, 'r) document \<Rightarrow> 't option" where
  "doc_tree d = Option.bind (current_snapshot d) (\<lambda>s. ps_tree (snd s))"

definition has_current_tree :: "('t, 'r) document \<Rightarrow> bool" where
  "has_current_tree d =
     (case held (doc_slot d) of
        Some s \<Rightarrow> is_current d (snd s) \<and> ps_tree (snd s) \<noteq> None
      | None \<Rightarrow> False)"

record 't document_snapshot =
  ds_text :: rstr
  ds_tree :: 't
  ds_incarnation :: nat
  ds_content_version :: nat

definition document_snapshot :: "('t, 'r) document \<Rightarrow> 't document_snapshot option" where
  "document_snapshot d =
     Option.bind (current_snapshot d) (\<lambda>s.
       Option.bind (ps_tree (snd s)) (\<lambda>tree.
         Some \<lparr>ds_text = ps_text (snd s), ds_tree = tree, ds_incarnation = doc_incarnation d,
               ds_content_version = doc_content_version d\<rparr>))"

section \<open>Writing\<close>

definition advance_input_version :: "('t, 'r) document \<Rightarrow> ('t, 'r) document" where
  "advance_input_version d = d\<lparr>doc_content_version := wrap64 (doc_content_version d + 1)\<rparr>"

definition publish_snapshot ::
  "('t, 'r) parse_snapshot arc \<Rightarrow> ('t, 'r) document \<Rightarrow> bool \<times> ('t, 'r) document" where
  "publish_snapshot snapshot d =
     (if admits (doc_slot d) (snd snapshot)
      then (True, d\<lparr>doc_slot := (doc_slot d)\<lparr>held := Some snapshot\<rparr>\<rparr>)
      else (False, d))"

definition enrich_document ::
  "nat \<Rightarrow> ('t, 'r) parse_snapshot arc \<Rightarrow> 'r resolved_regions \<Rightarrow> ('t, 'r) document \<Rightarrow>
     bool \<times> ('t, 'r) document" where
  "enrich_document address expected regions d =
     (let (landed, slot) = enrich_regions address expected regions (doc_slot d)
      in (landed, d\<lparr>doc_slot := slot\<rparr>))"

definition publish_closed :: "('t, 'r) document \<Rightarrow> ('t, 'r) document" where
  "publish_closed d = d\<lparr>doc_slot := closed_slot\<rparr>"

definition invalidate_parse :: "nat \<Rightarrow> ('t, 'r) document \<Rightarrow> ('t, 'r) document" where
  "invalidate_parse address d =
     (let d = advance_input_version d;
          d = d\<lparr>doc_seed_edits := [], doc_seed_floor := doc_content_version d\<rparr>
      in d\<lparr>doc_slot := slot_with d (address, bare_snapshot d None)\<rparr>)"

definition record_language :: "string option \<Rightarrow> ('t, 'r) document \<Rightarrow> ('t, 'r) document" where
  "record_language language d = d\<lparr>doc_language_id := language\<rparr>"

definition published_parsed_version :: "('t, 'r) document \<Rightarrow> nat" where
  "published_parsed_version d =
     (case held (doc_slot d) of
        Some (_, s) \<Rightarrow> if ps_incarnation s = doc_incarnation d then ps_parsed_version s else 0
      | None \<Rightarrow> 0)"

definition document_edit :: "rstr \<Rightarrow> input_edit list \<Rightarrow> ('t, 'r) document \<Rightarrow> ('t, 'r) document" where
  "document_edit text edits d =
     (let d = advance_input_version (d\<lparr>doc_text := text\<rparr>)
      in if edits = [] then d\<lparr>doc_seed_edits := [], doc_seed_floor := doc_content_version d\<rparr>
         else
           (let consumed = published_parsed_version d;
                log = filter (\<lambda>(version, _). version > consumed) (doc_seed_edits d) @
                      map (\<lambda>edit. (doc_content_version d, edit)) edits
            in if length log > max_seed_edits
               then d\<lparr>doc_seed_edits := [], doc_seed_floor := doc_content_version d\<rparr>
               else d\<lparr>doc_seed_edits := log\<rparr>))"

text \<open>The tree and the edits of an incremental seed.\<close>

definition incremental_seed :: "string \<Rightarrow> ('t, 'r) document \<Rightarrow> ('t \<times> input_edit list) option" where
  "incremental_seed language d =
     (case held (doc_slot d) of
        None \<Rightarrow> None
      | Some (_, s) \<Rightarrow>
          if ps_incarnation s \<noteq> doc_incarnation d then None
          else if ps_parsed_version s < doc_seed_floor d \<or> ps_language s \<noteq> Some language then None
          else map_option
                 (\<lambda>tree. (tree, map snd (filter (\<lambda>(version, _). version > ps_parsed_version s) (doc_seed_edits d))))
                 (ps_tree s))"

end
