(* ===== verification/Document_Store.thy ===== *)
theory Document_Store
  imports Document_Model
begin

text \<open>
  \<open>document/store.rs\<close>: the open documents and the watermarks of their parses. Each method
  works on the entry of one document under its shard lock, so it is one step. A watermark
  is a channel, which tasks keep hold of when the map lets go of it; channels are addresses.
\<close>

record watermark =
  wm_incarnation :: nat
  wm_ticket :: nat

record ('u, 't, 'r) document_store =
  documents :: "'u \<rightharpoonup> ('t, 'r) document"
  open_counter :: nat
  watermarks :: "'u \<rightharpoonup> nat"
  channels :: "nat \<Rightarrow> watermark"
  next_channel :: nat
  next_arc :: nat

definition empty_store :: "('u, 't, 'r) document_store" where
  "empty_store =
     \<lparr>documents = Map.empty, open_counter = 1, watermarks = Map.empty,
      channels = \<lambda>_. \<lparr>wm_incarnation = 0, wm_ticket = 0\<rparr>, next_channel = 0, next_arc = 0\<rparr>"

section \<open>Incarnations\<close>

text \<open>The loop of \<open>next_incarnation\<close>: what is drawn, and the counter after it.\<close>

function draw_incarnation :: "nat \<Rightarrow> nat \<times> nat" where
  "draw_incarnation counter =
     (if counter \<noteq> 0 \<and> counter \<noteq> closed_incarnation then (counter, wrap64 (counter + 1))
      else draw_incarnation (wrap64 (counter + 1)))"
  by pat_completeness auto
termination
  by (relation "measure (\<lambda>c. if c = closed_incarnation then 2 else if c = 0 then 1 else 0)")
    (auto simp: closed_incarnation_def wrap64_def split: if_splits)

declare draw_incarnation.simps [simp del]

definition next_incarnation :: "('u, 't, 'r) document_store \<Rightarrow> nat \<times> ('u, 't, 'r) document_store" where
  "next_incarnation st =
     (let (drawn, counter) = draw_incarnation (open_counter st) in (drawn, st\<lparr>open_counter := counter\<rparr>))"

section \<open>Watermarks\<close>

definition ensure_watermark_entry ::
  "'u \<Rightarrow> nat \<Rightarrow> ('u, 't, 'r) document_store \<Rightarrow> ('u, 't, 'r) document_store" where
  "ensure_watermark_entry uri incarnation st =
     (case watermarks st uri of
        Some c \<Rightarrow>
          if wm_incarnation (channels st c) = incarnation then st
          else st\<lparr>watermarks := (watermarks st)(uri \<mapsto> next_channel st),
                  channels := (channels st)(next_channel st := \<lparr>wm_incarnation = incarnation, wm_ticket = 0\<rparr>),
                  next_channel := next_channel st + 1\<rparr>
      | None \<Rightarrow>
          st\<lparr>watermarks := (watermarks st)(uri \<mapsto> next_channel st),
             channels := (channels st)(next_channel st := \<lparr>wm_incarnation = incarnation, wm_ticket = 0\<rparr>),
             next_channel := next_channel st + 1\<rparr>)"

text \<open>
  What \<open>send_if_modified\<close> does to the channel that an advance got from the map; the map may
  have moved on in between.
\<close>

definition send_ticket_for :: "nat \<Rightarrow> nat \<Rightarrow> nat \<Rightarrow> ('u, 't, 'r) document_store \<Rightarrow> ('u, 't, 'r) document_store" where
  "send_ticket_for c ticket expected_incarnation st =
     (let w = channels st c
      in if wm_incarnation w = expected_incarnation \<and> ticket > wm_ticket w
         then st\<lparr>channels := (channels st)(c := w\<lparr>wm_ticket := ticket\<rparr>)\<rparr> else st)"

definition send_ticket :: "nat \<Rightarrow> nat \<Rightarrow> ('u, 't, 'r) document_store \<Rightarrow> ('u, 't, 'r) document_store" where
  "send_ticket c ticket st =
     (let w = channels st c
      in if ticket > wm_ticket w then st\<lparr>channels := (channels st)(c := w\<lparr>wm_ticket := ticket\<rparr>)\<rparr> else st)"

definition advance_watermark :: "'u \<Rightarrow> nat \<Rightarrow> ('u, 't, 'r) document_store \<Rightarrow> ('u, 't, 'r) document_store" where
  "advance_watermark uri ticket st =
     (case watermarks st uri of None \<Rightarrow> st | Some c \<Rightarrow> send_ticket c ticket st)"

definition advance_watermark_for_incarnation ::
  "'u \<Rightarrow> nat \<Rightarrow> nat \<Rightarrow> ('u, 't, 'r) document_store \<Rightarrow> ('u, 't, 'r) document_store" where
  "advance_watermark_for_incarnation uri ticket expected_incarnation st =
     (case watermarks st uri of
        None \<Rightarrow> st
      | Some c \<Rightarrow> send_ticket_for c ticket expected_incarnation st)"

section \<open>Documents\<close>

definition store_insert ::
  "'u \<Rightarrow> rstr \<Rightarrow> string option \<Rightarrow> 't option \<Rightarrow> ('u, 't, 'r) document_store \<Rightarrow>
     nat \<times> ('u, 't, 'r) document_store" where
  "store_insert uri text language_id tree st =
     (let (incarnation, st) = next_incarnation st;
          document =
            (case (language_id, tree) of
               (Some lang, Some t) \<Rightarrow> with_tree (next_arc st) text lang t incarnation
             | (Some lang, None) \<Rightarrow> with_language text lang incarnation
             | _ \<Rightarrow> document_new text incarnation);
          st = ensure_watermark_entry uri incarnation st
      in (incarnation, st\<lparr>documents := (documents st)(uri \<mapsto> document), next_arc := next_arc st + 1\<rparr>))"

definition store_edit ::
  "'u \<Rightarrow> rstr \<Rightarrow> input_edit list \<Rightarrow> ('u, 't, 'r) document_store \<Rightarrow> ('u, 't, 'r) document_store" where
  "store_edit uri text edits st =
     (case documents st uri of
        Some doc \<Rightarrow>
          ensure_watermark_entry uri (doc_incarnation doc)
            (st\<lparr>documents := (documents st)(uri \<mapsto> document_edit text edits doc)\<rparr>)
      | None \<Rightarrow>
          (let (incarnation, st) = next_incarnation st
           in ensure_watermark_entry uri incarnation
                (st\<lparr>documents := (documents st)(uri \<mapsto> document_new text incarnation)\<rparr>)))"

text \<open>\<open>iter_mut\<close> holds the shard of one entry at a time; the order of the entries is its own.\<close>

definition invalidate_entry :: "'u \<Rightarrow> ('u, 't, 'r) document_store \<Rightarrow> ('u, 't, 'r) document_store" where
  "invalidate_entry uri st =
     (case documents st uri of
        Some doc \<Rightarrow> st\<lparr>documents := (documents st)(uri \<mapsto> invalidate_parse (next_arc st) doc), next_arc := next_arc st + 1\<rparr>
      | None \<Rightarrow> st)"

definition invalidate_all_parses :: "'u list \<Rightarrow> ('u, 't, 'r) document_store \<Rightarrow> 'u list \<times> ('u, 't, 'r) document_store" where
  "invalidate_all_parses entries st = (entries, fold invalidate_entry entries st)"

definition remove_preserving_edit_lock ::
  "'u \<Rightarrow> ('u, 't, 'r) document_store \<Rightarrow> ('t, 'r) document option \<times> ('u, 't, 'r) document_store" where
  "remove_preserving_edit_lock uri st =
     (map_option publish_closed (documents st uri),
      st\<lparr>watermarks := (watermarks st)(uri := None), documents := (documents st)(uri := None)\<rparr>)"

section \<open>Snapshots\<close>

record ('t, 'r) snapshot_view =
  sv_slot :: "('t, 'r) snapshot_slot"
  sv_content_version :: nat

definition latest_snapshot :: "'u \<Rightarrow> ('u, 't, 'r) document_store \<Rightarrow> ('t, 'r) snapshot_view option" where
  "latest_snapshot uri st =
     (case documents st uri of
        None \<Rightarrow> None
      | Some doc \<Rightarrow>
          (let slot = doc_slot doc;
               slot = (case held slot of
                         Some (_, s) \<Rightarrow> if ps_incarnation s \<noteq> doc_incarnation doc then slot\<lparr>held := None\<rparr> else slot
                       | None \<Rightarrow> slot)
           in Some \<lparr>sv_slot = slot, sv_content_version = doc_content_version doc\<rparr>))"

definition current_region_views ::
  "'u \<Rightarrow> nat \<Rightarrow> string option \<Rightarrow> ('u, 't, 'r) document_store \<Rightarrow> 'r resolved_regions option" where
  "current_region_views uri generation host_language st =
     (case latest_snapshot uri st of
        None \<Rightarrow> None
      | Some view \<Rightarrow>
          (case held (sv_slot view) of
             None \<Rightarrow> None
           | Some (_, s) \<Rightarrow>
               if ps_incarnation s \<noteq> current_incarnation (sv_slot view) \<or>
                  ps_parsed_version s \<noteq> sv_content_version view \<or>
                  (case host_language of Some language \<Rightarrow> ps_language s \<noteq> Some language | None \<Rightarrow> False)
               then None else regions_for_generation generation s))"

definition current_resolved_regions :: "'u \<Rightarrow> nat \<Rightarrow> ('u, 't, 'r) document_store \<Rightarrow> 'r list option" where
  "current_resolved_regions uri generation st =
     map_option rr_whole_document (current_region_views uri generation None st)"

definition current_bridge_regions ::
  "'u \<Rightarrow> string \<Rightarrow> nat \<Rightarrow> ('u, 't, 'r) document_store \<Rightarrow> 'r list option" where
  "current_bridge_regions uri host_language generation st =
     map_option rr_bridge (current_region_views uri generation (Some host_language) st)"

definition publish_giveup_snapshot :: "'u \<Rightarrow> nat \<Rightarrow> ('u, 't, 'r) document_store \<Rightarrow> ('u, 't, 'r) document_store" where
  "publish_giveup_snapshot uri expected_incarnation st =
     (case documents st uri of
        None \<Rightarrow> st
      | Some doc \<Rightarrow>
          if doc_incarnation doc \<noteq> expected_incarnation then st
          else if held (doc_slot doc) \<noteq> None then st
          else st\<lparr>documents := (documents st)(uri \<mapsto> snd (publish_snapshot (next_arc st, bare_snapshot doc None) doc)),
                  next_arc := next_arc st + 1\<rparr>)"

datatype language_check = Record_Language | Expect "string option" | Record_If_Unchanged "string option"

record parse_install =
  pi_current :: bool
  pi_published :: bool
  pi_tree_upgrade :: bool
  pi_host_language_changed :: bool

definition no_install :: parse_install where
  "no_install = \<lparr>pi_current = False, pi_published = False, pi_tree_upgrade = False, pi_host_language_changed = False\<rparr>"

definition language_refused :: "language_check \<Rightarrow> ('t, 'r) document \<Rightarrow> bool" where
  "language_refused language doc =
     (case language of
        Record_Language \<Rightarrow> False
      | Expect expected \<Rightarrow> doc_language_id doc \<noteq> expected
      | Record_If_Unchanged expected \<Rightarrow> doc_language_id doc \<noteq> expected)"

definition records :: "language_check \<Rightarrow> bool" where
  "records language = (case language of Record_Language \<Rightarrow> True | Record_If_Unchanged _ \<Rightarrow> True | Expect _ \<Rightarrow> False)"

definition install_parse ::
  "'u \<Rightarrow> language_check \<Rightarrow> ('t, 'r) parse_snapshot arc \<Rightarrow> ('u, 't, 'r) document_store \<Rightarrow>
     parse_install \<times> ('u, 't, 'r) document_store" where
  "install_parse uri language snapshot st =
     (case documents st uri of
        None \<Rightarrow> (no_install, st)
      | Some doc \<Rightarrow>
          if language_refused language doc then (no_install, st)
          else
            (let s = snd snapshot;
                 parsed_current_version = (ps_parsed_version s = doc_content_version doc);
                 detected = ps_language s;
                 fills_placeholder =
                   (ps_tree s \<noteq> None \<and>
                    (case held (doc_slot doc) of
                       Some (_, evicted) \<Rightarrow>
                         ps_parsed_version evicted = ps_parsed_version s \<and>
                         ps_incarnation evicted = ps_incarnation s \<and> ps_tree evicted = None
                     | None \<Rightarrow> False));
                 (published, doc) = publish_snapshot snapshot doc;
                 current = (published \<and> parsed_current_version);
                 host_language_changed =
                   (current \<and> doc_language_id doc \<noteq> None \<and> detected \<noteq> None \<and>
                    doc_language_id doc \<noteq> detected \<and> records language);
                 doc = (if current \<and> records language then record_language detected doc else doc)
             in (\<lparr>pi_current = current, pi_published = published,
                  pi_tree_upgrade = (published \<and> fills_placeholder),
                  pi_host_language_changed = host_language_changed\<rparr>,
                 st\<lparr>documents := (documents st)(uri \<mapsto> doc)\<rparr>)))"

definition complete_parse ::
  "'u \<Rightarrow> language_check \<Rightarrow> ('t, 'r) parse_snapshot arc \<Rightarrow> 'r resolved_regions option \<Rightarrow>
     ('u, 't, 'r) document_store \<Rightarrow> bool \<times> ('u, 't, 'r) document_store" where
  "complete_parse uri language expected regions st =
     (case documents st uri of
        None \<Rightarrow> (False, st)
      | Some doc \<Rightarrow>
          if language_refused language doc then (False, st)
          else if current_incarnation (doc_slot doc) \<noteq> ps_incarnation (snd expected) \<or>
                  \<not> (case held (doc_slot doc) of Some current \<Rightarrow> ptr_eq current expected | None \<Rightarrow> False)
          then (False, st)
          else
            (case regions of
               None \<Rightarrow> (ps_parsed_version (snd expected) = doc_content_version doc, st)
             | Some regions \<Rightarrow>
                 (let (landed, doc) = enrich_document (next_arc st) expected regions doc
                  in if landed
                     then (ps_parsed_version (snd expected) = doc_content_version doc,
                           st\<lparr>documents := (documents st)(uri \<mapsto> doc), next_arc := next_arc st + 1\<rparr>)
                     else (False, st))))"

end
