(* ===== verification/Store_History.thy ===== *)
theory Store_History
  imports Document_Store Histories
begin

text \<open>
  What can happen to the store: documents are opened, changed under their edit lock, reloaded
  and closed, while parses that began at any time publish what they read, complete it and
  move watermarks. A parse never ends, so that it may do any of this in any order; what it may
  do at all is a superset of what \<open>lsp_impl/coordinator/parse.rs\<close> does. Texts of earlier
  versions are remembered only to be compared with.
\<close>

record ('u, 't, 'r) parse_task =
  pt_uri :: 'u
  pt_text :: rstr
  pt_version :: nat
  pt_incarnation :: nat
  pt_published :: "('t, 'r) parse_snapshot arc option"

record ('u, 't, 'r) store_world =
  store :: "('u, 't, 'r) document_store"
  tasks :: "('u, 't, 'r) parse_task list"
  advances :: "(nat \<times> nat \<times> nat) list"
  texts_of :: "nat \<times> nat \<rightharpoonup> rstr"
  steps :: nat

definition world_start :: "('u, 't, 'r) store_world" where
  "world_start = \<lparr>store = empty_store, tasks = [], advances = [], texts_of = Map.empty, steps = 0\<rparr>"

datatype ('u, 't, 'r) store_event =
    Did_Open 'u rstr "string option"
  | Did_Change 'u "content_change list"
  | Reload 'u
  | Did_Close 'u
  | Begin_Parse 'u
  | Install nat "'t option" "string option" language_check "'r list option"
  | Complete nat language_check "'r resolved_regions option"
  | Give_Up 'u nat
  | Open_Advance 'u nat
  | Begin_Advance 'u nat nat
  | Send_Advance nat

text \<open>The text of the document is remembered under its lifetime and version.\<close>

definition remember :: "'u \<Rightarrow> ('u, 't, 'r) store_world \<Rightarrow> ('u, 't, 'r) store_world" where
  "remember uri w =
     (case documents (store w) uri of
        Some d \<Rightarrow> w\<lparr>texts_of := (texts_of w)((doc_incarnation d, doc_content_version d) \<mapsto> doc_text d)\<rparr>
      | None \<Rightarrow> w)"

definition task_snapshot ::
  "('u, 't, 'r) parse_task \<Rightarrow> 't option \<Rightarrow> string option \<Rightarrow> 'r list option \<Rightarrow> ('t, 'r) parse_snapshot" where
  "task_snapshot t tree language discovery =
     \<lparr>ps_text = pt_text t, ps_tree = tree, ps_language = language, ps_parsed_version = pt_version t,
      ps_incarnation = pt_incarnation t, ps_injection_regions = discovery, ps_regions = None\<rparr>"

fun store_step ::
  "(rstr \<Rightarrow> line_index) \<Rightarrow> ('u, 't, 'r) store_event \<Rightarrow> ('u, 't, 'r) store_world \<Rightarrow> ('u, 't, 'r) store_world" where
  "store_step new (Did_Open uri text language_id) w =
     remember uri (w\<lparr>store := snd (store_insert uri text language_id None (store w))\<rparr>)"
| "store_step new (Did_Change uri changes) w =
     (case documents (store w) uri of
        None \<Rightarrow> w
      | Some d \<Rightarrow>
          (case apply_content_changes_with_edits new (doc_text d) changes of
             None \<Rightarrow> w
           | Some (text, edits) \<Rightarrow> remember uri (w\<lparr>store := store_edit uri text edits (store w)\<rparr>)))"
| "store_step new (Reload uri) w = remember uri (w\<lparr>store := invalidate_entry uri (store w)\<rparr>)"
| "store_step new (Did_Close uri) w = w\<lparr>store := snd (remove_preserving_edit_lock uri (store w))\<rparr>"
| "store_step new (Begin_Parse uri) w =
     (case documents (store w) uri of
        None \<Rightarrow> w
      | Some d \<Rightarrow>
          w\<lparr>tasks := tasks w @ [\<lparr>pt_uri = uri, pt_text = doc_text d, pt_version = doc_content_version d,
                             pt_incarnation = doc_incarnation d, pt_published = None\<rparr>]\<rparr>)"
| "store_step new (Install i tree language check discovery) w =
     (if i < length (tasks w)
      then let t = tasks w ! i;
               snapshot = (next_arc (store w), task_snapshot t tree language discovery);
               st = (store w)\<lparr>next_arc := next_arc (store w) + 1\<rparr>;
               (installed, st) = install_parse (pt_uri t) check snapshot st
           in w\<lparr>store := st,
                tasks := (if pi_published installed then (tasks w)[i := t\<lparr>pt_published := Some snapshot\<rparr>]
                          else tasks w)\<rparr>
      else w)"
| "store_step new (Complete i check regions) w =
     (if i < length (tasks w)
      then case pt_published (tasks w ! i) of
             None \<Rightarrow> w
           | Some snapshot \<Rightarrow>
               w\<lparr>store := snd (complete_parse (pt_uri (tasks w ! i)) check snapshot regions (store w))\<rparr>
      else w)"
| "store_step new (Give_Up uri incarnation) w =
     w\<lparr>store := publish_giveup_snapshot uri incarnation (store w)\<rparr>"
| "store_step new (Open_Advance uri ticket) w =
     (case watermarks (store w) uri of
        None \<Rightarrow> w
      | Some c \<Rightarrow>
          w\<lparr>store := advance_watermark uri ticket (store w),
            advances := advances w @ [(c, ticket, wm_incarnation (channels (store w) c))]\<rparr>)"
| "store_step new (Begin_Advance uri ticket incarnation) w =
     (case watermarks (store w) uri of
        None \<Rightarrow> w
      | Some c \<Rightarrow> w\<lparr>advances := advances w @ [(c, ticket, incarnation)]\<rparr>)"
| "store_step new (Send_Advance i) w =
     (if i < length (advances w)
      then case advances w ! i of
             (c, ticket, incarnation) \<Rightarrow> w\<lparr>store := send_ticket_for c ticket incarnation (store w)\<rparr>
      else w)"

definition count_step ::
  "(rstr \<Rightarrow> line_index) \<Rightarrow> ('u, 't, 'r) store_event \<Rightarrow> ('u, 't, 'r) store_world \<Rightarrow> ('u, 't, 'r) store_world" where
  "count_step new e w = (store_step new e w)\<lparr>steps := steps w + 1\<rparr>"

definition step_limit :: nat where
  "step_limit = 2 ^ 64 - 2"

end
