(* ===== verification/Store_Laws.thy ===== *)
theory Store_Laws
  imports Store_History
begin

text \<open>
  The invariant of the store. Each document's text is the one remembered for its lifetime and
  version, and so is the text of the snapshot it holds; the logged edits lead from every
  version that may still be published to the current text. Counters wrap after \<open>step_limit\<close>
  steps, up to which all this holds.
\<close>

section \<open>One document\<close>

lemma map_le_Some: "m \<subseteq>\<^sub>m m' \<Longrightarrow> m k = Some v \<Longrightarrow> m' k = Some v"
  by (auto simp: map_le_def dom_def)

definition edits_after :: "nat \<Rightarrow> ('t, 'r) document \<Rightarrow> input_edit list" where
  "edits_after v d = map snd (filter (\<lambda>(version, _). version > v) (doc_seed_edits d))"

definition log_inv :: "(nat \<times> nat \<rightharpoonup> rstr) \<Rightarrow> ('t, 'r) document \<Rightarrow> bool" where
  "log_inv texts d \<longleftrightarrow>
     (\<forall>p\<in>set (doc_seed_edits d). fst p \<le> doc_content_version d) \<and>
     (\<forall>v t. doc_seed_floor d \<le> v \<and> published_parsed_version d \<le> v \<and> v \<le> doc_content_version d \<and>
        texts (doc_incarnation d, v) = Some t \<longrightarrow> leads (edits_after v d) t (doc_text d))"

definition held_inv :: "nat \<Rightarrow> (nat \<times> nat \<rightharpoonup> rstr) \<Rightarrow> ('t, 'r) document \<Rightarrow> bool" where
  "held_inv arcs texts d \<longleftrightarrow>
     (case held (doc_slot d) of
        None \<Rightarrow> True
      | Some (a, s) \<Rightarrow>
          a < arcs \<and> ps_incarnation s = doc_incarnation d \<and> ps_parsed_version s \<le> doc_content_version d \<and>
          texts (doc_incarnation d, ps_parsed_version s) = Some (ps_text s))"

definition doc_inv :: "nat \<Rightarrow> nat \<Rightarrow> (nat \<times> nat \<rightharpoonup> rstr) \<Rightarrow> ('t, 'r) document \<Rightarrow> bool" where
  "doc_inv counter arcs texts d \<longleftrightarrow>
     0 < doc_incarnation d \<and> doc_incarnation d < counter \<and>
     current_incarnation (doc_slot d) = doc_incarnation d \<and>
     texts (doc_incarnation d, doc_content_version d) = Some (doc_text d) \<and>
     doc_seed_floor d \<le> doc_content_version d \<and>
     held_inv arcs texts d \<and> log_inv texts d"

lemma doc_inv_mono:
  assumes "doc_inv counter arcs texts d" "counter \<le> counter'" "arcs \<le> arcs'" "texts \<subseteq>\<^sub>m texts'"
    and "\<And>v t. texts' (doc_incarnation d, v) = Some t \<Longrightarrow> texts (doc_incarnation d, v) = Some t"
  shows "doc_inv counter' arcs' texts' d"
proof -
  have grows: "texts' k = Some t" if "texts k = Some t" for k t
    using assms(4) that by (rule map_le_Some)
  have "held_inv arcs' texts' d"
    using assms(1,3) grows by (auto simp: doc_inv_def held_inv_def split: option.splits)
  moreover have "log_inv texts' d"
    using assms(1,5) by (auto simp: doc_inv_def log_inv_def)
  ultimately show ?thesis using assms(1,2) grows by (auto simp: doc_inv_def)
qed

text \<open>What one document goes through while it is open: its snapshots only advance.\<close>

definition core :: "('t, 'r) parse_snapshot \<Rightarrow> rstr \<times> 't option \<times> string option \<times> nat" where
  "core s = (ps_text s, ps_tree s, ps_language s, ps_parsed_version s)"

definition evolves :: "('t, 'r) document \<Rightarrow> ('t, 'r) document \<Rightarrow> bool" where
  "evolves d d' \<longleftrightarrow>
     doc_incarnation d' = doc_incarnation d \<and> doc_content_version d \<le> doc_content_version d' \<and>
     rank_le (rank (doc_slot d)) (rank (doc_slot d')) \<and>
     (rank (doc_slot d) = rank (doc_slot d') \<longrightarrow>
        map_option (core \<circ> snd) (held (doc_slot d)) = map_option (core \<circ> snd) (held (doc_slot d')))"

lemma evolves_refl [simp, intro]: "evolves d d"
  by (simp add: evolves_def)

lemma evolves_trans:
  assumes "evolves d d'" "evolves d' d''"
  shows "evolves d d''"
proof -
  have "rank (doc_slot d) = rank (doc_slot d')" if "rank (doc_slot d) = rank (doc_slot d'')"
    using assms that by (auto simp: evolves_def intro: rank_le_antisym)
  with assms show ?thesis by (auto simp: evolves_def intro: rank_le_trans)
qed

lemma evolves_same_slot:
  "doc_incarnation d' = doc_incarnation d \<Longrightarrow> doc_content_version d \<le> doc_content_version d' \<Longrightarrow>
     doc_slot d' = doc_slot d \<Longrightarrow> evolves d d'"
  by (simp add: evolves_def)

lemma published_le:
  "held_inv arcs texts d \<Longrightarrow> published_parsed_version d \<le> doc_content_version d"
  by (auto simp: held_inv_def published_parsed_version_def split: option.splits)

lemma edits_after_now: "log_inv texts d \<Longrightarrow> edits_after (doc_content_version d) d = []"
  by (force simp: log_inv_def edits_after_def filter_empty_conv)

subsection \<open>An edit\<close>

lemma document_edit_fields:
  assumes "doc_content_version d + 1 < 2 ^ 64"
  shows "doc_incarnation (document_edit t edits d) = doc_incarnation d"
    "doc_content_version (document_edit t edits d) = doc_content_version d + 1"
    "doc_slot (document_edit t edits d) = doc_slot d"
    "doc_text (document_edit t edits d) = t"
    "doc_seed_floor (document_edit t edits d) \<in> {doc_seed_floor d, doc_content_version d + 1}"
  using assms by (simp_all add: document_edit_def advance_input_version_def wrap64_def Let_def)

lemma published_same_slot:
  "doc_slot d' = doc_slot d \<Longrightarrow> doc_incarnation d' = doc_incarnation d \<Longrightarrow>
     published_parsed_version d' = published_parsed_version d"
  by (auto simp: published_parsed_version_def split: option.split)

lemma document_edit_log:
  assumes "doc_content_version d + 1 < 2 ^ 64" "doc_seed_floor (document_edit t edits d) \<noteq> doc_content_version d + 1"
  shows "edits \<noteq> []"
    "doc_seed_edits (document_edit t edits d) =
       filter (\<lambda>(version, _). version > published_parsed_version d) (doc_seed_edits d) @
       map (\<lambda>edit. (doc_content_version d + 1, edit)) edits"
proof -
  let ?d = "advance_input_version (d\<lparr>doc_text := t\<rparr>)"
  have v: "doc_content_version ?d = doc_content_version d + 1" "doc_seed_edits ?d = doc_seed_edits d"
    using assms(1) by (simp_all add: advance_input_version_def wrap64_def)
  moreover have "published_parsed_version ?d = published_parsed_version d"
    by (rule published_same_slot) (simp_all add: advance_input_version_def)
  moreover note v
  ultimately show "edits \<noteq> []" "doc_seed_edits (document_edit t edits d) =
       filter (\<lambda>(version, _). version > published_parsed_version d) (doc_seed_edits d) @
       map (\<lambda>edit. (doc_content_version d + 1, edit)) edits"
    using assms(2) by (auto simp: document_edit_def Let_def split: if_splits)
qed

lemma document_edit_tags:
  assumes "doc_content_version d + 1 < 2 ^ 64" "\<forall>p\<in>set (doc_seed_edits d). fst p \<le> doc_content_version d"
  shows "\<forall>p\<in>set (doc_seed_edits (document_edit t edits d)). fst p \<le> doc_content_version d + 1"
proof -
  have "doc_content_version (advance_input_version (d\<lparr>doc_text := t\<rparr>)) = doc_content_version d + 1"
    "doc_seed_edits (advance_input_version (d\<lparr>doc_text := t\<rparr>)) = doc_seed_edits d"
    using assms(1) by (simp_all add: advance_input_version_def wrap64_def)
  with assms(2) show ?thesis by (auto simp: document_edit_def Let_def)
qed

lemma document_edit_inv:
  assumes inv: "doc_inv counter arcs texts d" and fits: "doc_content_version d + 1 < 2 ^ 64"
    and edits: "edits = [] \<or> leads edits (doc_text d) t"
    and fresh: "\<And>v t. texts (doc_incarnation d, v) = Some t \<Longrightarrow> v \<le> doc_content_version d"
  shows "doc_inv counter arcs (texts((doc_incarnation d, doc_content_version d + 1) \<mapsto> t)) (document_edit t edits d)"
proof -
  let ?texts = "texts((doc_incarnation d, doc_content_version d + 1) \<mapsto> t)" and ?d = "document_edit t edits d"
  note f = document_edit_fields [OF fits, of t edits]
  have pub: "published_parsed_version ?d = published_parsed_version d"
    by (rule published_same_slot) (simp_all add: f)
  have old: "held_inv arcs texts d" "log_inv texts d" using inv by (simp_all add: doc_inv_def)
  have "held_inv arcs ?texts ?d"
    using old(1) by (auto simp: held_inv_def f split: option.splits)
  moreover have "log_inv ?texts ?d"
    unfolding log_inv_def
  proof (intro conjI allI impI)
    show "\<forall>p\<in>set (doc_seed_edits ?d). fst p \<le> doc_content_version ?d"
      using document_edit_tags [OF fits] old(2) by (simp add: log_inv_def f)
  next
    fix v u
    assume v: "doc_seed_floor ?d \<le> v \<and> published_parsed_version ?d \<le> v \<and> v \<le> doc_content_version ?d \<and>
      ?texts (doc_incarnation ?d, v) = Some u"
    show "leads (edits_after v ?d) u (doc_text ?d)"
    proof (cases "v = doc_content_version d + 1")
      case True
      then have "edits_after v ?d = []"
        using document_edit_tags [OF fits, of t edits] old(2)
        by (force simp: edits_after_def filter_empty_conv log_inv_def)
      with True v f(1,4) show ?thesis by auto
    next
      case False
      with v have floor: "doc_seed_floor ?d \<noteq> doc_content_version d + 1" by (auto simp: f)
      note log = document_edit_log [OF fits floor]
      have "doc_seed_floor ?d = doc_seed_floor d" using floor f(5) by simp
      with v False have v': "doc_seed_floor d \<le> v" "published_parsed_version d \<le> v" "v \<le> doc_content_version d"
        "texts (doc_incarnation d, v) = Some u"
        by (auto simp: f pub split: if_splits)
      then have "leads (edits_after v d) u (doc_text d)" using old(2) by (simp add: log_inv_def)
      moreover have "edits_after v ?d = edits_after v d @ edits"
      proof -
        have "filter (\<lambda>(version, _). version > v)
            (filter (\<lambda>(version, _). version > published_parsed_version d) (doc_seed_edits d))
          = filter (\<lambda>(version, _). version > v) (doc_seed_edits d)"
          using v'(2) by (auto simp: filter_filter intro!: filter_cong)
        moreover have "filter (\<lambda>(version, _). version > v) (map (\<lambda>edit. (doc_content_version d + 1, edit)) edits)
          = map (\<lambda>edit. (doc_content_version d + 1, edit)) edits"
          using v'(3) by (auto simp: filter_id_conv)
        ultimately show ?thesis by (simp add: edits_after_def log(2) comp_def)
      qed
      ultimately show ?thesis using edits log(1) by (auto simp: leads_append f)
    qed
  qed
  moreover have "doc_seed_floor ?d \<le> doc_content_version ?d"
    using f inv by (auto simp: doc_inv_def)
  ultimately show ?thesis using inv by (simp add: doc_inv_def f)
qed

lemma document_edit_evolves: "doc_content_version d + 1 < 2 ^ 64 \<Longrightarrow> evolves d (document_edit t edits d)"
  by (rule evolves_same_slot) (simp_all add: document_edit_fields)

subsection \<open>A new slot for the same text\<close>

lemma log_inv_later:
  assumes "log_inv texts d" "doc_text d' = doc_text d" "doc_content_version d' = doc_content_version d"
    "doc_incarnation d' = doc_incarnation d" "doc_seed_edits d' = doc_seed_edits d" "doc_seed_floor d' = doc_seed_floor d"
    and later: "published_parsed_version d \<le> published_parsed_version d'"
  shows "log_inv texts d'"
  using assms(1) later unfolding log_inv_def edits_after_def assms(2-6) by (meson order_trans)

lemma doc_inv_slot:
  assumes inv: "doc_inv counter arcs texts d" and arcs: "arcs \<le> arcs'"
    and d': "doc_text d' = doc_text d" "doc_content_version d' = doc_content_version d"
      "doc_incarnation d' = doc_incarnation d" "doc_seed_edits d' = doc_seed_edits d" "doc_seed_floor d' = doc_seed_floor d"
      "current_incarnation (doc_slot d') = current_incarnation (doc_slot d)"
    and later: "published_parsed_version d \<le> published_parsed_version d'"
    and held: "held_inv arcs' texts d'"
  shows "doc_inv counter arcs' texts d'"
  using inv held log_inv_later [OF _ d'(1-5) later] d' by (simp add: doc_inv_def)

lemma held_inv_published:
  "held_inv arcs texts d \<Longrightarrow> held (doc_slot d) = Some (a, s) \<Longrightarrow> published_parsed_version d = ps_parsed_version s"
  by (simp add: held_inv_def published_parsed_version_def)

definition snapshot_fits :: "(nat \<times> nat \<rightharpoonup> rstr) \<Rightarrow> ('t, 'r) document \<Rightarrow> ('t, 'r) parse_snapshot \<Rightarrow> bool" where
  "snapshot_fits texts d s \<longleftrightarrow>
     (ps_incarnation s = doc_incarnation d \<longrightarrow>
        ps_parsed_version s \<le> doc_content_version d \<and>
        texts (doc_incarnation d, ps_parsed_version s) = Some (ps_text s))"

lemma publish_inv:
  assumes inv: "doc_inv counter arcs texts d" and s: "snapshot_fits texts d s" and a: "arcs \<le> a" "a < arcs'"
  shows "doc_inv counter arcs' texts (snd (publish_snapshot (a, s) d))" (is "doc_inv _ _ _ ?d")
    and "evolves d (snd (publish_snapshot (a, s) d))"
proof -
  have held: "held_inv arcs texts d" and inc: "current_incarnation (doc_slot d) = doc_incarnation d"
    using inv by (simp_all add: doc_inv_def)
  show "doc_inv counter arcs' texts ?d"
  proof (cases "admits (doc_slot d) s")
    case True
    then have si: "ps_incarnation s = doc_incarnation d" using inc by (simp add: admits_def)
    have d: "?d = d\<lparr>doc_slot := (doc_slot d)\<lparr>held := Some (a, s)\<rparr>\<rparr>"
      using True by (simp add: publish_snapshot_def)
    have new: "held_inv arcs' texts ?d" using s si a by (simp add: held_inv_def snapshot_fits_def d)
    have "published_parsed_version ?d = ps_parsed_version s" using held_inv_published [OF new] by (simp add: d)
    moreover have "published_parsed_version d \<le> ps_parsed_version s"
    proof (cases "held (doc_slot d)")
      case (Some p)
      then have "published_parsed_version d = ps_parsed_version (snd p)"
        using held_inv_published [OF held, of "fst p" "snd p"] by simp
      with True Some show ?thesis by (auto simp: admits_def)
    qed (simp add: published_parsed_version_def)
    ultimately show ?thesis
      using a by (intro doc_inv_slot [OF inv _ _ _ _ _ _ _ _ new]) (simp_all add: d)
  next
    case False
    then have "?d = d" by (simp add: publish_snapshot_def)
    moreover have "held_inv arcs' texts d" using held a by (auto simp: held_inv_def split: option.splits)
    ultimately show ?thesis using inv by (simp add: doc_inv_def)
  qed
  show "evolves d ?d"
    using admits_rank [of "doc_slot d" s a] by (auto simp: publish_snapshot_def evolves_def)
qed

lemma publish_fields:
  "doc_incarnation (snd (publish_snapshot p d)) = doc_incarnation d"
  "doc_content_version (snd (publish_snapshot p d)) = doc_content_version d"
  "doc_text (snd (publish_snapshot p d)) = doc_text d"
  "held (doc_slot (snd (publish_snapshot p d))) = held (doc_slot d) \<or> held (doc_slot (snd (publish_snapshot p d))) = Some p"
  "fst (publish_snapshot p d) \<Longrightarrow> held (doc_slot (snd (publish_snapshot p d))) = Some p"
  by (auto simp: publish_snapshot_def)

lemma bare_fits: "doc_inv counter arcs texts d \<Longrightarrow> snapshot_fits texts d (bare_snapshot d tree)"
  by (simp add: snapshot_fits_def bare_snapshot_def doc_inv_def)

lemma enrich_inv:
  assumes inv: "doc_inv counter arcs texts d" and h: "held (doc_slot d) = Some (b, s)"
    and e: "enrich_document a (b, s) regions d = (True, d')" and a: "arcs \<le> a" "a < arcs'"
  shows "doc_inv counter arcs' texts d'" "evolves d d'" "held (doc_slot d') = Some (a, s\<lparr>ps_regions := Some regions\<rparr>)"
    "doc_incarnation d' = doc_incarnation d" "doc_content_version d' = doc_content_version d" "doc_text d' = doc_text d"
proof -
  have d': "d' = d\<lparr>doc_slot := (doc_slot d)\<lparr>held := Some (a, s\<lparr>ps_regions := Some regions\<rparr>)\<rparr>\<rparr>"
    using e by (auto simp: enrich_document_def enrich_regions_def Let_def split: if_splits)
  have held: "held_inv arcs texts d" using inv by (simp add: doc_inv_def)
  then have new: "held_inv arcs' texts d'" using h a by (simp add: held_inv_def d')
  have "published_parsed_version d = published_parsed_version d'"
    using held_inv_published [OF held h] held_inv_published [OF new] by (simp add: d')
  then show "doc_inv counter arcs' texts d'"
    using a by (intro doc_inv_slot [OF inv _ _ _ _ _ _ _ _ new]) (simp_all add: d')
  show "evolves d d'" using h by (simp add: evolves_def d' rank_def core_def)
  show "held (doc_slot d') = Some (a, s\<lparr>ps_regions := Some regions\<rparr>)"
    "doc_incarnation d' = doc_incarnation d" "doc_content_version d' = doc_content_version d" "doc_text d' = doc_text d"
    by (simp_all add: d')
qed

subsection \<open>Reloads, languages and new documents\<close>

lemma invalidate_fields:
  assumes "doc_content_version d + 1 < 2 ^ 64"
  shows "doc_incarnation (invalidate_parse a d) = doc_incarnation d"
    "doc_content_version (invalidate_parse a d) = doc_content_version d + 1"
    "doc_text (invalidate_parse a d) = doc_text d"
    "doc_seed_edits (invalidate_parse a d) = []"
    "doc_seed_floor (invalidate_parse a d) = doc_content_version d + 1"
    "\<exists>s. doc_slot (invalidate_parse a d) = \<lparr>current_incarnation = doc_incarnation d, held = Some (a, s)\<rparr> \<and>
       ps_incarnation s = doc_incarnation d \<and> ps_parsed_version s = doc_content_version d + 1 \<and>
       ps_text s = doc_text d \<and> ps_tree s = None"
  using assms
  by (simp_all add: invalidate_parse_def advance_input_version_def wrap64_def Let_def slot_with_def bare_snapshot_def)

lemma invalidate_inv:
  assumes inv: "doc_inv counter arcs texts d" and fits: "doc_content_version d + 1 < 2 ^ 64" and a: "arcs \<le> a" "a < arcs'"
  shows "doc_inv counter arcs' (texts((doc_incarnation d, doc_content_version d + 1) \<mapsto> doc_text d)) (invalidate_parse a d)"
    and "evolves d (invalidate_parse a d)"
proof -
  note f = invalidate_fields [OF fits, of a]
  obtain s where s: "doc_slot (invalidate_parse a d) = \<lparr>current_incarnation = doc_incarnation d, held = Some (a, s)\<rparr>"
    "ps_incarnation s = doc_incarnation d" "ps_parsed_version s = doc_content_version d + 1"
    "ps_text s = doc_text d" "ps_tree s = None"
    using f(6) by blast
  show "doc_inv counter arcs' (texts((doc_incarnation d, doc_content_version d + 1) \<mapsto> doc_text d)) (invalidate_parse a d)"
    using inv s a by (auto simp: doc_inv_def f held_inv_def log_inv_def edits_after_def published_parsed_version_def)
  have "rank_le (rank (doc_slot d)) (rank (doc_slot (invalidate_parse a d)))
      \<and> rank (doc_slot d) \<noteq> rank (doc_slot (invalidate_parse a d))"
    using inv s by (auto simp: doc_inv_def held_inv_def rank_def rank_le_def split: option.splits)
  then show "evolves d (invalidate_parse a d)"
    by (simp add: evolves_def f)
qed

lemma record_language_inv:
  "doc_inv counter arcs texts d \<Longrightarrow> doc_inv counter arcs texts (record_language l d)"
  "evolves d (record_language l d)"
  "doc_incarnation (record_language l d) = doc_incarnation d"
  "doc_content_version (record_language l d) = doc_content_version d"
  "doc_text (record_language l d) = doc_text d"
  "doc_slot (record_language l d) = doc_slot d"
  by (simp_all add: record_language_def doc_inv_def held_inv_def log_inv_def edits_after_def
      published_parsed_version_def evolves_def cong: option.case_cong)

lemma fresh_document_inv:
  assumes "d = document_new t i \<or> (\<exists>l. d = with_language t l i)" "0 < i" "i < counter"
  shows "doc_inv counter arcs (texts((i, 0) \<mapsto> t)) d" "doc_incarnation d = i" "doc_content_version d = 0" "doc_text d = t"
    "held (doc_slot d) = None"
  using assms
  by (auto simp: doc_inv_def document_new_def with_language_def bootstrap_def held_inv_def log_inv_def
      edits_after_def)

end
