(* ===== verification/Store_Invariant.thy ===== *)
theory Store_Invariant
  imports Store_Laws
begin

text \<open>
  The invariant of the whole store with the parses under way, kept by every step until the
  counters run out, and what a step does to each open document.
\<close>

section \<open>The invariant\<close>

definition task_inv :: "('u, 't, 'r) store_world \<Rightarrow> ('u, 't, 'r) parse_task \<Rightarrow> bool" where
  "task_inv w t \<longleftrightarrow>
     0 < pt_incarnation t \<and> texts_of w (pt_incarnation t, pt_version t) = Some (pt_text t) \<and>
     (case pt_published t of
        None \<Rightarrow> True
      | Some (a, s) \<Rightarrow>
          a < next_arc (store w) \<and>
          (\<forall>u d s'. documents (store w) u = Some d \<longrightarrow> held (doc_slot d) = Some (a, s') \<longrightarrow> s' = s))"

definition counters_inv :: "('u, 't, 'r) store_world \<Rightarrow> bool" where
  "counters_inv w \<longleftrightarrow> 1 \<le> open_counter (store w) \<and> open_counter (store w) \<le> steps w + 1"

definition documents_inv :: "('u, 't, 'r) store_world \<Rightarrow> bool" where
  "documents_inv w \<longleftrightarrow>
     (\<forall>u d. documents (store w) u = Some d \<longrightarrow>
        doc_inv (open_counter (store w)) (next_arc (store w)) (texts_of w) d \<and> doc_content_version d \<le> steps w) \<and>
     (\<forall>u u' d d'. documents (store w) u = Some d \<longrightarrow> documents (store w) u' = Some d' \<longrightarrow>
        doc_incarnation d = doc_incarnation d' \<longrightarrow> u = u')"

definition texts_inv :: "('u, 't, 'r) store_world \<Rightarrow> bool" where
  "texts_inv w \<longleftrightarrow>
     (\<forall>i v t. texts_of w (i, v) = Some t \<longrightarrow>
        i < open_counter (store w) \<and>
        (\<forall>u d. documents (store w) u = Some d \<longrightarrow> doc_incarnation d = i \<longrightarrow> v \<le> doc_content_version d))"

definition channels_inv :: "('u, 't, 'r) store_world \<Rightarrow> bool" where
  "channels_inv w \<longleftrightarrow>
     (\<forall>u. documents (store w) u = None \<longleftrightarrow> watermarks (store w) u = None) \<and>
     (\<forall>u d c. documents (store w) u = Some d \<longrightarrow> watermarks (store w) u = Some c \<longrightarrow>
        c < next_channel (store w) \<and> wm_incarnation (channels (store w) c) = doc_incarnation d) \<and>
     (\<forall>c < next_channel (store w). wm_ticket (channels (store w) c) = 0 \<or>
        (\<exists>c'. (c', wm_ticket (channels (store w) c), wm_incarnation (channels (store w) c)) \<in> set (advances w)))"

definition world_inv :: "('u, 't, 'r) store_world \<Rightarrow> bool" where
  "world_inv w \<longleftrightarrow> counters_inv w \<and> documents_inv w \<and> texts_inv w \<and> channels_inv w \<and>
     (\<forall>t\<in>set (tasks w). task_inv w t)"

section \<open>What a step does\<close>

definition watermark_of :: "'u \<Rightarrow> ('u, 't, 'r) document_store \<Rightarrow> nat" where
  "watermark_of u st = (case watermarks st u of Some c \<Rightarrow> wm_ticket (channels st c) | None \<Rightarrow> 0)"

definition world_moves :: "('u, 't, 'r) store_world \<Rightarrow> ('u, 't, 'r) store_world \<Rightarrow> bool" where
  "world_moves w w' \<longleftrightarrow>
     open_counter (store w) \<le> open_counter (store w') \<and>
     (\<forall>u d'. documents (store w') u = Some d' \<longrightarrow> doc_incarnation d' < open_counter (store w) \<longrightarrow>
        (\<exists>d. documents (store w) u = Some d \<and> evolves d d' \<and>
             watermark_of u (store w) \<le> watermark_of u (store w')))"

lemma world_moves_refl: "world_moves w w"
  by (simp add: world_moves_def)

lemma world_moves_trans:
  assumes "world_moves w w'" "world_moves w' w''"
  shows "world_moves w w''"
  unfolding world_moves_def
proof (intro conjI allI impI)
  show "open_counter (store w) \<le> open_counter (store w'')"
    using assms by (auto simp: world_moves_def intro: order_trans)
  fix u d''
  assume d'': "documents (store w'') u = Some d''" and i: "doc_incarnation d'' < open_counter (store w)"
  then obtain d' where d': "documents (store w') u = Some d'" "evolves d' d''"
    "watermark_of u (store w') \<le> watermark_of u (store w'')"
    using assms by (fastforce simp: world_moves_def)
  then have "doc_incarnation d' < open_counter (store w)" using i by (simp add: evolves_def)
  then obtain d where "documents (store w) u = Some d" "evolves d d'"
    "watermark_of u (store w) \<le> watermark_of u (store w')"
    using d' assms(1) by (fastforce simp: world_moves_def)
  with d' show "\<exists>d. documents (store w) u = Some d \<and> evolves d d'' \<and>
      watermark_of u (store w) \<le> watermark_of u (store w'')"
    by (meson evolves_trans order_trans)
qed

section \<open>Parses under way\<close>

text \<open>Documents hold what they held, or an \<open>Arc\<close> allocated since.\<close>

definition holds_on :: "('u, 't, 'r) store_world \<Rightarrow> ('u, 't, 'r) store_world \<Rightarrow> bool" where
  "holds_on w w' \<longleftrightarrow>
     (\<forall>u d' a s. documents (store w') u = Some d' \<longrightarrow> held (doc_slot d') = Some (a, s) \<longrightarrow>
        next_arc (store w) \<le> a \<or> (\<exists>u0 d. documents (store w) u0 = Some d \<and> held (doc_slot d) = Some (a, s)))"

lemma task_keeps:
  assumes "task_inv w t" "texts_of w \<subseteq>\<^sub>m texts_of w'" "next_arc (store w) \<le> next_arc (store w')" "holds_on w w'"
  shows "task_inv w' t"
proof -
  have "texts_of w' (pt_incarnation t, pt_version t) = Some (pt_text t)"
    using assms(1) map_le_Some [OF assms(2)] by (simp add: task_inv_def)
  moreover have "s' = s" if p: "pt_published t = Some (a, s)"
    and d': "documents (store w') u = Some d'" "held (doc_slot d') = Some (a, s')" for a s u d' s'
  proof -
    have a: "a < next_arc (store w)" and
      old: "\<And>u d s'. documents (store w) u = Some d \<Longrightarrow> held (doc_slot d) = Some (a, s') \<Longrightarrow> s' = s"
      using assms(1) p by (auto simp: task_inv_def)
    obtain u0 d where "documents (store w) u0 = Some d" "held (doc_slot d) = Some (a, s')"
      using assms(4) d' a unfolding holds_on_def by (meson not_le)
    then show ?thesis by (rule old)
  qed
  ultimately show ?thesis
    using assms(1,3) by (auto simp: task_inv_def split: option.splits)
qed

section \<open>A document is replaced by what became of it\<close>

text \<open>The world with another document at a URI, and more remembered.\<close>

definition put ::
  "'u \<Rightarrow> ('t, 'r) document \<Rightarrow> nat \<Rightarrow> (nat \<times> nat \<rightharpoonup> rstr) \<Rightarrow> ('u, 't, 'r) store_world \<Rightarrow> ('u, 't, 'r) store_world" where
  "put u d arcs texts w =
     w\<lparr>store := (store w)\<lparr>documents := (documents (store w))(u \<mapsto> d), next_arc := arcs\<rparr>, texts_of := texts,
       steps := steps w + 1\<rparr>"

lemma put_simps [simp]:
  "documents (store (put u d arcs texts w)) = (documents (store w))(u \<mapsto> d)"
  "next_arc (store (put u d arcs texts w)) = arcs" "texts_of (put u d arcs texts w) = texts"
  "steps (put u d arcs texts w) = steps w + 1" "tasks (put u d arcs texts w) = tasks w"
  "advances (put u d arcs texts w) = advances w"
  "open_counter (store (put u d arcs texts w)) = open_counter (store w)"
  "watermarks (store (put u d arcs texts w)) = watermarks (store w)"
  "channels (store (put u d arcs texts w)) = channels (store w)"
  "next_channel (store (put u d arcs texts w)) = next_channel (store w)"
  by (simp_all add: put_def)

text \<open>Texts remembered beyond the old ones are of this document, up to its version.\<close>

definition texts_grow :: "('t, 'r) document \<Rightarrow> (nat \<times> nat \<rightharpoonup> rstr) \<Rightarrow> (nat \<times> nat \<rightharpoonup> rstr) \<Rightarrow> bool" where
  "texts_grow d texts texts' \<longleftrightarrow>
     texts \<subseteq>\<^sub>m texts' \<and>
     (\<forall>i v t. texts' (i, v) = Some t \<longrightarrow> texts (i, v) = Some t \<or> (i = doc_incarnation d \<and> v \<le> doc_content_version d))"

lemma texts_grow_refl [simp, intro]: "texts_grow d texts texts"
  by (simp add: texts_grow_def)

lemma put_inv:
  assumes inv: "world_inv w" and d: "documents (store w) u = Some d"
    and same: "doc_incarnation d' = doc_incarnation d" "doc_content_version d \<le> doc_content_version d'"
      "doc_content_version d' \<le> steps w + 1"
    and doc: "doc_inv (open_counter (store w)) arcs texts d'" and arcs: "next_arc (store w) \<le> arcs"
    and grow: "texts_grow d' (texts_of w) texts"
    and held: "held (doc_slot d') = held (doc_slot d) \<or> (\<exists>a s. held (doc_slot d') = Some (a, s) \<and> next_arc (store w) \<le> a)"
  shows "world_inv (put u d' arcs texts w)"
proof -
  let ?w = "put u d' arcs texts w"
  have old: "counters_inv w" "documents_inv w" "texts_inv w" "channels_inv w" "\<forall>t\<in>set (tasks w). task_inv w t"
    using inv by (simp_all add: world_inv_def)
  have inj: "u1 = u2" if "documents (store w) u1 = Some d1" "documents (store w) u2 = Some d2"
    "doc_incarnation d1 = doc_incarnation d2" for u1 u2 d1 d2
    using old(2) that unfolding documents_inv_def by blast
  have sub: "texts k = Some t" if "texts_of w k = Some t" for k t
    using grow that by (auto simp: texts_grow_def intro: map_le_Some)
  have "documents_inv ?w"
    unfolding documents_inv_def
  proof (intro conjI allI impI)
    fix u' d''
    assume d'': "documents (store ?w) u' = Some d''"
    show "doc_inv (open_counter (store ?w)) (next_arc (store ?w)) (texts_of ?w) d''"
    proof (cases "u' = u")
      case False
      with d'' have o: "documents (store w) u' = Some d''" by simp
      then have "doc_incarnation d'' \<noteq> doc_incarnation d'"
        using inj [OF _ d] o False same(1) by auto
      then have "texts_of w (doc_incarnation d'', v) = Some t" if "texts (doc_incarnation d'', v) = Some t" for v t
        using grow that by (auto simp: texts_grow_def)
      moreover have "doc_inv (open_counter (store w)) (next_arc (store w)) (texts_of w) d''"
        using old(2) o by (auto simp: documents_inv_def)
      ultimately show ?thesis
        using doc_inv_mono [OF _ order_refl arcs, of "open_counter (store w)" "texts_of w" d'' texts] grow
        by (simp add: texts_grow_def)
    qed (use d'' doc in simp)
    show "doc_content_version d'' \<le> steps ?w"
      using old(2) d'' same(3) by (auto simp: documents_inv_def le_SucI split: if_splits)
  next
    fix u1 u2 d1 d2
    assume "documents (store ?w) u1 = Some d1" "documents (store ?w) u2 = Some d2" "doc_incarnation d1 = doc_incarnation d2"
    then show "u1 = u2"
      using inj d same(1) by (auto split: if_splits)
  qed
  moreover have "texts_inv ?w"
    unfolding texts_inv_def
  proof (intro allI impI conjI)
    fix i v t
    assume t: "texts_of ?w (i, v) = Some t"
    then consider "texts_of w (i, v) = Some t" | "i = doc_incarnation d'" "v \<le> doc_content_version d'"
      using grow by (auto simp: texts_grow_def)
    note cs = this
    show "i < open_counter (store ?w)"
      using cs old(3) doc by cases (auto simp: texts_inv_def doc_inv_def)
    fix u' d''
    assume d'': "documents (store ?w) u' = Some d''" "doc_incarnation d'' = i"
    from cs show "v \<le> doc_content_version d''"
    proof cases
      case 1
      then have "v \<le> doc_content_version d0" if "documents (store w) u0 = Some d0" "doc_incarnation d0 = i" for u0 d0
        using old(3) that by (auto simp: texts_inv_def)
      then show ?thesis using d'' d same by (cases "u' = u") force+
    next
      case 2
      then have "u' = u"
        using inj d'' same(1) d by (auto split: if_splits)
      with 2 d'' show ?thesis by simp
    qed
  qed
  moreover have "task_inv ?w t" if "t \<in> set (tasks w)" for t
  proof -
    have task: "task_inv w t" using old(5) that by simp
    have "holds_on w ?w"
      unfolding holds_on_def
    proof (intro allI impI)
      fix u' d'' a s
      assume d'': "documents (store ?w) u' = Some d''" "held (doc_slot d'') = Some (a, s)"
      show "next_arc (store w) \<le> a \<or> (\<exists>u0 d. documents (store w) u0 = Some d \<and> held (doc_slot d) = Some (a, s))"
      proof (cases "u' = u")
        case True
        then have "d'' = d'" using d''(1) by simp
        then have h: "held (doc_slot d') = Some (a, s)" using d''(2) by simp
        from held show ?thesis
        proof
          assume "held (doc_slot d') = held (doc_slot d)"
          then have "held (doc_slot d) = Some (a, s)" by (simp add: h)
          with d show ?thesis by blast
        next
          assume "\<exists>a s. held (doc_slot d') = Some (a, s) \<and> next_arc (store w) \<le> a"
          then show ?thesis using h by auto
        qed
      next
        case False
        then have "documents (store w) u' = Some d''" using d''(1) by simp
        with d''(2) show ?thesis by blast
      qed
    qed
    moreover have "texts_of w \<subseteq>\<^sub>m texts_of ?w" unfolding put_simps using grow unfolding texts_grow_def by blast
    moreover have "next_arc (store w) \<le> next_arc (store ?w)" unfolding put_simps by (rule arcs)
    ultimately show ?thesis using task task_keeps by blast
  qed
  moreover have "channels_inv ?w"
    unfolding channels_inv_def put_simps
  proof (intro conjI allI impI)
    show "(((documents (store w))(u \<mapsto> d')) u' = None) = (watermarks (store w) u' = None)" for u'
      using conjunct1 [OF old(4) [unfolded channels_inv_def], rule_format, of u'] d by (cases "u' = u") simp_all
    fix u' d'' c
    assume h: "((documents (store w))(u \<mapsto> d')) u' = Some d''" "watermarks (store w) u' = Some c"
    have c: "c < next_channel (store w) \<and> wm_incarnation (channels (store w) c) = doc_incarnation d0"
      if "documents (store w) u' = Some d0" for d0
      using old(4) that h(2) unfolding channels_inv_def by blast
    have "\<exists>d0. documents (store w) u' = Some d0 \<and> doc_incarnation d0 = doc_incarnation d''"
      using h(1) d same(1) by (cases "u' = u") simp_all
    with c show "c < next_channel (store w)" "wm_incarnation (channels (store w) c) = doc_incarnation d''"
      by force+
  qed (use old(4) in \<open>simp add: channels_inv_def\<close>)
  ultimately show ?thesis
    using old(1) by (auto simp: world_inv_def counters_inv_def)
qed

lemma watermark_of_same:
  "watermarks st' = watermarks st \<Longrightarrow> channels st' = channels st \<Longrightarrow> watermark_of u st' = watermark_of u st"
  by (simp add: watermark_of_def cong: option.case_cong)

lemma put_moves:
  assumes "documents (store w) u = Some d" "evolves d d'"
  shows "world_moves w (put u d' arcs texts w)"
  using assms by (auto simp: world_moves_def watermark_of_same [of "store (put u d' arcs texts w)" "store w"])

section \<open>Steps that leave the documents alone\<close>

lemma documents_kept:
  assumes inv: "world_inv w"
    and same: "documents (store w') = documents (store w)" "texts_of w' = texts_of w"
      "open_counter (store w') = open_counter (store w)"
    and later: "next_arc (store w) \<le> next_arc (store w')" "steps w \<le> steps w'"
    and chans: "channels_inv w'" and ts: "\<And>t. t \<in> set (tasks w') \<Longrightarrow> t \<in> set (tasks w) \<or> task_inv w' t"
  shows "world_inv w'"
proof -
  have docs: "documents_inv w" using inv by (simp add: world_inv_def)
  have "doc_inv (open_counter (store w')) (next_arc (store w')) (texts_of w') d \<and> doc_content_version d \<le> steps w'"
    if "documents (store w') u = Some d" for u d
  proof -
    have "doc_inv (open_counter (store w)) (next_arc (store w)) (texts_of w) d" "doc_content_version d \<le> steps w"
      using docs that same(1) by (simp_all add: documents_inv_def)
    then show ?thesis
      using doc_inv_mono [OF _ order_refl later(1) map_le_refl] later(2) by (simp add: same)
  qed
  then have "documents_inv w'"
    using docs unfolding documents_inv_def same(1) by simp
  moreover have "task_inv w' t" if "t \<in> set (tasks w)" for t
    by (rule task_keeps [of w]) (use inv same later that in \<open>auto simp: world_inv_def holds_on_def\<close>)
  ultimately show ?thesis
    using inv same later chans ts by (auto simp: world_inv_def counters_inv_def texts_inv_def)
qed

lemma documents_kept_moves:
  assumes "documents (store w') = documents (store w)" "open_counter (store w') = open_counter (store w)"
    "\<And>u. watermark_of u (store w) \<le> watermark_of u (store w')"
  shows "world_moves w w'"
  using assms by (simp add: world_moves_def)

lemma channels_kept:
  assumes "channels_inv w" "documents (store w') = documents (store w)" "watermarks (store w') = watermarks (store w)"
    "channels (store w') = channels (store w)" "next_channel (store w') = next_channel (store w)"
    "set (advances w) \<subseteq> set (advances w')"
  shows "channels_inv w'"
  using assms(1,6) unfolding channels_inv_def assms(2-5) by blast

text \<open>A ticket that is larger, sent to a channel for its own lifetime.\<close>

definition sent :: "nat \<Rightarrow> nat \<Rightarrow> ('u, 't, 'r) document_store \<Rightarrow> ('u, 't, 'r) document_store" where
  "sent c ticket st =
     (if ticket > wm_ticket (channels st c)
      then st\<lparr>channels := (channels st)(c := (channels st c)\<lparr>wm_ticket := ticket\<rparr>)\<rparr> else st)"

lemma sent_simps [simp]:
  "documents (sent c k st) = documents st" "watermarks (sent c k st) = watermarks st"
  "next_channel (sent c k st) = next_channel st" "open_counter (sent c k st) = open_counter st"
  "next_arc (sent c k st) = next_arc st"
  "wm_incarnation (channels (sent c k st) c') = wm_incarnation (channels st c')"
  "wm_ticket (channels (sent c k st) c') =
     (if c' = c then max k (wm_ticket (channels st c)) else wm_ticket (channels st c'))"
  by (auto simp: sent_def)

lemma sends:
  "send_ticket c k st = sent c k st"
  "send_ticket_for c k i st = (if wm_incarnation (channels st c) = i then sent c k st else st)"
  by (auto simp: send_ticket_def send_ticket_for_def sent_def Let_def)

lemma sent_channels:
  assumes "channels_inv w" "(c0, k, wm_incarnation (channels (store w) c)) \<in> set advs" "set (advances w) \<subseteq> set advs"
    "store w' = sent c k (store w)" "advances w' = advs"
  shows "channels_inv w'"
proof -
  have "wm_ticket (channels (store w') c') = 0 \<or>
      (\<exists>c''. (c'', wm_ticket (channels (store w') c'), wm_incarnation (channels (store w') c')) \<in> set (advances w'))"
    if "c' < next_channel (store w')" for c'
  proof (cases "c' = c \<and> wm_ticket (channels (store w) c) \<le> k")
    case True
    then show ?thesis using assms(2,4,5) by (auto simp: max_def)
  next
    case False
    then have "wm_ticket (channels (store w') c') = wm_ticket (channels (store w) c')" using assms(4) by (auto simp: max_def)
    moreover have "c' < next_channel (store w)" using that assms(4) by simp
    then have "wm_ticket (channels (store w) c') = 0 \<or>
        (\<exists>c''. (c'', wm_ticket (channels (store w) c'), wm_incarnation (channels (store w) c')) \<in> set (advances w))"
      using assms(1) by (auto simp: channels_inv_def)
    ultimately show ?thesis using assms(3-5) by auto
  qed
  with assms(1,4) show ?thesis by (auto simp: channels_inv_def)
qed

lemma sent_watermark: "watermark_of u st \<le> watermark_of u (sent c k st)"
  by (auto simp: watermark_of_def split: option.splits)

end
