(* ===== verification/Store_Safety.thy ===== *)
theory Store_Safety
  imports Store_Invariant
begin

text \<open>Every step of the store keeps its invariant and lets documents only advance, until the counters run out.\<close>

definition fine :: "('u, 't, 'r) store_world \<Rightarrow> ('u, 't, 'r) store_world \<Rightarrow> bool" where
  "fine w w' \<longleftrightarrow> world_inv w' \<and> world_moves w w'"

lemma world_invD:
  assumes "world_inv w"
  shows "counters_inv w" "documents_inv w" "texts_inv w" "channels_inv w" "\<And>t. t \<in> set (tasks w) \<Longrightarrow> task_inv w t"
  using assms by (simp_all add: world_inv_def)

lemma documents_invD:
  assumes "world_inv w" "documents (store w) u = Some d"
  shows "doc_inv (open_counter (store w)) (next_arc (store w)) (texts_of w) d" "doc_content_version d \<le> steps w"
    "\<exists>c. watermarks (store w) u = Some c \<and> c < next_channel (store w) \<and>
       wm_incarnation (channels (store w) c) = doc_incarnation d"
proof -
  show "doc_inv (open_counter (store w)) (next_arc (store w)) (texts_of w) d" "doc_content_version d \<le> steps w"
    using world_invD(2) [OF assms(1)] assms(2) by (auto simp: documents_inv_def)
  have "watermarks (store w) u \<noteq> None"
    using world_invD(4) [OF assms(1)] assms(2) unfolding channels_inv_def by (metis option.distinct(1))
  then show "\<exists>c. watermarks (store w) u = Some c \<and> c < next_channel (store w) \<and>
       wm_incarnation (channels (store w) c) = doc_incarnation d"
    using world_invD(4) [OF assms(1)] assms(2) by (auto simp: channels_inv_def)
qed

lemma texts_fresh:
  assumes "world_inv w" "documents (store w) u = Some d" "texts_of w (doc_incarnation d, v) = Some t"
  shows "v \<le> doc_content_version d"
  using world_invD(3) [OF assms(1)] assms(2,3) by (auto simp: texts_inv_def)

lemma put_fine:
  assumes "world_inv w" "documents (store w) u = Some d" "evolves d d'" "doc_content_version d' \<le> steps w + 1"
    "doc_inv (open_counter (store w)) arcs texts d'" "next_arc (store w) \<le> arcs" "texts_grow d' (texts_of w) texts"
    "held (doc_slot d') = held (doc_slot d) \<or> (\<exists>a s. held (doc_slot d') = Some (a, s) \<and> next_arc (store w) \<le> a)"
  shows "fine w (put u d' arcs texts w)"
  unfolding fine_def
proof
  show "world_inv (put u d' arcs texts w)"
    using assms(3) by (intro put_inv [OF assms(1,2) _ _ assms(4-8)]) (simp_all add: evolves_def)
qed (rule put_moves [OF assms(2,3)])

text \<open>A new version of a text is remembered.\<close>

lemma texts_grow_new:
  assumes "world_inv w" "documents (store w) u = Some d" "doc_incarnation d' = doc_incarnation d"
    "doc_content_version d' = doc_content_version d + 1"
  shows "texts_grow d' (texts_of w) ((texts_of w)((doc_incarnation d, doc_content_version d + 1) \<mapsto> t))"
proof -
  have "texts_of w (doc_incarnation d, doc_content_version d + 1) = None"
    using texts_fresh [OF assms(1,2), of "doc_content_version d + 1"] by (cases "texts_of w (doc_incarnation d, doc_content_version d + 1)") auto
  then have "texts_of w \<subseteq>\<^sub>m (texts_of w)((doc_incarnation d, doc_content_version d + 1) \<mapsto> t)"
    by (auto simp: map_le_def)
  then show ?thesis by (auto simp: texts_grow_def assms split: if_splits)
qed

section \<open>Edits and reloads\<close>

lemma change_fine:
  assumes inv: "world_inv w" and limit: "steps w + 1 \<le> step_limit" and d: "documents (store w) u = Some d"
    and edits: "edits = [] \<or> leads edits (doc_text d) t"
  shows "fine w ((remember u (w\<lparr>store := store_edit u t edits (store w)\<rparr>))\<lparr>steps := steps w + 1\<rparr>)"
proof -
  note di = documents_invD [OF inv d]
  have v: "doc_content_version d + 1 < 2 ^ 64" using di(2) limit by (simp add: step_limit_def)
  let ?d = "document_edit t edits d" and ?texts = "(texts_of w)((doc_incarnation d, doc_content_version d + 1) \<mapsto> t)"
  have st: "store_edit u t edits (store w) = (store w)\<lparr>documents := (documents (store w))(u \<mapsto> ?d)\<rparr>"
    using di(3) d by (auto simp: store_edit_def ensure_watermark_entry_def)
  have "(remember u (w\<lparr>store := store_edit u t edits (store w)\<rparr>))\<lparr>steps := steps w + 1\<rparr> =
      put u ?d (next_arc (store w)) ?texts w"
    by (simp add: remember_def st put_def document_edit_fields [OF v])
  moreover have "fine w (put u ?d (next_arc (store w)) ?texts w)"
  proof (rule put_fine [OF inv d document_edit_evolves [OF v]])
    show "doc_inv (open_counter (store w)) (next_arc (store w)) ?texts ?d"
      using document_edit_inv [OF di(1) v edits] texts_fresh [OF inv d] by blast
    show "texts_grow ?d (texts_of w) ?texts"
      by (rule texts_grow_new [OF inv d]) (simp_all add: document_edit_fields [OF v])
  qed (use di(2) in \<open>simp_all add: document_edit_fields [OF v]\<close>)
  ultimately show ?thesis by simp
qed

lemma reload_fine:
  assumes inv: "world_inv w" and limit: "steps w + 1 \<le> step_limit" and d: "documents (store w) u = Some d"
  shows "fine w ((remember u (w\<lparr>store := invalidate_entry u (store w)\<rparr>))\<lparr>steps := steps w + 1\<rparr>)"
proof -
  note di = documents_invD [OF inv d]
  have v: "doc_content_version d + 1 < 2 ^ 64" using di(2) limit by (simp add: step_limit_def)
  let ?n = "next_arc (store w)"
  let ?d = "invalidate_parse ?n d" and ?texts = "(texts_of w)((doc_incarnation d, doc_content_version d + 1) \<mapsto> doc_text d)"
  note f = invalidate_fields [OF v, of ?n]
  have "(remember u (w\<lparr>store := invalidate_entry u (store w)\<rparr>))\<lparr>steps := steps w + 1\<rparr> = put u ?d (?n + 1) ?texts w"
    by (simp add: remember_def invalidate_entry_def d put_def f)
  moreover have "fine w (put u ?d (?n + 1) ?texts w)"
  proof (rule put_fine [OF inv d])
    show "doc_inv (open_counter (store w)) (?n + 1) ?texts ?d" "evolves d ?d"
      using invalidate_inv [OF di(1) v, of ?n "?n + 1"] by simp_all
    show "texts_grow ?d (texts_of w) ?texts"
      by (rule texts_grow_new [OF inv d]) (simp_all add: f)
    show "held (doc_slot ?d) = held (doc_slot d) \<or> (\<exists>a s. held (doc_slot ?d) = Some (a, s) \<and> ?n \<le> a)"
      using f(6) by auto
  qed (use di(2) in \<open>simp_all add: f\<close>)
  ultimately show ?thesis by simp
qed

section \<open>Opening and closing\<close>

lemma draw_incarnation_small: "0 < c \<Longrightarrow> c < closed_incarnation \<Longrightarrow> draw_incarnation c = (c, c + 1)"
  by (simp add: draw_incarnation.simps closed_incarnation_def wrap64_def)

text \<open>Opening takes a new lifetime, a new channel and the first version of a text.\<close>

lemma open_store:
  assumes inv: "world_inv w" and limit: "steps w + 1 \<le> step_limit"
  obtains d where "snd (store_insert u t l None (store w)) = (store w)\<lparr>
      documents := (documents (store w))(u \<mapsto> d), open_counter := open_counter (store w) + 1,
      watermarks := (watermarks (store w))(u \<mapsto> next_channel (store w)),
      channels := (channels (store w))(next_channel (store w) :=
        \<lparr>wm_incarnation = open_counter (store w), wm_ticket = 0\<rparr>),
      next_channel := next_channel (store w) + 1, next_arc := next_arc (store w) + 1\<rparr>"
    "d = document_new t (open_counter (store w)) \<or> (\<exists>l. d = with_language t l (open_counter (store w)))"
proof -
  let ?c = "open_counter (store w)"
  have c: "0 < ?c" "?c < closed_incarnation"
    using world_invD(1) [OF inv] limit by (simp_all add: counters_inv_def step_limit_def closed_incarnation_def)
  let ?d = "case l of Some lang \<Rightarrow> with_language t lang ?c | None \<Rightarrow> document_new t ?c"
  have "case watermarks (store w) u of Some c \<Rightarrow> wm_incarnation (channels (store w) c) \<noteq> ?c | None \<Rightarrow> True"
  proof (cases "documents (store w) u")
    case None
    then show ?thesis using world_invD(4) [OF inv] by (simp add: channels_inv_def)
  next
    case (Some d)
    then show ?thesis using documents_invD [OF inv Some] by (auto simp: doc_inv_def)
  qed
  then have "snd (store_insert u t l None (store w)) = (store w)\<lparr>
      documents := (documents (store w))(u \<mapsto> ?d), open_counter := ?c + 1,
      watermarks := (watermarks (store w))(u \<mapsto> next_channel (store w)),
      channels := (channels (store w))(next_channel (store w) := \<lparr>wm_incarnation = ?c, wm_ticket = 0\<rparr>),
      next_channel := next_channel (store w) + 1, next_arc := next_arc (store w) + 1\<rparr>"
    by (auto simp: store_insert_def next_incarnation_def draw_incarnation_small [OF c] ensure_watermark_entry_def
        split: option.splits)
  then show ?thesis by (rule that) (cases l; auto)
qed

lemma open_fine:
  assumes inv: "world_inv w" and limit: "steps w + 1 \<le> step_limit"
  shows "fine w ((remember u (w\<lparr>store := snd (store_insert u t l None (store w))\<rparr>))\<lparr>steps := steps w + 1\<rparr>)"
proof -
  let ?c = "open_counter (store w)" and ?k = "next_channel (store w)"
  obtain d where st: "snd (store_insert u t l None (store w)) = (store w)\<lparr>
      documents := (documents (store w))(u \<mapsto> d), open_counter := ?c + 1,
      watermarks := (watermarks (store w))(u \<mapsto> ?k),
      channels := (channels (store w))(?k := \<lparr>wm_incarnation = ?c, wm_ticket = 0\<rparr>),
      next_channel := ?k + 1, next_arc := next_arc (store w) + 1\<rparr>" (is "_ = ?st")
    and new: "d = document_new t ?c \<or> (\<exists>l. d = with_language t l ?c)"
    using open_store [OF inv limit] by metis
  have "0 < ?c" using world_invD(1) [OF inv] by (simp add: counters_inv_def)
  then have d: "doc_inv (?c + 1) (next_arc (store w) + 1) ((texts_of w)((?c, 0) \<mapsto> t)) d" "doc_incarnation d = ?c"
      "doc_content_version d = 0" "doc_text d = t" "held (doc_slot d) = None"
    using fresh_document_inv [OF new, of "?c + 1"] by simp_all
  let ?texts = "(texts_of w)((?c, 0) \<mapsto> t)"
  let ?w = "w\<lparr>store := ?st, texts_of := ?texts, steps := steps w + 1\<rparr>"
  have below: "doc_incarnation d' < ?c" if "documents (store w) u' = Some d'" for u' d'
    using documents_invD(1) [OF inv that] by (simp add: doc_inv_def)
  have texts: "i < ?c" if "texts_of w (i, v) = Some t" for i v t
    using world_invD(3) [OF inv] that by (auto simp: texts_inv_def)
  then have le: "texts_of w \<subseteq>\<^sub>m ?texts" by (fastforce simp: map_le_def)
  have "documents_inv ?w"
  proof -
    have docs: "documents (store ?w) = (documents (store w))(u \<mapsto> d)" by simp
    have ok: "doc_inv (?c + 1) (next_arc (store w) + 1) ?texts d'" "doc_content_version d' \<le> steps w + 1"
      if "((documents (store w))(u \<mapsto> d)) u' = Some d'" for u' d'
    proof -
      have "doc_inv (?c + 1) (next_arc (store w) + 1) ?texts d' \<and> doc_content_version d' \<le> steps w + 1"
      proof (cases "u' = u")
        case False
        with that have o: "documents (store w) u' = Some d'" by simp
        have "doc_inv (?c + 1) (next_arc (store w) + 1) ?texts d'"
          by (rule doc_inv_mono [OF documents_invD(1) [OF inv o] _ _ le]) (use below [OF o] in auto)
        then show ?thesis using documents_invD(2) [OF inv o] by simp
      qed (use that d(1,3) in simp)
      then show "doc_inv (?c + 1) (next_arc (store w) + 1) ?texts d'" "doc_content_version d' \<le> steps w + 1"
        by simp_all
    qed
    have inj: "u1 = u2" if "((documents (store w))(u \<mapsto> d)) u1 = Some d1"
      "((documents (store w))(u \<mapsto> d)) u2 = Some d2" "doc_incarnation d1 = doc_incarnation d2" for u1 u2 d1 d2
    proof -
      have old: "u1 = u2" if "documents (store w) u1 = Some d1" "documents (store w) u2 = Some d2"
        using world_invD(2) [OF inv] that \<open>doc_incarnation d1 = doc_incarnation d2\<close> unfolding documents_inv_def by blast
      consider "u1 = u" "u2 = u" | "u1 \<noteq> u" "u2 = u" | "u1 = u" "u2 \<noteq> u" | "u1 \<noteq> u" "u2 \<noteq> u" by blast
      then show ?thesis
      proof cases
        case 2
        then have "doc_incarnation d1 < ?c" "d2 = d" using that below [of u1 d1] by simp_all
        then show ?thesis using that(3) d(2) by simp
      next
        case 3
        then have "doc_incarnation d2 < ?c" "d1 = d" using that below [of u2 d2] by simp_all
        then show ?thesis using that(3) d(2) by simp
      qed (use that old in simp_all)
    qed
    show ?thesis
      unfolding documents_inv_def docs
    proof (intro conjI allI impI)
      fix u' d'
      assume h: "((documents (store w))(u \<mapsto> d)) u' = Some d'"
      show "doc_inv (open_counter (store ?w)) (next_arc (store ?w)) (texts_of ?w) d'" "doc_content_version d' \<le> steps ?w"
        using ok [OF h] by simp_all
    qed (rule inj)
  qed
  moreover have "texts_inv ?w"
    unfolding texts_inv_def
  proof (intro allI impI conjI)
    fix i v t'
    assume "texts_of ?w (i, v) = Some t'"
    then consider "i = ?c" "v = 0" | "texts_of w (i, v) = Some t'" by (auto split: if_splits)
    note cs = this
    show "i < open_counter (store ?w)" using cs texts by cases force+
    fix u' d'
    assume d': "documents (store ?w) u' = Some d'" and i: "doc_incarnation d' = i"
    have "(if u' = u then Some d else documents (store w) u') = Some d'" using d' by simp
    then consider "u' = u" "d' = d" | "documents (store w) u' = Some d'" by (cases "u' = u") simp_all
    then show "v \<le> doc_content_version d'"
    proof cases
      case 1
      with i d(2) have "i = ?c" by simp
      with cs texts show ?thesis by cases force+
    next
      case 2
      with i below have "i < ?c" by blast
      with cs have "texts_of w (i, v) = Some t'" by cases simp_all
      with i show ?thesis using texts_fresh [OF inv 2] by blast
    qed
  qed
  moreover have "channels_inv ?w"
    using world_invD(4) [OF inv] d(2) by (auto simp: channels_inv_def less_Suc_eq)
  moreover have "task_inv ?w t" if "t \<in> set (tasks ?w)" for t
    by (rule task_keeps [of w])
      (use world_invD(5) [OF inv] that le d(5) in \<open>auto simp: holds_on_def split: if_splits\<close>)
  ultimately have "world_inv ?w"
    using world_invD(1) [OF inv] by (auto simp: world_inv_def counters_inv_def)
  moreover have "watermark_of u' (store w) = watermark_of u' ?st" if "documents (store w) u' = Some d'" "u' \<noteq> u" for u' d'
    using documents_invD(3) [OF inv that(1)] that(2) by (auto simp: watermark_of_def)
  then have "world_moves w ?w"
    using d(2) by (auto simp: world_moves_def)
  moreover have "(remember u (w\<lparr>store := ?st\<rparr>))\<lparr>steps := steps w + 1\<rparr> = ?w"
    by (simp add: remember_def d)
  ultimately show ?thesis unfolding st by (simp add: fine_def)
qed

lemma close_fine:
  assumes inv: "world_inv w"
  shows "fine w (w\<lparr>store := snd (remove_preserving_edit_lock u (store w)), steps := steps w + 1\<rparr>)" (is "fine w ?w")
proof -
  have st: "store ?w = (store w)\<lparr>watermarks := (watermarks (store w))(u := None), documents := (documents (store w))(u := None)\<rparr>"
    by (simp add: remove_preserving_edit_lock_def)
  have "documents_inv ?w"
    using world_invD(2) [OF inv] unfolding documents_inv_def st by (auto simp: le_SucI)
  moreover have "texts_inv ?w"
    using world_invD(3) [OF inv] unfolding texts_inv_def st by auto
  moreover have "channels_inv ?w"
    using world_invD(4) [OF inv] unfolding channels_inv_def st by auto
  moreover have "task_inv ?w t" if "t \<in> set (tasks ?w)" for t
    by (rule task_keeps [of w])
      (use world_invD(5) [OF inv] that in \<open>auto simp: holds_on_def remove_preserving_edit_lock_def split: if_splits\<close>)
  ultimately have "world_inv ?w"
    using world_invD(1) [OF inv] by (auto simp: world_inv_def counters_inv_def remove_preserving_edit_lock_def)
  moreover have "world_moves w ?w"
    by (auto simp: world_moves_def remove_preserving_edit_lock_def watermark_of_def cong: option.case_cong)
  ultimately show ?thesis by (simp add: fine_def)
qed

section \<open>Publishing\<close>

text \<open>Only an address was taken, or nothing was done.\<close>

lemma idle_fine:
  assumes inv: "world_inv w" and "next_arc (store w) \<le> n"
  shows "fine w (w\<lparr>store := (store w)\<lparr>next_arc := n\<rparr>, steps := steps w + 1\<rparr>)" (is "fine w ?w")
  unfolding fine_def
proof
  show "world_inv ?w"
  proof (rule documents_kept [OF inv])
    show "channels_inv ?w" by (rule channels_kept [OF world_invD(4) [OF inv]]) simp_all
  qed (use assms(2) in simp_all)
  show "world_moves w ?w"
    by (rule documents_kept_moves) (simp_all add: watermark_of_same [of "(store w)\<lparr>next_arc := n\<rparr>" "store w"])
qed

lemma idle_fine': "world_inv w \<Longrightarrow> fine w (w\<lparr>steps := steps w + 1\<rparr>)"
  using idle_fine [of w "next_arc (store w)"] by simp

text \<open>A snapshot with a new address, of a text that is remembered, is published or refused.\<close>

lemma publish_fine:
  assumes inv: "world_inv w" and d: "documents (store w) u = Some d" and s: "snapshot_fits (texts_of w) d s"
    and d': "d' = snd (publish_snapshot (next_arc (store w), s) d) \<or>
      (\<exists>l. d' = record_language l (snd (publish_snapshot (next_arc (store w), s) d)))"
  shows "fine w (put u d' (next_arc (store w) + 1) (texts_of w) w)"
proof -
  let ?n = "next_arc (store w)"
  let ?p = "snd (publish_snapshot (?n, s) d)"
  note di = documents_invD [OF inv d]
  have p: "doc_inv (open_counter (store w)) (?n + 1) (texts_of w) ?p" "evolves d ?p"
    using publish_inv [OF di(1) s, of ?n "?n + 1"] by simp_all
  have "doc_slot d' = doc_slot ?p" "doc_content_version d' = doc_content_version d"
    using d' by (auto simp: record_language_inv publish_fields)
  moreover have "doc_inv (open_counter (store w)) (?n + 1) (texts_of w) d'" "evolves d d'"
    using d' p record_language_inv(1) [OF p(1)] evolves_trans [OF p(2) record_language_inv(2)] by auto
  ultimately show ?thesis
    using di(2) publish_fields(4) [of "(?n, s)" d] by (intro put_fine [OF inv d]) auto
qed

lemma giveup_fine:
  assumes inv: "world_inv w"
  shows "fine w (w\<lparr>store := publish_giveup_snapshot u i (store w), steps := steps w + 1\<rparr>)"
proof (cases "\<exists>d. documents (store w) u = Some d \<and> doc_incarnation d = i \<and> held (doc_slot d) = None")
  case True
  then obtain d where d: "documents (store w) u = Some d" "doc_incarnation d = i" "held (doc_slot d) = None" by blast
  let ?d = "snd (publish_snapshot (next_arc (store w), bare_snapshot d None) d)"
  have "w\<lparr>store := publish_giveup_snapshot u i (store w), steps := steps w + 1\<rparr> =
      put u ?d (next_arc (store w) + 1) (texts_of w) w"
    using d by (simp add: publish_giveup_snapshot_def put_def)
  moreover have "fine w (put u ?d (next_arc (store w) + 1) (texts_of w) w)"
    by (rule publish_fine [OF inv d(1) bare_fits [OF documents_invD(1) [OF inv d(1)], of None]]) simp
  ultimately show ?thesis by simp
next
  case False
  then have "publish_giveup_snapshot u i (store w) = store w"
    by (auto simp: publish_giveup_snapshot_def split: option.splits)
  then show ?thesis using idle_fine' [OF inv] by simp
qed

lemma task_fits:
  assumes inv: "world_inv w" and "t \<in> set (tasks w)" and d: "documents (store w) u = Some d"
  shows "snapshot_fits (texts_of w) d (task_snapshot t tree l r)"
  using world_invD(5) [OF inv assms(2)] texts_fresh [OF inv d]
  by (auto simp: snapshot_fits_def task_snapshot_def task_inv_def)

text \<open>What \<open>install_parse\<close> does to the store.\<close>

lemma install_parse_cases:
  obtains (refused) "snd (install_parse u check p st) = st" "\<not> pi_published (fst (install_parse u check p st))"
  | (published) d d' where "documents st u = Some d"
      "d' = snd (publish_snapshot p d) \<or> (\<exists>l. d' = record_language l (snd (publish_snapshot p d)))"
      "snd (install_parse u check p st) = st\<lparr>documents := (documents st)(u \<mapsto> d')\<rparr>"
      "pi_published (fst (install_parse u check p st)) \<longleftrightarrow> fst (publish_snapshot p d)"
proof (cases "documents st u")
  case None
  then show ?thesis by (intro refused) (simp_all add: install_parse_def no_install_def)
next
  case (Some d)
  show ?thesis
  proof (cases "language_refused check d")
    case True
    with Some show ?thesis by (intro refused) (simp_all add: install_parse_def no_install_def)
  next
    case False
    obtain ok q where pub: "publish_snapshot p d = (ok, q)" by fastforce
    let ?d = "if ok \<and> ps_parsed_version (snd p) = doc_content_version d \<and> records check
      then record_language (ps_language (snd p)) q else q"
    have "snd (install_parse u check p st) = st\<lparr>documents := (documents st)(u \<mapsto> ?d)\<rparr>"
      "pi_published (fst (install_parse u check p st)) \<longleftrightarrow> ok"
      using Some False pub by (simp_all add: install_parse_def Let_def)
    with Some pub show ?thesis by (intro published [of d ?d]) auto
  qed
qed

lemma publish_task:
  assumes inv: "world_inv w" and i: "i < length (tasks w)"
    and s: "\<And>u d s'. documents (store w) u = Some d \<Longrightarrow> held (doc_slot d) = Some (a, s') \<Longrightarrow> s' = s"
    and a: "a < next_arc (store w)"
  shows "fine w (w\<lparr>tasks := (tasks w)[i := (tasks w ! i)\<lparr>pt_published := Some (a, s)\<rparr>]\<rparr>)" (is "fine w ?w")
  unfolding fine_def
proof
  have "task_inv w ((tasks w ! i)\<lparr>pt_published := Some (a, s)\<rparr>)"
    using world_invD(5) [OF inv, of "tasks w ! i"] i s a by (simp add: task_inv_def)
  moreover have "task_inv ?w t \<longleftrightarrow> task_inv w t" for t
    by (simp add: task_inv_def cong: option.case_cong split: option.split)
  ultimately have "task_inv ?w t" if "t \<in> set (tasks ?w)" for t
    using that world_invD(5) [OF inv] set_update_subset_insert [of "tasks w" i] by auto
  moreover have "channels_inv ?w" by (rule channels_kept [OF world_invD(4) [OF inv]]) simp_all
  ultimately show "world_inv ?w" by (intro documents_kept [OF inv]) simp_all
  show "world_moves w ?w" by (rule documents_kept_moves) simp_all
qed

lemma fine_trans: "fine w w' \<Longrightarrow> fine w' w'' \<Longrightarrow> fine w w''"
  using world_moves_trans by (auto simp: fine_def)

lemma install_fine:
  assumes inv: "world_inv w"
  shows "fine w ((store_step new (Install i tree l check r) w)\<lparr>steps := steps w + 1\<rparr>)"
proof (cases "i < length (tasks w)")
  case True
  let ?t = "tasks w ! i" and ?n = "next_arc (store w)"
  let ?u = "pt_uri ?t" and ?s = "task_snapshot ?t tree l r" and ?st = "(store w)\<lparr>next_arc := ?n + 1\<rparr>"
  let ?res = "install_parse ?u check (?n, ?s) ?st"
  have step: "(store_step new (Install i tree l check r) w)\<lparr>steps := steps w + 1\<rparr> =
      (let w' = w\<lparr>store := snd ?res, steps := steps w + 1\<rparr>
       in if pi_published (fst ?res) then w'\<lparr>tasks := (tasks w')[i := (tasks w' ! i)\<lparr>pt_published := Some (?n, ?s)\<rparr>]\<rparr>
          else w')"
    using True by (simp add: Let_def case_prod_beta)
  show ?thesis
  proof (cases rule: install_parse_cases [of ?u check "(?n, ?s)" ?st])
    case refused
    then show ?thesis using idle_fine [OF inv, of "?n + 1"] unfolding step by simp
  next
    case (published d d')
    then have d: "documents (store w) ?u = Some d" by simp
    let ?w = "put ?u d' (?n + 1) (texts_of w) w"
    have w': "w\<lparr>store := snd ?res, steps := steps w + 1\<rparr> = ?w"
      using published(3) by (simp add: put_def)
    have fine: "fine w ?w"
      by (rule publish_fine [OF inv d task_fits [OF inv _ d] published(2)]) (use True in simp)
    have "fine ?w (?w\<lparr>tasks := (tasks ?w)[i := (tasks ?w ! i)\<lparr>pt_published := Some (?n, ?s)\<rparr>]\<rparr>)"
      if ok: "fst (publish_snapshot (?n, ?s) d)"
    proof (rule publish_task)
      show "world_inv ?w" using fine by (simp add: fine_def)
      fix u'' d'' s'
      assume d'': "documents (store ?w) u'' = Some d''" "held (doc_slot d'') = Some (?n, s')"
      show "s' = ?s"
      proof (cases "u'' = ?u")
        case True
        have "held (doc_slot d') = Some (?n, ?s)"
          using publish_fields(5) [OF ok] published(2) by (auto simp: record_language_inv)
        with True d'' show ?thesis by simp
      next
        case False
        then have "documents (store w) u'' = Some d''" using d'' by simp
        then have "held_inv ?n (texts_of w) d''"
          using documents_invD(1) [OF inv] by (auto simp: doc_inv_def)
        with d''(2) show ?thesis by (simp add: held_inv_def)
      qed
    qed (use True in simp_all)
    with fine published(4) show ?thesis unfolding step w' Let_def by (auto intro: fine_trans)
  qed
qed (use idle_fine' [OF inv] in simp)

text \<open>A completion enriches the very snapshot its parse published.\<close>

lemma complete_parse_cases:
  obtains (kept) "snd (complete_parse u check e r st) = st"
  | (enriched) d d' regions b where "documents st u = Some d" "held (doc_slot d) = Some b" "fst b = fst e"
      "enrich_document (next_arc st) e regions d = (True, d')"
      "snd (complete_parse u check e r st) = st\<lparr>documents := (documents st)(u \<mapsto> d'), next_arc := next_arc st + 1\<rparr>"
proof (cases "documents st u")
  case None
  then show ?thesis by (intro kept) (simp add: complete_parse_def)
next
  case (Some d)
  show ?thesis
  proof (cases "language_refused check d \<or> current_incarnation (doc_slot d) \<noteq> ps_incarnation (snd e) \<or>
      \<not> (case held (doc_slot d) of Some b \<Rightarrow> ptr_eq b e | None \<Rightarrow> False) \<or> r = None")
    case True
    with Some show ?thesis by (intro kept) (auto simp: complete_parse_def split: option.split)
  next
    case False
    then obtain b regions where b: "held (doc_slot d) = Some b" "ptr_eq b e" "r = Some regions"
      by (auto split: option.splits)
    obtain landed d' where en: "enrich_document (next_arc st) e regions d = (landed, d')" by fastforce
    show ?thesis
    proof (cases landed)
      case True
      with Some False b en show ?thesis
        by (intro enriched [of d b regions d']) (auto simp: complete_parse_def ptr_eq_def)
    next
      case landed: False
      with Some False b en show ?thesis by (intro kept) (auto simp: complete_parse_def)
    qed
  qed
qed

lemma complete_fine:
  assumes inv: "world_inv w"
  shows "fine w ((store_step new (Complete i check r) w)\<lparr>steps := steps w + 1\<rparr>)"
proof (cases "i < length (tasks w) \<and> pt_published (tasks w ! i) \<noteq> None")
  case True
  then obtain a s where p: "pt_published (tasks w ! i) = Some (a, s)" and i: "i < length (tasks w)" by auto
  let ?u = "pt_uri (tasks w ! i)"
  have step: "(store_step new (Complete i check r) w)\<lparr>steps := steps w + 1\<rparr> =
      w\<lparr>store := snd (complete_parse ?u check (a, s) r (store w)), steps := steps w + 1\<rparr>"
    using p i by simp
  show ?thesis
  proof (cases rule: complete_parse_cases [of ?u check "(a, s)" r "store w"])
    case kept
    then show ?thesis unfolding step using idle_fine' [OF inv] by simp
  next
    case (enriched d d' regions b)
    have "task_inv w (tasks w ! i)" using world_invD(5) [OF inv] i by simp
    then have "snd b = s"
      using p enriched(1,2,3) by (cases b) (auto simp: task_inv_def)
    then have h: "held (doc_slot d) = Some (a, s)" using enriched(2,3) by (cases b) simp
    note e = enrich_inv [OF documents_invD(1) [OF inv enriched(1)] h enriched(4), of "next_arc (store w) + 1"]
    have "fine w (put ?u d' (next_arc (store w) + 1) (texts_of w) w)"
      by (rule put_fine [OF inv enriched(1)]) (use e documents_invD(2) [OF inv enriched(1)] in auto)
    then show ?thesis unfolding step enriched(5) by (simp add: put_def)
  qed
qed (use idle_fine' [OF inv] in \<open>auto split: option.split\<close>)

section \<open>Watermarks\<close>

lemma advances_fine:
  assumes inv: "world_inv w"
  shows "fine w (w\<lparr>advances := advances w @ xs, steps := steps w + 1\<rparr>)" (is "fine w ?w")
  unfolding fine_def
proof
  have "channels_inv ?w" by (rule channels_kept [OF world_invD(4) [OF inv]]) simp_all
  then show "world_inv ?w" by (intro documents_kept [OF inv]) simp_all
  show "world_moves w ?w" by (rule documents_kept_moves) simp_all
qed

lemma sent_fine:
  assumes inv: "world_inv w" and "(c0, k, wm_incarnation (channels (store w) c)) \<in> set (advances w @ xs)"
  shows "fine w (w\<lparr>store := sent c k (store w), advances := advances w @ xs, steps := steps w + 1\<rparr>)" (is "fine w ?w")
  unfolding fine_def
proof
  have "channels_inv ?w"
    by (rule sent_channels [OF world_invD(4) [OF inv] assms(2)]) simp_all
  then show "world_inv ?w" by (intro documents_kept [OF inv]) simp_all
  show "world_moves w ?w" by (rule documents_kept_moves) (simp_all add: sent_watermark)
qed

section \<open>Every step\<close>

lemma step_fine:
  assumes ix: "indexes new" and inv: "world_inv w" and limit: "steps w + 1 \<le> step_limit"
  shows "fine w (count_step new e w)"
proof (cases e)
  case (Did_Open u t l)
  then show ?thesis using open_fine [OF inv limit] by (simp add: count_step_def)
next
  case (Did_Change u changes)
  show ?thesis
  proof (cases "documents (store w) u")
    case (Some d)
    show ?thesis
    proof (cases "apply_content_changes_with_edits new (doc_text d) changes")
      case (Some p)
      obtain t edits where p: "p = (t, edits)" by fastforce
      have "edits = [] \<or> leads edits (doc_text d) t"
        using content_changes_sound [OF ix] Some p by (metis (full_types))
      from change_fine [OF inv limit \<open>documents (store w) u = Some d\<close> this] show ?thesis
        using Did_Change Some p \<open>documents (store w) u = Some d\<close> by (simp add: count_step_def)
    qed (use Did_Change Some idle_fine' [OF inv] in \<open>simp add: count_step_def\<close>)
  qed (use Did_Change idle_fine' [OF inv] in \<open>simp add: count_step_def\<close>)
next
  case (Reload u)
  show ?thesis
  proof (cases "documents (store w) u")
    case None
    then show ?thesis using Reload idle_fine' [OF inv] by (simp add: count_step_def invalidate_entry_def remember_def)
  next
    case (Some d)
    from reload_fine [OF inv limit Some] Reload show ?thesis by (simp add: count_step_def)
  qed
next
  case (Did_Close u)
  then show ?thesis using close_fine [OF inv] by (simp add: count_step_def)
next
  case (Begin_Parse u)
  show ?thesis
  proof (cases "documents (store w) u")
    case None
    then show ?thesis using Begin_Parse idle_fine' [OF inv] by (simp add: count_step_def)
  next
    case (Some d)
    let ?t = "\<lparr>pt_uri = u, pt_text = doc_text d, pt_version = doc_content_version d,
      pt_incarnation = doc_incarnation d, pt_published = None\<rparr>"
    let ?w = "w\<lparr>tasks := tasks w @ [?t], steps := steps w + 1\<rparr>"
    have "task_inv ?w ?t"
      using documents_invD(1) [OF inv Some] by (simp add: task_inv_def doc_inv_def)
    moreover have "channels_inv ?w" by (rule channels_kept [OF world_invD(4) [OF inv]]) simp_all
    ultimately have "world_inv ?w" by (intro documents_kept [OF inv]) auto
    moreover have "world_moves w ?w" by (rule documents_kept_moves) simp_all
    ultimately show ?thesis using Begin_Parse Some by (simp add: count_step_def fine_def)
  qed
next
  case (Install i tree l check r)
  then show ?thesis using install_fine [OF inv] by (simp add: count_step_def del: store_step.simps)
next
  case (Complete i check r)
  then show ?thesis using complete_fine [OF inv] by (simp add: count_step_def del: store_step.simps)
next
  case (Give_Up u i)
  then show ?thesis using giveup_fine [OF inv] by (simp add: count_step_def)
next
  case (Open_Advance u k)
  show ?thesis
  proof (cases "watermarks (store w) u")
    case None
    then show ?thesis using Open_Advance idle_fine' [OF inv] by (simp add: count_step_def)
  next
    case (Some c)
    then show ?thesis
      using Open_Advance sent_fine [OF inv, of c k c "[(c, k, wm_incarnation (channels (store w) c))]"]
      by (simp add: count_step_def advance_watermark_def sends)
  qed
next
  case (Begin_Advance u k i)
  then show ?thesis
    using idle_fine' [OF inv] advances_fine [OF inv] by (simp add: count_step_def split: option.split)
next
  case (Send_Advance i)
  show ?thesis
  proof (cases "i < length (advances w)")
    case True
    obtain c k n where a: "advances w ! i = (c, k, n)" by (cases "advances w ! i") auto
    then have "(c, k, n) \<in> set (advances w @ [])" using True nth_mem by fastforce
    then show ?thesis
      using Send_Advance True a sent_fine [OF inv, of c k c "[]"] idle_fine' [OF inv]
      by (auto simp: count_step_def sends)
  qed (use Send_Advance idle_fine' [OF inv] in \<open>simp add: count_step_def\<close>)
qed

section \<open>Histories\<close>

lemma start_inv: "world_inv world_start"
  by (simp add: world_inv_def counters_inv_def documents_inv_def texts_inv_def channels_inv_def
      world_start_def empty_store_def)

text \<open>What holds until the counters run out.\<close>

definition store_ok :: "('u, 't, 'r) store_world \<Rightarrow> bool" where
  "store_ok w \<longleftrightarrow> (steps w \<le> step_limit \<longrightarrow> world_inv w)"

definition store_moves :: "('u, 't, 'r) store_world \<Rightarrow> ('u, 't, 'r) store_world \<Rightarrow> bool" where
  "store_moves w w' \<longleftrightarrow> steps w \<le> steps w' \<and> (steps w' \<le> step_limit \<longrightarrow> world_moves w w')"

lemma steps_count [simp]: "steps (count_step new e w) = steps w + 1"
  by (simp add: count_step_def)

lemma steps_run: "steps (fold (count_step new) es w) = steps w + length es"
  by (induction es arbitrary: w) simp_all

text \<open>The crate that indexes lines, and the histories over it.\<close>

locale indexed =
  fixes new :: "rstr \<Rightarrow> line_index"
  assumes crate: "indexes new"

sublocale indexed \<subseteq> sth: history store_ok store_moves "count_step new"
proof
  show "store_ok w \<Longrightarrow> store_ok (count_step new e w)" for w :: "('a, 'b, 'c) store_world" and e
    using step_fine [OF crate, of w e] by (auto simp: store_ok_def fine_def)
  show "store_ok w \<Longrightarrow> store_moves w (count_step new e w)" for w :: "('a, 'b, 'c) store_world" and e
    using step_fine [OF crate, of w e] by (auto simp: store_ok_def store_moves_def fine_def)
qed (auto simp: store_moves_def world_moves_refl intro: world_moves_trans)

context indexed
begin

lemma reach_inv:
  assumes "length es \<le> step_limit"
  shows "world_inv (fold (count_step new) es world_start)"
proof -
  have "store_ok (fold (count_step new) es world_start)"
    by (rule sth.run_ok) (simp add: store_ok_def start_inv)
  then show ?thesis using assms by (simp add: store_ok_def steps_run world_start_def)
qed

lemma reach_moves:
  assumes "length (es @ es') \<le> step_limit"
  shows "world_moves (fold (count_step new) es world_start) (fold (count_step new) (es @ es') world_start)"
proof -
  let ?w = "fold (count_step new) es world_start"
  have "store_ok ?w" by (rule sth.run_ok) (simp add: store_ok_def start_inv)
  then have "store_moves ?w (fold (count_step new) es' ?w)" by (rule sth.run_moves)
  then show ?thesis using assms by (simp add: store_moves_def steps_run world_start_def)
qed

text \<open>A snapshot holds a text of its lifetime, and the current one when its version is current.\<close>

lemma reach_held:
  assumes "length es \<le> step_limit" "documents (store (fold (count_step new) es world_start)) u = Some d"
    "held (doc_slot d) = Some (a, s)"
  shows "texts_of (fold (count_step new) es world_start) (doc_incarnation d, ps_parsed_version s) = Some (ps_text s)"
    "ps_incarnation s = doc_incarnation d" "ps_parsed_version s \<le> doc_content_version d"
    "ps_parsed_version s = doc_content_version d \<Longrightarrow> ps_text s = doc_text d"
  using documents_invD(1) [OF reach_inv [OF assms(1)] assms(2)] assms(3)
  by (auto simp: doc_inv_def held_inv_def)

lemma reach_seed:
  assumes "length es \<le> step_limit" "documents (store (fold (count_step new) es world_start)) u = Some d"
    "incremental_seed l d = Some (tree, edits)"
  shows "\<exists>a s. held (doc_slot d) = Some (a, s) \<and> ps_tree s = Some tree \<and> ps_language s = Some l \<and>
    leads edits (ps_text s) (doc_text d)"
proof -
  have inv: "doc_inv (open_counter (store (fold (count_step new) es world_start)))
      (next_arc (store (fold (count_step new) es world_start))) (texts_of (fold (count_step new) es world_start)) d"
    by (rule documents_invD(1) [OF reach_inv [OF assms(1)] assms(2)])
  obtain a s where s: "held (doc_slot d) = Some (a, s)" "doc_seed_floor d \<le> ps_parsed_version s"
    "ps_language s = Some l" "ps_tree s = Some tree" "edits = edits_after (ps_parsed_version s) d"
    using assms(3) by (auto simp: incremental_seed_def edits_after_def split: option.splits if_splits)
  have "published_parsed_version d = ps_parsed_version s"
    using inv held_inv_published [OF _ s(1)] by (auto simp: doc_inv_def)
  then have "leads edits (ps_text s) (doc_text d)"
    using inv s reach_held [OF assms(1,2) s(1)] by (auto simp: doc_inv_def log_inv_def)
  with s show ?thesis by blast
qed

end

interpretation plain: indexed plain_index
  by unfold_locales (rule plain_index_indexes)

section \<open>Texts of the past\<close>

text \<open>What is remembered was the text of a document after some step.\<close>

lemma remember_texts:
  "texts_of (remember u w) k = Some t \<Longrightarrow> texts_of w k = Some t \<or>
     (\<exists>d. documents (store (remember u w)) u = Some d \<and> k = (doc_incarnation d, doc_content_version d) \<and> doc_text d = t)"
  by (auto simp: remember_def split: option.splits if_splits)

lemma step_texts:
  assumes "texts_of (count_step new e w) (i, v) = Some t"
  shows "texts_of w (i, v) = Some t \<or>
    (\<exists>u d. documents (store (count_step new e w)) u = Some d \<and> doc_incarnation d = i \<and>
       doc_content_version d = v \<and> doc_text d = t)"
  using assms
  by (cases e; auto simp: count_step_def Let_def case_prod_beta dest!: remember_texts split: option.splits if_splits;
      blast)

lemma texts_of_past:
  assumes "texts_of (fold (count_step new) es world_start) (i, v) = Some t"
  shows "\<exists>past rest u d. es = past @ rest \<and>
    documents (store (fold (count_step new) past world_start)) u = Some d \<and> doc_incarnation d = i \<and>
    doc_content_version d = v \<and> doc_text d = t"
  using assms
proof (induction es rule: rev_induct)
  case Nil
  then show ?case by (simp add: world_start_def)
next
  case (snoc e es)
  from snoc.prems have "texts_of (count_step new e (fold (count_step new) es world_start)) (i, v) = Some t" by simp
  from step_texts [OF this] show ?case
  proof
    assume "texts_of (fold (count_step new) es world_start) (i, v) = Some t"
    from snoc.IH [OF this] show ?case by (metis append_assoc)
  next
    assume "\<exists>u d. documents (store (count_step new e (fold (count_step new) es world_start))) u = Some d \<and>
      doc_incarnation d = i \<and> doc_content_version d = v \<and> doc_text d = t"
    then show ?case by (intro exI [of _ "es @ [e]"] exI [of _ "[]"]) simp
  qed
qed

end
