(* ===== verification/Store_Properties.thy ===== *)
theory Store_Properties
  imports Store_Safety
begin

text \<open>What readers and parses of documents rely on, after any history of the store.\<close>

abbreviation after :: "(rstr \<Rightarrow> line_index) \<Rightarrow> ('u, 't, 'r) store_event list \<Rightarrow> ('u, 't, 'r) document_store" where
  "after new es \<equiv> store (fold (count_step new) es world_start)"

text \<open>A lifetime belongs to one URI, for all times.\<close>

lemma past_document:
  assumes "indexes new" "length (past @ rest) \<le> step_limit"
    and now: "documents (after new (past @ rest)) u = Some d"
    and past: "documents (after new past) u' = Some d0" "doc_incarnation d0 = doc_incarnation d"
  shows "u' = u" "evolves d0 d"
proof -
  note reach_inv = indexed.reach_inv [OF indexed.intro [OF assms(1)]]
    and reach_moves = indexed.reach_moves [OF indexed.intro [OF assms(1)]]
  let ?p = "fold (count_step new) past world_start"
  have inv: "world_inv ?p" by (rule reach_inv) (use assms(2) in simp)
  have "doc_incarnation d < open_counter (store ?p)"
    using documents_invD(1) [OF inv past(1)] past(2) by (simp add: doc_inv_def)
  then obtain d1 where d1: "documents (store ?p) u = Some d1" "evolves d1 d"
    using reach_moves [OF assms(2)] now unfolding world_moves_def by blast
  then have "doc_incarnation d1 = doc_incarnation d0" using past(2) by (simp add: evolves_def)
  then show "u' = u"
    using world_invD(2) [OF inv] d1(1) past(1) unfolding documents_inv_def by metis
  with d1 past(1) show "evolves d0 d" by simp
qed

text \<open>
  C18: every reader sees a text of the document. The snapshot it is served carries the text that
  the document had, in this very lifetime, when it was at the version the snapshot is stamped
  with; a tree is current exactly if that is the version now, and then it comes with the
  text of now. No edit, reload, reopening or late parse of an earlier lifetime changes this.
\<close>

theorem readers_see_the_text:
  assumes "indexes new" "length es \<le> step_limit" "documents (after new es) u = Some d"
  shows "latest_snapshot u (after new es) = Some \<lparr>sv_slot = doc_slot d, sv_content_version = doc_content_version d\<rparr> \<and>
    (case held (doc_slot d) of
       None \<Rightarrow> document_snapshot d = None
     | Some (a, s) \<Rightarrow>
         (\<exists>past rest d0. es = past @ rest \<and> documents (after new past) u = Some d0 \<and>
            doc_incarnation d0 = doc_incarnation d \<and> doc_content_version d0 = ps_parsed_version s \<and>
            doc_text d0 = ps_text s) \<and>
         document_snapshot d =
           (if ps_parsed_version s = doc_content_version d
            then map_option (\<lambda>tree. \<lparr>ds_text = doc_text d, ds_tree = tree, ds_incarnation = doc_incarnation d,
                                   ds_content_version = doc_content_version d\<rparr>) (ps_tree s)
            else None))"
proof (cases "held (doc_slot d)")
  case None
  then show ?thesis using assms(3) by (simp add: latest_snapshot_def document_snapshot_def current_snapshot_def)
next
  case (Some p)
  then obtain a s where h: "held (doc_slot d) = Some (a, s)" by (cases p) auto
  note held = indexed.reach_held [OF indexed.intro [OF assms(1)] assms(2,3) h]
  obtain past rest u' d0 where past: "es = past @ rest" "documents (after new past) u' = Some d0"
    "doc_incarnation d0 = doc_incarnation d" "doc_content_version d0 = ps_parsed_version s" "doc_text d0 = ps_text s"
    using texts_of_past [OF held(1)] by blast
  have "u' = u"
    by (rule past_document(1) [OF assms(1) _ _ past(2,3), of rest]) (use past(1) assms(2,3) in simp_all)
  with past have "\<exists>past rest d0. es = past @ rest \<and> documents (after new past) u = Some d0 \<and>
      doc_incarnation d0 = doc_incarnation d \<and> doc_content_version d0 = ps_parsed_version s \<and> doc_text d0 = ps_text s"
    by blast
  moreover have "latest_snapshot u (after new es) =
      Some \<lparr>sv_slot = doc_slot d, sv_content_version = doc_content_version d\<rparr>"
    using h held(2) assms(3) by (simp add: latest_snapshot_def)
  moreover have "document_snapshot d =
      (if ps_parsed_version s = doc_content_version d
       then map_option (\<lambda>tree. \<lparr>ds_text = doc_text d, ds_tree = tree, ds_incarnation = doc_incarnation d,
                              ds_content_version = doc_content_version d\<rparr>) (ps_tree s)
       else None)"
    using h held(2,4) by (cases "ps_tree s") (simp_all add: document_snapshot_def current_snapshot_def is_current_def)
  ultimately show ?thesis unfolding h by simp
qed

text \<open>
  C19: the seed of an incremental parse keeps tree-sitter's contract. The tree is the published
  one, of the grammar asked for, and the edits to replay on it lead exactly from the text it was
  parsed from to the text of now, with the bytes and points of every step; full-text syncs,
  reloads, pruned and overflowing logs, and documents reopened in between included.
\<close>

theorem seed_leads_to_the_text:
  assumes "indexes new" "length es \<le> step_limit" "documents (after new es) u = Some d"
    "incremental_seed l d = Some (tree, edits)"
  shows "\<exists>a s. held (doc_slot d) = Some (a, s) \<and> ps_tree s = Some tree \<and> ps_language s = Some l \<and>
    leads edits (ps_text s) (doc_text d)"
  by (rule indexed.reach_seed [OF indexed.intro [OF assms(1)] assms(2-4)])

text \<open>
  C20: within a lifetime, what is published only advances. Its version never falls; at the same
  version a snapshot without a tree may be replaced by one with a tree, but a tree is never
  taken away nor swapped for another; and the watermark never falls.
\<close>

theorem snapshots_only_advance:
  assumes "indexes new" "length (es @ es') \<le> step_limit"
    "documents (after new es) u = Some d" "documents (after new (es @ es')) u = Some d'"
    "doc_incarnation d' = doc_incarnation d"
  shows "doc_content_version d \<le> doc_content_version d' \<and>
    watermark_of u (after new es) \<le> watermark_of u (after new (es @ es')) \<and>
    (case (held (doc_slot d), held (doc_slot d')) of
       (Some (_, s), Some (_, s')) \<Rightarrow>
         ps_parsed_version s < ps_parsed_version s' \<or>
         (ps_parsed_version s = ps_parsed_version s' \<and>
          (ps_tree s = None \<or> (ps_tree s' = ps_tree s \<and> ps_text s' = ps_text s \<and> ps_language s' = ps_language s)))
     | (Some _, None) \<Rightarrow> False
     | (None, _) \<Rightarrow> True)"
proof -
  note reach_inv = indexed.reach_inv [OF indexed.intro [OF assms(1)]]
    and reach_moves = indexed.reach_moves [OF indexed.intro [OF assms(1)]]
  let ?p = "fold (count_step new) es world_start"
  have inv: "world_inv ?p" by (rule reach_inv) (use assms(2) in simp)
  have "doc_incarnation d' < open_counter (store ?p)"
    using documents_invD(1) [OF inv assms(3)] assms(5) by (simp add: doc_inv_def)
  then obtain d1 where "documents (store ?p) u = Some d1" "evolves d1 d'"
    "watermark_of u (store ?p) \<le> watermark_of u (after new (es @ es'))"
    using reach_moves [OF assms(2)] assms(4) unfolding world_moves_def by blast
  then have e: "evolves d d'" and w: "watermark_of u (after new es) \<le> watermark_of u (after new (es @ es'))"
    using assms(3) by simp_all
  then show ?thesis
    by (auto simp: evolves_def rank_def rank_le_def core_def split: option.splits)
qed

section \<open>Watermarks\<close>

lemma advances_of_step:
  assumes "(c, k, i) \<in> set (advances (count_step new e w))"
  shows "(c, k, i) \<in> set (advances w) \<or> (\<exists>u. e = Begin_Advance u k i) \<or>
    (\<exists>u. e = Open_Advance u k \<and> watermarks (store w) u = Some c \<and> wm_incarnation (channels (store w) c) = i)"
  using assms
  by (cases e) (auto simp: count_step_def Let_def case_prod_beta remember_def split: option.splits if_splits)

lemma advances_past:
  assumes "(c, k, i) \<in> set (advances (fold (count_step new) es world_start))"
  shows "(\<exists>u'. Begin_Advance u' k i \<in> set es) \<or>
    (\<exists>past rest u'. es = past @ Open_Advance u' k # rest \<and> watermarks (after new past) u' = Some c \<and>
       wm_incarnation (channels (after new past) c) = i)"
  using assms
proof (induction es rule: rev_induct)
  case Nil
  then show ?case by (simp add: world_start_def)
next
  case (snoc e es)
  let ?w = "fold (count_step new) es world_start"
  have "(c, k, i) \<in> set (advances ?w) \<or> (\<exists>u'. e = Begin_Advance u' k i) \<or>
      (\<exists>u'. e = Open_Advance u' k \<and> watermarks (store ?w) u' = Some c \<and> wm_incarnation (channels (store ?w) c) = i)"
    using advances_of_step [of c k i new e ?w] snoc.prems by simp
  then consider (old) "(c, k, i) \<in> set (advances ?w)" | (advance) u' where "e = Begin_Advance u' k i"
    | (opened) u' where "e = Open_Advance u' k" "watermarks (store ?w) u' = Some c" "wm_incarnation (channels (store ?w) c) = i"
    by blast
  then show ?case
  proof cases
    case old
    from snoc.IH [OF this] show ?thesis
    proof
      assume "\<exists>past rest u'. es = past @ Open_Advance u' k # rest \<and> watermarks (after new past) u' = Some c \<and>
        wm_incarnation (channels (after new past) c) = i"
      then obtain past rest u' where "es = past @ Open_Advance u' k # rest" "watermarks (after new past) u' = Some c"
        "wm_incarnation (channels (after new past) c) = i" by blast
      then show ?thesis by (intro disjI2 exI [of _ past] exI [of _ "rest @ [e]"] exI [of _ u']) simp
    qed auto
  next
    case opened
    then show ?thesis by (intro disjI2 exI [of _ es] exI [of _ "[]"] exI [of _ u']) simp
  qed auto
qed

text \<open>
  C21: an open document has a watermark of its own lifetime. Its ticket is zero, or one that a
  parse of this very lifetime resolved, or that its opening resolved while the document was in
  this lifetime: a late parse of an earlier lifetime never releases a reader of this one.
\<close>

theorem watermark_of_this_lifetime:
  assumes "indexes new" "length es \<le> step_limit" "documents (after new es) u = Some d"
  shows "\<exists>c. watermarks (after new es) u = Some c \<and>
    wm_incarnation (channels (after new es) c) = doc_incarnation d \<and>
    (let k = wm_ticket (channels (after new es) c)
     in k = 0 \<or> (\<exists>u'. Begin_Advance u' k (doc_incarnation d) \<in> set es) \<or>
        (\<exists>past rest d0. es = past @ Open_Advance u k # rest \<and> documents (after new past) u = Some d0 \<and>
           doc_incarnation d0 = doc_incarnation d))"
proof -
  note reach_inv = indexed.reach_inv [OF indexed.intro [OF assms(1)]]
    and reach_moves = indexed.reach_moves [OF indexed.intro [OF assms(1)]]
  let ?w = "fold (count_step new) es world_start"
  have inv: "world_inv ?w" by (rule reach_inv [OF assms(2)])
  obtain c where c: "watermarks (store ?w) u = Some c" "c < next_channel (store ?w)"
    "wm_incarnation (channels (store ?w) c) = doc_incarnation d"
    using documents_invD(3) [OF inv assms(3)] by blast
  let ?k = "wm_ticket (channels (store ?w) c)"
  have "?k = 0 \<or> (\<exists>c'. (c', ?k, doc_incarnation d) \<in> set (advances ?w))"
    using world_invD(4) [OF inv] c(2,3) by (auto simp: channels_inv_def)
  then have "?k = 0 \<or> (\<exists>u'. Begin_Advance u' ?k (doc_incarnation d) \<in> set es) \<or>
      (\<exists>past rest u' c'. es = past @ Open_Advance u' ?k # rest \<and> watermarks (after new past) u' = Some c' \<and>
         wm_incarnation (channels (after new past) c') = doc_incarnation d)"
  proof
    assume "\<exists>c'. (c', ?k, doc_incarnation d) \<in> set (advances ?w)"
    then obtain c' where "(c', ?k, doc_incarnation d) \<in> set (advances ?w)" by blast
    from advances_past [OF this] show ?thesis by blast
  qed simp
  moreover have "\<exists>d0. u' = u \<and> documents (after new past) u = Some d0 \<and> doc_incarnation d0 = doc_incarnation d"
    if o: "es = past @ Open_Advance u' ?k # rest" "watermarks (after new past) u' = Some c'"
      "wm_incarnation (channels (after new past) c') = doc_incarnation d" for past rest u' c'
  proof -
    let ?p = "fold (count_step new) past world_start"
    have "length past \<le> length es" using arg_cong [OF o(1), of length] by simp
    then have pinv: "world_inv ?p" using assms(2) by (intro reach_inv) (rule order_trans)
    have "documents (store ?p) u' \<noteq> None"
      using world_invD(4) [OF pinv] o(2) unfolding channels_inv_def by (metis option.distinct(1))
    then obtain d0 where d0: "documents (store ?p) u' = Some d0" by blast
    then have i: "doc_incarnation d0 = doc_incarnation d"
      using documents_invD(3) [OF pinv d0] o(2,3) by simp
    have "u' = u"
      by (rule past_document(1) [OF assms(1) _ _ d0 i, of "Open_Advance u' ?k # rest"])
        (simp_all only: o(1) [symmetric] assms(2,3))
    with d0 i show ?thesis by blast
  qed
  ultimately have "?k = 0 \<or> (\<exists>u'. Begin_Advance u' ?k (doc_incarnation d) \<in> set es) \<or>
      (\<exists>past rest d0. es = past @ Open_Advance u ?k # rest \<and> documents (after new past) u = Some d0 \<and>
         doc_incarnation d0 = doc_incarnation d)"
    by blast
  with c show ?thesis by (auto simp: Let_def)
qed

section \<open>A document that is edited while it is parsed\<close>

definition insert_c :: content_change where
  "insert_c = \<lparr>cc_range = Some (\<lparr>pos_line = 0, pos_character = 1\<rparr>, \<lparr>pos_line = 0, pos_character = 1\<rparr>), cc_text = [99]\<rparr>"

definition edit_c :: input_edit where
  "edit_c = \<lparr>ie_start_byte = 1, ie_old_end_byte = 1, ie_new_end_byte = 2, ie_start_position = (0, 1),
     ie_old_end_position = (0, 1), ie_new_end_position = (0, 2)\<rparr>"

lemma insert_c_changes:
  "apply_content_changes_with_edits plain_index [97, 98] [insert_c] = Some ([97, 99, 98], [edit_c])"
  by (simp add: apply_content_changes_with_edits_def insert_c_def edit_c_def change_edit_def replace_range_def
      position_to_byte_clamped_def mapper_new_def plain_index_def position_to_byte_def utf16_offset_def
      line_content_def strip_suffix_def starts_lf_def len_utf8_def len_utf16_def str_get_def u32_try_from_def
      byte_to_point_def point_after_def Let_def)

theorem content_changes_correct_witness:
  "\<exists>edits. apply_content_changes_with_edits plain_index [97, 98] [insert_c] =
       Some (foldl client_change [97, 98] [insert_c], edits) \<and>
     leads edits [97, 98] (foldl client_change [97, 98] [insert_c]) \<and> length edits = 1"
  using content_changes_correct [OF plain_index_indexes, of "[97, 98]" "[insert_c]"]
  by (simp add: total_len_def insert_c_def full_def len_utf8_def)

text \<open>A parse of the opened text is published with tree 7; the edit comes later, and a watermark for the parse.\<close>

definition sample_past :: "(nat, nat, nat) store_event list" where
  "sample_past = [Did_Open 0 [97, 98] (Some ''x''), Begin_Parse 0, Install 0 (Some 7) (Some ''x'') Record_Language None]"

definition sample_rest :: "(nat, nat, nat) store_event list" where
  "sample_rest = [Did_Change 0 [insert_c], Begin_Advance 0 5 1, Send_Advance 0]"

definition sample_snapshot :: "(nat, nat) parse_snapshot" where
  "sample_snapshot = \<lparr>ps_text = [97, 98], ps_tree = Some 7, ps_language = Some ''x'', ps_parsed_version = 0,
     ps_incarnation = 1, ps_injection_regions = None, ps_regions = None\<rparr>"

definition sample_document :: "(nat, nat) document" where
  "sample_document = \<lparr>doc_text = [97, 98], doc_language_id = Some ''x'', doc_seed_edits = [], doc_seed_floor = 0,
     doc_incarnation = 1, doc_content_version = 0,
     doc_slot = \<lparr>current_incarnation = 1, held = Some (1, sample_snapshot)\<rparr>\<rparr>"

lemma draw_1: "draw_incarnation 1 = (1, 2)"
  using draw_incarnation_small [of 1] by (simp add: closed_incarnation_def)

lemma sample_past_store:
  "documents (after plain_index sample_past) 0 = Some sample_document"
  "watermarks (after plain_index sample_past) 0 = Some 0"
  "channels (after plain_index sample_past) 0 = \<lparr>wm_incarnation = 1, wm_ticket = 0\<rparr>"
  "tasks (fold (count_step plain_index) sample_past world_start) \<noteq> []"
  "advances (fold (count_step plain_index) sample_past world_start) = []"
  by (simp_all add: sample_past_def world_start_def empty_store_def count_step_def store_insert_def next_incarnation_def
      draw_1 [unfolded One_nat_def] with_language_def bootstrap_def ensure_watermark_entry_def remember_def install_parse_def
      language_refused_def publish_snapshot_def admits_def task_snapshot_def closed_incarnation_def records_def
      record_language_def sample_document_def sample_snapshot_def Let_def)

definition edited_document :: "(nat, nat) document" where
  "edited_document = sample_document\<lparr>doc_text := [97, 99, 98], doc_content_version := 1, doc_seed_edits := [(1, edit_c)]\<rparr>"

lemma sample_edit: "document_edit [97, 99, 98] [edit_c] sample_document = edited_document"
  by (simp add: document_edit_def sample_document_def edited_document_def advance_input_version_def wrap64_def
      published_parsed_version_def sample_snapshot_def max_seed_edits_def Let_def)

lemma sample_store:
  "documents (after plain_index (sample_past @ sample_rest)) 0 = Some edited_document"
  "watermarks (after plain_index (sample_past @ sample_rest)) 0 = Some 0"
  "channels (after plain_index (sample_past @ sample_rest)) 0 = \<lparr>wm_incarnation = 1, wm_ticket = 5\<rparr>"
proof -
  let ?w = "fold (count_step plain_index) sample_past world_start"
  have "doc_text sample_document = [97, 98]" "doc_incarnation edited_document = 1" "doc_incarnation sample_document = 1"
    by (simp_all add: sample_document_def edited_document_def)
  then show "documents (after plain_index (sample_past @ sample_rest)) 0 = Some edited_document"
    "watermarks (after plain_index (sample_past @ sample_rest)) 0 = Some 0"
    "channels (after plain_index (sample_past @ sample_rest)) 0 = \<lparr>wm_incarnation = 1, wm_ticket = 5\<rparr>"
    by (simp_all add: sample_rest_def count_step_def sample_past_store insert_c_changes store_edit_def sample_edit
        ensure_watermark_entry_def remember_def send_ticket_for_def)
qed

lemma sample_in_limit: "length (sample_past @ sample_rest) \<le> step_limit"
  by (simp add: sample_past_def sample_rest_def step_limit_def)

theorem readers_see_the_text_witness:
  "\<exists>past rest d0. sample_past @ sample_rest = past @ rest \<and> documents (after plain_index past) 0 = Some d0 \<and>
     doc_incarnation d0 = 1 \<and> doc_content_version d0 = 0 \<and> doc_text d0 = [97, 98]"
  using readers_see_the_text [OF plain_index_indexes sample_in_limit sample_store(1)]
  by (simp add: edited_document_def sample_document_def sample_snapshot_def)

theorem seed_leads_to_the_text_witness:
  "incremental_seed ''x'' edited_document = Some (7, [edit_c]) \<and> leads [edit_c] [97, 98] [97, 99, 98]"
proof -
  have "incremental_seed ''x'' edited_document = Some (7, [edit_c])"
    by (simp add: incremental_seed_def edited_document_def sample_document_def sample_snapshot_def)
  with seed_leads_to_the_text [OF plain_index_indexes sample_in_limit sample_store(1) this] show ?thesis
    by (simp add: edited_document_def sample_document_def sample_snapshot_def del: leads.simps)
qed

theorem snapshots_only_advance_witness:
  "doc_content_version sample_document \<le> doc_content_version edited_document \<and>
   watermark_of 0 (after plain_index sample_past) \<le> watermark_of 0 (after plain_index (sample_past @ sample_rest))"
  using snapshots_only_advance [OF plain_index_indexes sample_in_limit sample_past_store(1) sample_store(1)]
  by (simp add: edited_document_def sample_document_def)

theorem watermark_of_this_lifetime_witness:
  "\<exists>c. watermarks (after plain_index (sample_past @ sample_rest)) 0 = Some c \<and>
     wm_incarnation (channels (after plain_index (sample_past @ sample_rest)) c) = 1"
  using watermark_of_this_lifetime [OF plain_index_indexes sample_in_limit sample_store(1)]
  by (auto simp: edited_document_def sample_document_def)

end
