(* ===== verification/Diagnostic_Order.thy ===== *)
theory Diagnostic_Order
  imports Region_Offset "HOL-Library.List_Lexorder" "HOL-Library.Option_ord"
begin

text \<open>
  \<open>lsp/diagnostic_order.rs\<close>: the order in which merged diagnostics are published. The merge
  walks hash maps, so the same diagnostics arrive in any order, and an unstable sort leaves
  equal ones in any order as well. The unstable sort of Rust's standard library is the
  parameter \<open>usort\<close> with its documented contract; \<open>serde_json\<close> is the parameters \<open>to_value\<close>
  and \<open>to_text\<close>, and the derived \<open>Debug\<close> rendering is \<open>debug\<close>.
\<close>

section \<open>JSON values and their equality\<close>

text \<open>
  A \<open>serde_json::Value\<close> keeps the order in which the keys of an object were inserted, while
  its equality ignores it. Numbers are opaque: \<open>num_eq\<close> is their equality, which identifies
  the floating point zeros although they are written differently.
\<close>

datatype 'n json_value =
    Null | Bool bool | Number 'n | Str rstr
  | Array "'n json_value list" | Object "(rstr \<times> 'n json_value) list"

function (sequential) json_eq :: "('n \<Rightarrow> 'n \<Rightarrow> bool) \<Rightarrow> 'n json_value \<Rightarrow> 'n json_value \<Rightarrow> bool" where
  "json_eq num_eq Null Null = True"
| "json_eq num_eq (Bool a) (Bool b) = (a = b)"
| "json_eq num_eq (Number a) (Number b) = num_eq a b"
| "json_eq num_eq (Str a) (Str b) = (a = b)"
| "json_eq num_eq (Array vs) (Array ws) =
     (length vs = length ws \<and> list_all (\<lambda>(v, w). json_eq num_eq v w) (zip vs ws))"
| "json_eq num_eq (Object ps) (Object qs) =
     (length ps = length qs \<and>
      list_all (\<lambda>(k, v). case map_of qs k of None \<Rightarrow> False | Some w \<Rightarrow> json_eq num_eq v w) ps)"
| "json_eq num_eq _ _ = False"
  by pat_completeness auto
termination
  by (relation "measure (\<lambda>(_, v, _). size v)")
    (auto dest!: set_zip_leftD simp: less_Suc_eq_le
      intro: size_list_estimation' size_list_estimation' [THEN order_trans])

text \<open>\<open>Map::sort_keys\<close>, and the recursive sort.\<close>

primrec canonicalize_json_in_place :: "'n json_value \<Rightarrow> 'n json_value" where
  "canonicalize_json_in_place Null = Null"
| "canonicalize_json_in_place (Bool b) = Bool b"
| "canonicalize_json_in_place (Number n) = Number n"
| "canonicalize_json_in_place (Str s) = Str s"
| "canonicalize_json_in_place (Array vs) = Array (map canonicalize_json_in_place vs)"
| "canonicalize_json_in_place (Object ps) =
     Object (sort_key fst (map (map_prod id canonicalize_json_in_place) ps))"

section \<open>Diagnostics\<close>

record related_information =
  ri_uri :: rstr
  ri_range :: lsp_range
  ri_message :: rstr

text \<open>The code, its description and the tags are never looked into: \<open>d_rest\<close>.\<close>

record ('n, 'r) diagnostic =
  d_range :: lsp_range
  d_severity :: "int option"
  d_source :: "rstr option"
  d_message :: rstr
  d_related_information :: "related_information list option"
  d_rest :: 'r
  d_data :: "'n json_value option"

definition diagnostic_eq ::
  "('n \<Rightarrow> 'n \<Rightarrow> bool) \<Rightarrow> ('n, 'r) diagnostic \<Rightarrow> ('n, 'r) diagnostic \<Rightarrow> bool" where
  "diagnostic_eq num_eq d e \<longleftrightarrow>
     d_range d = d_range e \<and> d_severity d = d_severity e \<and> d_source d = d_source e \<and>
     d_message d = d_message e \<and> d_related_information d = d_related_information e \<and>
     d_rest d = d_rest e \<and> rel_option (json_eq num_eq) (d_data d) (d_data e)"

section \<open>Comparisons\<close>

datatype ordering = Less | Equal | Greater

definition cmp :: "'a :: linorder \<Rightarrow> 'a \<Rightarrow> ordering" where
  "cmp a b = (if a < b then Less else if a = b then Equal else Greater)"

fun then_with :: "ordering \<Rightarrow> ordering \<Rightarrow> ordering" where
  "then_with Equal other = other"
| "then_with o' _ = o'"

definition diagnostic_position_key :: "('n, 'r) diagnostic \<Rightarrow> u32 \<times> u32 \<times> u32 \<times> u32" where
  "diagnostic_position_key d =
     (pos_line (fst (d_range d)), pos_character (fst (d_range d)),
      pos_line (snd (d_range d)), pos_character (snd (d_range d)))"

definition diagnostic_cheap_cmp :: "('n, 'r) diagnostic \<Rightarrow> ('n, 'r) diagnostic \<Rightarrow> ordering" where
  "diagnostic_cheap_cmp left right =
     then_with (cmp (diagnostic_position_key left) (diagnostic_position_key right))
       (then_with (cmp (d_message left) (d_message right))
         (then_with (cmp (d_source left) (d_source right))
           (cmp (d_severity left) (d_severity right))))"

section \<open>Canonical texts\<close>

record ('n, 'r) serde =
  to_value :: "('n, 'r) diagnostic \<Rightarrow> 'n json_value option"
  to_text :: "'n json_value \<Rightarrow> rstr option"
  debug :: "('n, 'r) diagnostic \<Rightarrow> rstr"
  capacity :: "rstr \<Rightarrow> nat"

definition canonical_json_value :: "('n, 'r) serde \<Rightarrow> ('n, 'r) diagnostic \<Rightarrow> 'n json_value option" where
  "canonical_json_value sd d = map_option canonicalize_json_in_place (to_value sd d)"

definition canonical_json_string :: "('n, 'r) serde \<Rightarrow> ('n, 'r) diagnostic \<Rightarrow> rstr" where
  "canonical_json_string sd d =
     (case canonical_json_value sd d of
        None \<Rightarrow> debug sd d
      | Some json \<Rightarrow> (case to_text sd json of Some s \<Rightarrow> s | None \<Rightarrow> debug sd d))"

section \<open>The sort\<close>

definition MAX_CACHED_TIE_KEY_CAPACITY_BYTES :: nat where
  "MAX_CACHED_TIE_KEY_CAPACITY_BYTES = 256 * 1024"

type_synonym ('n, 'r) keyed = "rstr option \<times> ('n, 'r) diagnostic"

record ('n, 'r) sorts =
  usort :: "(('n, 'r) diagnostic \<Rightarrow> ('n, 'r) diagnostic \<Rightarrow> ordering) \<Rightarrow>
    ('n, 'r) diagnostic list \<Rightarrow> ('n, 'r) diagnostic list"
  usort_keyed :: "(('n, 'r) keyed \<Rightarrow> ('n, 'r) keyed \<Rightarrow> ordering) \<Rightarrow>
    ('n, 'r) keyed list \<Rightarrow> ('n, 'r) keyed list"

text \<open>Canonical keys are kept up to a budget of bytes; later ones are recomputed.\<close>

fun cache_keys :: "('n, 'r) serde \<Rightarrow> nat \<Rightarrow> ('n, 'r) diagnostic list \<Rightarrow> ('n, 'r) keyed list" where
  "cache_keys sd cached [] = []"
| "cache_keys sd cached (d # ds) =
     (let key = canonical_json_string sd d; key_capacity = capacity sd key
      in if min usize_max (cached + key_capacity) \<le> MAX_CACHED_TIE_KEY_CAPACITY_BYTES
         then (Some key, d) # cache_keys sd (cached + key_capacity) ds
         else (None, d) # cache_keys sd cached ds)"

fun keyed_cmp :: "('n, 'r) serde \<Rightarrow> ('n, 'r) keyed \<Rightarrow> ('n, 'r) keyed \<Rightarrow> ordering" where
  "keyed_cmp sd (Some l, _) (Some r, _) = cmp l r"
| "keyed_cmp sd (Some l, _) (None, e) = cmp l (canonical_json_string sd e)"
| "keyed_cmp sd (None, d) (Some r, _) = cmp (canonical_json_string sd d) r"
| "keyed_cmp sd (None, d) (None, e) = cmp (canonical_json_string sd d) (canonical_json_string sd e)"

definition sort_diagnostic_tie_group ::
  "('n \<Rightarrow> 'n \<Rightarrow> bool) \<Rightarrow> ('n, 'r) serde \<Rightarrow> ('n, 'r) sorts \<Rightarrow>
   ('n, 'r) diagnostic list \<Rightarrow> ('n, 'r) diagnostic list" where
  "sort_diagnostic_tie_group num_eq sd so ds =
     (if list_all (\<lambda>d. diagnostic_eq num_eq d (hd ds)) (tl ds) \<and>
         list_all (\<lambda>d. canonical_json_string sd d = canonical_json_string sd (hd ds)) (tl ds)
      then ds
      else map snd (usort_keyed so (keyed_cmp sd) (cache_keys sd 0 ds)))"

function sort_groups ::
  "('n \<Rightarrow> 'n \<Rightarrow> bool) \<Rightarrow> ('n, 'r) serde \<Rightarrow> ('n, 'r) sorts \<Rightarrow>
   ('n, 'r) diagnostic list \<Rightarrow> ('n, 'r) diagnostic list" where
  "sort_groups num_eq sd so [] = []"
| "sort_groups num_eq sd so (d # ds) =
     (let tie = takeWhile (\<lambda>e. diagnostic_cheap_cmp d e = Equal) ds;
          rest = dropWhile (\<lambda>e. diagnostic_cheap_cmp d e = Equal) ds
      in (if tie \<noteq> [] then sort_diagnostic_tie_group num_eq sd so (d # tie) else [d]) @
         sort_groups num_eq sd so rest)"
  by pat_completeness auto
termination
  by (relation "measure (\<lambda>(_, _, _, ds). length ds)") (auto simp: le_imp_less_Suc length_dropWhile_le)

definition sort_diagnostics_deterministically ::
  "('n \<Rightarrow> 'n \<Rightarrow> bool) \<Rightarrow> ('n, 'r) serde \<Rightarrow> ('n, 'r) sorts \<Rightarrow>
   ('n, 'r) diagnostic list \<Rightarrow> ('n, 'r) diagnostic list" where
  "sort_diagnostics_deterministically num_eq sd so ds =
     sort_groups num_eq sd so (usort so diagnostic_cheap_cmp ds)"

section \<open>The contract of an unstable sort\<close>

definition total_order :: "('a \<Rightarrow> 'a \<Rightarrow> ordering) \<Rightarrow> bool" where
  "total_order c \<longleftrightarrow>
     (\<forall>x y. (c x y = Less) = (c y x = Greater) \<and> (c x y = Equal) = (c y x = Equal)) \<and>
     (\<forall>x y z. c x y \<noteq> Greater \<longrightarrow> c y z \<noteq> Greater \<longrightarrow> c x z \<noteq> Greater)"

definition sorts_by :: "(('a \<Rightarrow> 'a \<Rightarrow> ordering) \<Rightarrow> 'a list \<Rightarrow> 'a list) \<Rightarrow> bool" where
  "sorts_by f \<longleftrightarrow>
     (\<forall>c xs. total_order c \<longrightarrow> mset (f c xs) = mset xs \<and> sorted_wrt (\<lambda>x y. c x y \<noteq> Greater) (f c xs))"

text \<open>An insertion sort keeps the contract.\<close>

fun insert_by :: "('a \<Rightarrow> 'a \<Rightarrow> ordering) \<Rightarrow> 'a \<Rightarrow> 'a list \<Rightarrow> 'a list" where
  "insert_by c x [] = [x]"
| "insert_by c x (y # ys) = (if c x y = Greater then y # insert_by c x ys else x # y # ys)"

definition insertion_sort :: "('a \<Rightarrow> 'a \<Rightarrow> ordering) \<Rightarrow> 'a list \<Rightarrow> 'a list" where
  "insertion_sort c xs = foldr (insert_by c) xs []"

lemma mset_insert_by [simp]: "mset (insert_by c x ys) = {#x#} + mset ys"
  by (induction ys) auto

lemma set_insert_by [simp]: "set (insert_by c x ys) = insert x (set ys)"
  by (induction ys) auto

lemma sorted_insert_by:
  assumes "total_order c" "sorted_wrt (\<lambda>x y. c x y \<noteq> Greater) ys"
  shows "sorted_wrt (\<lambda>x y. c x y \<noteq> Greater) (insert_by c x ys)"
  using assms(2)
proof (induction ys)
  case (Cons y ys)
  have trans: "c a b \<noteq> Greater \<Longrightarrow> c b d \<noteq> Greater \<Longrightarrow> c a d \<noteq> Greater" for a b d
    using assms(1) unfolding total_order_def by blast
  have flip: "c x y = Greater \<Longrightarrow> c y x \<noteq> Greater"
    using assms(1) unfolding total_order_def by (metis ordering.distinct(3) ordering.distinct(5))
  from Cons show ?case by (auto dest: flip trans)
qed simp

lemma insertion_sort_sorts: "sorts_by insertion_sort"
  unfolding sorts_by_def
proof (intro allI impI conjI)
  fix c :: "'a \<Rightarrow> 'a \<Rightarrow> ordering" and xs assume c: "total_order c"
  show "mset (insertion_sort c xs) = mset xs"
    by (induction xs) (simp_all add: insertion_sort_def)
  show "sorted_wrt (\<lambda>x y. c x y \<noteq> Greater) (insertion_sort c xs)"
    by (induction xs) (simp_all add: insertion_sort_def sorted_insert_by [OF c])
qed

section \<open>The published order\<close>

lemma cmp_simps:
  "cmp a b = Less \<longleftrightarrow> a < b" "cmp a b = Equal \<longleftrightarrow> a = b" "cmp a b = Greater \<longleftrightarrow> b < a"
  by (auto simp: cmp_def)

lemma total_order_key: "total_order (\<lambda>x y. cmp (f x) (f y :: 'b :: linorder))"
  unfolding total_order_def by (auto simp: cmp_simps)

definition cheap_key :: "('n, 'r) diagnostic \<Rightarrow> (u32 \<times> u32 \<times> u32 \<times> u32) \<times> rstr \<times> rstr option \<times> int option" where
  "cheap_key d = (diagnostic_position_key d, d_message d, d_source d, d_severity d)"

lemma then_with_cmp: "then_with (cmp a b) (cmp c d) = cmp (a, c) (b, d)"
  by (cases "cmp a b") (auto simp: cmp_def less_prod_def split: if_splits)

lemma cheap_cmp: "diagnostic_cheap_cmp d e = cmp (cheap_key d) (cheap_key e)"
  by (simp add: diagnostic_cheap_cmp_def cheap_key_def then_with_cmp)

fun key_of :: "('n, 'r) serde \<Rightarrow> ('n, 'r) keyed \<Rightarrow> rstr" where
  "key_of sd (Some k, d) = k"
| "key_of sd (None, d) = canonical_json_string sd d"

lemma keyed_cmp: "keyed_cmp sd = (\<lambda>x y. cmp (key_of sd x) (key_of sd y))"
proof (intro ext)
  fix x y show "keyed_cmp sd x y = cmp (key_of sd x) (key_of sd y)"
    by (cases "(sd, x, y)" rule: keyed_cmp.cases) simp_all
qed

lemma cache_keys:
  "map snd (cache_keys sd n ds) = ds"
  "x \<in> set (cache_keys sd n ds) \<Longrightarrow> key_of sd x = canonical_json_string sd (snd x)"
  by (induction sd n ds rule: cache_keys.induct) (auto simp: Let_def split: if_splits)

lemma total_order_keyed: "total_order (keyed_cmp sd)"
  unfolding keyed_cmp by (rule total_order_key)

lemma cheap_cmp_key: "diagnostic_cheap_cmp = (\<lambda>d e. cmp (cheap_key d) (cheap_key e))"
  by (intro ext cheap_cmp)

lemma total_order_cheap: "total_order diagnostic_cheap_cmp"
  unfolding cheap_cmp_key by (rule total_order_key)

lemma tie_group_sorted:
  assumes "sorts_by (usort_keyed so)" and "ds \<noteq> []"
  shows "mset (sort_diagnostic_tie_group num_eq sd so ds) = mset ds"
    and "sorted (map (canonical_json_string sd) (sort_diagnostic_tie_group num_eq sd so ds))"
proof -
  let ?canon = "canonical_json_string sd" and ?ks = "usort_keyed so (keyed_cmp sd) (cache_keys sd 0 ds)"
  have m: "mset ?ks = mset (cache_keys sd 0 ds)"
    and s: "sorted_wrt (\<lambda>x y. keyed_cmp sd x y \<noteq> Greater) ?ks"
    using assms(1) total_order_keyed unfolding sorts_by_def by blast+
  have "mset (map snd ?ks) = mset ds"
    by (metis m cache_keys(1) mset_map)
  moreover have "sorted (map ?canon (map snd ?ks))"
  proof -
    have key: "key_of sd x = ?canon (snd x)" if "x \<in> set ?ks" for x
      by (rule cache_keys(2)) (use that mset_eq_setD [OF m] in blast)
    have "sorted_wrt (\<lambda>x y. ?canon (snd x) \<le> ?canon (snd y)) ?ks"
    proof (rule sorted_wrt_mono_rel [OF _ s])
      fix x y assume in_ks: "x \<in> set ?ks" "y \<in> set ?ks" and "keyed_cmp sd x y \<noteq> Greater"
      then have "key_of sd x \<le> key_of sd y" by (simp only: keyed_cmp cmp_simps not_less)
      then show "?canon (snd x) \<le> ?canon (snd y)" by (simp only: key [OF in_ks(1)] key [OF in_ks(2)])
    qed
    then show ?thesis by (simp only: sorted_wrt_map map_map comp_def)
  qed
  moreover have "sorted (map ?canon ds)" if "list_all (\<lambda>d. ?canon d = ?canon (hd ds)) (tl ds)"
  proof -
    from that assms(2) have "map ?canon ds = replicate (length ds) (?canon (hd ds))"
      by (intro replicate_eqI) (cases ds; auto simp: list_all_iff)+
    then show ?thesis by simp
  qed
  ultimately show "mset (sort_diagnostic_tie_group num_eq sd so ds) = mset ds"
    and "sorted (map ?canon (sort_diagnostic_tie_group num_eq sd so ds))"
    by (auto simp: sort_diagnostic_tie_group_def)
qed

definition full_key :: "('n, 'r) serde \<Rightarrow> ('n, 'r) diagnostic \<Rightarrow>
    ((u32 \<times> u32 \<times> u32 \<times> u32) \<times> rstr \<times> rstr option \<times> int option) \<times> rstr" where
  "full_key sd d = (cheap_key d, canonical_json_string sd d)"

lemma sorted_ties:
  assumes "sorted (map (canonical_json_string sd) ds)" "\<forall>d \<in> set ds. cheap_key d = k"
  shows "sorted (map (full_key sd) ds)"
  using assms by (induction ds) (auto simp: full_key_def)

lemma sort_groups_sorted:
  assumes "sorts_by (usort_keyed so)" "sorted (map cheap_key ds)"
  shows "mset (sort_groups num_eq sd so ds) = mset ds \<and> sorted (map (full_key sd) (sort_groups num_eq sd so ds))"
  using assms
proof (induction num_eq sd so ds rule: sort_groups.induct)
  case (2 num_eq sd so d ds)
  note [simp] = cheap_cmp cmp_simps
  have le: "\<forall>e \<in> set ds. cheap_key d \<le> cheap_key e" and ds: "sorted (map cheap_key ds)"
    using "2.prems"(2) by auto
  let ?tie = "takeWhile (\<lambda>e. diagnostic_cheap_cmp d e = Equal) ds"
    and ?rest = "dropWhile (\<lambda>e. diagnostic_cheap_cmp d e = Equal) ds"
  let ?group = "if ?tie \<noteq> [] then sort_diagnostic_tie_group num_eq sd so (d # ?tie) else [d]"
  have group: "mset ?group = mset (d # ?tie)" "sorted (map (canonical_json_string sd) ?group)"
    using tie_group_sorted [OF "2.prems"(1), of "d # ?tie"] by auto
  have key: "cheap_key e = cheap_key d" if "e \<in> set ?group" for e
  proof -
    have "e \<in> set (d # ?tie)" using that mset_eq_setD [OF group(1)] by blast
    then show ?thesis by (auto dest: set_takeWhileD)
  qed
  have sorted_rest: "sorted (map cheap_key ?rest)"
    using ds by (simp add: dropWhile_eq_drop sorted_wrt_drop flip: drop_map)
  have rest: "mset (sort_groups num_eq sd so ?rest) = mset ?rest"
    "sorted (map (full_key sd) (sort_groups num_eq sd so ?rest))"
    using "2.IH" [OF refl refl "2.prems"(1)] sorted_rest by simp_all
  have above: "cheap_key d < cheap_key e" if "e \<in> set (sort_groups num_eq sd so ?rest)" for e
  proof -
    from that have e: "e \<in> set ?rest" using rest(1) by (metis set_mset_mset)
    then have "?rest \<noteq> []" by (metis empty_iff list.set(1))
    then obtain h t where r: "?rest = h # t" by (meson neq_Nil_conv)
    then have "diagnostic_cheap_cmp d h \<noteq> Equal" 
      using hd_dropWhile [of "\<lambda>e. diagnostic_cheap_cmp d e = Equal" ds] by simp
    moreover have "h \<in> set ds" using r by (metis list.set_intros(1) set_dropWhileD)
    ultimately have "cheap_key d < cheap_key h" using le by (simp add: order.strict_iff_order)
    moreover have "cheap_key h \<le> cheap_key e" using sorted_rest e r by auto
    ultimately show ?thesis by simp
  qed
  have "sorted (map (full_key sd) ?group)" by (rule sorted_ties [OF group(2)]) (use key in blast)
  moreover have "full_key sd x \<le> full_key sd y"
    if "x \<in> set ?group" "y \<in> set (sort_groups num_eq sd so ?rest)" for x y
    using key [OF that(1)] above [OF that(2)] by (simp add: full_key_def less_imp_le)
  ultimately have "sorted (map (full_key sd) (?group @ sort_groups num_eq sd so ?rest))"
    using rest(2) by (simp only: map_append sorted_append set_map) blast
  moreover have "mset (?group @ sort_groups num_eq sd so ?rest) = mset (d # ds)"
    by (simp only: mset_append group(1) rest(1)) (metis append_Cons mset_append takeWhile_dropWhile_id)
  ultimately show ?case by (simp only: sort_groups.simps Let_def conj_commute)
qed simp

text \<open>
  Sorted on the position, the message, the source and the severity, and among diagnostics
  that agree on these on the canonical text.
\<close>

lemma sort_sorted:
  assumes "sorts_by (usort so)" "sorts_by (usort_keyed so)"
  shows "mset (sort_diagnostics_deterministically num_eq sd so ds) = mset ds"
    and "sorted (map (full_key sd) (sort_diagnostics_deterministically num_eq sd so ds))"
proof -
  let ?us = "usort so diagnostic_cheap_cmp ds"
  have us: "mset ?us = mset ds" "sorted_wrt (\<lambda>x y. diagnostic_cheap_cmp x y \<noteq> Greater) ?us"
    using assms(1) total_order_cheap unfolding sorts_by_def by blast+
  then have "sorted (map cheap_key ?us)"
    by (simp add: sorted_map cheap_cmp cmp_simps not_less)
  from sort_groups_sorted [OF assms(2) this] us(1)
  show "mset (sort_diagnostics_deterministically num_eq sd so ds) = mset ds"
    and "sorted (map (full_key sd) (sort_diagnostics_deterministically num_eq sd so ds))"
    by (simp_all add: sort_diagnostics_deterministically_def)
qed

text \<open>So the order in which the diagnostics arrive does not show, up to equal texts.\<close>

lemma sort_forgets_the_order:
  assumes "sorts_by (usort so)" "sorts_by (usort_keyed so)" "mset ds = mset es"
  shows "map (full_key sd) (sort_diagnostics_deterministically num_eq sd so ds) =
    map (full_key sd) (sort_diagnostics_deterministically num_eq sd so es)"
proof -
  let ?key = "full_key sd" and ?sort = "sort_diagnostics_deterministically num_eq sd so"
  have "sort (map ?key ds) = map ?key (?sort xs)" if "mset xs = mset ds" for xs
    by (rule properties_for_sort) (simp_all add: sort_sorted [OF assms(1,2)] that)
  from this [OF refl] this [OF assms(3) [symmetric]] show ?thesis by simp
qed

section \<open>Canonical values decide equality\<close>

text \<open>The keys of an object are distinct.\<close>

fun distinct_keys :: "'n json_value \<Rightarrow> bool" where
  "distinct_keys (Array vs) \<longleftrightarrow> list_all distinct_keys vs"
| "distinct_keys (Object ps) \<longleftrightarrow> distinct (map fst ps) \<and> list_all (\<lambda>(k, v). distinct_keys v) ps"
| "distinct_keys _ \<longleftrightarrow> True"

lemma sort_keys_eq:
  assumes "distinct (map fst ps)" "distinct (map fst qs)"
  shows "sort_key fst ps = sort_key fst qs \<longleftrightarrow> set ps = set qs"
proof
  assume "set ps = set qs"
  then have "mset ps = mset (sort_key fst qs)"
    using assms by (simp add: distinct_map flip: set_eq_iff_mset_eq_distinct)
  moreover have "inj_on fst (set ps)" using assms(1) by (simp add: distinct_map)
  ultimately show "sort_key fst ps = sort_key fst qs" by (intro sort_key_inj_key_eq) simp_all
next
  assume "sort_key fst ps = sort_key fst qs"
  then show "set ps = set qs" by (metis set_sort)
qed

lemma same_object:
  assumes "distinct (map fst ps)" "distinct (map fst qs)"
  shows "length ps = length qs \<and> (\<forall>(k, v) \<in> set ps. map_of qs k = Some v) \<longleftrightarrow> set ps = set qs"
proof
  assume l: "length ps = length qs \<and> (\<forall>(k, v) \<in> set ps. map_of qs k = Some v)"
  then have "set ps \<subseteq> set qs" by (auto dest: map_of_SomeD)
  moreover have "card (set ps) = card (set qs)"
    using l assms by (simp add: distinct_card distinct_map)
  ultimately show "set ps = set qs" by (simp add: card_subset_eq)
next
  assume "set ps = set qs"
  moreover from this have "length ps = length qs"
    using assms by (metis distinct_card distinct_map)
  ultimately show "length ps = length qs \<and> (\<forall>(k, v) \<in> set ps. map_of qs k = Some v)"
    using assms(2) by auto
qed

lemma canonical_object:
  assumes "distinct (map fst ps)" "distinct (map fst qs)"
  shows "canonicalize_json_in_place (Object ps) = canonicalize_json_in_place (Object qs) \<longleftrightarrow>
    length ps = length qs \<and>
    (\<forall>(k, v) \<in> set ps. \<exists>w. map_of qs k = Some w \<and> canonicalize_json_in_place v = canonicalize_json_in_place w)"
proof -
  let ?c = "map (map_prod id canonicalize_json_in_place)"
  have d: "distinct (map fst (?c ps))" "distinct (map fst (?c qs))" using assms by (simp_all add: comp_def)
  have m: "map_of (?c qs) k = map_option canonicalize_json_in_place (map_of qs k)" for k
    by (induction qs) auto
  show ?thesis
    unfolding canonicalize_json_in_place.simps json_value.inject sort_keys_eq [OF d]
      same_object [OF d, symmetric]
    by (auto simp: m)
qed

text \<open>
  Two values are equal exactly if their canonical forms are the same: sorting the keys loses
  the order in which they were inserted and nothing else.
\<close>

lemma canonical_decides:
  fixes v w :: "'n json_value"
  assumes "distinct_keys v" "distinct_keys w"
  shows "json_eq (=) v w \<longleftrightarrow> canonicalize_json_in_place v = canonicalize_json_in_place w"
  using assms
proof (induction "(=) :: 'n \<Rightarrow> 'n \<Rightarrow> bool" v w rule: json_eq.induct)
  case (5 vs ws)
  have "map canonicalize_json_in_place vs = map canonicalize_json_in_place ws \<longleftrightarrow>
      length vs = length ws \<and> list_all (\<lambda>(v, w). canonicalize_json_in_place v = canonicalize_json_in_place w) (zip vs ws)"
    by (auto simp: list_eq_iff_zip_eq zip_map_map list_all_iff)
  moreover have "json_eq (=) v w = (canonicalize_json_in_place v = canonicalize_json_in_place w)"
    if "(v, w) \<in> set (zip vs ws)" for v w
    using "5.hyps" [OF that refl] "5.prems" set_zip_leftD [OF that] set_zip_rightD [OF that]
    by (simp add: list_all_iff)
  then have "list_all (\<lambda>(v, w). json_eq (=) v w) (zip vs ws) =
      list_all (\<lambda>(v, w). canonicalize_json_in_place v = canonicalize_json_in_place w) (zip vs ws)"
    by (intro list.pred_cong refl) auto
  ultimately show ?case by simp
next
  case (6 ps qs)
  have "(case map_of qs k of None \<Rightarrow> False | Some w \<Rightarrow> json_eq (=) v w) =
      (\<exists>w. map_of qs k = Some w \<and> canonicalize_json_in_place v = canonicalize_json_in_place w)"
    if "(k, v) \<in> set ps" for k v
  proof (cases "map_of qs k")
    case (Some w)
    then have "distinct_keys v" "distinct_keys w"
      using "6.prems" that by (auto simp: list_all_iff dest: map_of_SomeD)
    then show ?thesis using "6.hyps" [OF that refl Some] Some by simp
  qed simp
  then show ?case using "6.prems" canonical_object [of ps qs] by (auto simp: list_all_iff)
qed auto

end
