(* ===== verification/Diagnostic_Slots.thy ===== *)
theory Diagnostic_Slots
  imports Diagnostic_Order Virtual_Uri "HOL-Library.AList"
begin

text \<open>
  \<open>lsp/diagnostic_cache.rs\<close>: the slots in which the cache keeps the diagnostics of the
  downstream servers, what is published or answered from them, and the comparison of two
  sets. A hash map is the association list of its entries in the order a walk meets them, so a
  theorem about all association lists of the same entries is one about all walks.
\<close>

section \<open>Slots\<close>

datatype diagnostic_source = Region rstr | Host | PullLayer

definition PULL_LAYER_SERVER :: rstr where
  "PULL_LAYER_SERVER = lit ''<pull-layer>''"

record 'd slot_entry =
  slot_diagnostics :: "'d list"
  slot_connection :: "u64 option"

type_synonym 'd server_slots = "(rstr \<times> 'd slot_entry) list"
type_synonym 'd source_slots = "(diagnostic_source \<times> 'd server_slots) list"

fun is_region :: "diagnostic_source \<Rightarrow> bool" where
  "is_region (Region _) = True"
| "is_region _ = False"

definition has_live_region_slots :: "'d source_slots \<Rightarrow> bool" where
  "has_live_region_slots slots \<longleftrightarrow>
     list_ex (\<lambda>(source, servers). is_region source \<and>
       list_ex (\<lambda>(_, slot). slot_diagnostics slot \<noteq> []) servers) slots"

definition push_slot_servers :: "'d source_slots \<Rightarrow> rstr set" where
  "push_slot_servers snapshot =
     (\<Union>(source, slots) \<in> set snapshot. if source = PullLayer then {} else fst ` set slots)"

definition has_region_sources :: "'d source_slots \<Rightarrow> bool" where
  "has_region_sources slots = list_ex (\<lambda>(source, _). is_region source) slots"

fun retain_region_push_slots :: "(rstr \<Rightarrow> rstr \<Rightarrow> bool) \<Rightarrow> 'd source_slots \<Rightarrow> 'd source_slots" where
  "retain_region_push_slots keep [] = []"
| "retain_region_push_slots keep ((Region region_id, servers) # snapshot) =
     (let kept = filter (\<lambda>(server, _). keep region_id server) servers
      in if kept = [] then retain_region_push_slots keep snapshot
         else (Region region_id, kept) # retain_region_push_slots keep snapshot)"
| "retain_region_push_slots keep (entry # snapshot) =
     entry # retain_region_push_slots keep snapshot"

section \<open>Merging\<close>

text \<open>
  A pushed diagnostic in host coordinates. \<open>retain_mut\<close> drops the related information of
  virtual documents and moves that of the host document.
\<close>

definition transform_region_diagnostic ::
  "(rstr \<Rightarrow> bool) \<Rightarrow> region_offset \<Rightarrow> rstr \<Rightarrow> ('n, 'r) diagnostic \<Rightarrow> ('n, 'r) diagnostic" where
  "transform_region_diagnostic is_virtual off host_uri d =
     d\<lparr>d_range := translate_virtual_range_to_host (d_range d) off,
       d_related_information := map_option
         (map (\<lambda>info. if ri_uri info = host_uri
                      then info\<lparr>ri_range := translate_virtual_range_to_host (ri_range info) off\<rparr>
                      else info) \<circ>
          filter (\<lambda>info. \<not> is_virtual (ri_uri info)))
         (d_related_information d)\<rparr>"

text \<open>The diagnostics that one source contributes to the published set.\<close>

fun source_items ::
  "(rstr \<Rightarrow> bool) \<Rightarrow> rstr \<Rightarrow> (rstr \<rightharpoonup> region_offset) \<Rightarrow> diagnostic_source \<times> ('n, 'r) diagnostic server_slots \<Rightarrow>
   ('n, 'r) diagnostic list" where
  "source_items is_virtual host_str region_offsets (Region region_id, servers) =
     (case region_offsets region_id of
        None \<Rightarrow> []
      | Some off \<Rightarrow>
          concat (map (\<lambda>(_, slot). map (transform_region_diagnostic is_virtual off host_str)
            (slot_diagnostics slot)) servers))"
| "source_items is_virtual host_str region_offsets (_, servers) =
     concat (map (\<lambda>(_, slot). slot_diagnostics slot) servers)"

definition merge_cached_diagnostics ::
  "('n \<Rightarrow> 'n \<Rightarrow> bool) \<Rightarrow> ('n, 'r) serde \<Rightarrow> ('n, 'r) sorts \<Rightarrow> (rstr \<Rightarrow> bool) \<Rightarrow> rstr \<Rightarrow>
   ('n, 'r) diagnostic source_slots \<Rightarrow> (rstr \<rightharpoonup> region_offset) \<Rightarrow> ('n, 'r) diagnostic list" where
  "merge_cached_diagnostics num_eq sd so is_virtual host_str snapshot region_offsets =
     sort_diagnostics_deterministically num_eq sd so
       (concat (map (source_items is_virtual host_str region_offsets) snapshot))"

text \<open>The push slots folded into the answer to a pull, the region layer and the host layer.\<close>

fun push_items ::
  "(rstr \<Rightarrow> bool) \<Rightarrow> rstr \<Rightarrow> (rstr \<rightharpoonup> region_offset) \<Rightarrow> (diagnostic_source \<Rightarrow> rstr \<Rightarrow> bool) \<Rightarrow>
   diagnostic_source \<times> ('n, 'r) diagnostic server_slots \<Rightarrow> ('n, 'r) diagnostic list \<times> ('n, 'r) diagnostic list" where
  "push_items is_virtual host_str region_offsets incl (PullLayer, servers) = ([], [])"
| "push_items is_virtual host_str region_offsets incl (Region region_id, servers) =
     (case region_offsets region_id of
        None \<Rightarrow> ([], [])
      | Some off \<Rightarrow>
          (concat (map (\<lambda>(server, slot).
             if incl (Region region_id) server
             then map (transform_region_diagnostic is_virtual off host_str) (slot_diagnostics slot)
             else []) servers), []))"
| "push_items is_virtual host_str region_offsets incl (Host, servers) =
     ([], concat (map (\<lambda>(server, slot). if incl Host server then slot_diagnostics slot else []) servers))"

definition cached_push_diagnostics ::
  "(rstr \<Rightarrow> bool) \<Rightarrow> rstr \<Rightarrow> ('n, 'r) diagnostic source_slots \<Rightarrow> (rstr \<rightharpoonup> region_offset) \<Rightarrow>
   (diagnostic_source \<Rightarrow> rstr \<Rightarrow> bool) \<Rightarrow> ('n, 'r) diagnostic list \<times> ('n, 'r) diagnostic list" where
  "cached_push_diagnostics is_virtual host_str snapshot region_offsets incl =
     (let items = map (push_items is_virtual host_str region_offsets incl) snapshot
      in (concat (map fst items), concat (map snd items)))"

section \<open>Comparing two sets\<close>

definition MULTISET_QUADRATIC_CAP :: nat where
  "MULTISET_QUADRATIC_CAP = 64"

text \<open>Each element consumes the first unused equal element of the other list.\<close>

fun greedy_match :: "('d \<Rightarrow> 'd \<Rightarrow> bool) \<Rightarrow> 'd list \<Rightarrow> bool list \<Rightarrow> 'd list \<Rightarrow> bool" where
  "greedy_match eq b matched [] = True"
| "greedy_match eq b matched (da # a) =
     (case find (\<lambda>i. \<not> matched ! i \<and> eq (b ! i) da) [0..<length b] of
        Some i \<Rightarrow> greedy_match eq b (matched[i := True]) a
      | None \<Rightarrow> False)"

fun count_texts :: "('d \<Rightarrow> rstr option) \<Rightarrow> int \<Rightarrow> 'd list \<Rightarrow> (rstr \<times> int) list \<Rightarrow> (rstr \<times> int) list option" where
  "count_texts text_of step [] counts = Some counts"
| "count_texts text_of step (d # ds) counts =
     (case text_of d of
        None \<Rightarrow> None
      | Some key \<Rightarrow> count_texts text_of step ds (AList.map_default key step (\<lambda>n. n + step) counts))"

definition same_diagnostic_multiset ::
  "('d \<Rightarrow> 'd \<Rightarrow> bool) \<Rightarrow> ('d \<Rightarrow> rstr option) \<Rightarrow> 'd list \<Rightarrow> 'd list \<Rightarrow> bool" where
  "same_diagnostic_multiset eq text_of a b =
     (if length a \<noteq> length b then False
      else if length a \<le> MULTISET_QUADRATIC_CAP
      then greedy_match eq b (replicate (length b) False) a
      else case count_texts text_of 1 a [] of
             None \<Rightarrow> False
           | Some counts \<Rightarrow>
               (case count_texts text_of (- 1) b counts of
                  None \<Rightarrow> False
                | Some counts \<Rightarrow> list_all (\<lambda>(_, c). c = 0) counts))"

section \<open>The merge does not depend on the walk\<close>

text \<open>What a walk over the slots meets.\<close>

definition walked :: "'d source_slots \<Rightarrow> (diagnostic_source \<times> rstr \<times> 'd slot_entry) list" where
  "walked snapshot = concat (map (\<lambda>(source, servers). map (Pair source) servers) snapshot)"

fun slot_items ::
  "(rstr \<Rightarrow> bool) \<Rightarrow> rstr \<Rightarrow> (rstr \<rightharpoonup> region_offset) \<Rightarrow>
   diagnostic_source \<times> rstr \<times> ('n, 'r) diagnostic slot_entry \<Rightarrow> ('n, 'r) diagnostic list" where
  "slot_items is_virtual host_str region_offsets (source, server, slot) =
     source_items is_virtual host_str region_offsets (source, [(server, slot)])"

lemma source_items_walked:
  "source_items v h off (source, servers) = concat (map (slot_items v h off) (map (Pair source) servers))"
  by (induction servers; cases source) (auto split: option.splits)

lemma merged_items:
  "concat (map (source_items v h off) snapshot) = concat (map (slot_items v h off) (walked snapshot))"
  by (induction snapshot) (auto simp: walked_def source_items_walked simp del: source_items.simps)

lemma mset_concat_map_cong:
  "mset xs = mset ys \<Longrightarrow> mset (concat (map f xs)) = mset (concat (map f ys))"
  by (simp add: mset_concat flip: mset_map) (metis mset_map sum_mset_sum_list)

lemma merge_walks:
  assumes "sorts_by (usort so)" "sorts_by (usort_keyed so)" "mset (walked s) = mset (walked t)"
  shows "map (full_key sd) (merge_cached_diagnostics num_eq sd so v h s off) =
    map (full_key sd) (merge_cached_diagnostics num_eq sd so v h t off)"
  unfolding merge_cached_diagnostics_def
  by (rule sort_forgets_the_order [OF assms(1,2)])
    (simp only: merged_items mset_concat_map_cong [OF assms(3)])

end
