(* ===== verification/Diagnostic_Sets.thy ===== *)
theory Diagnostic_Sets
  imports Diagnostic_Slots
begin

text \<open>
  \<open>same_diagnostic_multiset\<close> of \<open>lsp/diagnostic_cache.rs\<close> compares two sets of diagnostics
  element by element up to 64 of them, and by counting their texts above. The specification
  is that every diagnostic occurs as often in one as in the other.
\<close>

definition same_counts :: "('d \<Rightarrow> 'd \<Rightarrow> bool) \<Rightarrow> 'd list \<Rightarrow> 'd list \<Rightarrow> bool" where
  "same_counts eq a b \<longleftrightarrow> (\<forall>d. length (filter (eq d) a) = length (filter (eq d) b))"

text \<open>The elements of an equivalence up to their classes.\<close>

definition classes :: "('d \<Rightarrow> 'd \<Rightarrow> bool) \<Rightarrow> 'd list \<Rightarrow> 'd set multiset" where
  "classes eq xs = mset (map (\<lambda>d. Collect (eq d)) xs)"

lemma class_eq: "equivp eq \<Longrightarrow> Collect (eq d) = Collect (eq e) \<longleftrightarrow> eq d e"
  by (auto simp: equivp_def)

lemma count_classes: "equivp eq \<Longrightarrow> count (classes eq xs) (Collect (eq d)) = length (filter (eq d) xs)"
  unfolding classes_def count_mset count_list_eq_length_filter filter_map length_map comp_def by (simp add: class_eq)

lemma same_counts_classes:
  assumes "equivp eq"
  shows "same_counts eq a b \<longleftrightarrow> classes eq a = classes eq b"
proof
  assume s: "same_counts eq a b"
  show "classes eq a = classes eq b"
  proof (rule multiset_eqI)
    fix c show "count (classes eq a) c = count (classes eq b) c"
    proof (cases "\<exists>d. c = Collect (eq d)")
      case True with s assms show ?thesis by (auto simp: count_classes same_counts_def)
    next
      case False
      then have "c \<notin># classes eq xs" for xs by (auto simp: classes_def)
      then show ?thesis by (simp add: not_in_iff)
    qed
  qed
qed (simp add: same_counts_def flip: count_classes [OF assms])

section \<open>The greedy match\<close>

definition unmatched :: "'d list \<Rightarrow> bool list \<Rightarrow> nat list" where
  "unmatched b m = filter (\<lambda>i. \<not> m ! i) [0..<length b]"

lemma unmatched_update:
  assumes "i < length b" "length m = length b" "\<not> m ! i"
  shows "mset (unmatched b m) = add_mset i (mset (unmatched b (m[i := True])))"
proof -
  have "set (unmatched b m) = set (i # unmatched b (m[i := True]))"
    using assms by (auto simp: unmatched_def nth_list_update)
  then have "mset (unmatched b m) = mset (i # unmatched b (m[i := True]))"
    using assms by (subst set_eq_iff_mset_eq_distinct [symmetric]) (auto simp: unmatched_def)
  then show ?thesis by simp
qed

lemma greedy_match_iff:
  assumes "equivp eq" "length m = length b"
  shows "greedy_match eq b m a \<longleftrightarrow> classes eq a \<subseteq># classes eq (map ((!) b) (unmatched b m))"
  using assms(2)
proof (induction a arbitrary: m)
  case Nil show ?case by (simp add: classes_def)
next
  case (Cons da a)
  let ?free = "\<lambda>i. \<not> m ! i \<and> eq (b ! i) da"
  show ?case
  proof (cases "find ?free [0..<length b]")
    case None
    then have "Collect (eq da) \<notin># classes eq (map ((!) b) (unmatched b m))"
      using equivp_symp [OF assms(1)] assms(1) by (auto simp: find_None_iff classes_def unmatched_def class_eq)
    then show ?thesis using None
      by (auto simp: classes_def dest: mset_subset_eq_insertD)
  next
    case (Some i)
    then have i: "i < length b" "\<not> m ! i" "eq (b ! i) da" by (auto simp: find_Some_iff)
    have "classes eq (map ((!) b) (unmatched b m)) =
        add_mset (Collect (eq da)) (classes eq (map ((!) b) (unmatched b (m[i := True]))))"
      using unmatched_update [OF i(1) Cons.prems i(2)] i(3) assms(1)
      by (simp add: classes_def class_eq)
    then show ?thesis using Some Cons.IH [of "m[i := True]"] Cons.prems by (simp add: classes_def)
  qed
qed

lemma greedy_match_correct:
  assumes "equivp eq" "length a = length b"
  shows "greedy_match eq b (replicate (length b) False) a \<longleftrightarrow> same_counts eq a b"
proof -
  have all: "map ((!) b) (unmatched b (replicate (length b) False)) = b"
  proof -
    have "unmatched b (replicate (length b) False) = [0..<length b]"
      unfolding unmatched_def by (rule filter_True) simp
    then show ?thesis by (simp add: map_nth)
  qed
  have "size (classes eq a) = size (classes eq b)" using assms(2) by (simp add: classes_def)
  then have "classes eq a \<subseteq># classes eq b \<longleftrightarrow> classes eq a = classes eq b"
    by (metis mset_subset_size subset_mset.le_imp_less_or_eq less_irrefl subset_mset.order_refl)
  then show ?thesis
    by (simp add: greedy_match_iff [OF assms(1)] all same_counts_classes [OF assms(1)])
qed

section \<open>Counting texts\<close>

definition count_of :: "(rstr \<times> int) list \<Rightarrow> rstr \<Rightarrow> int" where
  "count_of counts key = (case map_of counts key of None \<Rightarrow> 0 | Some n \<Rightarrow> n)"

lemma count_of_update:
  "count_of (AList.map_default key n (\<lambda>c. c + n) counts) k = count_of counts k + (if k = key then n else 0)"
  "count_of (AList.map_default key n ((+) n) counts) k = count_of counts k + (if k = key then n else 0)"
  by (auto simp: count_of_def map_of_map_default split: option.splits)

lemma count_texts_Some:
  assumes "count_texts text_of step ds counts = Some counts'" "distinct (map fst counts)"
  shows "distinct (map fst counts')"
    and "count_of counts' key = count_of counts key + step * int (length (filter (\<lambda>d. text_of d = Some key) ds))"
  using assms
  by (induction text_of step ds counts rule: count_texts.induct)
    (auto simp: count_of_update distinct_map_default algebra_simps split: option.splits)

lemma count_texts_None: "count_texts text_of step ds counts = None \<longleftrightarrow> (\<exists>d \<in> set ds. text_of d = None)"
  by (induction text_of step ds counts rule: count_texts.induct) (auto split: option.splits)

lemma all_zero: "distinct (map fst counts) \<Longrightarrow>
    list_all (\<lambda>(_, c). c = 0) counts \<longleftrightarrow> (\<forall>key. count_of counts key = 0)"
  by (force simp: list_all_iff count_of_def split: option.splits dest: map_of_SomeD)

definition texts_agree :: "('d \<Rightarrow> rstr option) \<Rightarrow> 'd list \<Rightarrow> 'd list \<Rightarrow> bool" where
  "texts_agree text_of a b \<longleftrightarrow>
     (\<forall>d \<in> set a \<union> set b. text_of d \<noteq> None) \<and>
     (\<forall>key. length (filter (\<lambda>d. text_of d = Some key) a) = length (filter (\<lambda>d. text_of d = Some key) b))"

lemma counting_correct:
  "(case count_texts text_of 1 a [] of None \<Rightarrow> False
    | Some counts \<Rightarrow> (case count_texts text_of (- 1) b counts of None \<Rightarrow> False
        | Some counts \<Rightarrow> list_all (\<lambda>(_, c). c = 0) counts)) \<longleftrightarrow> texts_agree text_of a b"
proof (cases "count_texts text_of 1 a []")
  case None
  then have "\<exists>d \<in> set a. text_of d = None" by (simp only: count_texts_None)
  then show ?thesis by (auto simp: None texts_agree_def)
next
  case (Some c1)
  note c1 = count_texts_Some [OF Some, simplified]
  show ?thesis
  proof (cases "count_texts text_of (- 1) b c1")
    case None
    then have "\<exists>d \<in> set b. text_of d = None" by (simp only: count_texts_None)
    then show ?thesis by (auto simp: Some None texts_agree_def)
  next
    case c2: (Some c2)
    have "\<forall>d \<in> set a \<union> set b. text_of d \<noteq> None"
      using Some c2 count_texts_None by (metis Un_iff option.distinct(1))
    then show ?thesis
      using Some c2 all_zero [OF count_texts_Some(1) [OF c2 c1(1)]] count_texts_Some(2) [OF c2 c1(1)] c1(2)
      by (auto simp: texts_agree_def count_of_def)
  qed
qed

lemma texts_agree_sound:
  assumes "equivp eq" "\<And>d e s. text_of d = Some s \<Longrightarrow> text_of e = Some s \<Longrightarrow> eq d e" "texts_agree text_of a b"
  shows "same_counts eq a b"
proof -
  let ?t = "\<lambda>xs. mset (map text_of xs)"
  have "?t a = ?t b"
  proof (rule multiset_eqI)
    fix o' show "count (?t a) o' = count (?t b) o'"
    proof (cases o')
      case None
      then have "o' \<notin># ?t a" "o' \<notin># ?t b" using assms(3) by (force simp: texts_agree_def)+
      then show ?thesis by (simp only: not_in_iff)
    next
      case (Some key)
      have "count (?t xs) o' = length (filter (\<lambda>d. text_of d = Some key) xs)" for xs
        unfolding count_mset count_list_eq_length_filter filter_map length_map comp_def Some
        by (simp add: eq_commute)
      with assms(3) show ?thesis by (simp add: texts_agree_def)
    qed
  qed
  let ?cls = "\<lambda>t. {e. \<exists>d. text_of d = t \<and> eq d e}"
  have in_class: "?cls (text_of d) = Collect (eq d)" if "text_of d \<noteq> None" for d
    using that assms(1,2) by (auto dest: equivp_transp) (metis equivp_transp)
  have "classes eq xs = image_mset ?cls (?t xs)" if "\<forall>d \<in> set xs. text_of d \<noteq> None" for xs
    unfolding classes_def using that in_class by (induction xs) auto
  with \<open>?t a = ?t b\<close> assms(3) show ?thesis
    by (simp add: same_counts_classes [OF assms(1)] texts_agree_def)
qed

section \<open>Correctness\<close>

lemma size_same_counts: "equivp eq \<Longrightarrow> same_counts eq a b \<Longrightarrow> length a = length b"
  by (metis classes_def length_map same_counts_classes size_mset)

text \<open>
  A republish is suppressed only for the set that was recorded. Sets that compare as
  equal have every diagnostic equally often; up to 64 diagnostics the comparison is exactly
  that, in any order, and above it is the comparison of the texts, which a text that cannot
  be written fails.
\<close>

theorem same_multiset_correct:
  assumes "equivp eq" "\<And>d e s. text_of d = Some s \<Longrightarrow> text_of e = Some s \<Longrightarrow> eq d e"
  shows "(same_diagnostic_multiset eq text_of a b \<longrightarrow> same_counts eq a b) \<and>
    (same_diagnostic_multiset eq text_of a b \<longleftrightarrow>
      (if length a \<le> 64 then same_counts eq a b
       else length a = length b \<and> texts_agree text_of a b))"
proof -
  have exact: "same_diagnostic_multiset eq text_of a b \<longleftrightarrow>
      (if length a \<le> 64 then same_counts eq a b else length a = length b \<and> texts_agree text_of a b)"
    by (auto simp: same_diagnostic_multiset_def MULTISET_QUADRATIC_CAP_def
        greedy_match_correct [OF assms(1)] counting_correct size_same_counts [OF assms(1)])
  moreover have "texts_agree text_of a b \<Longrightarrow> same_counts eq a b"
    using texts_agree_sound [OF assms] by simp
  ultimately show ?thesis by auto
qed

lemma same_multiset_correct_witness:
  "same_diagnostic_multiset (=) Some [[1], [2], [1]] [[2], [1], [1 :: nat]] \<and>
   \<not> same_diagnostic_multiset (=) Some [[1], [2], [1]] [[2], [1], [2 :: nat]]"
  using same_multiset_correct [of "(=)" Some "[[1], [2], [1]]" "[[2], [1], [1 :: nat]]"]
    same_multiset_correct [of "(=)" Some "[[1], [2], [1]]" "[[2], [1], [2 :: nat]]"]
  by (auto simp: identity_equivp same_counts_classes classes_def)

end
