(* ===== verification/Diagnostic_Cache.thy ===== *)
theory Diagnostic_Cache
  imports Diagnostic_Sets
begin

text \<open>
  The state of \<open>DiagnosticAggregator\<close> in \<open>lsp/diagnostic_cache.rs\<close> and its operations on the
  slots, the recorded sets and the pull-view lag; the wire gate, the republish locks and the metrics
  are left out. Each field of the struct has a mutex of its
  own; an operation holds what it needs together, so it is one step, and where it takes two
  locks one after the other the model has two operations. A poisoned lock is recovered, so
  it has no branch. A map that is walked is an association list. The parameter \<open>eq\<close> is the
  equality of two diagnostics.
\<close>

section \<open>The aggregator\<close>

text \<open>An \<open>Instant\<close> and a \<open>Duration\<close> are numbers of nanoseconds.\<close>

type_synonym instant = nat
type_synonym timespan = nat

record refresh_flight =
  in_flight :: bool
  pending_refresh :: bool
  pending_forced :: bool

definition refresh_flight_default :: refresh_flight where
  "refresh_flight_default = \<lparr>in_flight = False, pending_refresh = False, pending_forced = False\<rparr>"

record forwarded_refresh_debounce =
  generation :: u64
  task_scheduled :: bool
  last_activity :: "instant option"
  refresh_epoch :: u64
  refresh_epoch_at_last_activity :: u64
  covered_generation :: "u64 option"
  prefetched_generation :: "u64 option"

definition forwarded_default :: forwarded_refresh_debounce where
  "forwarded_default =
     \<lparr>generation = 0, task_scheduled = False, last_activity = None, refresh_epoch = 0,
      refresh_epoch_at_last_activity = 0, covered_generation = None, prefetched_generation = None\<rparr>"

record host_coverage =
  cov_epoch :: u64
  cov_current :: u64
  cov_served :: u64

record coverage_stamp =
  st_epoch :: u64
  st_version :: u64

record ('u, 'd) aggregator =
  cache :: "('u \<times> 'd source_slots) list"
  next_cache_revision :: u64
  cache_revisions :: "'u \<rightharpoonup> u64"
  last_published :: "'u \<rightharpoonup> 'd list"
  last_wire_published :: "'u \<rightharpoonup> 'd list"
  flight :: refresh_flight
  forwarded :: forwarded_refresh_debounce
  coverage :: "('u \<times> host_coverage) list"
  next_coverage_epoch :: u64
  degraded_pulls :: "'u \<rightharpoonup> u64 option"
  pull_view_lag :: "'u \<rightharpoonup> u64"
  pull_view_lag_pending :: "'u \<rightharpoonup> u64"
  next_pull_view_lag_serial :: u64

definition aggregator_new :: "('u, 'd) aggregator" where
  "aggregator_new =
     \<lparr>cache = [], next_cache_revision = 0, cache_revisions = Map.empty,
      last_published = Map.empty, last_wire_published = Map.empty,
      flight = refresh_flight_default, forwarded = forwarded_default,
      coverage = [], next_coverage_epoch = 0, degraded_pulls = Map.empty,
      pull_view_lag = Map.empty, pull_view_lag_pending = Map.empty,
      next_pull_view_lag_serial = 0\<rparr>"

section \<open>Slots\<close>

definition allocate_cache_revision :: "('u, 'd) aggregator \<Rightarrow> u64 \<times> ('u, 'd) aggregator" where
  "allocate_cache_revision a =
     (next_cache_revision a + 1, a\<lparr>next_cache_revision := next_cache_revision a + 1\<rparr>)"

definition new_revision :: "'u \<Rightarrow> ('u, 'd) aggregator \<Rightarrow> ('u, 'd) aggregator" where
  "new_revision host a =
     (let (revision, a) = allocate_cache_revision a
      in a\<lparr>cache_revisions := (cache_revisions a)(host \<mapsto> revision)\<rparr>)"

definition cached_slots :: "'u \<Rightarrow> ('u, 'd) aggregator \<Rightarrow> 'd source_slots" where
  "cached_slots host a = (case map_of (cache a) host of Some slots \<Rightarrow> slots | None \<Rightarrow> [])"

definition servers_of :: "diagnostic_source \<Rightarrow> 'd source_slots \<Rightarrow> 'd server_slots" where
  "servers_of source slots = (case map_of slots source of Some servers \<Rightarrow> servers | None \<Rightarrow> [])"

definition slot_changed ::
  "('d \<Rightarrow> 'd \<Rightarrow> bool) \<Rightarrow> diagnostic_source \<Rightarrow> rstr \<Rightarrow> 'd list \<Rightarrow> 'd source_slots \<Rightarrow> bool" where
  "slot_changed eq source server diagnostics slots =
     (case map_of slots source of
        None \<Rightarrow> True
      | Some servers \<Rightarrow>
          (case map_of servers server of
             None \<Rightarrow> True
           | Some slot \<Rightarrow> \<not> list_all2 eq (slot_diagnostics slot) diagnostics))"

definition put_slot :: "diagnostic_source \<Rightarrow> rstr \<Rightarrow> 'd slot_entry \<Rightarrow> 'd source_slots \<Rightarrow> 'd source_slots" where
  "put_slot source server slot slots =
     AList.update source (AList.update server slot (servers_of source slots)) slots"

definition record_slot ::
  "('d \<Rightarrow> 'd \<Rightarrow> bool) \<Rightarrow> 'u \<Rightarrow> diagnostic_source \<Rightarrow> rstr \<Rightarrow> u64 option \<Rightarrow> 'd list \<Rightarrow>
   ('u, 'd) aggregator \<Rightarrow> bool \<times> ('u, 'd) aggregator" where
  "record_slot eq host source server connection_id diagnostics a =
     (let slots = cached_slots host a;
          changed = slot_changed eq source server diagnostics slots;
          slot = \<lparr>slot_diagnostics = diagnostics, slot_connection = connection_id\<rparr>;
          a = a\<lparr>cache := AList.update host (put_slot source server slot slots) (cache a)\<rparr>
      in (changed, if changed then new_revision host a else a))"

definition revision_of :: "'u \<Rightarrow> ('u, 'd) aggregator \<Rightarrow> u64" where
  "revision_of host a = (case cache_revisions a host of Some revision \<Rightarrow> revision | None \<Rightarrow> 0)"

definition snapshot_with_revision :: "'u \<Rightarrow> ('u, 'd) aggregator \<Rightarrow> 'd source_slots \<times> u64" where
  "snapshot_with_revision host a = (cached_slots host a, revision_of host a)"

definition has_region_slots :: "'u \<Rightarrow> ('u, 'd) aggregator \<Rightarrow> bool" where
  "has_region_slots host a =
     (case map_of (cache a) host of None \<Rightarrow> False | Some slots \<Rightarrow> has_live_region_slots slots)"

definition has_nonempty_pull_layer :: "'u \<Rightarrow> ('u, 'd) aggregator \<Rightarrow> bool" where
  "has_nonempty_pull_layer host a =
     (case map_of (cache a) host of
        None \<Rightarrow> False
      | Some slots \<Rightarrow>
          (case map_of slots PullLayer of
             None \<Rightarrow> False
           | Some servers \<Rightarrow> list_ex (\<lambda>(_, slot). slot_diagnostics slot \<noteq> []) servers))"

definition evict_host :: "'u \<Rightarrow> ('u, 'd) aggregator \<Rightarrow> bool \<times> ('u, 'd) aggregator" where
  "evict_host host a =
     (map_of (cache a) host \<noteq> None,
      a\<lparr>cache := AList.delete host (cache a), cache_revisions := (cache_revisions a)(host := None)\<rparr>)"

text \<open>A host whose last source went is dropped.\<close>

definition put_slots :: "'u \<Rightarrow> 'd source_slots \<Rightarrow> ('u, 'd) aggregator \<Rightarrow> ('u, 'd) aggregator" where
  "put_slots host slots a =
     a\<lparr>cache := (if slots = [] then AList.delete host (cache a) else AList.update host slots (cache a))\<rparr>"

definition evict_source :: "'u \<Rightarrow> diagnostic_source \<Rightarrow> ('u, 'd) aggregator \<Rightarrow> bool \<times> ('u, 'd) aggregator" where
  "evict_source host source a =
     (case map_of (cache a) host of
        None \<Rightarrow> (False, a)
      | Some slots \<Rightarrow>
          (let removed = map_of slots source \<noteq> None;
               a = put_slots host (AList.delete source slots) a
           in (removed, if removed then new_revision host a else a)))"

text \<open>Whether a slot was removed, whether one with diagnostics was, and what is left.\<close>

fun remove_region_server ::
  "bool \<times> bool \<times> 'd source_slots \<Rightarrow> rstr \<times> rstr \<Rightarrow> bool \<times> bool \<times> 'd source_slots" where
  "remove_region_server (removed, removed_diagnostics, sources) (region_id, server) =
     (case map_of sources (Region region_id) of
        None \<Rightarrow> (removed, removed_diagnostics, sources)
      | Some servers \<Rightarrow>
          (let slot = map_of servers server;
               servers = AList.delete server servers;
               sources = (if servers = [] then AList.delete (Region region_id) sources
                          else AList.update (Region region_id) servers sources)
           in case slot of
                None \<Rightarrow> (removed, removed_diagnostics, sources)
              | Some slot \<Rightarrow> (True, removed_diagnostics \<or> slot_diagnostics slot \<noteq> [], sources)))"

definition evict_region_servers ::
  "'u \<Rightarrow> (rstr \<times> rstr) list \<Rightarrow> ('u, 'd) aggregator \<Rightarrow> bool \<times> ('u, 'd) aggregator" where
  "evict_region_servers host slots a =
     (case map_of (cache a) host of
        None \<Rightarrow> (False, a)
      | Some sources \<Rightarrow>
          (let (removed, removed_diagnostics, sources) = foldl remove_region_server (False, False, sources) slots;
               a = put_slots host sources a
           in (removed_diagnostics, if removed then new_revision host a else a)))"

definition connection_push_slots :: "u64 \<Rightarrow> ('u, 'd) aggregator \<Rightarrow> ('u \<times> diagnostic_source \<times> rstr) list" where
  "connection_push_slots connection_id a =
     concat (map (\<lambda>(host, sources).
       concat (map (\<lambda>(source, servers).
         map (\<lambda>(server, _). (host, source, server))
           (filter (\<lambda>(_, slot). slot_connection slot = Some connection_id \<and> slot_diagnostics slot \<noteq> []) servers))
         sources)) (cache a))"

text \<open>The sources of a host without the slots of a connection.\<close>

definition without_connection :: "u64 \<Rightarrow> 'd source_slots \<Rightarrow> 'd source_slots" where
  "without_connection connection_id sources =
     filter (\<lambda>(_, servers). servers \<noteq> [])
       (map (\<lambda>(source, servers). (source, filter (\<lambda>(_, slot). slot_connection slot \<noteq> Some connection_id) servers))
         sources)"

definition loses_slots :: "u64 \<Rightarrow> 'd source_slots \<Rightarrow> bool" where
  "loses_slots connection_id sources =
     list_ex (\<lambda>(_, servers).
       length (filter (\<lambda>(_, slot). slot_connection slot \<noteq> Some connection_id) servers) \<noteq> length servers) sources"

definition evict_connection :: "u64 \<Rightarrow> ('u, 'd) aggregator \<Rightarrow> 'u list \<times> ('u, 'd) aggregator" where
  "evict_connection connection_id a =
     (let affected = map fst (filter (\<lambda>(_, sources). loses_slots connection_id sources) (cache a));
          a = a\<lparr>cache := filter (\<lambda>(_, sources). sources \<noteq> [])
                (map (\<lambda>(host, sources). (host, without_connection connection_id sources)) (cache a))\<rparr>
      in (affected, fold new_revision affected a))"

section \<open>Recorded sets\<close>

text \<open>Differs from the recorded set, order aside.\<close>

definition differs_from_last ::
  "('d \<Rightarrow> 'd \<Rightarrow> bool) \<Rightarrow> ('d \<Rightarrow> rstr option) \<Rightarrow> 'u \<Rightarrow> 'd list \<Rightarrow> ('u, 'd) aggregator \<Rightarrow> bool" where
  "differs_from_last eq text_of host diagnostics a =
     (case last_published a host of
        None \<Rightarrow> True
      | Some previous \<Rightarrow>
          \<not> list_all2 eq previous diagnostics \<and> \<not> same_diagnostic_multiset eq text_of previous diagnostics)"

text \<open>
  The comparison is made on a copy, before the revision is checked; the recorded set changes
  only under the republish lock of its host, so one step has the same effect.
\<close>

definition published_set_changed_current_revision ::
  "('d \<Rightarrow> 'd \<Rightarrow> bool) \<Rightarrow> ('d \<Rightarrow> rstr option) \<Rightarrow> 'u \<Rightarrow> 'd list \<Rightarrow> u64 \<Rightarrow>
   ('u, 'd) aggregator \<Rightarrow> bool option \<times> ('u, 'd) aggregator" where
  "published_set_changed_current_revision eq text_of host diagnostics cache_revision a =
     (let changed = differs_from_last eq text_of host diagnostics a
      in if revision_of host a \<noteq> cache_revision then (None, a)
         else (Some changed,
               if changed then a\<lparr>last_published := (last_published a)(host \<mapsto> diagnostics)\<rparr> else a))"

definition forget_published :: "'u \<Rightarrow> ('u, 'd) aggregator \<Rightarrow> ('u, 'd) aggregator" where
  "forget_published host a =
     a\<lparr>last_published := (last_published a)(host := None),
       last_wire_published := (last_wire_published a)(host := None),
       pull_view_lag_pending := (pull_view_lag_pending a)(host := None),
       pull_view_lag := (pull_view_lag a)(host := None)\<rparr>"

section \<open>Pull-view lag\<close>

definition mark_pending_lag :: "'u \<Rightarrow> ('u, 'd) aggregator \<Rightarrow> ('u, 'd) aggregator" where
  "mark_pending_lag host a =
     a\<lparr>pull_view_lag_pending := (pull_view_lag_pending a)(host \<mapsto> revision_of host a)\<rparr>"

definition set_pull_layer_nudgeless ::
  "('d \<Rightarrow> 'd \<Rightarrow> bool) \<Rightarrow> 'u \<Rightarrow> 'd list \<Rightarrow> ('u, 'd) aggregator \<Rightarrow> ('u, 'd) aggregator" where
  "set_pull_layer_nudgeless eq host diagnostics a =
     (let slots = cached_slots host a;
          changed = slot_changed eq PullLayer PULL_LAYER_SERVER diagnostics slots;
          slot = \<lparr>slot_diagnostics = diagnostics, slot_connection = None\<rparr>;
          a = a\<lparr>cache := AList.update host (put_slot PullLayer PULL_LAYER_SERVER slot slots) (cache a)\<rparr>
      in if changed then mark_pending_lag host (new_revision host a) else a)"

definition evict_pull_layer_nudgeless :: "'u \<Rightarrow> ('u, 'd) aggregator \<Rightarrow> ('u, 'd) aggregator" where
  "evict_pull_layer_nudgeless host a =
     (case map_of (cache a) host of
        None \<Rightarrow> a
      | Some slots \<Rightarrow>
          (let removed = map_of slots PullLayer \<noteq> None;
               a = put_slots host (AList.delete PullLayer slots) a
           in if removed then mark_pending_lag host (new_revision host a) else a))"

definition settle_pending_pull_view_lag ::
  "'u \<Rightarrow> u64 \<Rightarrow> bool \<Rightarrow> ('u, 'd) aggregator \<Rightarrow> ('u, 'd) aggregator" where
  "settle_pending_pull_view_lag host cache_revision changed a =
     (case pull_view_lag_pending a host of
        None \<Rightarrow> a
      | Some revision \<Rightarrow>
          (if revision \<le> cache_revision
           then let a = a\<lparr>pull_view_lag_pending := (pull_view_lag_pending a)(host := None)\<rparr>
                in if changed
                   then a\<lparr>next_pull_view_lag_serial := next_pull_view_lag_serial a + 1,
                          pull_view_lag := (pull_view_lag a)(host \<mapsto> next_pull_view_lag_serial a)\<rparr>
                   else a
           else a))"

definition has_pull_view_lag :: "'u \<Rightarrow> ('u, 'd) aggregator \<Rightarrow> bool" where
  "has_pull_view_lag host a \<longleftrightarrow>
     pull_view_lag_pending a host \<noteq> None \<or> pull_view_lag a host \<noteq> None"

definition pull_view_lag_stamp :: "'u \<Rightarrow> ('u, 'd) aggregator \<Rightarrow> u64 option" where
  "pull_view_lag_stamp host a = pull_view_lag a host"

definition clear_pull_view_lag_up_to :: "'u \<Rightarrow> u64 option \<Rightarrow> ('u, 'd) aggregator \<Rightarrow> ('u, 'd) aggregator" where
  "clear_pull_view_lag_up_to host stamp a =
     (case stamp of
        None \<Rightarrow> a
      | Some stamp \<Rightarrow>
          (case pull_view_lag a host of
             None \<Rightarrow> a
           | Some serial \<Rightarrow>
               if serial \<le> stamp then a\<lparr>pull_view_lag := (pull_view_lag a)(host := None)\<rparr> else a))"

end
