(* ===== verification/Diagnostic_Refresh.thy ===== *)
theory Diagnostic_Refresh
  imports Diagnostic_Cache
begin

text \<open>
  The operations of \<open>DiagnosticAggregator\<close> behind \<open>workspace/diagnostic/refresh\<close>: coverage
  of what the editor pulled, the single flight of the request, the debt of degraded pulls and
  the debounce of refreshes that downstream servers ask for.
\<close>

section \<open>Coverage\<close>

definition bump_current :: "'u \<Rightarrow> ('u, 'd) aggregator \<Rightarrow> ('u, 'd) aggregator" where
  "bump_current host a =
     (case map_of (coverage a) host of
        Some cov \<Rightarrow> a\<lparr>coverage := AList.update host (cov\<lparr>cov_current := cov_current cov + 1\<rparr>) (coverage a)\<rparr>
      | None \<Rightarrow>
          a\<lparr>next_coverage_epoch := next_coverage_epoch a + 1,
            coverage := AList.update host
              \<lparr>cov_epoch = next_coverage_epoch a, cov_current = 1, cov_served = 0\<rparr> (coverage a)\<rparr>)"

definition take_coverage_stamp :: "'u \<Rightarrow> ('u, 'd) aggregator \<Rightarrow> coverage_stamp option" where
  "take_coverage_stamp host a =
     map_option (\<lambda>cov. \<lparr>st_epoch = cov_epoch cov, st_version = cov_current cov\<rparr>) (map_of (coverage a) host)"

definition mark_served :: "'u \<Rightarrow> coverage_stamp option \<Rightarrow> ('u, 'd) aggregator \<Rightarrow> ('u, 'd) aggregator" where
  "mark_served host stamp a =
     (case stamp of
        None \<Rightarrow> a
      | Some stamp \<Rightarrow>
          (case map_of (coverage a) host of
             None \<Rightarrow> a
           | Some cov \<Rightarrow>
               if cov_epoch cov = st_epoch stamp
               then a\<lparr>coverage := AList.update host
                      (cov\<lparr>cov_served := max (cov_served cov) (st_version stamp)\<rparr>) (coverage a)\<rparr>
               else a))"

definition is_dirty :: "('u, 'd) aggregator \<Rightarrow> bool" where
  "is_dirty a = list_ex (\<lambda>(_, c). cov_current c > cov_served c) (coverage a)"

definition forget_coverage :: "'u \<Rightarrow> ('u, 'd) aggregator \<Rightarrow> ('u, 'd) aggregator" where
  "forget_coverage host a = a\<lparr>coverage := AList.delete host (coverage a)\<rparr>"

section \<open>Single flight\<close>

definition try_begin_refresh :: "bool \<Rightarrow> ('u, 'd) aggregator \<Rightarrow> bool \<times> ('u, 'd) aggregator" where
  "try_begin_refresh forced a =
     (let f = flight a
      in if in_flight f
         then (False, a\<lparr>flight := f\<lparr>pending_refresh := True, pending_forced := pending_forced f \<or> forced\<rparr>\<rparr>)
         else if \<not> (forced \<or> is_dirty a) then (False, a)
         else (True, a\<lparr>flight := f\<lparr>in_flight := True\<rparr>\<rparr>))"

definition finish_refresh :: "('u, 'd) aggregator \<Rightarrow> bool \<times> ('u, 'd) aggregator" where
  "finish_refresh a =
     (let f = flight a;
          fire = pending_refresh f \<and> (pending_forced f \<or> is_dirty a);
          f = f\<lparr>pending_refresh := False, pending_forced := False\<rparr>
      in if fire then (True, a\<lparr>flight := f\<rparr>) else (False, a\<lparr>flight := f\<lparr>in_flight := False\<rparr>\<rparr>))"

definition cancel_refresh_flight :: "('u, 'd) aggregator \<Rightarrow> ('u, 'd) aggregator" where
  "cancel_refresh_flight a = a\<lparr>flight := refresh_flight_default\<rparr>"

section \<open>Degraded pulls\<close>

fun merge_debt_lifetime :: "u64 option \<Rightarrow> u64 option \<Rightarrow> u64 option" where
  "merge_debt_lifetime (Some stored) (Some incoming) = Some (max stored incoming)"
| "merge_debt_lifetime _ _ = None"

definition record_degraded_pull :: "'u \<Rightarrow> coverage_stamp option \<Rightarrow> ('u, 'd) aggregator \<Rightarrow> ('u, 'd) aggregator" where
  "record_degraded_pull host stamp a =
     (let epoch = map_option st_epoch stamp
      in a\<lparr>degraded_pulls := (degraded_pulls a)(host \<mapsto>
           (case degraded_pulls a host of
              Some recorded \<Rightarrow> merge_debt_lifetime recorded epoch
            | None \<Rightarrow> epoch))\<rparr>)"

definition forget_degraded_pull :: "'u \<Rightarrow> ('u, 'd) aggregator \<Rightarrow> ('u, 'd) aggregator" where
  "forget_degraded_pull host a = a\<lparr>degraded_pulls := (degraded_pulls a)(host := None)\<rparr>"

definition take_degraded_pull :: "'u \<Rightarrow> ('u, 'd) aggregator \<Rightarrow> bool \<times> ('u, 'd) aggregator" where
  "take_degraded_pull host a =
     (degraded_pulls a host \<noteq> None, a\<lparr>degraded_pulls := (degraded_pulls a)(host := None)\<rparr>)"

definition forget_degraded_pull_from ::
  "'u \<Rightarrow> coverage_stamp option \<Rightarrow> ('u, 'd) aggregator \<Rightarrow> ('u, 'd) aggregator" where
  "forget_degraded_pull_from host stamp a =
     (case stamp of
        None \<Rightarrow> a
      | Some stamp \<Rightarrow>
          if degraded_pulls a host = Some (Some (st_epoch stamp))
          then a\<lparr>degraded_pulls := (degraded_pulls a)(host := None)\<rparr> else a)"

section \<open>Forwarded refreshes\<close>

record wait_snapshot =
  ws_generation :: u64
  ws_last_activity_at :: instant

datatype forwarded_refresh_wait =
    Restart wait_snapshot
  | SendTrailing wait_snapshot
  | Settled
  | MaxWait wait_snapshot bool

definition forwarded_refresh_cycle_pending :: "forwarded_refresh_debounce \<Rightarrow> bool" where
  "forwarded_refresh_cycle_pending b \<longleftrightarrow>
     prefetched_generation b \<noteq> Some (generation b) \<or>
     (covered_generation b \<noteq> Some (generation b) \<and>
      refresh_epoch b = refresh_epoch_at_last_activity b)"

definition begin_forwarded_refresh_debounce ::
  "instant \<Rightarrow> forwarded_refresh_debounce \<Rightarrow> wait_snapshot option \<times> forwarded_refresh_debounce" where
  "begin_forwarded_refresh_debounce now b =
     (let b = b\<lparr>generation := generation b + 1, last_activity := Some now,
                refresh_epoch_at_last_activity := refresh_epoch b\<rparr>
      in if task_scheduled b then (None, b)
         else (Some \<lparr>ws_generation = generation b, ws_last_activity_at = now\<rparr>, b\<lparr>task_scheduled := True\<rparr>))"

text \<open>\<open>None\<close> is the panic of \<open>expect("activity generation has a timestamp")\<close>.\<close>

definition latest_wait_snapshot :: "forwarded_refresh_debounce \<Rightarrow> wait_snapshot option" where
  "latest_wait_snapshot b =
     map_option (\<lambda>at. \<lparr>ws_generation = generation b, ws_last_activity_at = at\<rparr>) (last_activity b)"

definition finish_forwarded_refresh_wait ::
  "u64 \<Rightarrow> bool \<Rightarrow> forwarded_refresh_debounce \<Rightarrow>
   (forwarded_refresh_wait \<times> forwarded_refresh_debounce) option" where
  "finish_forwarded_refresh_wait observed max_wait_reached b =
     (if max_wait_reached
      then map_option (\<lambda>snapshot. (MaxWait snapshot (forwarded_refresh_cycle_pending b), b)) (latest_wait_snapshot b)
      else if generation b \<noteq> observed
      then map_option (\<lambda>snapshot. (Restart snapshot, b)) (latest_wait_snapshot b)
      else if forwarded_refresh_cycle_pending b
      then map_option (\<lambda>snapshot. (SendTrailing snapshot, b)) (latest_wait_snapshot b)
      else Some (Settled, b\<lparr>task_scheduled := False\<rparr>))"

definition finish_forwarded_refresh_admission ::
  "u64 \<Rightarrow> forwarded_refresh_debounce \<Rightarrow> (wait_snapshot option \<times> forwarded_refresh_debounce) option" where
  "finish_forwarded_refresh_admission admitted b =
     (if generation b = admitted then Some (None, b\<lparr>task_scheduled := False\<rparr>)
      else map_option (\<lambda>snapshot. (Some snapshot, b)) (latest_wait_snapshot b))"

definition cancel_forwarded_refresh_debounce :: "forwarded_refresh_debounce \<Rightarrow> forwarded_refresh_debounce" where
  "cancel_forwarded_refresh_debounce b = b\<lparr>task_scheduled := False\<rparr>"

definition mark_forwarded_refresh_covered :: "u64 \<Rightarrow> forwarded_refresh_debounce \<Rightarrow> forwarded_refresh_debounce" where
  "mark_forwarded_refresh_covered g b =
     (if generation b = g then b\<lparr>covered_generation := Some g\<rparr> else b)"

definition mark_forwarded_refresh_prefetched :: "u64 \<Rightarrow> forwarded_refresh_debounce \<Rightarrow> forwarded_refresh_debounce" where
  "mark_forwarded_refresh_prefetched g b =
     (if generation b = g then b\<lparr>prefetched_generation := Some g\<rparr> else b)"

definition forwarded_refresh_needs_editor_send :: "u64 \<Rightarrow> forwarded_refresh_debounce \<Rightarrow> bool" where
  "forwarded_refresh_needs_editor_send g b \<longleftrightarrow>
     generation b = g \<and> covered_generation b \<noteq> Some g \<and>
     refresh_epoch b = refresh_epoch_at_last_activity b"

definition forwarded_refresh_epoch_covered :: "u64 \<Rightarrow> forwarded_refresh_debounce \<Rightarrow> bool" where
  "forwarded_refresh_epoch_covered g b \<longleftrightarrow>
     generation b = g \<and> covered_generation b \<noteq> Some g \<and>
     refresh_epoch b \<noteq> refresh_epoch_at_last_activity b"

definition record_refresh_sent :: "forwarded_refresh_debounce \<Rightarrow> forwarded_refresh_debounce" where
  "record_refresh_sent b = b\<lparr>refresh_epoch := refresh_epoch b + 1\<rparr>"

end
