(* ===== verification/Refresh_History.thy ===== *)
theory Refresh_History
  imports Diagnostic_Refresh
begin

text \<open>
  What can happen around \<open>workspace/diagnostic/refresh\<close>: pushes bump the coverage of a host and
  ask for a refresh, the editor acknowledges the one that is outstanding, and pulls begin,
  answer covering or degraded and settle what they may, in any order. The steps of a pull
  (\<open>mark_pull_covered\<close> in \<open>lsp_impl/text_document/diagnostic.rs\<close>) interleave with all others,
  and a pull may repeat them. Refreshes sent, acknowledgements and the debts owed are only
  counted, to be compared with.
\<close>

section \<open>Histories\<close>

record 'u pull =
  pl_host :: 'u
  pl_stamp :: "coverage_stamp option"
  pl_lag :: "u64 option"

record ('u, 'd) refresh_world =
  agg :: "('u, 'd) aggregator"
  pulls :: "'u pull list"
  sent :: nat
  acked :: nat
  debts :: "'u \<Rightarrow> u64 option list"

datatype ('u, 'd) refresh_event =
    Pushed 'u
  | Ask bool
  | Acked
  | Begin_Pull 'u
  | Serve nat
  | Settle_Debt nat
  | Clear_Lag nat
  | Degrade nat
  | Recover 'u
  | Set_Layer 'u "'d list"
  | Evict_Layer 'u
  | Validated 'u u64 bool
  | Close 'u

definition refresh_start :: "('u, 'd) refresh_world" where
  "refresh_start = \<lparr>agg = aggregator_new, pulls = [], sent = 0, acked = 0, debts = (\<lambda>_. [])\<rparr>"

definition mark_pull_covered ::
  "'u \<Rightarrow> coverage_stamp option \<Rightarrow> u64 option \<Rightarrow> bool \<Rightarrow> ('u, 'd) aggregator \<Rightarrow> ('u, 'd) aggregator" where
  "mark_pull_covered host stamp lag_stamp pull_clean a =
     (let a = mark_served host stamp a
      in if \<not> pull_clean then a
         else clear_pull_view_lag_up_to host lag_stamp (forget_degraded_pull_from host stamp a))"

definition on_pull ::
  "nat \<Rightarrow> ('u pull \<Rightarrow> ('u, 'd) refresh_world \<Rightarrow> ('u, 'd) refresh_world) \<Rightarrow>
   ('u, 'd) refresh_world \<Rightarrow> ('u, 'd) refresh_world" where
  "on_pull i f w = (if i < length (pulls w) then f (pulls w ! i) w else w)"

fun refresh_step ::
  "('d \<Rightarrow> 'd \<Rightarrow> bool) \<Rightarrow> ('u, 'd) refresh_event \<Rightarrow> ('u, 'd) refresh_world \<Rightarrow> ('u, 'd) refresh_world" where
  "refresh_step eq (Pushed host) w = w\<lparr>agg := bump_current host (agg w)\<rparr>"
| "refresh_step eq (Ask forced) w =
     (let (send, a) = try_begin_refresh forced (agg w)
      in w\<lparr>agg := a, sent := sent w + (if send then 1 else 0)\<rparr>)"
| "refresh_step eq Acked w =
     (if acked w < sent w
      then let (send, a) = finish_refresh (agg w)
           in w\<lparr>agg := a, acked := acked w + 1, sent := sent w + (if send then 1 else 0)\<rparr>
      else w)"
| "refresh_step eq (Begin_Pull host) w =
     w\<lparr>pulls := pulls w @ [\<lparr>pl_host = host, pl_stamp = take_coverage_stamp host (agg w),
                         pl_lag = pull_view_lag_stamp host (agg w)\<rparr>]\<rparr>"
| "refresh_step eq (Serve i) w =
     on_pull i (\<lambda>p w. w\<lparr>agg := mark_served (pl_host p) (pl_stamp p) (agg w)\<rparr>) w"
| "refresh_step eq (Settle_Debt i) w =
     on_pull i (\<lambda>p w.
       (let a = forget_degraded_pull_from (pl_host p) (pl_stamp p) (agg w)
        in w\<lparr>agg := a, debts := (if degraded_pulls a (pl_host p) = None then (debts w)(pl_host p := []) else debts w)\<rparr>)) w"
| "refresh_step eq (Clear_Lag i) w =
     on_pull i (\<lambda>p w. w\<lparr>agg := clear_pull_view_lag_up_to (pl_host p) (pl_lag p) (agg w)\<rparr>) w"
| "refresh_step eq (Degrade i) w =
     on_pull i (\<lambda>p w. w\<lparr>agg := record_degraded_pull (pl_host p) (pl_stamp p) (agg w),
       debts := (debts w)(pl_host p := debts w (pl_host p) @ [map_option st_epoch (pl_stamp p)])\<rparr>) w"
| "refresh_step eq (Recover host) w =
     w\<lparr>agg := snd (take_degraded_pull host (agg w)), debts := (debts w)(host := [])\<rparr>"
| "refresh_step eq (Set_Layer host diagnostics) w =
     w\<lparr>agg := set_pull_layer_nudgeless eq host diagnostics (agg w)\<rparr>"
| "refresh_step eq (Evict_Layer host) w = w\<lparr>agg := evict_pull_layer_nudgeless host (agg w)\<rparr>"
| "refresh_step eq (Validated host revision changed) w =
     w\<lparr>agg := settle_pending_pull_view_lag host revision changed (agg w)\<rparr>"
| "refresh_step eq (Close host) w =
     w\<lparr>agg := forget_degraded_pull host (forget_coverage host (forget_published host (agg w))),
       debts := (debts w)(host := [])\<rparr>"

text \<open>The answer to a covering pull is three of these steps.\<close>

lemma mark_pull_covered_steps:
  assumes "i < length (pulls w)" "pulls w ! i = p"
  shows "agg (fold (refresh_step eq) (Serve i # (if clean then [Settle_Debt i, Clear_Lag i] else [])) w) =
    mark_pull_covered (pl_host p) (pl_stamp p) (pl_lag p) clean (agg w)"
  using assms by (simp add: on_pull_def mark_pull_covered_def Let_def)

section \<open>What each operation leaves alone\<close>

lemmas operation_defs =
  bump_current_def take_coverage_stamp_def mark_served_def forget_coverage_def
  try_begin_refresh_def finish_refresh_def record_degraded_pull_def forget_degraded_pull_def
  take_degraded_pull_def forget_degraded_pull_from_def clear_pull_view_lag_up_to_def
  settle_pending_pull_view_lag_def forget_published_def Let_def

lemma layer_frame [simp]:
  "flight (set_pull_layer_nudgeless eq h ds a) = flight a"
  "coverage (set_pull_layer_nudgeless eq h ds a) = coverage a"
  "next_coverage_epoch (set_pull_layer_nudgeless eq h ds a) = next_coverage_epoch a"
  "degraded_pulls (set_pull_layer_nudgeless eq h ds a) = degraded_pulls a"
  "pull_view_lag (set_pull_layer_nudgeless eq h ds a) = pull_view_lag a"
  "next_pull_view_lag_serial (set_pull_layer_nudgeless eq h ds a) = next_pull_view_lag_serial a"
  "flight (evict_pull_layer_nudgeless h a) = flight a"
  "coverage (evict_pull_layer_nudgeless h a) = coverage a"
  "next_coverage_epoch (evict_pull_layer_nudgeless h a) = next_coverage_epoch a"
  "degraded_pulls (evict_pull_layer_nudgeless h a) = degraded_pulls a"
  "pull_view_lag (evict_pull_layer_nudgeless h a) = pull_view_lag a"
  "next_pull_view_lag_serial (evict_pull_layer_nudgeless h a) = next_pull_view_lag_serial a"
  by (simp_all add: set_pull_layer_nudgeless_def evict_pull_layer_nudgeless_def mark_pending_lag_def
      new_revision_def allocate_cache_revision_def put_slots_def Let_def split: option.splits)

section \<open>Single flight\<close>

text \<open>One request is outstanding exactly while the flag says so.\<close>

definition flight_inv :: "('u, 'd) refresh_world \<Rightarrow> bool" where
  "flight_inv w \<longleftrightarrow>
     (let f = flight (agg w)
      in if in_flight f then sent w = Suc (acked w) else sent w = acked w \<and> \<not> pending_refresh f)"

lemma flight_inv_step: "flight_inv w \<Longrightarrow> flight_inv (refresh_step eq e w)"
  by (cases e) (auto simp: flight_inv_def operation_defs on_pull_def split: option.splits if_splits)

lemma flight_inv_run: "flight_inv w \<Longrightarrow> flight_inv (fold (refresh_step eq) es w)"
  by (induction es arbitrary: w) (simp_all add: flight_inv_step)

lemma flight_inv_start: "flight_inv refresh_start"
  by (simp add: flight_inv_def refresh_start_def aggregator_new_def refresh_flight_default_def)

lemma sent_mono: "sent w \<le> sent (refresh_step eq e w)"
  by (cases e) (auto simp: on_pull_def Let_def split: prod.splits)

lemma sent_mono_run: "sent w \<le> sent (fold (refresh_step eq) es w)"
  by (induction es arbitrary: w) (auto intro: order_trans [OF sent_mono])

text \<open>A refresh was sent, or the outstanding one is followed by another.\<close>

definition due :: "nat \<Rightarrow> bool \<Rightarrow> ('u, 'd) refresh_world \<Rightarrow> bool" where
  "due before forced w \<longleftrightarrow> before < sent w \<or>
     (in_flight (flight (agg w)) \<and> pending_refresh (flight (agg w)) \<and>
      (forced \<longrightarrow> pending_forced (flight (agg w))))"

lemma due_step:
  assumes "due before forced w" "before \<le> sent w" "flight_inv w" "\<not> forced \<Longrightarrow> is_dirty (agg w)"
  shows "due before forced (refresh_step eq e w)"
proof (cases "before < sent w")
  case True
  then show ?thesis using sent_mono [of w eq e] by (simp add: due_def)
next
  case False
  then show ?thesis using assms
    by (cases e) (auto simp: due_def flight_inv_def operation_defs on_pull_def split: option.splits if_splits)
qed

lemma due_ask:
  assumes "before \<le> sent w" "flight_inv w" "\<not> forced \<Longrightarrow> is_dirty (agg w)"
  shows "due before forced (refresh_step eq (Ask forced) w)"
  using assms by (auto simp: due_def flight_inv_def try_begin_refresh_def Let_def)

lemma due_acked:
  assumes "due before forced w" "flight_inv w" "\<not> forced \<Longrightarrow> is_dirty (agg w)" "\<not> before < sent w"
  shows "acked w < sent w" "sent (refresh_step eq Acked w) = Suc (sent w)"
  using assms by (auto simp: due_def flight_inv_def finish_refresh_def Let_def)

end
