(* ===== verification/Refresh_Laws.thy ===== *)
theory Refresh_Laws
  imports Refresh_History
begin

text \<open>
  No change is hidden from an editor that pulls: a refresh asked for is sent or follows the
  one that is outstanding, and only what a pull has seen is settled by it.
\<close>

section \<open>Coverage and its stamps\<close>

abbreviation host_coverage_of :: "'u \<Rightarrow> ('u, 'd) refresh_world \<Rightarrow> host_coverage option" where
  "host_coverage_of h w \<equiv> map_of (coverage (agg w)) h"

definition pull_stale :: "'u \<Rightarrow> ('u, 'd) refresh_world \<Rightarrow> bool" where
  "pull_stale h w \<longleftrightarrow> (case host_coverage_of h w of None \<Rightarrow> False | Some c \<Rightarrow> cov_served c < cov_current c)"

lemma pull_stale_dirty: "pull_stale h w \<Longrightarrow> is_dirty (agg w)"
  by (auto simp: pull_stale_def is_dirty_def list_ex_iff split: option.splits dest!: map_of_SomeD)

text \<open>Versions and lifetimes are counted by the steps, and a stamp is not ahead of its lifetime.\<close>

definition stamp_ok :: "('u, 'd) refresh_world \<Rightarrow> 'u pull \<Rightarrow> bool" where
  "stamp_ok w p \<longleftrightarrow>
     (case pl_stamp p of
        None \<Rightarrow> True
      | Some st \<Rightarrow> st_epoch st < next_coverage_epoch (agg w) \<and>
          (case host_coverage_of (pl_host p) w of
             None \<Rightarrow> True
           | Some c \<Rightarrow> cov_epoch c = st_epoch st \<longrightarrow> st_version st \<le> cov_current c))"

definition coverage_ok :: "nat \<Rightarrow> ('u, 'd) refresh_world \<Rightarrow> 'u \<Rightarrow> bool" where
  "coverage_ok n w h \<longleftrightarrow>
     (case host_coverage_of h w of
        None \<Rightarrow> True
      | Some c \<Rightarrow> cov_epoch c < next_coverage_epoch (agg w) \<and> cov_served c \<le> cov_current c \<and>
          unat (cov_current c) \<le> n)"

definition coverage_inv :: "nat \<Rightarrow> ('u, 'd) refresh_world \<Rightarrow> bool" where
  "coverage_inv n w \<longleftrightarrow>
     unat (next_coverage_epoch (agg w)) \<le> n \<and> (\<forall>h. coverage_ok n w h) \<and>
     (\<forall>i < length (pulls w). stamp_ok w (pulls w ! i))"

lemma coverage_inv_start: "coverage_inv 0 refresh_start"
  by (simp add: coverage_inv_def coverage_ok_def refresh_start_def aggregator_new_def)

lemma inc_word: "unat (x :: u64) \<le> n \<Longrightarrow> n < 2 ^ 64 - 1 \<Longrightarrow> unat (x + 1) = Suc (unat x) \<and> x < x + 1"
  by (simp add: unat_word_ariths word_less_nat_alt)

lemma coverage_inv_mono: "coverage_inv n w \<Longrightarrow> coverage_inv (Suc n) w"
  by (auto simp: coverage_inv_def coverage_ok_def le_Suc_eq split: option.splits)

text \<open>Steps that leave the coverage and the pulls alone.\<close>

lemma coverage_inv_frame:
  assumes "coverage_inv n w" "coverage (agg w') = coverage (agg w)"
    "next_coverage_epoch (agg w') = next_coverage_epoch (agg w)" "pulls w' = pulls w"
  shows "coverage_inv n w'"
  using assms by (simp add: coverage_inv_def coverage_ok_def stamp_ok_def cong: option.case_cong)

lemma coverage_inv_step:
  assumes "coverage_inv n w" "n < 2 ^ 64 - 1"
  shows "coverage_inv (Suc n) (refresh_step eq e w)"
proof (cases e)
  case (Pushed h)
  have inv: "unat (next_coverage_epoch (agg w)) \<le> n" "coverage_ok n w h'" "i < length (pulls w) \<Longrightarrow> stamp_ok w (pulls w ! i)" for h' i
    using assms(1) by (auto simp: coverage_inv_def)
  let ?w = "refresh_step eq e w"
  show ?thesis
  proof (cases "host_coverage_of h w")
    case None
    then have agg: "host_coverage_of h' ?w = (if h' = h then Some \<lparr>cov_epoch = next_coverage_epoch (agg w), cov_current = 1, cov_served = 0\<rparr> else host_coverage_of h' w)"
      "next_coverage_epoch (agg ?w) = next_coverage_epoch (agg w) + 1" "pulls ?w = pulls w" for h'
      using Pushed by (auto simp: bump_current_def update_conv')
    note e = inc_word [OF inv(1) assms(2)]
    have "coverage_ok (Suc n) ?w h'" for h'
      using inv(2) [of h'] e by (auto simp: coverage_ok_def agg split: option.splits)
    moreover have "stamp_ok ?w (pulls w ! i)" if "i < length (pulls w)" for i
      using inv(3) [OF that] e by (auto simp: stamp_ok_def agg split: option.splits)
    ultimately show ?thesis using inv(1) e by (simp add: coverage_inv_def agg)
  next
    case (Some c)
    then have agg: "host_coverage_of h' ?w = (if h' = h then Some (c\<lparr>cov_current := cov_current c + 1\<rparr>) else host_coverage_of h' w)"
      "next_coverage_epoch (agg ?w) = next_coverage_epoch (agg w)" "pulls ?w = pulls w" for h'
      using Pushed by (auto simp: bump_current_def update_conv')
    have c: "unat (cov_current c + 1) = Suc (unat (cov_current c))" "cov_current c < cov_current c + 1"
      using inv(2) [of h] Some inc_word [OF _ assms(2)] by (auto simp: coverage_ok_def)
    have "coverage_ok (Suc n) ?w h'" for h'
      using inv(2) [of h'] Some c by (auto simp: coverage_ok_def agg split: option.splits)
    moreover have "stamp_ok ?w (pulls w ! i)" if "i < length (pulls w)" for i
      using inv(3) [OF that] Some c by (auto simp: stamp_ok_def agg split: option.splits)
    ultimately show ?thesis using inv(1) by (simp add: coverage_inv_def agg)
  qed
next
  case (Begin_Pull h)
  let ?w = "refresh_step eq e w"
  have w: "coverage (agg ?w) = coverage (agg w)" "next_coverage_epoch (agg ?w) = next_coverage_epoch (agg w)"
    "pulls ?w = pulls w @ [\<lparr>pl_host = h, pl_stamp = take_coverage_stamp h (agg w), pl_lag = pull_view_lag_stamp h (agg w)\<rparr>]"
    using Begin_Pull by simp_all
  have "coverage_ok (Suc n) ?w h'" for h'
    using coverage_inv_mono [OF assms(1)] w(1,2) by (simp add: coverage_inv_def coverage_ok_def cong: option.case_cong)
  moreover have "stamp_ok ?w (pulls ?w ! i)" if "i < length (pulls ?w)" for i
  proof (cases "i < length (pulls w)")
    case True
    then have "stamp_ok w (pulls w ! i)" using assms(1) by (simp add: coverage_inv_def)
    then show ?thesis using w True by (simp add: stamp_ok_def nth_append cong: option.case_cong)
  next
    case False
    then have "pulls ?w ! i = \<lparr>pl_host = h, pl_stamp = take_coverage_stamp h (agg w), pl_lag = pull_view_lag_stamp h (agg w)\<rparr>"
      using that w(3) by (simp add: nth_append)
    moreover have "coverage_ok n w h" using assms(1) by (simp add: coverage_inv_def)
    ultimately show ?thesis using w
      by (auto simp: stamp_ok_def take_coverage_stamp_def coverage_ok_def split: option.splits)
  qed
  ultimately show ?thesis using assms(1) w by (simp add: coverage_inv_def)
next
  case (Serve i)
  then show ?thesis
  proof (cases "i < length (pulls w)")
    case i: True
    let ?p = "pulls w ! i" and ?w = "refresh_step eq e w"
    show ?thesis
    proof (cases "\<exists>st c. pl_stamp ?p = Some st \<and> host_coverage_of (pl_host ?p) w = Some c \<and> cov_epoch c = st_epoch st")
      case True
      then obtain st c where st: "pl_stamp ?p = Some st" "host_coverage_of (pl_host ?p) w = Some c" "cov_epoch c = st_epoch st"
        by blast
      then have w: "host_coverage_of h ?w =
          (if h = pl_host ?p then Some (c\<lparr>cov_served := max (cov_served c) (st_version st)\<rparr>) else host_coverage_of h w)"
        "next_coverage_epoch (agg ?w) = next_coverage_epoch (agg w)" "pulls ?w = pulls w" for h
        using Serve i by (auto simp: on_pull_def mark_served_def update_conv')
      have s: "stamp_ok w ?p" using assms(1) i by (simp add: coverage_inv_def)
      have "coverage_ok (Suc n) ?w h" for h
      proof -
        have "coverage_ok (Suc n) w h" using coverage_inv_mono [OF assms(1)] by (simp add: coverage_inv_def)
        then show ?thesis using st s by (auto simp: coverage_ok_def stamp_ok_def w split: option.splits)
      qed
      moreover have "stamp_ok ?w (pulls w ! j)" if "j < length (pulls w)" for j
      proof -
        have "stamp_ok w (pulls w ! j)" using assms(1) that by (simp add: coverage_inv_def)
        then show ?thesis using st by (auto simp: stamp_ok_def w split: option.splits)
      qed
      ultimately show ?thesis using assms(1) by (simp add: coverage_inv_def w)
    next
      case False
      then have "agg ?w = agg w" "pulls ?w = pulls w"
        using Serve i by (auto simp: on_pull_def mark_served_def split: option.splits)
      then show ?thesis by (intro coverage_inv_frame [OF coverage_inv_mono [OF assms(1)]]) simp_all
    qed
  qed (use coverage_inv_mono [OF assms(1)] in \<open>simp add: on_pull_def\<close>)
next
  case (Close h)
  let ?w = "refresh_step eq e w"
  have w: "host_coverage_of h' ?w = (if h' = h then None else host_coverage_of h' w)"
    "next_coverage_epoch (agg ?w) = next_coverage_epoch (agg w)" "pulls ?w = pulls w" for h'
    using Close by (auto simp: forget_degraded_pull_def forget_coverage_def forget_published_def delete_conv')
  have inv: "coverage_inv (Suc n) w" by (rule coverage_inv_mono [OF assms(1)])
  have "coverage_ok (Suc n) ?w h'" for h'
  proof -
    have "coverage_ok (Suc n) w h'" using inv by (simp add: coverage_inv_def)
    then show ?thesis by (simp add: coverage_ok_def w cong: option.case_cong)
  qed
  moreover have "stamp_ok ?w (pulls w ! i)" if "i < length (pulls w)" for i
  proof -
    have "stamp_ok w (pulls w ! i)" using assms(1) that by (simp add: coverage_inv_def)
    then show ?thesis by (auto simp: stamp_ok_def w split: option.splits)
  qed
  ultimately show ?thesis using inv by (simp add: coverage_inv_def w)
qed (rule coverage_inv_frame [OF coverage_inv_mono [OF assms(1)]];
  simp add: operation_defs on_pull_def split: option.splits)+

section \<open>Only later pulls cover a push\<close>

abbreviation run :: "('d \<Rightarrow> 'd \<Rightarrow> bool) \<Rightarrow> ('u, 'd) refresh_event list \<Rightarrow> ('u, 'd) refresh_world" where
  "run eq es \<equiv> fold (refresh_step eq) es refresh_start"

lemma coverage_inv_run: "length es < 2 ^ 64 \<Longrightarrow> coverage_inv (length es) (run eq es)"
proof (induction es rule: rev_induct)
  case Nil show ?case by (simp add: coverage_inv_start)
next
  case (snoc e es)
  then show ?case using coverage_inv_step [of "length es" "run eq es" eq e] by simp
qed

text \<open>The host stays open, and of the pulls only the first \<open>n\<close> answer.\<close>

fun only_earlier_pulls :: "'u \<Rightarrow> nat \<Rightarrow> ('u, 'd) refresh_event \<Rightarrow> bool" where
  "only_earlier_pulls h n (Close h') \<longleftrightarrow> h' \<noteq> h"
| "only_earlier_pulls h n (Serve i) \<longleftrightarrow> i < n"
| "only_earlier_pulls h n _ \<longleftrightarrow> True"

text \<open>A push is ahead of what the first \<open>n\<close> pulls have seen.\<close>

definition behind :: "nat \<Rightarrow> u64 \<Rightarrow> 'u \<Rightarrow> ('u, 'd) refresh_world \<Rightarrow> bool" where
  "behind n v h w \<longleftrightarrow> n \<le> length (pulls w) \<and>
     (\<exists>c. host_coverage_of h w = Some c \<and> cov_served c \<le> v \<and> v < cov_current c \<and>
        (\<forall>i < n. \<forall>st. pl_host (pulls w ! i) = h \<longrightarrow> pl_stamp (pulls w ! i) = Some st \<longrightarrow>
           st_epoch st = cov_epoch c \<longrightarrow> st_version st \<le> v))"

lemma behind_stale: "behind n v h w \<Longrightarrow> pull_stale h w"
  by (auto simp: behind_def pull_stale_def)

lemma behindI:
  assumes "behind n v h w" "host_coverage_of h w' = host_coverage_of h w" "length (pulls w) \<le> length (pulls w')"
    "\<And>i. i < length (pulls w) \<Longrightarrow> pulls w' ! i = pulls w ! i"
  shows "behind n v h w'"
proof -
  have "pulls w' ! i = pulls w ! i" if "i < n" for i
    using assms(1,4) that by (simp add: behind_def)
  then show ?thesis using assms(1,2,3) by (auto simp: behind_def)
qed

lemma behind_push:
  assumes "coverage_inv k w" "k < 2 ^ 64 - 1"
  shows "\<exists>v. behind (length (pulls w)) v h (refresh_step eq (Pushed h) w)"
proof (cases "host_coverage_of h w")
  case None
  have "st_epoch st \<noteq> next_coverage_epoch (agg w)"
    if "i < length (pulls w)" "pl_stamp (pulls w ! i) = Some st" for i st
  proof -
    have "stamp_ok w (pulls w ! i)" using assms(1) that(1) by (simp add: coverage_inv_def)
    then show ?thesis using that(2) by (auto simp: stamp_ok_def)
  qed
  then have "behind (length (pulls w)) 0 h (refresh_step eq (Pushed h) w)"
    using None by (auto simp: behind_def bump_current_def update_conv')
  then show ?thesis by blast
next
  case (Some c)
  have c: "cov_served c \<le> cov_current c" "unat (cov_current c) \<le> k"
    using assms(1) Some by (auto simp: coverage_inv_def coverage_ok_def split: option.splits dest: spec [of _ h])
  have "st_version st \<le> cov_current c"
    if "i < length (pulls w)" "pl_host (pulls w ! i) = h" "pl_stamp (pulls w ! i) = Some st" "st_epoch st = cov_epoch c" for i st
  proof -
    have "stamp_ok w (pulls w ! i)" using assms(1) that(1) by (simp add: coverage_inv_def)
    then show ?thesis using that Some by (simp add: stamp_ok_def)
  qed
  then have "behind (length (pulls w)) (cov_current c) h (refresh_step eq (Pushed h) w)"
    using Some c inc_word [OF c(2) assms(2)] by (auto simp: behind_def bump_current_def update_conv')
  then show ?thesis by blast
qed

lemma behind_step:
  assumes "behind n v h w" "only_earlier_pulls h n e" "coverage_inv k w" "k < 2 ^ 64 - 1"
  shows "behind n v h (refresh_step eq e w)"
proof -
  obtain c where c: "host_coverage_of h w = Some c" "cov_served c \<le> v" "v < cov_current c"
    and st: "\<And>i st. i < n \<Longrightarrow> pl_host (pulls w ! i) = h \<Longrightarrow> pl_stamp (pulls w ! i) = Some st \<Longrightarrow>
      st_epoch st = cov_epoch c \<Longrightarrow> st_version st \<le> v" and n: "n \<le> length (pulls w)"
    using assms(1) unfolding behind_def by blast
  show ?thesis
  proof (cases e)
    case (Pushed h')
    have "unat (cov_current c) \<le> k"
      using assms(3) c(1) by (auto simp: coverage_inv_def coverage_ok_def split: option.splits dest: spec [of _ h])
    then have "v < cov_current c + 1" using c(3) inc_word [OF _ assms(4)] by (meson less_trans)
    then show ?thesis
      using Pushed c st n by (auto simp: behind_def bump_current_def update_conv' split: option.splits)
  next
    case (Serve i)
    then have i: "i < n" using assms(2) by simp
    let ?p = "pulls w ! i"
    show ?thesis
    proof (cases "pl_host ?p = h \<and> (\<exists>s. pl_stamp ?p = Some s \<and> cov_epoch c = st_epoch s)")
      case True
      then obtain s where s: "pl_host ?p = h" "pl_stamp ?p = Some s" "cov_epoch c = st_epoch s" by blast
      have "host_coverage_of h (refresh_step eq e w) = Some (c\<lparr>cov_served := max (cov_served c) (st_version s)\<rparr>)"
        "pulls (refresh_step eq e w) = pulls w"
        using Serve s c(1) i n by (auto simp: on_pull_def mark_served_def update_conv')
      then show ?thesis using c st st [OF i s(1,2) s(3) [symmetric]] n by (auto simp: behind_def)
    next
      case False
      then show ?thesis using Serve c i n
        by (intro behindI [OF assms(1)])
          (auto simp: on_pull_def mark_served_def update_conv' split: option.splits)
    qed
  next
    case (Close h')
    then show ?thesis using assms(2)
      by (intro behindI [OF assms(1)])
        (simp_all add: forget_degraded_pull_def forget_coverage_def forget_published_def delete_conv')
  qed (intro behindI [OF assms(1)]; simp add: operation_defs on_pull_def nth_append split: option.splits)+
qed

section \<open>No push is hidden\<close>

text \<open>After the request: covered by no pull so far, and a refresh was sent or will follow.\<close>

lemma due_run:
  assumes "behind n v h w" "due before f w" "before \<le> sent w" "flight_inv w"
    "coverage_inv k w" "k + length es < 2 ^ 64" "list_all (only_earlier_pulls h n) es"
  shows "behind n v h (fold (refresh_step eq) es w) \<and> due before False (fold (refresh_step eq) es w)"
  using assms
proof (induction es arbitrary: w k f)
  case Nil then show ?case by (auto simp: due_def)
next
  case (Cons e es)
  let ?w = "refresh_step eq e w"
  have k: "k < 2 ^ 64 - 1" using Cons.prems(6) by simp
  have due: "due before False w" using Cons.prems(2) by (auto simp: due_def)
  have "behind n v h ?w" by (rule behind_step [OF Cons.prems(1) _ Cons.prems(5) k]) (use Cons.prems(7) in simp)
  moreover have "due before False ?w"
    using pull_stale_dirty [OF behind_stale [OF Cons.prems(1)]]
    by (intro due_step [OF due Cons.prems(3,4)]) simp
  ultimately show ?case
    using Cons.IH [of ?w False "Suc k"] Cons.prems sent_mono [of w eq e] flight_inv_step [of w eq e]
      coverage_inv_step [OF Cons.prems(5) k] by simp
qed

lemma behind_run:
  assumes "behind n v h w" "coverage_inv k w" "k + length es < 2 ^ 64" "list_all (only_earlier_pulls h n) es"
  shows "behind n v h (fold (refresh_step eq) es w)"
  using assms
proof (induction es arbitrary: w k)
  case (Cons e es)
  have k: "k < 2 ^ 64 - 1" using Cons.prems(3) by simp
  have "behind n v h (refresh_step eq e w)"
    by (rule behind_step [OF Cons.prems(1) _ Cons.prems(2) k]) (use Cons.prems(4) in simp)
  then show ?case
    using Cons.IH [of "refresh_step eq e w" "Suc k"] Cons.prems coverage_inv_step [OF Cons.prems(2) k] by simp
qed simp

text \<open>
  A push of a host, followed by a request for a refresh, is never hidden: whatever else happens around
  the two, as long as no pull that began after the push answers and the host stays open, the editor was
  told to pull again since, or is told when it acknowledges the request that is outstanding.
\<close>

lemma push_is_nudged:
  fixes eq :: "'d \<Rightarrow> 'd \<Rightarrow> bool" and h :: 'u
    and pre mid post :: "('u, 'd) refresh_event list" and f :: bool
  defines "before \<equiv> run eq pre" and "now \<equiv> run eq (pre @ Pushed h # mid @ Ask f # post)"
  assumes short: "length (pre @ Pushed h # mid @ Ask f # post) < 2 ^ 64"
    and earlier: "list_all (only_earlier_pulls h (length (pulls before))) (mid @ post)"
  shows "sent before < sent now \<or> acked now < sent now \<and> sent (refresh_step eq Acked now) = Suc (sent now)"
proof -
  let ?n = "length (pulls before)"
  let ?pushed = "refresh_step eq (Pushed h) before"
  let ?asking = "fold (refresh_step eq) mid ?pushed"
  let ?asked = "refresh_step eq (Ask f) ?asking"
  have runs: "?pushed = run eq (pre @ [Pushed h])" "?asking = run eq (pre @ Pushed h # mid)"
    "?asked = run eq (pre @ Pushed h # mid @ [Ask f])" "now = fold (refresh_step eq) post ?asked"
    by (simp_all add: before_def now_def)
  have flight: "flight_inv (run eq es)" for es :: "('u, 'd) refresh_event list"
    by (rule flight_inv_run [OF flight_inv_start])
  have "length pre < 2 ^ 64 - 1" using short by simp
  then obtain v where v: "behind ?n v h ?pushed"
    using behind_push [of "length pre" before h eq] coverage_inv_run [of pre eq] by (auto simp: before_def)
  have "coverage_inv (Suc (length pre)) ?pushed"
    using coverage_inv_run [of "pre @ [Pushed h]" eq] short unfolding runs by simp
  then have asking: "behind ?n v h ?asking"
    by (rule behind_run [OF v]) (use short earlier in simp_all)
  have le: "sent before \<le> sent ?asking" "sent before \<le> sent ?asked"
    using sent_mono [of before eq "Pushed h"] sent_mono_run [of ?pushed eq mid] sent_mono [of ?asking eq "Ask f"]
    by simp_all
  have dirty: "is_dirty (agg ?asking)" by (rule pull_stale_dirty [OF behind_stale [OF asking]])
  have "flight_inv ?asking" unfolding runs(2) by (rule flight)
  note flight_of = this flight_inv_step [OF this, of eq "Ask f"]
  have due: "due (sent before) f ?asked"
    by (rule due_ask [OF le(1) flight_of(1)]) (use dirty in simp)
  have cov: "coverage_inv (length (pre @ Pushed h # mid)) ?asking"
      "coverage_inv (length (pre @ Pushed h # mid @ [Ask f])) ?asked"
    using coverage_inv_run [of "pre @ Pushed h # mid" eq] coverage_inv_run [of "pre @ Pushed h # mid @ [Ask f]" eq] short
    unfolding runs by simp_all
  have asked: "behind ?n v h ?asked"
    by (rule behind_step [OF asking _ cov(1)]) (use short in simp_all)
  have last: "behind ?n v h now \<and> due (sent before) False now" unfolding runs(4)
    by (rule due_run [OF asked due le(2) flight_of(2) cov(2)]) (use short earlier in simp_all)
  then have "is_dirty (agg now)" by (intro pull_stale_dirty [OF behind_stale]) (rule conjunct1)
  moreover have "flight_inv now" unfolding now_def by (rule flight)
  ultimately show ?thesis using last due_acked [of "sent before" False now] by auto
qed

end
