(* ===== verification/Spec2Isabelle.thy ===== *)
theory Spec2Isabelle
  imports Position_Batch Token_Delta Router_History Tracker_Samples Ingress_Fifo Region_Samples
    Effective_Range Injection_Content Crash_Recovery Config_Strip Config_Workspace
    Document_Samples Parse_Scheduler Bindings_Laws Store_Properties
    Refresh_Laws
begin

text \<open>
  \<^bold>\<open>Kakehashi\<close> is a language server that stands between an editor and other language servers:
  it highlights a host document with tree-sitter, finds the regions of other languages
  injected into it, and bridges each region, as a virtual document, to the language server of
  its language. This development models the parts of \<open>src/src\<close> that carry its own logic and
  proves what makes them correct.

  \<^bold>\<open>Foundations.\<close> \<open>Prelude\<close> has the machine integers, lists and maps in bulk; \<open>Rust_Str\<close>
  has Rust strings: a string is the list of its scalar values, byte offsets index its UTF-8
  encoding, and slicing off a boundary is the panic \<open>None\<close>. \<open>Histories\<close> is the contract of a
  component whose operations are atomic under a lock.

  \<^bold>\<open>Text.\<close> \<open>Text_Columns\<close> models \<open>text/char_boundary.rs\<close> and the column conversions of
  \<open>text/position.rs\<close>; its locale \<open>column_map\<close> is the interface of a byte column to UTF-16
  column conversion, which both conversions of the code implement. \<open>Position_Batch\<close> models
  the batched scan of \<open>text/position.rs\<close> and proves it equal to a scan per position;
  \<open>Position_Mapper\<close> models the mapper of that file over the line index crate and proves that
  the two agree. \<open>Text_Sync\<close> models \<open>lsp/text_sync.rs\<close>, the content changes of a client and
  the edits given to tree-sitter for them.
  \<open>Lone_Cr\<close> models \<open>text/lone_cr.rs\<close>; the specification counts LSP line ends from the start
  of the text. \<open>Text_Edits\<close> models \<open>text/edit.rs\<close>: the one forward copy never panics and equals
  \<open>apply_back_to_front\<close>, which applies the edits that do not overlap an earlier one by one, the last
  first, each as a replacement in the text that the one before it left.

  \<^bold>\<open>Semantic tokens.\<close> \<open>Tokens\<close> has the token types of \<open>token_collector.rs\<close> and what tokens
  paint on a column. \<open>Token_Regions\<close> (cutting multiline tokens, injection regions, \<open>@none\<close>
  captures), \<open>Token_Sweep\<close> (the heap sweep that settles overlaps) and \<open>Token_Finalize\<close> (the
  pipeline and the relative encoding) model \<open>analysis/semantic/finalize.rs\<close>. \<open>Token_Delta\<close>
  models \<open>delta.rs\<close> and \<open>range.rs\<close> beside it; the specification is a client that applies the
  answer to what it holds.

  \<^bold>\<open>Requests to a downstream server.\<close> \<open>Response_Router\<close> models
  \<open>lsp/bridge/actor/response_router.rs\<close>, one function per operation under its mutex.
  \<open>Router_Invariants\<close> has the invariant of its tables and the replies each operation sends;
  \<open>Router_History\<close> runs any sequence of operations and states what holds over time: one reply
  to each waiter, one write of each request, nothing after closing.

  \<^bold>\<open>Node identities.\<close> \<open>Node_Edits\<close>, \<open>Tree_Scopes\<close>, \<open>Node_Index\<close> and \<open>Node_Tracker\<close> model
  \<open>language/node_tracker.rs\<close> and \<open>tree_scope.rs\<close>: positions moved by edits, parse scopes, the
  index of one document and the tracker of all. \<open>Node_Index_Laws\<close>, \<open>Node_Layers_Laws\<close> and
  \<open>Node_Tracker_Laws\<close> have the laws of each layer; \<open>Tracker_History\<close> interprets \<open>Histories\<close> on
  the tracker and states what holds over any interleaving of operations; \<open>Tracker_Latch\<close> and
  \<open>Tracker_Batches\<close> have edits, lifetimes, latches and batches. What an edit does to an id is stated on
  positions alone (\<open>start_hit\<close>, \<open>position_after\<close>, \<open>scope_lost\<close>), for edits whose ends are in order. \<open>Tracker_Samples\<close> applies the
  properties at a concrete document.

  \<^bold>\<open>Order of messages.\<close> \<open>Ingress_Order\<close> models \<open>lsp/ingress_order.rs\<close>, from the
  classification of messages to the gates on their futures, as a step relation.
  \<open>Ingress_Fifo\<close> proves that it implements one queue per document and never wedges.

  \<^bold>\<open>Regions and their documents.\<close> \<open>Region_Offset\<close> models \<open>lsp/bridge/protocol/translation.rs\<close>
  and gives it a meaning: a host text in which every virtual line stands behind its prefix.
  \<open>Virtual_Uri\<close> models \<open>virtual_uri.rs\<close> beside it, and \<open>Workspace_Edit\<close> models
  \<open>workspace_edit.rs\<close>. \<open>Region_Edits\<close> proves what the guards on edits are for: an accepted edit
  commutes with the embedding of the virtual text. \<open>Edit_Transform\<close> states what becomes of each
  document of a workspace edit, and \<open>Region_Samples\<close> applies the properties.

  \<^bold>\<open>Injections.\<close> \<open>Injection_Ranges\<close> models \<open>language/injection/ranges.rs\<close>: the byte ranges
  of a node outside its children, with tree-sitter nodes given by their extents.
  \<open>Injection_Content\<close> models \<open>content.rs\<close> beside it and proves that what it computes for an
  injection is a hosted region, so that the results on regions hold of it. That is for content taken
  whole, and for included ranges that start with the content, each behind the prefix of its line, and
  all but the last end a line; ranges with gaps inside a line are outside of it, as one column per line
  cannot describe them. \<open>Effective_Range\<close>
  models \<open>analysis/offset_calculator.rs\<close>, the ranges moved by an \<open>#offset!\<close> directive.

  \<^bold>\<open>Recovery.\<close> \<open>Crash_Recovery\<close> models \<open>lsp/bridge/pool/crash_recovery.rs\<close>, the delays and
  the budget of restarts after crashes; what it answers is proved from the history of crashes
  and attempts alone. \<open>stand_down\<close> frees the lock between its two halves, which are steps of their own
  where another caller comes in between.

  \<^bold>\<open>Documents and their parses.\<close> \<open>Snapshot_Cell\<close>, \<open>Document_Model\<close> and \<open>Document_Store\<close> model
  \<open>document/snapshot.rs\<close>, \<open>model.rs\<close> and \<open>store.rs\<close>: the slot a parse is published in, the
  document with its log of edits, and the store with its watermarks. \<open>Store_History\<close> lets
  documents be opened, changed, reloaded and closed while parses publish in any order;
  \<open>Store_Laws\<close>, \<open>Store_Invariant\<close> and \<open>Store_Safety\<close> have the invariant and interpret \<open>Histories\<close>
  for any line index that behaves as documented. \<open>Store_Properties\<close> states what readers see,
  that an incremental seed keeps tree-sitter's contract, and that nothing goes back within a
  lifetime.

  \<^bold>\<open>Open virtual documents.\<close> \<open>Document_Tracker\<close> models \<open>lsp/bridge/pool/document_tracker.rs\<close>: which
  virtual document is open on which connection, its version, and the URIs a producer has
  seen. \<open>Document_Laws\<close> has its invariant, kept by every method, and interprets \<open>Histories\<close> on
  it; \<open>Document_Lifecycle\<close> gives each document on each connection a phase, proves that the
  methods move it along the edges of a small state machine, and what callers rely on follows. The count
  of open documents is exact for callers that keep to \<open>orderly\<close>, which the methods do not check.
  \<open>Document_Samples\<close> applies this and shows histories that break it: an untracking on a connection that
  never tracked the document, and a purge that meets an opening.

  \<^bold>\<open>Parsing.\<close> \<open>Parse_Scheduler\<close> models \<open>lsp/lsp_impl/parse_scheduler.rs\<close> and the loop of
  \<open>schedule_reparse\<close> that drives it, as a step relation with edits, parse loops and closing
  documents; every text of a document is a fresh number. Of \<open>reparse_latest\<close> it has the reading of the
  text and the install; the parse between them gives a tree or gives up (no language, no grammar, out of
  time, refused at the install), which is an outcome of the step. It interprets \<open>Histories\<close>: one loop per
  document; and while nothing is closed and no loop panics, the last text of a document is parsed
  before its loop ends, within eleven steps, and its tree is published if that parse gave one.

  \<^bold>\<open>Lexical names.\<close> \<open>Scope_Tree\<close> and \<open>Bindings_Model\<close> model \<open>analysis/bindings/model.rs\<close>: the
  tree of scopes, the bindings and references in it, resolution and navigation. The captures of
  the query are its input, tree-sitter nodes whose ranges nest or are disjoint.
  \<open>Scope_Tree_Laws\<close> proves the tree the one that containment gives, and \<open>Bindings_Laws\<close> states
  what a name resolves to and that definitions, references and renames agree.

  \<^bold>\<open>Configuration.\<close> \<open>Config_Types\<close> has the settings of \<open>config/settings.rs\<close>, \<open>Config_Merge\<close> the
  merging of layers in \<open>config/merge.rs\<close> and \<open>Config_Workspace\<close> what a merge of whole
  settings files gives. \<open>Config_Base\<close> resolves the bases of languages, \<open>Config_Effective\<close> the
  validation and expansion of settings and the questions asked of them, \<open>Config_Bridging\<close>
  which servers and layers answer a request, and \<open>Config_Strip\<close> the raw settings that
  \<open>config.rs\<close> reconstructs from effective ones: resolved again they give every field back but
  \<open>bridge\<close>, for chains of bases that are not circular. The locales of these theories are the laws of
  merging one field or one map along a chain, interpreted on every field of the records. A
  \<open>HashMap\<close> is a finite map, a JSON object an association list, because \<open>serde_json\<close>
  keeps insertion order there, and a string is a list of characters; the expansion of
  variables is the \<open>shellexpand\<close> crate and a parameter.

  \<^bold>\<open>Diagnostics.\<close> \<open>Diagnostic_Order\<close> models \<open>lsp/diagnostic_order.rs\<close>, the order that makes published
  sets deterministic, with the unstable sort and the serialiser as parameters: the result is sorted by
  the full key and forgets the order of its input. \<open>Diagnostic_Slots\<close> and \<open>Diagnostic_Sets\<close> model the
  cached slots of \<open>lsp/diagnostic_cache.rs\<close>, their merge, and the comparison of two sets.
  \<open>Diagnostic_Cache\<close> and \<open>Diagnostic_Refresh\<close> have its aggregator: slots, revisions, pull-view lag,
  coverage of pulls, the single flight of a refresh, degraded pulls and the debounce of forwarded
  refreshes. \<open>Refresh_History\<close> lets pushes, pulls, refreshes and acknowledgements interleave, and
  \<open>Refresh_Laws\<close> proves that a push is never hidden from an editor that pulls (\<open>push_is_nudged\<close>).
  The wire gate, the republish locks and the metrics of the cache are not modelled.

  \<^bold>\<open>Parameters and bounds.\<close> \<open>u32\<close> and \<open>u64\<close> of data are words, with their saturation or
  wrapping written out. \<open>usize\<close> counts something in memory and is a natural number, as are
  counters that grow by one with each message (tickets, generations, draws of ids); versions
  of virtual documents are integers, which a session does not count beyond \<open>i32\<close>. Lifetimes and
  versions of documents wrap at \<open>2 ^ 64\<close>; what is proved of them holds for the first
  \<open>step_limit\<close> steps, which is \<open>2 ^ 64 - 2\<close>.
  The id of the \<open>n\<close>-th draw of \<open>Ulid::generate\<close> is a parameter \<open>gen\<close>, injective where a
  property needs distinct ids; the line index crate is the parameter \<open>new\<close>,
  whose documented behaviour is the hypothesis \<open>indexes\<close> and which \<open>plain_index\<close> satisfies, and
  where only its conversion matters the parameter \<open>to_byte\<close>, about which nothing is assumed. The
  equality of JSON numbers, the serialiser and the sort of diagnostics are parameters. URL parsing, the acceptance of URIs and
  percent-encoding are the parameters \<open>parse\<close>, \<open>accepts\<close> and \<open>encode\<close>, with their documented laws
  as named hypotheses; the position mapper of \<open>region_host_end\<close> is one that finds the end of a text. Oneshot channels are numbers; hash maps whose
  order the code can observe are lists with distinct keys, and nothing is proved from their
  order. Recursions are structural or have a measure. The loops that follow parents outwards in
  the tree of scopes, and its descent, run for as many turns as there are scopes, which is enough
  because a parent has a smaller number (\<open>walk_turns\<close>, \<open>find_outward_turns\<close>,
  \<open>descend_correct\<close>).

  \<^bold>\<open>Atomicity.\<close> An operation that holds a lock for its effect is one function; what it does
  before taking the lock is a guard of its own, and histories run the locked part in any later
  state. \<open>mint_epoch\<close> reads its two halves in one step here, while the code reads them one
  after the other; the latch check compares both halves, so a torn pair is only a latch that
  no state ever had. The futures of the ingress middleware are polled by one task, so
  that releasing a gate and finishing a close are one step.

  The methods of the document tracker lock its maps one after the other; each is one step
  here, so what a reader sees between the locks of another method is not covered.

  \<^bold>\<open>Not modelled.\<close> Cancellation checkpoints of the token finalizer (the cancellation token is
  absent, as in range requests); edit locks and cancellation tokens of documents;
  \<open>apply_text_diff\<close>, which rests on the \<open>similar\<close> crate; waking the waiters of a router's
  terminal state; functions compiled for tests only; of the configuration its deserialisation,
  built-in defaults, user files and the reports of unknown and deprecated keys. Outside these components: the
  asynchronous reader and writer loops, process and socket handling, file system, downloads,
  and walks over tree-sitter trees, which consist of calls to libraries.
\<close>

end
